(* ===== verification/Prelude.thy ===== *)
theory Prelude
  imports Main "HOL-Library.Word" "HOL-Library.Signed_Division"
begin

text \<open>
  What the component theories share: the machine types, the values that stand for undefined
  behaviour of the C++ source, checked access to a \<open>std::vector\<close>, and the collections of
  rewrite rules the component proofs use.

  A C++ expression whose behaviour is undefined (an index outside a vector, a division by
  zero, a view outside its buffer, a null submission entry, a shift by 64 or more, a failed assertion of the queue) evaluates
  to \<open>Inl\<close> of a reason; a defined one to \<open>Inr\<close> of its value. \<open>ub_bind\<close> is sequencing.
\<close>

type_synonym u64 = "64 word"
type_synonym u32 = "32 word"
type_synonym u16 = "16 word"
type_synonym bytes = string

named_theorems ub_simps \<open>evaluation of sequences of possibly undefined operations\<close>
named_theorems frame_simps \<open>components an operation leaves unchanged\<close>

datatype ub =
    Bad_index
  | Bad_view
  | Div_by_zero
  | Signed_overflow
  | Null_sqe
  | Null_conn
  | Wide_shift
  | Queue_failure

section \<open>Sequencing\<close>

definition ub_bind :: "ub + 'a \<Rightarrow> ('a \<Rightarrow> ub + 'b) \<Rightarrow> ub + 'b" where
  "ub_bind m f = (case m of Inl e \<Rightarrow> Inl e | Inr x \<Rightarrow> f x)"

lemma ub_bind_simps [simp, ub_simps]:
  "ub_bind (Inl e) f = Inl e"
  "ub_bind (Inr x) f = f x"
  by (simp_all add: ub_bind_def)

lemma ub_bind_Inr_iff:
  "ub_bind m f = Inr y \<longleftrightarrow> (\<exists>x. m = Inr x \<and> f x = Inr y)"
  by (cases m) simp_all

lemma ub_bind_InrE [elim!]:
  assumes "ub_bind m f = Inr y"
  obtains x where "m = Inr x" "f x = Inr y"
  using assms by (auto simp: ub_bind_Inr_iff)

lemma ub_bind_cong [fundef_cong]:
  "m = m' \<Longrightarrow> (\<And>x. m' = Inr x \<Longrightarrow> f x = g x) \<Longrightarrow> ub_bind m f = ub_bind m' g"
  by (cases m') simp_all

lemma ub_bind_assoc: "ub_bind (ub_bind m f) g = ub_bind m (\<lambda>x. ub_bind (f x) g)"
  by (cases m) simp_all

definition ub_map :: "('a \<Rightarrow> 'b) \<Rightarrow> ub + 'a \<Rightarrow> ub + 'b" where
  "ub_map f m = ub_bind m (\<lambda>x. Inr (f x))"

lemma ub_map_simps [simp, ub_simps]:
  "ub_map f (Inl e) = Inl e"
  "ub_map f (Inr x) = Inr (f x)"
  by (simp_all add: ub_map_def)

lemma ub_map_Inr_iff: "ub_map f m = Inr y \<longleftrightarrow> (\<exists>x. m = Inr x \<and> y = f x)"
  by (cases m) auto

section \<open>Vectors\<close>

text \<open>\<open>v[i]\<close> with an \<open>int\<close> index, as an rvalue and as an assignment.\<close>

definition vec_at :: "'a list \<Rightarrow> int \<Rightarrow> ub + 'a" where
  "vec_at v i = (if 0 \<le> i \<and> i < int (length v) then Inr (v ! nat i) else Inl Bad_index)"

definition vec_put :: "'a list \<Rightarrow> int \<Rightarrow> 'a \<Rightarrow> ub + 'a list" where
  "vec_put v i x = (if 0 \<le> i \<and> i < int (length v) then Inr (v[nat i := x]) else Inl Bad_index)"

lemma vec_at_Inr_iff: "vec_at v i = Inr x \<longleftrightarrow> 0 \<le> i \<and> i < int (length v) \<and> x = v ! nat i"
  by (auto simp: vec_at_def)

lemma vec_put_Inr_iff:
  "vec_put v i x = Inr v' \<longleftrightarrow> 0 \<le> i \<and> i < int (length v) \<and> v' = v[nat i := x]"
  by (auto simp: vec_put_def)

lemma vec_at_nat [simp, ub_simps]: "n < length v \<Longrightarrow> vec_at v (int n) = Inr (v ! n)"
  by (simp add: vec_at_def)

lemma vec_put_nat [simp, ub_simps]: "n < length v \<Longrightarrow> vec_put v (int n) x = Inr (v[n := x])"
  by (simp add: vec_put_def)

section \<open>Conversions\<close>

text \<open>
  A \<open>char\<close> is signed on the x86-64 Linux ABI, so \<open>static_cast<uint64_t>(c)\<close> extends the
  sign; a \<open>uint64_t\<close> stored in an \<open>int\<close> keeps its low 32 bits, read as two's complement.
\<close>

definition char_to_u64 :: "char \<Rightarrow> u64" where
  "char_to_u64 c = scast (of_char c :: 8 word)"

definition u64_to_int :: "u64 \<Rightarrow> int" where
  "u64_to_int w = sint (ucast w :: u32)"

lemma unat_u64: "unat (w :: u64) < 2 ^ 64"
  using unsigned_less [of w, where ?'a = nat] by simp

lemma unat_of_nat_u64: "n < 2 ^ 64 \<Longrightarrow> unat (of_nat n :: u64) = n"
  by (simp add: unsigned_of_nat take_bit_nat_eq_self)

lemma unat_add_small: "unat w + n < 2 ^ 64 \<Longrightarrow> unat (w + of_nat n :: u64) = unat w + n"
  by (simp add: unat_word_ariths unat_of_nat_u64)

lemma unat_Suc_less: "w < v \<Longrightarrow> unat (w + 1) = unat w + 1" for v w :: u64
  using unat_u64 [of v] by (simp add: word_less_nat_alt unat_word_ariths)

lemma u64_to_int_small:
  assumes "uint w < 2 ^ 31"
  shows "u64_to_int w = uint w"
proof -
  have w: "uint (ucast w :: u32) = uint w"
    using assms by (simp add: unsigned_ucast_eq take_bit_int_eq_self)
  have "sint (ucast w :: u32) = uint (ucast w :: u32)"
    using assms w
    by (simp add: sint_uint signed_take_bit_int_eq_self_iff) (smt (verit) uint_ge_0)
  with w show ?thesis by (simp add: u64_to_int_def)
qed

section \<open>Lists\<close>

lemma takeWhile_append_stop:
  "(\<And>x. x \<in> set xs \<Longrightarrow> P x) \<Longrightarrow> ys = [] \<or> \<not> P (hd ys) \<Longrightarrow> takeWhile P (xs @ ys) = xs"
  by (cases ys) (auto simp: takeWhile_append)

lemma nth_drop_hd: "n < length xs \<Longrightarrow> drop n xs = xs ! n # drop (Suc n) xs"
  by (rule Cons_nth_drop_Suc [symmetric])

lemma set_update_fill:
  assumes "n < length xs" "xs ! n = z" "x \<noteq> z"
  shows "set (xs[n := x]) - {z} = insert x (set xs - {z})"
proof -
  have "y \<in> set (xs[n := x])" if y: "y \<in> set xs" "y \<noteq> z" for y
  proof -
    from y(1) obtain j where j: "j < length xs" "xs ! j = y" by (auto simp: in_set_conv_nth)
    with y(2) assms(2) have "xs[n := x] ! j = y" by (cases "j = n") simp_all
    with j(1) show ?thesis by (metis length_list_update nth_mem)
  qed
  moreover have "x \<in> set (xs[n := x])" using assms(1) by (rule set_update_memI)
  ultimately show ?thesis
    using assms(3) set_update_subset_insert [of xs n x] by auto
qed

section \<open>Integer division\<close>

lemma div_eq_iff_bounds:
  fixes g k i :: int
  assumes "0 < k"
  shows "g div k = i \<longleftrightarrow> i * k \<le> g \<and> g < i * k + k"
proof
  assume "g div k = i"
  then show "i * k \<le> g \<and> g < i * k + k"
    using assms div_mult_mod_eq [of g k] pos_mod_bound [of k g] pos_mod_sign [of k g]
    by (metis add_le_cancel_left add.right_neutral add_strict_left_mono)
next
  assume "i * k \<le> g \<and> g < i * k + k"
  then show "g div k = i"
    using assms by (intro int_div_pos_eq [of g k i "g - i * k"]) (auto simp: algebra_simps)
qed

lemma div_less_iff_less_mult_int: "0 < k \<Longrightarrow> g div k < n \<longleftrightarrow> g < k * (n :: int)"
proof -
  assume "0 < k"
  then have "g div k < n \<longleftrightarrow> g div k + 1 \<le> n" by linarith
  also have "\<dots> \<longleftrightarrow> g < k * n"
    using \<open>0 < k\<close> div_mult_mod_eq [of g k] pos_mod_bound [of k g] pos_mod_sign [of k g]
    by (smt (verit) mult.commute mult_less_cancel_left_pos mult_left_mono int_distrib(2) zdiv_mono1 nonzero_mult_div_cancel_left)
  finally show ?thesis .
qed

lemma sdiv_nonneg: "0 \<le> a \<Longrightarrow> 0 < b \<Longrightarrow> a sdiv b = a div (b :: int)"
  by (simp add: signed_divide_int_def sgn_if)

end
