(* ===== verification/Charconv.thy ===== *)
theory Charconv
  imports Prelude
begin

text \<open>
  The parts of \<open><charconv>\<close> and \<open>std::to_string\<close> the program calls, in base 10: writing an
  unsigned size, and reading a \<open>uint64_t\<close> or an \<open>int\<close> from the longest run of digits at the
  start of a range. A read that finds no digits, or a value outside the type, leaves the
  target as it was and reports why.
\<close>

definition is_digit :: "char \<Rightarrow> bool" where
  "is_digit c \<longleftrightarrow> 48 \<le> (of_char c :: nat) \<and> (of_char c :: nat) \<le> 57"

definition digit_val :: "char \<Rightarrow> nat" where
  "digit_val c = of_char c - 48"

definition digit_char :: "nat \<Rightarrow> char" where
  "digit_char d = char_of (48 + d)"

fun dec_of_nat :: "nat \<Rightarrow> bytes" where
  "dec_of_nat n = (if n < 10 then [digit_char n] else dec_of_nat (n div 10) @ [digit_char (n mod 10)])"

declare dec_of_nat.simps [simp del]

definition digits_val :: "bytes \<Rightarrow> nat" where
  "digits_val ds = foldl (\<lambda>a c. 10 * a + digit_val c) 0 ds"

datatype errc = Errc_ok | Invalid_argument | Result_out_of_range

definition from_chars_u64 :: "bytes \<Rightarrow> u64 \<Rightarrow> u64 \<times> errc" where
  "from_chars_u64 s v =
     (let ds = takeWhile is_digit s in
      if ds = [] then (v, Invalid_argument)
      else if 2 ^ 64 \<le> digits_val ds then (v, Result_out_of_range)
      else (of_nat (digits_val ds), Errc_ok))"

definition from_chars_int :: "bytes \<Rightarrow> int \<Rightarrow> int \<times> errc" where
  "from_chars_int s v =
     (let neg = (s \<noteq> [] \<and> hd s = CHR ''-'');
          ds = takeWhile is_digit (if neg then tl s else s);
          n = (if neg then - int (digits_val ds) else int (digits_val ds)) in
      if ds = [] then (v, Invalid_argument)
      else if n < - (2 ^ 31) \<or> 2 ^ 31 \<le> n then (v, Result_out_of_range)
      else (n, Errc_ok))"

section \<open>Writing then reading\<close>

lemma of_char_digit_char: "d < 10 \<Longrightarrow> of_char (digit_char d) = 48 + d"
  by (simp add: digit_char_def of_char_of)

lemma digit_char_props [simp]:
  assumes "d < 10"
  shows "is_digit (digit_char d)" "digit_val (digit_char d) = d"
  using assms by (simp_all add: is_digit_def digit_val_def of_char_digit_char)

lemma dec_of_nat_small: "n < 10 \<Longrightarrow> dec_of_nat n = [digit_char n]"
  by (subst dec_of_nat.simps) simp

lemma dec_of_nat_large:
  "10 \<le> n \<Longrightarrow> dec_of_nat n = dec_of_nat (n div 10) @ [digit_char (n mod 10)]"
  by (subst dec_of_nat.simps) simp

lemma dec_of_nat_nonempty [simp]: "dec_of_nat n \<noteq> []"
  by (cases "n < 10") (simp_all add: dec_of_nat_small dec_of_nat_large)

lemma dec_of_nat_digits: "c \<in> set (dec_of_nat n) \<Longrightarrow> is_digit c"
proof (induction n rule: dec_of_nat.induct)
  case (1 n)
  then show ?case
    by (cases "n < 10") (auto simp: dec_of_nat_small dec_of_nat_large)
qed

lemma digits_val_dec_of_nat [simp]: "digits_val (dec_of_nat n) = n"
proof (induction n rule: dec_of_nat.induct)
  case (1 n)
  then show ?case
    by (cases "n < 10") (simp_all add: dec_of_nat_small dec_of_nat_large digits_val_def)
qed

lemma takeWhile_dec_of_nat:
  "rest = [] \<or> \<not> is_digit (hd rest) \<Longrightarrow> takeWhile is_digit (dec_of_nat n @ rest) = dec_of_nat n"
  by (rule takeWhile_append_stop) (auto dest: dec_of_nat_digits)

lemma is_digit_not_special:
  "\<not> is_digit (CHR ''-'')" "\<not> is_digit (CHR 0x0D)" "\<not> is_digit (CHR 0x0A)" "\<not> is_digit (CHR ''$'')"
  by (simp_all add: is_digit_def)

lemma digit_char_numeral [simp]:
  "digit_char 0 = CHR ''0''" "digit_char 1 = CHR ''1''" "digit_char 2 = CHR ''2''"
  "digit_char 3 = CHR ''3''" "digit_char 4 = CHR ''4''" "digit_char 5 = CHR ''5''"
  "digit_char 6 = CHR ''6''" "digit_char 7 = CHR ''7''" "digit_char 8 = CHR ''8''"
  "digit_char 9 = CHR ''9''"
  by (simp_all add: digit_char_def char_of_eq_iff)

lemma hd_dec_of_nat_not_minus [simp]: "hd (dec_of_nat n) \<noteq> CHR ''-''"
  using dec_of_nat_digits [of "hd (dec_of_nat n)" n] is_digit_not_special(1)
  by auto

lemma from_chars_int_dec:
  assumes "n < 2 ^ 31" "rest = [] \<or> \<not> is_digit (hd rest)"
  shows "from_chars_int (dec_of_nat n @ rest) v = (int n, Errc_ok)"
  using assms by (simp add: from_chars_int_def Let_def takeWhile_dec_of_nat)

lemma from_chars_u64_dec:
  assumes "n < 2 ^ 64" "rest = [] \<or> \<not> is_digit (hd rest)"
  shows "from_chars_u64 (dec_of_nat n @ rest) v = (of_nat n, Errc_ok)"
  using assms by (simp add: from_chars_u64_def Let_def takeWhile_dec_of_nat)

lemma from_chars_int_range:
  assumes "from_chars_int s v = (n, e)" "- (2 ^ 31) \<le> v" "v < 2 ^ 31"
  shows "- (2 ^ 31) \<le> n \<and> n < 2 ^ 31"
  using assms by (auto simp: from_chars_int_def Let_def split: if_splits)

end
