(* ===== verification/Resp_Format.thy ===== *)
theory Resp_Format
  imports Charconv
begin

text \<open>
  The reply formats of \<open>include/command_handler.hpp\<close> (namespace \<open>resp\<close>), and the encoding
  of a request as an array of bulk strings, which is what a client sends and what the
  append-only file holds.
\<close>

definition crlf :: bytes where
  "crlf = [CHR 0x0D, CHR 0x0A]"

definition bulk :: "bytes \<Rightarrow> bytes" where
  "bulk val = ''$'' @ dec_of_nat (length val) @ crlf @ val @ crlf"

definition resp_OK :: bytes where
  "resp_OK = ''+OK'' @ crlf"

definition resp_NIL :: bytes where
  "resp_NIL = ''$-1'' @ crlf"

definition resp_PONG :: bytes where
  "resp_PONG = ''+PONG'' @ crlf"

definition resp_EMPTY_ARRAY :: bytes where
  "resp_EMPTY_ARRAY = ''*0'' @ crlf"

definition resp_ERR_UNKNOWN :: bytes where
  "resp_ERR_UNKNOWN = ''-ERR unknown command'' @ crlf"

definition encode_request :: "bytes list \<Rightarrow> bytes" where
  "encode_request args = ''*'' @ dec_of_nat (length args) @ crlf @ concat (map bulk args)"

lemmas resp_defs = resp_OK_def resp_NIL_def resp_PONG_def resp_EMPTY_ARRAY_def resp_ERR_UNKNOWN_def

lemma replies_nonempty [simp]:
  "resp_OK \<noteq> []" "resp_NIL \<noteq> []" "resp_PONG \<noteq> []" "resp_EMPTY_ARRAY \<noteq> []" "resp_ERR_UNKNOWN \<noteq> []"
  "bulk v \<noteq> []"
  by (simp_all add: resp_defs bulk_def)

lemma length_bulk: "length (bulk v) = length (dec_of_nat (length v)) + length v + 5"
  by (simp add: bulk_def crlf_def)

lemma CR_notin_dec: "CHR 0x0D \<notin> set (dec_of_nat n)"
  using dec_of_nat_digits is_digit_not_special by blast

lemma hd_crlf [simp]: "hd (crlf @ s) = CHR 0x0D" "crlf \<noteq> []" "length crlf = 2"
  by (simp_all add: crlf_def)

lemma crlf_not_digit [simp]: "\<not> is_digit (hd (crlf @ s))"
  by (simp add: is_digit_not_special)

end
