(* ===== verification/Resp_Parser.thy ===== *)
theory Resp_Parser
  imports Resp_Format
begin

text \<open>
  \<open>include/resp_parser.hpp\<close>: the RESP request parser. \<open>parse\<close> reads one command from the
  front of a buffer and says how many bytes it took; \<open>parse_all\<close> is the loop the reactor
  runs around it (\<open>src/main.cpp\<close>). The lemmas give the exact condition under which a parse
  stops, the bound on what it consumes, and the round trip with the request encoding of
  the protocol for arguments free of line breaks.
\<close>

section \<open>The parser\<close>

record command =
  cmd_type :: bytes
  cmd_args :: "bytes list"

record parse_result =
  cmd :: command
  consumed :: nat

text \<open>\<open>buffer.find("\r\n", pos)\<close>, relative to \<open>pos\<close>.\<close>

fun find_crlf :: "bytes \<Rightarrow> nat option" where
  "find_crlf (a # b # s) =
     (if a = CHR 0x0D \<and> b = CHR 0x0A then Some 0 else map_option Suc (find_crlf (b # s)))"
| "find_crlf s = None"

definition read_line :: "bytes \<Rightarrow> nat \<Rightarrow> bytes \<times> nat" where
  "read_line buffer pos =
     (case find_crlf (drop pos buffer) of
        None \<Rightarrow> ([], pos)
      | Some n \<Rightarrow> (take n (drop pos buffer), pos + n + 2))"

text \<open>The loop over the announced number of arguments: a length line, skipped, then a value.\<close>

fun read_args :: "bytes \<Rightarrow> nat \<Rightarrow> nat \<Rightarrow> bytes list \<times> nat" where
  "read_args buffer pos 0 = ([], pos)"
| "read_args buffer pos (Suc n) =
     (let pos1 = snd (read_line buffer pos);
          (arg, pos2) = read_line buffer pos1;
          (args, pos3) = read_args buffer pos2 n in
      (arg # args, pos3))"

definition no_command :: "bytes \<Rightarrow> parse_result" where
  "no_command why = \<lparr>cmd = \<lparr>cmd_type = why, cmd_args = []\<rparr>, consumed = 0\<rparr>"

definition parse :: "bytes \<Rightarrow> parse_result" where
  "parse buffer =
     (if buffer = [] \<or> hd buffer \<noteq> CHR ''*'' then no_command ''UNKNOWN''
      else
        let (header, pos) = read_line buffer 0 in
        if header = [] then no_command ''INCOMPLETE''
        else
          let num_args = fst (from_chars_int (tl header) 0);
              (args, pos') = read_args buffer pos (nat num_args) in
          (case args of
             [] \<Rightarrow> \<lparr>cmd = \<lparr>cmd_type = [], cmd_args = []\<rparr>, consumed = pos'\<rparr>
           | t # as \<Rightarrow> \<lparr>cmd = \<lparr>cmd_type = t, cmd_args = as\<rparr>, consumed = pos'\<rparr>))"

section \<open>Lines\<close>

lemma find_crlf_Some:
  "find_crlf s = Some n \<Longrightarrow> n + 2 \<le> length s \<and> s ! n = CHR 0x0D \<and> s ! Suc n = CHR 0x0A"
proof (induction s arbitrary: n rule: find_crlf.induct)
  case (1 a b s)
  then show ?case by (cases n) (auto split: if_splits)
qed simp_all

lemma find_crlf_append:
  assumes "find_crlf xs = None"
  shows "find_crlf (xs @ crlf @ ys) = Some (length xs)"
  using assms
  by (induction xs rule: find_crlf.induct) (auto simp: crlf_def split: if_splits)

lemma read_line_at:
  assumes "find_crlf xs = None" "buffer = pre @ xs @ crlf @ ys" "pos = length pre"
  shows "read_line buffer pos = (xs, pos + length xs + 2)"
  using assms by (simp add: read_line_def find_crlf_append)

lemma read_line_mono: "pos \<le> snd (read_line buffer pos)"
  by (simp add: read_line_def split: option.splits)

lemma read_line_bound:
  "pos \<le> length buffer \<Longrightarrow> snd (read_line buffer pos) \<le> length buffer"
  by (auto simp: read_line_def split: option.splits dest!: find_crlf_Some)

lemma read_args_Suc:
  "read_args buffer pos (Suc n) =
     (let line = read_line buffer (snd (read_line buffer pos));
          rest = read_args buffer (snd line) n in (fst line # fst rest, snd rest))"
  by (simp add: Let_def case_prod_beta)

declare read_args.simps(2) [simp del]

lemma read_args_mono: "pos \<le> snd (read_args buffer pos n)"
proof (induction n arbitrary: pos)
  case (Suc n)
  have "pos \<le> snd (read_line buffer (snd (read_line buffer pos)))"
    using read_line_mono order_trans by blast
  also have "\<dots> \<le> snd (read_args buffer \<dots> n)" by (rule Suc)
  finally show ?case by (simp add: read_args_Suc Let_def)
qed simp

lemma read_args_bound:
  "pos \<le> length buffer \<Longrightarrow> snd (read_args buffer pos n) \<le> length buffer"
proof (induction n arbitrary: pos)
  case (Suc n)
  then have "snd (read_args buffer (snd (read_line buffer (snd (read_line buffer pos)))) n) \<le> length buffer"
    by (simp add: read_line_bound)
  then show ?case by (simp add: read_args_Suc Let_def)
qed simp

lemma length_read_args [simp]: "length (fst (read_args buffer pos n)) = n"
  by (induction n arbitrary: pos) (simp_all add: read_args_Suc Let_def)

section \<open>One parse\<close>

definition well_headed :: "bytes \<Rightarrow> bool" where
  "well_headed buffer \<longleftrightarrow> buffer \<noteq> [] \<and> hd buffer = CHR ''*'' \<and> find_crlf buffer \<noteq> None"

lemma well_headed_find:
  assumes "well_headed buffer"
  obtains n where "find_crlf buffer = Some (Suc n)" "fst (read_line buffer 0) \<noteq> []"
    "snd (read_line buffer 0) = n + 3"
proof -
  from assms obtain m where m: "find_crlf buffer = Some m" by (auto simp: well_headed_def)
  with assms have "m \<noteq> 0"
    using find_crlf_Some [OF m] by (cases "m = 0") (auto simp: well_headed_def hd_conv_nth)
  then obtain n where "m = Suc n" by (cases m) auto
  with m that assms show thesis
    using find_crlf_Some [OF m] by (auto simp: read_line_def well_headed_def)
qed

lemma consumed_parse:
  "consumed (parse buffer) =
     (if well_headed buffer
      then snd (read_args buffer (snd (read_line buffer 0))
             (nat (fst (from_chars_int (tl (fst (read_line buffer 0))) 0))))
      else 0)"
proof (cases "well_headed buffer")
  case True
  then have "buffer \<noteq> []" "hd buffer = CHR ''*''" by (auto simp: well_headed_def)
  moreover from True have "fst (read_line buffer 0) \<noteq> []" by (rule well_headed_find)
  ultimately show ?thesis
    using True by (simp add: parse_def Let_def case_prod_beta split: list.splits)
next
  case False
  then have "buffer = [] \<or> hd buffer \<noteq> CHR ''*'' \<or> fst (read_line buffer 0) = []"
    by (auto simp: well_headed_def read_line_def)
  with False show ?thesis
    by (auto simp: parse_def no_command_def Let_def case_prod_beta)
qed

lemma parse_consumed_bound: "consumed (parse buffer) \<le> length buffer"
  by (simp add: consumed_parse read_args_bound read_line_bound)

lemma parse_consumed_pos:
  assumes "well_headed buffer"
  shows "3 \<le> consumed (parse buffer)"
proof -
  from assms have "3 \<le> snd (read_line buffer 0)" by (auto elim: well_headed_find)
  with assms show ?thesis
    by (simp add: consumed_parse) (meson order_trans read_args_mono)
qed

lemma parse_consumed_0_iff [simp]: "consumed (parse buffer) = 0 \<longleftrightarrow> \<not> well_headed buffer"
  using parse_consumed_pos by (fastforce simp: consumed_parse)

section \<open>Requests in the encoding of the protocol\<close>

text \<open>
  The parser looks for line ends and skips the length lines, so it agrees with the protocol
  on arguments that contain no line end.
\<close>

definition line_free :: "bytes \<Rightarrow> bool" where
  "line_free s \<longleftrightarrow> find_crlf s = None"

lemma line_free_no_CR: "CHR 0x0D \<notin> set s \<Longrightarrow> line_free s"
  unfolding line_free_def by (induction s rule: find_crlf.induct) auto

lemma read_bulk:
  assumes "line_free arg" "buffer = pre @ bulk arg @ rest" "pos = length pre"
  shows "read_line buffer (snd (read_line buffer pos)) = (arg, pos + length (bulk arg))"
proof -
  let ?len = "''$'' @ dec_of_nat (length arg)"
  have free: "line_free ?len" by (rule line_free_no_CR) (simp add: CR_notin_dec)
  have 1: "read_line buffer pos = (?len, pos + length ?len + 2)"
    by (rule read_line_at [where pre = pre and ys = "arg @ crlf @ rest"])
      (use free assms in \<open>simp_all add: bulk_def line_free_def\<close>)
  have "read_line buffer (pos + length ?len + 2)
      = (arg, (pos + length ?len + 2) + length arg + 2)"
    by (rule read_line_at [where pre = "pre @ ?len @ crlf" and ys = rest])
      (use assms in \<open>simp_all add: bulk_def line_free_def\<close>)
  with 1 show ?thesis by (simp add: length_bulk)
qed

lemma read_args_bulks:
  assumes "\<forall>a \<in> set args. line_free a" "buffer = pre @ concat (map bulk args) @ rest" "pos = length pre"
  shows "read_args buffer pos (length args) = (args, pos + length (concat (map bulk args)))"
  using assms
proof (induction args arbitrary: pre pos)
  case (Cons a args)
  have "read_line buffer (snd (read_line buffer pos)) = (a, pos + length (bulk a))"
    by (rule read_bulk [where pre = pre and rest = "concat (map bulk args) @ rest"])
      (use Cons.prems in auto)
  moreover have "read_args buffer (pos + length (bulk a)) (length args)
      = (args, pos + length (bulk a) + length (concat (map bulk args)))"
    by (rule Cons.IH [where pre = "pre @ bulk a"]) (use Cons.prems in auto)
  ultimately show ?case by (simp add: read_args_Suc Let_def)
qed simp

lemma read_header:
  "read_line (encode_request args @ rest) 0
     = (''*'' @ dec_of_nat (length args), length (dec_of_nat (length args)) + 3)"
proof -
  have "line_free (''*'' @ dec_of_nat (length args))"
    by (rule line_free_no_CR) (simp add: CR_notin_dec)
  from read_line_at [OF this [unfolded line_free_def],
      where pre = "[]" and ys = "concat (map bulk args) @ rest" and pos = 0]
  show ?thesis by (simp add: encode_request_def)
qed

lemma parse_encode_request:
  assumes "\<forall>a \<in> set (t # as). line_free a" "length (t # as) < 2 ^ 31"
  shows "parse (encode_request (t # as) @ rest) =
    \<lparr>cmd = \<lparr>cmd_type = t, cmd_args = as\<rparr>, consumed = length (encode_request (t # as))\<rparr>"
proof -
  let ?args = "t # as" and ?buf = "encode_request (t # as) @ rest"
  let ?d = "dec_of_nat (length ?args)"
  have "read_args ?buf (length ?d + 3) (length ?args)
      = (?args, length ?d + 3 + length (concat (map bulk ?args)))"
    by (rule read_args_bulks [where pre = "''*'' @ ?d @ crlf" and rest = rest])
      (use assms in \<open>simp_all add: encode_request_def\<close>)
  moreover have "from_chars_int ?d 0 = (int (length ?args), Errc_ok)"
    using from_chars_int_dec [OF assms(2), of "[]"] by simp
  ultimately show ?thesis
    unfolding parse_def read_header
    by (simp add: Let_def nat_add_distrib) (simp add: encode_request_def)
qed

section \<open>A pipelined buffer\<close>

text \<open>The commands the loop of the reactor takes from one read, in order.\<close>

function parse_all :: "bytes \<Rightarrow> command list" where
  "parse_all remaining =
     (if remaining = [] then []
      else let r = parse remaining in
        if consumed r = 0 then [] else cmd r # parse_all (drop (consumed r) remaining))"
  by pat_completeness auto
termination
  by (relation "measure length") (auto simp: Let_def intro!: diff_less dest: parse_consumed_pos)

declare parse_all.simps [simp del]

lemma parse_all_Nil [simp]: "parse_all [] = []"
  by (subst parse_all.simps) simp

lemma parse_all_step:
  "parse_all b = (if well_headed b then cmd (parse b) # parse_all (drop (consumed (parse b)) b) else [])"
  by (subst parse_all.simps) (auto simp: Let_def well_headed_def)

lemma parse_all_pipeline:
  assumes "\<forall>r \<in> set reqs. r \<noteq> [] \<and> (\<forall>a \<in> set r. line_free a) \<and> length r < 2 ^ 31"
  shows "parse_all (concat (map encode_request reqs) @ rest)
     = map (\<lambda>r. \<lparr>cmd_type = hd r, cmd_args = tl r\<rparr>) reqs @ parse_all rest"
  using assms
proof (induction reqs)
  case (Cons r reqs)
  let ?tail = "concat (map encode_request reqs) @ rest"
  obtain t as where r: "r = t # as" using Cons.prems by (cases r) auto
  have p: "parse (encode_request r @ ?tail) =
      \<lparr>cmd = \<lparr>cmd_type = t, cmd_args = as\<rparr>, consumed = length (encode_request r)\<rparr>"
    unfolding r by (rule parse_encode_request) (use Cons.prems r in auto)
  moreover have "well_headed (encode_request r @ ?tail)"
  proof (rule ccontr)
    assume "\<not> well_headed (encode_request r @ ?tail)"
    then have "consumed (parse (encode_request r @ ?tail)) = 0" by simp
    with p show False by (simp add: encode_request_def)
  qed
  ultimately show ?case using Cons by (simp add: parse_all_step r)
qed simp

section \<open>Properties\<close>

text \<open>
  C31. A read that holds a pipeline of encoded requests is split into exactly those requests, in
  order, when no argument contains a line end.
\<close>

theorem pipeline_parsed:
  assumes "\<forall>r \<in> set reqs. r \<noteq> [] \<and> (\<forall>a \<in> set r. line_free a) \<and> length r < 2 ^ 31"
  shows "parse_all (concat (map encode_request reqs)) = map (\<lambda>r. \<lparr>cmd_type = hd r, cmd_args = tl r\<rparr>) reqs"
  using parse_all_pipeline [OF assms, of "[]"] by simp

theorem pipeline_parsed_witness:
  "parse_all (concat (map encode_request [[''SET'', ''k'', ''v''], [''GET'', ''k'']])) =
     [\<lparr>cmd_type = ''SET'', cmd_args = [''k'', ''v'']\<rparr>, \<lparr>cmd_type = ''GET'', cmd_args = [''k'']\<rparr>]"
  by (subst pipeline_parsed) (simp_all add: line_free_def)

text \<open>
  One parse consumes no more than the buffer holds; it consumes nothing, which ends the loop of
  the reactor, exactly when the buffer does not begin with a complete header line.
\<close>

theorem parse_consumption:
  "consumed (parse buffer) \<le> length buffer \<and>
   (if well_headed buffer then 3 \<le> consumed (parse buffer) else consumed (parse buffer) = 0)"
  using parse_consumed_bound [of buffer] parse_consumed_pos [of buffer] by simp

lemma read_line_short: "find_crlf (drop pos b) = None \<Longrightarrow> read_line b pos = ([], pos)"
  by (simp add: read_line_def)

text \<open>
  C32. A SET whose arguments have not arrived yet is not held back: the parser returns it with two
  empty arguments, consumes the part that was complete, and the rest is parsed on its own.
\<close>

theorem truncated_set_is_run:
  assumes "line_free part"
  shows "parse (''*3'' @ crlf @ bulk ''SET'' @ part) = \<lparr>cmd = \<lparr>cmd_type = ''SET'', cmd_args = [[], []]\<rparr>, consumed = 13\<rparr>"
proof -
  let ?b = "''*3'' @ crlf @ bulk ''SET'' @ part"
  have h: "read_line ?b 0 = (''*3'', 4)"
    using read_line_at [of "''*3''" ?b "[]" "bulk ''SET'' @ part" 0] by simp
  have s: "read_line ?b (snd (read_line ?b 4)) = (''SET'', 13)"
    using read_bulk [of "''SET''" ?b "''*3'' @ crlf" part 4] by (simp add: line_free_def length_bulk dec_of_nat_small)
  have "drop 13 ?b = part" by (simp add: bulk_def crlf_def dec_of_nat_small)
  then have r: "read_line ?b 13 = ([], 13)" using assms by (simp add: read_line_short line_free_def)
  have n: "nat (fst (from_chars_int (tl ''*3'') 0)) = Suc (Suc (Suc 0))"
    by (simp add: from_chars_int_def is_digit_def digits_val_def digit_val_def)
  have again: "read_args ?b 13 (Suc (Suc 0)) = ([[], []], 13)" unfolding read_args_Suc r snd_conv fst_conv Let_def by simp
  have args: "read_args ?b 4 (Suc (Suc (Suc 0))) = ([''SET'', [], []], 13)"
    by (subst read_args_Suc) (simp only: s Let_def snd_conv fst_conv again)
  have "?b \<noteq> []" "hd ?b = CHR ''*''" by simp_all
  then show ?thesis unfolding parse_def h prod.case Let_def n args by simp
qed

theorem truncated_set_is_run_witness:
  "parse (''*3'' @ crlf @ bulk ''SET'' @ ''$1'') = \<lparr>cmd = \<lparr>cmd_type = ''SET'', cmd_args = [[], []]\<rparr>, consumed = 13\<rparr>"
  by (rule truncated_set_is_run) (simp add: line_free_def)

end
