(* ===== verification/Engine.thy ===== *)
theory Engine
  imports Prelude
begin

text \<open>
  \<open>include/dbsync_engine.hpp\<close>, the storage engine of one reactor: the hash that assigns a key
  to a global shard, the partition of the shards among the reactors, and the operations
  \<open>set\<close>, \<open>get\<close> and \<open>del\<close> on the local shards. A shard's \<open>flat_hash_map\<close> is used through
  \<open>operator[]\<close>, \<open>find\<close> and \<open>erase(key)\<close> only and is a map here. The clock is read at most
  once per operation; its reading is the argument \<open>now\<close>. The lemmas show who owns a key, that
  an operation is defined exactly on owned keys, and that the engine refines one map.
\<close>

unbundle bit_operations_syntax

section \<open>State\<close>

record value_entry =
  ve_data :: bytes
  expires_at :: u64

type_synonym shard = "bytes \<rightharpoonup> value_entry"

record engine =
  shards :: "shard list"
  shard_count :: int
  num_reactors :: int
  total_shards :: int
  reactor_id :: int
  shard_start :: int
  shard_end :: int
  file_name :: bytes
  aof_fd :: int
  aof_active :: bytes
  aof_flush :: bytes
  aof_in_flight :: bool

section \<open>Key placement\<close>

definition fnv1a_hash :: "bytes \<Rightarrow> u64" where
  "fnv1a_hash key = foldl (\<lambda>hash c. (hash XOR char_to_u64 c) * 1099511628211) 14695981039346656037 key"

definition get_global_shard_index :: "engine \<Rightarrow> bytes \<Rightarrow> ub + int" where
  "get_global_shard_index e key =
     (if word_of_int (total_shards e) = (0 :: u64) then Inl Div_by_zero
      else Inr (u64_to_int (fnv1a_hash key mod word_of_int (total_shards e))))"

definition get_local_shard_index :: "engine \<Rightarrow> bytes \<Rightarrow> ub + int" where
  "get_local_shard_index e key = ub_map (\<lambda>g. g - shard_start e) (get_global_shard_index e key)"

definition fast_owner :: "engine \<Rightarrow> bytes \<Rightarrow> ub + int" where
  "fast_owner e key = ub_bind (get_global_shard_index e key) (\<lambda>g.
     if shard_count e = 0 then Inl Div_by_zero else Inr (g sdiv shard_count e))"

definition owns_key :: "engine \<Rightarrow> bytes \<Rightarrow> ub + bool" where
  "owns_key e key =
     ub_map (\<lambda>g. shard_start e \<le> g \<and> g < shard_end e) (get_global_shard_index e key)"

section \<open>Operations\<close>

definition engine_set :: "u64 \<Rightarrow> bytes \<Rightarrow> bytes \<Rightarrow> u64 \<Rightarrow> engine \<Rightarrow> ub + engine" where
  "engine_set now key val ttl_ms e =
     ub_bind (get_local_shard_index e key) (\<lambda>i.
     ub_bind (vec_at (shards e) i) (\<lambda>s.
       let expiry = (if 0 < ttl_ms then now + ttl_ms else 0) in
       ub_map (\<lambda>ss. e\<lparr>shards := ss\<rparr>)
         (vec_put (shards e) i (s(key \<mapsto> \<lparr>ve_data = val, expires_at = expiry\<rparr>)))))"

definition engine_get :: "u64 \<Rightarrow> bytes \<Rightarrow> engine \<Rightarrow> ub + (bytes option \<times> engine)" where
  "engine_get now key e =
     ub_bind (get_local_shard_index e key) (\<lambda>i.
     ub_bind (vec_at (shards e) i) (\<lambda>s.
       case s key of
         None \<Rightarrow> Inr (None, e)
       | Some v \<Rightarrow>
           if expires_at v \<noteq> 0 \<and> expires_at v < now
           then ub_map (\<lambda>ss. (None, e\<lparr>shards := ss\<rparr>)) (vec_put (shards e) i (s(key := None)))
           else Inr (Some (ve_data v), e)))"

definition engine_del :: "bytes \<Rightarrow> engine \<Rightarrow> ub + (bool \<times> engine)" where
  "engine_del key e =
     ub_bind (get_local_shard_index e key) (\<lambda>i.
     ub_bind (vec_at (shards e) i) (\<lambda>s.
       ub_map (\<lambda>ss. (s key \<noteq> None, e\<lparr>shards := ss\<rparr>)) (vec_put (shards e) i (s(key := None)))))"

text \<open>The members the constructor sets before it opens any file.\<close>

definition engine_fields :: "int \<Rightarrow> int \<Rightarrow> int \<Rightarrow> engine" where
  "engine_fields shards_per_reactor rid n =
     \<lparr>shards = replicate (nat shards_per_reactor) Map.empty,
      shard_count = shards_per_reactor, num_reactors = n,
      total_shards = shards_per_reactor * n, reactor_id = rid,
      shard_start = rid * shards_per_reactor,
      shard_end = rid * shards_per_reactor + shards_per_reactor,
      file_name = [], aof_fd = -1, aof_active = [], aof_flush = [], aof_in_flight = False\<rparr>"

section \<open>Well-formed engines\<close>

text \<open>The global shard of a key when there are \<open>n\<close> shards in all, and its owner.\<close>

definition global_shard :: "int \<Rightarrow> bytes \<Rightarrow> int" where
  "global_shard n key = uint (fnv1a_hash key) mod n"

definition owner_of :: "int \<Rightarrow> int \<Rightarrow> bytes \<Rightarrow> int" where
  "owner_of per_reactor n key = global_shard (per_reactor * n) key div per_reactor"

definition engine_wf :: "engine \<Rightarrow> bool" where
  "engine_wf e \<longleftrightarrow>
     0 < shard_count e \<and> 0 < num_reactors e \<and>
     total_shards e = shard_count e * num_reactors e \<and> total_shards e < 2 ^ 31 \<and>
     0 \<le> reactor_id e \<and> reactor_id e < num_reactors e \<and>
     shard_start e = reactor_id e * shard_count e \<and>
     shard_end e = shard_start e + shard_count e \<and>
     int (length (shards e)) = shard_count e"

definition owns :: "engine \<Rightarrow> bytes \<Rightarrow> bool" where
  "owns e key \<longleftrightarrow> owner_of (shard_count e) (num_reactors e) key = reactor_id e"

lemma engine_wf_fields:
  assumes "0 < k" "0 \<le> i" "i < n" "k * n < 2 ^ 31"
  shows "engine_wf (engine_fields k i n)"
  using assms by (simp add: engine_wf_def engine_fields_def)

lemma global_shard_bounds: "0 < n \<Longrightarrow> 0 \<le> global_shard n key \<and> global_shard n key < n"
  by (simp add: global_shard_def)

lemma get_global_shard_index_wf:
  assumes "engine_wf e"
  shows "get_global_shard_index e key = Inr (global_shard (total_shards e) key)"
proof -
  let ?n = "total_shards e"
  from assms have n: "0 < ?n" "?n < 2 ^ 31" by (auto simp: engine_wf_def)
  then have u: "uint (word_of_int ?n :: u64) = ?n"
    by (simp add: uint_word_of_int take_bit_int_eq_self)
  then have nz: "word_of_int ?n \<noteq> (0 :: u64)" using n by (metis less_irrefl unsigned_0)
  have m: "uint (fnv1a_hash key mod word_of_int ?n) = global_shard ?n key"
    by (simp add: uint_mod_distrib u global_shard_def)
  moreover have "global_shard ?n key < 2 ^ 31"
    using global_shard_bounds [OF n(1), of key] n(2) by linarith
  ultimately have "u64_to_int (fnv1a_hash key mod word_of_int ?n) = global_shard ?n key"
    using u64_to_int_small by metis
  with nz show ?thesis by (simp add: get_global_shard_index_def)
qed

lemma owner_bounds:
  assumes "0 < k" "0 < n"
  shows "0 \<le> owner_of k n key \<and> owner_of k n key < n"
proof -
  have "0 < k * n" using assms by simp
  then have g: "0 \<le> global_shard (k * n) key" "global_shard (k * n) key < k * n"
    using global_shard_bounds by auto
  with assms show ?thesis
    by (simp add: owner_of_def pos_imp_zdiv_nonneg_iff div_less_iff_less_mult_int)
qed

lemma fast_owner_wf:
  assumes "engine_wf e"
  shows "fast_owner e key = Inr (owner_of (shard_count e) (num_reactors e) key)"
proof -
  from assms have c: "0 < shard_count e" and t: "total_shards e = shard_count e * num_reactors e"
    and "0 < total_shards e"
    by (auto simp: engine_wf_def)
  then have "0 \<le> global_shard (total_shards e) key" using global_shard_bounds by auto
  with c t show ?thesis
    by (simp add: fast_owner_def get_global_shard_index_wf [OF assms] owner_of_def sdiv_nonneg)
qed

text \<open>Owning a key is the same as having a local shard for it.\<close>

lemma local_shard_bounds:
  assumes "engine_wf e"
  shows "owns e key \<longleftrightarrow>
    0 \<le> global_shard (total_shards e) key - shard_start e \<and>
    global_shard (total_shards e) key - shard_start e < shard_count e"
proof -
  let ?g = "global_shard (total_shards e) key"
  from assms have c: "0 < shard_count e" and st: "shard_start e = reactor_id e * shard_count e"
    by (auto simp: engine_wf_def)
  have "owns e key \<longleftrightarrow> ?g div shard_count e = reactor_id e"
    using assms by (auto simp: owns_def owner_of_def engine_wf_def)
  also have "\<dots> \<longleftrightarrow> reactor_id e * shard_count e \<le> ?g \<and> ?g < reactor_id e * shard_count e + shard_count e"
    by (rule div_eq_iff_bounds [OF c])
  finally show ?thesis using st by auto
qed

lemma owns_key_wf:
  assumes "engine_wf e"
  shows "owns_key e key = Inr (owns e key)"
  using assms local_shard_bounds [OF assms, of key]
  by (auto simp: owns_key_def get_global_shard_index_wf engine_wf_def)

section \<open>The engine as one map\<close>

definition local_ix :: "engine \<Rightarrow> bytes \<Rightarrow> nat" where
  "local_ix e key = nat (global_shard (total_shards e) key - shard_start e)"

definition kv :: "engine \<Rightarrow> bytes \<rightharpoonup> value_entry" where
  "kv e key = (if owns e key then (shards e ! local_ix e key) key else None)"

definition new_entry :: "u64 \<Rightarrow> bytes \<Rightarrow> u64 \<Rightarrow> value_entry" where
  "new_entry now val ttl_ms =
     \<lparr>ve_data = val, expires_at = (if 0 < ttl_ms then now + ttl_ms else 0)\<rparr>"

definition live :: "u64 \<Rightarrow> value_entry \<Rightarrow> bool" where
  "live now v \<longleftrightarrow> expires_at v = 0 \<or> now \<le> expires_at v"

definition put_entry :: "bytes \<Rightarrow> value_entry option \<Rightarrow> engine \<Rightarrow> engine" where
  "put_entry key x e =
     e\<lparr>shards := (shards e)[local_ix e key := (shards e ! local_ix e key)(key := x)]\<rparr>"

lemma local_ix_less: "engine_wf e \<Longrightarrow> owns e key \<Longrightarrow> local_ix e key < length (shards e)"
  using local_shard_bounds [of e key] by (auto simp: local_ix_def engine_wf_def)

lemma get_local_shard_index_wf:
  "engine_wf e \<Longrightarrow> get_local_shard_index e key = Inr (global_shard (total_shards e) key - shard_start e)"
  by (simp add: get_local_shard_index_def get_global_shard_index_wf)

lemma get_local_shard_index_owned:
  "engine_wf e \<Longrightarrow> owns e key \<Longrightarrow> get_local_shard_index e key = Inr (int (local_ix e key))"
  using local_shard_bounds [of e key] by (simp add: get_local_shard_index_wf local_ix_def)

lemma shard_at_foreign:
  assumes "engine_wf e" "\<not> owns e key"
  shows "vec_at (shards e) (global_shard (total_shards e) key - shard_start e) = Inl Bad_index"
  using assms local_shard_bounds [of e key] by (auto simp: vec_at_def engine_wf_def)

lemma put_entry_frame [simp, frame_simps]:
  "shard_count (put_entry k x e) = shard_count e" "num_reactors (put_entry k x e) = num_reactors e"
  "total_shards (put_entry k x e) = total_shards e" "reactor_id (put_entry k x e) = reactor_id e"
  "shard_start (put_entry k x e) = shard_start e" "shard_end (put_entry k x e) = shard_end e"
  "file_name (put_entry k x e) = file_name e" "aof_fd (put_entry k x e) = aof_fd e"
  "aof_active (put_entry k x e) = aof_active e" "aof_flush (put_entry k x e) = aof_flush e"
  "aof_in_flight (put_entry k x e) = aof_in_flight e"
  "length (shards (put_entry k x e)) = length (shards e)"
  by (simp_all add: put_entry_def)

lemma put_entry_wf [simp]: "engine_wf (put_entry k x e) = engine_wf e"
  by (simp add: engine_wf_def)

lemma put_entry_owns [simp]: "owns (put_entry k x e) = owns e"
  by (simp add: owns_def fun_eq_iff)

lemma kv_put_entry [simp]:
  assumes "engine_wf e" "owns e key"
  shows "kv (put_entry key x e) = (kv e)(key := x)"
proof
  fix k
  have "local_ix (put_entry key x e) = local_ix e" by (simp add: local_ix_def fun_eq_iff)
  then have "kv (put_entry key x e) k =
      (if owns e k then (shards (put_entry key x e) ! local_ix e k) k else None)"
    by (simp add: kv_def)
  then show "kv (put_entry key x e) k = ((kv e)(key := x)) k"
    using local_ix_less [OF assms] assms
    by (cases "local_ix e k = local_ix e key") (auto simp: kv_def put_entry_def [of key x e])
qed

lemma engine_set_owned:
  assumes "engine_wf e" "owns e key"
  shows "engine_set now key val ttl e = Inr (put_entry key (Some (new_entry now val ttl)) e)"
  using assms
  by (simp add: engine_set_def get_local_shard_index_owned local_ix_less put_entry_def new_entry_def)

lemma engine_get_owned:
  assumes "engine_wf e" "owns e key"
  shows "engine_get now key e =
    (case kv e key of
       None \<Rightarrow> Inr (None, e)
     | Some v \<Rightarrow> if live now v then Inr (Some (ve_data v), e) else Inr (None, put_entry key None e))"
  using assms
  by (auto simp: engine_get_def get_local_shard_index_owned local_ix_less put_entry_def kv_def live_def
      split: option.split dest: leD)

lemma engine_del_owned:
  assumes "engine_wf e" "owns e key"
  shows "engine_del key e = Inr (kv e key \<noteq> None, put_entry key None e)"
  using assms
  by (simp add: engine_del_def get_local_shard_index_owned local_ix_less put_entry_def kv_def)

lemma engine_foreign:
  assumes "engine_wf e" "\<not> owns e key"
  shows "engine_set now key val ttl e = Inl Bad_index" "engine_get now key e = Inl Bad_index"
    "engine_del key e = Inl Bad_index"
  using assms
  by (simp_all add: engine_set_def engine_get_def engine_del_def get_local_shard_index_wf shard_at_foreign)

lemmas engine_owned = engine_set_owned engine_get_owned engine_del_owned

section \<open>The contract a client of the engine relies on\<close>

definition visible :: "u64 \<Rightarrow> value_entry option \<Rightarrow> value_entry option" where
  "visible now x = (case x of None \<Rightarrow> None | Some v \<Rightarrow> if live now v then Some v else None)"

type_synonym set_call = "u64 \<times> bytes \<times> bytes \<times> u64"

fun set_key_of :: "set_call \<Rightarrow> bytes" where
  "set_key_of (now, k, v, ttl) = k"

fun set_entry_of :: "set_call \<Rightarrow> value_entry" where
  "set_entry_of (now, k, v, ttl) = new_entry now v ttl"

fun set_calls :: "(u64 \<Rightarrow> bytes \<Rightarrow> bytes \<Rightarrow> u64 \<Rightarrow> 's \<Rightarrow> ub + 's) \<Rightarrow> set_call list \<Rightarrow> 's \<Rightarrow> ub + 's" where
  "set_calls f [] s = Inr s"
| "set_calls f ((now, k, v, ttl) # cs) s = ub_bind (f now k v ttl s) (set_calls f cs)"

definition apply_sets :: "set_call list \<Rightarrow> (bytes \<rightharpoonup> value_entry) \<Rightarrow> (bytes \<rightharpoonup> value_entry)" where
  "apply_sets cs m = foldl (\<lambda>m c. m(set_key_of c \<mapsto> set_entry_of c)) m cs"

lemma apply_sets_simps [simp]:
  "apply_sets [] m = m"
  "apply_sets (c # cs) m = apply_sets cs (m(set_key_of c \<mapsto> set_entry_of c))"
  "apply_sets (cs @ ds) m = apply_sets ds (apply_sets cs m)"
  by (simp_all add: apply_sets_def)

lemma apply_sets_other: "k \<notin> set_key_of ` set cs \<Longrightarrow> apply_sets cs m k = m k"
  by (induction cs arbitrary: m) auto

lemma set_calls_append:
  "set_calls f (cs @ ds) s = ub_bind (set_calls f cs s) (set_calls f ds)"
  by (induction f cs s rule: set_calls.induct)
    (auto simp: ub_bind_def split: sum.splits)

locale key_value_store =
  fixes inv :: "'s \<Rightarrow> bool"
    and view :: "'s \<Rightarrow> bytes \<rightharpoonup> value_entry"
    and mine :: "'s \<Rightarrow> bytes \<Rightarrow> bool"
    and set_op :: "u64 \<Rightarrow> bytes \<Rightarrow> bytes \<Rightarrow> u64 \<Rightarrow> 's \<Rightarrow> ub + 's"
    and get_op :: "u64 \<Rightarrow> bytes \<Rightarrow> 's \<Rightarrow> ub + (bytes option \<times> 's)"
    and del_op :: "bytes \<Rightarrow> 's \<Rightarrow> ub + (bool \<times> 's)"
  assumes set_law: "inv s \<Longrightarrow> mine s k \<Longrightarrow>
      \<exists>s'. set_op now k v ttl s = Inr s' \<and> inv s' \<and> mine s' = mine s \<and>
        view s' = (view s)(k \<mapsto> new_entry now v ttl)"
    and get_law: "inv s \<Longrightarrow> mine s k \<Longrightarrow>
      \<exists>s'. get_op now k s = Inr (map_option ve_data (visible now (view s k)), s') \<and> inv s' \<and>
        mine s' = mine s \<and>
        view s' = (if visible now (view s k) = None then (view s)(k := None) else view s)"
    and del_law: "inv s \<Longrightarrow> mine s k \<Longrightarrow>
      \<exists>s'. del_op k s = Inr (view s k \<noteq> None, s') \<and> inv s' \<and> mine s' = mine s \<and>
        view s' = (view s)(k := None)"
begin

lemma set_calls_view:
  assumes "inv s" "\<forall>c \<in> set cs. mine s (set_key_of c)"
  shows "\<exists>s'. set_calls set_op cs s = Inr s' \<and> inv s' \<and> mine s' = mine s \<and>
    view s' = apply_sets cs (view s)"
  using assms
proof (induction cs arbitrary: s)
  case (Cons c cs)
  obtain now k v ttl where c: "c = (now, k, v, ttl)" by (cases c)
  with Cons.prems set_law obtain s1 where s1: "set_op now k v ttl s = Inr s1" "inv s1"
    "mine s1 = mine s" "view s1 = (view s)(k \<mapsto> new_entry now v ttl)" by fastforce
  have "\<forall>c \<in> set cs. mine s1 (set_key_of c)" using Cons.prems s1 by simp
  from Cons.IH [OF s1(2) this] obtain s' where "set_calls set_op cs s1 = Inr s'" "inv s'"
    "mine s' = mine s1" "view s' = apply_sets cs (view s1)" by blast
  with s1 c show ?case by auto
qed simp

text \<open>Reads see the last write to their key, whatever was written to other keys since.\<close>

lemma get_after_sets:
  assumes "inv s" "\<forall>c \<in> set (cs @ (now, k, v, ttl) # ds). mine s (set_key_of c)"
    and "k \<notin> set_key_of ` set ds"
  shows "\<exists>s' s''. set_calls set_op (cs @ (now, k, v, ttl) # ds) s = Inr s' \<and>
    get_op later k s' = Inr (if live later (new_entry now v ttl) then Some v else None, s'')"
proof -
  from set_calls_view [OF assms(1,2)] obtain s' where s':
    "set_calls set_op (cs @ (now, k, v, ttl) # ds) s = Inr s'" "inv s'" "mine s' = mine s"
    "view s' = apply_sets (cs @ (now, k, v, ttl) # ds) (view s)" by blast
  then have "view s' k = Some (new_entry now v ttl)"
    using assms(3) by (simp add: apply_sets_other)
  moreover from s' assms(2) have "mine s' k" by auto
  ultimately show ?thesis
    using get_law [OF s'(2), of k later] s'(1) by (auto simp: visible_def new_entry_def)
qed

lemma del_then_get:
  assumes "inv s" "mine s k"
  shows "\<exists>b s' s''. del_op k s = Inr (b, s') \<and> get_op now k s' = Inr (None, s'')"
proof -
  from del_law [OF assms] obtain s' where s': "del_op k s = Inr (view s k \<noteq> None, s')" "inv s'"
    "mine s' = mine s" "view s' = (view s)(k := None)" by blast
  with assms have "mine s' k" "view s' k = None" by auto
  with get_law [OF s'(2), of k now] s'(1) show ?thesis by (auto simp: visible_def)
qed

end

interpretation eng: key_value_store engine_wf kv owns engine_set engine_get engine_del
proof unfold_locales
  fix e k now v ttl
  assume e: "engine_wf e" "owns e k"
  then show "\<exists>e'. engine_set now k v ttl e = Inr e' \<and> engine_wf e' \<and> owns e' = owns e \<and>
      kv e' = (kv e)(k \<mapsto> new_entry now v ttl)"
    by (simp add: engine_set_owned)
  have "kv e k = None \<Longrightarrow> (kv e)(k := None) = kv e" by auto
  with e show "\<exists>e'. engine_get now k e = Inr (map_option ve_data (visible now (kv e k)), e') \<and>
      engine_wf e' \<and> owns e' = owns e \<and>
      kv e' = (if visible now (kv e k) = None then (kv e)(k := None) else kv e)"
    by (auto simp: engine_get_owned visible_def split: option.split)
  from e show "\<exists>e'. engine_del k e = Inr (kv e k \<noteq> None, e') \<and> engine_wf e' \<and> owns e' = owns e \<and>
      kv e' = (kv e)(k := None)"
    by (simp add: engine_del_owned)
qed

section \<open>The partition of the keys\<close>

text \<open>A key stands in the shard its hash names, and only in an engine that owns it.\<close>

definition partitioned :: "engine \<Rightarrow> bool" where
  "partitioned e \<longleftrightarrow> (\<forall>i < length (shards e). \<forall>k \<in> dom (shards e ! i). owns e k \<and> local_ix e k = i)"

lemma partitioned_fields: "partitioned (engine_fields k i n)"
  by (simp add: partitioned_def engine_fields_def)

lemma partitioned_put [simp]:
  assumes "owns e key" "partitioned e"
  shows "partitioned (put_entry key x e)"
proof -
  let ?e = "put_entry key x e"
  have "owns ?e k \<and> local_ix ?e k = i" if i: "i < length (shards ?e)" and k: "k \<in> dom (shards ?e ! i)" for i k
  proof -
    have "local_ix ?e = local_ix e" by (simp add: local_ix_def fun_eq_iff)
    moreover have "i = local_ix e key \<and> k = key \<or> k \<in> dom (shards e ! i)"
      using i k by (cases "i = local_ix e key"; cases "k = key") (auto simp: put_entry_def split: if_splits)
    ultimately show ?thesis using assms i by (auto simp: partitioned_def)
  qed
  then show ?thesis by (simp add: partitioned_def)
qed

lemma partitioned_cong:
  assumes "shards e' = shards e" "total_shards e' = total_shards e" "shard_start e' = shard_start e"
    "shard_count e' = shard_count e" "num_reactors e' = num_reactors e" "reactor_id e' = reactor_id e"
  shows "partitioned e' = partitioned e"
  using assms by (simp add: partitioned_def owns_def local_ix_def)

lemma partitioned_updates [simp]:
  "partitioned (e\<lparr>aof_active := a\<rparr>) = partitioned e" "partitioned (e\<lparr>aof_flush := a\<rparr>) = partitioned e"
  "partitioned (e\<lparr>aof_in_flight := b\<rparr>) = partitioned e" "partitioned (e\<lparr>aof_fd := d\<rparr>) = partitioned e"
  "partitioned (e\<lparr>file_name := a\<rparr>) = partitioned e"
  by (rule partitioned_cong; simp)+

lemma partitioned_set:
  assumes "engine_wf e" "partitioned e" "engine_set now k v ttl e = Inr e'"
  shows "partitioned e'"
  using assms engine_foreign(1) [OF assms(1), of k] by (cases "owns e k") (auto simp: engine_set_owned)

section \<open>Properties\<close>

text \<open>
  Every key has exactly one owner among the reactors, all engines compute the same one, and
  \<open>owns_key\<close> of an engine agrees with it.
\<close>

theorem one_owner:
  assumes "0 < shards_per_reactor" "0 < n" "shards_per_reactor * n < 2 ^ 31"
  shows "\<exists>!i. 0 \<le> i \<and> i < n \<and> owns_key (engine_fields shards_per_reactor i n) key = Inr True"
proof -
  let ?o = "owner_of shards_per_reactor n key"
  have k: "owns_key (engine_fields shards_per_reactor i n) key = Inr (?o = i)" if "0 \<le> i" "i < n" for i
    using owns_key_wf [OF engine_wf_fields [OF assms(1) that assms(3)], of key]
    by (simp add: owns_def engine_fields_def)
  have "0 \<le> ?o" "?o < n" using owner_bounds [OF assms(1,2)] by auto
  with k show ?thesis by (intro ex1I [of _ ?o]) auto
qed

theorem one_owner_witness:
  "\<exists>!i. 0 \<le> i \<and> i < 4 \<and> owns_key (engine_fields 512 i 4) ''user:1'' = Inr True"
  by (rule one_owner) simp_all

text \<open>
  \<open>fast_owner\<close> of any engine names a reactor of the program, the one whose engine owns the key.
\<close>

theorem fast_owner_owns:
  assumes "engine_wf e"
  shows "\<exists>i. fast_owner e key = Inr i \<and> 0 \<le> i \<and> i < num_reactors e \<and> (owns_key e key = Inr True \<longleftrightarrow> i = reactor_id e)"
  using owner_bounds [of "shard_count e" "num_reactors e" key] assms
  by (auto simp: fast_owner_wf owns_key_wf owns_def engine_wf_def)

theorem fast_owner_owns_witness:
  "\<exists>i. fast_owner (engine_fields 512 1 4) ''user:1'' = Inr i \<and> 0 \<le> i \<and> i < 4"
  using fast_owner_owns [OF engine_wf_fields [of 512 1 4], of "''user:1''"] by (auto simp: engine_fields_def)

text \<open>
  C27. A get returns the value of the last set of its key, however many sets of other keys came
  between, unless its expiry has passed.
\<close>

theorem last_set_wins:
  assumes "engine_wf e" "\<forall>c \<in> set (cs @ (now, k, v, ttl) # ds). owns e (set_key_of c)"
    and "k \<notin> set_key_of ` set ds"
  shows "\<exists>e' e''. set_calls engine_set (cs @ (now, k, v, ttl) # ds) e = Inr e' \<and>
    engine_get later k e' = Inr (if ttl = 0 \<or> now + ttl = 0 \<or> later \<le> now + ttl then Some v else None, e'')"
proof -
  have "live later (new_entry now v ttl) \<longleftrightarrow> ttl = 0 \<or> now + ttl = 0 \<or> later \<le> now + ttl"
    by (auto simp: live_def new_entry_def word_gt_0)
  with eng.get_after_sets [OF assms, of later] show ?thesis by simp
qed

lemma single_engine_owns:
  "owns (engine_fields 512 0 1) key"
  using owner_bounds [of 512 1 key] by (simp add: owns_def engine_fields_def)

theorem last_set_wins_witness:
  "\<exists>e' e''. set_calls engine_set [(5, ''a'', ''1'', 0), (6, ''a'', ''2'', 10), (7, ''b'', ''3'', 0)] (engine_fields 512 0 1) = Inr e' \<and>
    engine_get 17 ''a'' e' = Inr (None, e'')"
  using last_set_wins [OF engine_wf_fields [of 512 0 1], of "[(5, ''a'', ''1'', 0)]" 6 "''a''" "''2''" 10 "[(7, ''b'', ''3'', 0)]" 17]
  by (simp add: single_engine_owns)

text \<open>
  C28. A get of an expired key answers that there is none and removes it; a get of any other key
  changes nothing.
\<close>

theorem get_expires:
  assumes "engine_wf e" "owns e key"
  shows "\<exists>r e'. engine_get now key e = Inr (r, e') \<and> engine_wf e' \<and>
    (case kv e key of
       None \<Rightarrow> r = None \<and> e' = e
     | Some x \<Rightarrow> if expires_at x \<noteq> 0 \<and> expires_at x < now then r = None \<and> kv e' = (kv e)(key := None)
                else r = Some (ve_data x) \<and> e' = e)"
  using assms by (auto simp: engine_get_owned live_def not_less split: option.split)

theorem get_expires_witness:
  "\<exists>r e'. engine_get 1 ''a'' (engine_fields 512 0 1) = Inr (r, e') \<and> engine_wf e'"
  using get_expires [OF engine_wf_fields [of 512 0 1] single_engine_owns, where now = 1 and key = "''a''"] by auto

text \<open>
  C39. An engine has no bounds check: every operation on a key it does not own indexes its shards
  out of range.
\<close>

theorem foreign_key_out_of_range:
  assumes "engine_wf e" "owns_key e key = Inr False"
  shows "engine_set now key v ttl e = Inl Bad_index \<and> engine_get now key e = Inl Bad_index \<and> engine_del key e = Inl Bad_index"
  using assms engine_foreign [OF assms(1), of key] by (simp add: owns_key_wf)

theorem foreign_key_out_of_range_witness:
  "engine_get 0 ''a'' (engine_fields 512 (if owner_of 512 2 ''a'' = 0 then 1 else 0) 2) = Inl Bad_index"
proof -
  let ?e = "engine_fields 512 (if owner_of 512 2 ''a'' = 0 then 1 else 0) 2"
  have wf: "engine_wf ?e" by (rule engine_wf_fields) simp_all
  have "owns_key ?e ''a'' = Inr False" unfolding owns_key_wf [OF wf] by (simp add: owns_def engine_fields_def)
  from foreign_key_out_of_range [OF wf this] show ?thesis by blast
qed

text \<open>
  C29. A \<open>set\<close> that is defined writes a key of the engine, into the shard its hash names: every key
  of the engine still stands in its shard, and as a map the engine changed at that key only.
\<close>

theorem set_keeps_partition:
  assumes "engine_wf e" "partitioned e" "engine_set now k v ttl e = Inr e'"
  shows "partitioned e' \<and> owns e' k \<and> kv e' = (kv e)(k \<mapsto> new_entry now v ttl)"
  using assms engine_foreign(1) [OF assms(1), of k] partitioned_set [OF assms]
  by (cases "owns e k") (auto simp: engine_set_owned)

theorem set_keeps_partition_witness:
  "\<exists>e'. engine_set 0 ''a'' ''b'' 0 (engine_fields 512 0 1) = Inr e' \<and> partitioned e'"
proof -
  have wf: "engine_wf (engine_fields 512 0 1)" by (rule engine_wf_fields) simp_all
  obtain e' where e': "engine_set 0 ''a'' ''b'' 0 (engine_fields 512 0 1) = Inr e'"
    using engine_set_owned [OF wf single_engine_owns] by blast
  from set_keeps_partition [OF wf partitioned_fields e'] e' show ?thesis by blast
qed

end
