(* ===== verification/Commands.thy ===== *)
theory Commands
  imports Resp_Parser Engine
begin

text \<open>
  The rest of \<open>include/command_handler.hpp\<close>: the expiry a SET asks for, and the two handlers
  that run a command on the engine that owns its key.
\<close>

definition parse_ttl :: "command \<Rightarrow> u64" where
  "parse_ttl c =
     (if 4 \<le> length (cmd_args c) then
        let flag = cmd_args c ! 2; timeout = cmd_args c ! 3;
            (val, ec) = from_chars_u64 timeout 0 in
        if ec = Errc_ok then
          if flag = ''EX'' \<or> flag = ''ex'' then val * 1000
          else if flag = ''PX'' \<or> flag = ''px'' then val
          else 0
        else 0
      else if length (cmd_args c) = 3 then fst (from_chars_u64 (cmd_args c ! 2) 0)
      else 0)"

definition process_local_get :: "u64 \<Rightarrow> engine \<Rightarrow> bytes \<Rightarrow> ub + (bytes \<times> engine)" where
  "process_local_get now e key =
     ub_map (\<lambda>(val, e). (case val of Some v \<Rightarrow> bulk v | None \<Rightarrow> resp_NIL, e)) (engine_get now key e)"

definition process_local_set :: "u64 \<Rightarrow> engine \<Rightarrow> bytes \<Rightarrow> bytes \<Rightarrow> u64 \<Rightarrow> ub + (bytes \<times> engine)" where
  "process_local_set now e key val ttl_ms = ub_map (\<lambda>e. (resp_OK, e)) (engine_set now key val ttl_ms e)"

lemma parse_ttl_cases:
  "length args < 3 \<Longrightarrow> parse_ttl \<lparr>cmd_type = t, cmd_args = args\<rparr> = 0"
  "n < 2 ^ 64 \<Longrightarrow>
     parse_ttl \<lparr>cmd_type = t, cmd_args = k # v # ''PX'' # dec_of_nat n # rest\<rparr> = of_nat n"
  "n < 2 ^ 64 \<Longrightarrow>
     parse_ttl \<lparr>cmd_type = t, cmd_args = k # v # ''EX'' # dec_of_nat n # rest\<rparr> = of_nat (n * 1000)"
  using from_chars_u64_dec [of n "[]" 0] by (simp_all add: parse_ttl_def)

section \<open>Properties\<close>

text \<open>
  The expiry of a SET: \<open>PX n\<close> asks for \<open>n\<close> milliseconds, \<open>EX n\<close> for \<open>1000 n\<close> reduced to 64
  bits, a bare third argument is taken as milliseconds, and a SET without one does not expire.
\<close>

theorem parse_ttl_options:
  assumes "n < 2 ^ 64"
  shows "parse_ttl \<lparr>cmd_type = t, cmd_args = [k, v]\<rparr> = 0 \<and>
    parse_ttl \<lparr>cmd_type = t, cmd_args = [k, v, dec_of_nat n]\<rparr> = of_nat n \<and>
    parse_ttl \<lparr>cmd_type = t, cmd_args = k # v # ''PX'' # dec_of_nat n # rest\<rparr> = of_nat n \<and>
    parse_ttl \<lparr>cmd_type = t, cmd_args = k # v # ''EX'' # dec_of_nat n # rest\<rparr> = of_nat (n * 1000)"
  using parse_ttl_cases [of _ t] assms from_chars_u64_dec [OF assms, of "[]" 0] by (simp add: parse_ttl_def)

theorem parse_ttl_options_witness:
  "parse_ttl \<lparr>cmd_type = ''SET'', cmd_args = [''k'', ''v'', ''EX'', ''9'']\<rparr> = 9000"
  using parse_ttl_options [of 9 "''SET''" "''k''" "''v''" "[]"] by (simp add: dec_of_nat_small)

text \<open>
  C33. For every number \<open>n\<close> of 64 bits, \<open>PX n\<close> gives \<open>n\<close> milliseconds, and \<open>EX n\<close> gives the low 64 bits of
  \<open>1000 n\<close>: the milliseconds meant exactly for \<open>n\<close> up to 18446744073709551 and less for every greater one, and 0,
  which means no expiry, exactly for the multiples of \<open>2 ^ 61\<close>. What follows the number is ignored.
\<close>

theorem ttl_seconds_wrap:
  assumes "n < 2 ^ 64"
  shows "unat (parse_ttl \<lparr>cmd_type = t, cmd_args = k # v # ''PX'' # dec_of_nat n # rest\<rparr>) = n \<and>
    unat (parse_ttl \<lparr>cmd_type = t, cmd_args = k # v # ''EX'' # dec_of_nat n # rest\<rparr>) = n * 1000 mod 2 ^ 64 \<and>
    (if n \<le> 18446744073709551
     then unat (parse_ttl \<lparr>cmd_type = t, cmd_args = k # v # ''EX'' # dec_of_nat n # rest\<rparr>) = n * 1000
     else unat (parse_ttl \<lparr>cmd_type = t, cmd_args = k # v # ''EX'' # dec_of_nat n # rest\<rparr>) < n * 1000) \<and>
    (parse_ttl \<lparr>cmd_type = t, cmd_args = k # v # ''EX'' # dec_of_nat n # rest\<rparr> = 0 \<longleftrightarrow> 2 ^ 61 dvd n)"
proof -
  let ?w = "of_nat (n * 1000) :: u64"
  have w: "unat ?w = n * 1000 mod 2 ^ 64" by (simp only: unat_of_nat len_of_numeral_defs) simp
  have "coprime (2 :: nat) 125" by (rule coprime_left_2_iff_odd [THEN iffD2]) simp
  then have c: "coprime ((2 :: nat) ^ 61) 125" by (simp only: coprime_power_left_iff simp_thms)
  have "?w = 0 \<longleftrightarrow> 2 ^ 64 dvd n * 1000" using w by (simp only: unat_eq_0 [symmetric] dvd_eq_mod_eq_0)
  also have "\<dots> \<longleftrightarrow> 2 ^ 61 * 8 dvd n * 125 * 8" by (simp add: mult.assoc)
  also have "\<dots> \<longleftrightarrow> 2 ^ 61 dvd n * 125" by (rule dvd_times_right_cancel_iff) simp
  also have "\<dots> \<longleftrightarrow> 2 ^ 61 dvd n" using c by (rule coprime_dvd_mult_left_iff)
  finally have z: "?w = 0 \<longleftrightarrow> 2 ^ 61 dvd n" .
  have "unat ?w \<le> n * 1000" "n * 1000 < 2 ^ 64 \<longrightarrow> unat ?w = n * 1000" using w by simp_all
  moreover have "unat ?w < 2 ^ 64" by (rule unat_u64)
  ultimately have r: "if n \<le> 18446744073709551 then unat ?w = n * 1000 else unat ?w < n * 1000" by auto
  show ?thesis
    using z r w unat_of_nat_u64 [OF assms] by (simp only: parse_ttl_cases(2,3) [OF assms])
qed

theorem ttl_seconds_wrap_witness:
  "unat (parse_ttl \<lparr>cmd_type = ''SET'', cmd_args = [''k'', ''v'', ''EX'', dec_of_nat 18446744073709552]\<rparr>) = 384"
  using ttl_seconds_wrap [of 18446744073709552 "''SET''" "''k''" "''v''" "[]"] by simp

end
