(* ===== verification/Aof.thy ===== *)
theory Aof
  imports Engine Resp_Parser
begin

text \<open>
  The append-only file of \<open>include/dbsync_engine.hpp\<close>: \<open>append_aof_set\<close> writes a SET into the
  in-memory buffer, \<open>recover_from_aof\<close> replays a file when the engine is built, and the
  constructor. Recovery works on the bytes \<open>read\<close> returned; the clock is a sequence of
  readings, one for each call of \<open>get_now\<close>, because recovery calls it more than once per
  command. The lemmas show that recovery always ends, that it replays exactly what was
  appended, and what it does with a file that ends in the middle of a command.
\<close>

section \<open>Appending\<close>

definition append_aof_set :: "bytes \<Rightarrow> bytes \<Rightarrow> engine \<Rightarrow> engine" where
  "append_aof_set key val e =
     (if aof_fd e < 0 then e
      else e\<lparr>aof_active := aof_active e
        @ ''*3'' @ crlf @ ''$3'' @ crlf @ ''SET'' @ crlf @ ''$''
        @ dec_of_nat (length key) @ crlf @ key @ crlf @ ''$''
        @ dec_of_nat (length val) @ crlf @ val @ crlf\<rparr>)"

section \<open>Recovery\<close>

text \<open>
  \<open>parse_bulk_string\<close>. The sum \<open>pos + str_len\<close> is a \<open>size_t\<close>: a negative length wraps, and
  when the wrapped sum is inside the file the view is built with a length of nearly
  \<open>2 ^ 64\<close>. The addition \<open>str_len + 2\<close> is an \<open>int\<close>.
\<close>

definition parse_bulk_string :: "bytes \<Rightarrow> nat \<Rightarrow> ub + (bytes \<times> nat)" where
  "parse_bulk_string data pos =
     (let len = length data in
      if len \<le> pos \<or> data ! pos \<noteq> CHR ''$'' then Inr ([], pos)
      else
        let line_end = pos + length (takeWhile (\<lambda>c. c \<noteq> CHR 0x0D) (drop pos data)) in
        if len \<le> line_end + 1 then Inr ([], pos)
        else
          let str_len = fst (from_chars_int (drop (pos + 1) (take line_end data)) 0);
              pos = line_end + 2 in
          if int len < (int pos + str_len) mod 2 ^ 64 then Inr ([], pos)
          else if str_len < 0 then Inl Bad_view
          else if 2 ^ 31 \<le> str_len + 2 then Inl Signed_overflow
          else Inr (take (nat str_len) (drop pos data), pos + nat str_len + 2))"

record recovery =
  rec_pos :: nat
  rec_tick :: nat
  rec_count :: nat
  rec_engine :: engine

datatype 'a loop_exit = Break 'a | Continue 'a

text \<open>The optional flag and timeout after a key and value; \<open>None\<close> skips the command.\<close>

definition recover_ttl :: "(nat \<Rightarrow> u64) \<Rightarrow> bytes \<Rightarrow> int \<Rightarrow> nat \<Rightarrow> nat \<Rightarrow> ub + (u64 option \<times> nat \<times> nat)" where
  "recover_ttl clock data num_args pos tick =
     (if num_args < 5 then Inr (Some 0, pos, tick)
      else
        ub_bind (parse_bulk_string data pos) (\<lambda>(flag, pos).
        ub_bind (parse_bulk_string data pos) (\<lambda>(timeout, pos).
          let val = fst (from_chars_u64 timeout 0) in
          if flag = ''PXAT'' \<or> flag = ''pxat'' then
            if clock tick < val then Inr (Some (val - clock (tick + 1)), pos, tick + 2)
            else Inr (None, pos, tick + 1)
          else if flag = ''PX'' \<or> flag = ''px'' then Inr (Some val, pos, tick)
          else if flag = ''EX'' \<or> flag = ''ex'' then Inr (Some (val * 1000), pos, tick)
          else Inr (Some 0, pos, tick))))"

fun skip_args :: "bytes \<Rightarrow> nat \<Rightarrow> nat \<Rightarrow> ub + nat" where
  "skip_args data pos 0 = Inr pos"
| "skip_args data pos (Suc n) =
     ub_bind (parse_bulk_string data pos) (\<lambda>(_, pos). skip_args data pos n)"

definition recover_set :: "(nat \<Rightarrow> u64) \<Rightarrow> bytes \<Rightarrow> int \<Rightarrow> recovery \<Rightarrow> ub + recovery" where
  "recover_set clock data num_args st =
     ub_bind (parse_bulk_string data (rec_pos st)) (\<lambda>(key, pos).
     ub_bind (parse_bulk_string data pos) (\<lambda>(val, pos).
       if key = [] \<or> val = [] then Inr (st\<lparr>rec_pos := pos\<rparr>)
       else
         ub_bind (recover_ttl clock data num_args pos (rec_tick st)) (\<lambda>(ttl, pos, tick).
           case ttl of
             None \<Rightarrow> Inr (st\<lparr>rec_pos := pos, rec_tick := tick, rec_count := rec_count st + 1\<rparr>)
           | Some ttl_ms \<Rightarrow>
               ub_map (\<lambda>e. \<lparr>rec_pos = pos, rec_tick = (if 0 < ttl_ms then tick + 1 else tick),
                   rec_count = rec_count st + 1, rec_engine = e\<rparr>)
                 (engine_set (clock tick) key val ttl_ms (rec_engine st)))))"

text \<open>One iteration of the replay loop, entered with \<open>pos < len\<close>.\<close>

definition recover_step :: "(nat \<Rightarrow> u64) \<Rightarrow> bytes \<Rightarrow> recovery \<Rightarrow> ub + recovery loop_exit" where
  "recover_step clock data st =
     (let len = length data; pos = rec_pos st in
      if data ! pos \<noteq> CHR ''*'' then Inr (Break st)
      else
        let line_end = pos + length (takeWhile (\<lambda>c. c \<noteq> CHR 0x0D) (drop pos data)) in
        if len \<le> line_end + 1 then Inr (Break st)
        else
          let num_args = fst (from_chars_int (drop (pos + 1) (take line_end data)) 0);
              pos = line_end + 2 in
          if num_args < 1 then Inr (Break (st\<lparr>rec_pos := pos\<rparr>))
          else
            ub_bind (parse_bulk_string data pos) (\<lambda>(cmd_name, pos).
              if cmd_name = [] then Inr (Break (st\<lparr>rec_pos := pos\<rparr>))
              else if (cmd_name = ''SET'' \<or> cmd_name = ''set'') \<and> 3 \<le> num_args
              then ub_map Continue (recover_set clock data num_args (st\<lparr>rec_pos := pos\<rparr>))
              else ub_map (\<lambda>pos. Continue (st\<lparr>rec_pos := pos\<rparr>))
                     (skip_args data pos (nat (num_args - 1)))))"

lemma parse_bulk_string_mono:
  "parse_bulk_string data pos = Inr (s, pos') \<Longrightarrow> pos \<le> pos'"
  by (auto simp: parse_bulk_string_def Let_def split: if_splits)

lemma skip_args_mono: "skip_args data pos n = Inr pos' \<Longrightarrow> pos \<le> pos'"
  by (induction n arbitrary: pos) (auto dest!: parse_bulk_string_mono intro: order_trans)

lemma recover_ttl_mono:
  "recover_ttl clock data n pos tick = Inr (r, pos', tick') \<Longrightarrow> pos \<le> pos'"
  by (auto simp: recover_ttl_def Let_def dest!: parse_bulk_string_mono split: if_splits)

lemma recover_set_mono: "recover_set clock data n st = Inr st' \<Longrightarrow> rec_pos st \<le> rec_pos st'"
  by (auto simp: recover_set_def ub_map_Inr_iff dest!: parse_bulk_string_mono recover_ttl_mono
      split: if_splits option.splits)

lemma recover_step_advances:
  assumes "recover_step clock data st = Inr (Continue st')"
  shows "rec_pos st < rec_pos st'"
  using assms
  by (fastforce simp: recover_step_def Let_def ub_map_Inr_iff
      dest!: parse_bulk_string_mono skip_args_mono recover_set_mono split: if_splits)

function recover_loop :: "(nat \<Rightarrow> u64) \<Rightarrow> bytes \<Rightarrow> recovery \<Rightarrow> ub + recovery" where
  "recover_loop clock data st =
     (if rec_pos st < length data then
        ub_bind (recover_step clock data st) (\<lambda>r.
          case r of Break st' \<Rightarrow> Inr st' | Continue st' \<Rightarrow> recover_loop clock data st')
      else Inr st)"
  by pat_completeness auto
termination
  by (relation "measure (\<lambda>(clock, data, st). length data - rec_pos st)")
    (auto dest!: recover_step_advances)

declare recover_loop.simps [simp del]

text \<open>
  \<open>recover_from_aof\<close>. The file is \<open>None\<close> when it cannot be opened, otherwise the bytes that
  \<open>read\<close> returned.
\<close>

definition recover_from_aof :: "(nat \<Rightarrow> u64) \<Rightarrow> bytes option \<Rightarrow> engine \<Rightarrow> ub + recovery" where
  "recover_from_aof clock file e =
     (let start = \<lparr>rec_pos = 0, rec_tick = 0, rec_count = 0, rec_engine = e\<rparr> in
      case file of
        None \<Rightarrow> Inr start
      | Some data \<Rightarrow> if data = [] then Inr start else recover_loop clock data start)"

text \<open>The constructor: \<open>opened\<close> is what \<open>open\<close> returns for appending.\<close>

definition new_engine :: "int \<Rightarrow> int \<Rightarrow> int \<Rightarrow> (nat \<Rightarrow> u64) \<Rightarrow> bytes option \<Rightarrow> int \<Rightarrow> ub + engine" where
  "new_engine shards_per_reactor rid n clock file opened =
     (let e = engine_fields shards_per_reactor rid n in
      if rid = -1 then Inr e
      else
        let name = (if rid < 0 then ''-'' @ dec_of_nat (nat (- rid)) else dec_of_nat (nat rid));
            e = e\<lparr>file_name := ''appendonly_'' @ name @ ''.aof''\<rparr> in
        ub_map (\<lambda>st. (rec_engine st)\<lparr>aof_fd := opened\<rparr>) (recover_from_aof clock file e))"

section \<open>Replaying what was appended\<close>

definition set_record :: "bytes \<times> bytes \<Rightarrow> bytes" where
  "set_record p = encode_request [''SET'', fst p, snd p]"

definition aof_image :: "(bytes \<times> bytes) list \<Rightarrow> bytes" where
  "aof_image kvs = concat (map set_record kvs)"

definition short :: "bytes \<Rightarrow> bool" where
  "short s \<longleftrightarrow> int (length s) + 2 < 2 ^ 31"

text \<open>The SETs a replay performs: those with a key and a value, without expiry.\<close>

definition replay_calls :: "(bytes \<times> bytes) list \<Rightarrow> set_call list" where
  "replay_calls kvs = map (\<lambda>(k, v). (0, k, v, 0)) (filter (\<lambda>(k, v). k \<noteq> [] \<and> v \<noteq> []) kvs)"

lemma dec_of_nat_3 [simp]: "dec_of_nat (Suc (Suc (Suc 0))) = ''3''"
  by (simp add: dec_of_nat_small flip: numeral_3_eq_3)

lemma set_record_eq:
  "set_record (k, v) = ''*3'' @ crlf @ bulk ''SET'' @ bulk k @ bulk v"
  by (simp add: set_record_def encode_request_def)

lemma append_aof_set_record:
  "0 \<le> aof_fd e \<Longrightarrow> append_aof_set k v e = e\<lparr>aof_active := aof_active e @ set_record (k, v)\<rparr>"
  by (simp add: append_aof_set_def set_record_eq bulk_def)

lemma takeWhile_to_CR:
  assumes "CHR 0x0D \<notin> set s"
  shows "takeWhile (\<lambda>c. c \<noteq> CHR 0x0D) (s @ crlf @ rest) = s"
  using assms by (intro takeWhile_append_stop) auto

lemma parse_bulk_at:
  assumes "short v" "data = pre @ bulk v @ rest" "pos = length pre"
  shows "parse_bulk_string data pos = Inr (v, pos + length (bulk v))"
proof -
  let ?h = "''$'' @ dec_of_nat (length v)"
  have drop: "drop pos data = ?h @ crlf @ v @ crlf @ rest"
    using assms by (simp add: bulk_def)
  have tw: "takeWhile (\<lambda>c. c \<noteq> CHR 0x0D) (drop pos data) = ?h"
    unfolding drop by (rule takeWhile_to_CR) (simp add: CR_notin_dec)
  have "drop (pos + 1) (take (pos + length ?h) data) = dec_of_nat (length v)"
    using assms by (simp add: bulk_def)
  then have len: "fst (from_chars_int (drop (pos + 1) (take (pos + length ?h) data)) 0) = int (length v)"
    using from_chars_int_dec [of "length v" "[]" 0] assms(1) by (simp add: short_def)
  have "(int (pos + length ?h + 2) + int (length v)) mod 2 ^ 64 \<le> int (pos + length ?h + 2) + int (length v)"
    by (rule zmod_le_nonneg_dividend) simp
  also have "\<dots> \<le> int (length data)" using assms by (simp add: bulk_def)
  finally have fits: "\<not> int (length data) < (int (pos + length ?h + 2) + int (length v)) mod 2 ^ 64"
    by simp
  have "drop (pos + length ?h + 2) data = drop (length ?h + 2) (drop pos data)"
    by (simp add: add.commute)
  also have "\<dots> = v @ crlf @ rest" unfolding drop by simp
  finally have body: "take (length v) (drop (pos + length ?h + 2) data) = v" by simp
  have "data ! pos = CHR ''$''" using assms by (simp add: bulk_def nth_append)
  moreover have "pos < length data" "pos + length ?h + 1 < length data"
    using assms by (simp_all add: bulk_def)
  ultimately show ?thesis
    using assms(1) fits len tw body
    unfolding parse_bulk_string_def
    by (simp add: Let_def short_def length_bulk)
qed

lemma skip_header:
  assumes "data = pre @ ''*3'' @ crlf @ rest" "pos = length pre"
  shows "recover_step clock data (st\<lparr>rec_pos := pos\<rparr>) =
    ub_bind (parse_bulk_string data (pos + 4)) (\<lambda>(cmd_name, pos).
      if cmd_name = [] then Inr (Break (st\<lparr>rec_pos := pos\<rparr>))
      else if cmd_name = ''SET'' \<or> cmd_name = ''set''
      then ub_map Continue (recover_set clock data 3 (st\<lparr>rec_pos := pos\<rparr>))
      else ub_map (\<lambda>pos. Continue (st\<lparr>rec_pos := pos\<rparr>)) (skip_args data pos 2))"
proof -
  have "takeWhile (\<lambda>c. c \<noteq> CHR 0x0D) (drop pos data) = ''*3''"
    using takeWhile_to_CR [of "''*3''" rest] assms by simp
  then have "length (takeWhile (\<lambda>c. c \<noteq> CHR 0x0D) (drop pos data)) = 2" by simp
  moreover have "data ! pos = CHR ''*''" using assms by (simp add: nth_append)
  moreover have "fst (from_chars_int (drop (pos + 1) (take (pos + 2) data)) 0) = 3"
    using assms by (simp add: from_chars_int_def is_digit_def digits_val_def digit_val_def)
  moreover have "pos + 4 \<le> length data" using assms by simp
  ultimately show ?thesis
    unfolding recover_step_def
    by (simp add: Let_def add.commute [of 4] cong: if_cong del: add_2_eq_Suc add_2_eq_Suc')
qed

lemma engine_set_no_ttl: "engine_set now k v 0 e = engine_set 0 k v 0 e"
  by (simp add: engine_set_def)

lemma recover_step_record:
  assumes "data = pre @ set_record (k, v) @ rest" "rec_pos st = length pre" "short k" "short v"
  defines "pos' \<equiv> length pre + length (set_record (k, v))"
  shows "recover_step clock data st =
    (if k = [] \<or> v = [] then Inr (Continue (st\<lparr>rec_pos := pos'\<rparr>))
     else ub_map (\<lambda>e. Continue (st\<lparr>rec_pos := pos', rec_count := rec_count st + 1, rec_engine := e\<rparr>))
       (engine_set 0 k v 0 (rec_engine st)))"
proof -
  let ?p1 = "length pre + 4" and ?pre1 = "pre @ ''*3'' @ crlf"
  let ?p2 = "?p1 + length (bulk ''SET'')" and ?pre2 = "?pre1 @ bulk ''SET''"
  let ?p3 = "?p2 + length (bulk k)" and ?pre3 = "?pre2 @ bulk k"
  have data: "data = pre @ ''*3'' @ crlf @ bulk ''SET'' @ bulk k @ bulk v @ rest"
    using assms(1) by (simp add: set_record_eq)
  have name: "parse_bulk_string data ?p1 = Inr (''SET'', ?p2)"
    by (rule parse_bulk_at [where pre = ?pre1 and rest = "bulk k @ bulk v @ rest"])
      (simp_all add: data short_def)
  have key: "parse_bulk_string data ?p2 = Inr (k, ?p3)"
    by (rule parse_bulk_at [where pre = ?pre2 and rest = "bulk v @ rest"])
      (use assms(3) in \<open>simp_all add: data\<close>)
  have val: "parse_bulk_string data ?p3 = Inr (v, pos')"
    using parse_bulk_at [where pre = ?pre3 and rest = rest and pos = ?p3, OF assms(4)] data
    by (simp add: pos'_def set_record_eq)
  have "st\<lparr>rec_pos := length pre\<rparr> = st" using assms(2) by (cases st) simp
  with skip_header [OF data refl, of clock st] show ?thesis
    by (cases st) (simp add: name recover_set_def key val recover_ttl_def engine_set_no_ttl [of "clock _"] ub_map_def
        ub_bind_assoc)
qed

lemma recover_loop_image:
  assumes "data = pre @ aof_image kvs @ rest" "rec_pos st = length pre"
    and "\<forall>(k, v) \<in> set kvs. short k \<and> short v"
  shows "recover_loop clock data st =
    ub_bind (set_calls engine_set (replay_calls kvs) (rec_engine st)) (\<lambda>e.
      recover_loop clock data
        (st\<lparr>rec_pos := length pre + length (aof_image kvs),
            rec_count := rec_count st + length (replay_calls kvs), rec_engine := e\<rparr>))"
  using assms
proof (induction kvs arbitrary: pre st)
  case Nil
  have "st\<lparr>rec_pos := length pre, rec_count := rec_count st, rec_engine := rec_engine st\<rparr> = st"
    using Nil.prems(2) by (cases st) simp
  then show ?case by (simp add: replay_calls_def aof_image_def)
next
  case (Cons kv kvs)
  obtain k v where kv: "kv = (k, v)" by (cases kv)
  let ?pos = "length pre + length (set_record (k, v))"
  have data: "data = pre @ set_record (k, v) @ aof_image kvs @ rest"
    using Cons.prems(1) kv by (simp add: aof_image_def)
  have step: "recover_step clock data st =
    (if k = [] \<or> v = [] then Inr (Continue (st\<lparr>rec_pos := ?pos\<rparr>))
     else ub_map (\<lambda>e. Continue (st\<lparr>rec_pos := ?pos, rec_count := rec_count st + 1, rec_engine := e\<rparr>))
       (engine_set 0 k v 0 (rec_engine st)))"
    by (rule recover_step_record [OF data]) (use Cons.prems kv in auto)
  have inside: "rec_pos st < length data" using data Cons.prems(2) by (simp add: set_record_eq)
  have IH: "recover_loop clock data (st'\<lparr>rec_pos := ?pos\<rparr>) =
    ub_bind (set_calls engine_set (replay_calls kvs) (rec_engine st')) (\<lambda>e.
      recover_loop clock data
        (st'\<lparr>rec_pos := ?pos + length (aof_image kvs),
            rec_count := rec_count st' + length (replay_calls kvs), rec_engine := e\<rparr>))" for st'
    using Cons.IH [of "pre @ set_record (k, v)" "st'\<lparr>rec_pos := ?pos\<rparr>"] Cons.prems(3) data by simp
  show ?case
  proof (cases "k = [] \<or> v = []")
    case True
    with step inside IH [of st] show ?thesis
      by (subst recover_loop.simps) (auto simp: kv replay_calls_def aof_image_def add.assoc)
  next
    case False
    show ?thesis
    proof (cases "engine_set 0 k v 0 (rec_engine st)")
      case (Inl u)
      with False step inside show ?thesis
        by (subst recover_loop.simps) (simp add: kv replay_calls_def)
    next
      case (Inr e1)
      with False step inside IH [of "st\<lparr>rec_count := rec_count st + 1, rec_engine := e1\<rparr>"]
      show ?thesis
        by (subst recover_loop.simps, cases st) (simp add: kv replay_calls_def aof_image_def add.assoc)
    qed
  qed
qed

lemma aof_image_append: "aof_image (kvs @ kvs') = aof_image kvs @ aof_image kvs'"
  by (simp add: aof_image_def)

lemma recover_image:
  assumes "engine_wf e" "\<forall>(k, v) \<in> set kvs. short k \<and> short v \<and> owns e k"
  shows "\<exists>st. recover_from_aof clock (Some (aof_image kvs)) e = Inr st \<and>
    engine_wf (rec_engine st) \<and> owns (rec_engine st) = owns e \<and>
    kv (rec_engine st) = apply_sets (replay_calls kvs) (kv e) \<and>
    rec_count st = length (replay_calls kvs)"
proof -
  let ?start = "\<lparr>rec_pos = 0, rec_tick = 0, rec_count = 0, rec_engine = e\<rparr>"
  let ?data = "aof_image kvs"
  have start: "recover_from_aof clock (Some ?data) e = recover_loop clock ?data ?start"
    by (simp add: recover_from_aof_def recover_loop.simps)
  have "\<forall>c \<in> set (replay_calls kvs). owns e (set_key_of c)"
    using assms(2) by (auto simp: replay_calls_def)
  from eng.set_calls_view [OF assms(1) this] obtain e' where e':
    "set_calls engine_set (replay_calls kvs) e = Inr e'" "engine_wf e'" "owns e' = owns e"
    "kv e' = apply_sets (replay_calls kvs) (kv e)" by blast
  have "\<forall>(k, v) \<in> set kvs. short k \<and> short v" using assms(2) by auto
  from recover_loop_image [of ?data "[]" kvs "[]" ?start clock, OF _ _ this]
  have "recover_loop clock ?data ?start = recover_loop clock ?data
      \<lparr>rec_pos = length ?data, rec_tick = 0, rec_count = length (replay_calls kvs), rec_engine = e'\<rparr>"
    by (simp add: e')
  also have "\<dots> = Inr \<lparr>rec_pos = length ?data, rec_tick = 0,
      rec_count = length (replay_calls kvs), rec_engine = e'\<rparr>"
    by (subst recover_loop.simps) simp
  finally show ?thesis using start e' by simp
qed

section \<open>Logging and recovery together\<close>

text \<open>A SET of a local key, as the reactor runs it: into the engine, then into the log.\<close>

definition logged_set :: "u64 \<Rightarrow> bytes \<Rightarrow> bytes \<Rightarrow> u64 \<Rightarrow> engine \<Rightarrow> ub + engine" where
  "logged_set now key val ttl e = ub_map (append_aof_set key val) (engine_set now key val ttl e)"

fun call_pair :: "set_call \<Rightarrow> bytes \<times> bytes" where
  "call_pair (now, k, v, ttl) = (k, v)"

lemma append_aof_frame [simp]:
  "engine_wf (append_aof_set k v e) = engine_wf e" "owns (append_aof_set k v e) = owns e"
  "kv (append_aof_set k v e) = kv e" "aof_fd (append_aof_set k v e) = aof_fd e"
  by (auto simp: append_aof_set_def engine_wf_def owns_def kv_def local_ix_def fun_eq_iff)

lemma put_entry_log [simp]: "aof_fd (put_entry k x e) = aof_fd e" "aof_active (put_entry k x e) = aof_active e"
  by simp_all

lemma logged_sets:
  assumes "engine_wf e" "0 \<le> aof_fd e" "\<forall>c \<in> set cs. owns e (set_key_of c)"
  shows "\<exists>e'. set_calls logged_set cs e = Inr e' \<and> engine_wf e' \<and> owns e' = owns e \<and>
    kv e' = apply_sets cs (kv e) \<and> aof_active e' = aof_active e @ aof_image (map call_pair cs)"
  using assms
proof (induction cs arbitrary: e)
  case Nil
  then show ?case by (simp add: aof_image_def)
next
  case (Cons c cs)
  obtain now k v ttl where c: "c = (now, k, v, ttl)" by (cases c)
  let ?e = "append_aof_set k v (put_entry k (Some (new_entry now v ttl)) e)"
  have o: "owns e k" using Cons.prems c by simp
  have run: "logged_set now k v ttl e = Inr ?e" using engine_set_owned [OF Cons.prems(1) o] by (simp add: logged_set_def)
  have log: "aof_active ?e = aof_active e @ set_record (k, v)"
    using Cons.prems(2) by (simp add: append_aof_set_record)
  have "engine_wf ?e" "0 \<le> aof_fd ?e" "\<forall>c \<in> set cs. owns ?e (set_key_of c)" "kv ?e = (kv e)(k \<mapsto> new_entry now v ttl)"
    "owns ?e = owns e"
    using Cons.prems o by simp_all
  with Cons.IH [of ?e] run log c show ?case by (fastforce simp: aof_image_def)
qed

text \<open>Replaying sees the same values as running, without the expiries.\<close>

lemma apply_sets_data:
  assumes "\<And>k. map_option ve_data (m k) = map_option ve_data (m' k)" "map call_pair cs = map call_pair ds"
  shows "map_option ve_data (apply_sets cs m k) = map_option ve_data (apply_sets ds m' k)"
  using assms
proof (induction cs arbitrary: ds m m')
  case (Cons c cs)
  then obtain d ds' where d: "ds = d # ds'" "call_pair c = call_pair d" "map call_pair cs = map call_pair ds'"
    by (cases ds) auto
  then have "set_key_of c = set_key_of d" "ve_data (set_entry_of c) = ve_data (set_entry_of d)"
    by (cases c; cases d; simp add: new_entry_def)+
  then have "map_option ve_data ((m(set_key_of c \<mapsto> set_entry_of c)) j) =
      map_option ve_data ((m'(set_key_of d \<mapsto> set_entry_of d)) j)" for j
    using Cons.prems(1) by simp
  with Cons.IH [of "m(set_key_of c \<mapsto> set_entry_of c)" "m'(set_key_of d \<mapsto> set_entry_of d)" ds'] d(3)
  show ?case unfolding d(1) apply_sets_simps by blast
qed simp

lemma replay_calls_pairs:
  "\<forall>(k, v) \<in> set kvs. k \<noteq> [] \<and> v \<noteq> [] \<Longrightarrow> map call_pair (replay_calls kvs) = kvs"
  by (induction kvs) (auto simp: replay_calls_def)

lemma replay_no_expiry:
  assumes "apply_sets (replay_calls kvs) Map.empty k = Some x"
  shows "expires_at x = 0"
proof -
  define fresh_map where "fresh_map m = (\<forall>k x. m k = Some x \<longrightarrow> expires_at x = 0)" for m :: "bytes \<rightharpoonup> value_entry"
  have upd: "fresh_map (m(k \<mapsto> new_entry 0 v 0))" if "fresh_map m" for m k v
    using that by (simp add: fresh_map_def new_entry_def)
  have "fresh_map (apply_sets (replay_calls kvs) m)" if "fresh_map m" for m
    using that by (induction kvs arbitrary: m) (auto simp: replay_calls_def upd)
  from this [of Map.empty] have "fresh_map (apply_sets (replay_calls kvs) Map.empty)"
    unfolding fresh_map_def by blast
  with assms show ?thesis unfolding fresh_map_def by blast
qed

section \<open>Properties\<close>

text \<open>
  C30. Recovery restores what was logged: a new empty engine that owns the same keys and replays the log of another one, which
  began empty with an open log and ran SETs of keys it owns, with keys and values that are not empty and shorter than
  \<open>2 ^ 31 - 2\<close> bytes, holds the same keys with the same values, not their expiry, and counts every SET.
\<close>

theorem recovery_restores:
  assumes "engine_wf e" "kv e = Map.empty" "aof_active e = []" "0 \<le> aof_fd e"
    and "engine_wf e0" "kv e0 = Map.empty" "owns e0 = owns e"
    and "\<forall>c \<in> set cs. owns e (set_key_of c) \<and> (case call_pair c of (k, v) \<Rightarrow> short k \<and> short v \<and> k \<noteq> [] \<and> v \<noteq> [])"
  shows "\<exists>e' st. set_calls logged_set cs e = Inr e' \<and> recover_from_aof clock (Some (aof_active e')) e0 = Inr st \<and>
    (\<forall>k. map_option ve_data (kv (rec_engine st) k) = map_option ve_data (kv e' k)) \<and> rec_count st = length cs"
proof -
  let ?kvs = "map call_pair cs"
  have key: "set_key_of c = fst (call_pair c)" for c by (cases c) simp
  have "\<forall>c \<in> set cs. owns e (set_key_of c)" using assms(8) by auto
  from logged_sets [OF assms(1,4) this] assms(2,3) obtain e' where e': "set_calls logged_set cs e = Inr e'"
    "kv e' = apply_sets cs Map.empty" "aof_active e' = aof_image ?kvs" by auto
  have "\<forall>(k, v) \<in> set ?kvs. short k \<and> short v \<and> owns e0 k" using assms(7,8) by (fastforce simp: key)
  from recover_image [OF assms(5) this, of clock] assms(6) obtain st where st:
    "recover_from_aof clock (Some (aof_image ?kvs)) e0 = Inr st"
    "kv (rec_engine st) = apply_sets (replay_calls ?kvs) Map.empty" "rec_count st = length (replay_calls ?kvs)" by auto
  have pairs: "map call_pair (replay_calls ?kvs) = ?kvs" by (rule replay_calls_pairs) (use assms(8) in fastforce)
  then have "length (replay_calls ?kvs) = length cs" by (metis length_map)
  moreover have "map_option ve_data (kv (rec_engine st) k) = map_option ve_data (kv e' k)" for k
    unfolding st(2) e'(2) by (rule apply_sets_data [OF refl pairs])
  ultimately show ?thesis using e' st by auto
qed

lemma kv_new:
  assumes "engine_wf (engine_fields k i n)"
  shows "kv (engine_fields k i n) = Map.empty"
proof
  fix key
  have "owns (engine_fields k i n) key \<Longrightarrow> (shards (engine_fields k i n) ! local_ix (engine_fields k i n) key) key = None"
    using local_ix_less [OF assms, of key] by (simp add: engine_fields_def)
  then show "kv (engine_fields k i n) key = None" by (simp add: kv_def)
qed

text \<open>The only engine of a program of one reactor, with an open log.\<close>

definition single_engine :: engine where
  "single_engine = (engine_fields 512 0 1)\<lparr>aof_fd := 3\<rparr>"

lemma single_engine_ok [simp]:
  "engine_wf single_engine" "owns single_engine k" "kv single_engine = Map.empty" "aof_active single_engine = []"
  "aof_fd single_engine = 3" "partitioned single_engine"
proof -
  show "engine_wf single_engine" using engine_wf_fields [of 512 0 1] by (simp add: single_engine_def engine_wf_def)
  show "owns single_engine k" using single_engine_owns [of k] by (simp add: single_engine_def owns_def)
  have "kv ((engine_fields 512 0 1)\<lparr>aof_fd := 3\<rparr>) = kv (engine_fields 512 0 1)"
    by (auto simp: kv_def owns_def local_ix_def fun_eq_iff)
  then show "kv single_engine = Map.empty" using kv_new [of 512 0 1] engine_wf_fields [of 512 0 1] by (simp add: single_engine_def)
qed (simp_all add: single_engine_def engine_fields_def partitioned_def)

theorem recovery_restores_witness:
  "\<exists>e' st. set_calls logged_set [(1, ''a'', ''x'', 0), (2, ''b'', ''y'', 50), (3, ''a'', ''z'', 0)] single_engine = Inr e' \<and>
    recover_from_aof (\<lambda>_. 9) (Some (aof_active e')) single_engine = Inr st \<and> rec_count st = 3"
  using recovery_restores [of single_engine single_engine "[(1, ''a'', ''x'', 0), (2, ''b'', ''y'', 50), (3, ''a'', ''z'', 0)]" "\<lambda>_. 9"]
  by (auto simp: short_def)

text \<open>
  Expiries are not logged: after recovery no key expires, also those that were set to expire and
  those whose time had already come.
\<close>

theorem recovery_drops_expiry:
  assumes "engine_wf e0" "kv e0 = Map.empty" "\<forall>(k, v) \<in> set kvs. short k \<and> short v \<and> owns e0 k"
  shows "\<exists>st. recover_from_aof clock (Some (aof_image kvs)) e0 = Inr st \<and>
    (\<forall>k x. kv (rec_engine st) k = Some x \<longrightarrow> (\<forall>now. live now x))"
  using recover_image [OF assms(1,3), of clock] assms(2) replay_no_expiry [of kvs] by (auto simp: live_def)

theorem recovery_drops_expiry_witness:
  "\<exists>e' st. logged_set 1 ''a'' ''x'' 50 single_engine = Inr e' \<and>
    recover_from_aof (\<lambda>_. 1000) (Some (aof_active e')) single_engine = Inr st \<and>
    (\<forall>x. kv (rec_engine st) ''a'' = Some x \<longrightarrow> live 2000 x) \<and> kv e' ''a'' = Some \<lparr>ve_data = ''x'', expires_at = 51\<rparr>"
proof -
  from logged_sets [of single_engine "[(1, ''a'', ''x'', 50)]"] obtain e' where
    e': "logged_set 1 ''a'' ''x'' 50 single_engine = Inr e'" "aof_active e' = aof_image [(''a'', ''x'')]"
    "kv e' = [''a'' \<mapsto> \<lparr>ve_data = ''x'', expires_at = 51\<rparr>]" by (auto simp: new_entry_def)
  from recovery_drops_expiry [of single_engine "[(''a'', ''x'')]" "\<lambda>_. 1000"] e' show ?thesis
    by (auto simp: short_def)
qed

text \<open>
  SETs of an empty value (and of an empty key) are acknowledged and logged, but recovery skips
  them: the value such a SET replaced comes back.
\<close>

theorem recovery_skips_empty:
  assumes "engine_wf e0" "kv e0 = Map.empty" "short k" "short v" "owns e0 k" "k \<noteq> []" "v \<noteq> []"
  shows "\<exists>st. recover_from_aof clock (Some (aof_image [(k, v), (k, [])])) e0 = Inr st \<and>
    map_option ve_data (kv (rec_engine st) k) = Some v"
  using recover_image [OF assms(1), of "[(k, v), (k, [])]" clock] assms
  by (auto simp: short_def replay_calls_def new_entry_def)

theorem recovery_skips_empty_witness:
  "\<exists>st. recover_from_aof (\<lambda>_. 0) (Some (aof_image [(''k'', ''v''), (''k'', [])])) single_engine = Inr st \<and>
    map_option ve_data (kv (rec_engine st) ''k'') = Some ''v''"
  by (rule recovery_skips_empty) (simp_all add: short_def)

text \<open>
  A negative length in the log is not rejected: the bounds check adds it as an unsigned number,
  which wraps around, and a view with a length of nearly \<open>2 ^ 64\<close> is built.
\<close>

theorem negative_length_is_undefined:
  "parse_bulk_string (''$-1'' @ crlf @ ''xx'') 0 = Inl Bad_view"
  by (simp add: parse_bulk_string_def crlf_def Let_def from_chars_int_def is_digit_def digits_val_def digit_val_def)

end
