(* ===== verification/Connection.thy ===== *)
theory Connection
  imports Prelude
begin

text \<open>
  \<open>include/connection.hpp\<close>: the connection record and the fixed pool of connections. A pointer
  into the pool's vector is its index; \<open>buffer\<close> is what the last completed read wrote at the
  start of the 4096-byte array (nothing else of it is ever read). The lemmas state the
  contract of the pool: a slot handed out is nobody else's and is reset, and the pool is
  exhausted only when every slot is held.
\<close>

datatype op_type = ACCEPT | READ | WRITE | AOF_WRITE | ITC_EVENT

record connection =
  fd :: int
  conn_type :: op_type
  buffer :: bytes
  response_data :: bytes
  pending_itc :: int
  pipeline_results :: "bytes list"
  expected_results :: int
  suspended :: bool
  owner_reactor :: int

definition PORT :: int where
  "PORT = 6379"

definition QUEUE_DEPTH :: nat where
  "QUEUE_DEPTH = 4096"

definition MAX_CONN_PER_THREAD :: nat where
  "MAX_CONN_PER_THREAD = 4096"

definition conn_default :: connection where
  "conn_default = \<lparr>fd = -1, conn_type = READ, buffer = [], response_data = [], pending_itc = 0,
     pipeline_results = [], expected_results = 0, suspended = False, owner_reactor = -1\<rparr>"

definition conn_reset :: "connection \<Rightarrow> connection" where
  "conn_reset c = c\<lparr>fd := -1, response_data := [], pending_itc := 0, pipeline_results := [],
     expected_results := 0, suspended := False, owner_reactor := -1\<rparr>"

record conn_pool =
  conns :: "connection list"
  free_indices :: "nat list"

text \<open>The head of \<open>free_indices\<close> is the top of the stack.\<close>

definition connection_pool :: "nat \<Rightarrow> conn_pool" where
  "connection_pool slots =
     \<lparr>conns = map conn_reset (replicate slots conn_default), free_indices = [0..<slots]\<rparr>"

definition acquire :: "conn_pool \<Rightarrow> nat option \<times> conn_pool" where
  "acquire p =
     (case free_indices p of
        [] \<Rightarrow> (None, p)
      | idx # rest \<Rightarrow> (Some idx, p\<lparr>free_indices := rest\<rparr>))"

definition release :: "nat \<Rightarrow> conn_pool \<Rightarrow> conn_pool" where
  "release i p =
     p\<lparr>conns := (conns p)[i := conn_reset (conns p ! i)], free_indices := i # free_indices p\<rparr>"

text \<open>Writing to a connection through its pointer.\<close>

definition upd_conn :: "nat \<Rightarrow> (connection \<Rightarrow> connection) \<Rightarrow> conn_pool \<Rightarrow> conn_pool" where
  "upd_conn i f p = p\<lparr>conns := (conns p)[i := f (conns p ! i)]\<rparr>"

section \<open>The pool\<close>

definition is_reset :: "connection \<Rightarrow> bool" where
  "is_reset c \<longleftrightarrow> conn_reset c = c"

definition conn_pool_ok :: "conn_pool \<Rightarrow> bool" where
  "conn_pool_ok p \<longleftrightarrow>
     distinct (free_indices p) \<and>
     (\<forall>i \<in> set (free_indices p). i < length (conns p) \<and> is_reset (conns p ! i))"

definition held :: "conn_pool \<Rightarrow> nat set" where
  "held p = {..<length (conns p)} - set (free_indices p)"

lemma is_reset_conn_reset [simp]: "is_reset (conn_reset c)"
  by (simp add: is_reset_def conn_reset_def)

lemma is_reset_fields:
  "is_reset c \<Longrightarrow> fd c = -1 \<and> response_data c = [] \<and> pending_itc c = 0 \<and> pipeline_results c = [] \<and>
     expected_results c = 0 \<and> \<not> suspended c \<and> owner_reactor c = -1"
  by (cases c) (simp add: is_reset_def conn_reset_def)

lemma connection_pool_ok [simp]: "conn_pool_ok (connection_pool n)"
  by (simp add: conn_pool_ok_def connection_pool_def)

lemma held_connection_pool [simp]: "held (connection_pool n) = {}"
  by (auto simp: held_def connection_pool_def)

lemma acquire_ok:
  assumes "conn_pool_ok p"
  shows "(case acquire p of
     (None, p') \<Rightarrow> p' = p \<and> held p = {..<length (conns p)}
   | (Some i, p') \<Rightarrow> i \<notin> held p \<and> i < length (conns p) \<and> is_reset (conns p' ! i) \<and>
       held p' = insert i (held p) \<and> conns p' = conns p) \<and> conn_pool_ok (snd (acquire p))"
  using assms by (cases "free_indices p") (auto simp: acquire_def conn_pool_ok_def held_def)

lemma release_ok:
  assumes "conn_pool_ok p" "i \<in> held p"
  shows "conn_pool_ok (release i p) \<and> held (release i p) = held p - {i} \<and>
    length (conns (release i p)) = length (conns p) \<and> (\<forall>j. j \<noteq> i \<longrightarrow> conns (release i p) ! j = conns p ! j)"
  using assms by (auto simp: conn_pool_ok_def held_def release_def nth_list_update)

lemma upd_conn_simps [simp]:
  "free_indices (upd_conn i f p) = free_indices p" "held (upd_conn i f p) = held p"
  "length (conns (upd_conn i f p)) = length (conns p)"
  "j \<noteq> i \<Longrightarrow> conns (upd_conn i f p) ! j = conns p ! j"
  by (simp_all add: upd_conn_def held_def)

lemma upd_conn_at [simp]: "i < length (conns p) \<Longrightarrow> conns (upd_conn i f p) ! i = f (conns p ! i)"
  by (simp add: upd_conn_def)

lemma upd_conn_upd_conn: "upd_conn i g (upd_conn i f p) = upd_conn i (g \<circ> f) p"
  by (cases "i < length (conns p)") (simp_all add: upd_conn_def list_update_beyond)

lemma upd_conn_pool_ok:
  assumes "conn_pool_ok p" "i \<in> held p"
  shows "conn_pool_ok (upd_conn i f p)"
  using assms by (auto simp: conn_pool_ok_def held_def upd_conn_def nth_list_update)

section \<open>The contract of the pool\<close>

locale slot_allocator =
  fixes inv :: "'p \<Rightarrow> bool"
    and used :: "'p \<Rightarrow> nat set"
    and slots :: "'p \<Rightarrow> nat"
    and get :: "'p \<Rightarrow> nat option \<times> 'p"
    and put :: "nat \<Rightarrow> 'p \<Rightarrow> 'p"
  assumes used_law: "inv p \<Longrightarrow> used p \<subseteq> {..<slots p}"
    and get_law: "inv p \<Longrightarrow> inv (snd (get p)) \<and> slots (snd (get p)) = slots p \<and>
      (case fst (get p) of
         None \<Rightarrow> used p = {..<slots p} \<and> used (snd (get p)) = used p
       | Some i \<Rightarrow> i \<notin> used p \<and> i < slots p \<and> used (snd (get p)) = insert i (used p))"
    and put_law: "inv p \<Longrightarrow> i \<in> used p \<Longrightarrow>
      inv (put i p) \<and> slots (put i p) = slots p \<and> used (put i p) = used p - {i}"
begin

lemma get_when_free:
  assumes "inv p" "card (used p) < slots p"
  shows "\<exists>i p'. get p = (Some i, p') \<and> i \<notin> used p"
proof (cases "fst (get p)")
  case None
  with get_law [OF assms(1)] assms(2) show ?thesis by simp
next
  case (Some i)
  with get_law [OF assms(1)] show ?thesis by (metis option.simps(5) prod.collapse)
qed

text \<open>Acquiring more slots than there are fails at the end: a leak is eventually fatal.\<close>

lemma get_counts:
  assumes "inv p"
  shows "card (used (snd (get p))) = (if card (used p) < slots p then card (used p) + 1 else card (used p))"
proof -
  have fin: "finite (used p)" using used_law [OF assms] finite_subset by blast
  show ?thesis
  proof (cases "fst (get p)")
    case None
    with get_law [OF assms] show ?thesis by auto
  next
    case (Some i)
    with get_law [OF assms] have i: "i \<notin> used p" "i < slots p" "used (snd (get p)) = insert i (used p)" by auto
    then have "used p \<subset> {..<slots p}" using used_law [OF assms] by auto
    then have "card (used p) < slots p" using psubset_card_mono [of "{..<slots p}"] by simp
    with i fin show ?thesis by simp
  qed
qed

lemma put_then_get:
  assumes "inv p" "i \<in> used p"
  shows "fst (get (put i p)) \<noteq> None"
proof -
  have "used (put i p) \<noteq> {..<slots (put i p)}"
    using put_law [OF assms] used_law [OF assms(1)] assms(2) by auto
  with get_law [of "put i p"] put_law [OF assms] show ?thesis by (auto split: option.splits)
qed

end

interpretation conn_slots: slot_allocator conn_pool_ok held "\<lambda>p. length (conns p)" acquire release
proof unfold_locales
  fix p i
  assume p: "conn_pool_ok p"
  show "held p \<subseteq> {..<length (conns p)}" by (auto simp: held_def)
  show "conn_pool_ok (snd (acquire p)) \<and> length (conns (snd (acquire p))) = length (conns p) \<and>
      (case fst (acquire p) of
         None \<Rightarrow> held p = {..<length (conns p)} \<and> held (snd (acquire p)) = held p
       | Some i \<Rightarrow> i \<notin> held p \<and> i < length (conns p) \<and> held (snd (acquire p)) = insert i (held p))"
    using acquire_ok [OF p] by (auto split: prod.splits option.splits)
  assume "i \<in> held p"
  with p show "conn_pool_ok (release i p) \<and> length (conns (release i p)) = length (conns p) \<and>
      held (release i p) = held p - {i}"
    using release_ok by blast
qed

section \<open>Properties\<close>

text \<open>
  C35. The pool never hands out a connection that is in use, hands out only connections in their
  initial state, fails only when every connection is in use, and a released connection can be
  acquired again.
\<close>

theorem acquire_contract:
  assumes "conn_pool_ok p"
  shows "case acquire p of
      (None, p') \<Rightarrow> held p = {..<length (conns p)} \<and> p' = p
    | (Some i, p') \<Rightarrow> i \<notin> held p \<and> conn_reset (conns p' ! i) = conns p' ! i \<and> held p' = insert i (held p) \<and>
        conn_pool_ok p' \<and> held (release i p') = held p \<and> fst (acquire (release i p')) \<noteq> None"
proof (cases "acquire p")
  case (Pair r p')
  show ?thesis
  proof (cases r)
    case None
    with Pair acquire_ok [OF assms] show ?thesis by simp
  next
    case (Some i)
    with Pair acquire_ok [OF assms] have a: "i \<notin> held p" "is_reset (conns p' ! i)" "held p' = insert i (held p)"
      "conn_pool_ok p'" by auto
    then have "held (release i p') = held p" "fst (acquire (release i p')) \<noteq> None"
      using release_ok [of p' i] conn_slots.put_then_get [of p' i] by auto
    with a Pair Some show ?thesis by (simp add: is_reset_def)
  qed
qed

theorem acquire_contract_witness:
  "\<exists>p'. acquire (connection_pool 2) = (Some 0, p') \<and> 0 \<notin> held (connection_pool 2) \<and> held p' = {0}"
proof -
  obtain p' where "acquire (connection_pool 2) = (Some 0, p')"
    by (simp add: acquire_def connection_pool_def upt_rec)
  with acquire_contract [OF connection_pool_ok [of 2]] show ?thesis by simp
qed

end
