(* ===== verification/Itc_Message.thy ===== *)
theory Itc_Message
  imports Prelude
begin

text \<open>
  \<open>include/itc_queue.hpp\<close>, \<open>struct ITCMessage\<close>: the fixed-size message between reactors. A
  message on the stack starts with whatever the memory held; that is the argument \<open>junk\<close> of
  the operations that declare one. The lemmas give the truncation of \<open>set_key\<close> and
  \<open>set_value\<close> and their round trips with \<open>get_key\<close> and \<open>get_value\<close>.
\<close>

datatype itc_type = GET_REQ | SET_REQ | DEL_REQ | RESP

record itc_message =
  itc_type :: itc_type
  sender_reactor :: int
  conn_fd :: int
  pipeline_idx :: int
  key_buf :: bytes
  value_buf :: bytes
  key_len :: u16
  value_len :: u16
  ttl_ms :: u64
  found :: bool

definition MAX_KEY_SIZE :: nat where
  "MAX_KEY_SIZE = 128"

definition MAX_VALUE_SIZE :: nat where
  "MAX_VALUE_SIZE = 384"

text \<open>The two arrays of a message have their declared lengths.\<close>

definition message_ok :: "itc_message \<Rightarrow> bool" where
  "message_ok m \<longleftrightarrow> length (key_buf m) = MAX_KEY_SIZE \<and> length (value_buf m) = MAX_VALUE_SIZE"

definition set_key :: "bytes \<Rightarrow> itc_message \<Rightarrow> itc_message" where
  "set_key k m =
     (let n = min (length k) (MAX_KEY_SIZE - 1) in
      m\<lparr>key_len := of_nat n, key_buf := take n k @ [CHR 0x00] @ drop (n + 1) (key_buf m)\<rparr>)"

definition set_value :: "bytes \<Rightarrow> itc_message \<Rightarrow> itc_message" where
  "set_value v m =
     (let n = min (length v) (MAX_VALUE_SIZE - 1) in
      m\<lparr>value_len := of_nat n, value_buf := take n v @ [CHR 0x00] @ drop (n + 1) (value_buf m)\<rparr>)"

definition get_key :: "itc_message \<Rightarrow> ub + bytes" where
  "get_key m =
     (if unat (key_len m) \<le> length (key_buf m) then Inr (take (unat (key_len m)) (key_buf m)) else Inl Bad_view)"

definition get_value :: "itc_message \<Rightarrow> ub + bytes" where
  "get_value m =
     (if unat (value_len m) \<le> length (value_buf m) then Inr (take (unat (value_len m)) (value_buf m))
      else Inl Bad_view)"

lemma unat_of_nat_u16: "n < 2 ^ 16 \<Longrightarrow> unat (of_nat n :: u16) = n"
  by (simp add: unsigned_of_nat take_bit_nat_eq_self)

lemma set_key_frame [simp, frame_simps]:
  "itc_type (set_key k m) = itc_type m" "sender_reactor (set_key k m) = sender_reactor m"
  "conn_fd (set_key k m) = conn_fd m" "pipeline_idx (set_key k m) = pipeline_idx m"
  "value_buf (set_key k m) = value_buf m" "value_len (set_key k m) = value_len m"
  "ttl_ms (set_key k m) = ttl_ms m" "found (set_key k m) = found m"
  by (simp_all add: set_key_def Let_def)

lemma set_value_frame [simp, frame_simps]:
  "itc_type (set_value v m) = itc_type m" "sender_reactor (set_value v m) = sender_reactor m"
  "conn_fd (set_value v m) = conn_fd m" "pipeline_idx (set_value v m) = pipeline_idx m"
  "key_buf (set_value v m) = key_buf m" "key_len (set_value v m) = key_len m"
  "ttl_ms (set_value v m) = ttl_ms m" "found (set_value v m) = found m"
  by (simp_all add: set_value_def Let_def)

lemma message_ok_set_key [simp]: "message_ok m \<Longrightarrow> message_ok (set_key k m)"
  by (simp add: message_ok_def set_key_def Let_def MAX_KEY_SIZE_def MAX_VALUE_SIZE_def)

lemma message_ok_set_value [simp]: "message_ok m \<Longrightarrow> message_ok (set_value v m)"
  by (simp add: message_ok_def set_value_def Let_def MAX_KEY_SIZE_def MAX_VALUE_SIZE_def)

lemma get_set_key [simp]:
  assumes "message_ok m"
  shows "get_key (set_key k m) = Inr (take 127 k)"
  using assms unat_of_nat_u16 [of "min (length k) 127"]
  by (simp add: get_key_def set_key_def Let_def message_ok_def MAX_KEY_SIZE_def min_def)

lemma get_set_value [simp]:
  assumes "message_ok m"
  shows "get_value (set_value v m) = Inr (take 383 v)"
  using assms unat_of_nat_u16 [of "min (length v) 383"]
  by (simp add: get_value_def set_value_def Let_def message_ok_def MAX_VALUE_SIZE_def min_def)

lemma get_key_set_value [simp]: "get_key (set_value v m) = get_key m"
  by (simp add: get_key_def)

lemma get_value_set_key [simp]: "get_value (set_key k m) = get_value m"
  by (simp add: get_value_def)

section \<open>Properties\<close>

text \<open>
  C34. A message delivers the first 127 bytes of its key and the first 383 bytes of its value,
  whatever the memory held before, and its arrays keep their sizes.
\<close>

theorem message_round_trip:
  assumes "message_ok m"
  shows "get_key (set_value v (set_key k m)) = Inr (take 127 k) \<and>
    get_value (set_value v (set_key k m)) = Inr (take 383 v) \<and> message_ok (set_value v (set_key k m))"
  using assms by simp

definition blank_message :: itc_message where
  "blank_message = \<lparr>itc_type = GET_REQ, sender_reactor = 0, conn_fd = 0, pipeline_idx = 0,
     key_buf = replicate 128 CHR 0x00, value_buf = replicate 384 CHR 0x00, key_len = 0, value_len = 0,
     ttl_ms = 0, found = False\<rparr>"

lemma blank_message_ok [simp]: "message_ok blank_message"
  by (simp add: blank_message_def message_ok_def MAX_KEY_SIZE_def MAX_VALUE_SIZE_def)

theorem message_round_trip_witness:
  "get_key (set_value ''w'' (set_key (replicate 200 CHR ''a'') blank_message)) = Inr (replicate 127 CHR ''a'')"
  using message_round_trip [OF blank_message_ok, of "''w''" "replicate 200 CHR ''a''"] by simp

end
