(* ===== verification/Cq_Words.thy ===== *)
theory Cq_Words
  imports Prelude
begin

text \<open>
  \<open>include/concurrentqueue.h\<close>, namespace \<open>details\<close>: the comparison of indices that wrap
  around, and the hash of a thread id. Below them, the arithmetic of 64-bit queue indices
  the producer's proofs use: an index is a block base, a multiple of 32, plus an offset
  in the block.
\<close>

unbundle bit_operations_syntax

definition circular_less_than :: "u64 \<Rightarrow> u64 \<Rightarrow> bool" where
  "circular_less_than a b \<longleftrightarrow> a - b > push_bit 63 1"

definition hash_64 :: "u64 \<Rightarrow> u64" where
  "hash_64 h =
     (let h = h XOR drop_bit 33 h;
          h = h * 0xff51afd7ed558ccd;
          h = h XOR drop_bit 33 h;
          h = h * 0xc4ceb9fe1a85ec53 in
      h XOR drop_bit 33 h)"

text \<open>\<open>thread_id_t\<close> is the address of a thread-local variable; \<open>prehash\<close> is the identity.\<close>

type_synonym thread_id = u64

definition hash_thread_id :: "thread_id \<Rightarrow> u64" where
  "hash_thread_id i = hash_64 i"

section \<open>Wrap-around comparison\<close>

lemma circular_less_than_unat: "circular_less_than a b \<longleftrightarrow> 2 ^ 63 < unat (a - b)"
  by (simp add: circular_less_than_def word_less_nat_alt push_bit_eq_mult)

lemma unat_minus_swap: "a \<noteq> b \<Longrightarrow> unat (a - b) = 2 ^ 64 - unat (b - a :: u64)"
  using unat_u64 [of a] unat_u64 [of b]
  by (auto simp: unat_sub_if' word_unat_eq_iff)

lemma circular_less_than_iff:
  assumes "unat (b - a) < 2 ^ 63"
  shows "circular_less_than a b \<longleftrightarrow> a \<noteq> b"
  using assms by (cases "a = b") (simp_all add: circular_less_than_unat unat_minus_swap [of a b])

section \<open>The hash is injective\<close>

lemma xorshift_33_inverse: "(h XOR drop_bit 33 h) XOR drop_bit 33 (h XOR drop_bit 33 h) = (h :: u64)"
  by (rule bit_word_eqI) (auto simp: bit_simps dest: bit_imp_le_length)

lemma odd_mult_cancel:
  fixes a b c d :: u64
  assumes "c * d = 1" "a * c = b * c"
  shows "a = b"
proof -
  have "a = a * c * d" using assms(1) by (simp add: mult.assoc)
  also have "\<dots> = b" using assms by (simp add: mult.assoc)
  finally show ?thesis .
qed

lemma xorshift_33_inj: "h XOR drop_bit 33 h = h' XOR drop_bit 33 h' \<Longrightarrow> h = (h' :: u64)"
  by (metis xorshift_33_inverse)

lemma hash_64_inj: "hash_64 h = hash_64 h' \<Longrightarrow> h = h'"
  unfolding hash_64_def Let_def
  by (drule xorshift_33_inj, drule odd_mult_cancel [rotated, of _ _ _ "0x9cb4b2f8129337db"], simp,
      drule xorshift_33_inj, drule odd_mult_cancel [rotated, of _ _ _ "0x4f74430c22a54005"], simp,
      erule xorshift_33_inj)

section \<open>Block bases and slots\<close>

text \<open>\<open>BLOCK_SIZE\<close> is 32: the low five bits of an index are the slot in its block.\<close>

definition slot_of :: "u64 \<Rightarrow> nat" where
  "slot_of i = unat (i AND 31)"

definition base_of :: "u64 \<Rightarrow> u64" where
  "base_of i = i AND NOT 31"

lemma unat_and_mask: "k < 64 \<Longrightarrow> unat ((w :: u64) AND (2 ^ k - 1)) = unat w mod 2 ^ k"
  by (simp flip: mask_eq_exp_minus_1 take_bit_eq_mask take_bit_eq_mod add: unsigned_take_bit_eq)

lemma slot_of_mod: "slot_of i = unat i mod 32"
  using unat_and_mask [of 5 i] by (simp add: slot_of_def)

lemma slot_of_less [simp]: "slot_of i < 32"
  by (simp add: slot_of_mod)

lemma base_plus_slot: "base_of i + of_nat (slot_of i) = i"
proof -
  have "(i AND NOT 31) + (i AND 31) = (i AND NOT 31) OR (i AND 31)"
    by (rule disjunctive_add_eq_or) (auto intro!: bit_word_eqI simp: bit_simps)
  also have "\<dots> = i" by (auto intro!: bit_word_eqI simp: bit_simps)
  finally have "i = (i AND NOT 31) + (i AND 31)" by simp
  then show ?thesis by (simp add: base_of_def slot_of_def)
qed

lemma base_of_eq: "base_of i = i - of_nat (slot_of i)"
  using base_plus_slot [of i] by (metis add_diff_cancel_right')

lemma slot_of_add: "slot_of (i + of_nat n) = (slot_of i + n) mod 32"
proof -
  have "unat (i + of_nat n) mod 32 = ((unat i + n) mod 2 ^ 64) mod 32"
    by (simp add: unat_word_ariths unat_of_nat mod_add_right_eq)
  also have "\<dots> = (unat i + n) mod 32" by (rule mod_mod_cancel) simp
  finally show ?thesis by (simp add: slot_of_mod mod_add_left_eq)
qed

lemma base_of_add: "base_of (i + of_nat n) = base_of i + of_nat (32 * ((slot_of i + n) div 32))"
proof -
  let ?s = "slot_of i + n"
  have split: "of_nat ?s = (of_nat (32 * (?s div 32)) + of_nat (?s mod 32) :: u64)"
    by (metis of_nat_add mult_div_mod_eq)
  have "base_of (i + of_nat n) = i + of_nat n - of_nat (?s mod 32)"
    by (simp add: base_of_eq slot_of_add)
  also have "i + of_nat n - of_nat (?s mod 32) = base_of i + of_nat ?s - of_nat (?s mod 32)"
    using base_plus_slot [of i] by (simp add: add.assoc [symmetric])
  also have "\<dots> = base_of i + of_nat (32 * (?s div 32))"
    by (simp only: split add.assoc [symmetric] add_diff_cancel_right')
  finally show ?thesis .
qed

lemma slot_of_0_iff: "i AND 31 = 0 \<longleftrightarrow> slot_of i = 0"
  by (simp add: slot_of_def unat_eq_0)

section \<open>Positions in the block index\<close>

text \<open>The slot \<open>d\<close> places before slot \<open>t\<close> of a ring of \<open>2 ^ k\<close> slots.\<close>

definition ring_pos :: "nat \<Rightarrow> nat \<Rightarrow> nat \<Rightarrow> nat" where
  "ring_pos c t d = (t + c - d) mod c"

lemma sint_numeral_32: "sint (32 :: u64) = 32"
  by simp

lemma signed_block_offset:
  assumes "32 * d \<le> 2 ^ 63"
  shows "word_of_int (sint (b - (b + of_nat (32 * d)) :: u64) sdiv 32) = - (of_nat d :: u64)"
proof -
  have "sint (- of_nat (32 * d) :: u64) = - int (32 * d)"
  proof -
    have "(- of_nat (32 * d) :: u64) = word_of_int (- int (32 * d))" by simp
    also have "sint \<dots> = - int (32 * d)"
      using assms by (subst sint_sbintrunc') (simp add: signed_take_bit_int_eq_self_iff)
    finally show ?thesis .
  qed
  then have "sint (b - (b + of_nat (32 * d)) :: u64) sdiv 32 = - int d"
    by (simp add: signed_divide_int_def sgn_if)
  then show ?thesis by simp
qed

lemma ring_pos_word:
  assumes "k < 64" "unat t < 2 ^ k" "d \<le> 2 ^ k"
  shows "unat ((t - of_nat d :: u64) AND (2 ^ k - 1)) = ring_pos (2 ^ k) (unat t) d"
proof -
  have dvd: "(2 :: int) ^ k dvd 2 ^ 64" by (rule le_imp_power_dvd) (use assms(1) in simp)
  have A: "int (unat (t - of_nat d)) = (int (unat t) - int d) mod 2 ^ 64"
    by (simp add: uint_word_ariths unsigned_of_nat take_bit_eq_mod zmod_int mod_diff_right_eq)
  have "int (unat (t - of_nat d)) mod 2 ^ k = (int (unat t) - int d) mod 2 ^ k"
    unfolding A by (rule mod_mod_cancel [OF dvd])
  also have "\<dots> = (int (unat t) - int d + 2 ^ k) mod 2 ^ k" by simp
  also have "\<dots> = int ((unat t + 2 ^ k - d) mod 2 ^ k)"
    using assms(3) by (simp add: zmod_int of_nat_diff algebra_simps)
  finally have "int (unat (t - of_nat d)) mod 2 ^ k = int ((unat t + 2 ^ k - d) mod 2 ^ k)" .
  then have "unat (t - of_nat d) mod 2 ^ k = (unat t + 2 ^ k - d) mod 2 ^ k"
    by (metis of_nat_eq_iff zmod_int of_nat_numeral of_nat_power)
  then show ?thesis using assms(1) by (simp add: unat_and_mask ring_pos_def)
qed

lemma ring_pos_less [simp]: "0 < c \<Longrightarrow> ring_pos c t d < c"
  by (simp add: ring_pos_def)

lemma ring_pos_0 [simp]: "t < c \<Longrightarrow> ring_pos c t 0 = t"
  by (simp add: ring_pos_def)

lemma ring_pos_eq: "t < c \<Longrightarrow> d < c \<Longrightarrow> ring_pos c t d = (if d \<le> t then t - d else t + c - d)"
  by (auto simp: ring_pos_def mod_if)

lemma ring_pos_inj: "t < c \<Longrightarrow> d < c \<Longrightarrow> d' < c \<Longrightarrow> ring_pos c t d = ring_pos c t d' \<Longrightarrow> d = d'"
  by (simp add: ring_pos_eq split: if_splits)

lemma ring_pos_advance:
  "t < c \<Longrightarrow> Suc d < c \<Longrightarrow> ring_pos c (Suc t mod c) (Suc d) = ring_pos c t d"
  by (auto simp: ring_pos_eq mod_Suc split: if_splits)

lemma ring_pos_next: "t < c \<Longrightarrow> Suc t mod c = ring_pos c t (c - 1)"
  by (auto simp: ring_pos_eq mod_Suc)

end
