(* ===== verification/Cq_Block.thy ===== *)
theory Cq_Block
  imports Cq_Words "HOL-Library.Monad_Syntax"
begin

text \<open>
  \<open>include/concurrentqueue.h\<close>: the blocks of the queue, the free list they return to and the
  pool they are taken from, for operations that run one at a time. A compare-and-swap
  compares with the value just loaded and keeps both its outcomes; memory orders have no
  effect on such runs. Memory is a map from addresses to blocks: the initial pool holds the
  addresses below its size, \<open>malloc\<close> hands out later ones and may fail, as the argument
  \<open>mok\<close> (indexed by the number of calls so far) says. The flags of a new block, which the source leaves
  uninitialised, are written before they are read. \<open>None\<close> is the result of an operation
  that reads a block that does not exist, fails an \<open>assert\<close> or does not return; the lemmas
  show that from a well-formed pool no operation has that result.
\<close>

section \<open>State\<close>

record 'a block =
  next_block :: "nat option"
  elements :: "'a option list"
  elementsCompletelyDequeued :: u64
  emptyFlags :: "bool list"
  freeListRefs :: u32
  freeListNext :: "nat option"
  dynamicallyAllocated :: bool

record 'a pool =
  initialBlockPoolIndex :: u64
  initialBlockPoolSize :: u64
  freeListHead :: "nat option"
  heap :: "nat \<rightharpoonup> 'a block"
  fresh :: nat
  mallocs :: nat

type_synonym malloc_ok = "nat \<Rightarrow> bool"

definition BLOCK_SIZE :: u64 where
  "BLOCK_SIZE = 32"

definition REFS_MASK :: u32 where
  "REFS_MASK = 0x7FFFFFFF"

definition SHOULD_BE_ON_FREELIST :: u32 where
  "SHOULD_BE_ON_FREELIST = 0x80000000"

definition new_block :: "bool \<Rightarrow> 'a block" where
  "new_block dyn = \<lparr>next_block = None, elements = replicate 32 None, elementsCompletelyDequeued = 0,
     emptyFlags = replicate 32 False, freeListRefs = 0,
     freeListNext = None, dynamicallyAllocated = dyn\<rparr>"

definition put_block :: "nat \<Rightarrow> 'a block \<Rightarrow> 'a pool \<Rightarrow> 'a pool" where
  "put_block b x p = p\<lparr>heap := (heap p)(b \<mapsto> x)\<rparr>"

section \<open>Blocks, in the implicit context\<close>

definition set_empty :: "nat \<Rightarrow> 'a pool \<Rightarrow> (bool \<times> 'a pool) option" where
  "set_empty b p = do {
     x \<leftarrow> heap p b;
     let prevVal = elementsCompletelyDequeued x;
     if prevVal < BLOCK_SIZE
     then Some (prevVal = BLOCK_SIZE - 1, put_block b (x\<lparr>elementsCompletelyDequeued := prevVal + 1\<rparr>) p)
     else None }"

definition reset_empty :: "nat \<Rightarrow> 'a pool \<Rightarrow> 'a pool option" where
  "reset_empty b p = do {
     x \<leftarrow> heap p b;
     Some (put_block b (x\<lparr>elementsCompletelyDequeued := 0\<rparr>) p) }"

text \<open>\<open>(*block)[idx]\<close>: constructing an element, and moving one out and destroying it.\<close>

definition put_element :: "nat \<Rightarrow> u64 \<Rightarrow> 'a \<Rightarrow> 'a pool \<Rightarrow> 'a pool option" where
  "put_element b idx v p = do {
     x \<leftarrow> heap p b;
     Some (put_block b (x\<lparr>elements := (elements x)[slot_of idx := Some v]\<rparr>) p) }"

definition take_element :: "nat \<Rightarrow> u64 \<Rightarrow> 'a pool \<Rightarrow> ('a \<times> 'a pool) option" where
  "take_element b idx p = do {
     x \<leftarrow> heap p b;
     v \<leftarrow> elements x ! slot_of idx;
     Some (v, put_block b (x\<lparr>elements := (elements x)[slot_of idx := None]\<rparr>) p) }"

section \<open>The free list\<close>

partial_function (option) add_knowing_loop :: "nat \<Rightarrow> nat option \<Rightarrow> 'a pool \<Rightarrow> 'a pool option" where
  "add_knowing_loop node head p = do {
     x \<leftarrow> heap p node;
     let p = put_block node (x\<lparr>freeListNext := head, freeListRefs := 1\<rparr>) p;
     if freeListHead p = head then Some (p\<lparr>freeListHead := Some node\<rparr>)
     else do {
       x \<leftarrow> heap p node;
       let refs = freeListRefs x;
       let p' = put_block node (x\<lparr>freeListRefs := refs + (SHOULD_BE_ON_FREELIST - 1)\<rparr>) p;
       if refs = 1 then add_knowing_loop node (freeListHead p) p' else Some p' } }"

definition add_knowing_refcount_is_zero :: "nat \<Rightarrow> 'a pool \<Rightarrow> 'a pool option" where
  "add_knowing_refcount_is_zero node p = add_knowing_loop node (freeListHead p) p"

definition free_list_add :: "nat \<Rightarrow> 'a pool \<Rightarrow> 'a pool option" where
  "free_list_add node p = do {
     x \<leftarrow> heap p node;
     let p' = put_block node (x\<lparr>freeListRefs := freeListRefs x + SHOULD_BE_ON_FREELIST\<rparr>) p;
     if freeListRefs x = 0 then add_knowing_refcount_is_zero node p' else Some p' }"

partial_function (option) try_get_loop :: "nat option \<Rightarrow> 'a pool \<Rightarrow> (nat option \<times> 'a pool) option" where
  "try_get_loop head p =
     (case head of
        None \<Rightarrow> Some (None, p)
      | Some node \<Rightarrow> do {
          x \<leftarrow> heap p node;
          let refs = freeListRefs x;
          if refs AND REFS_MASK = 0 then try_get_loop (freeListHead p) p
          else do {
            let p1 = put_block node (x\<lparr>freeListRefs := refs + 1\<rparr>) p;
            let next = freeListNext x;
            if freeListHead p1 = Some node then do {
              let p2 = p1\<lparr>freeListHead := next\<rparr>;
              y \<leftarrow> heap p2 node;
              if freeListRefs y AND SHOULD_BE_ON_FREELIST = 0
              then Some (Some node, put_block node (y\<lparr>freeListRefs := freeListRefs y - 2\<rparr>) p2)
              else None }
            else do {
              y \<leftarrow> heap p1 node;
              let p2 = put_block node (y\<lparr>freeListRefs := freeListRefs y - 1\<rparr>) p1;
              p3 \<leftarrow> (if freeListRefs y = SHOULD_BE_ON_FREELIST + 1
                    then add_knowing_refcount_is_zero node p2 else Some p2);
              try_get_loop (freeListHead p1) p3 } } })"

definition free_list_try_get :: "'a pool \<Rightarrow> (nat option \<times> 'a pool) option" where
  "free_list_try_get p = try_get_loop (freeListHead p) p"

section \<open>Block pool manipulation\<close>

definition empty_pool :: "'a pool" where
  "empty_pool = \<lparr>initialBlockPoolIndex = 0, initialBlockPoolSize = 0, freeListHead = None,
     heap = Map.empty, fresh = 0, mallocs = 0\<rparr>"

definition populate_initial_block_list :: "malloc_ok \<Rightarrow> u64 \<Rightarrow> 'a pool \<Rightarrow> 'a pool" where
  "populate_initial_block_list mok blockCount p =
     (if blockCount = 0 then p\<lparr>initialBlockPoolSize := 0\<rparr>
      else if mok (mallocs p)
      then p\<lparr>initialBlockPoolSize := blockCount,
             heap := (\<lambda>a. if a < unat blockCount then Some (new_block False) else heap p a),
             fresh := max (fresh p) (unat blockCount), mallocs := mallocs p + 1\<rparr>
      else p\<lparr>initialBlockPoolSize := 0, mallocs := mallocs p + 1\<rparr>)"

definition try_get_block_from_initial_pool :: "'a pool \<Rightarrow> nat option \<times> 'a pool" where
  "try_get_block_from_initial_pool p =
     (if initialBlockPoolSize p \<le> initialBlockPoolIndex p then (None, p)
      else
        let index = initialBlockPoolIndex p in
        (if index < initialBlockPoolSize p then Some (unat index) else None,
         p\<lparr>initialBlockPoolIndex := index + 1\<rparr>))"

definition add_block_to_free_list :: "nat \<Rightarrow> 'a pool \<Rightarrow> 'a pool option" where
  "add_block_to_free_list b p = do {
     x \<leftarrow> heap p b;
     if dynamicallyAllocated x then Some (p\<lparr>heap := (heap p)(b := None)\<rparr>)
     else free_list_add b p }"

definition create_block :: "malloc_ok \<Rightarrow> 'a pool \<Rightarrow> nat option \<times> 'a pool" where
  "create_block mok p =
     (if mok (mallocs p)
      then (Some (fresh p), p\<lparr>heap := (heap p)(fresh p \<mapsto> new_block True),
              fresh := fresh p + 1, mallocs := mallocs p + 1\<rparr>)
      else (None, p\<lparr>mallocs := mallocs p + 1\<rparr>))"

definition requisition_block :: "malloc_ok \<Rightarrow> 'a pool \<Rightarrow> (nat option \<times> 'a pool) option" where
  "requisition_block mok p =
     (case try_get_block_from_initial_pool p of
        (Some b, p) \<Rightarrow> Some (Some b, p)
      | (None, p) \<Rightarrow> do {
          (block, p) \<leftarrow> free_list_try_get p;
          case block of Some b \<Rightarrow> Some (Some b, p) | None \<Rightarrow> Some (create_block mok p) })"

section \<open>Well-formed pools\<close>

fun chain :: "(nat \<rightharpoonup> 'a block) \<Rightarrow> nat option \<Rightarrow> nat list \<Rightarrow> bool" where
  "chain h head [] \<longleftrightarrow> head = None"
| "chain h head (a # as) \<longleftrightarrow>
     head = Some a \<and> (\<exists>x. h a = Some x \<and> freeListRefs x = 1 \<and> chain h (freeListNext x) as)"

text \<open>
  \<open>used\<close> is the set of blocks the producers hold, \<open>fl\<close> the free list from its head. The
  rest of the initial pool has not been handed out. No block of the pool is lost,
  and the blocks that \<open>malloc\<close> gave are all in use.
\<close>

definition pool_ok :: "'a pool \<Rightarrow> nat set \<Rightarrow> nat list \<Rightarrow> bool" where
  "pool_ok p used fl \<longleftrightarrow>
     chain (heap p) (freeListHead p) fl \<and> distinct fl \<and> set fl \<inter> used = {} \<and>
     (\<forall>a. unat (initialBlockPoolIndex p) \<le> a \<and> a < unat (initialBlockPoolSize p) \<longrightarrow>
        a \<notin> used \<and> a \<notin> set fl \<and> (\<exists>x. heap p a = Some x \<and> freeListRefs x = 0)) \<and>
     (\<forall>a \<in> used. \<exists>x. heap p a = Some x \<and> freeListRefs x = 0) \<and>
     (\<forall>a x. heap p a = Some x \<longrightarrow> length (elements x) = 32 \<and> a < fresh p \<and>
        (dynamicallyAllocated x \<longleftrightarrow> unat (initialBlockPoolSize p) \<le> a) \<and>
        (dynamicallyAllocated x \<longrightarrow> a \<in> used)) \<and>
     (\<forall>a < unat (initialBlockPoolSize p). heap p a \<noteq> None \<and>
        (unat (initialBlockPoolIndex p) \<le> a \<or> a \<in> used \<or> a \<in> set fl)) \<and>
     unat (initialBlockPoolSize p) \<le> fresh p"

definition pool_inv :: "'a pool \<Rightarrow> nat set \<Rightarrow> bool" where
  "pool_inv p used \<longleftrightarrow> (\<exists>fl. pool_ok p used fl)"

lemma chain_update [simp]: "b \<notin> set fl \<Longrightarrow> chain (h(b := x)) head fl = chain h head fl"
  by (induction fl arbitrary: head) auto

lemma chain_heap: "a \<in> set fl \<Longrightarrow> chain h head fl \<Longrightarrow> \<exists>x. h a = Some x"
  by (induction fl arbitrary: head) auto

lemma put_block_simps [simp]:
  "heap (put_block b x p) = (heap p)(b \<mapsto> x)"
  "initialBlockPoolIndex (put_block b x p) = initialBlockPoolIndex p"
  "initialBlockPoolSize (put_block b x p) = initialBlockPoolSize p"
  "freeListHead (put_block b x p) = freeListHead p" "fresh (put_block b x p) = fresh p"
  by (simp_all add: put_block_def)

text \<open>Writing to a block in use, without touching its reference count, keeps the pool well-formed.\<close>

lemma pool_ok_put_block:
  assumes "pool_ok p used fl" "b \<in> used" "length (elements x) = 32" "freeListRefs x = 0"
    "map_option dynamicallyAllocated (heap p b) = Some (dynamicallyAllocated x)"
  shows "pool_ok (put_block b x p) used fl"
proof -
  have "b \<notin> set fl" using assms(1,2) by (auto simp: pool_ok_def)
  then show ?thesis using assms unfolding pool_ok_def by auto
qed

lemma pool_ok_used:
  assumes "pool_ok p used fl" "b \<in> used"
  obtains x where "heap p b = Some x" "freeListRefs x = 0" "length (elements x) = 32"
  using assms unfolding pool_ok_def by blast

lemma free_list_add_ok:
  assumes ok: "pool_ok p used fl" and b: "b \<in> used" and static: "heap p b = Some x" "\<not> dynamicallyAllocated x"
  shows "\<exists>p'. free_list_add b p = Some p' \<and> pool_ok p' (used - {b}) (b # fl) \<and>
    (\<forall>a. a \<noteq> b \<longrightarrow> heap p' a = heap p a)"
proof -
  from pool_ok_used [OF ok b] static have x: "heap p b = Some x" "freeListRefs x = 0"
    "length (elements x) = 32" by auto
  let ?y = "x\<lparr>freeListNext := freeListHead p, freeListRefs := 1\<rparr>"
  let ?p' = "(put_block b ?y p)\<lparr>freeListHead := Some b\<rparr>"
  have "free_list_add b p = Some ?p'"
    using x by (simp add: free_list_add_def add_knowing_refcount_is_zero_def
        add_knowing_loop.simps put_block_def)
  moreover have "b \<notin> set fl" using ok b by (auto simp: pool_ok_def)
  then have "pool_ok ?p' (used - {b}) (b # fl)"
    using ok b x static unfolding pool_ok_def by auto
  ultimately show ?thesis by simp
qed

lemma try_get_ok:
  assumes ok: "pool_ok p used fl"
  shows "free_list_try_get p = Some (case fl of [] \<Rightarrow> (None, p)
    | b # _ \<Rightarrow> (Some b, (put_block b (the (heap p b)\<lparr>freeListRefs := 0\<rparr>) p)
                          \<lparr>freeListHead := freeListNext (the (heap p b))\<rparr>))"
proof (cases fl)
  case Nil
  with ok show ?thesis
    by (simp add: pool_ok_def free_list_try_get_def try_get_loop.simps)
next
  case (Cons b bs)
  with ok obtain x where "freeListHead p = Some b" "heap p b = Some x" "freeListRefs x = 1"
    by (auto simp: pool_ok_def)
  with Cons show ?thesis
    by (simp add: free_list_try_get_def try_get_loop.simps REFS_MASK_def SHOULD_BE_ON_FREELIST_def
        put_block_def)
qed

lemma pool_ok_get:
  assumes ok: "pool_ok p used (b # bs)"
  shows "b \<notin> used \<and> pool_ok ((put_block b (the (heap p b)\<lparr>freeListRefs := 0\<rparr>) p)
    \<lparr>freeListHead := freeListNext (the (heap p b))\<rparr>) (insert b used) bs"
  using ok unfolding pool_ok_def by auto

lemma pool_ok_from_pool:
  assumes ok: "pool_ok p used fl" and i: "initialBlockPoolIndex p < initialBlockPoolSize p"
  shows "unat (initialBlockPoolIndex p) \<notin> used \<and>
    pool_ok (p\<lparr>initialBlockPoolIndex := initialBlockPoolIndex p + 1\<rparr>)
      (insert (unat (initialBlockPoolIndex p)) used) fl"
proof -
  from i have "unat (initialBlockPoolIndex p) < unat (initialBlockPoolSize p)"
    and "unat (initialBlockPoolIndex p + 1) = unat (initialBlockPoolIndex p) + 1"
    by (simp_all add: word_less_nat_alt unat_Suc_less)
  with ok show ?thesis unfolding pool_ok_def by auto
qed

lemma pool_ok_create:
  assumes ok: "pool_ok p used fl" and m: "create_block mok p = (r, p')"
  shows "case r of
      None \<Rightarrow> pool_ok p' used fl \<and> heap p' = heap p
    | Some b \<Rightarrow> b \<notin> used \<and> pool_ok p' (insert b used) fl \<and> (\<forall>a. a \<noteq> b \<longrightarrow> heap p' a = heap p a)"
proof -
  have none: "heap p (fresh p) = None"
    using ok unfolding pool_ok_def by (meson less_irrefl not_None_eq)
  have fl: "fresh p \<notin> set fl" using ok none chain_heap by (fastforce simp: pool_ok_def)
  have us: "fresh p \<notin> used" using ok none by (fastforce simp: pool_ok_def)
  have "pool_ok (p\<lparr>heap := (heap p)(fresh p \<mapsto> new_block True), fresh := fresh p + 1,
      mallocs := mallocs p + 1\<rparr>) (insert (fresh p) used) fl"
    using ok fl us unfolding pool_ok_def by (auto simp: new_block_def intro: less_SucI)
  moreover have "pool_ok (p\<lparr>mallocs := mallocs p + 1\<rparr>) used fl"
    using ok by (simp add: pool_ok_def)
  ultimately show ?thesis
    using m us by (auto simp: create_block_def split: if_splits)
qed

lemma requisition_block_ok:
  assumes "pool_inv p used"
  shows "\<exists>r p'. requisition_block mok p = Some (r, p') \<and>
    (case r of
       None \<Rightarrow> pool_inv p' used \<and> (\<forall>a \<in> used. heap p' a = heap p a)
     | Some b \<Rightarrow> b \<notin> used \<and> pool_inv p' (insert b used) \<and> (\<forall>a \<in> used. heap p' a = heap p a))"
proof -
  from assms obtain fl where ok: "pool_ok p used fl" by (auto simp: pool_inv_def)
  show ?thesis
  proof (cases "initialBlockPoolSize p \<le> initialBlockPoolIndex p")
    case False
    then have lt: "initialBlockPoolIndex p < initialBlockPoolSize p" by simp
    then have "requisition_block mok p = Some (Some (unat (initialBlockPoolIndex p)),
        p\<lparr>initialBlockPoolIndex := initialBlockPoolIndex p + 1\<rparr>)"
      using False by (simp add: requisition_block_def try_get_block_from_initial_pool_def Let_def)
    with pool_ok_from_pool [OF ok lt] show ?thesis by (auto simp: pool_inv_def)
  next
    case True
    then have none: "try_get_block_from_initial_pool p = (None, p)"
      by (simp add: try_get_block_from_initial_pool_def)
    show ?thesis
    proof (cases fl)
      case Nil
      obtain r p' where c: "create_block mok p = (r, p')" by fastforce
      with none Nil try_get_ok [OF ok] have "requisition_block mok p = Some (r, p')"
        by (simp add: requisition_block_def)
      with pool_ok_create [OF ok c] show ?thesis
        by (cases r) (auto simp: pool_inv_def, metis)
    next
      case (Cons b bs)
      let ?p' = "(put_block b (the (heap p b)\<lparr>freeListRefs := 0\<rparr>) p)
        \<lparr>freeListHead := freeListNext (the (heap p b))\<rparr>"
      from none Cons try_get_ok [OF ok] have "requisition_block mok p = Some (Some b, ?p')"
        by (simp add: requisition_block_def)
      moreover from ok Cons have "b \<notin> used \<and> pool_ok ?p' (insert b used) bs"
        by (auto dest: pool_ok_get)
      ultimately show ?thesis by (auto simp: pool_inv_def)
    qed
  qed
qed

lemma add_block_to_free_list_ok:
  assumes inv: "pool_inv p used" and b: "b \<in> used"
  shows "\<exists>p'. add_block_to_free_list b p = Some p' \<and> pool_inv p' (used - {b}) \<and>
    (\<forall>a \<in> used - {b}. heap p' a = heap p a)"
proof -
  from inv obtain fl where ok: "pool_ok p used fl" by (auto simp: pool_inv_def)
  from pool_ok_used [OF ok b] obtain x where x: "heap p b = Some x" .
  show ?thesis
  proof (cases "dynamicallyAllocated x")
    case True
    have "b \<notin> set fl" using ok b by (auto simp: pool_ok_def)
    moreover have "unat (initialBlockPoolSize p) \<le> b" using ok x True unfolding pool_ok_def by blast
    ultimately have "pool_ok (p\<lparr>heap := (heap p)(b := None)\<rparr>) (used - {b}) fl"
      using ok unfolding pool_ok_def by auto
    with True x show ?thesis by (auto simp: add_block_to_free_list_def pool_inv_def)
  next
    case False
    from free_list_add_ok [OF ok b x False] obtain p' where "free_list_add b p = Some p'"
      "pool_ok p' (used - {b}) (b # fl)" "\<forall>a. a \<noteq> b \<longrightarrow> heap p' a = heap p a" by blast
    with False x show ?thesis by (auto simp: add_block_to_free_list_def pool_inv_def)
  qed
qed

section \<open>The contract of the block pool\<close>

text \<open>
  What a producer relies on: a block it is given is one nobody holds, giving a block back
  cannot fail, and neither call writes to a block that stays in use.
\<close>

locale block_allocator =
  fixes inv :: "'p \<Rightarrow> nat set \<Rightarrow> bool"
    and mem :: "'p \<Rightarrow> nat \<Rightarrow> 'b option"
    and alloc :: "'p \<Rightarrow> (nat option \<times> 'p) option"
    and free :: "nat \<Rightarrow> 'p \<Rightarrow> 'p option"
  assumes alloc_law: "inv p used \<Longrightarrow> \<exists>r p'. alloc p = Some (r, p') \<and>
      (case r of
         None \<Rightarrow> inv p' used \<and> (\<forall>a \<in> used. mem p' a = mem p a)
       | Some b \<Rightarrow> b \<notin> used \<and> inv p' (insert b used) \<and> (\<forall>a \<in> used. mem p' a = mem p a))"
    and free_law: "inv p used \<Longrightarrow> b \<in> used \<Longrightarrow> \<exists>p'. free b p = Some p' \<and> inv p' (used - {b}) \<and>
      (\<forall>a \<in> used - {b}. mem p' a = mem p a)"
begin

lemma alloc_cases:
  assumes "inv p used"
  obtains (none) p' where "alloc p = Some (None, p')" "inv p' used" "\<forall>a \<in> used. mem p' a = mem p a"
  | (some) b p' where "alloc p = Some (Some b, p')" "b \<notin> used" "inv p' (insert b used)"
      "\<forall>a \<in> used. mem p' a = mem p a"
proof -
  from alloc_law [OF assms] obtain r p' where "alloc p = Some (r, p')"
    and "case r of
       None \<Rightarrow> inv p' used \<and> (\<forall>a \<in> used. mem p' a = mem p a)
     | Some b \<Rightarrow> b \<notin> used \<and> inv p' (insert b used) \<and> (\<forall>a \<in> used. mem p' a = mem p a)" by blast
  then show thesis using none some by (cases r) simp_all
qed

text \<open>Two blocks handed out one after the other are different; giving both back undoes it.\<close>

lemma alloc_twice_distinct:
  assumes "inv p used" "alloc p = Some (Some a, p1)" "alloc p1 = Some (Some b, p2)"
  shows "a \<noteq> b"
  using alloc_law [OF assms(1)] alloc_law [of p1 "insert a used"] assms(2,3) by auto

lemma alloc_then_free:
  assumes "inv p used" "alloc p = Some (Some b, p1)"
  shows "\<exists>p2. free b p1 = Some p2 \<and> inv p2 used \<and> (\<forall>a \<in> used. mem p2 a = mem p a)"
proof -
  from alloc_law [OF assms(1)] assms(2) have b: "b \<notin> used" "inv p1 (insert b used)"
    "\<forall>a \<in> used. mem p1 a = mem p a" by auto
  with free_law [of p1 "insert b used" b] show ?thesis by (fastforce simp: insert_Diff_if)
qed

end

interpretation pool: block_allocator pool_inv heap "requisition_block mok" add_block_to_free_list
  for mok
  by unfold_locales (rule requisition_block_ok add_block_to_free_list_ok; assumption)+

end
