(* ===== verification/Cq_Producer.thy ===== *)
theory Cq_Producer
  imports Cq_Block
begin

text \<open>
  \<open>include/concurrentqueue.h\<close>, \<open>struct ImplicitProducer\<close>: the sub-queue of one producing
  thread. Its indices are 64-bit and wrap around; a ring of \<open>BlockIndexEntry\<close> pointers, the
  block index, finds the block of an index. The entries live in an array per header that
  the later headers share, so they are addressed through a list of all entries made so
  far. The element type is a trivially copyable struct, so the branches for constructors
  that may throw are not compiled.
\<close>

section \<open>State\<close>

record block_index_entry =
  be_key :: u64
  be_value :: "nat option"

record block_index_header =
  bh_capacity :: u64
  bh_tail :: u64
  bh_index :: "nat list"

record producer =
  tailIndex :: u64
  headIndex :: u64
  dequeueOptimisticCount :: u64
  dequeueOvercommit :: u64
  tailBlock :: "nat option"
  inactive :: bool
  nextBlockIndexCapacity :: u64
  blockIndex :: "block_index_header list"
  entries :: "block_index_entry list"

definition INVALID_BLOCK_BASE :: u64 where
  "INVALID_BLOCK_BASE = 1"

definition IMPLICIT_INITIAL_INDEX_SIZE :: u64 where
  "IMPLICIT_INITIAL_INDEX_SIZE = 32"

definition MAX_SUBQUEUE_SIZE :: u64 where
  "MAX_SUBQUEUE_SIZE = - 1"

text \<open>\<open>blockIndex\<close> lists the headers from the current one along their \<open>prev\<close> pointers.\<close>

definition current_header :: "producer \<Rightarrow> block_index_header option" where
  "current_header pr = (case blockIndex pr of [] \<Rightarrow> None | h # _ \<Rightarrow> Some h)"

definition store_tail :: "u64 \<Rightarrow> producer \<Rightarrow> producer" where
  "store_tail t pr =
     (case blockIndex pr of [] \<Rightarrow> pr | h # hs \<Rightarrow> pr\<lparr>blockIndex := h\<lparr>bh_tail := t\<rparr> # hs\<rparr>)"

definition store_entry :: "nat \<Rightarrow> block_index_entry \<Rightarrow> producer \<Rightarrow> producer" where
  "store_entry a x pr = pr\<lparr>entries := (entries pr)[a := x]\<rparr>"

section \<open>The block index\<close>

definition new_block_index :: "malloc_ok \<Rightarrow> producer \<Rightarrow> 'a pool \<Rightarrow> bool \<times> producer \<times> 'a pool" where
  "new_block_index mok pr p =
     (let prev = current_header pr;
          prevCapacity = (case prev of None \<Rightarrow> 0 | Some h \<Rightarrow> bh_capacity h);
          entryCount = (case prev of None \<Rightarrow> nextBlockIndexCapacity pr | Some _ \<Rightarrow> prevCapacity);
          p' = p\<lparr>mallocs := mallocs p + 1\<rparr> in
      if \<not> mok (mallocs p) then (False, pr, p')
      else
        let old = (case prev of
              None \<Rightarrow> []
            | Some h \<Rightarrow> map (\<lambda>i. bh_index h ! unat ((bh_tail h + of_nat (Suc i)) AND (bh_capacity h - 1)))
                [0..<unat prevCapacity]);
            base = length (entries pr);
            header = \<lparr>bh_capacity = nextBlockIndexCapacity pr,
                      bh_tail = (prevCapacity - 1) AND (nextBlockIndexCapacity pr - 1),
                      bh_index = old @ [base..<base + unat entryCount]\<rparr> in
        (True,
         pr\<lparr>blockIndex := header # blockIndex pr,
            entries := entries pr
              @ replicate (unat entryCount) \<lparr>be_key = INVALID_BLOCK_BASE, be_value = None\<rparr>,
            nextBlockIndexCapacity := push_bit 1 (nextBlockIndexCapacity pr)\<rparr>,
         p'))"

definition insert_block_index_entry ::
  "malloc_ok \<Rightarrow> u64 \<Rightarrow> producer \<Rightarrow> 'a pool \<Rightarrow> (nat option \<times> producer \<times> 'a pool) option" where
  "insert_block_index_entry mok blockStartIndex pr p =
     (case current_header pr of
        None \<Rightarrow> Some (None, pr, p)
      | Some h \<Rightarrow>
          let newTail = (bh_tail h + 1) AND (bh_capacity h - 1);
              idxEntry = bh_index h ! unat newTail;
              e = entries pr ! idxEntry in
          if be_key e = INVALID_BLOCK_BASE \<or> be_value e = None then
            Some (Some idxEntry,
              store_tail newTail (store_entry idxEntry (e\<lparr>be_key := blockStartIndex\<rparr>) pr), p)
          else
            let (ok, pr, p) = new_block_index mok pr p in
            if \<not> ok then Some (None, pr, p)
            else do {
              h \<leftarrow> current_header pr;
              let newTail = (bh_tail h + 1) AND (bh_capacity h - 1);
              let idxEntry = bh_index h ! unat newTail;
              let e = entries pr ! idxEntry;
              if be_key e = INVALID_BLOCK_BASE
              then Some (Some idxEntry,
                store_tail newTail (store_entry idxEntry (e\<lparr>be_key := blockStartIndex\<rparr>) pr), p)
              else None })"

definition rewind_block_index_tail :: "producer \<Rightarrow> producer option" where
  "rewind_block_index_tail pr = do {
     h \<leftarrow> current_header pr;
     Some (store_tail ((bh_tail h - 1) AND (bh_capacity h - 1)) pr) }"

definition get_block_index_index_for_index :: "u64 \<Rightarrow> producer \<Rightarrow> u64 option" where
  "get_block_index_index_for_index index pr = do {
     let index = index AND NOT (BLOCK_SIZE - 1);
     h \<leftarrow> current_header pr;
     let tail = bh_tail h;
     let tailBase = be_key (entries pr ! (bh_index h ! unat tail));
     if tailBase = INVALID_BLOCK_BASE then None
     else do {
       let offset = word_of_int (sint (index - tailBase) sdiv sint BLOCK_SIZE);
       let idx = (tail + offset) AND (bh_capacity h - 1);
       let e = entries pr ! (bh_index h ! unat idx);
       if be_key e = index \<and> be_value e \<noteq> None then Some idx else None } }"

definition get_block_index_entry_for_index :: "u64 \<Rightarrow> producer \<Rightarrow> nat option" where
  "get_block_index_entry_for_index index pr = do {
     idx \<leftarrow> get_block_index_index_for_index index pr;
     h \<leftarrow> current_header pr;
     Some (bh_index h ! unat idx) }"

section \<open>Operations\<close>

definition new_producer :: "malloc_ok \<Rightarrow> 'a pool \<Rightarrow> producer \<times> 'a pool" where
  "new_producer mok p =
     snd (new_block_index mok
       \<lparr>tailIndex = 0, headIndex = 0, dequeueOptimisticCount = 0, dequeueOvercommit = 0,
        tailBlock = None, inactive = False, nextBlockIndexCapacity = IMPLICIT_INITIAL_INDEX_SIZE,
        blockIndex = [], entries = []\<rparr> p)"

definition producer_size_approx :: "producer \<Rightarrow> u64" where
  "producer_size_approx pr =
     (if circular_less_than (headIndex pr) (tailIndex pr) then tailIndex pr - headIndex pr else 0)"

text \<open>Starting a new block, when the tail index has reached the end of one.\<close>

definition start_block :: "malloc_ok \<Rightarrow> u64 \<Rightarrow> producer \<Rightarrow> 'a pool \<Rightarrow> (bool \<times> producer \<times> 'a pool) option" where
  "start_block mok currentTailIndex pr p =
     (let head = headIndex pr in
      if circular_less_than currentTailIndex head then None
      else if \<not> circular_less_than head (currentTailIndex + BLOCK_SIZE)
        \<or> (MAX_SUBQUEUE_SIZE \<noteq> - 1
           \<and> (MAX_SUBQUEUE_SIZE = 0 \<or> MAX_SUBQUEUE_SIZE - BLOCK_SIZE < currentTailIndex - head))
      then Some (False, pr, p)
      else do {
        (idxEntry, pr, p) \<leftarrow> insert_block_index_entry mok currentTailIndex pr p;
        case idxEntry of
          None \<Rightarrow> Some (False, pr, p)
        | Some a \<Rightarrow> do {
            (newBlock, p) \<leftarrow> requisition_block mok p;
            case newBlock of
              None \<Rightarrow> do {
                pr \<leftarrow> rewind_block_index_tail pr;
                Some (False, store_entry a ((entries pr ! a)\<lparr>be_value := None\<rparr>) pr, p) }
            | Some b \<Rightarrow> do {
                p \<leftarrow> reset_empty b p;
                Some (True, store_entry a ((entries pr ! a)\<lparr>be_value := Some b\<rparr>) pr
                  \<lparr>tailBlock := Some b\<rparr>, p) } } })"

definition producer_enqueue :: "malloc_ok \<Rightarrow> 'a \<Rightarrow> producer \<Rightarrow> 'a pool \<Rightarrow> (bool \<times> producer \<times> 'a pool) option" where
  "producer_enqueue mok element pr p =
     (let currentTailIndex = tailIndex pr;
          newTailIndex = 1 + currentTailIndex in
      do {
        (ok, pr, p) \<leftarrow> (if currentTailIndex AND (BLOCK_SIZE - 1) = 0
                        then start_block mok currentTailIndex pr p
                        else Some (True, pr, p));
        if \<not> ok then Some (False, pr, p)
        else do {
          b \<leftarrow> tailBlock pr;
          p \<leftarrow> put_element b currentTailIndex element p;
          Some (True, pr\<lparr>tailIndex := newTailIndex\<rparr>, p) } })"

definition producer_dequeue :: "producer \<Rightarrow> 'a pool \<Rightarrow> ('a option \<times> producer \<times> 'a pool) option" where
  "producer_dequeue pr p =
     (let tail = tailIndex pr;
          overcommit = dequeueOvercommit pr in
      if circular_less_than (dequeueOptimisticCount pr - overcommit) tail then
        let myDequeueCount = dequeueOptimisticCount pr;
            pr = pr\<lparr>dequeueOptimisticCount := myDequeueCount + 1\<rparr>;
            tail = tailIndex pr in
        if circular_less_than (myDequeueCount - overcommit) tail then
          let index = headIndex pr;
              pr = pr\<lparr>headIndex := index + 1\<rparr> in
          do {
            a \<leftarrow> get_block_index_entry_for_index index pr;
            b \<leftarrow> be_value (entries pr ! a);
            (el, p) \<leftarrow> take_element b index p;
            (emptied, p) \<leftarrow> set_empty b p;
            if emptied then do {
              let pr = store_entry a ((entries pr ! a)\<lparr>be_value := None\<rparr>) pr;
              p \<leftarrow> add_block_to_free_list b p;
              Some (Some el, pr, p) }
            else Some (Some el, pr, p) }
        else Some (None, pr\<lparr>dequeueOvercommit := dequeueOvercommit pr + 1\<rparr>, p)
      else Some (None, pr, p))"

section \<open>The block index as a ring\<close>

text \<open>
  \<open>bl\<close> lists the blocks in use from the head's to the tail's, \<open>b0\<close> is the base of the
  first. The slot \<open>d\<close> places behind the tail slot holds the block \<open>d\<close> places before the
  last, for each block in use; the other slots hold no block.
\<close>

definition ring_entry :: "u64 \<Rightarrow> nat list \<Rightarrow> nat \<Rightarrow> block_index_entry" where
  "ring_entry b0 bl j = \<lparr>be_key = b0 + of_nat (32 * j), be_value = Some (bl ! j)\<rparr>"

definition ring_slot :: "block_index_header \<Rightarrow> nat \<Rightarrow> nat" where
  "ring_slot h d = bh_index h ! ring_pos (unat (bh_capacity h)) (unat (bh_tail h)) d"

definition ring_shape :: "block_index_header \<Rightarrow> nat \<Rightarrow> nat \<Rightarrow> bool" where
  "ring_shape h k n \<longleftrightarrow>
     bh_capacity h = 2 ^ k \<and> n = 2 ^ k \<and> 5 \<le> k \<and> k < 60 \<and> unat (bh_tail h) < 2 ^ k \<and>
     length (bh_index h) = 2 ^ k \<and> distinct (bh_index h) \<and> (\<forall>a \<in> set (bh_index h). a < n)"

definition ring_ok :: "block_index_header \<Rightarrow> block_index_entry list \<Rightarrow> nat \<Rightarrow> u64 \<Rightarrow> nat list \<Rightarrow> bool" where
  "ring_ok h es k b0 bl \<longleftrightarrow>
     ring_shape h k (length es) \<and> length bl \<le> 2 ^ k \<and>
     (\<forall>d < 2 ^ k.
        if d < length bl then es ! ring_slot h d = ring_entry b0 bl (length bl - 1 - d)
        else be_value (es ! ring_slot h d) = None)"

lemma unat_2_power [simp]:
  assumes "k < 64"
  shows "unat (2 ^ k :: u64) = 2 ^ k"
proof -
  have "unat (of_nat (2 ^ k) :: u64) = 2 ^ k"
    using assms by (simp only: unsigned_of_nat) (simp add: take_bit_nat_eq_self_iff)
  then show ?thesis by simp
qed

lemma ring_shape_cap: "ring_shape h k n \<Longrightarrow> unat (bh_capacity h) = 2 ^ k"
  by (simp add: ring_shape_def unat_2_power)

lemma ring_slot_inj:
  assumes "ring_shape h k n" "d < 2 ^ k" "d' < 2 ^ k" "ring_slot h d = ring_slot h d'"
  shows "d = d'"
proof -
  let ?t = "unat (bh_tail h)"
  from assms(1) have h: "distinct (bh_index h)" "length (bh_index h) = 2 ^ k" "?t < 2 ^ k"
    by (auto simp: ring_shape_def)
  from assms(4) have "bh_index h ! ring_pos (2 ^ k) ?t d = bh_index h ! ring_pos (2 ^ k) ?t d'"
    by (simp add: ring_slot_def ring_shape_cap [OF assms(1)])
  then have "ring_pos (2 ^ k) ?t d = ring_pos (2 ^ k) ?t d'"
    by (rule nth_eq_iff_index_eq [OF h(1), THEN iffD1, rotated 2]) (simp_all add: h(2))
  with h(3) assms(2,3) show ?thesis by (rule ring_pos_inj)
qed

lemma ring_slot_less: "ring_shape h k n \<Longrightarrow> ring_slot h d < n"
  by (simp add: ring_slot_def ring_shape_cap) (auto simp: ring_shape_def)

lemma ring_slot_0: "ring_shape h k n \<Longrightarrow> ring_slot h 0 = bh_index h ! unat (bh_tail h)"
  by (simp add: ring_slot_def ring_shape_cap) (simp add: ring_shape_def)

text \<open>The slot an insertion uses is the one farthest behind the tail.\<close>

definition next_tail :: "block_index_header \<Rightarrow> u64" where
  "next_tail h = (bh_tail h + 1) AND (bh_capacity h - 1)"

lemma unat_next_tail:
  assumes "ring_shape h k n"
  shows "unat (next_tail h) = Suc (unat (bh_tail h)) mod 2 ^ k"
proof -
  have "k < 64" using assms by (simp add: ring_shape_def)
  moreover have "unat (bh_tail h + 1) = Suc (unat (bh_tail h))"
  proof -
    have "unat (bh_tail h) < 2 ^ 60"
      using assms power_strict_increasing_iff [of "2::nat" k 60] by (auto simp: ring_shape_def)
    then show ?thesis by (simp add: unat_word_ariths)
  qed
  ultimately show ?thesis
    using assms by (simp add: next_tail_def ring_shape_def unat_and_mask)
qed

lemma next_tail_slot:
  assumes "ring_shape h k n"
  shows "bh_index h ! unat (next_tail h) = ring_slot h (2 ^ k - 1)"
  using assms
  by (simp add: unat_next_tail ring_slot_def ring_shape_cap) (simp add: ring_shape_def ring_pos_next)

lemma ring_slot_advance:
  assumes "ring_shape h k n" "Suc d < 2 ^ k"
  shows "ring_slot (h\<lparr>bh_tail := next_tail h\<rparr>) (Suc d) = ring_slot h d"
  using assms
  by (simp add: ring_slot_def ring_shape_cap unat_next_tail) (simp add: ring_shape_def ring_pos_advance)

lemma ring_shape_advance: "ring_shape h k n \<Longrightarrow> ring_shape (h\<lparr>bh_tail := next_tail h\<rparr>) k n"
  by (frule unat_next_tail) (auto simp: ring_shape_def)

lemma ring_slot_new_tail:
  assumes "ring_shape h k n"
  shows "ring_slot (h\<lparr>bh_tail := next_tail h\<rparr>) 0 = ring_slot h (2 ^ k - 1)"
  using next_tail_slot [OF assms] ring_slot_0 [OF ring_shape_advance [OF assms]] by simp

lemma ring_entry_shift: "ring_entry b0 (b # bl) (Suc j) = ring_entry (b0 + 32) bl j"
  by (simp add: ring_entry_def algebra_simps)

lemma ring_entry_append: "j < length bl \<Longrightarrow> ring_entry b0 (bl @ cs) j = ring_entry b0 bl j"
  by (simp add: ring_entry_def nth_append)

lemma ring_ok_shape: "ring_ok h es k b0 bl \<Longrightarrow> ring_shape h k (length es)"
  by (simp add: ring_ok_def)

lemma ring_ok_used:
  "ring_ok h es k b0 bl \<Longrightarrow> d < length bl \<Longrightarrow> es ! ring_slot h d = ring_entry b0 bl (length bl - 1 - d)"
  by (auto simp: ring_ok_def)

lemma ring_ok_unused:
  "ring_ok h es k b0 bl \<Longrightarrow> length bl \<le> d \<Longrightarrow> d < 2 ^ k \<Longrightarrow> be_value (es ! ring_slot h d) = None"
  by (auto simp: ring_ok_def)

lemma ring_ok_empty: "ring_ok h es k b0 [] = ring_ok h es k b1 []"
  by (simp add: ring_ok_def)

lemma ring_ok_pop:
  assumes ok: "ring_ok h es k b0 (b # bl)"
  defines "a \<equiv> ring_slot h (length bl)"
  shows "ring_ok h (es[a := (es ! a)\<lparr>be_value := None\<rparr>]) k (b0 + 32) bl"
proof -
  have shape: "ring_shape h k (length es)" and m: "length bl < 2 ^ k" using ok by (auto simp: ring_ok_def)
  have a: "a < length es" unfolding a_def by (rule ring_slot_less [OF shape])
  have "if d < length bl
      then es[a := (es ! a)\<lparr>be_value := None\<rparr>] ! ring_slot h d = ring_entry (b0 + 32) bl (length bl - 1 - d)
      else be_value (es[a := (es ! a)\<lparr>be_value := None\<rparr>] ! ring_slot h d) = None" if d: "d < 2 ^ k" for d
  proof (cases "d = length bl")
    case True
    with a show ?thesis by (simp add: a_def)
  next
    case False
    then have "ring_slot h d \<noteq> a" unfolding a_def using ring_slot_inj [OF shape d m] by blast
    moreover have "d < length bl \<Longrightarrow> es ! ring_slot h d = ring_entry (b0 + 32) bl (length bl - 1 - d)"
      using ring_ok_used [OF ok, of d] ring_entry_shift [of b0 b bl "length bl - Suc d"]
      by (simp add: Suc_diff_Suc)
    ultimately show ?thesis using ring_ok_unused [OF ok _ d] False by auto
  qed
  with shape m show ?thesis by (simp add: ring_ok_def)
qed

lemma ring_ok_push:
  assumes ok: "ring_ok h es k b0 bl" and room: "length bl < 2 ^ k"
  defines "a \<equiv> ring_slot h (2 ^ k - 1)"
  shows "ring_ok (h\<lparr>bh_tail := next_tail h\<rparr>)
    (es[a := ring_entry b0 (bl @ [b]) (length bl)]) k b0 (bl @ [b])"
proof -
  let ?h = "h\<lparr>bh_tail := next_tail h\<rparr>" and ?es = "es[a := ring_entry b0 (bl @ [b]) (length bl)]"
  have shape: "ring_shape h k (length es)" using ok by (rule ring_ok_shape)
  have a: "a < length es" unfolding a_def by (rule ring_slot_less [OF shape])
  have "if d < length (bl @ [b])
      then ?es ! ring_slot ?h d = ring_entry b0 (bl @ [b]) (length (bl @ [b]) - 1 - d)
      else be_value (?es ! ring_slot ?h d) = None" if d: "d < 2 ^ k" for d
  proof (cases d)
    case 0
    with a show ?thesis using ring_slot_new_tail [OF shape] by (simp add: a_def)
  next
    case (Suc c)
    with d have c: "ring_slot ?h d = ring_slot h c" "c < 2 ^ k" "c \<noteq> 2 ^ k - 1"
      using ring_slot_advance [OF shape, of c] by auto
    then have "ring_slot h c \<noteq> a" unfolding a_def using ring_slot_inj [OF shape c(2), of "2 ^ k - 1"] by auto
    then show ?thesis
      using Suc c ring_ok_used [OF ok, of c] ring_ok_unused [OF ok _ c(2)]
      by (auto simp: ring_entry_append)
  qed
  with ring_shape_advance [OF shape] room show ?thesis by (simp add: ring_ok_def)
qed

lemma ring_ok_unused_update:
  assumes ok: "ring_ok h es k b0 bl" and room: "length bl < 2 ^ k" and x: "be_value x = None"
  shows "ring_ok h (es[ring_slot h (2 ^ k - 1) := x]) k b0 bl"
proof -
  let ?a = "ring_slot h (2 ^ k - 1)"
  have shape: "ring_shape h k (length es)" using ok by (rule ring_ok_shape)
  have a: "?a < length es" by (rule ring_slot_less [OF shape])
  have "if d < length bl then es[?a := x] ! ring_slot h d = ring_entry b0 bl (length bl - 1 - d)
      else be_value (es[?a := x] ! ring_slot h d) = None" if d: "d < 2 ^ k" for d
  proof (cases "d = 2 ^ k - 1")
    case True
    with a x room show ?thesis by simp
  next
    case False
    then have "ring_slot h d \<noteq> ?a" using ring_slot_inj [OF shape d, of "2 ^ k - 1"] by auto
    then show ?thesis using ring_ok_used [OF ok, of d] ring_ok_unused [OF ok _ d] by auto
  qed
  with shape room show ?thesis by (simp add: ring_ok_def del: One_nat_def)
qed

lemma rewind_tail:
  assumes "ring_shape h k n"
  shows "(next_tail h - 1) AND (bh_capacity h - 1) = bh_tail h"
proof -
  have k: "k < 64" "bh_capacity h = 2 ^ k" and t: "unat (bh_tail h) < 2 ^ k"
    using assms by (auto simp: ring_shape_def)
  have "unat (next_tail h) < 2 ^ k" using unat_next_tail [OF assms] by simp
  then have "unat ((next_tail h - of_nat 1) AND (2 ^ k - 1)) = ring_pos (2 ^ k) (unat (next_tail h)) 1"
    using k by (intro ring_pos_word) auto
  also have "\<dots> = unat (bh_tail h)"
    using t unat_next_tail [OF assms] by (auto simp: ring_pos_def mod_Suc)
  finally show ?thesis unfolding k(2) by (simp add: word_unat_eq_iff)
qed

lemma ring_lookup:
  assumes pr: "current_header pr = Some h" and ok: "ring_ok h (entries pr) k b0 bl"
    and b0: "slot_of b0 = 0" and j: "j < length bl" and r: "r < 32" and small: "32 * length bl \<le> 2 ^ 63 + 32"
  shows "get_block_index_entry_for_index (b0 + of_nat (32 * j + r)) pr
    = Some (ring_slot h (length bl - 1 - j))"
proof -
  let ?d = "length bl - 1 - j" and ?t = "bh_tail h"
  let ?b = "b0 + of_nat (32 * j)"
  have shape: "ring_shape h k (length (entries pr))" using ok by (rule ring_ok_shape)
  then have k: "k < 64" "bh_capacity h = 2 ^ k" "unat ?t < 2 ^ k" by (auto simp: ring_shape_def)
  have base: "(b0 + of_nat (32 * j + r)) AND NOT (BLOCK_SIZE - 1) = ?b"
    using base_of_add [of b0 "32 * j + r"] base_of_eq [of b0] b0 r
    by (simp add: base_of_def BLOCK_SIZE_def)
  have tail: "be_key (entries pr ! (bh_index h ! unat ?t)) = b0 + of_nat (32 * (length bl - 1))"
  proof -
    have "0 < length bl" using j by linarith
    then show ?thesis using ring_ok_used [OF ok, of 0] ring_slot_0 [OF shape] by (simp add: ring_entry_def)
  qed
  have split: "b0 + of_nat (32 * (length bl - 1)) = ?b + of_nat (32 * ?d)"
  proof -
    have "32 * (length bl - 1) = 32 * j + 32 * ?d" using j by simp
    then show ?thesis by (simp only: of_nat_add add.assoc)
  qed
  have valid: "b0 + of_nat (32 * (length bl - 1)) \<noteq> (1 :: u64)"
  proof
    assume "b0 + of_nat (32 * (length bl - 1)) = (1 :: u64)"
    then have "slot_of (b0 + of_nat (32 * (length bl - 1))) = slot_of 1" by simp
    then show False using b0 by (simp only: slot_of_add) (simp add: slot_of_mod)
  qed
  have off: "word_of_int (sint (?b - (?b + of_nat (32 * ?d))) sdiv 32) = - (of_nat ?d :: u64)"
    by (rule signed_block_offset) (use small j in simp)
  have idx: "unat ((?t + - of_nat ?d) AND (bh_capacity h - 1)) = ring_pos (2 ^ k) (unat ?t) ?d"
  proof -
    have "length bl \<le> 2 ^ k" using ok by (simp add: ring_ok_def)
    then show ?thesis using ring_pos_word [of k ?t ?d] k by simp
  qed
  then have slot: "bh_index h ! unat ((?t + - of_nat ?d) AND (bh_capacity h - 1)) = ring_slot h ?d"
    by (simp add: ring_slot_def ring_shape_cap [OF shape])
  have entry: "entries pr ! ring_slot h ?d = ring_entry b0 bl j"
    using ring_ok_used [OF ok, of ?d] j by simp
  have "get_block_index_index_for_index (b0 + of_nat (32 * j + r)) pr
      = Some ((?t + - of_nat ?d) AND (bh_capacity h - 1))"
    unfolding get_block_index_index_for_index_def base pr
    by (simp only: Option.bind.simps Let_def tail split valid [unfolded split] INVALID_BLOCK_BASE_def if_False BLOCK_SIZE_def
        sint_numeral_32 off slot entry) (simp add: ring_entry_def)
  with slot show ?thesis by (simp add: get_block_index_entry_for_index_def pr)
qed

text \<open>Growing a full block index keeps the blocks at the same distance from the tail.\<close>

definition grown_header :: "block_index_header \<Rightarrow> nat \<Rightarrow> nat \<Rightarrow> block_index_header" where
  "grown_header h k n =
     \<lparr>bh_capacity = 2 ^ Suc k, bh_tail = 2 ^ k - 1,
      bh_index = map (\<lambda>i. bh_index h ! unat ((bh_tail h + of_nat (Suc i)) AND (bh_capacity h - 1))) [0..<2 ^ k]
        @ [n..<n + 2 ^ k]\<rparr>"

definition fresh_entries :: "nat \<Rightarrow> block_index_entry list" where
  "fresh_entries n = replicate n \<lparr>be_key = INVALID_BLOCK_BASE, be_value = None\<rparr>"

lemma fresh_entry:
  "length es \<le> a \<Longrightarrow> a < length es + n \<Longrightarrow>
    (es @ fresh_entries n) ! a = \<lparr>be_key = INVALID_BLOCK_BASE, be_value = None\<rparr>"
  by (simp add: nth_append fresh_entries_def)

lemma new_block_index_grow:
  assumes pr: "blockIndex pr = h # hs" and shape: "ring_shape h k (length (entries pr))"
    and cap2: "nextBlockIndexCapacity pr = 2 ^ Suc k" and mok: "mok (mallocs p)"
  shows "new_block_index mok pr p =
    (True, pr\<lparr>blockIndex := grown_header h k (length (entries pr)) # h # hs,
        entries := entries pr @ fresh_entries (2 ^ k), nextBlockIndexCapacity := 2 ^ Suc (Suc k)\<rparr>,
     p\<lparr>mallocs := mallocs p + 1\<rparr>)"
proof -
  have k: "k < 60" and cap: "bh_capacity h = 2 ^ k" using shape by (auto simp: ring_shape_def)
  have "((2 :: u64) ^ k - 1) AND (2 ^ Suc k - 1) = 2 ^ k - 1"
  proof (rule word_unat_eq_iff [THEN iffD2])
    have "unat ((2 :: u64) ^ k - 1) = 2 ^ k - 1" using k by (subst unat_sub) (simp_all add: word_le_nat_alt)
    moreover have "(2 :: nat) ^ k - 1 < 2 ^ Suc k" by (simp add: less_imp_diff_less)
    ultimately show "unat (((2 :: u64) ^ k - 1) AND (2 ^ Suc k - 1)) = unat ((2 :: u64) ^ k - 1)"
      using k by (subst unat_and_mask) auto
  qed
  then show ?thesis
    using mok k cap
    by (simp add: new_block_index_def Let_def current_header_def pr cap2 grown_header_def
        fresh_entries_def push_bit_eq_mult mult.commute)
qed

lemma ring_step_slot:
  assumes "ring_shape h k n" "i < 2 ^ k"
  shows "unat ((bh_tail h + of_nat (Suc i)) AND (bh_capacity h - 1))
    = ring_pos (2 ^ k) (unat (bh_tail h)) (2 ^ k - 1 - i)"
proof -
  have k: "k < 64" and cap: "bh_capacity h = 2 ^ k" and t: "unat (bh_tail h) < 2 ^ k"
    using assms by (auto simp: ring_shape_def)
  have "2 ^ k < (2 :: nat) ^ 60" using assms(1) by (intro power_strict_increasing) (auto simp: ring_shape_def)
  then have "unat (bh_tail h + of_nat (Suc i)) = unat (bh_tail h) + Suc i"
    using t assms(2) by (intro unat_add_small) simp
  then show ?thesis
    using k assms(2) by (simp add: cap unat_and_mask ring_pos_def)
qed

lemma grown_slot_old:
  assumes shape: "ring_shape h k n" and d: "d < 2 ^ k"
  shows "ring_slot (grown_header h k n) d = ring_slot h d"
proof -
  have k: "k < 60" using shape by (simp add: ring_shape_def)
  have tail: "unat ((2 :: u64) ^ k - 1) = 2 ^ k - 1" using k by (subst unat_sub) (simp_all add: word_le_nat_alt)
  have cap: "unat ((2 :: u64) ^ Suc k) = 2 ^ Suc k" using k by (intro unat_2_power) simp
  have "ring_pos (2 ^ Suc k) (2 ^ k - 1) d = 2 ^ k - 1 - d"
    using d by (subst ring_pos_eq) auto
  moreover have "2 ^ k - 1 - (2 ^ k - 1 - d) = d" using d by simp
  moreover have "2 ^ k - 1 - d < 2 ^ k" by (simp add: less_imp_diff_less)
  ultimately show ?thesis
    using ring_step_slot [OF shape, of "2 ^ k - 1 - d"] ring_shape_cap [OF shape]
    by (simp only: ring_slot_def grown_header_def block_index_header.simps cap tail nth_append length_map
        length_upt nth_map nth_upt if_True diff_zero add_0)
qed

lemma grown_slot_new:
  assumes shape: "ring_shape h k n" and d: "2 ^ k \<le> d" "d < 2 ^ Suc k"
  shows "n \<le> ring_slot (grown_header h k n) d \<and> ring_slot (grown_header h k n) d < n + 2 ^ k"
proof -
  have k: "k < 60" using shape by (simp add: ring_shape_def)
  have tail: "unat ((2 :: u64) ^ k - 1) = 2 ^ k - 1" using k by (subst unat_sub) (simp_all add: word_le_nat_alt)
  have cap: "unat ((2 :: u64) ^ Suc k) = 2 ^ Suc k" using k by (intro unat_2_power) simp
  let ?i = "2 ^ k - 1 + 2 ^ Suc k - d"
  have "(0::nat) < 2 ^ k" by simp
  then have "\<not> d \<le> 2 ^ k - 1" using d(1) by linarith
  then have pos: "ring_pos (2 ^ Suc k) (2 ^ k - 1) d = ?i"
    using d by (subst ring_pos_eq) auto
  have i: "2 ^ k \<le> ?i" "?i < 2 ^ k + 2 ^ k" using d by auto
  have "ring_slot (grown_header h k n) d = [n..<n + 2 ^ k] ! (?i - 2 ^ k)"
    using i by (simp only: ring_slot_def grown_header_def block_index_header.simps cap tail pos nth_append
        length_map length_upt diff_zero not_less [symmetric] if_False)
  with i show ?thesis by auto
qed

lemma ring_ok_grow:
  assumes ok: "ring_ok h es k b0 bl" and full: "length bl = 2 ^ k" and k: "k < 59"
  shows "ring_ok (grown_header h k (length es)) (es @ fresh_entries (2 ^ k)) (Suc k) b0 bl"
proof -
  let ?n = "length es" and ?g = "grown_header h k (length es)" and ?es = "es @ fresh_entries (2 ^ k)"
  have shape: "ring_shape h k ?n" using ok by (rule ring_ok_shape)
  let ?old = "map (\<lambda>i. bh_index h ! unat ((bh_tail h + of_nat (Suc i)) AND (bh_capacity h - 1))) [0..<2 ^ k]"
  have old: "?old = map (\<lambda>i. ring_slot h (2 ^ k - 1 - i)) [0..<2 ^ k]"
    using ring_step_slot [OF shape] ring_shape_cap [OF shape] by (auto simp: ring_slot_def)
  have "inj_on (\<lambda>i. ring_slot h (2 ^ k - 1 - i)) {0..<2 ^ k}"
  proof (rule inj_onI)
    fix x y :: nat
    assume xy: "x \<in> {0..<2 ^ k}" "y \<in> {0..<2 ^ k}" "ring_slot h (2 ^ k - 1 - x) = ring_slot h (2 ^ k - 1 - y)"
    have "2 ^ k - 1 - x < 2 ^ k" "2 ^ k - 1 - y < 2 ^ k" by (simp_all add: less_imp_diff_less)
    from ring_slot_inj [OF shape this xy(3)] xy(1,2) show "x = y" by auto
  qed
  then have "distinct ?old" unfolding old by (simp add: distinct_map)
  moreover have bound: "\<forall>a \<in> set ?old. a < ?n" unfolding old using ring_slot_less [OF shape] by auto
  ultimately have "distinct (bh_index ?g)" by (auto simp: grown_header_def)
  moreover have "\<forall>a \<in> set (bh_index ?g). a < length ?es"
    using bound by (fastforce simp: grown_header_def fresh_entries_def)
  moreover have "unat ((2 :: u64) ^ k - 1) < 2 ^ Suc k"
    using k by (subst unat_sub) (simp_all add: word_le_nat_alt less_imp_diff_less)
  ultimately have "ring_shape ?g (Suc k) (length ?es)"
    using shape k by (simp add: ring_shape_def) (simp add: grown_header_def fresh_entries_def)
  moreover have "?es ! ring_slot ?g d = ring_entry b0 bl (length bl - 1 - d)" if "d < length bl" for d
    using that full grown_slot_old [OF shape, of d] ring_ok_used [OF ok that] ring_slot_less [OF shape, of d]
    by (simp add: nth_append)
  moreover have "be_value (?es ! ring_slot ?g d) = None" if "\<not> d < length bl" "d < 2 ^ Suc k" for d
    using that full grown_slot_new [OF shape, of d] by (auto simp: nth_append fresh_entries_def)
  ultimately show ?thesis using full by (simp add: ring_ok_def)
qed

section \<open>Inserting into the block index\<close>

definition index_ok :: "producer \<Rightarrow> u64 \<Rightarrow> nat list \<Rightarrow> bool" where
  "index_ok pr b0 bl \<longleftrightarrow>
     (case blockIndex pr of
        [] \<Rightarrow> bl = [] \<and> entries pr = []
      | h # hs \<Rightarrow> \<exists>k. ring_ok h (entries pr) k b0 bl \<and> nextBlockIndexCapacity pr = 2 ^ Suc k)"

text \<open>An entry has been reserved at \<open>a\<close> for the base \<open>base\<close>, without a block yet.\<close>

definition index_reserved :: "producer \<Rightarrow> nat \<Rightarrow> u64 \<Rightarrow> u64 \<Rightarrow> nat list \<Rightarrow> bool" where
  "index_reserved pr a base b0 bl \<longleftrightarrow>
     (\<exists>h hs es k. blockIndex pr = h\<lparr>bh_tail := next_tail h\<rparr> # hs \<and> ring_ok h es k b0 bl \<and>
        length bl < 2 ^ k \<and> nextBlockIndexCapacity pr = 2 ^ Suc k \<and> a = ring_slot h (2 ^ k - 1) \<and>
        entries pr = es[a := \<lparr>be_key = base, be_value = None\<rparr>])"

text \<open>The parts of a producer the block index does not touch.\<close>

definition same_queue :: "producer \<Rightarrow> producer \<Rightarrow> bool" where
  "same_queue pr pr' \<longleftrightarrow>
     tailIndex pr' = tailIndex pr \<and> headIndex pr' = headIndex pr \<and>
     dequeueOptimisticCount pr' = dequeueOptimisticCount pr \<and>
     dequeueOvercommit pr' = dequeueOvercommit pr \<and> tailBlock pr' = tailBlock pr \<and>
     inactive pr' = inactive pr"

lemma same_queue_refl [simp]: "same_queue pr pr"
  by (simp add: same_queue_def)

lemma same_queue_stores [simp]:
  "same_queue pr (store_tail t pr') = same_queue pr pr'"
  "same_queue pr (store_entry a x pr') = same_queue pr pr'"
  by (simp_all add: same_queue_def store_tail_def store_entry_def split: list.split)

lemma new_header_store:
  "blockIndex pr = h # hs \<Longrightarrow> store_tail t pr = pr\<lparr>blockIndex := h\<lparr>bh_tail := t\<rparr> # hs\<rparr>"
  by (simp add: store_tail_def)

lemma insert_with_room:
  fixes base :: u64
  assumes pr: "blockIndex pr = h # hs" and ok: "ring_ok h (entries pr) k b0 bl"
    and cap2: "nextBlockIndexCapacity pr = 2 ^ Suc k" and room: "length bl < 2 ^ k"
  defines "a \<equiv> ring_slot h (2 ^ k - 1)"
  defines "pr' \<equiv> store_tail (next_tail h) (store_entry a ((entries pr ! a)\<lparr>be_key := base\<rparr>) pr)"
  shows "bh_index h ! unat ((bh_tail h + 1) AND (bh_capacity h - 1)) = a"
    and "be_value (entries pr ! a) = None" and "index_reserved pr' a base b0 bl"
proof -
  have shape: "ring_shape h k (length (entries pr))" using ok by (rule ring_ok_shape)
  show slot: "bh_index h ! unat ((bh_tail h + 1) AND (bh_capacity h - 1)) = a"
    using next_tail_slot [OF shape] by (simp add: next_tail_def a_def)
  show val: "be_value (entries pr ! a) = None"
    unfolding a_def by (rule ring_ok_unused [OF ok]) (use room in auto)
  have "(entries pr ! a)\<lparr>be_key := base\<rparr> = \<lparr>be_key = base, be_value = None\<rparr>"
    using val by (cases "entries pr ! a") simp
  then show "index_reserved pr' a base b0 bl"
    unfolding index_reserved_def pr'_def
    using pr ok room cap2 a_def by (auto simp: store_tail_def store_entry_def)
qed

lemma insert_block_index_entry_ok:
  assumes idx: "index_ok pr b0 bl" and b0: "slot_of b0 = 0" and small: "32 * length bl < 2 ^ 63"
  shows "\<exists>r pr' p'. insert_block_index_entry mok base pr p = Some (r, pr', p') \<and>
    heap p' = heap p \<and> (\<forall>used. pool_inv p used \<longrightarrow> pool_inv p' used) \<and> same_queue pr pr' \<and>
    (case r of None \<Rightarrow> index_ok pr' b0 bl | Some a \<Rightarrow> index_reserved pr' a base b0 bl)"
proof (cases "blockIndex pr")
  case Nil
  with idx show ?thesis
    by (auto simp: insert_block_index_entry_def current_header_def)
next
  case (Cons h hs)
  with idx obtain k where ok: "ring_ok h (entries pr) k b0 bl"
    and cap2: "nextBlockIndexCapacity pr = 2 ^ Suc k" by (auto simp: index_ok_def)
  have shape: "ring_shape h k (length (entries pr))" using ok by (rule ring_ok_shape)
  have len: "length bl \<le> 2 ^ k" using ok by (simp add: ring_ok_def)
  have cur: "current_header pr = Some h" using Cons by (simp add: current_header_def)
  show ?thesis
  proof (cases "length bl < 2 ^ k")
    case True
    note room = insert_with_room [OF Cons ok cap2 True]
    from room(1,2) cur have "insert_block_index_entry mok base pr p =
      Some (Some (ring_slot h (2 ^ k - 1)), store_tail (next_tail h)
        (store_entry (ring_slot h (2 ^ k - 1)) ((entries pr ! ring_slot h (2 ^ k - 1))\<lparr>be_key := base\<rparr>) pr), p)"
      by (simp add: insert_block_index_entry_def Let_def next_tail_def)
    with room(3) [of base] show ?thesis by simp
  next
    case False
    with len have full: "length bl = 2 ^ k" by simp
    define a where "a = ring_slot h (2 ^ k - 1)"
    have at: "bh_index h ! unat ((bh_tail h + 1) AND (bh_capacity h - 1)) = a"
      using next_tail_slot [OF shape] unfolding next_tail_def a_def .
    have "2 ^ k - 1 < length bl" using full by simp
    then have e: "entries pr ! a = ring_entry b0 bl 0"
      using ring_ok_used [OF ok, of "2 ^ k - 1"] full unfolding a_def by simp
    have key: "be_key (entries pr ! a) \<noteq> INVALID_BLOCK_BASE"
      unfolding e using b0 by (auto simp: ring_entry_def INVALID_BLOCK_BASE_def slot_of_mod)
    have val: "be_value (entries pr ! a) \<noteq> None" unfolding e by (simp add: ring_entry_def)
    show ?thesis
    proof (cases "mok (mallocs p)")
      case False
      then have "insert_block_index_entry mok base pr p = Some (None, pr, p\<lparr>mallocs := mallocs p + 1\<rparr>)"
        using cur at key val by (simp add: insert_block_index_entry_def Let_def new_block_index_def)
      with idx show ?thesis by (auto simp: pool_inv_def pool_ok_def)
    next
      case True
      define g where "g = grown_header h k (length (entries pr))"
      define b where "b = ring_slot g (2 ^ Suc k - 1)"
      define pr1 where "pr1 = pr\<lparr>blockIndex := g # h # hs, entries := entries pr @ fresh_entries (2 ^ k),
        nextBlockIndexCapacity := 2 ^ Suc (Suc k)\<rparr>"
      have "(2 :: nat) ^ k < 2 ^ 59" using small full by simp
      then have k: "k < 59" using power_strict_increasing_iff [of "2::nat" k 59] by simp
      have g: "ring_ok g (entries pr1) (Suc k) b0 bl"
        using ring_ok_grow [OF ok full k] by (simp add: pr1_def g_def)
      have bi: "blockIndex pr1 = g # h # hs" and c2: "nextBlockIndexCapacity pr1 = 2 ^ Suc (Suc k)"
        and room': "length bl < 2 ^ Suc k" using full by (simp_all add: pr1_def)
      note room = insert_with_room [OF bi g c2 room', folded b_def]
      have "(0 :: nat) < 2 ^ k" by simp
      then have "2 ^ k \<le> 2 ^ Suc k - (1 :: nat)" "2 ^ Suc k - 1 < (2 :: nat) ^ Suc k" by simp_all
      from grown_slot_new [OF shape this]
      have "entries pr1 ! b = \<lparr>be_key = INVALID_BLOCK_BASE, be_value = None\<rparr>"
        unfolding pr1_def b_def g_def by (auto intro!: fresh_entry simp del: power_Suc One_nat_def)
      then have inv: "be_key (entries pr1 ! b) = INVALID_BLOCK_BASE" by simp
      have grow: "new_block_index mok pr p = (True, pr1, p\<lparr>mallocs := mallocs p + 1\<rparr>)"
        using new_block_index_grow [OF Cons shape cap2, of mok p, OF True] unfolding pr1_def g_def .
      have cur1: "current_header pr1 = Some g" using bi by (simp add: current_header_def)
      have "insert_block_index_entry mok base pr p = Some (Some b, store_tail (next_tail g)
          (store_entry b ((entries pr1 ! b)\<lparr>be_key := base\<rparr>) pr1), p\<lparr>mallocs := mallocs p + 1\<rparr>)"
        using key val inv
        by (clarsimp simp: insert_block_index_entry_def Let_def cur cur1 at grow room(1) next_tail_def)
      moreover have "same_queue pr pr1" by (simp add: same_queue_def pr1_def)
      ultimately show ?thesis using room(3) [of base] by (auto simp: pool_inv_def pool_ok_def)
    qed
  qed
qed

end
