(* ===== verification/Cq_Subqueue.thy ===== *)
theory Cq_Subqueue
  imports Cq_Producer
begin

text \<open>
  Correctness of \<open>ImplicitProducer\<close>: from a well-formed state, \<open>enqueue\<close> appends one element
  or reports failure and changes nothing observable, and \<open>dequeue\<close> takes the oldest
  element, reporting failure exactly on an empty sub-queue. Neither reads a missing block,
  fails an \<open>assert\<close> or loops, whatever the allocation failures; indices may wrap around.
\<close>

section \<open>Completing and aborting an insertion\<close>

lemma reserved_entry:
  assumes "index_reserved pr a base b0 bl"
  shows "a < length (entries pr)" "entries pr ! a = \<lparr>be_key = base, be_value = None\<rparr>"
proof -
  from assms obtain h es k where ok: "ring_ok h es k b0 bl" and a: "a = ring_slot h (2 ^ k - 1)"
    and es: "entries pr = es[a := \<lparr>be_key = base, be_value = None\<rparr>]"
    unfolding index_reserved_def by blast
  have "a < length es" unfolding a by (rule ring_slot_less [OF ring_ok_shape [OF ok]])
  then show "a < length (entries pr)" "entries pr ! a = \<lparr>be_key = base, be_value = None\<rparr>"
    by (simp_all add: es)
qed

lemma reserved_complete:
  assumes res: "index_reserved pr a base b0 bl" and base: "base = b0 + of_nat (32 * length bl)"
  shows "index_ok (store_entry a ((entries pr ! a)\<lparr>be_value := Some b\<rparr>) pr) b0 (bl @ [b])"
proof -
  from res obtain h hs es k where pr: "blockIndex pr = h\<lparr>bh_tail := next_tail h\<rparr> # hs"
    and ok: "ring_ok h es k b0 bl" and room: "length bl < 2 ^ k"
    and cap: "nextBlockIndexCapacity pr = 2 ^ Suc k" and a: "a = ring_slot h (2 ^ k - 1)"
    and es: "entries pr = es[a := \<lparr>be_key = base, be_value = None\<rparr>]"
    unfolding index_reserved_def by blast
  have "(entries pr ! a)\<lparr>be_value := Some b\<rparr> = ring_entry b0 (bl @ [b]) (length bl)"
    using reserved_entry [OF res] base by (simp add: ring_entry_def)
  then have "entries (store_entry a ((entries pr ! a)\<lparr>be_value := Some b\<rparr>) pr)
      = es[a := ring_entry b0 (bl @ [b]) (length bl)]"
    by (simp add: store_entry_def es)
  with ring_ok_push [OF ok room, of b] show ?thesis
    unfolding index_ok_def by (auto simp: store_entry_def pr cap a)
qed

lemma reserved_abort:
  assumes res: "index_reserved pr a base b0 bl"
  shows "\<exists>pr'. rewind_block_index_tail pr = Some pr' \<and> same_queue pr pr' \<and>
    index_ok (store_entry a ((entries pr' ! a)\<lparr>be_value := None\<rparr>) pr') b0 bl"
proof -
  from res obtain h hs es k where pr: "blockIndex pr = h\<lparr>bh_tail := next_tail h\<rparr> # hs"
    and ok: "ring_ok h es k b0 bl" and room: "length bl < 2 ^ k"
    and cap: "nextBlockIndexCapacity pr = 2 ^ Suc k" and a: "a = ring_slot h (2 ^ k - 1)"
    and es: "entries pr = es[a := \<lparr>be_key = base, be_value = None\<rparr>]"
    unfolding index_reserved_def by blast
  let ?pr' = "store_tail (bh_tail h) pr"
  have rew: "rewind_block_index_tail pr = Some ?pr'"
    using rewind_tail [OF ring_ok_shape [OF ok]]
    by (simp add: rewind_block_index_tail_def current_header_def pr)
  have es': "entries ?pr' = entries pr" by (simp add: store_tail_def pr)
  have "entries (store_entry a ((entries ?pr' ! a)\<lparr>be_value := None\<rparr>) ?pr')
      = es[a := \<lparr>be_key = base, be_value = None\<rparr>]"
    using reserved_entry [OF res] by (simp add: store_entry_def es' es)
  then have "index_ok (store_entry a ((entries ?pr' ! a)\<lparr>be_value := None\<rparr>) ?pr') b0 bl"
    using ring_ok_unused_update [OF ok room, of "\<lparr>be_key = base, be_value = None\<rparr>"]
    unfolding index_ok_def by (auto simp: store_entry_def store_tail_def pr cap a)
  with rew show ?thesis by simp
qed

lemma same_queue_trans: "same_queue a b \<Longrightarrow> same_queue b c \<Longrightarrow> same_queue a c"
  by (simp add: same_queue_def)

lemma index_ok_cong:
  "blockIndex pr' = blockIndex pr \<Longrightarrow> entries pr' = entries pr \<Longrightarrow>
    nextBlockIndexCapacity pr' = nextBlockIndexCapacity pr \<Longrightarrow> index_ok pr' b0 bl = index_ok pr b0 bl"
  by (simp add: index_ok_def split: list.split)

lemma index_ok_updates [simp]:
  "index_ok (pr\<lparr>tailIndex := t\<rparr>) b0 bl = index_ok pr b0 bl"
  "index_ok (pr\<lparr>headIndex := t\<rparr>) b0 bl = index_ok pr b0 bl"
  "index_ok (pr\<lparr>dequeueOptimisticCount := t\<rparr>) b0 bl = index_ok pr b0 bl"
  "index_ok (pr\<lparr>dequeueOvercommit := t\<rparr>) b0 bl = index_ok pr b0 bl"
  "index_ok (pr\<lparr>tailBlock := tb\<rparr>) b0 bl = index_ok pr b0 bl"
  by (rule index_ok_cong; simp)+

section \<open>The invariant of a sub-queue\<close>

text \<open>
  \<open>xs\<close> are the elements from the oldest to the newest, \<open>bl\<close> the blocks that hold them. The
  head index may stand inside the first block; the elements before it have been taken.
  \<open>queue_core\<close> leaves open whether the last block is in use yet.
\<close>

definition block_holds :: "(nat \<rightharpoonup> 'a block) \<Rightarrow> nat \<Rightarrow> nat \<Rightarrow> bool" where
  "block_holds hp b taken \<longleftrightarrow>
     (\<exists>x. hp b = Some x \<and> elementsCompletelyDequeued x = of_nat taken)"

definition taken :: "u64 \<Rightarrow> nat \<Rightarrow> nat" where
  "taken head j = (if j = 0 then slot_of head else 0)"

definition element_at :: "(nat \<rightharpoonup> 'a block) \<Rightarrow> nat list \<Rightarrow> nat \<Rightarrow> 'a \<Rightarrow> bool" where
  "element_at hp bl i v \<longleftrightarrow> (\<exists>x. hp (bl ! (i div 32)) = Some x \<and> elements x ! (i mod 32) = Some v)"

definition queue_core :: "(nat \<rightharpoonup> 'a block) \<Rightarrow> producer \<Rightarrow> nat list \<Rightarrow> 'a list \<Rightarrow> bool" where
  "queue_core hp pr bl xs \<longleftrightarrow>
     tailIndex pr = headIndex pr + of_nat (length xs) \<and>
     dequeueOptimisticCount pr - dequeueOvercommit pr = headIndex pr \<and>
     slot_of (headIndex pr) + length xs \<le> 32 * length bl \<and>
     32 * length bl < 2 ^ 63 + slot_of (headIndex pr) \<and>
     index_ok pr (base_of (headIndex pr)) bl \<and> distinct bl \<and>
     (\<forall>j < length bl. block_holds hp (bl ! j) (taken (headIndex pr) j)) \<and>
     (\<forall>i < length xs. element_at hp bl (slot_of (headIndex pr) + i) (xs ! i)) \<and>
     (bl \<noteq> [] \<longrightarrow> tailBlock pr = Some (last bl))"

definition queue_ok :: "(nat \<rightharpoonup> 'a block) \<Rightarrow> producer \<Rightarrow> nat list \<Rightarrow> 'a list \<Rightarrow> bool" where
  "queue_ok hp pr bl xs \<longleftrightarrow>
     queue_core hp pr bl xs \<and> 32 * length bl < slot_of (headIndex pr) + length xs + 32"

lemma queue_core_cong:
  assumes q: "queue_core hp pr bl xs" and "\<forall>b \<in> set bl. hp' b = hp b"
  shows "queue_core hp' pr bl xs"
proof -
  have "(slot_of (headIndex pr) + i) div 32 < length bl" if "i < length xs" for i
    using q that by (auto simp: queue_core_def intro!: less_mult_imp_div_less)
  with assms show ?thesis by (simp add: queue_core_def block_holds_def element_at_def)
qed

lemma queue_ok_cong:
  "queue_ok hp pr bl xs \<Longrightarrow> \<forall>b \<in> set bl. hp' b = hp b \<Longrightarrow> queue_ok hp' pr bl xs"
  by (auto simp: queue_ok_def intro: queue_core_cong)

lemma queue_core_same:
  assumes "queue_core hp pr bl xs" "same_queue pr pr'" "index_ok pr' (base_of (headIndex pr)) bl"
  shows "queue_core hp pr' bl xs"
  using assms by (simp add: queue_core_def same_queue_def)

lemma slot_of_base [simp]: "slot_of (base_of i) = 0"
proof -
  have "(i AND NOT 31) AND 31 = 0" by (rule bit_word_eqI) (auto simp: bit_simps)
  then show ?thesis by (simp add: slot_of_def base_of_def)
qed

lemma queue_index: "i + of_nat n = base_of i + of_nat (slot_of i + n)"
proof -
  have "i + of_nat n = base_of i + of_nat (slot_of i) + of_nat n" by (simp only: base_plus_slot)
  then show ?thesis by (simp add: add.assoc)
qed

lemma queue_length:
  assumes "queue_core hp pr bl xs"
  shows "length xs < 2 ^ 63" "slot_of (tailIndex pr) = (slot_of (headIndex pr) + length xs) mod 32"
    "unat (tailIndex pr - headIndex pr) = length xs"
  using assms by (auto simp: queue_core_def slot_of_add intro: unat_of_nat_u64)

section \<open>Enqueue\<close>

lemma last_block_index: "a < 32 * m \<Longrightarrow> 32 * m < a + 33 \<Longrightarrow> a div 32 = m - (1 :: nat)"
  by (rule div_nat_eqI) auto

lemma put_at:
  assumes q: "queue_core (heap p) pr bl xs" and inv: "pool_inv p used" and sub: "set bl \<subseteq> used"
    and room: "slot_of (headIndex pr) + length xs < 32 * length bl"
    and b: "b = bl ! ((slot_of (headIndex pr) + length xs) div 32)"
  shows "\<exists>p'. put_element b (tailIndex pr) v p = Some p' \<and> pool_inv p' used \<and>
    queue_core (heap p') (pr\<lparr>tailIndex := 1 + tailIndex pr\<rparr>) bl (xs @ [v]) \<and>
    (\<forall>a. a \<noteq> b \<longrightarrow> heap p' a = heap p a) \<and> (\<forall>a. map_option next_block (heap p' a) = map_option next_block (heap p a))"
proof -
  let ?h = "slot_of (headIndex pr)" and ?n = "length xs"
  let ?m = "(?h + ?n) div 32"
  have m: "?m < length bl" using room by (intro less_mult_imp_div_less) simp
  then have bu: "b \<in> used" unfolding b using sub by auto
  from inv obtain fl where ok: "pool_ok p used fl" by (auto simp: pool_inv_def)
  from pool_ok_used [OF ok bu] obtain x where x: "heap p b = Some x" "freeListRefs x = 0"
    "length (elements x) = 32" .
  let ?x = "x\<lparr>elements := (elements x)[slot_of (tailIndex pr) := Some v]\<rparr>"
  let ?p = "put_block b ?x p"
  have slot: "slot_of (tailIndex pr) = (?h + ?n) mod 32" by (rule queue_length(2) [OF q])
  have "element_at (heap ?p) bl (?h + i) ((xs @ [v]) ! i)" if "i < Suc ?n" for i
  proof (cases "i = ?n")
    case True
    then show ?thesis using x(3) by (simp add: element_at_def b slot)
  next
    case False
    then have i: "i < ?n" using that by simp
    then have "element_at (heap p) bl (?h + i) (xs ! i)" using q by (simp add: queue_core_def)
    moreover have "(?h + i) mod 32 \<noteq> (?h + ?n) mod 32" if "(?h + i) div 32 = ?m"
      using that i by (metis add_left_cancel div_mult_mod_eq less_irrefl)
    moreover have "(?h + i) div 32 = ?m" if "bl ! ((?h + i) div 32) = b"
    proof -
      have "(?h + i) div 32 < length bl" using i room by (intro less_mult_imp_div_less) simp
      moreover have "distinct bl" using q by (simp add: queue_core_def)
      ultimately show ?thesis using that m unfolding b by (subst (asm) nth_eq_iff_index_eq) auto
    qed
    ultimately show ?thesis
      using i x by (auto simp: element_at_def nth_append slot)
  qed
  moreover have "block_holds (heap ?p) b' t" if "block_holds (heap p) b' t" for b' t
    using that x(1) by (auto simp: block_holds_def)
  moreover have "1 + tailIndex pr = headIndex pr + of_nat (Suc ?n)"
    using q by (simp add: queue_core_def algebra_simps)
  ultimately have "queue_core (heap ?p) (pr\<lparr>tailIndex := 1 + tailIndex pr\<rparr>) bl (xs @ [v])"
    using q room by (simp add: queue_core_def)
  moreover have "pool_inv ?p used"
    using pool_ok_put_block [OF ok bu, of ?x] x by (auto simp: pool_inv_def)
  ultimately show ?thesis using x by (simp add: put_element_def)
qed

lemma put_ok:
  assumes q: "queue_core (heap p) pr bl xs" and inv: "pool_inv p used" and sub: "set bl \<subseteq> used"
    and last_block: "32 * length bl < slot_of (headIndex pr) + length xs + 33"
    and room: "slot_of (headIndex pr) + length xs < 32 * length bl"
  shows "\<exists>p'. put_element (last bl) (tailIndex pr) v p = Some p' \<and> pool_inv p' used \<and>
    queue_ok (heap p') (pr\<lparr>tailIndex := 1 + tailIndex pr\<rparr>) bl (xs @ [v]) \<and>
    (\<forall>a. a \<noteq> last bl \<longrightarrow> heap p' a = heap p a)"
proof -
  have "(slot_of (headIndex pr) + length xs) div 32 = length bl - 1"
    using room last_block by (intro last_block_index) simp_all
  moreover have "bl \<noteq> []" using room by auto
  ultimately have "last bl = bl ! ((slot_of (headIndex pr) + length xs) div 32)" by (simp add: last_conv_nth)
  from put_at [OF q inv sub room this, of v] show ?thesis using last_block by (auto simp: queue_ok_def)
qed

text \<open>Starting a block, with the two limits the code checks and both allocations.\<close>

lemma queue_core_add_block:
  assumes q: "queue_core hp pr bl xs" and idx: "index_ok pr' (base_of (headIndex pr)) (bl @ [b])"
    and same: "same_queue pr pr'" and b: "b \<notin> set bl" and x: "block_holds hp b 0"
    and size: "32 * length bl + 32 < 2 ^ 63 + slot_of (headIndex pr)"
  shows "queue_core hp (pr'\<lparr>tailBlock := Some b\<rparr>) (bl @ [b]) xs"
proof -
  have n: "slot_of (headIndex pr) + length xs \<le> 32 * length bl" using q by (simp add: queue_core_def)
  have "block_holds hp ((bl @ [b]) ! j) (taken (headIndex pr) j)" if "j < Suc (length bl)" for j
  proof (cases "j = length bl")
    case True
    moreover have "slot_of (headIndex pr) = 0" if "bl = []" using n that by simp
    ultimately show ?thesis using x by (auto simp: taken_def)
  next
    case False
    with that show ?thesis using q by (simp add: nth_append queue_core_def)
  qed
  moreover have "element_at hp (bl @ [b]) (slot_of (headIndex pr) + i) (xs ! i)" if "i < length xs" for i
  proof -
    have "(slot_of (headIndex pr) + i) div 32 < length bl"
      using that n by (auto intro!: less_mult_imp_div_less)
    then show ?thesis
      using q that by (simp add: element_at_def nth_append queue_core_def)
  qed
  ultimately show ?thesis
    using q idx same b size by (simp add: queue_core_def same_queue_def)
qed

lemma queue_full:
  assumes q: "queue_core hp pr bl xs" and "32 * length bl < slot_of (headIndex pr) + length xs + 32"
    and "tailIndex pr AND (BLOCK_SIZE - 1) = 0"
  shows "slot_of (headIndex pr) + length xs = 32 * length bl"
proof -
  have "(slot_of (headIndex pr) + length xs) mod 32 = 0"
    using assms(3) queue_length(2) [OF q] by (simp add: BLOCK_SIZE_def slot_of_0_iff)
  then obtain c where "slot_of (headIndex pr) + length xs = 32 * c" by (auto simp: mod_eq_0_iff_dvd)
  with assms(1,2) show ?thesis by (auto simp: queue_core_def)
qed

lemma reset_block:
  assumes inv: "pool_inv p used" and b: "b \<in> used"
  shows "\<exists>p'. reset_empty b p = Some p' \<and> pool_inv p' used \<and> block_holds (heap p') b 0 \<and>
    (\<forall>a. a \<noteq> b \<longrightarrow> heap p' a = heap p a)"
proof -
  from inv obtain fl where ok: "pool_ok p used fl" by (auto simp: pool_inv_def)
  from pool_ok_used [OF ok b] obtain x where x: "heap p b = Some x" "freeListRefs x = 0"
    "length (elements x) = 32" .
  have "pool_inv (put_block b (x\<lparr>elementsCompletelyDequeued := 0\<rparr>) p) used"
    using pool_ok_put_block [OF ok b, of "x\<lparr>elementsCompletelyDequeued := 0\<rparr>"] x
    by (auto simp: pool_inv_def)
  with x show ?thesis by (simp add: reset_empty_def block_holds_def)
qed

lemma queue_room:
  assumes core: "queue_core hp pr bl xs"
  shows "circular_less_than (headIndex pr) (tailIndex pr + BLOCK_SIZE) \<longleftrightarrow> length xs + 32 < 2 ^ 63"
proof -
  have tail: "tailIndex pr = headIndex pr + of_nat (length xs)" using core by (simp add: queue_core_def)
  have "unat (tailIndex pr + BLOCK_SIZE - headIndex pr) = length xs + 32"
    using queue_length(1) [OF core] unat_of_nat_u64 [of "length xs + 32"] by (simp add: tail BLOCK_SIZE_def)
  moreover have "headIndex pr \<noteq> tailIndex pr + BLOCK_SIZE"
    using calculation by (metis add_is_0 diff_self unsigned_0 zero_neq_numeral)
  ultimately show ?thesis
    by (auto simp: circular_less_than_unat unat_minus_swap [of "headIndex pr" "tailIndex pr + BLOCK_SIZE"])
qed

text \<open>The index of the first slot behind the blocks.\<close>

definition end_index :: "producer \<Rightarrow> nat list \<Rightarrow> u64" where
  "end_index pr bl = base_of (headIndex pr) + of_nat (32 * length bl)"

lemma end_index_limits:
  assumes core: "queue_core hp pr bl xs"
  shows "\<not> circular_less_than (end_index pr bl) (headIndex pr)"
    "circular_less_than (headIndex pr) (end_index pr bl + BLOCK_SIZE) \<longleftrightarrow> 32 * length bl + 32 < 2 ^ 63 + slot_of (headIndex pr)"
proof -
  let ?h = "slot_of (headIndex pr)" and ?d = "32 * length bl"
  have le: "?h \<le> ?d" and lim: "?d < 2 ^ 63 + ?h" using core by (simp_all add: queue_core_def)
  have diff: "end_index pr bl + of_nat k - headIndex pr = of_nat (?d + k - ?h)" for k
  proof -
    have "end_index pr bl + of_nat k - headIndex pr = of_nat ?d + of_nat k - of_nat ?h"
      by (simp add: end_index_def base_of_eq)
    also have "\<dots> = of_nat (?d + k - ?h)" using le by (simp add: of_nat_diff)
    finally show ?thesis .
  qed
  have "unat (end_index pr bl - headIndex pr) = ?d - ?h"
    using diff [of 0] lim by (simp add: unat_of_nat_u64 del: of_nat_mult of_nat_diff)
  then show "\<not> circular_less_than (end_index pr bl) (headIndex pr)"
    using lim by (simp add: circular_less_than_unat)
  have u: "unat (end_index pr bl + BLOCK_SIZE - headIndex pr) = ?d + 32 - ?h"
    using diff [of 32] lim slot_of_less [of "headIndex pr"]
    by (simp add: BLOCK_SIZE_def unat_of_nat_u64 del: of_nat_mult of_nat_diff of_nat_add)
  then have "headIndex pr \<noteq> end_index pr bl + BLOCK_SIZE" using le by auto
  with u show "circular_less_than (headIndex pr) (end_index pr bl + BLOCK_SIZE) \<longleftrightarrow> ?d + 32 < 2 ^ 63 + ?h"
    using le by (auto simp: circular_less_than_unat unat_minus_swap [of "headIndex pr" "end_index pr bl + BLOCK_SIZE"])
qed

lemma start_block_at:
  assumes core: "queue_core (heap p) pr bl xs" and inv: "pool_inv p used" and sub: "set bl \<subseteq> used"
  shows "\<exists>ok pr' p'. start_block mok (end_index pr bl) pr p = Some (ok, pr', p') \<and> same_queue pr (pr'\<lparr>tailBlock := tailBlock pr\<rparr>) \<and>
    (\<forall>a \<in> used. heap p' a = heap p a) \<and>
    (if ok then \<exists>b. b \<notin> used \<and> pool_inv p' (insert b used) \<and> queue_core (heap p') pr' (bl @ [b]) xs
     else pool_inv p' used \<and> queue_core (heap p') pr' bl xs \<and> tailBlock pr' = tailBlock pr)"
proof -
  let ?cur = "end_index pr bl"
  note limit = end_index_limits [OF core]
  show ?thesis
  proof (cases "32 * length bl + 32 < 2 ^ 63 + slot_of (headIndex pr)")
    case False
    with limit have "start_block mok ?cur pr p = Some (False, pr, p)"
      by (simp add: start_block_def Let_def)
    with core inv show ?thesis by (simp add: same_queue_def ex_bool_eq)
  next
    case True
    have idx: "index_ok pr (base_of (headIndex pr)) bl" using core by (simp add: queue_core_def)
    have small: "32 * length bl < 2 ^ 63" using True slot_of_less [of "headIndex pr"] by linarith
    from insert_block_index_entry_ok [OF idx _ small, of mok ?cur p]
    obtain r pr1 p1 where ins: "insert_block_index_entry mok ?cur pr p = Some (r, pr1, p1)"
      and heap1: "heap p1 = heap p" and inv1: "pool_inv p1 used" and same1: "same_queue pr pr1"
      and r: "case r of None \<Rightarrow> index_ok pr1 (base_of (headIndex pr)) bl
        | Some a \<Rightarrow> index_reserved pr1 a ?cur (base_of (headIndex pr)) bl"
      using inv by auto
    have go: "start_block mok ?cur pr p = (case r of
          None \<Rightarrow> Some (False, pr1, p1)
        | Some a \<Rightarrow> do {
            (newBlock, p) \<leftarrow> requisition_block mok p1;
            case newBlock of
              None \<Rightarrow> do {
                pr \<leftarrow> rewind_block_index_tail pr1;
                Some (False, store_entry a ((entries pr ! a)\<lparr>be_value := None\<rparr>) pr, p) }
            | Some b \<Rightarrow> do {
                p \<leftarrow> reset_empty b p;
                Some (True, store_entry a ((entries pr1 ! a)\<lparr>be_value := Some b\<rparr>) pr1
                  \<lparr>tailBlock := Some b\<rparr>, p) } })"
      using limit True ins by (simp add: start_block_def Let_def MAX_SUBQUEUE_SIZE_def)
    have keep: "queue_core (heap p') pr' bl xs"
      if "same_queue pr pr'" "index_ok pr' (base_of (headIndex pr)) bl" "\<forall>a \<in> used. heap p' a = heap p a" for pr' p'
      by (rule queue_core_cong [OF queue_core_same [OF core that(1,2)]]) (use that(3) sub in auto)
    show ?thesis
    proof (cases r)
      case None
      with r keep [of pr1 p1] same1 heap1 inv1 show ?thesis
        unfolding go by (auto simp: same_queue_def)
    next
      case (Some a)
      with r have res: "index_reserved pr1 a ?cur (base_of (headIndex pr)) bl" by simp
      from inv1 show ?thesis
      proof (cases rule: pool.alloc_cases [of p1 used mok])
        case (none p2)
        from reserved_abort [OF res] obtain pr2 where rew: "rewind_block_index_tail pr1 = Some pr2"
          and same2: "same_queue pr1 pr2"
          and idx2: "index_ok (store_entry a ((entries pr2 ! a)\<lparr>be_value := None\<rparr>) pr2) (base_of (headIndex pr)) bl"
          by blast
        let ?pr = "store_entry a ((entries pr2 ! a)\<lparr>be_value := None\<rparr>) pr2"
        have same: "same_queue pr ?pr" using same_queue_trans [OF same1 same2] by simp
        have run: "start_block mok ?cur pr p = Some (False, ?pr, p2)"
          by (simp add: go Some none rew)
        have hp: "\<forall>a \<in> used. heap p2 a = heap p a" using none heap1 by simp
        from same have "same_queue pr (?pr\<lparr>tailBlock := tailBlock pr\<rparr>)" "tailBlock ?pr = tailBlock pr"
          by (simp_all add: same_queue_def)
        with run hp none(2) keep [OF same idx2 hp] show ?thesis by auto
      next
        case (some b p2)
        from reset_block [OF some(3), of b] obtain p3 where p3: "reset_empty b p2 = Some p3"
          "pool_inv p3 (insert b used)" "block_holds (heap p3) b 0" "\<forall>a. a \<noteq> b \<longrightarrow> heap p3 a = heap p2 a"
          by blast
        let ?pr = "store_entry a ((entries pr1 ! a)\<lparr>be_value := Some b\<rparr>) pr1"
        have run: "start_block mok ?cur pr p = Some (True, ?pr\<lparr>tailBlock := Some b\<rparr>, p3)"
          by (simp add: go Some some p3)
        have hp: "\<forall>a \<in> used. heap p3 a = heap p a" using some p3 heap1 by metis
        have same: "same_queue pr ?pr" using same1 by simp
        have "queue_core (heap p3) pr bl xs" by (rule queue_core_cong [OF core]) (use hp sub in auto)
        then have "queue_core (heap p3) (?pr\<lparr>tailBlock := Some b\<rparr>) (bl @ [b]) xs"
          by (rule queue_core_add_block [OF _ reserved_complete [OF res end_index_def] same _ p3(3) True])
            (use some(2) sub in auto)
        moreover from same have "same_queue pr (?pr\<lparr>tailBlock := tailBlock pr\<rparr>)"
          by (simp add: same_queue_def)
        ultimately show ?thesis using run hp p3(2) some(2) by auto
      qed
    qed
  qed
qed

lemma start_block_ok:
  assumes q: "queue_ok (heap p) pr bl xs" and inv: "pool_inv p used" and sub: "set bl \<subseteq> used"
    and at: "tailIndex pr AND (BLOCK_SIZE - 1) = 0"
  shows "\<exists>ok pr' p'. start_block mok (tailIndex pr) pr p = Some (ok, pr', p') \<and> same_queue pr (pr'\<lparr>tailBlock := tailBlock pr\<rparr>) \<and>
    (\<forall>a \<in> used. heap p' a = heap p a) \<and>
    (if ok then \<exists>b. b \<notin> used \<and> pool_inv p' (insert b used) \<and> queue_core (heap p') pr' (bl @ [b]) xs
     else pool_inv p' used \<and> queue_ok (heap p') pr' bl xs)"
proof -
  have core: "queue_core (heap p) pr bl xs" and last_block: "32 * length bl < slot_of (headIndex pr) + length xs + 32"
    using q by (simp_all add: queue_ok_def)
  have "tailIndex pr = headIndex pr + of_nat (length xs)" using core by (simp add: queue_core_def)
  then have cur: "tailIndex pr = end_index pr bl"
    using queue_full [OF core last_block at] queue_index [of "headIndex pr" "length xs"] by (simp add: end_index_def)
  from start_block_at [OF core inv sub, of mok] obtain ok pr' p' where
    "start_block mok (tailIndex pr) pr p = Some (ok, pr', p')" "same_queue pr (pr'\<lparr>tailBlock := tailBlock pr\<rparr>)"
    "\<forall>a \<in> used. heap p' a = heap p a"
    "if ok then \<exists>b. b \<notin> used \<and> pool_inv p' (insert b used) \<and> queue_core (heap p') pr' (bl @ [b]) xs
     else pool_inv p' used \<and> queue_core (heap p') pr' bl xs \<and> tailBlock pr' = tailBlock pr" unfolding cur by blast
  moreover from this(2) have "headIndex pr' = headIndex pr" by (simp add: same_queue_def)
  ultimately show ?thesis using last_block by (auto simp: queue_ok_def split: if_splits)
qed

text \<open>
  \<open>others\<close> are the blocks of the other sub-queues. The invariant of one sub-queue keeps its
  blocks disjoint from them, and its operations do not write to them.
\<close>

definition subqueue :: "nat set \<Rightarrow> producer \<Rightarrow> 'a pool \<Rightarrow> nat list \<Rightarrow> 'a list \<Rightarrow> bool" where
  "subqueue others pr p bl xs \<longleftrightarrow>
     queue_ok (heap p) pr bl xs \<and> set bl \<inter> others = {} \<and> pool_inv p (others \<union> set bl)"

lemma producer_enqueue_ok:
  assumes s: "subqueue others pr p bl xs"
  shows "\<exists>ok pr' p' bl'. producer_enqueue mok v pr p = Some (ok, pr', p') \<and>
    subqueue others pr' p' bl' (if ok then xs @ [v] else xs) \<and> (\<forall>a \<in> others. heap p' a = heap p a) \<and>
    inactive pr' = inactive pr"
proof -
  let ?used = "others \<union> set bl"
  have q: "queue_ok (heap p) pr bl xs" and core: "queue_core (heap p) pr bl xs"
    and inv: "pool_inv p ?used" and dis: "set bl \<inter> others = {}"
    using s by (auto simp: subqueue_def queue_ok_def)
  show ?thesis
  proof (cases "tailIndex pr AND (BLOCK_SIZE - 1) = 0")
    case True
    from start_block_ok [OF q inv _ True, of mok] obtain ok pr1 p1
      where st: "start_block mok (tailIndex pr) pr p = Some (ok, pr1, p1)"
      and same: "same_queue pr (pr1\<lparr>tailBlock := tailBlock pr\<rparr>)" and hp: "\<forall>a \<in> ?used. heap p1 a = heap p a"
      and res: "if ok then \<exists>b. b \<notin> ?used \<and> pool_inv p1 (insert b ?used) \<and> queue_core (heap p1) pr1 (bl @ [b]) xs
        else pool_inv p1 ?used \<and> queue_ok (heap p1) pr1 bl xs" by auto
    show ?thesis
    proof (cases ok)
      case False
      with st True have "producer_enqueue mok v pr p = Some (False, pr1, p1)"
        by (simp add: producer_enqueue_def Let_def)
      moreover have "inactive pr1 = inactive pr" using same by (simp add: same_queue_def)
      ultimately show ?thesis using res False hp dis by (auto simp: subqueue_def ex_bool_eq)
    next
      case ok: True
      with res obtain b where b: "b \<notin> ?used" "pool_inv p1 (insert b ?used)"
        and core1: "queue_core (heap p1) pr1 (bl @ [b]) xs" by auto
      have heads: "headIndex pr1 = headIndex pr" "tailIndex pr1 = tailIndex pr" "inactive pr1 = inactive pr"
        using same by (simp_all add: same_queue_def)
      have full: "slot_of (headIndex pr) + length xs = 32 * length bl"
        using queue_full [OF core _ True] q by (simp add: queue_ok_def)
      from put_ok [OF core1 b(2), of v] full obtain p2 where p2:
        "put_element b (tailIndex pr1) v p1 = Some p2" "pool_inv p2 (insert b ?used)"
        "queue_ok (heap p2) (pr1\<lparr>tailIndex := 1 + tailIndex pr1\<rparr>) (bl @ [b]) (xs @ [v])"
        "\<forall>a. a \<noteq> b \<longrightarrow> heap p2 a = heap p1 a" by (auto simp: heads)
      have "tailBlock pr1 = Some b" using core1 by (simp add: queue_core_def)
      with st True ok p2(1) have run: "producer_enqueue mok v pr p
          = Some (True, pr1\<lparr>tailIndex := 1 + tailIndex pr\<rparr>, p2)"
        by (simp add: producer_enqueue_def Let_def heads)
      have "subqueue others (pr1\<lparr>tailIndex := 1 + tailIndex pr\<rparr>) p2 (bl @ [b]) (xs @ [v])"
        using p2(2,3) b(1) dis by (auto simp: subqueue_def heads)
      moreover have "\<forall>a \<in> others. heap p2 a = heap p a" using p2(4) hp b(1) by auto
      ultimately show ?thesis using run heads(3)
        by (intro exI [of _ True] exI [of _ "pr1\<lparr>tailIndex := 1 + tailIndex pr\<rparr>"]) auto
    qed
  next
    case False
    have mod: "(slot_of (headIndex pr) + length xs) mod 32 \<noteq> 0"
      using False queue_length(2) [OF core] by (simp add: BLOCK_SIZE_def slot_of_0_iff)
    have "slot_of (headIndex pr) + length xs \<noteq> 32 * length bl" using mod by (metis mod_mult_self1_is_0)
    with core have room: "slot_of (headIndex pr) + length xs < 32 * length bl"
      by (simp add: queue_core_def)
    from room have ne: "bl \<noteq> []" by auto
    from put_ok [OF core inv _ _ room, of v] q obtain p2 where p2:
      "put_element (last bl) (tailIndex pr) v p = Some p2" "pool_inv p2 ?used"
      "queue_ok (heap p2) (pr\<lparr>tailIndex := 1 + tailIndex pr\<rparr>) bl (xs @ [v])"
      "\<forall>a. a \<noteq> last bl \<longrightarrow> heap p2 a = heap p a" by (auto simp: queue_ok_def)
    have "tailBlock pr = Some (last bl)" using core ne by (simp add: queue_core_def)
    with False p2(1) have run: "producer_enqueue mok v pr p
        = Some (True, pr\<lparr>tailIndex := 1 + tailIndex pr\<rparr>, p2)"
      by (simp add: producer_enqueue_def Let_def)
    moreover have "subqueue others (pr\<lparr>tailIndex := 1 + tailIndex pr\<rparr>) p2 bl (xs @ [v])"
      using p2(2,3) dis by (simp add: subqueue_def)
    moreover have "\<forall>a \<in> others. heap p2 a = heap p a"
      using p2(4) dis last_in_set [OF ne] by (metis disjoint_iff)
    ultimately show ?thesis by (auto simp: ex_bool_eq)
  qed
qed

section \<open>Dequeue\<close>

lemma take_ok:
  assumes q: "queue_core (heap p) pr (b # bl) (v # ys)" and inv: "pool_inv p used"
    and sub: "set (b # bl) \<subseteq> used"
  shows "\<exists>p1 p2. take_element b (headIndex pr) p = Some (v, p1) \<and>
    set_empty b p1 = Some (slot_of (headIndex pr) = 31, p2) \<and> pool_inv p2 used \<and>
    (\<forall>a. a \<noteq> b \<longrightarrow> heap p2 a = heap p a) \<and> block_holds (heap p2) b (slot_of (headIndex pr) + 1) \<and>
    (\<forall>i < length ys. element_at (heap p2) (b # bl) (slot_of (headIndex pr) + Suc i) (ys ! i))"
proof -
  let ?h = "slot_of (headIndex pr)"
  from inv obtain fl where ok: "pool_ok p used fl" by (auto simp: pool_inv_def)
  from pool_ok_used [OF ok, of b] sub obtain x where x: "heap p b = Some x" "freeListRefs x = 0"
    "length (elements x) = 32" by auto
  have hold: "elementsCompletelyDequeued x = of_nat ?h"
    using q x(1) by (auto simp: queue_core_def block_holds_def taken_def)
  have "element_at (heap p) (b # bl) (?h + 0) ((v # ys) ! 0)"
    using q unfolding queue_core_def by (metis length_greater_0_conv list.distinct(1))
  then have v: "elements x ! ?h = Some v" using x(1) by (simp add: element_at_def)
  let ?x1 = "x\<lparr>elements := (elements x)[?h := None]\<rparr>"
  let ?x2 = "?x1\<lparr>elementsCompletelyDequeued := of_nat ?h + 1\<rparr>"
  let ?p1 = "put_block b ?x1 p" and ?p2 = "put_block b ?x2 (put_block b ?x1 p)"
  have less: "(of_nat ?h :: u64) < 32" and eq: "(of_nat ?h :: u64) = 31 \<longleftrightarrow> ?h = 31"
    using unat_of_nat_u64 [of ?h] slot_of_less [of "headIndex pr"]
    by (simp_all add: word_less_nat_alt word_unat_eq_iff)
  have t: "take_element b (headIndex pr) p = Some (v, ?p1)"
    using x v by (simp add: take_element_def)
  have e: "set_empty b ?p1 = Some (?h = 31, ?p2)"
    using less eq by (simp add: set_empty_def BLOCK_SIZE_def hold Let_def)
  have "pool_ok ?p2 used fl"
    using ok x sub by (intro pool_ok_put_block) simp_all
  then have inv2: "pool_inv ?p2 used" by (auto simp: pool_inv_def)
  have "element_at (heap ?p2) (b # bl) (?h + Suc i) (ys ! i)" if i: "i < length ys" for i
  proof -
    have "element_at (heap p) (b # bl) (?h + Suc i) ((v # ys) ! Suc i)"
      using q i unfolding queue_core_def by (metis Suc_less_eq length_Cons)
    moreover have "(?h + Suc i) mod 32 \<noteq> ?h" if "(?h + Suc i) div 32 = 0"
      using that by (simp add: div_eq_0_iff)
    moreover have "b \<notin> set bl" using q by (simp add: queue_core_def)
    moreover have "(?h + Suc i) div 32 < length (b # bl)"
      using q i by (auto simp: queue_core_def intro!: less_mult_imp_div_less)
    ultimately show ?thesis
      using x by (cases "(?h + Suc i) div 32") (auto simp: element_at_def nth_list_update dest: nth_mem)
  qed
  with t e inv2 show ?thesis by (auto simp: block_holds_def)
qed

lemma index_ok_pop:
  assumes idx: "index_ok pr b0 (b # bl)" and cur: "current_header pr = Some h"
  shows "index_ok (store_entry (ring_slot h (length bl)) ((entries pr ! ring_slot h (length bl))\<lparr>be_value := None\<rparr>) pr)
    (b0 + 32) bl"
proof -
  from idx cur obtain hs k where "blockIndex pr = h # hs" and ok: "ring_ok h (entries pr) k b0 (b # bl)"
    and "nextBlockIndexCapacity pr = 2 ^ Suc k"
    by (auto simp: index_ok_def current_header_def split: list.splits)
  with ring_ok_pop [OF ok] show ?thesis by (auto simp: index_ok_def store_entry_def)
qed

lemma index_lookup:
  assumes idx: "index_ok pr b0 (b # bl)" and b0: "slot_of b0 = 0" and r: "r < 32"
    and small: "32 * length (b # bl) \<le> 2 ^ 63 + 32"
  shows "\<exists>h. current_header pr = Some h \<and>
    get_block_index_entry_for_index (b0 + of_nat r) pr = Some (ring_slot h (length bl)) \<and>
    be_value (entries pr ! ring_slot h (length bl)) = Some b"
proof -
  from idx obtain h hs k where bi: "blockIndex pr = h # hs" and ok: "ring_ok h (entries pr) k b0 (b # bl)"
    by (auto simp: index_ok_def split: list.splits)
  then have cur: "current_header pr = Some h" by (simp add: current_header_def)
  have "get_block_index_entry_for_index (b0 + of_nat (32 * 0 + r)) pr = Some (ring_slot h (length (b # bl) - 1 - 0))"
    by (rule ring_lookup [OF cur ok b0 _ r small]) simp
  moreover have "be_value (entries pr ! ring_slot h (length bl)) = Some b"
    using ring_ok_used [OF ok, of "length bl"] by (simp add: ring_entry_def)
  ultimately show ?thesis using cur by simp
qed

lemma lookup_updates [simp]:
  "get_block_index_entry_for_index i (pr\<lparr>dequeueOptimisticCount := c, headIndex := t\<rparr>)
    = get_block_index_entry_for_index i pr"
proof -
  have "current_header (pr\<lparr>dequeueOptimisticCount := c, headIndex := t\<rparr>) = current_header pr"
    by (simp add: current_header_def)
  then show ?thesis
    by (cases "current_header pr")
      (simp_all add: get_block_index_entry_for_index_def get_block_index_index_for_index_def Let_def)
qed

lemma queue_non_empty:
  assumes "queue_core hp pr bl (v # ys)"
  obtains b cl where "bl = b # cl"
  using assms by (cases bl) (auto simp: queue_core_def)

lemma dequeue_tests:
  assumes q: "queue_core hp pr bl xs"
  shows "circular_less_than (dequeueOptimisticCount pr - dequeueOvercommit pr) (tailIndex pr) \<longleftrightarrow> xs \<noteq> []"
proof -
  have "unat (tailIndex pr - headIndex pr) = length xs" "length xs < 2 ^ 63"
    using queue_length [OF q] by simp_all
  moreover have "dequeueOptimisticCount pr - dequeueOvercommit pr = headIndex pr"
    using q by (simp add: queue_core_def)
  moreover have "headIndex pr = tailIndex pr \<longleftrightarrow> xs = []"
    using calculation(1) by auto (use q in \<open>simp add: queue_core_def\<close>)
  ultimately show ?thesis by (simp add: circular_less_than_iff)
qed

text \<open>The state after an element is taken, with and without giving its block back.\<close>

lemma queue_after_pop:
  assumes q: "queue_ok (heap p) pr (b # cl) (v # ys)" and h: "slot_of (headIndex pr) = 31"
    and idx: "index_ok pr' (base_of (headIndex pr) + 32) cl"
    and pr': "headIndex pr' = headIndex pr + 1" "tailIndex pr' = tailIndex pr"
      "dequeueOptimisticCount pr' = dequeueOptimisticCount pr + 1"
      "dequeueOvercommit pr' = dequeueOvercommit pr" "tailBlock pr' = tailBlock pr"
    and els: "\<forall>i < length ys. element_at hp (b # cl) (slot_of (headIndex pr) + Suc i) (ys ! i)"
    and hp: "\<forall>a \<in> set cl. hp a = heap p a"
  shows "queue_ok hp pr' cl ys"
proof -
  have s: "slot_of (headIndex pr + 1) = 0" and base: "base_of (headIndex pr + 1) = base_of (headIndex pr) + 32"
    using slot_of_add [of "headIndex pr" 1] base_of_add [of "headIndex pr" 1] h by simp_all
  have "element_at hp cl i (ys ! i)" if "i < length ys" for i
  proof -
    have "element_at hp (b # cl) (slot_of (headIndex pr) + Suc i) (ys ! i)" using els that by blast
    then have "element_at hp (b # cl) (i + 32) (ys ! i)" using h by (simp add: add.commute)
    moreover have "(i + 32) div 32 = Suc (i div 32)" by simp
    ultimately show ?thesis by (simp only: element_at_def nth_Cons_Suc mod_add_self2)
  qed
  moreover have "block_holds hp (cl ! j) 0" if j: "j < length cl" for j
  proof -
    have "block_holds (heap p) ((b # cl) ! Suc j) (taken (headIndex pr) (Suc j))"
      using q j unfolding queue_ok_def queue_core_def by (metis Suc_less_eq length_Cons)
    with hp j show ?thesis by (simp add: block_holds_def taken_def)
  qed
  moreover have "tailIndex pr' = headIndex pr' + of_nat (length ys)"
    "dequeueOptimisticCount pr' - dequeueOvercommit pr' = headIndex pr'"
    using q pr' by (auto simp: queue_ok_def queue_core_def algebra_simps)
  ultimately show ?thesis
    using q h idx pr' by (simp add: queue_ok_def queue_core_def s base taken_def)
qed

lemma queue_after_take:
  assumes q: "queue_ok (heap p) pr (b # cl) (v # ys)" and h: "slot_of (headIndex pr) \<noteq> 31"
    and pr': "headIndex pr' = headIndex pr + 1" "tailIndex pr' = tailIndex pr"
      "dequeueOptimisticCount pr' = dequeueOptimisticCount pr + 1"
      "dequeueOvercommit pr' = dequeueOvercommit pr" "tailBlock pr' = tailBlock pr"
      "index_ok pr' (base_of (headIndex pr)) (b # cl)"
    and els: "\<forall>i < length ys. element_at hp (b # cl) (slot_of (headIndex pr) + Suc i) (ys ! i)"
    and hold: "block_holds hp b (slot_of (headIndex pr) + 1)"
    and hp: "\<forall>a \<in> set cl. hp a = heap p a"
  shows "queue_ok hp pr' (b # cl) ys"
proof -
  have less: "slot_of (headIndex pr) < 31" using h slot_of_less [of "headIndex pr"] by linarith
  have s: "slot_of (headIndex pr + 1) = slot_of (headIndex pr) + 1"
    and base: "base_of (headIndex pr + 1) = base_of (headIndex pr)"
    using slot_of_add [of "headIndex pr" 1] base_of_add [of "headIndex pr" 1] less by simp_all
  have "block_holds hp ((b # cl) ! j) (taken (headIndex pr + 1) j)" if j: "j < length (b # cl)" for j
  proof (cases j)
    case 0
    with hold s show ?thesis by (simp add: taken_def)
  next
    case (Suc c)
    have "block_holds (heap p) ((b # cl) ! j) (taken (headIndex pr) j)"
      using q j unfolding queue_ok_def queue_core_def by blast
    with hp j Suc show ?thesis by (simp add: block_holds_def taken_def)
  qed
  moreover have "tailIndex pr' = headIndex pr' + of_nat (length ys)"
    "dequeueOptimisticCount pr' - dequeueOvercommit pr' = headIndex pr'"
    using q pr' by (auto simp: queue_ok_def queue_core_def algebra_simps)
  ultimately show ?thesis
    using q pr' els by (simp add: queue_ok_def queue_core_def s base)
qed

lemma producer_dequeue_empty:
  assumes "subqueue others pr p bl []"
  shows "producer_dequeue pr p = Some (None, pr, p)"
proof -
  have "queue_core (heap p) pr bl []" using assms by (simp add: subqueue_def queue_ok_def)
  from dequeue_tests [OF this] show ?thesis by (simp add: producer_dequeue_def Let_def)
qed

lemma producer_dequeue_blocks:
  assumes s: "subqueue others pr p bl (v # ys)"
  shows "\<exists>pr' p'. producer_dequeue pr p = Some (Some v, pr', p') \<and>
    subqueue others pr' p' (if slot_of (headIndex pr) = 31 then tl bl else bl) ys \<and>
    (\<forall>a \<in> others. heap p' a = heap p a) \<and> inactive pr' = inactive pr"
proof -
  have q: "queue_ok (heap p) pr bl (v # ys)" and core: "queue_core (heap p) pr bl (v # ys)"
    and inv: "pool_inv p (others \<union> set bl)" and dis: "set bl \<inter> others = {}"
    using s by (auto simp: subqueue_def queue_ok_def)
  from queue_non_empty [OF core] obtain b cl where bl: "bl = b # cl" .
  let ?i = "headIndex pr" and ?pr = "pr\<lparr>dequeueOptimisticCount := dequeueOptimisticCount pr + 1, headIndex := headIndex pr + 1\<rparr>"
  have idx: "index_ok pr (base_of ?i) (b # cl)" and dist: "b \<notin> set cl"
    and lim: "32 * length (b # cl) < 2 ^ 63 + slot_of ?i"
    using core by (simp_all add: queue_core_def bl)
  have small: "32 * length (b # cl) \<le> 2 ^ 63 + 32" using lim slot_of_less [of ?i] by linarith
  from index_lookup [OF idx _ slot_of_less small, of ?i] obtain h where cur: "current_header pr = Some h"
    and look: "get_block_index_entry_for_index ?i pr = Some (ring_slot h (length cl))"
    and val: "be_value (entries pr ! ring_slot h (length cl)) = Some b"
    by (auto simp: base_plus_slot)
  from take_ok [OF core [unfolded bl] inv] bl obtain p1 p2
    where t: "take_element b ?i p = Some (v, p1)" "set_empty b p1 = Some (slot_of ?i = 31, p2)"
    and inv2: "pool_inv p2 (others \<union> set bl)" and frame: "\<forall>a. a \<noteq> b \<longrightarrow> heap p2 a = heap p a"
    and hold: "block_holds (heap p2) b (slot_of ?i + 1)"
    and els: "\<forall>i < length ys. element_at (heap p2) (b # cl) (slot_of ?i + Suc i) (ys ! i)" by auto
  have tests: "circular_less_than (dequeueOptimisticCount pr - dequeueOvercommit pr) (tailIndex pr)"
    using dequeue_tests [OF core] by simp
  let ?a = "ring_slot h (length cl)"
  have go: "producer_dequeue pr p = (if slot_of ?i = 31
      then do {
        p3 \<leftarrow> add_block_to_free_list b p2;
        Some (Some v, store_entry ?a ((entries pr ! ?a)\<lparr>be_value := None\<rparr>) ?pr, p3) }
      else Some (Some v, ?pr, p2))"
    using tests look val t by (simp add: producer_dequeue_def Let_def)
  show ?thesis
  proof (cases "slot_of ?i = 31")
    case True
    from pool.free_law [OF inv2, of b] bl obtain p3 where p3: "add_block_to_free_list b p2 = Some p3"
      "pool_inv p3 (others \<union> set bl - {b})" "\<forall>a \<in> others \<union> set bl - {b}. heap p3 a = heap p2 a" by auto
    let ?pr' = "store_entry ?a ((entries pr ! ?a)\<lparr>be_value := None\<rparr>) ?pr"
    have "entries ?pr' = entries (store_entry ?a ((entries pr ! ?a)\<lparr>be_value := None\<rparr>) pr)"
      "blockIndex ?pr' = blockIndex pr" "nextBlockIndexCapacity ?pr' = nextBlockIndexCapacity pr"
      by (simp_all add: store_entry_def)
    then have idx': "index_ok ?pr' (base_of ?i + 32) cl"
      using index_ok_pop [OF idx cur] by (subst index_ok_cong) (simp_all add: store_entry_def)
    have hp: "heap p3 a = heap p2 a" if "a \<in> others \<union> set cl" for a
      using p3(3) that dist dis bl by auto
    have hp0: "\<forall>a \<in> set cl. heap p3 a = heap p a" using hp frame dist by (metis UnI2)
    have els3: "\<forall>i < length ys. element_at (heap p3) (b # cl) (slot_of ?i + Suc i) (ys ! i)"
    proof (intro allI impI)
      fix i assume i: "i < length ys"
      have "(slot_of ?i + Suc i) div 32 < length (b # cl)"
        using core i by (auto simp: queue_core_def bl intro!: less_mult_imp_div_less)
      then have "(slot_of ?i + Suc i) div 32 - 1 < length cl" "(slot_of ?i + Suc i) div 32 > 0"
        using True by auto
      then have "(b # cl) ! ((slot_of ?i + Suc i) div 32) \<in> set cl" by (simp add: nth_Cons')
      with els i hp show "element_at (heap p3) (b # cl) (slot_of ?i + Suc i) (ys ! i)"
        by (auto simp: element_at_def)
    qed
    have "queue_ok (heap p3) ?pr' cl ys"
      by (rule queue_after_pop [OF q [unfolded bl] True idx' _ _ _ _ _ els3])
        (use hp0 in \<open>simp_all add: store_entry_def\<close>)
    moreover have "others \<union> set bl - {b} = others \<union> set cl" using dist dis bl by auto
    ultimately have "subqueue others ?pr' p3 cl ys"
      using p3(2) dis bl by (simp add: subqueue_def)
    moreover have "\<forall>a \<in> others. heap p3 a = heap p a"
      using hp frame dis bl by (metis IntI UnI1 empty_iff list.set_intros(1))
    moreover have "inactive ?pr' = inactive pr" by (simp add: store_entry_def)
    ultimately show ?thesis using go True p3(1) by (auto simp: bl)
  next
    case False
    have "queue_ok (heap p2) ?pr (b # cl) ys"
      by (rule queue_after_take [OF q [unfolded bl] False _ _ _ _ _ _ els hold])
        (use frame dist idx in \<open>simp_all, metis\<close>)
    then have "subqueue others ?pr p2 bl ys" using inv2 dis by (simp add: subqueue_def bl)
    moreover have "\<forall>a \<in> others. heap p2 a = heap p a"
      using frame dis bl by (metis IntI empty_iff list.set_intros(1))
    ultimately show ?thesis using go False by auto
  qed
qed

lemma producer_dequeue_ok:
  assumes "subqueue others pr p bl (v # ys)"
  shows "\<exists>pr' p' bl'. producer_dequeue pr p = Some (Some v, pr', p') \<and>
    subqueue others pr' p' bl' ys \<and> (\<forall>a \<in> others. heap p' a = heap p a) \<and> inactive pr' = inactive pr"
  using producer_dequeue_blocks [OF assms] by blast

end
