(* ===== verification/Cq_Hash.thy ===== *)
theory Cq_Hash
  imports Cq_Words "HOL-Library.Monad_Syntax"
begin

text \<open>
  \<open>include/concurrentqueue.h\<close>: the open-addressing hash tables that map a thread id to its
  producer. A key is written once, from \<open>invalid_thread_id\<close>; a slot is never emptied. The
  probe loops of the source have no bound, so they are \<open>partial_function\<close>s: the lemmas show
  that on a well-formed table, which has an empty slot, they return.
\<close>

record implicit_producer_kvp =
  kvp_key :: thread_id
  kvp_value :: "nat option"

record implicit_producer_hash =
  ph_capacity :: u64
  ph_entries :: "implicit_producer_kvp list"

definition invalid_thread_id :: thread_id where
  "invalid_thread_id = 0"

definition invalid_thread_id2 :: thread_id where
  "invalid_thread_id2 = 1"

definition INITIAL_IMPLICIT_PRODUCER_HASH_SIZE :: u64 where
  "INITIAL_IMPLICIT_PRODUCER_HASH_SIZE = 32"

definition empty_hash :: "u64 \<Rightarrow> implicit_producer_hash" where
  "empty_hash capacity = \<lparr>ph_capacity = capacity,
     ph_entries = replicate (unat capacity) \<lparr>kvp_key = invalid_thread_id, kvp_value = None\<rparr>\<rparr>"

text \<open>Looking for a thread in one table: the slot it is in, or none.\<close>

partial_function (option) find_in_hash ::
  "implicit_producer_hash \<Rightarrow> thread_id \<Rightarrow> u64 \<Rightarrow> u64 option option" where
  "find_in_hash hash i index =
     (let index = index AND (ph_capacity hash - 1);
          probedKey = kvp_key (ph_entries hash ! unat index) in
      if probedKey = i then Some (Some index)
      else if probedKey = invalid_thread_id then Some None
      else find_in_hash hash i (index + 1))"

text \<open>Claiming an empty or a reusable slot; the result says whether the slot was reusable.\<close>

partial_function (option) put_in_hash ::
  "thread_id \<Rightarrow> nat option \<Rightarrow> u64 \<Rightarrow> implicit_producer_hash \<Rightarrow> (bool \<times> implicit_producer_hash) option" where
  "put_in_hash i value index hash =
     (let index = index AND (ph_capacity hash - 1);
          key = kvp_key (ph_entries hash ! unat index) in
      if key = invalid_thread_id2 \<or> key = invalid_thread_id
      then Some (key = invalid_thread_id2,
        hash\<lparr>ph_entries := (ph_entries hash)[unat index := \<lparr>kvp_key = i, kvp_value = value\<rparr>]\<rparr>)
      else put_in_hash i value (index + 1) hash)"

text \<open>Looking in the current table and then in the earlier ones: how deep the thread was found,
  and its producer.\<close>

fun search_hashes :: "implicit_producer_hash list \<Rightarrow> thread_id \<Rightarrow> u64 \<Rightarrow> (nat \<times> nat option) option option" where
  "search_hashes [] i hashedId = Some None"
| "search_hashes (hash # prev) i hashedId = do {
     found \<leftarrow> find_in_hash hash i hashedId;
     case found of
       Some index \<Rightarrow> Some (Some (0, kvp_value (ph_entries hash ! unat index)))
     | None \<Rightarrow> do {
         deeper \<leftarrow> search_hashes prev i hashedId;
         Some (map_option (\<lambda>(d, v). (Suc d, v)) deeper) } }"

section \<open>Well-formed tables\<close>

text \<open>
  \<open>probe_slot h c d\<close> is the slot probed after \<open>d\<close> steps. Each thread stored in a table is
  reached from its hash without crossing an empty slot.
\<close>

definition probe_slot :: "u64 \<Rightarrow> nat \<Rightarrow> nat \<Rightarrow> nat" where
  "probe_slot h c d = (unat h + d) mod c"

definition keys :: "implicit_producer_hash \<Rightarrow> thread_id list" where
  "keys t = map kvp_key (ph_entries t)"

definition used_keys :: "implicit_producer_hash \<Rightarrow> thread_id set" where
  "used_keys t = set (keys t) - {0}"

definition slot_reachable :: "implicit_producer_hash \<Rightarrow> nat \<Rightarrow> bool" where
  "slot_reachable t j \<longleftrightarrow>
     (\<exists>d. j = probe_slot (hash_thread_id (keys t ! j)) (length (ph_entries t)) d \<and>
        (\<forall>e < d. keys t ! probe_slot (hash_thread_id (keys t ! j)) (length (ph_entries t)) e \<noteq> 0))"

definition table_ok :: "(thread_id \<rightharpoonup> nat) \<Rightarrow> implicit_producer_hash \<Rightarrow> bool" where
  "table_ok m t \<longleftrightarrow>
     (\<exists>k. ph_capacity t = 2 ^ k \<and> 5 \<le> k \<and> k < 62 \<and> length (ph_entries t) = 2 ^ k) \<and>
     card (used_keys t) < length (ph_entries t) \<and>
     (\<forall>j < length (ph_entries t). keys t ! j \<noteq> 0 \<longrightarrow>
        1 < keys t ! j \<and> m (keys t ! j) = kvp_value (ph_entries t ! j) \<and>
        m (keys t ! j) \<noteq> None \<and> slot_reachable t j) \<and>
     (\<forall>j < length (ph_entries t). \<forall>l < length (ph_entries t).
        keys t ! j = keys t ! l \<longrightarrow> keys t ! j \<noteq> 0 \<longrightarrow> j = l)"

lemma length_keys [simp]: "length (keys t) = length (ph_entries t)"
  by (simp add: keys_def)

lemma key_nth [simp]: "j < length (ph_entries t) \<Longrightarrow> kvp_key (ph_entries t ! j) = keys t ! j"
  by (simp add: keys_def)

lemma slot_word:
  assumes "k < 64"
  shows "unat ((h + of_nat d :: u64) AND (2 ^ k - 1)) = probe_slot h (2 ^ k) d"
proof -
  have dvd: "(2 :: nat) ^ k dvd 2 ^ 64" by (rule le_imp_power_dvd) (use assms in simp)
  have "unat (h + of_nat d) mod 2 ^ k = ((unat h + d) mod 2 ^ 64) mod 2 ^ k"
    by (simp add: unat_word_ariths unat_of_nat mod_add_right_eq)
  also have "\<dots> = (unat h + d) mod 2 ^ k" by (rule mod_mod_cancel [OF dvd])
  finally show ?thesis using assms by (simp add: unat_and_mask probe_slot_def)
qed

lemma slot_next:
  assumes "k < 64" "unat w = probe_slot h (2 ^ k) d"
  shows "unat ((w + 1 :: u64) AND (2 ^ k - 1)) = probe_slot h (2 ^ k) (Suc d)"
  using slot_word [OF assms(1), of w 1] assms(2) by (simp add: probe_slot_def mod_Suc_eq)

lemma probe_covers: "0 < c \<Longrightarrow> e < c \<Longrightarrow> \<exists>d < c. probe_slot h c d = e"
proof -
  assume c: "0 < c" "e < c"
  let ?d = "(e + c - unat h mod c) mod c"
  have le: "unat h mod c \<le> e + c" using c by (meson less_imp_le mod_less_divisor trans_le_add2)
  have "probe_slot h c ?d = (unat h mod c + (e + c - unat h mod c)) mod c"
    by (simp add: probe_slot_def mod_simps)
  also have "\<dots> = e" using c le by simp
  finally show ?thesis using c by (intro exI [of _ ?d]) simp
qed

lemma table_slot:
  assumes "table_ok m t" "j < length (ph_entries t)" "keys t ! j \<noteq> 0"
  shows "1 < keys t ! j" "m (keys t ! j) = kvp_value (ph_entries t ! j)" "m (keys t ! j) \<noteq> None" "slot_reachable t j"
  using assms unfolding table_ok_def by blast+

lemma table_slot_inj:
  assumes "table_ok m t" "j < length (ph_entries t)" "l < length (ph_entries t)"
    "keys t ! j = keys t ! l" "keys t ! j \<noteq> 0"
  shows "j = l"
  using assms unfolding table_ok_def by blast

lemma table_has_empty:
  assumes "table_ok m t"
  shows "\<exists>e < length (ph_entries t). keys t ! e = 0"
proof (rule ccontr)
  let ?n = "length (ph_entries t)"
  assume none: "\<not> ?thesis"
  then have "inj_on ((!) (keys t)) {..<?n}"
    using assms unfolding table_ok_def inj_on_def by blast
  then have "card ((!) (keys t) ` {..<?n}) = ?n" by (simp add: card_image)
  moreover have "(!) (keys t) ` {..<?n} = set (keys t)"
    by (auto simp: set_conv_nth image_def)
  moreover have "used_keys t = set (keys t)"
    using none by (auto simp: used_keys_def set_conv_nth)
  ultimately show False using assms by (simp add: table_ok_def)
qed

section \<open>The probe loops return\<close>

lemma table_capacity:
  assumes "table_ok m t"
  obtains k where "ph_capacity t = 2 ^ k" "5 \<le> k" "k < 62" "length (ph_entries t) = 2 ^ k"
  using assms by (auto simp: table_ok_def)

text \<open>The first probe at which a key satisfies a predicate that holds of the empty key.\<close>

lemma first_probe:
  assumes "table_ok m t" "P (0 :: thread_id)"
  obtains D where "P (keys t ! probe_slot h (length (ph_entries t)) D)"
    "\<And>e. e < D \<Longrightarrow> \<not> P (keys t ! probe_slot h (length (ph_entries t)) e)"
proof -
  let ?P = "\<lambda>d. P (keys t ! probe_slot h (length (ph_entries t)) d)"
  from table_has_empty [OF assms(1)] obtain e where e: "e < length (ph_entries t)" "keys t ! e = 0" by blast
  then have "0 < length (ph_entries t)" by linarith
  from probe_covers [OF this e(1), of h] obtain d where "probe_slot h (length (ph_entries t)) d = e" by blast
  with e(2) assms(2) have "?P d" by simp
  then have "\<exists>d. ?P d" ..
  then have "?P (LEAST d. ?P d)" by (rule LeastI_ex)
  moreover have "\<not> ?P e" if "e < (LEAST d. ?P d)" for e using that by (rule not_less_Least)
  ultimately show thesis by (rule that)
qed

lemma probe_slot_less: "0 < c \<Longrightarrow> probe_slot h c d < c"
  by (simp add: probe_slot_def)

lemma find_steps:
  assumes cap: "ph_capacity t = 2 ^ k" "k < 64" "length (ph_entries t) = 2 ^ k"
    and stop: "keys t ! probe_slot h (2 ^ k) D = i \<or> keys t ! probe_slot h (2 ^ k) D = 0"
    and walk: "\<And>e. e < D \<Longrightarrow> keys t ! probe_slot h (2 ^ k) e \<noteq> i \<and> keys t ! probe_slot h (2 ^ k) e \<noteq> 0"
    and e: "e \<le> D" and index: "unat (index AND (2 ^ k - 1)) = probe_slot h (2 ^ k) e"
  shows "\<exists>idx. unat idx = probe_slot h (2 ^ k) D \<and>
    find_in_hash t i index = Some (if keys t ! probe_slot h (2 ^ k) D = i then Some idx else None)"
  using e index
proof (induction "D - e" arbitrary: e index)
  case 0
  then have "e = D" by simp
  with 0 stop cap show ?case
    by (intro exI [of _ "index AND (2 ^ k - 1)"])
      (auto simp: find_in_hash.simps [of t i index] Let_def probe_slot_less invalid_thread_id_def)
next
  case (Suc n)
  then have "e < D" by simp
  from walk [OF this] Suc(4) cap
  have step: "find_in_hash t i index = find_in_hash t i ((index AND (2 ^ k - 1)) + 1)"
    by (simp add: find_in_hash.simps [of t i index] Let_def probe_slot_less invalid_thread_id_def)
  have "n = D - Suc e" "Suc e \<le> D" using Suc(2) \<open>e < D\<close> by simp_all
  from Suc(1) [OF this slot_next [OF cap(2) Suc(4)]] step show ?case by simp
qed

lemma put_steps:
  assumes cap: "ph_capacity t = 2 ^ k" "k < 64" "length (ph_entries t) = 2 ^ k"
    and stop: "keys t ! probe_slot h (2 ^ k) D = 0 \<or> keys t ! probe_slot h (2 ^ k) D = 1"
    and walk: "\<And>e. e < D \<Longrightarrow> keys t ! probe_slot h (2 ^ k) e \<noteq> 0 \<and> keys t ! probe_slot h (2 ^ k) e \<noteq> 1"
    and e: "e \<le> D" and index: "unat (index AND (2 ^ k - 1)) = probe_slot h (2 ^ k) e"
  shows "put_in_hash i v index t = Some (keys t ! probe_slot h (2 ^ k) D = 1, t\<lparr>ph_entries :=
    (ph_entries t)[probe_slot h (2 ^ k) D := \<lparr>kvp_key = i, kvp_value = v\<rparr>]\<rparr>)"
  using e index
proof (induction "D - e" arbitrary: e index)
  case 0
  then have "e = D" by simp
  with 0 stop cap show ?case
    by (auto simp: put_in_hash.simps [of i v index] Let_def probe_slot_less invalid_thread_id_def invalid_thread_id2_def)
next
  case (Suc n)
  then have "e < D" by simp
  from walk [OF this] Suc(4) cap
  have step: "put_in_hash i v index t = put_in_hash i v ((index AND (2 ^ k - 1)) + 1) t"
    by (simp add: put_in_hash.simps [of i v index] Let_def probe_slot_less invalid_thread_id_def invalid_thread_id2_def)
  have "n = D - Suc e" "Suc e \<le> D" using Suc(2) \<open>e < D\<close> by simp_all
  from Suc(1) [OF this slot_next [OF cap(2) Suc(4)]] step show ?case by simp
qed

lemma find_in_hash_ok:
  assumes t: "table_ok m t" and i: "1 < i"
  shows "\<exists>r. find_in_hash t i (hash_thread_id i) = Some r \<and>
    (case r of None \<Rightarrow> i \<notin> used_keys t
     | Some idx \<Rightarrow> i \<in> used_keys t \<and> kvp_value (ph_entries t ! unat idx) = m i)"
proof -
  obtain k where k: "ph_capacity t = 2 ^ k" "k < 62" "length (ph_entries t) = 2 ^ k"
    using t by (rule table_capacity)
  let ?h = "hash_thread_id i"
  obtain D where stop: "keys t ! probe_slot ?h (2 ^ k) D = i \<or> keys t ! probe_slot ?h (2 ^ k) D = 0"
    and walk: "\<And>e. e < D \<Longrightarrow> keys t ! probe_slot ?h (2 ^ k) e \<noteq> i \<and> keys t ! probe_slot ?h (2 ^ k) e \<noteq> 0"
    using first_probe [OF t, of "\<lambda>x. x = i \<or> x = 0" ?h] k(3) by auto
  have "unat (?h AND (2 ^ k - 1)) = probe_slot ?h (2 ^ k) 0" using slot_word [of k ?h 0] k by simp
  from find_steps [OF k(1) _ k(3) stop walk _ this] k(2) obtain idx
    where idx: "unat idx = probe_slot ?h (2 ^ k) D"
    and run: "find_in_hash t i ?h = Some (if keys t ! probe_slot ?h (2 ^ k) D = i then Some idx else None)"
    by auto
  have less: "probe_slot ?h (2 ^ k) D < length (ph_entries t)" using k(3) by (simp add: probe_slot_less)
  show ?thesis
  proof (cases "keys t ! probe_slot ?h (2 ^ k) D = i")
    case True
    have "i \<noteq> 0" using i by auto
    with True have nz: "keys t ! probe_slot ?h (2 ^ k) D \<noteq> 0" by simp
    from True have "m i = kvp_value (ph_entries t ! probe_slot ?h (2 ^ k) D)"
      using table_slot(2) [OF t less nz] by simp
    moreover have "i \<in> used_keys t"
      using nth_mem [of "probe_slot ?h (2 ^ k) D" "keys t"] True less \<open>i \<noteq> 0\<close> by (simp add: used_keys_def)
    ultimately show ?thesis using run True idx by simp
  next
    case False
    have "i \<notin> used_keys t"
    proof
      assume "i \<in> used_keys t"
      then obtain j where j: "j < length (ph_entries t)" "keys t ! j = i" "i \<noteq> 0"
        by (auto simp: used_keys_def set_conv_nth)
      then have "slot_reachable t j" using table_slot(4) [OF t] by blast
      then obtain d where d: "j = probe_slot ?h (2 ^ k) d" "\<forall>e < d. keys t ! probe_slot ?h (2 ^ k) e \<noteq> 0"
        using j k(3) by (auto simp: slot_reachable_def)
      have "keys t ! probe_slot ?h (2 ^ k) d = i" using d(1) j(2) by simp
      then have "D \<le> d" using walk [of d] by (meson not_less)
      moreover have "D \<noteq> d" using False \<open>keys t ! probe_slot ?h (2 ^ k) d = i\<close> by auto
      ultimately show False using stop False d(2) by auto
    qed
    with run False show ?thesis by simp
  qed
qed

text \<open>Adding a thread that is not in the table, to a table with two empty slots.\<close>

lemma put_in_hash_ok:
  assumes t: "table_ok m t" and new: "i \<notin> used_keys t" and i: "1 < i" and v: "m i = v" "v \<noteq> None"
    and room: "Suc (card (used_keys t)) < length (ph_entries t)"
  shows "\<exists>t'. put_in_hash i v (hash_thread_id i) t = Some (False, t') \<and> table_ok m t' \<and>
    used_keys t' = insert i (used_keys t) \<and> ph_capacity t' = ph_capacity t"
proof -
  obtain k where k: "ph_capacity t = 2 ^ k" "5 \<le> k" "k < 62" "length (ph_entries t) = 2 ^ k"
    using t by (rule table_capacity)
  let ?h = "hash_thread_id i" and ?ks = "keys t"
  obtain D where stop: "?ks ! probe_slot ?h (2 ^ k) D = 0"
    and walk: "\<And>e. e < D \<Longrightarrow> ?ks ! probe_slot ?h (2 ^ k) e \<noteq> 0"
    using first_probe [OF t, of "\<lambda>x. x = 0" ?h] k(4) by auto
  let ?s = "probe_slot ?h (2 ^ k) D"
  have less: "?s < 2 ^ k" by (simp add: probe_slot_less)
  have not1: "?ks ! probe_slot ?h (2 ^ k) e \<noteq> 1" for e
    using table_slot(1) [OF t, of "probe_slot ?h (2 ^ k) e"] probe_slot_less [of "2 ^ k" ?h e] k(4)
    by auto
  have "unat (?h AND (2 ^ k - 1)) = probe_slot ?h (2 ^ k) 0" using slot_word [of k ?h 0] k by simp
  from put_steps [OF k(1) _ k(4) disjI1 [OF stop] _ _ this, of i v] walk not1 k(3) stop
  have run: "put_in_hash i v ?h t = Some (False, t\<lparr>ph_entries := (ph_entries t)[?s := \<lparr>kvp_key = i, kvp_value = v\<rparr>]\<rparr>)"
    by simp
  let ?t = "t\<lparr>ph_entries := (ph_entries t)[?s := \<lparr>kvp_key = i, kvp_value = v\<rparr>]\<rparr>"
  have ks': "keys ?t = ?ks[?s := i]" by (simp add: keys_def map_update)
  have used: "used_keys ?t = insert i (used_keys t)"
  proof -
    have "i \<noteq> 0" using i by auto
    then have "set (?ks[?s := i]) - {0} = insert i (set ?ks - {0})"
      using less stop k(4) by (intro set_update_fill) simp_all
    then show ?thesis by (simp add: used_keys_def ks')
  qed
  have nin: "j < 2 ^ k \<Longrightarrow> ?ks ! j \<noteq> i" for j
    using new i k(4) by (auto simp: used_keys_def set_conv_nth)
  have reach: "slot_reachable ?t j" if j: "j < 2 ^ k" "keys ?t ! j \<noteq> 0" for j
  proof (cases "j = ?s")
    case True
    have "\<forall>e < D. keys ?t ! probe_slot ?h (2 ^ k) e \<noteq> 0"
      using walk less i k(4) by (auto simp: ks' nth_list_update probe_slot_less)
    then show ?thesis using True less k(4) by (auto simp: slot_reachable_def ks')
  next
    case False
    then have "?ks ! j \<noteq> 0" using j by (simp add: ks')
    then have "slot_reachable t j" using table_slot(4) [OF t] j(1) k(4) by simp
    then obtain d where d: "j = probe_slot (hash_thread_id (?ks ! j)) (2 ^ k) d"
      "\<forall>e < d. ?ks ! probe_slot (hash_thread_id (?ks ! j)) (2 ^ k) e \<noteq> 0"
      using k(4) by (auto simp: slot_reachable_def)
    then have "\<forall>e < d. keys ?t ! probe_slot (hash_thread_id (?ks ! j)) (2 ^ k) e \<noteq> 0"
      using i k(4) by (auto simp: ks' nth_list_update probe_slot_less)
    with d(1) False k(4) show ?thesis by (auto simp: slot_reachable_def ks')
  qed
  have "table_ok m ?t"
    unfolding table_ok_def
  proof (intro conjI allI impI)
    show "\<exists>k. ph_capacity ?t = 2 ^ k \<and> 5 \<le> k \<and> k < 62 \<and> length (ph_entries ?t) = 2 ^ k" using k by auto
    show "card (used_keys ?t) < length (ph_entries ?t)"
      using room new by (simp add: used)
    fix j assume "j < length (ph_entries ?t)" "keys ?t ! j \<noteq> 0"
    then have j: "j < 2 ^ k" "keys ?t ! j \<noteq> 0" using k(4) by simp_all
    then show "slot_reachable ?t j" by (rule reach)
    show "1 < keys ?t ! j" "m (keys ?t ! j) = kvp_value (ph_entries ?t ! j)" "m (keys ?t ! j) \<noteq> None"
      using table_slot(1-3) [OF t, of j] j less i v k(4) by (cases "j = ?s"; simp add: ks')+
  next
    fix j l assume jl: "j < length (ph_entries ?t)" "l < length (ph_entries ?t)"
      "keys ?t ! j = keys ?t ! l" "keys ?t ! j \<noteq> 0"
    then have "?ks ! j = ?ks ! l \<Longrightarrow> ?ks ! j \<noteq> 0 \<Longrightarrow> j = l" using table_slot_inj [OF t] by simp
    with jl nin k(4) less show "j = l" by (auto simp: ks' nth_list_update split: if_splits)
  qed
  with run used show ?thesis by simp
qed

section \<open>Tables of the queue\<close>

lemma table_ok_extend:
  assumes t: "table_ok m t" and i: "m i = None"
  shows "table_ok (m(i \<mapsto> p)) t"
proof -
  have "keys t ! j \<noteq> i" if "j < length (ph_entries t)" "keys t ! j \<noteq> 0" for j
    using table_slot(3) [OF t that] i by auto
  with t show ?thesis unfolding table_ok_def by (simp add: fun_upd_def) metis
qed

lemma used_keys_empty_hash [simp]: "used_keys (empty_hash c) = {}"
  by (auto simp: used_keys_def keys_def empty_hash_def invalid_thread_id_def)

lemma table_ok_empty_hash:
  assumes "5 \<le> k" "k < 62"
  shows "table_ok m (empty_hash (2 ^ k))"
proof -
  have "unat (2 ^ k :: u64) = 2 ^ k"
    using assms unat_of_nat_u64 [of "2 ^ k"] power_strict_increasing [of k 64 "2 :: nat"] by simp
  then have "ph_capacity (empty_hash (2 ^ k)) = 2 ^ k" "length (ph_entries (empty_hash (2 ^ k))) = 2 ^ k"
    and "keys (empty_hash (2 ^ k)) = replicate (2 ^ k) 0"
    by (simp_all add: empty_hash_def keys_def invalid_thread_id_def)
  with assms show ?thesis unfolding table_ok_def by simp
qed

lemma used_keys_dom:
  assumes "table_ok m t"
  shows "used_keys t \<subseteq> dom m" "0 \<notin> used_keys t"
proof -
  show "used_keys t \<subseteq> dom m"
  proof
    fix x assume "x \<in> used_keys t"
    then obtain j where "j < length (ph_entries t)" "keys t ! j = x" "x \<noteq> 0"
      by (auto simp: used_keys_def in_set_conv_nth)
    with table_slot(3) [OF assms, of j] show "x \<in> dom m" by auto
  qed
qed (simp add: used_keys_def)

lemma search_hashes_ok:
  assumes "\<forall>t \<in> set ts. table_ok m t" and i: "1 < i"
  shows "\<exists>r. search_hashes ts i (hash_thread_id i) = Some r \<and>
    (case r of None \<Rightarrow> \<forall>t \<in> set ts. i \<notin> used_keys t
     | Some (d, v) \<Rightarrow> d < length ts \<and> v = m i \<and> v \<noteq> None \<and> (\<forall>e < d. i \<notin> used_keys (ts ! e)) \<and> i \<in> used_keys (ts ! d))"
  using assms(1)
proof (induction ts)
  case Nil
  then show ?case by simp
next
  case (Cons t ts)
  then obtain r where r: "search_hashes ts i (hash_thread_id i) = Some r"
    "case r of None \<Rightarrow> \<forall>t \<in> set ts. i \<notin> used_keys t
     | Some (d, v) \<Rightarrow> d < length ts \<and> v = m i \<and> v \<noteq> None \<and> (\<forall>e < d. i \<notin> used_keys (ts ! e)) \<and> i \<in> used_keys (ts ! d)"
    by auto
  have t: "table_ok m t" using Cons by simp
  from find_in_hash_ok [OF t i] obtain f where f: "find_in_hash t i (hash_thread_id i) = Some f"
    "case f of None \<Rightarrow> i \<notin> used_keys t
     | Some idx \<Rightarrow> i \<in> used_keys t \<and> kvp_value (ph_entries t ! unat idx) = m i" by blast
  show ?case
  proof (cases f)
    case (Some idx)
    with f used_keys_dom(1) [OF t] show ?thesis by auto
  next
    case None
    with f r show ?thesis by (cases r) (auto simp: less_Suc_eq_0_disj)
  qed
qed

end
