(* ===== verification/Cq_Queue.thy ===== *)
theory Cq_Queue
  imports Cq_Subqueue Cq_Hash
begin

text \<open>
  \<open>include/concurrentqueue.h\<close>, \<open>class ConcurrentQueue\<close> as the program uses it: each thread that
  enqueues has a sub-queue of its own, found through the hash of its thread id, and
  \<open>try_dequeue\<close> takes from the fullest of the first sub-queues that are not empty. Producers
  are numbered in the order of creation; the list of the source runs from the newest.
  The threads live as long as the queue.
\<close>

section \<open>State\<close>

record 'a queue =
  producers :: "producer list"
  producerCount :: u32
  blocks :: "'a pool"
  implicitProducerHash :: "implicit_producer_hash list"
  implicitProducerHashCount :: u64
  resizeInProgress :: bool

text \<open>\<open>implicitProducerHash\<close> lists the current table and, along \<open>prev\<close>, the earlier ones.\<close>

definition populate_initial_implicit_producer_hash :: "'a queue \<Rightarrow> 'a queue" where
  "populate_initial_implicit_producer_hash q =
     q\<lparr>implicitProducerHashCount := 0,
       implicitProducerHash := [empty_hash INITIAL_IMPLICIT_PRODUCER_HASH_SIZE]\<rparr>"

definition ConcurrentQueue :: "malloc_ok \<Rightarrow> u64 \<Rightarrow> 'a queue" where
  "ConcurrentQueue mok capacity =
     (let q = populate_initial_implicit_producer_hash
                \<lparr>producers = [], producerCount = 0, blocks = empty_pool, implicitProducerHash = [],
                 implicitProducerHashCount = 0, resizeInProgress = False\<rparr> in
      q\<lparr>blocks := populate_initial_block_list mok
          (capacity div BLOCK_SIZE + (if capacity AND (BLOCK_SIZE - 1) = 0 then 0 else 1)) (blocks q)\<rparr>)"

section \<open>Producers\<close>

definition newest_first :: "'a queue \<Rightarrow> nat list" where
  "newest_first q = rev [0..<length (producers q)]"

definition add_producer :: "producer \<Rightarrow> 'a queue \<Rightarrow> nat \<times> 'a queue" where
  "add_producer pr q =
     (length (producers q), q\<lparr>producers := producers q @ [pr], producerCount := producerCount q + 1\<rparr>)"

definition recycle_or_create_producer :: "malloc_ok \<Rightarrow> 'a queue \<Rightarrow> nat option \<times> 'a queue" where
  "recycle_or_create_producer mok q =
     (case find (\<lambda>j. inactive (producers q ! j)) (newest_first q) of
        Some j \<Rightarrow> (Some j, q\<lparr>producers := (producers q)[j := (producers q ! j)\<lparr>inactive := False\<rparr>]\<rparr>)
      | None \<Rightarrow>
          let n = mallocs (blocks q);
              q = q\<lparr>blocks := (blocks q)\<lparr>mallocs := n + 1\<rparr>\<rparr> in
          if \<not> mok n then (None, q)
          else
            let (pr, p) = new_producer mok (blocks q);
                (j, q) = add_producer pr (q\<lparr>blocks := p\<rparr>) in
            (Some j, q))"

section \<open>The producer of a thread\<close>

partial_function (option) grow_capacity :: "u64 \<Rightarrow> u64 \<Rightarrow> u64 option" where
  "grow_capacity newCount newCapacity =
     (if newCount \<ge> drop_bit 1 newCapacity then grow_capacity newCount (push_bit 1 newCapacity)
      else Some newCapacity)"

text \<open>Taking the resize lock and allocating a table twice as large; \<open>False\<close> if that failed.\<close>

definition resize_hash :: "malloc_ok \<Rightarrow> u64 \<Rightarrow> 'a queue \<Rightarrow> (bool \<times> 'a queue) option" where
  "resize_hash mok newCount q =
     (if newCount \<ge> drop_bit 1 (ph_capacity (hd (implicitProducerHash q))) \<and> \<not> resizeInProgress q then
        do {
          newCapacity \<leftarrow> grow_capacity newCount (push_bit 1 (ph_capacity (hd (implicitProducerHash q))));
          let n = mallocs (blocks q);
          let q = q\<lparr>blocks := (blocks q)\<lparr>mallocs := n + 1\<rparr>, resizeInProgress := False\<rparr>;
          if \<not> mok n
          then Some (False, q\<lparr>implicitProducerHashCount := implicitProducerHashCount q - 1\<rparr>)
          else Some (True, q\<lparr>implicitProducerHash := empty_hash newCapacity # implicitProducerHash q\<rparr>) }
      else Some (True, q))"

partial_function (option) add_implicit_producer ::
  "malloc_ok \<Rightarrow> thread_id \<Rightarrow> u64 \<Rightarrow> 'a queue \<Rightarrow> (nat option \<times> 'a queue) option" where
  "add_implicit_producer mok i newCount q = do {
     (ok, q) \<leftarrow> resize_hash mok newCount q;
     if \<not> ok then Some (None, q)
     else
       let capacity = ph_capacity (hd (implicitProducerHash q)) in
       if newCount < drop_bit 1 capacity + drop_bit 2 capacity then
         let (producer, q) = recycle_or_create_producer mok q in
         case producer of
           None \<Rightarrow> Some (None, q\<lparr>implicitProducerHashCount := implicitProducerHashCount q - 1\<rparr>)
         | Some j \<Rightarrow> do {
             (reused, main) \<leftarrow> put_in_hash i (Some j) (hash_thread_id i) (hd (implicitProducerHash q));
             Some (Some j, q\<lparr>implicitProducerHash := main # tl (implicitProducerHash q),
               implicitProducerHashCount := implicitProducerHashCount q - (if reused then 1 else 0)\<rparr>) }
       else add_implicit_producer mok i newCount q }"

definition get_or_add_implicit_producer ::
  "malloc_ok \<Rightarrow> thread_id \<Rightarrow> 'a queue \<Rightarrow> (nat option \<times> 'a queue) option" where
  "get_or_add_implicit_producer mok i q = do {
     found \<leftarrow> search_hashes (implicitProducerHash q) i (hash_thread_id i);
     case found of
       Some (depth, value) \<Rightarrow>
         if depth = 0 then Some (value, q)
         else do {
           (_, main) \<leftarrow> put_in_hash i value (hash_thread_id i) (hd (implicitProducerHash q));
           Some (value, q\<lparr>implicitProducerHash := main # tl (implicitProducerHash q)\<rparr>) }
     | None \<Rightarrow>
         let newCount = 1 + implicitProducerHashCount q in
         add_implicit_producer mok i newCount (q\<lparr>implicitProducerHashCount := newCount\<rparr>) }"

section \<open>Enqueue and dequeue\<close>

definition inner_enqueue :: "malloc_ok \<Rightarrow> thread_id \<Rightarrow> 'a \<Rightarrow> 'a queue \<Rightarrow> (bool \<times> 'a queue) option" where
  "inner_enqueue mok i element q = do {
     (producer, q) \<leftarrow> get_or_add_implicit_producer mok i q;
     case producer of
       None \<Rightarrow> Some (False, q)
     | Some j \<Rightarrow> do {
         (ok, pr, p) \<leftarrow> producer_enqueue mok element (producers q ! j) (blocks q);
         Some (ok, q\<lparr>producers := (producers q)[j := pr], blocks := p\<rparr>) } }"

definition enqueue :: "malloc_ok \<Rightarrow> thread_id \<Rightarrow> 'a \<Rightarrow> 'a queue \<Rightarrow> (bool \<times> 'a queue) option" where
  "enqueue mok i item q = inner_enqueue mok i item q"

definition dequeue_from :: "nat \<Rightarrow> 'a queue \<Rightarrow> ('a option \<times> 'a queue) option" where
  "dequeue_from j q = do {
     (el, pr, p) \<leftarrow> producer_dequeue (producers q ! j) (blocks q);
     Some (el, q\<lparr>producers := (producers q)[j := pr], blocks := p\<rparr>) }"

fun choose_best :: "producer list \<Rightarrow> nat list \<Rightarrow> nat \<Rightarrow> nat option \<Rightarrow> u64 \<Rightarrow> nat \<times> nat option" where
  "choose_best prs [] nonEmptyCount best bestSize = (nonEmptyCount, best)"
| "choose_best prs (j # js) nonEmptyCount best bestSize =
     (if nonEmptyCount < 3 then
        let size = producer_size_approx (prs ! j) in
        if 0 < size then
          if bestSize < size then choose_best prs js (nonEmptyCount + 1) (Some j) size
          else choose_best prs js (nonEmptyCount + 1) best bestSize
        else choose_best prs js nonEmptyCount best bestSize
      else (nonEmptyCount, best))"

fun dequeue_any :: "nat option \<Rightarrow> nat list \<Rightarrow> 'a queue \<Rightarrow> ('a option \<times> 'a queue) option" where
  "dequeue_any best [] q = Some (None, q)"
| "dequeue_any best (j # js) q =
     (if Some j \<noteq> best then do {
        (el, q) \<leftarrow> dequeue_from j q;
        if el \<noteq> None then Some (el, q) else dequeue_any best js q }
      else dequeue_any best js q)"

definition try_dequeue :: "'a queue \<Rightarrow> ('a option \<times> 'a queue) option" where
  "try_dequeue q =
     (let (nonEmptyCount, best) = choose_best (producers q) (newest_first q) 0 None 0 in
      if 0 < nonEmptyCount then do {
        b \<leftarrow> best;
        (el, q) \<leftarrow> dequeue_from b q;
        if el \<noteq> None then Some (el, q) else dequeue_any best (newest_first q) q }
      else Some (None, q))"

definition size_approx :: "'a queue \<Rightarrow> u64" where
  "size_approx q = fold (\<lambda>j size. size + producer_size_approx (producers q ! j)) (newest_first q) 0"

section \<open>A new producer\<close>

lemma pool_inv_mallocs [simp]: "pool_inv (p\<lparr>mallocs := n\<rparr>) used = pool_inv p used"
  by (simp add: pool_inv_def pool_ok_def)

lemma new_producer_ok:
  assumes "new_producer mok p = (pr, p')"
  shows "queue_ok hp pr [] [] \<and> \<not> inactive pr \<and> heap p' = heap p \<and>
    (pool_inv p used \<longrightarrow> pool_inv p' used)"
proof -
  let ?h = "\<lparr>bh_capacity = 32, bh_tail = 31, bh_index = [0..<32]\<rparr>"
  let ?es = "replicate 32 \<lparr>be_key = INVALID_BLOCK_BASE, be_value = None\<rparr>"
  have "ring_shape ?h 5 (length ?es)" by (simp add: ring_shape_def)
  moreover from this have "be_value (?es ! ring_slot ?h d) = None" if "d < 2 ^ 5" for d
    using ring_slot_less [of ?h 5 "length ?es" d] by simp
  ultimately have "ring_ok ?h ?es 5 0 []" by (simp add: ring_ok_def)
  then have "\<exists>k. ring_ok ?h ?es k 0 [] \<and> (64 :: u64) = 2 ^ Suc k" by (intro exI [of _ 5]) simp
  moreover have "new_producer mok p = (\<lparr>tailIndex = 0, headIndex = 0, dequeueOptimisticCount = 0,
      dequeueOvercommit = 0, tailBlock = None, inactive = False,
      nextBlockIndexCapacity = (if mok (mallocs p) then 64 else 32),
      blockIndex = (if mok (mallocs p) then [?h] else []), entries = (if mok (mallocs p) then ?es else [])\<rparr>,
      p\<lparr>mallocs := mallocs p + 1\<rparr>)"
    by (cases "mok (mallocs p)") (simp_all add: new_producer_def new_block_index_def current_header_def
        IMPLICIT_INITIAL_INDEX_SIZE_def push_bit_eq_mult cong: if_cong)
  ultimately show ?thesis
    using assms by (auto simp: queue_ok_def queue_core_def index_ok_def slot_of_def base_of_def)
qed

section \<open>The invariant of the queue\<close>

text \<open>
  \<open>m\<close> is the producer of each thread that has one, \<open>bls\<close> and \<open>cs\<close> the blocks and the elements
  of each producer. \<open>T\<close> is the set of the threads that use the queue.
\<close>

definition producers_ok :: "nat list list \<Rightarrow> 'a list list \<Rightarrow> 'a queue \<Rightarrow> bool" where
  "producers_ok bls cs q \<longleftrightarrow>
     length bls = length (producers q) \<and> length cs = length (producers q) \<and>
     (\<forall>j < length (producers q).
        queue_ok (heap (blocks q)) (producers q ! j) (bls ! j) (cs ! j) \<and> \<not> inactive (producers q ! j)) \<and>
     (\<forall>j < length bls. \<forall>l < length bls. j \<noteq> l \<longrightarrow> set (bls ! j) \<inter> set (bls ! l) = {}) \<and>
     pool_inv (blocks q) (\<Union> (set ` set bls))"

definition hashes_ok :: "thread_id set \<Rightarrow> (thread_id \<rightharpoonup> nat) \<Rightarrow> 'a queue \<Rightarrow> bool" where
  "hashes_ok T m q \<longleftrightarrow>
     finite T \<and> card T < 2 ^ 59 \<and> (\<forall>i \<in> T. 1 < i) \<and> dom m \<subseteq> T \<and> ran m = {..<length (producers q)} \<and> inj_on m (dom m) \<and>
     implicitProducerHash q \<noteq> [] \<and> (\<forall>t \<in> set (implicitProducerHash q). table_ok m t) \<and>
     dom m \<subseteq> (\<Union>t \<in> set (implicitProducerHash q). used_keys t) \<and>
     unat (implicitProducerHashCount q) = card (dom m) \<and>
     4 * card (dom m) < 3 * unat (ph_capacity (hd (implicitProducerHash q))) \<and>
     \<not> resizeInProgress q"

definition queue_state :: "thread_id set \<Rightarrow> 'a queue \<Rightarrow> (thread_id \<rightharpoonup> nat) \<Rightarrow> nat list list \<Rightarrow> 'a list list \<Rightarrow> bool" where
  "queue_state T q m bls cs \<longleftrightarrow> producers_ok bls cs q \<and> hashes_ok T m q"

text \<open>What the queue holds for each thread, from the oldest to the newest element.\<close>

definition queue_repr :: "thread_id set \<Rightarrow> 'a queue \<Rightarrow> (thread_id \<Rightarrow> 'a list) \<Rightarrow> bool" where
  "queue_repr T q c \<longleftrightarrow>
     (\<exists>m bls cs. queue_state T q m bls cs \<and>
        c = (\<lambda>i. case m i of None \<Rightarrow> [] | Some j \<Rightarrow> cs ! j))"

definition other_blocks :: "nat list list \<Rightarrow> nat \<Rightarrow> nat set" where
  "other_blocks bls j = (\<Union>l \<in> {..<length bls} - {j}. set (bls ! l))"

lemma other_blocks_cover:
  "j < length bls \<Longrightarrow> other_blocks bls j \<union> set (bls ! j) = \<Union> (set ` set bls)"
proof -
  assume j: "j < length bls"
  then have "{..<length bls} = insert j ({..<length bls} - {j})" by auto
  then have "(\<Union>l < length bls. set (bls ! l)) = set (bls ! j) \<union> other_blocks bls j"
    unfolding other_blocks_def by (metis UN_insert)
  moreover have "\<Union> (set ` set bls) = (\<Union>l < length bls. set (bls ! l))"
    by (simp add: set_conv_nth image_def) blast
  ultimately show ?thesis by blast
qed

lemma producers_subqueue:
  assumes q: "producers_ok bls cs q" and j: "j < length (producers q)"
  shows "subqueue (other_blocks bls j) (producers q ! j) (blocks q) (bls ! j) (cs ! j)"
proof -
  have len: "length bls = length (producers q)" using q by (simp add: producers_ok_def)
  have "set (bls ! j) \<inter> other_blocks bls j = {}"
    using q j unfolding producers_ok_def other_blocks_def by fastforce
  then show ?thesis
    using q j other_blocks_cover [of j bls] len by (simp add: subqueue_def producers_ok_def)
qed

text \<open>An operation on one sub-queue leaves the other sub-queues as they were.\<close>

lemma producers_ok_update:
  assumes q: "producers_ok bls cs q" and j: "j < length (producers q)"
    and s: "subqueue (other_blocks bls j) pr p bl xs" and act: "\<not> inactive pr"
    and frame: "\<forall>a \<in> other_blocks bls j. heap p a = heap (blocks q) a"
  shows "producers_ok (bls[j := bl]) (cs[j := xs]) (q\<lparr>producers := (producers q)[j := pr], blocks := p\<rparr>)"
proof -
  let ?n = "length (producers q)"
  have len: "length bls = ?n" "length cs = ?n" using q by (simp_all add: producers_ok_def)
  have others: "set (bls ! l) \<subseteq> other_blocks bls j" if "l < ?n" "l \<noteq> j" for l
    using that len by (auto simp: other_blocks_def)
  have each: "queue_ok (heap p) ((producers q)[j := pr] ! l) (bls[j := bl] ! l) (cs[j := xs] ! l) \<and>
      \<not> inactive ((producers q)[j := pr] ! l)" if l: "l < ?n" for l
  proof (cases "l = j")
    case True
    with s act l len show ?thesis by (simp add: subqueue_def)
  next
    case False
    have old: "queue_ok (heap (blocks q)) (producers q ! l) (bls ! l) (cs ! l)" "\<not> inactive (producers q ! l)"
      using q l by (simp_all add: producers_ok_def)
    from old(1) have "queue_ok (heap p) (producers q ! l) (bls ! l) (cs ! l)"
      by (rule queue_ok_cong) (use frame others [OF l False] in auto)
    with old(2) False show ?thesis by simp
  qed
  have dis: "set (bls[j := bl] ! a) \<inter> set (bls[j := bl] ! b) = {}" if "a < ?n" "b < ?n" "a \<noteq> b" for a b
  proof -
    have "set bl \<inter> other_blocks bls j = {}" using s by (simp add: subqueue_def)
    then have "l < ?n \<Longrightarrow> l \<noteq> j \<Longrightarrow> set bl \<inter> set (bls ! l) = {}" for l using others by blast
    moreover have "a \<noteq> j \<Longrightarrow> b \<noteq> j \<Longrightarrow> set (bls ! a) \<inter> set (bls ! b) = {}"
      using q that len unfolding producers_ok_def by metis
    ultimately show ?thesis using that len by (cases "a = j"; cases "b = j") (auto simp: Int_commute)
  qed
  have "\<Union> (set ` set (bls[j := bl])) = other_blocks (bls[j := bl]) j \<union> set (bls[j := bl] ! j)"
    using j len other_blocks_cover [of j "bls[j := bl]"] by simp
  also have "\<dots> = other_blocks bls j \<union> set bl" using j len by (simp add: other_blocks_def)
  finally have "pool_inv p (\<Union> (set ` set (bls[j := bl])))" using s by (simp add: subqueue_def)
  with each dis len show ?thesis by (simp add: producers_ok_def)
qed

section \<open>The producer of a thread\<close>

lemma add_producer_ok:
  assumes q: "producers_ok bls cs q" and new: "new_producer mok (blocks q) = (pr, p)"
  shows "producers_ok (bls @ [[]]) (cs @ [[]]) (snd (add_producer pr (q\<lparr>blocks := p\<rparr>)))"
proof -
  let ?n = "length (producers q)"
  have len: "length bls = ?n" "length cs = ?n" using q by (simp_all add: producers_ok_def)
  have pr: "queue_ok (heap p) pr [] []" "\<not> inactive pr" "heap p = heap (blocks q)"
    "pool_inv p (\<Union> (set ` set bls))"
    using new_producer_ok [OF new, of _ "\<Union> (set ` set bls)"] q by (auto simp: producers_ok_def)
  have "queue_ok (heap p) ((producers q @ [pr]) ! j) ((bls @ [[]]) ! j) ((cs @ [[]]) ! j) \<and>
      \<not> inactive ((producers q @ [pr]) ! j)" if "j < Suc ?n" for j
    using that pr q len by (cases "j = ?n") (auto simp: producers_ok_def nth_append)
  moreover have "set ((bls @ [[]]) ! j) \<inter> set ((bls @ [[]]) ! l) = {}"
    if "j < Suc ?n" "l < Suc ?n" "j \<noteq> l" for j l
    using that q len by (cases "j = ?n"; cases "l = ?n") (auto simp: producers_ok_def nth_append)
  ultimately show ?thesis using pr(4) len by (simp add: producers_ok_def add_producer_def)
qed

lemma no_inactive:
  assumes "producers_ok bls cs q"
  shows "find (\<lambda>j. inactive (producers q ! j)) (newest_first q) = None"
  using assms by (auto simp: find_None_iff newest_first_def producers_ok_def)

lemma producers_ok_cong:
  "producers q' = producers q \<Longrightarrow> heap (blocks q') = heap (blocks q) \<Longrightarrow>
   (\<And>used. pool_inv (blocks q) used \<Longrightarrow> pool_inv (blocks q') used) \<Longrightarrow>
   producers_ok bls cs q \<Longrightarrow> producers_ok bls cs q'"
  by (simp add: producers_ok_def)

lemma recycle_or_create_ok:
  assumes q: "producers_ok bls cs q"
  shows "\<exists>r q'. recycle_or_create_producer mok q = (r, q') \<and>
    implicitProducerHash q' = implicitProducerHash q \<and> resizeInProgress q' = resizeInProgress q \<and>
    implicitProducerHashCount q' = implicitProducerHashCount q \<and>
    (case r of None \<Rightarrow> producers_ok bls cs q' \<and> length (producers q') = length (producers q)
     | Some j \<Rightarrow> j = length (producers q) \<and> length (producers q') = Suc j \<and> producers_ok (bls @ [[]]) (cs @ [[]]) q')"
proof -
  let ?q = "q\<lparr>blocks := (blocks q)\<lparr>mallocs := mallocs (blocks q) + 1\<rparr>\<rparr>"
  have q1: "producers_ok bls cs ?q" by (rule producers_ok_cong [OF _ _ _ q]) simp_all
  show ?thesis
  proof (cases "mok (mallocs (blocks q))")
    case False
    then have "recycle_or_create_producer mok q = (None, ?q)"
      by (simp add: recycle_or_create_producer_def no_inactive [OF q])
    with q1 show ?thesis by simp
  next
    case True
    obtain pr p where new: "new_producer mok (blocks ?q) = (pr, p)" by fastforce
    have "recycle_or_create_producer mok q
        = (Some (length (producers q)), snd (add_producer pr (?q\<lparr>blocks := p\<rparr>)))"
      using True new by (simp add: recycle_or_create_producer_def no_inactive [OF q] add_producer_def)
    with add_producer_ok [OF q1 new] show ?thesis by (simp add: add_producer_def)
  qed
qed

lemma drop_bit_1_power: "k < 63 \<Longrightarrow> drop_bit 1 (2 ^ Suc k :: u64) = 2 ^ k"
proof -
  assume k: "k < 63"
  have "unat (drop_bit 1 (2 ^ Suc k :: u64)) = unat (2 ^ Suc k :: u64) div 2"
    by (simp only: drop_bit_eq_div unat_div) simp
  also have "\<dots> = unat (2 ^ k :: u64)" using k unat_2_power [of "Suc k"] by simp
  finally show ?thesis by (simp add: word_unat_eq_iff)
qed

text \<open>A table is replaced before it is three quarters full, by one that is at most three
  eighths full.\<close>

lemma resize_hash_ok:
  assumes q: "producers_ok bls cs q" and free: "\<not> resizeInProgress q"
    and cap: "ph_capacity (hd (implicitProducerHash q)) = 2 ^ k" "5 \<le> k" "k < 62"
    and count: "4 * unat newCount < 3 * 2 ^ k + 4" "unat newCount < 2 ^ 60"
  shows "\<exists>ok q'. resize_hash mok newCount q = Some (ok, q') \<and> producers_ok bls cs q' \<and>
    producers q' = producers q \<and> \<not> resizeInProgress q' \<and>
    (if ok then implicitProducerHashCount q' = implicitProducerHashCount q \<and>
       (implicitProducerHash q' = implicitProducerHash q \<and> 2 * unat newCount < 2 ^ k \<or>
        implicitProducerHash q' = empty_hash (2 ^ Suc k) # implicitProducerHash q \<and> Suc k < 62)
     else implicitProducerHash q' = implicitProducerHash q \<and>
       implicitProducerHashCount q' = implicitProducerHashCount q - 1)"
proof -
  obtain c where c: "k = Suc c" "4 \<le> c" "c < 61" using cap by (cases k) auto
  have half: "drop_bit 1 (ph_capacity (hd (implicitProducerHash q))) = 2 ^ c"
    using drop_bit_1_power [of c] c cap(1) by simp
  show ?thesis
  proof (cases "newCount \<ge> 2 ^ c")
    case False
    then have "resize_hash mok newCount q = Some (True, q)" by (simp add: resize_hash_def half del: One_nat_def)
    moreover have "2 * unat newCount < 2 ^ k"
      using False c by (simp add: word_le_nat_alt)
    ultimately show ?thesis using q free by auto
  next
    case True
    then have lower: "2 ^ c \<le> unat newCount" using c by (simp add: word_le_nat_alt)
    then have "(2 :: nat) ^ c < 2 ^ 60" using count(2) by linarith
    then have c60: "c < 60" using power_strict_increasing_iff [of "2 :: nat" c 60] by simp
    have "(16 :: nat) \<le> 2 ^ c" using power_increasing [of 4 c "2 :: nat"] c by simp
    then have "unat newCount < 2 ^ Suc c" using count(1) c by simp
    then have less: "\<not> newCount \<ge> drop_bit 1 (2 ^ Suc k :: u64)"
      using drop_bit_1_power [of k] unat_2_power [of "Suc c"] c c60
      by (simp add: word_le_nat_alt del: One_nat_def)
    have "grow_capacity newCount (push_bit 1 (ph_capacity (hd (implicitProducerHash q)))) = Some (2 ^ Suc k)"
      using less cap by (subst grow_capacity.simps) (simp add: push_bit_eq_mult mult.commute)
    then have run: "resize_hash mok newCount q =
      (let q' = q\<lparr>blocks := (blocks q)\<lparr>mallocs := mallocs (blocks q) + 1\<rparr>, resizeInProgress := False\<rparr> in
        if \<not> mok (mallocs (blocks q))
        then Some (False, q'\<lparr>implicitProducerHashCount := implicitProducerHashCount q - 1\<rparr>)
        else Some (True, q'\<lparr>implicitProducerHash := empty_hash (2 ^ Suc k) # implicitProducerHash q\<rparr>))"
      using True free by (simp add: resize_hash_def half Let_def del: One_nat_def)
    have "producers_ok bls cs q'"
      if "producers q' = producers q" "blocks q' = (blocks q)\<lparr>mallocs := mallocs (blocks q) + 1\<rparr>" for q'
      by (rule producers_ok_cong [OF _ _ _ q]) (simp_all add: that)
    then show ?thesis using c c60 by (cases "mok (mallocs (blocks q))") (simp_all add: run Let_def ex_bool_eq)
  qed
qed

text \<open>The three cases of the hash: a table that is current, replaced, or extended.\<close>

definition tables_ok :: "(thread_id \<rightharpoonup> nat) \<Rightarrow> implicit_producer_hash list \<Rightarrow> bool" where
  "tables_ok m ts \<longleftrightarrow> ts \<noteq> [] \<and> (\<forall>t \<in> set ts. table_ok m t) \<and> finite (dom m) \<and>
     dom m \<subseteq> (\<Union>t \<in> set ts. used_keys t) \<and> 4 * card (dom m) < 3 * unat (ph_capacity (hd ts))"

lemma tables_main:
  assumes "tables_ok m ts"
  obtains k where "ph_capacity (hd ts) = 2 ^ k" "5 \<le> k" "k < 62" "length (ph_entries (hd ts)) = 2 ^ k"
    "card (used_keys (hd ts)) \<le> card (dom m)" "4 * card (dom m) < 3 * 2 ^ k" "table_ok m (hd ts)"
proof -
  have t: "table_ok m (hd ts)" using assms by (cases ts) (auto simp: tables_ok_def)
  then obtain k where k: "ph_capacity (hd ts) = 2 ^ k" "5 \<le> k" "k < 62" "length (ph_entries (hd ts)) = 2 ^ k"
    by (rule table_capacity)
  have "card (used_keys (hd ts)) \<le> card (dom m)"
    using used_keys_dom(1) [OF t] assms by (auto simp: tables_ok_def intro: card_mono)
  with t k assms show thesis by (intro that) (auto simp: tables_ok_def)
qed

lemma tables_put:
  assumes ts: "tables_ok m ts" and i: "1 < i" "i \<notin> used_keys (hd ts)" "m i = Some j"
  shows "\<exists>main. put_in_hash i (Some j) (hash_thread_id i) (hd ts) = Some (False, main) \<and>
    tables_ok m (main # tl ts)"
proof -
  from ts obtain k where k: "ph_capacity (hd ts) = 2 ^ k" "5 \<le> k" "length (ph_entries (hd ts)) = 2 ^ k"
    "4 * card (dom m) < 3 * 2 ^ k" and t: "table_ok m (hd ts)" by (rule tables_main)
  have fin: "finite (dom m)" using ts by (simp add: tables_ok_def)
  have "used_keys (hd ts) \<subset> dom m" using used_keys_dom(1) [OF t] i(2,3) by blast
  then have "card (used_keys (hd ts)) < card (dom m)" by (rule psubset_card_mono [OF fin])
  then have "Suc (card (used_keys (hd ts))) < length (ph_entries (hd ts))" using k by simp
  from put_in_hash_ok [OF t i(2) i(1) i(3) _ this] obtain main
    where "put_in_hash i (Some j) (hash_thread_id i) (hd ts) = Some (False, main)" "table_ok m main"
    "used_keys main = insert i (used_keys (hd ts))" "ph_capacity main = ph_capacity (hd ts)" by auto
  then show ?thesis using ts by (cases ts) (auto simp: tables_ok_def)
qed

lemma tables_extend:
  assumes ts: "tables_ok m ts" and i: "m i = None" "1 < i" and room: "4 * Suc (card (dom m)) < 3 * unat (ph_capacity (hd ts))"
  shows "\<exists>main. put_in_hash i (Some j) (hash_thread_id i) (hd ts) = Some (False, main) \<and>
    tables_ok (m(i \<mapsto> j)) (main # tl ts)"
proof -
  let ?m = "m(i \<mapsto> j)"
  from ts obtain k where k: "ph_capacity (hd ts) = 2 ^ k" "5 \<le> k" "k < 62" "length (ph_entries (hd ts)) = 2 ^ k"
    "card (used_keys (hd ts)) \<le> card (dom m)" and t: "table_ok m (hd ts)" by (rule tables_main)
  have t': "table_ok ?m (hd ts)" by (rule table_ok_extend [OF t i(1)])
  have nin: "i \<notin> used_keys (hd ts)" using used_keys_dom(1) [OF t] i(1) by blast
  have "Suc (card (used_keys (hd ts))) < length (ph_entries (hd ts))" using k room by simp
  from put_in_hash_ok [OF t' nin i(2) _ _ this, of "Some j"] obtain main
    where "put_in_hash i (Some j) (hash_thread_id i) (hd ts) = Some (False, main)" "table_ok ?m main"
    "used_keys main = insert i (used_keys (hd ts))" "ph_capacity main = ph_capacity (hd ts)" by auto
  moreover have "table_ok ?m t" if "t \<in> set (tl ts)" for t
    using that ts i(1) by (cases ts) (auto simp: tables_ok_def intro: table_ok_extend)
  moreover have "card (dom ?m) = Suc (card (dom m))"
    using ts i(1) by (simp add: tables_ok_def domIff)
  ultimately show ?thesis using ts room by (cases ts) (auto simp: tables_ok_def)
qed

lemma tables_resize:
  assumes ts: "tables_ok m ts" and k: "ph_capacity (hd ts) = 2 ^ k" "5 \<le> k" "k < 62"
    and new: "ts' = ts \<and> 2 * Suc (card (dom m)) < 2 ^ k \<or> ts' = empty_hash (2 ^ Suc k) # ts \<and> Suc k < 62"
  shows "tables_ok m ts' \<and> (\<exists>l. ph_capacity (hd ts') = 2 ^ l \<and> 5 \<le> l \<and> l < 62 \<and> 2 * Suc (card (dom m)) < 2 ^ l)"
  using new
proof
  assume "ts' = ts \<and> 2 * Suc (card (dom m)) < 2 ^ k"
  with ts k show ?thesis by blast
next
  assume A: "ts' = empty_hash (2 ^ Suc k) # ts \<and> Suc k < 62"
  have cap: "unat (ph_capacity (hd ts)) = 2 ^ k" "unat (2 ^ Suc k :: u64) = 2 ^ Suc k"
    using k A by (simp_all add: unat_2_power del: power_Suc)
  have lim: "4 * card (dom m) < 3 * 2 ^ k" using ts cap by (simp add: tables_ok_def)
  have "table_ok m (empty_hash (2 ^ Suc k))" using k A by (intro table_ok_empty_hash) simp_all
  then have "tables_ok m ts'"
    using ts A lim cap by (auto simp: tables_ok_def empty_hash_def)
  moreover have "(32 :: nat) \<le> 2 ^ k" using power_increasing [of 5 k "2 :: nat"] k by simp
  then have "2 * Suc (card (dom m)) < 2 ^ Suc k" using lim by simp
  ultimately show ?thesis using A k by (intro conjI exI [of _ "Suc k"]) (simp_all add: empty_hash_def)
qed

lemma three_quarters:
  assumes "5 \<le> l" "l < 62" "2 * unat n < 2 ^ l"
  shows "n < drop_bit 1 (2 ^ l :: u64) + drop_bit 2 (2 ^ l)"
proof -
  obtain c where c: "l = Suc c" "c < 61" using assms by (cases l) auto
  have half: "drop_bit 1 (2 ^ l :: u64) = 2 ^ c" using drop_bit_1_power [of c] c by simp
  have le: "(2 :: nat) ^ l < 2 ^ 62" using assms(2) by (intro power_strict_increasing) simp_all
  have quarter: "unat (drop_bit 2 (2 ^ l :: u64)) \<le> 2 ^ c"
    using c assms by (simp add: drop_bit_eq_div unat_div unat_2_power del: power_Suc) (simp add: div_le_mono2)
  have "unat (drop_bit 1 (2 ^ l :: u64) + drop_bit 2 (2 ^ l)) = 2 ^ c + unat (drop_bit 2 (2 ^ l :: u64))"
    using quarter c le unfolding half by (subst unat_add_lem [THEN iffD1]) (simp_all add: unat_2_power)
  then show ?thesis using assms(3) c by (simp add: word_less_nat_alt)
qed

lemma hashes_tables:
  "hashes_ok T m q \<Longrightarrow> tables_ok m (implicitProducerHash q)"
  by (auto simp: hashes_ok_def tables_ok_def intro: finite_subset)

lemma get_or_add_ok:
  assumes st: "queue_state T q m bls cs" and i: "i \<in> T"
  shows "\<exists>r q' m' bls' cs'. get_or_add_implicit_producer mok i q = Some (r, q') \<and>
    queue_state T q' m' bls' cs' \<and> m' i = r \<and>
    (if r = m i then m' = m \<and> cs' = cs else m i = None \<and> r = Some (length cs) \<and> m' = m(i := r) \<and> cs' = cs @ [[]])"
proof -
  let ?ts = "implicitProducerHash q" and ?h = "hash_thread_id i"
  have prods: "producers_ok bls cs q" and hash: "hashes_ok T m q" using st by (simp_all add: queue_state_def)
  have ts: "tables_ok m ?ts" by (rule hashes_tables [OF hash])
  have i1: "1 < i" using hash i by (simp add: hashes_ok_def)
  have each: "\<forall>t \<in> set ?ts. table_ok m t" using ts by (simp add: tables_ok_def)
  from search_hashes_ok [OF each i1] obtain f where f: "search_hashes ?ts i ?h = Some f"
    and fok: "case f of None \<Rightarrow> \<forall>t \<in> set ?ts. i \<notin> used_keys t
     | Some (d, v) \<Rightarrow> d < length ?ts \<and> v = m i \<and> v \<noteq> None \<and> (\<forall>e < d. i \<notin> used_keys (?ts ! e)) \<and> i \<in> used_keys (?ts ! d)"
    by blast
  show ?thesis
  proof (cases f)
    case (Some dv)
    then obtain d v where f': "f = Some (d, v)" by (cases dv) simp
    with fok have v: "v = m i" "m i \<noteq> None" and d: "\<forall>e < d. i \<notin> used_keys (?ts ! e)" by auto
    show ?thesis
    proof (cases "d = 0")
      case True
      with f f' v have "get_or_add_implicit_producer mok i q = Some (m i, q)"
        by (simp add: get_or_add_implicit_producer_def)
      with st show ?thesis by auto
    next
      case False
      with d ts have "i \<notin> used_keys (hd ?ts)" by (simp add: tables_ok_def hd_conv_nth)
      from v(2) obtain j where j: "m i = Some j" by blast
      from tables_put [OF ts i1 \<open>i \<notin> used_keys (hd ?ts)\<close> j] obtain main
        where main: "put_in_hash i (Some j) ?h (hd ?ts) = Some (False, main)" "tables_ok m (main # tl ?ts)" by blast
      let ?q = "q\<lparr>implicitProducerHash := main # tl ?ts\<rparr>"
      have "get_or_add_implicit_producer mok i q = Some (m i, ?q)"
        using f f' v False main j by (simp add: get_or_add_implicit_producer_def)
      moreover have "producers_ok bls cs ?q" by (rule producers_ok_cong [OF _ _ _ prods]) simp_all
      moreover have "hashes_ok T m ?q" using hash main(2) by (simp add: hashes_ok_def tables_ok_def)
      ultimately show ?thesis by (auto simp: queue_state_def)
    qed
  next
    case None
    with fok have nowhere: "\<forall>t \<in> set ?ts. i \<notin> used_keys t" by simp
    then have mi: "m i = None" using ts by (auto simp: tables_ok_def domIff)
    let ?n = "1 + implicitProducerHashCount q"
    let ?q0 = "q\<lparr>implicitProducerHashCount := ?n\<rparr>"
    have fin: "finite T" "card T < 2 ^ 59" "dom m \<subseteq> T" using hash by (simp_all add: hashes_ok_def)
    have "dom m \<subset> T" using fin(3) i mi by auto
    then have lt: "card (dom m) < 2 ^ 59" using fin psubset_card_mono [of T "dom m"] by simp
    have count: "unat (implicitProducerHashCount q) = card (dom m)" using hash by (simp add: hashes_ok_def)
    have n: "unat ?n = Suc (card (dom m))"
      using unat_add_small [of "implicitProducerHashCount q" 1] count lt by (simp add: add.commute)
    from ts obtain k where k: "ph_capacity (hd ?ts) = 2 ^ k" "5 \<le> k" "k < 62" "4 * card (dom m) < 3 * 2 ^ k"
      by (rule tables_main)
    have p0: "producers_ok bls cs ?q0" by (rule producers_ok_cong [OF _ _ _ prods]) simp_all
    have free0: "\<not> resizeInProgress ?q0" using hash by (simp add: hashes_ok_def)
    have cap0: "ph_capacity (hd (implicitProducerHash ?q0)) = 2 ^ k" using k(1) by simp
    have n0: "4 * unat ?n < 3 * 2 ^ k + 4" "unat ?n < 2 ^ 60" using n k(4) lt by simp_all
    from resize_hash_ok [OF p0 free0 cap0 k(2,3) n0, of mok] obtain ok q1
      where rs: "resize_hash mok ?n ?q0 = Some (ok, q1)" and p1: "producers_ok bls cs q1"
      and same0: "producers q1 = producers ?q0" and free: "\<not> resizeInProgress q1"
      and grown0: "if ok then implicitProducerHashCount q1 = implicitProducerHashCount ?q0 \<and>
         (implicitProducerHash q1 = implicitProducerHash ?q0 \<and> 2 * unat ?n < 2 ^ k \<or>
          implicitProducerHash q1 = empty_hash (2 ^ Suc k) # implicitProducerHash ?q0 \<and> Suc k < 62)
       else implicitProducerHash q1 = implicitProducerHash ?q0 \<and>
         implicitProducerHashCount q1 = implicitProducerHashCount ?q0 - 1"
      by blast
    have same: "producers q1 = producers q" using same0 by simp
    have grown: "if ok then implicitProducerHashCount q1 = ?n \<and>
         (implicitProducerHash q1 = ?ts \<and> 2 * unat ?n < 2 ^ k \<or>
          implicitProducerHash q1 = empty_hash (2 ^ Suc k) # ?ts \<and> Suc k < 62)
       else implicitProducerHash q1 = ?ts \<and> implicitProducerHashCount q1 = implicitProducerHashCount q"
      using grown0 by (cases ok) simp_all
    have go: "get_or_add_implicit_producer mok i q = add_implicit_producer mok i ?n ?q0"
      using f None by (simp add: get_or_add_implicit_producer_def Let_def)
    have keep: "queue_state T q' m bls cs"
      if "producers_ok bls cs q'" "tables_ok m (implicitProducerHash q')" "\<not> resizeInProgress q'"
        "implicitProducerHashCount q' = implicitProducerHashCount q" "length (producers q') = length (producers q)" for q'
      using that hash by (simp add: queue_state_def hashes_ok_def tables_ok_def)
    show ?thesis
    proof (cases ok)
      case False
      then have "get_or_add_implicit_producer mok i q = Some (None, q1)"
        by (simp add: go add_implicit_producer.simps [of mok i ?n] rs)
      moreover have "queue_state T q1 m bls cs" using p1 free same grown False ts by (intro keep) simp_all
      ultimately show ?thesis using mi by auto
    next
      case True
      have "tables_ok m (implicitProducerHash q1) \<and> (\<exists>l. ph_capacity (hd (implicitProducerHash q1)) = 2 ^ l \<and>
          5 \<le> l \<and> l < 62 \<and> 2 * Suc (card (dom m)) < 2 ^ l)"
        by (rule tables_resize [OF ts k(1-3)]) (use grown True n in auto)
      then obtain l where ts1: "tables_ok m (implicitProducerHash q1)"
        and l: "ph_capacity (hd (implicitProducerHash q1)) = 2 ^ l" "5 \<le> l" "l < 62" "2 * Suc (card (dom m)) < 2 ^ l"
        by blast
      have cnt: "implicitProducerHashCount q1 = ?n" using grown True by simp
      from recycle_or_create_ok [OF p1, of mok] obtain r q2
        where rc: "recycle_or_create_producer mok q1 = (r, q2)"
        and h2: "implicitProducerHash q2 = implicitProducerHash q1" "resizeInProgress q2 = resizeInProgress q1"
          "implicitProducerHashCount q2 = implicitProducerHashCount q1"
        and rok: "case r of None \<Rightarrow> producers_ok bls cs q2 \<and> length (producers q2) = length (producers q1)
          | Some j \<Rightarrow> j = length (producers q1) \<and> length (producers q2) = Suc j \<and> producers_ok (bls @ [[]]) (cs @ [[]]) q2"
        by blast
      have test: "?n < drop_bit 1 (2 ^ l :: u64) + drop_bit 2 (2 ^ l)"
        using three_quarters [of l ?n] l n by simp
      show ?thesis
      proof (cases r)
        case None
        let ?q3 = "q2\<lparr>implicitProducerHashCount := implicitProducerHashCount q2 - 1\<rparr>"
        have "get_or_add_implicit_producer mok i q = Some (None, ?q3)"
          using test by (simp add: go add_implicit_producer.simps [of mok i ?n] rs True Let_def l(1) rc None del: One_nat_def)
        moreover have p3: "producers_ok bls cs ?q3" by (rule producers_ok_cong [of _ q2]) (use rok None in simp_all)
        have "queue_state T ?q3 m bls cs"
          by (rule keep [OF p3]) (use ts1 h2 free cnt rok None same in simp_all)
        ultimately show ?thesis using mi by auto
      next
        case (Some j)
        have j: "j = length (producers q)" "length (producers q2) = Suc j" and p2: "producers_ok (bls @ [[]]) (cs @ [[]]) q2"
          using rok Some same by simp_all
        have "unat (ph_capacity (hd (implicitProducerHash q1))) = 2 ^ l" using l by simp
        then have "4 * Suc (card (dom m)) < 3 * unat (ph_capacity (hd (implicitProducerHash q1)))" using l(4) by simp
        from tables_extend [OF ts1 mi i1 this, of j] obtain main
          where main: "put_in_hash i (Some j) ?h (hd (implicitProducerHash q1)) = Some (False, main)"
            "tables_ok (m(i \<mapsto> j)) (main # tl (implicitProducerHash q1))" by blast
        let ?q3 = "q2\<lparr>implicitProducerHash := main # tl (implicitProducerHash q1),
          implicitProducerHashCount := implicitProducerHashCount q1\<rparr>"
        have "get_or_add_implicit_producer mok i q = Some (Some j, ?q3)"
          using test by (simp add: go add_implicit_producer.simps [of mok i ?n] rs True Let_def l(1) rc Some h2 main(1) del: One_nat_def)
        moreover have "producers_ok (bls @ [[]]) (cs @ [[]]) ?q3" by (rule producers_ok_cong [OF _ _ _ p2]) simp_all
        moreover have "hashes_ok T (m(i \<mapsto> j)) ?q3"
        proof -
          have ran: "ran m = {..<length (producers q)}" and inj: "inj_on m (dom m)" using hash by (simp_all add: hashes_ok_def)
          have "ran (m(i \<mapsto> j)) = {..<Suc j}" using ran j(1) ran_map_upd [of m i j] mi by (simp only: lessThan_Suc)
          moreover have "inj_on (m(i \<mapsto> j)) (dom (m(i \<mapsto> j)))"
          proof -
            have "m x \<noteq> Some j" for x using ran j(1) ranI [of m x j] by (metis lessThan_iff less_irrefl)
            then show ?thesis using inj by (auto simp: inj_on_def)
          qed
          moreover have card: "card (dom (m(i \<mapsto> j))) = Suc (card (dom m))"
            using fin mi by (simp add: domIff finite_subset)
          moreover have "unat (implicitProducerHashCount ?q3) = card (dom (m(i \<mapsto> j)))" using cnt n card by simp
          moreover have "dom (m(i \<mapsto> j)) \<subseteq> T" using fin(3) i by simp
          moreover have "length (producers ?q3) = Suc j" "implicitProducerHash ?q3 = main # tl (implicitProducerHash q1)"
            "\<not> resizeInProgress ?q3" using j(2) h2(2) free by simp_all
          ultimately show ?thesis
            using hash main(2) unfolding hashes_ok_def tables_ok_def by simp
        qed
        moreover have "j = length cs" using j(1) prods by (simp add: producers_ok_def)
        ultimately show ?thesis using mi
          by (intro exI [of _ "Some j"] exI [of _ ?q3] exI [of _ "m(i \<mapsto> j)"] exI [of _ "bls @ [[]]"] exI [of _ "cs @ [[]]"])
            (simp add: queue_state_def)
      qed
    qed
  qed
qed

section \<open>Enqueue and dequeue\<close>

definition contents :: "(thread_id \<rightharpoonup> nat) \<Rightarrow> 'a list list \<Rightarrow> thread_id \<Rightarrow> 'a list" where
  "contents m cs = (\<lambda>i. case m i of None \<Rightarrow> [] | Some j \<Rightarrow> cs ! j)"

lemma queue_repr_contents: "queue_repr T q c \<longleftrightarrow> (\<exists>m bls cs. queue_state T q m bls cs \<and> c = contents m cs)"
  by (simp add: queue_repr_def contents_def)

lemma queue_state_lengths:
  assumes "queue_state T q m bls cs"
  shows "length cs = length (producers q)" "length bls = length (producers q)"
    "\<And>i j. m i = Some j \<Longrightarrow> j < length (producers q) \<and> i \<in> T"
    "\<And>i i'. m i = m i' \<Longrightarrow> m i \<noteq> None \<Longrightarrow> i = i'"
    "\<And>j. j < length (producers q) \<Longrightarrow> \<exists>i. m i = Some j"
proof -
  have prods: "producers_ok bls cs q" and hash: "hashes_ok T m q" using assms by (simp_all add: queue_state_def)
  have ran: "ran m = {..<length (producers q)}" and inj: "inj_on m (dom m)" and T: "dom m \<subseteq> T"
    using hash by (simp_all add: hashes_ok_def)
  show "length cs = length (producers q)" "length bls = length (producers q)"
    using prods by (simp_all add: producers_ok_def)
  show "j < length (producers q) \<and> i \<in> T" if "m i = Some j" for i j
    using that ranI [of m i j] ran T by auto
  show "i = i'" if "m i = m i'" "m i \<noteq> None" for i i'
    using inj that by (metis domIff inj_onD)
  show "\<exists>i. m i = Some j" if "j < length (producers q)" for j
  proof -
    have "j \<in> ran m" using ran that by simp
    then show ?thesis by (auto simp: ran_def)
  qed
qed

lemma contents_new:
  assumes "queue_state T q m bls cs" "m i = None"
  shows "contents (m(i \<mapsto> length cs)) (cs @ [[]]) = contents m cs"
  using queue_state_lengths(1,3) [OF assms(1)] assms(2)
  by (fastforce simp: contents_def nth_append fun_eq_iff split: option.split)

lemma contents_update:
  assumes "queue_state T q m bls cs" "m i = Some j"
  shows "contents m (cs[j := xs]) = (contents m cs)(i := xs)"
proof
  fix x
  have j: "j < length cs" using queue_state_lengths(1,3) [OF assms(1)] assms(2) by simp
  show "contents m (cs[j := xs]) x = ((contents m cs)(i := xs)) x"
  proof (cases "x = i")
    case True
    with j assms(2) show ?thesis by (simp add: contents_def)
  next
    case False
    then have "m x \<noteq> Some j" using queue_state_lengths(4) [OF assms(1), of x i] assms(2) by auto
    with False show ?thesis by (cases "m x") (auto simp: contents_def)
  qed
qed

lemma queue_state_update:
  assumes st: "queue_state T q m bls cs" and j: "j < length (producers q)"
    and s: "subqueue (other_blocks bls j) pr p bl xs" and act: "inactive pr = inactive (producers q ! j)"
    and frame: "\<forall>a \<in> other_blocks bls j. heap p a = heap (blocks q) a"
  shows "queue_state T (q\<lparr>producers := (producers q)[j := pr], blocks := p\<rparr>) m (bls[j := bl]) (cs[j := xs])"
proof -
  have prods: "producers_ok bls cs q" using st by (simp add: queue_state_def)
  then have "\<not> inactive pr" using act j by (simp add: producers_ok_def)
  from producers_ok_update [OF prods j s this frame] st show ?thesis
    by (simp add: queue_state_def hashes_ok_def)
qed

text \<open>What \<open>inner_enqueue\<close> and \<open>inner_enqueue_bulk\<close> do with the producer of the thread.\<close>

definition with_producer ::
  "malloc_ok \<Rightarrow> thread_id \<Rightarrow> (producer \<Rightarrow> 'a pool \<Rightarrow> (bool \<times> producer \<times> 'a pool) option) \<Rightarrow> 'a queue \<Rightarrow> (bool \<times> 'a queue) option" where
  "with_producer mok i f q = do {
     (producer, q) \<leftarrow> get_or_add_implicit_producer mok i q;
     case producer of
       None \<Rightarrow> Some (False, q)
     | Some j \<Rightarrow> do {
         (ok, pr, p) \<leftarrow> f (producers q ! j) (blocks q);
         Some (ok, q\<lparr>producers := (producers q)[j := pr], blocks := p\<rparr>) } }"

lemma with_producer_ok:
  assumes q: "queue_repr T q c" and i: "i \<in> T"
    and op: "\<And>others pr p bl xs. subqueue others pr p bl xs \<Longrightarrow> \<exists>ok pr' p' bl'. f pr p = Some (ok, pr', p') \<and>
      subqueue others pr' p' bl' (if ok then xs @ vs else xs) \<and> (\<forall>a \<in> others. heap p' a = heap p a) \<and> inactive pr' = inactive pr"
  shows "\<exists>ok q'. with_producer mok i f q = Some (ok, q') \<and> queue_repr T q' (if ok then c(i := c i @ vs) else c)"
proof -
  from q obtain m bls cs where st: "queue_state T q m bls cs" and c: "c = contents m cs"
    by (auto simp: queue_repr_contents)
  from get_or_add_ok [OF st i, of mok] obtain r q1 m1 bls1 cs1
    where get: "get_or_add_implicit_producer mok i q = Some (r, q1)" and st1: "queue_state T q1 m1 bls1 cs1"
    and m1: "m1 i = r" and same: "if r = m i then m1 = m \<and> cs1 = cs
      else m i = None \<and> r = Some (length cs) \<and> m1 = m(i := r) \<and> cs1 = cs @ [[]]" by blast
  have c1: "contents m1 cs1 = c" using same contents_new [OF st] c by (auto split: if_splits)
  show ?thesis
  proof (cases r)
    case None
    with get have "with_producer mok i f q = Some (False, q1)" by (simp add: with_producer_def)
    with st1 c1 show ?thesis by (auto simp: queue_repr_contents ex_bool_eq)
  next
    case (Some j)
    with m1 have mi: "m1 i = Some j" by simp
    have j: "j < length (producers q1)" using queue_state_lengths(3) [OF st1 mi] by simp
    have prods: "producers_ok bls1 cs1 q1" using st1 by (simp add: queue_state_def)
    from op [OF producers_subqueue [OF prods j]] obtain ok pr p bl
      where enq: "f (producers q1 ! j) (blocks q1) = Some (ok, pr, p)"
      and s: "subqueue (other_blocks bls1 j) pr p bl (if ok then cs1 ! j @ vs else cs1 ! j)"
      and frame: "\<forall>a \<in> other_blocks bls1 j. heap p a = heap (blocks q1) a"
      and act: "inactive pr = inactive (producers q1 ! j)" by blast
    let ?q = "q1\<lparr>producers := (producers q1)[j := pr], blocks := p\<rparr>"
    have "with_producer mok i f q = Some (ok, ?q)"
      using get Some enq by (simp add: with_producer_def)
    moreover have "queue_state T ?q m1 (bls1[j := bl]) (cs1[j := if ok then cs1 ! j @ vs else cs1 ! j])"
      by (rule queue_state_update [OF st1 j s act frame])
    moreover have "contents m1 (cs1[j := if ok then cs1 ! j @ vs else cs1 ! j]) = (if ok then c(i := c i @ vs) else c)"
    proof -
      have "c i = cs1 ! j" using c1 mi by (auto simp: contents_def)
      then show ?thesis by (simp add: contents_update [OF st1 mi] c1 fun_upd_idem)
    qed
    ultimately show ?thesis unfolding queue_repr_contents
      by (intro exI [of _ ok] exI [of _ ?q] conjI exI [of _ m1] exI [of _ "bls1[j := bl]"]
          exI [of _ "cs1[j := if ok then cs1 ! j @ vs else cs1 ! j]"]) simp_all
  qed
qed

lemma enqueue_with_producer: "enqueue mok i v = with_producer mok i (producer_enqueue mok v)"
  by (simp add: fun_eq_iff enqueue_def inner_enqueue_def with_producer_def)

lemma enqueue_ok:
  assumes q: "queue_repr T q c" and i: "i \<in> T"
  shows "\<exists>ok q'. enqueue mok i v q = Some (ok, q') \<and> queue_repr T q' (if ok then c(i := c i @ [v]) else c)"
  unfolding enqueue_with_producer by (rule with_producer_ok [OF q i producer_enqueue_ok])

lemma choose_best_ok:
  assumes "\<forall>j \<in> set js. P j \<longleftrightarrow> 0 < producer_size_approx (prs ! j)" "best = None \<longleftrightarrow> n = 0" "0 < bestSize \<longleftrightarrow> 0 < n"
    "\<forall>b. best = Some b \<longrightarrow> P b"
  shows "case choose_best prs js n best bestSize of (n', best') \<Rightarrow>
    (n' = 0 \<longleftrightarrow> n = 0 \<and> (\<forall>j \<in> set js. \<not> P j)) \<and> (0 < n' \<longrightarrow> (\<exists>b. best' = Some b \<and> P b \<and> (b \<in> set js \<or> best = Some b)))"
  using assms
proof (induction js arbitrary: n best bestSize)
  case Nil
  then show ?case by (cases best) auto
next
  case (Cons j js)
  then have IH: "\<And>n best bestSize. (best = None \<longleftrightarrow> n = 0) \<Longrightarrow> (0 < bestSize \<longleftrightarrow> 0 < n) \<Longrightarrow> (\<forall>b. best = Some b \<longrightarrow> P b) \<Longrightarrow>
    case choose_best prs js n best bestSize of (n', best') \<Rightarrow>
      (n' = 0 \<longleftrightarrow> n = 0 \<and> (\<forall>j \<in> set js. \<not> P j)) \<and> (0 < n' \<longrightarrow> (\<exists>b. best' = Some b \<and> P b \<and> (b \<in> set js \<or> best = Some b)))"
    by simp
  have j: "P j \<longleftrightarrow> 0 < producer_size_approx (prs ! j)" using Cons by simp
  show ?case
  proof (cases "n < 3 \<and> P j")
    case True
    let ?b = "if bestSize < producer_size_approx (prs ! j) then Some j else best"
    let ?s = "if bestSize < producer_size_approx (prs ! j) then producer_size_approx (prs ! j) else bestSize"
    have step: "choose_best prs (j # js) n best bestSize = choose_best prs js (n + 1) ?b ?s"
      using True j by (simp add: Let_def)
    have "?s \<noteq> 0" using True j by auto
    moreover have "?b \<noteq> None" using True j Cons(3,4) by auto
    moreover have "\<forall>b. ?b = Some b \<longrightarrow> P b" using True Cons(5) by auto
    ultimately show ?thesis
      unfolding step using IH [of ?b "n + 1" ?s] True
      by (auto split: prod.splits if_splits simp: word_gt_0)
  next
    case False
    show ?thesis
    proof (cases "n < 3")
      case True
      with False j have "choose_best prs (j # js) n best bestSize = choose_best prs js n best bestSize"
        by (simp add: Let_def)
      then show ?thesis using IH [OF Cons(3-5)] False True by (auto split: prod.splits)
    next
      case big: False
      then show ?thesis using Cons(3-5) by (cases best) auto
    qed
  qed
qed

lemma producer_size_ok:
  assumes "queue_core hp pr bl xs"
  shows "producer_size_approx pr = of_nat (length xs)"
proof -
  have u: "unat (tailIndex pr - headIndex pr) = length xs" "length xs < 2 ^ 63"
    using queue_length [OF assms] by simp_all
  then have "tailIndex pr - headIndex pr = of_nat (length xs)" by (metis of_nat_unat ucast_id)
  then show ?thesis
    using u by (auto simp: producer_size_approx_def circular_less_than_iff)
qed

lemma producer_size_pos:
  assumes "queue_core hp pr bl xs"
  shows "xs \<noteq> [] \<longleftrightarrow> 0 < producer_size_approx pr"
proof -
  have "unat (producer_size_approx pr) = length xs"
    using queue_length(1) [OF assms] by (simp add: producer_size_ok [OF assms] unat_of_nat_u64)
  then show ?thesis by (simp add: word_less_nat_alt)
qed

lemma set_newest_first [simp]: "set (newest_first q) = {..<length (producers q)}"
  by (auto simp: newest_first_def)

lemma try_dequeue_ok:
  assumes q: "queue_repr T q c"
  shows "\<exists>r q'. try_dequeue q = Some (r, q') \<and>
    (case r of None \<Rightarrow> (\<forall>i. c i = []) \<and> queue_repr T q' c
     | Some v \<Rightarrow> \<exists>i \<in> T. \<exists>ys. c i = v # ys \<and> queue_repr T q' (c(i := ys)))"
proof -
  from q obtain m bls cs where st: "queue_state T q m bls cs" and c: "c = contents m cs"
    by (auto simp: queue_repr_contents)
  have prods: "producers_ok bls cs q" using st by (simp add: queue_state_def)
  have pos: "cs ! j \<noteq> [] \<longleftrightarrow> 0 < producer_size_approx (producers q ! j)" if "j < length (producers q)" for j
  proof (rule producer_size_pos)
    show "queue_core (heap (blocks q)) (producers q ! j) (bls ! j) (cs ! j)"
      using prods that by (simp add: producers_ok_def queue_ok_def)
  qed
  obtain n best where ch: "choose_best (producers q) (newest_first q) 0 None 0 = (n, best)" by fastforce
  have "case choose_best (producers q) (newest_first q) 0 None 0 of (n', best') \<Rightarrow>
    (n' = 0 \<longleftrightarrow> (0 :: nat) = 0 \<and> (\<forall>j \<in> set (newest_first q). \<not> cs ! j \<noteq> [])) \<and>
    (0 < n' \<longrightarrow> (\<exists>b. best' = Some b \<and> cs ! b \<noteq> [] \<and> (b \<in> set (newest_first q) \<or> None = Some b)))"
    by (rule choose_best_ok) (use pos in auto)
  then have none: "n = 0 \<longleftrightarrow> (\<forall>j < length (producers q). cs ! j = [])"
    and some: "0 < n \<longrightarrow> (\<exists>b. best = Some b \<and> cs ! b \<noteq> [] \<and> b < length (producers q))"
    unfolding ch by auto
  show ?thesis
  proof (cases "n = 0")
    case True
    then have "try_dequeue q = Some (None, q)" by (simp add: try_dequeue_def ch)
    moreover have "c i = []" for i
      using none True queue_state_lengths(3) [OF st] by (auto simp: c contents_def split: option.split)
    ultimately show ?thesis using q by simp
  next
    case False
    with some obtain j where best: "best = Some j" and j: "cs ! j \<noteq> []" "j < length (producers q)" by auto
    then obtain v ys where vys: "cs ! j = v # ys" by (meson neq_Nil_conv)
    from queue_state_lengths(5) [OF st j(2)] obtain i where i: "m i = Some j" by blast
    have "subqueue (other_blocks bls j) (producers q ! j) (blocks q) (bls ! j) (v # ys)"
      using producers_subqueue [OF prods j(2)] vys by simp
    from producer_dequeue_ok [OF this] obtain pr p bl
      where deq: "producer_dequeue (producers q ! j) (blocks q) = Some (Some v, pr, p)"
      and s: "subqueue (other_blocks bls j) pr p bl ys"
      and frame: "\<forall>a \<in> other_blocks bls j. heap p a = heap (blocks q) a"
      and act: "inactive pr = inactive (producers q ! j)" by blast
    let ?q = "q\<lparr>producers := (producers q)[j := pr], blocks := p\<rparr>"
    have "try_dequeue q = Some (Some v, ?q)"
      using False best deq by (simp add: try_dequeue_def ch dequeue_from_def)
    moreover have "queue_state T ?q m (bls[j := bl]) (cs[j := ys])"
      by (rule queue_state_update [OF st j(2) s act frame])
    then have "queue_repr T ?q (c(i := ys))"
      unfolding queue_repr_contents using contents_update [OF st i, of ys] c by metis
    moreover have "c i = v # ys" using i vys by (simp add: c contents_def)
    moreover have "i \<in> T" using queue_state_lengths(3) [OF st i] by simp
    ultimately show ?thesis by auto
  qed
qed

lemma populate_pool_ok: "pool_inv (populate_initial_block_list mok n empty_pool) {}"
  unfolding pool_inv_def
  by (intro exI [of _ "[]"]) (auto simp: pool_ok_def populate_initial_block_list_def empty_pool_def new_block_def
      split: if_splits)

lemma new_queue_ok:
  assumes "finite T" "card T < 2 ^ 59" "\<forall>i \<in> T. 1 < i"
  shows "queue_repr T (ConcurrentQueue mok capacity) (\<lambda>_. [])"
proof -
  let ?q = "ConcurrentQueue mok capacity"
  have "table_ok Map.empty (empty_hash (2 ^ 5))" by (rule table_ok_empty_hash) simp_all
  then have "hashes_ok T Map.empty ?q"
    using assms by (simp add: hashes_ok_def ConcurrentQueue_def Let_def populate_initial_implicit_producer_hash_def
        INITIAL_IMPLICIT_PRODUCER_HASH_SIZE_def empty_hash_def)
  moreover have "producers_ok [] [] ?q"
    by (simp add: producers_ok_def ConcurrentQueue_def Let_def populate_initial_implicit_producer_hash_def
        populate_pool_ok)
  ultimately show ?thesis
    unfolding queue_repr_contents queue_state_def by (intro exI [of _ Map.empty] exI [of _ "[]"]) (simp add: contents_def)
qed

section \<open>The contract of the inbox\<close>

text \<open>
  What the reactors rely on. \<open>repr q c\<close>: the queue holds, for each thread \<open>i\<close>, the elements
  \<open>c i\<close> it has enqueued and nobody has dequeued, the oldest first. An enqueue that fails
  changes nothing; a dequeue fails only on an empty queue.
\<close>

locale message_queue =
  fixes repr :: "'q \<Rightarrow> (thread_id \<Rightarrow> 'm list) \<Rightarrow> bool"
    and enq :: "thread_id \<Rightarrow> 'm \<Rightarrow> 'q \<Rightarrow> (bool \<times> 'q) option"
    and deq :: "'q \<Rightarrow> ('m option \<times> 'q) option"
    and T :: "thread_id set"
  assumes enq_law: "repr q c \<Longrightarrow> i \<in> T \<Longrightarrow>
      \<exists>ok q'. enq i v q = Some (ok, q') \<and> repr q' (if ok then c(i := c i @ [v]) else c)"
    and deq_law: "repr q c \<Longrightarrow> \<exists>r q'. deq q = Some (r, q') \<and>
      (case r of None \<Rightarrow> (\<forall>i. c i = []) \<and> repr q' c
       | Some v \<Rightarrow> \<exists>i \<in> T. \<exists>ys. c i = v # ys \<and> repr q' (c(i := ys)))"

text \<open>A run of enqueues and dequeues: the accepted elements with their threads, and the
  received ones.\<close>

datatype 'm queue_op = Send thread_id 'm | Receive

fun run_ops :: "(thread_id \<Rightarrow> 'm \<Rightarrow> 'q \<Rightarrow> (bool \<times> 'q) option) \<Rightarrow> ('q \<Rightarrow> ('m option \<times> 'q) option) \<Rightarrow>
  'm queue_op list \<Rightarrow> 'q \<Rightarrow> ((thread_id \<times> 'm) list \<times> 'm list \<times> 'q) option" where
  "run_ops enq deq [] q = Some ([], [], q)"
| "run_ops enq deq (Send i v # ops) q = do {
     (ok, q) \<leftarrow> enq i v q;
     (sent, received, q) \<leftarrow> run_ops enq deq ops q;
     Some (if ok then (i, v) # sent else sent, received, q) }"
| "run_ops enq deq (Receive # ops) q = do {
     (r, q) \<leftarrow> deq q;
     (sent, received, q) \<leftarrow> run_ops enq deq ops q;
     Some (sent, case r of None \<Rightarrow> received | Some v \<Rightarrow> v # received, q) }"

fun senders :: "'m queue_op list \<Rightarrow> thread_id set" where
  "senders [] = {}"
| "senders (Send i v # ops) = insert i (senders ops)"
| "senders (Receive # ops) = senders ops"

definition from_thread :: "thread_id \<Rightarrow> (thread_id \<times> 'm) list \<Rightarrow> 'm list" where
  "from_thread i xs = map snd (filter (\<lambda>(j, v). j = i) xs)"

lemma from_thread_simps [simp]:
  "from_thread i [] = []"
  "from_thread i ((j, v) # xs) = (if j = i then v # from_thread i xs else from_thread i xs)"
  by (simp_all add: from_thread_def)

text \<open>
  The same of a queue that takes at most \<open>limit\<close> elements from each sender: enough to follow a run, because a
  run of \<open>n\<close> operations adds at most \<open>n\<close> elements.
\<close>

locale bounded_queue =
  fixes repr :: "'q \<Rightarrow> (thread_id \<Rightarrow> 'm list) \<Rightarrow> bool"
    and enq :: "thread_id \<Rightarrow> 'm \<Rightarrow> 'q \<Rightarrow> (bool \<times> 'q) option"
    and deq :: "'q \<Rightarrow> ('m option \<times> 'q) option"
    and T :: "thread_id set" and limit :: nat
  assumes bounded_enq_law: "repr q c \<Longrightarrow> i \<in> T \<Longrightarrow> length (c i) < limit \<Longrightarrow>
      \<exists>ok q'. enq i v q = Some (ok, q') \<and> repr q' (if ok then c(i := c i @ [v]) else c)"
    and bounded_deq_law: "repr q c \<Longrightarrow> \<exists>r q'. deq q = Some (r, q') \<and>
      (case r of None \<Rightarrow> (\<forall>i. c i = []) \<and> repr q' c
       | Some v \<Rightarrow> \<exists>i \<in> T. \<exists>ys. c i = v # ys \<and> repr q' (c(i := ys)))"
begin

text \<open>Nothing is lost or duplicated, and the elements of one thread are received in the order
  it sent them: some attribution of the received elements to threads shows it.\<close>

lemma bounded_run_fifo:
  assumes "repr q c" "senders ops \<subseteq> T" "\<forall>i \<in> senders ops. length (c i) + length ops \<le> limit"
  shows "\<exists>sent received q' c' src. run_ops enq deq ops q = Some (sent, received, q') \<and> repr q' c' \<and>
    length src = length received \<and>
    (\<forall>i. c i @ from_thread i sent = from_thread i (zip src received) @ c' i)"
  using assms
proof (induction ops arbitrary: q c)
  case Nil
  then show ?case by fastforce
next
  case (Cons x ops)
  have T: "senders ops \<subseteq> T" using Cons(3) by (cases x) simp_all
  show ?case
  proof (cases x)
    case (Send i v)
    then have "i \<in> T" "length (c i) < limit" using Cons(3,4) by auto
    from bounded_enq_law [OF Cons(2) this, of v] obtain ok q1 where 1: "enq i v q = Some (ok, q1)"
      "repr q1 (if ok then c(i := c i @ [v]) else c)" by blast
    have "\<forall>j \<in> senders ops. length ((if ok then c(i := c i @ [v]) else c) j) + length ops \<le> limit"
      using Cons(4) Send by auto
    from Cons(1) [OF 1(2) T this] obtain sent received q' c' src
      where 2: "run_ops enq deq ops q1 = Some (sent, received, q')" "repr q' c'" "length src = length received"
      and 3: "\<And>j. (if ok then c(i := c i @ [v]) else c) j @ from_thread j sent = from_thread j (zip src received) @ c' j"
      by blast
    have "c j @ from_thread j (if ok then (i, v) # sent else sent) = from_thread j (zip src received) @ c' j" for j
      using 3 [of j] by (auto split: if_splits)
    with 1 2 Send show ?thesis by fastforce
  next
    case Receive
    from bounded_deq_law [OF Cons(2)] obtain r q1 where 1: "deq q = Some (r, q1)" and
      r: "case r of None \<Rightarrow> (\<forall>i. c i = []) \<and> repr q1 c
        | Some v \<Rightarrow> \<exists>i \<in> T. \<exists>ys. c i = v # ys \<and> repr q1 (c(i := ys))" by blast
    show ?thesis
    proof (cases r)
      case None
      with r have "repr q1 c" by simp
      moreover have "\<forall>j \<in> senders ops. length (c j) + length ops \<le> limit" using Cons(4) Receive by auto
      ultimately obtain sent received q' c' src
        where "run_ops enq deq ops q1 = Some (sent, received, q')" "repr q' c'" "length src = length received"
        "\<And>j. c j @ from_thread j sent = from_thread j (zip src received) @ c' j" using Cons(1) T by blast
      with 1 None Receive show ?thesis by fastforce
    next
      case (Some v)
      with r obtain i ys where i: "c i = v # ys" "repr q1 (c(i := ys))" by auto
      have "\<forall>j \<in> senders ops. length ((c(i := ys)) j) + length ops \<le> limit" using Cons(4) Receive i(1) by fastforce
      from Cons(1) [OF i(2) T this] obtain sent received q' c' src
        where 2: "run_ops enq deq ops q1 = Some (sent, received, q')" "repr q' c'" "length src = length received"
        and 3: "\<And>j. (c(i := ys)) j @ from_thread j sent = from_thread j (zip src received) @ c' j" by blast
      have "c j @ from_thread j sent = from_thread j (zip (i # src) (v # received)) @ c' j" for j
        using 3 [of j] i(1) by auto
      with 1 2 Some Receive show ?thesis
        by (intro exI [of _ sent] exI [of _ "v # received"] exI [of _ q'] exI [of _ c'] exI [of _ "i # src"]) simp
    qed
  qed
qed

end

lemma senders_finite: "finite (senders ops)"
  by (induction ops rule: senders.induct) auto

sublocale message_queue \<subseteq> bounded: bounded_queue repr enq deq T limit for limit :: nat
  by unfold_locales (use enq_law deq_law in blast)+

context message_queue
begin

lemma run_ops_fifo:
  assumes "repr q c" "senders ops \<subseteq> T"
  shows "\<exists>sent received q' c' src. run_ops enq deq ops q = Some (sent, received, q') \<and> repr q' c' \<and>
    length src = length received \<and>
    (\<forall>i. c i @ from_thread i sent = from_thread i (zip src received) @ c' i)"
proof (rule bounded.bounded_run_fifo [OF assms])
  show "\<forall>i \<in> senders ops. length (c i) + length ops \<le> (\<Sum>i \<in> senders ops. length (c i)) + length ops"
    using member_le_sum [OF _ _ senders_finite, of _ ops "\<lambda>i. length (c i)"] by simp
qed

text \<open>A queue with something in it can be received from.\<close>

lemma deq_not_stuck:
  assumes "repr q c" "c i \<noteq> []"
  shows "\<exists>v q'. deq q = Some (Some v, q')"
  using deq_law [OF assms(1)] assms(2) by (auto split: option.splits)

end

interpretation mq: message_queue "queue_repr T" "enqueue mok" try_dequeue T for T mok
  by unfold_locales (rule enqueue_ok try_dequeue_ok; assumption)+

end
