(* ===== verification/Cq_Accept.thy ===== *)
theory Cq_Accept
  imports Cq_Queue
begin

text \<open>
  When the allocator does not fail, every enqueue is accepted as long as the sub-queue of the
  thread holds fewer than \<open>2 ^ 63 - 32\<close> elements, and a thread always finds the same producer.
\<close>

section \<open>Producers with a block index\<close>

definition indexed :: "'a queue \<Rightarrow> bool" where
  "indexed q \<longleftrightarrow> (\<forall>pr \<in> set (producers q). blockIndex pr \<noteq> [])"

lemma blockIndex_store [simp]:
  "blockIndex (store_tail t pr) = [] \<longleftrightarrow> blockIndex pr = []" "blockIndex (store_entry a x pr) = blockIndex pr"
  by (simp_all add: store_tail_def store_entry_def split: list.split)

lemma new_block_index_True:
  "new_block_index (\<lambda>_. True) pr p = (ok, pr', p') \<Longrightarrow> ok \<and> blockIndex pr' \<noteq> []"
  by (auto simp: new_block_index_def Let_def)

lemma insert_block_index_entry_True:
  assumes "insert_block_index_entry (\<lambda>_. True) i pr p = Some (r, pr', p')" "blockIndex pr \<noteq> []"
  shows "r \<noteq> None \<and> blockIndex pr' \<noteq> []"
  using assms
  by (auto simp: insert_block_index_entry_def Let_def current_header_def bind_eq_Some_conv
      split: list.splits if_splits prod.splits dest!: new_block_index_True)

lemma requisition_block_True:
  "requisition_block (\<lambda>_. True) p = Some (r, p') \<Longrightarrow> r \<noteq> None"
  by (auto simp: requisition_block_def create_block_def bind_eq_Some_conv split: prod.splits option.splits)

lemma start_block_True:
  assumes "start_block (\<lambda>_. True) (tailIndex pr) pr p = Some (ok, pr', p')" "blockIndex pr \<noteq> []"
    and "queue_core (heap p) pr bl xs" "length xs + 32 < 2 ^ 63"
  shows "ok \<and> blockIndex pr' \<noteq> []"
  using assms(1,2) queue_room [OF assms(3)] assms(4)
  by (auto simp: start_block_def Let_def MAX_SUBQUEUE_SIZE_def bind_eq_Some_conv
      split: if_splits option.splits prod.splits dest!: insert_block_index_entry_True requisition_block_True)

lemma producer_enqueue_True:
  assumes "producer_enqueue (\<lambda>_. True) v pr p = Some (ok, pr', p')" "blockIndex pr \<noteq> []"
    and "queue_core (heap p) pr bl xs" "length xs + 32 < 2 ^ 63"
  shows "ok \<and> blockIndex pr' \<noteq> []"
  using assms(1,2) start_block_True [OF _ assms(2-4)]
  by (fastforce simp: producer_enqueue_def Let_def bind_eq_Some_conv split: if_splits prod.splits)

lemma producer_dequeue_index:
  "producer_dequeue pr p = Some (r, pr', p') \<Longrightarrow> blockIndex pr' = blockIndex pr"
  by (auto simp: producer_dequeue_def Let_def bind_eq_Some_conv split: if_splits prod.splits)

section \<open>The queue\<close>

lemma recycle_or_create_True:
  assumes "recycle_or_create_producer (\<lambda>_. True) q = (r, q')" "indexed q"
  shows "r \<noteq> None \<and> indexed q'"
proof (cases "find (\<lambda>j. inactive (producers q ! j)) (newest_first q)")
  case None
  obtain pr p where n: "new_producer (\<lambda>_. True) ((blocks q)\<lparr>mallocs := mallocs (blocks q) + 1\<rparr>) = (pr, p)" by fastforce
  then have "blockIndex pr \<noteq> []"
    unfolding new_producer_def by (metis new_block_index_True prod.collapse snd_conv)
  with None n assms show ?thesis
    by (auto simp: recycle_or_create_producer_def Let_def indexed_def add_producer_def)
next
  case (Some j)
  then have "j \<in> set (newest_first q)" by (metis find_Some_iff nth_mem)
  then have j: "j < length (producers q)" by (simp add: newest_first_def)
  have "r = Some j" "q' = q\<lparr>producers := (producers q)[j := (producers q ! j)\<lparr>inactive := False\<rparr>]\<rparr>"
    using Some assms(1) by (simp_all add: recycle_or_create_producer_def)
  with j assms(2) show ?thesis by (auto simp: indexed_def dest!: set_update_subset_insert [THEN subsetD])
qed

lemma resize_hash_True:
  "resize_hash (\<lambda>_. True) n q = Some (ok, q') \<Longrightarrow> ok \<and> producers q' = producers q"
  by (auto simp: resize_hash_def Let_def bind_eq_Some_conv split: if_splits)

lemma add_implicit_producer_True:
  assumes "add_implicit_producer mok i n q = Some y" "mok = (\<lambda>_. True)" "indexed q"
  shows "fst y \<noteq> None \<and> indexed (snd y)"
proof -
  have "mok = (\<lambda>_. True) \<longrightarrow> indexed q \<longrightarrow> fst y \<noteq> None \<and> indexed (snd y)"
  proof (rule add_implicit_producer.raw_induct [OF _ assms(1)], intro impI)
  fix f :: "malloc_ok \<Rightarrow> thread_id \<Rightarrow> u64 \<Rightarrow> 'a queue \<Rightarrow> (nat option \<times> 'a queue) option" and mok i n q y
  assume IH: "\<And>mok i n q y. f mok i n q = Some y \<Longrightarrow> mok = (\<lambda>_. True) \<longrightarrow> indexed q \<longrightarrow> fst y \<noteq> None \<and> indexed (snd y)"
    and mok: "mok = (\<lambda>_. True)" and q: "indexed q"
    and body: "do {
     (ok, q) \<leftarrow> resize_hash mok n q;
     if \<not> ok then Some (None, q)
     else
       let capacity = ph_capacity (hd (implicitProducerHash q)) in
       if n < drop_bit 1 capacity + drop_bit 2 capacity then
         let (producer, q) = recycle_or_create_producer mok q in
         case producer of
           None \<Rightarrow> Some (None, q\<lparr>implicitProducerHashCount := implicitProducerHashCount q - 1\<rparr>)
         | Some j \<Rightarrow> do {
             (reused, main) \<leftarrow> put_in_hash i (Some j) (hash_thread_id i) (hd (implicitProducerHash q));
             Some (Some j, q\<lparr>implicitProducerHash := main # tl (implicitProducerHash q),
               implicitProducerHashCount := implicitProducerHashCount q - (if reused then 1 else 0)\<rparr>) }
       else f mok i n q } = Some y"
  from body obtain ok q1 where r: "resize_hash mok n q = Some (ok, q1)" and
    rest: "(if \<not> ok then Some (None, q1)
     else
       let capacity = ph_capacity (hd (implicitProducerHash q1)) in
       if n < drop_bit 1 capacity + drop_bit 2 capacity then
         let (producer, q) = recycle_or_create_producer mok q1 in
         case producer of
           None \<Rightarrow> Some (None, q\<lparr>implicitProducerHashCount := implicitProducerHashCount q - 1\<rparr>)
         | Some j \<Rightarrow> do {
             (reused, main) \<leftarrow> put_in_hash i (Some j) (hash_thread_id i) (hd (implicitProducerHash q));
             Some (Some j, q\<lparr>implicitProducerHash := main # tl (implicitProducerHash q),
               implicitProducerHashCount := implicitProducerHashCount q - (if reused then 1 else 0)\<rparr>) }
       else f mok i n q1) = Some y"
    by (auto simp: bind_eq_Some_conv)
  have q1: "ok" "indexed q1" using resize_hash_True [of n q ok q1] r mok q by (simp_all add: indexed_def)
  show "fst y \<noteq> None \<and> indexed (snd y)"
  proof (cases "n < drop_bit 1 (ph_capacity (hd (implicitProducerHash q1))) + drop_bit 2 (ph_capacity (hd (implicitProducerHash q1)))")
    case False
    with rest q1(1) have "f mok i n q1 = Some y" by (simp add: Let_def del: One_nat_def)
    from IH [OF this] mok q1(2) show ?thesis by blast
  next
    case True
    obtain r q2 where rc: "recycle_or_create_producer mok q1 = (r, q2)" by fastforce
    with recycle_or_create_True [of q1 r q2] mok q1(2) obtain j where j: "r = Some j" "indexed q2" by auto
    with rest q1(1) True rc show ?thesis by (auto simp: Let_def bind_eq_Some_conv indexed_def simp del: One_nat_def)
  qed
  qed
  with assms(2,3) show ?thesis by blast
qed

lemma get_or_add_True:
  assumes "queue_state T q m bls cs" "i \<in> T" "get_or_add_implicit_producer (\<lambda>_. True) i q = Some (r, q')" "indexed q"
  shows "r \<noteq> None \<and> indexed q'"
proof -
  have hash: "hashes_ok T m q" using assms(1) by (simp add: queue_state_def)
  then have "1 < i" "\<forall>t \<in> set (implicitProducerHash q). table_ok m t" using assms(2) by (simp_all add: hashes_ok_def)
  from search_hashes_ok [OF this(2,1)] obtain f where f: "search_hashes (implicitProducerHash q) i (hash_thread_id i) = Some f"
    and v: "case f of None \<Rightarrow> \<forall>t \<in> set (implicitProducerHash q). i \<notin> used_keys t
     | Some (d, v) \<Rightarrow> d < length (implicitProducerHash q) \<and> v = m i \<and> v \<noteq> None \<and>
        (\<forall>e < d. i \<notin> used_keys (implicitProducerHash q ! e)) \<and> i \<in> used_keys (implicitProducerHash q ! d)" by blast
  show ?thesis
  proof (cases f)
    case None
    let ?n = "1 + implicitProducerHashCount q"
    have "add_implicit_producer (\<lambda>_. True) i ?n (q\<lparr>implicitProducerHashCount := ?n\<rparr>) = Some (r, q')"
      using assms(3) f None by (simp add: get_or_add_implicit_producer_def Let_def)
    from add_implicit_producer_True [OF this refl] assms(4) show ?thesis by (simp add: indexed_def)
  next
    case (Some dv)
    with v obtain d j where "f = Some (d, Some j)" by (cases dv) auto
    with f assms(3,4) show ?thesis
      by (auto simp: get_or_add_implicit_producer_def bind_eq_Some_conv indexed_def split: prod.splits if_splits)
  qed
qed

lemma with_producer_accepts:
  assumes q: "queue_repr T q c" and i: "i \<in> T" and x: "indexed q"
    and op: "\<And>others pr p bl. subqueue others pr p bl (c i) \<Longrightarrow> blockIndex pr \<noteq> [] \<Longrightarrow>
      \<exists>pr' p'. f pr p = Some (True, pr', p') \<and> blockIndex pr' \<noteq> []"
  shows "\<exists>q'. with_producer (\<lambda>_. True) i f q = Some (True, q') \<and> indexed q'"
proof -
  from q obtain m bls cs where st: "queue_state T q m bls cs" and c: "c = contents m cs"
    by (auto simp: queue_repr_contents)
  from get_or_add_ok [OF st i, of "\<lambda>_. True"] obtain r q1 m1 bls1 cs1
    where get: "get_or_add_implicit_producer (\<lambda>_. True) i q = Some (r, q1)" and st1: "queue_state T q1 m1 bls1 cs1"
    and m1: "m1 i = r" and same: "if r = m i then m1 = m \<and> cs1 = cs
      else m i = None \<and> r = Some (length cs) \<and> m1 = m(i := r) \<and> cs1 = cs @ [[]]" by blast
  have c1: "contents m1 cs1 = c" using same contents_new [OF st] c by (auto split: if_splits)
  from get_or_add_True [OF st i get x] obtain j where j: "r = Some j" and x1: "indexed q1" by auto
  have less: "j < length (producers q1)" using queue_state_lengths(3) [OF st1, of i j] m1 j by simp
  have "c i = cs1 ! j" using c1 m1 j by (auto simp: contents_def)
  moreover have "subqueue (other_blocks bls1 j) (producers q1 ! j) (blocks q1) (bls1 ! j) (cs1 ! j)"
    by (rule producers_subqueue [OF _ less]) (use st1 in \<open>simp add: queue_state_def\<close>)
  ultimately obtain pr p where e: "f (producers q1 ! j) (blocks q1) = Some (True, pr, p)" "blockIndex pr \<noteq> []"
    using op x1 less by (metis indexed_def nth_mem)
  have "with_producer (\<lambda>_. True) i f q = Some (True, q1\<lparr>producers := (producers q1)[j := pr], blocks := p\<rparr>)"
    using get j e by (simp add: with_producer_def)
  moreover have "indexed (q1\<lparr>producers := (producers q1)[j := pr], blocks := p\<rparr>)"
    using x1 e(2) by (auto simp: indexed_def dest!: set_update_subset_insert [THEN subsetD])
  ultimately show ?thesis by blast
qed

lemma enqueue_accepts:
  assumes q: "queue_repr T q c" and i: "i \<in> T" and x: "indexed q" and len: "length (c i) + 32 < 2 ^ 63"
  shows "\<exists>q'. enqueue (\<lambda>_. True) i v q = Some (True, q') \<and> indexed q' \<and> queue_repr T q' (c(i := c i @ [v]))"
proof -
  have op: "\<exists>pr' p'. producer_enqueue (\<lambda>_. True) v pr p = Some (True, pr', p') \<and> blockIndex pr' \<noteq> []"
    if s: "subqueue others pr p bl (c i)" and b: "blockIndex pr \<noteq> []" for others pr p bl
  proof -
    from producer_enqueue_ok [OF s, of "\<lambda>_. True" v] obtain ok pr' p' where
      e: "producer_enqueue (\<lambda>_. True) v pr p = Some (ok, pr', p')" by blast
    have "queue_core (heap p) pr bl (c i)" using s by (simp add: subqueue_def queue_ok_def)
    from producer_enqueue_True [OF e b this len] e show ?thesis by simp
  qed
  have "\<exists>q'. enqueue (\<lambda>_. True) i v q = Some (True, q') \<and> indexed q'"
    unfolding enqueue_with_producer by (rule with_producer_accepts [OF q i x]) (rule op)
  with enqueue_ok [OF q i, of "\<lambda>_. True" v] show ?thesis by auto
qed

lemma dequeue_from_indexed:
  assumes "dequeue_from j q = Some (r, q')" "indexed q"
  shows "indexed q'"
proof -
  from assms(1) obtain pr p where d: "producer_dequeue (producers q ! j) (blocks q) = Some (r, pr, p)"
    and q': "q' = q\<lparr>producers := (producers q)[j := pr], blocks := p\<rparr>"
    by (auto simp: dequeue_from_def bind_eq_Some_conv)
  have "blockIndex pr = blockIndex (producers q ! j)" by (rule producer_dequeue_index [OF d])
  then have "blockIndex x \<noteq> []" if "x \<in> set ((producers q)[j := pr])" for x
    using that assms(2) by (cases "j < length (producers q)")
      (auto simp: indexed_def list_update_beyond dest!: set_update_subset_insert [THEN subsetD] intro: nth_mem, metis nth_mem)
  then show ?thesis by (simp add: indexed_def q')
qed

lemma dequeue_any_indexed: "dequeue_any best js q = Some (r, q') \<Longrightarrow> indexed q \<Longrightarrow> indexed q'"
proof (induction js arbitrary: q)
  case (Cons j js)
  show ?case
  proof (cases "Some j \<noteq> best")
    case True
    with Cons.prems(1) obtain r1 q1 where q1: "dequeue_from j q = Some (r1, q1)" and
      "(if r1 \<noteq> None then Some (r1, q1) else dequeue_any best js q1) = Some (r, q')"
      by (auto simp: bind_eq_Some_conv)
    with dequeue_from_indexed [OF q1 Cons.prems(2)] Cons.IH [of q1] show ?thesis by (auto split: if_splits)
  next
    case False
    with Cons show ?thesis by simp
  qed
qed simp

lemma try_dequeue_indexed:
  "try_dequeue q = Some (r, q') \<Longrightarrow> indexed q \<Longrightarrow> indexed q'"
  by (auto simp: try_dequeue_def bind_eq_Some_conv dest: dequeue_from_indexed dequeue_any_indexed
      split: prod.splits if_splits option.splits)

lemma new_queue_indexed: "indexed (ConcurrentQueue mok capacity)"
  by (simp add: indexed_def ConcurrentQueue_def populate_initial_implicit_producer_hash_def Let_def)

section \<open>Runs\<close>

fun sends :: "'m queue_op list \<Rightarrow> (thread_id \<times> 'm) list" where
  "sends [] = []"
| "sends (Send i v # ops) = (i, v) # sends ops"
| "sends (Receive # ops) = sends ops"

lemma finite_senders [simp]: "finite (senders ops)"
  by (induction ops rule: senders.induct) auto

lemma card_senders: "card (senders ops) \<le> length ops"
proof (induction ops rule: senders.induct)
  case (2 i v ops)
  then show ?case using card_insert_le_m1 [of "length ops + 1" "senders ops" i] by simp
qed auto

lemma run_accepts:
  assumes "queue_repr T q c" "senders ops \<subseteq> T" "indexed q" "\<And>i. length (c i) + length ops + 32 < 2 ^ 63"
  shows "\<exists>received q'. run_ops (enqueue (\<lambda>_. True)) try_dequeue ops q = Some (sends ops, received, q')"
  using assms
proof (induction ops arbitrary: q c)
  case (Cons x ops)
  show ?case
  proof (cases x)
    case (Send i v)
    then have i: "i \<in> T" "senders ops \<subseteq> T" using Cons.prems(2) by auto
    have "length (c i) + 32 < 2 ^ 63" using Cons.prems(4) [of i] by simp
    from enqueue_accepts [OF Cons.prems(1) i(1) Cons.prems(3) this, of v] obtain q1 where
      q1: "enqueue (\<lambda>_. True) i v q = Some (True, q1)" "indexed q1" "queue_repr T q1 (c(i := c i @ [v]))" by blast
    have "length ((c(i := c i @ [v])) k) + length ops + 32 < 2 ^ 63" for k
      using Cons.prems(4) [of k] Cons.prems(4) [of i] by (cases "k = i") simp_all
    from Cons.IH [OF q1(3) i(2) q1(2) this] q1(1) Send show ?thesis by auto
  next
    case Receive
    then have T: "senders ops \<subseteq> T" using Cons.prems(2) by simp
    from mq.deq_law [OF Cons.prems(1)] obtain r q1 where q1: "try_dequeue q = Some (r, q1)" and
      r: "case r of None \<Rightarrow> (\<forall>i. c i = []) \<and> queue_repr T q1 c
        | Some v \<Rightarrow> \<exists>i \<in> T. \<exists>ys. c i = v # ys \<and> queue_repr T q1 (c(i := ys))" by blast
    have x1: "indexed q1" by (rule try_dequeue_indexed [OF q1 Cons.prems(3)])
    obtain c1 where c1: "queue_repr T q1 c1" "\<And>k. length (c1 k) \<le> length (c k)"
    proof (cases r)
      case None
      with r that [of c] show thesis by simp
    next
      case (Some v)
      with r obtain i ys where i: "c i = v # ys" "queue_repr T q1 (c(i := ys))" by auto
      show thesis by (rule that [OF i(2)]) (simp add: i(1))
    qed
    have "length (c1 k) + length ops + 32 < 2 ^ 63" for k using Cons.prems(4) [of k] c1(2) [of k] Receive by simp
    from Cons.IH [OF c1(1) T x1 this] q1 Receive show ?thesis by auto
  qed
qed auto

section \<open>Properties\<close>

text \<open>
  C14. The queue loses, duplicates and reorders nothing: in a run of sends by any threads and of
  receives, over any allocator, the elements received are, thread by thread, the accepted ones in the order they were sent, up
  to a rest; and a receive finds nothing exactly when there is no rest.
\<close>

theorem queue_fifo:
  fixes ops :: "'m queue_op list"
  assumes "\<forall>i \<in> senders ops. 1 < i" "length ops < 2 ^ 59"
  shows "\<exists>sent received q src rest. run_ops (enqueue mok) try_dequeue ops (ConcurrentQueue mok capacity) = Some (sent, received, q) \<and>
    length src = length received \<and>
    (\<forall>i. from_thread i sent = from_thread i (zip src received) @ rest i) \<and>
    ((\<exists>q'. try_dequeue q = Some (None, q')) \<longleftrightarrow> (\<forall>i. rest i = []))"
proof -
  have "card (senders ops) < 2 ^ 59" using card_senders [of ops] assms(2) by linarith
  then have new: "queue_repr (senders ops) (ConcurrentQueue mok capacity :: 'm queue) (\<lambda>_. [])"
    using new_queue_ok assms(1) by simp
  from mq.run_ops_fifo [OF new order_refl, of mok] obtain sent received q rest src where
    r: "run_ops (enqueue mok) try_dequeue ops (ConcurrentQueue mok capacity) = Some (sent, received, q)"
    "queue_repr (senders ops) q rest" "length src = length received"
    "\<forall>i. from_thread i sent = from_thread i (zip src received) @ rest i" by auto
  have "(\<exists>q'. try_dequeue q = Some (None, q')) \<longleftrightarrow> (\<forall>i. rest i = [])"
  proof
    assume "\<exists>q'. try_dequeue q = Some (None, q')"
    with mq.deq_not_stuck [OF r(2)] show "\<forall>i. rest i = []" by fastforce
  next
    assume e: "\<forall>i. rest i = []"
    from mq.deq_law [OF r(2)] obtain v q' where d: "try_dequeue q = Some (v, q')" and
      v: "case v of None \<Rightarrow> (\<forall>i. rest i = []) \<and> queue_repr (senders ops) q' rest
         | Some v \<Rightarrow> \<exists>i \<in> senders ops. \<exists>ys. rest i = v # ys \<and> queue_repr (senders ops) q' (rest(i := ys))" by blast
    then have "v = None" using e by (cases v) auto
    with d show "\<exists>q'. try_dequeue q = Some (None, q')" by blast
  qed
  with r show ?thesis by blast
qed

theorem queue_fifo_witness:
  "\<exists>sent received q. run_ops (enqueue (\<lambda>n. n < 7)) try_dequeue [Send 5 ''a'', Send 6 ''b'', Receive, Send 5 ''c'', Receive]
     (ConcurrentQueue (\<lambda>n. n < 7) 4096) = Some (sent, received, q)"
  using queue_fifo [of "[Send 5 ''a'', Send 6 ''b'', Receive, Send 5 ''c'', Receive]" "\<lambda>n. n < 7" 4096] by auto

text \<open>
  While the allocator does not fail every send is accepted, so no message is dropped: the accepted
  elements are all that were sent.
\<close>

theorem queue_accepts:
  fixes ops :: "'m queue_op list"
  assumes "\<forall>i \<in> senders ops. 1 < i" "length ops < 2 ^ 59"
  shows "\<exists>received q. run_ops (enqueue (\<lambda>_. True)) try_dequeue ops (ConcurrentQueue (\<lambda>_. True) capacity) = Some (sends ops, received, q)"
proof -
  have "card (senders ops) < 2 ^ 59" using card_senders [of ops] assms(2) by linarith
  then have new: "queue_repr (senders ops) (ConcurrentQueue (\<lambda>_. True) capacity :: 'm queue) (\<lambda>_. [])"
    using new_queue_ok assms(1) by simp
  show ?thesis by (rule run_accepts [OF new order_refl new_queue_indexed]) (use assms(2) in simp)
qed

theorem queue_accepts_witness:
  "\<exists>received q. run_ops (enqueue (\<lambda>_. True)) try_dequeue [Send 5 ''a'', Receive, Send 6 ''b''] (ConcurrentQueue (\<lambda>_. True) 4096) =
     Some ([(5, ''a''), (6, ''b'')], received, q)"
  using queue_accepts [of "[Send 5 ''a'', Receive, Send 6 ''b'']" 4096] by simp

text \<open>
  C15. A thread has one producer: asking twice gives the same sub-queue, and two threads get
  different ones, also when the table of threads grew in between.
\<close>

theorem producer_of_thread:
  assumes "queue_repr T q c" "i \<in> T" "i' \<in> T" "indexed q"
  shows "\<exists>j j' q1 q2. get_or_add_implicit_producer (\<lambda>_. True) i q = Some (Some j, q1) \<and>
    get_or_add_implicit_producer (\<lambda>_. True) i' q1 = Some (Some j', q2) \<and> (j = j' \<longleftrightarrow> i = i')"
proof -
  from assms(1) obtain m bls cs where st: "queue_state T q m bls cs" by (auto simp: queue_repr_contents)
  from get_or_add_ok [OF st assms(2), of "\<lambda>_. True"] obtain r q1 m1 bls1 cs1
    where g1: "get_or_add_implicit_producer (\<lambda>_. True) i q = Some (r, q1)" "queue_state T q1 m1 bls1 cs1" "m1 i = r" by blast
  from get_or_add_True [OF st assms(2) g1(1) assms(4)] obtain j where j: "r = Some j" "indexed q1" by auto
  from get_or_add_ok [OF g1(2) assms(3), of "\<lambda>_. True"] obtain r' q2 m2 bls2 cs2
    where g2: "get_or_add_implicit_producer (\<lambda>_. True) i' q1 = Some (r', q2)" "queue_state T q2 m2 bls2 cs2" "m2 i' = r'"
      "if r' = m1 i' then m2 = m1 \<and> cs2 = cs1 else m1 i' = None \<and> r' = Some (length cs1) \<and> m2 = m1(i' := r') \<and> cs2 = cs1 @ [[]]"
    by blast
  from get_or_add_True [OF g1(2) assms(3) g2(1) j(2)] obtain j' where j': "r' = Some j'" by auto
  have "m2 i = Some j" using g1(3) g2(4) j(1) by (auto split: if_splits)
  moreover have "m2 i' = Some j'" using g2(3) j' by simp
  ultimately have "j = j' \<longleftrightarrow> i = i'" using queue_state_lengths(4) [OF g2(2), of i i'] by auto
  with g1(1) g2(1) j(1) j' show ?thesis by auto
qed

lemma fresh_queue: "queue_repr {5, 6} (ConcurrentQueue (\<lambda>_. True) 4096) (\<lambda>_. [])"
  by (rule new_queue_ok) simp_all

theorem producer_of_thread_witness:
  "\<exists>j j' q1 q2. get_or_add_implicit_producer (\<lambda>_. True) 5 (ConcurrentQueue (\<lambda>_. True) 4096 :: nat queue) = Some (Some j, q1) \<and>
    get_or_add_implicit_producer (\<lambda>_. True) 6 q1 = Some (Some j', q2) \<and> j \<noteq> j'"
  using producer_of_thread [OF fresh_queue _ _ new_queue_indexed, of 5 6] by auto

end
