(* ===== verification/Cq_Bulk.thy ===== *)
theory Cq_Bulk
  imports Cq_Accept
begin

text \<open>
  \<open>include/concurrentqueue.h\<close>: taking many elements in one call. \<open>dequeue_bulk\<close> of an implicit
  producer moves its head once by the number of elements and then empties the blocks one after
  another. It does exactly what as many single dequeues do, so \<open>try_dequeue_bulk\<close> of the queue
  keeps the order of each thread too.
\<close>

section \<open>Operations\<close>

definition set_many_empty :: "nat \<Rightarrow> u64 \<Rightarrow> 'a pool \<Rightarrow> (bool \<times> 'a pool) option" where
  "set_many_empty b count p = do {
     x \<leftarrow> heap p b;
     let prevVal = elementsCompletelyDequeued x;
     if prevVal + count \<le> BLOCK_SIZE
     then Some (prevVal + count = BLOCK_SIZE, put_block b (x\<lparr>elementsCompletelyDequeued := prevVal + count\<rparr>) p)
     else None }"

text \<open>The elements of one block from \<open>index\<close> to \<open>endIndex\<close>.\<close>

partial_function (option) move_elements :: "nat \<Rightarrow> u64 \<Rightarrow> u64 \<Rightarrow> 'a pool \<Rightarrow> ('a list \<times> 'a pool) option" where
  "move_elements b index endIndex p =
     (if index = endIndex then Some ([], p)
      else do {
        (el, p) \<leftarrow> take_element b index p;
        (els, p) \<leftarrow> move_elements b (index + 1) endIndex p;
        Some (el # els, p) })"

definition end_of_block :: "u64 \<Rightarrow> u64 \<Rightarrow> u64" where
  "end_of_block index stop =
     (let endIndex = (index AND NOT (BLOCK_SIZE - 1)) + BLOCK_SIZE in
      if circular_less_than stop endIndex then stop else endIndex)"

partial_function (option) bulk_loop ::
  "u64 \<Rightarrow> u64 \<Rightarrow> u64 \<Rightarrow> block_index_header \<Rightarrow> producer \<Rightarrow> 'a pool \<Rightarrow> ('a list \<times> producer \<times> 'a pool) option" where
  "bulk_loop stop index indexIndex h pr p = do {
     let endIndex = end_of_block index stop;
     let a = bh_index h ! unat indexIndex;
     b \<leftarrow> be_value (entries pr ! a);
     (els, p) \<leftarrow> move_elements b index endIndex p;
     (emptied, p) \<leftarrow> set_many_empty b (endIndex - index) p;
     (pr, p) \<leftarrow> (if emptied then do {
         let pr = store_entry a ((entries pr ! a)\<lparr>be_value := None\<rparr>) pr;
         p \<leftarrow> add_block_to_free_list b p;
         Some (pr, p) }
       else Some (pr, p));
     if endIndex = stop then Some (els, pr, p)
     else do {
       (rest, pr, p) \<leftarrow> bulk_loop stop endIndex ((indexIndex + 1) AND (bh_capacity h - 1)) h pr p;
       Some (els @ rest, pr, p) } }"

definition producer_dequeue_bulk :: "u64 \<Rightarrow> producer \<Rightarrow> 'a pool \<Rightarrow> ('a list \<times> producer \<times> 'a pool) option" where
  "producer_dequeue_bulk most pr p =
     (let tail = tailIndex pr;
          overcommit = dequeueOvercommit pr;
          desiredCount = tail - (dequeueOptimisticCount pr - overcommit) in
      if circular_less_than 0 desiredCount then
        let desiredCount = (if desiredCount < most then desiredCount else most);
            myDequeueCount = dequeueOptimisticCount pr;
            pr = pr\<lparr>dequeueOptimisticCount := myDequeueCount + desiredCount\<rparr>;
            tail = tailIndex pr;
            actualCount = tail - (myDequeueCount - overcommit) in
        if circular_less_than 0 actualCount then
          let actualCount = (if desiredCount < actualCount then desiredCount else actualCount);
              pr = (if actualCount < desiredCount
                    then pr\<lparr>dequeueOvercommit := dequeueOvercommit pr + (desiredCount - actualCount)\<rparr> else pr);
              firstIndex = headIndex pr;
              pr = pr\<lparr>headIndex := firstIndex + actualCount\<rparr> in
          do {
            indexIndex \<leftarrow> get_block_index_index_for_index firstIndex pr;
            h \<leftarrow> current_header pr;
            bulk_loop (firstIndex + actualCount) firstIndex indexIndex h pr p }
        else Some ([], pr\<lparr>dequeueOvercommit := dequeueOvercommit pr + desiredCount\<rparr>, p)
      else Some ([], pr, p))"

text \<open>The loop over the producers stops when it has \<open>most\<close> elements; \<open>count\<close> are taken so far.\<close>

fun bulk_from :: "nat list \<Rightarrow> u64 \<Rightarrow> u64 \<Rightarrow> 'a queue \<Rightarrow> ('a list \<times> 'a queue) option" where
  "bulk_from [] most count q = Some ([], q)"
| "bulk_from (j # js) most count q = do {
     (els, pr, p) \<leftarrow> producer_dequeue_bulk (most - count) (producers q ! j) (blocks q);
     let q = q\<lparr>producers := (producers q)[j := pr], blocks := p\<rparr>;
     let count = count + of_nat (length els);
     if count = most then Some (els, q)
     else do {
       (rest, q) \<leftarrow> bulk_from js most count q;
       Some (els @ rest, q) } }"

definition try_dequeue_bulk :: "u64 \<Rightarrow> 'a queue \<Rightarrow> ('a list \<times> 'a queue) option" where
  "try_dequeue_bulk most q = bulk_from (newest_first q) most 0 q"

section \<open>The reference: single dequeues\<close>

fun dequeue_times :: "nat \<Rightarrow> producer \<Rightarrow> 'a pool \<Rightarrow> ('a list \<times> producer \<times> 'a pool) option" where
  "dequeue_times 0 pr p = Some ([], pr, p)"
| "dequeue_times (Suc n) pr p = do {
     (r, pr, p) \<leftarrow> producer_dequeue pr p;
     case r of
       None \<Rightarrow> Some ([], pr, p)
     | Some v \<Rightarrow> do {
         (vs, pr, p) \<leftarrow> dequeue_times n pr p;
         Some (v # vs, pr, p) } }"

lemma dequeue_times_ok:
  assumes "subqueue others pr p bl xs" "n \<le> length xs"
  shows "\<exists>pr' p' bl'. dequeue_times n pr p = Some (take n xs, pr', p') \<and> subqueue others pr' p' bl' (drop n xs) \<and>
    (\<forall>a \<in> others. heap p' a = heap p a) \<and> inactive pr' = inactive pr"
  using assms
proof (induction n arbitrary: pr p bl xs)
  case (Suc n)
  then obtain v ys where xs: "xs = v # ys" "n \<le> length ys" by (cases xs) auto
  from producer_dequeue_ok [OF Suc.prems(1) [unfolded xs(1)]] obtain pr1 p1 bl1 where
    1: "producer_dequeue pr p = Some (Some v, pr1, p1)" "subqueue others pr1 p1 bl1 ys"
    "\<forall>a \<in> others. heap p1 a = heap p a" "inactive pr1 = inactive pr" by blast
  from Suc.IH [OF 1(2) xs(2)] obtain pr' p' bl' where "dequeue_times n pr1 p1 = Some (take n ys, pr', p')"
    "subqueue others pr' p' bl' (drop n ys)" "\<forall>a \<in> others. heap p' a = heap p1 a" "inactive pr' = inactive pr1" by blast
  with 1 xs show ?case by auto
qed auto

lemma dequeue_times_add:
  assumes "subqueue others pr p bl xs" "m \<le> length xs"
  shows "dequeue_times (m + n) pr p = do {
    (vs, pr, p) \<leftarrow> dequeue_times m pr p;
    (ws, pr, p) \<leftarrow> dequeue_times n pr p;
    Some (vs @ ws, pr, p) }"
  using assms
proof (induction m arbitrary: pr p bl xs)
  case 0
  then show ?case by (simp add: split_def)
next
  case (Suc m)
  then obtain v ys where xs: "xs = v # ys" "m \<le> length ys" by (cases xs) auto
  from producer_dequeue_ok [OF Suc.prems(1) [unfolded xs(1)]] obtain pr1 p1 bl1 where
    1: "producer_dequeue pr p = Some (Some v, pr1, p1)" "subqueue others pr1 p1 bl1 ys" by blast
  from Suc.IH [OF 1(2) xs(2)] 1(1) show ?case
    by (simp add: split_def Option.bind_assoc)
qed

section \<open>One block\<close>

fun clear :: "nat \<Rightarrow> nat \<Rightarrow> 'a option list \<Rightarrow> 'a option list" where
  "clear s 0 es = es"
| "clear s (Suc k) es = clear (Suc s) k (es[s := None])"

lemma put_block_again [simp]: "put_block b x (put_block b y p) = put_block b x p"
  by (simp add: put_block_def)

lemma put_block_same: "heap p b = Some x \<Longrightarrow> put_block b x p = p"
  by (simp add: put_block_def fun_upd_idem)

lemma slot_of_Suc: "slot_of i + 1 < 32 \<Longrightarrow> slot_of (i + 1) = slot_of i + 1"
  using slot_of_add [of i 1] by simp

lemma index_less_end: "0 < k \<Longrightarrow> k < 2 ^ 64 \<Longrightarrow> i \<noteq> i + of_nat k" for i :: u64
  using unat_of_nat_u64 [of k] by (metis add_cancel_left_right less_irrefl unsigned_0)

lemma move_elements_block:
  assumes "heap p b = Some x" "slot_of i + k \<le> 32" "length (elements x) = 32"
    and "length ys = k" "\<forall>j < k. elements x ! (slot_of i + j) = Some (ys ! j)"
  shows "move_elements b i (i + of_nat k) p = Some (ys, put_block b (x\<lparr>elements := clear (slot_of i) k (elements x)\<rparr>) p)"
  using assms
proof (induction k arbitrary: i p x ys)
  case 0
  then show ?case by (simp add: move_elements.simps put_block_same)
next
  case (Suc k)
  then obtain v zs where ys: "ys = v # zs" by (cases ys) auto
  let ?x = "x\<lparr>elements := (elements x)[slot_of i := None]\<rparr>"
  have v: "elements x ! slot_of i = Some v" using Suc.prems(5) ys by auto
  have end_eq: "i + of_nat (Suc k) = i + 1 + of_nat k" by (simp add: algebra_simps)
  have ne: "i \<noteq> i + of_nat (Suc k)" using Suc.prems(2) by (intro index_less_end) auto
  have t: "take_element b i p = Some (v, put_block b ?x p)" using Suc.prems(1) v by (simp add: take_element_def)
  have "move_elements b (i + 1) (i + 1 + of_nat k) (put_block b ?x p) =
    Some (zs, put_block b (?x\<lparr>elements := clear (Suc (slot_of i)) k (elements ?x)\<rparr>) (put_block b ?x p))"
  proof (cases k)
    case 0
    with Suc.prems ys show ?thesis by (simp add: move_elements.simps)
  next
    case (Suc l)
    then have s: "slot_of (i + 1) = Suc (slot_of i)" using Suc.prems(2) slot_of_Suc [of i] by simp
    have "\<forall>j < k. elements ?x ! (slot_of (i + 1) + j) = Some (zs ! j)"
    proof (intro allI impI)
      fix j assume "j < k"
      then have "elements x ! (slot_of i + Suc j) = Some (ys ! Suc j)" using Suc.prems(5) by blast
      then show "elements ?x ! (slot_of (i + 1) + j) = Some (zs ! j)" by (simp add: s ys)
    qed
    then show ?thesis using Suc.IH [of "put_block b ?x p" ?x "i + 1" zs] Suc.prems ys s by simp
  qed
  with t ne show ?case unfolding end_eq [symmetric] by (subst move_elements.simps) (simp add: ys)
qed
lemma first_block:
  assumes s: "subqueue others pr p (b # cl) xs"
  obtains x h where "heap p b = Some x" "length (elements x) = 32" "elementsCompletelyDequeued x = of_nat (slot_of (headIndex pr))"
    "\<And>j. j < length xs \<Longrightarrow> slot_of (headIndex pr) + j < 32 \<Longrightarrow> elements x ! (slot_of (headIndex pr) + j) = Some (xs ! j)"
    "current_header pr = Some h"
    "get_block_index_entry_for_index (headIndex pr) pr = Some (ring_slot h (length cl))"
    "be_value (entries pr ! ring_slot h (length cl)) = Some b"
proof -
  let ?i = "headIndex pr"
  have core: "queue_core (heap p) pr (b # cl) xs" and inv: "pool_inv p (others \<union> set (b # cl))"
    using s by (auto simp: subqueue_def queue_ok_def)
  from inv obtain fl where ok: "pool_ok p (others \<union> set (b # cl)) fl" by (auto simp: pool_inv_def)
  from pool_ok_used [OF ok, of b] obtain x where x: "heap p b = Some x" "length (elements x) = 32" by auto
  have idx: "index_ok pr (base_of ?i) (b # cl)" and lim: "32 * length (b # cl) < 2 ^ 63 + slot_of ?i"
    using core by (simp_all add: queue_core_def)
  have "32 * length (b # cl) \<le> 2 ^ 63 + 32" using lim slot_of_less [of ?i] by linarith
  from index_lookup [OF idx _ slot_of_less this, of ?i] obtain h where h: "current_header pr = Some h"
    "get_block_index_entry_for_index ?i pr = Some (ring_slot h (length cl))"
    "be_value (entries pr ! ring_slot h (length cl)) = Some b" by (auto simp: base_plus_slot)
  have "block_holds (heap p) ((b # cl) ! 0) (taken ?i 0)" using core unfolding queue_core_def by blast
  then have "elementsCompletelyDequeued x = of_nat (slot_of ?i)" using x(1) by (simp add: block_holds_def taken_def)
  moreover have "elements x ! (slot_of ?i + j) = Some (xs ! j)" if "j < length xs" "slot_of ?i + j < 32" for j
  proof -
    have "element_at (heap p) (b # cl) (slot_of ?i + j) (xs ! j)" using core that(1) by (simp add: queue_core_def)
    with that(2) x(1) show ?thesis by (simp add: element_at_def)
  qed
  ultimately show thesis using x h by (intro that)
qed

text \<open>The pool after \<open>k\<close> elements were taken from block \<open>b\<close>, which held \<open>x\<close>, from slot \<open>s\<close> on; and
  the producer, with the block given back when its last slot was among them.\<close>

definition emptied_to :: "nat \<Rightarrow> 'a block \<Rightarrow> nat \<Rightarrow> nat \<Rightarrow> 'a pool \<Rightarrow> 'a pool" where
  "emptied_to b x s k p =
     put_block b (x\<lparr>elements := clear s k (elements x), elementsCompletelyDequeued := of_nat (s + k)\<rparr>) p"

definition give_back :: "nat \<Rightarrow> nat \<Rightarrow> nat \<Rightarrow> producer \<Rightarrow> 'a pool \<Rightarrow> (producer \<times> 'a pool) option" where
  "give_back b a used pr p =
     (if used = 32 then do {
        p \<leftarrow> add_block_to_free_list b p;
        Some (store_entry a ((entries pr ! a)\<lparr>be_value := None\<rparr>) pr, p) }
      else Some (pr, p))"

definition moved :: "nat \<Rightarrow> producer \<Rightarrow> producer" where
  "moved k pr = pr\<lparr>dequeueOptimisticCount := dequeueOptimisticCount pr + of_nat k, headIndex := headIndex pr + of_nat k\<rparr>"

lemma moved_simps [simp]:
  "headIndex (moved k pr) = headIndex pr + of_nat k" "entries (moved k pr) = entries pr"
  "current_header (moved k pr) = current_header pr" "blockIndex (moved k pr) = blockIndex pr"
  "moved l (moved k pr) = moved (k + l) pr"
  by (simp_all add: moved_def current_header_def add.assoc)

lemma store_entry_moved: "store_entry a x (moved k pr) = moved k (store_entry a x pr)"
  by (simp add: store_entry_def moved_def)

lemma of_nat_slot_Suc:
  assumes "s < 32"
  shows "(of_nat s :: u64) < BLOCK_SIZE" "(of_nat s :: u64) = BLOCK_SIZE - 1 \<longleftrightarrow> s = 31"
  using assms unat_of_nat_u64 [of s] by (simp_all add: BLOCK_SIZE_def word_less_nat_alt word_unat_eq_iff)

lemma dequeue_one:
  assumes s: "subqueue others pr p (b # cl) (v # ys)" and x: "heap p b = Some x" and h: "current_header pr = Some h"
  shows "producer_dequeue pr p = do {
    (pr, p) \<leftarrow> give_back b (ring_slot h (length cl)) (slot_of (headIndex pr) + 1) (moved 1 pr)
      (emptied_to b x (slot_of (headIndex pr)) 1 p);
    Some (Some v, pr, p) }"
proof -
  let ?i = "headIndex pr"
  from first_block [OF s] obtain x' h' where f': "heap p b = Some x'" "length (elements x') = 32"
    "elementsCompletelyDequeued x' = of_nat (slot_of ?i)"
    "\<And>j. j < length (v # ys) \<Longrightarrow> slot_of ?i + j < 32 \<Longrightarrow> elements x' ! (slot_of ?i + j) = Some ((v # ys) ! j)"
    "current_header pr = Some h'" "get_block_index_entry_for_index ?i pr = Some (ring_slot h' (length cl))"
    "be_value (entries pr ! ring_slot h' (length cl)) = Some b" by blast
  then have "x' = x" "h' = h" using x h by simp_all
  with f' f'(4) [of 0] have f: "length (elements x) = 32" "elementsCompletelyDequeued x = of_nat (slot_of ?i)"
    "elements x ! slot_of ?i = Some v" "get_block_index_entry_for_index ?i pr = Some (ring_slot h (length cl))"
    "be_value (entries pr ! ring_slot h (length cl)) = Some b" by simp_all
  have "queue_core (heap p) pr (b # cl) (v # ys)" using s by (simp add: subqueue_def queue_ok_def)
  from dequeue_tests [OF this] have
    "circular_less_than (dequeueOptimisticCount pr - dequeueOvercommit pr) (tailIndex pr)" by simp
  moreover have "take_element b ?i p = Some (v, put_block b (x\<lparr>elements := (elements x)[slot_of ?i := None]\<rparr>) p)"
    using x f by (simp add: take_element_def)
  moreover have "set_empty b (put_block b (x\<lparr>elements := (elements x)[slot_of ?i := None]\<rparr>) p)
      = Some (slot_of ?i = 31, emptied_to b x (slot_of ?i) 1 p)"
    using f(2) of_nat_slot_Suc [of "slot_of ?i"] by (simp add: set_empty_def emptied_to_def add.commute)
  moreover have "moved 1 pr = pr\<lparr>dequeueOptimisticCount := dequeueOptimisticCount pr + 1, headIndex := ?i + 1\<rparr>"
    by (simp add: moved_def)
  ultimately show ?thesis
    using f(4,5) by (cases "slot_of ?i = 31") (simp_all add: producer_dequeue_def Let_def give_back_def)
qed

lemma bind_pair_Some: "m \<bind> (\<lambda>(a, b). Some (v, a, b)) = Some (w, a', b') \<longleftrightarrow> m = Some (a', b') \<and> v = w"
  by (cases m) auto

lemma dequeue_block:
  assumes "subqueue others pr p (b # cl) xs" "heap p b = Some x" "current_header pr = Some h"
    and "0 < k" "slot_of (headIndex pr) + k \<le> 32" "k \<le> length xs"
  shows "\<exists>pr' p'. dequeue_times k pr p = Some (take k xs, pr', p') \<and>
    give_back b (ring_slot h (length cl)) (slot_of (headIndex pr) + k) (moved k pr)
      (emptied_to b x (slot_of (headIndex pr)) k p) = Some (pr', p') \<and>
    subqueue others pr' p' (if slot_of (headIndex pr) + k = 32 then cl else b # cl) (drop k xs)"
  using assms
proof (induction k arbitrary: pr p x xs)
  case (Suc k)
  then obtain v ys where xs: "xs = v # ys" by (cases xs) auto
  let ?s = "slot_of (headIndex pr)"
  note one = dequeue_one [OF Suc.prems(1) [unfolded xs] Suc.prems(2,3)]
  from producer_dequeue_blocks [OF Suc.prems(1) [unfolded xs], unfolded list.sel] obtain pr1 p1 where
    d: "producer_dequeue pr p = Some (Some v, pr1, p1)" "subqueue others pr1 p1 (if ?s = 31 then cl else b # cl) ys" by blast
  have g: "give_back b (ring_slot h (length cl)) (?s + 1) (moved 1 pr) (emptied_to b x ?s 1 p) = Some (pr1, p1)"
    using trans [OF one [symmetric] d(1)] unfolding bind_pair_Some by simp
  show ?case
  proof (cases "k = 0")
    case True
    with d g xs show ?thesis by simp
  next
    case False
    then have s: "slot_of (headIndex pr + 1) = Suc ?s" "?s \<noteq> 31" using slot_of_Suc [of "headIndex pr"] Suc.prems(5) by simp_all
    let ?p = "emptied_to b x ?s 1 p"
    from g s(2) have p1: "pr1 = moved 1 pr" "p1 = ?p" by (simp_all add: give_back_def)
    let ?x = "x\<lparr>elements := (elements x)[?s := None], elementsCompletelyDequeued := of_nat (?s + 1)\<rparr>"
    have hp: "heap ?p b = Some ?x" by (simp add: emptied_to_def)
    have e: "emptied_to b ?x (Suc ?s) k ?p = emptied_to b x ?s (Suc k) p" by (simp add: emptied_to_def)
    have sq: "subqueue others (moved 1 pr) ?p (b # cl) ys" using d(2) s(2) p1 by simp
    have h1: "current_header (moved 1 pr) = Some h" using Suc.prems(3) by simp
    have hm: "slot_of (headIndex (moved 1 pr)) = Suc ?s" "moved k (moved 1 pr) = moved (Suc k) pr" using s(1) by simp_all
    have k: "0 < k" "slot_of (headIndex (moved 1 pr)) + k \<le> 32" "k \<le> length ys" using False Suc.prems(5,6) hm xs by simp_all
    from Suc.IH [OF sq hp h1 k, unfolded hm e] obtain pr' p' where "dequeue_times k (moved 1 pr) ?p = Some (take k ys, pr', p')"
      "give_back b (ring_slot h (length cl)) (Suc ?s + k) (moved (Suc k) pr) (emptied_to b x ?s (Suc k) p) = Some (pr', p')"
      "subqueue others pr' p' (if Suc ?s + k = 32 then cl else b # cl) (drop k ys)" by blast
    with d(1) p1 xs show ?thesis by auto
  qed
qed simp

section \<open>The loop over the blocks\<close>

lemma end_of_block_eq:
  assumes "n < 2 ^ 63"
  shows "end_of_block i (i + of_nat n) = i + of_nat (min n (32 - slot_of i))"
proof -
  let ?r = "32 - slot_of i"
  have "(i AND NOT (BLOCK_SIZE - 1)) + BLOCK_SIZE = base_of i + of_nat 32" by (simp add: base_of_def BLOCK_SIZE_def)
  also have "(of_nat 32 :: u64) = of_nat (slot_of i) + of_nat ?r"
    using slot_of_less [of i] by (metis le_add_diff_inverse less_imp_le_nat of_nat_add)
  finally have e: "(i AND NOT (BLOCK_SIZE - 1)) + BLOCK_SIZE = i + of_nat ?r"
    by (simp only: add.assoc [symmetric] base_plus_slot)
  show ?thesis
  proof (cases "n < ?r")
    case True
    have "i + of_nat ?r - (i + of_nat n) = of_nat (?r - n)" using True by (simp add: of_nat_diff)
    then have u: "unat (i + of_nat ?r - (i + of_nat n)) = ?r - n" by (simp only:) (rule unat_of_nat_u64, simp)
    have "unat (i + of_nat ?r - (i + of_nat n)) < 2 ^ 63" unfolding u by simp
    moreover have "i + of_nat n \<noteq> i + of_nat ?r" using u True by (metis diff_self unsigned_0 zero_less_diff less_irrefl)
    ultimately have "circular_less_than (i + of_nat n) (i + of_nat ?r)" by (simp only: circular_less_than_iff) simp
    with True e show ?thesis by (simp add: end_of_block_def)
  next
    case False
    have "i + of_nat n - (i + of_nat ?r) = of_nat (n - ?r)" using False by (simp add: of_nat_diff)
    then have "unat (i + of_nat n - (i + of_nat ?r)) = n - ?r"
      using assms by (simp only:) (rule unat_of_nat_u64, simp)
    then have "\<not> circular_less_than (i + of_nat n) (i + of_nat ?r)"
      using assms by (simp add: circular_less_than_unat)
    with False e show ?thesis by (simp add: end_of_block_def)
  qed
qed

lemma ring_pos_step:
  assumes "Suc d < c" "t < c"
  shows "Suc (ring_pos c t (Suc d)) mod c = ring_pos c t d"
  using assms by (auto simp: ring_pos_eq mod_Suc)

lemma ring_pos_next_word:
  assumes "ring_shape h k n" "unat ii = ring_pos (2 ^ k) (unat (bh_tail h)) (Suc d)" "Suc d < 2 ^ k"
  shows "unat ((ii + 1) AND (bh_capacity h - 1)) = ring_pos (2 ^ k) (unat (bh_tail h)) d"
proof -
  have k: "k < 60" "bh_capacity h = 2 ^ k" "unat (bh_tail h) < 2 ^ k" using assms(1) by (auto simp: ring_shape_def)
  have "ring_pos (2 ^ k) (unat (bh_tail h)) (Suc d) < 2 ^ k" by simp
  moreover have "(2 :: nat) ^ k < 2 ^ 60" using k(1) by (intro power_strict_increasing) simp_all
  ultimately have "unat ii < 2 ^ 60" unfolding assms(2) by (rule less_trans)
  then have "unat (ii + of_nat 1) = unat ii + 1" by (intro unat_add_small) simp
  then have "unat (ii + 1) = Suc (ring_pos (2 ^ k) (unat (bh_tail h)) (Suc d))" using assms(2) by simp
  with k ring_pos_step [OF assms(3) k(3)] show ?thesis by (simp add: unat_and_mask)
qed

lemma bulk_block:
  assumes s: "subqueue others pr p (b # cl) xs" and x: "heap p b = Some x"
    and k: "slot_of (headIndex pr) + k \<le> 32" "k \<le> length xs"
  shows "\<exists>p'. move_elements b (headIndex pr) (headIndex pr + of_nat k) p = Some (take k xs, p') \<and>
    set_many_empty b (of_nat k) p' = Some (slot_of (headIndex pr) + k = 32, emptied_to b x (slot_of (headIndex pr)) k p)"
proof -
  let ?s = "slot_of (headIndex pr)"
  from first_block [OF s] obtain x' where f': "heap p b = Some x'" "length (elements x') = 32"
    "elementsCompletelyDequeued x' = of_nat ?s"
    "\<And>j. j < length xs \<Longrightarrow> ?s + j < 32 \<Longrightarrow> elements x' ! (?s + j) = Some (xs ! j)" by blast
  then have f: "length (elements x) = 32" "elementsCompletelyDequeued x = of_nat ?s"
    "\<And>j. j < k \<Longrightarrow> elements x ! (?s + j) = Some (take k xs ! j)" using x k by auto
  let ?p = "put_block b (x\<lparr>elements := clear ?s k (elements x)\<rparr>) p"
  have "move_elements b (headIndex pr) (headIndex pr + of_nat k) p = Some (take k xs, ?p)"
    using k f by (intro move_elements_block [OF x]) auto
  moreover have c: "elementsCompletelyDequeued x + of_nat k = of_nat (?s + k)" using f(2) by simp
  moreover have u: "unat (of_nat (?s + k) :: u64) = ?s + k" using k by (intro unat_of_nat_u64) simp
  then have "(of_nat (?s + k) :: u64) \<le> BLOCK_SIZE" "of_nat (?s + k) = BLOCK_SIZE \<longleftrightarrow> ?s + k = 32"
    using k(1) by (simp_all only: word_le_nat_alt word_unat_eq_iff BLOCK_SIZE_def u unat_numeral) simp_all
  ultimately show ?thesis by (simp add: set_many_empty_def emptied_to_def Let_def del: of_nat_add)
qed

lemma bulk_loop_step:
  assumes s: "subqueue others pr p (b # cl) xs" and x: "heap p b = Some x" and h: "current_header pr = Some h"
    and ii: "bh_index h ! unat ii = ring_slot h (length cl)" and n: "n < 2 ^ 63" "n \<le> length xs"
  defines "k \<equiv> min n (32 - slot_of (headIndex pr))"
  shows "bulk_loop (headIndex pr + of_nat n) (headIndex pr) ii h (moved n pr) p = do {
    (pr1, p1) \<leftarrow> give_back b (ring_slot h (length cl)) (slot_of (headIndex pr) + k) (moved n pr)
      (emptied_to b x (slot_of (headIndex pr)) k p);
    if k = n then Some (take k xs, pr1, p1)
    else do {
      (rest, pr2, p2) \<leftarrow> bulk_loop (headIndex pr + of_nat n) (headIndex pr + of_nat k) ((ii + 1) AND (bh_capacity h - 1)) h pr1 p1;
      Some (take k xs @ rest, pr2, p2) } }"
proof -
  have k: "slot_of (headIndex pr) + k \<le> 32" "k \<le> length xs" using n slot_of_less [of "headIndex pr"] unfolding k_def by linarith+
  from bulk_block [OF s x k] obtain p' where m: "move_elements b (headIndex pr) (headIndex pr + of_nat k) p = Some (take k xs, p')"
    "set_many_empty b (of_nat k) p' = Some (slot_of (headIndex pr) + k = 32, emptied_to b x (slot_of (headIndex pr)) k p)" by blast
  from first_block [OF s] h have v: "be_value (entries pr ! ring_slot h (length cl)) = Some b" by (metis option.inject)
  have "k < 2 ^ 64" "n < 2 ^ 64" using n(1) k(1) by simp_all
  then have eq: "(of_nat k :: u64) = of_nat n \<longleftrightarrow> k = n" by (metis unat_of_nat_u64)
  show ?thesis
    using m v end_of_block_eq [OF n(1), of "headIndex pr", folded k_def]
    by (subst bulk_loop.simps) (simp add: Let_def ii eq give_back_def split_def Option.bind_assoc)
qed

lemma subqueue_ring:
  assumes "subqueue others pr p bl xs" "current_header pr = Some h"
  obtains k where "ring_shape h k (length (entries pr))" "length bl \<le> 2 ^ k"
proof -
  have "index_ok pr (base_of (headIndex pr)) bl" using assms(1) by (simp add: subqueue_def queue_ok_def queue_core_def)
  with assms(2) show thesis
    by (auto simp: index_ok_def current_header_def ring_ok_def split: list.splits intro: that)
qed

lemma give_back_header:
  "give_back b a used pr p = Some (pr', p') \<Longrightarrow> current_header pr' = current_header pr"
  by (auto simp: give_back_def store_entry_def current_header_def bind_eq_Some_conv split: if_splits)

lemma give_back_moved:
  "give_back b a used (moved n pr) p = map_option (\<lambda>(pr, p). (moved n pr, p)) (give_back b a used pr p)"
  by (cases "add_block_to_free_list b p") (simp_all add: give_back_def store_entry_moved)

lemma give_back_index:
  "give_back b a used pr p = Some (pr', p') \<Longrightarrow> headIndex pr' = headIndex pr"
  by (auto simp: give_back_def store_entry_def bind_eq_Some_conv split: if_splits)

lemma bulk_loop_ok:
  assumes "subqueue others pr p bl xs" "current_header pr = Some h" "0 < n" "n \<le> length xs"
    and "unat ii = ring_pos (unat (bh_capacity h)) (unat (bh_tail h)) (length bl - 1)"
  shows "bulk_loop (headIndex pr + of_nat n) (headIndex pr) ii h (moved n pr) p = dequeue_times n pr p"
  using assms
proof (induction n arbitrary: pr p bl xs ii rule: less_induct)
  case (less n)
  note s = less.prems(1) and h = less.prems(2)
  have core: "queue_core (heap p) pr bl xs" using s by (simp add: subqueue_def queue_ok_def)
  then have n: "n < 2 ^ 63" using queue_length(1) [OF core] less.prems(4) by linarith
  obtain b cl where bl: "bl = b # cl" using less.prems(3,4) core by (cases xs) (simp, metis queue_non_empty)
  obtain x where x: "heap p b = Some x" using first_block [OF s [unfolded bl]] by blast
  obtain m where ring: "ring_shape h m (length (entries pr))" "length bl \<le> 2 ^ m" using subqueue_ring [OF s h] .
  have ii: "unat ii = ring_pos (2 ^ m) (unat (bh_tail h)) (length cl)"
    using less.prems(5) by (simp add: ring_shape_cap [OF ring(1)] bl)
  then have slot: "bh_index h ! unat ii = ring_slot h (length cl)" by (simp add: ring_slot_def ring_shape_cap [OF ring(1)])
  let ?i = "headIndex pr" and ?s = "slot_of (headIndex pr)"
  define k where "k = min n (32 - ?s)"
  have k: "0 < k" "?s + k \<le> 32" "k \<le> length xs" "k \<le> n"
    using slot_of_less [of ?i] less.prems(3,4) unfolding k_def by linarith+
  from dequeue_block [OF s [unfolded bl] x h k(1-3)] obtain pr' p' where d: "dequeue_times k pr p = Some (take k xs, pr', p')"
    and g: "give_back b (ring_slot h (length cl)) (?s + k) (moved k pr) (emptied_to b x ?s k p) = Some (pr', p')"
    and sq: "subqueue others pr' p' (if ?s + k = 32 then cl else b # cl) (drop k xs)" by blast
  have "moved n pr = moved (n - k) (moved k pr)" using k(4) by simp
  then have g': "give_back b (ring_slot h (length cl)) (?s + k) (moved n pr) (emptied_to b x ?s k p) = Some (moved (n - k) pr', p')"
    using g by (simp only: give_back_moved) simp
  note step = bulk_loop_step [OF s [unfolded bl] x h slot n less.prems(4), folded k_def, unfolded g']
  show ?case
  proof (cases "k = n")
    case True
    have "moved 0 pr' = pr'" by (simp add: moved_def)
    with step d True show ?thesis by simp
  next
    case False
    then have full: "?s + k = 32" "k < n" using k(4) slot_of_less [of ?i] unfolding k_def by linarith+
    have i': "headIndex pr' = ?i + of_nat k" using give_back_index [OF g] by simp
    have h': "current_header pr' = Some h" using give_back_header [OF g] h by simp
    have sq': "subqueue others pr' p' cl (drop k xs)" using sq full(1) by simp
    have "queue_core (heap p') pr' cl (drop k xs)" using sq' by (simp add: subqueue_def queue_ok_def)
    then have "cl \<noteq> []" using less.prems(4) full(2) by (cases "drop k xs") (simp, metis queue_non_empty list.distinct(1))
    then obtain l where cl: "length cl = Suc l" by (cases cl) auto
    have ii': "unat ((ii + 1) AND (bh_capacity h - 1)) = ring_pos (unat (bh_capacity h)) (unat (bh_tail h)) (length cl - 1)"
      using ring_pos_next_word [OF ring(1) ii [unfolded cl]] ring(2) by (simp add: bl cl ring_shape_cap [OF ring(1)])
    have "bulk_loop (headIndex pr' + of_nat (n - k)) (headIndex pr') ((ii + 1) AND (bh_capacity h - 1)) h (moved (n - k) pr') p'
        = dequeue_times (n - k) pr' p'"
      using full(2) less.prems(4) k(1) by (intro less.IH [OF _ sq' h' _ _ ii']) auto
    moreover have "headIndex pr' + of_nat (n - k) = ?i + of_nat n" using full(2) i' by (simp add: of_nat_diff)
    ultimately have "bulk_loop (?i + of_nat n) (?i + of_nat k) ((ii + 1) AND (bh_capacity h - 1)) h (moved (n - k) pr') p'
        = dequeue_times (n - k) pr' p'" by (simp only: i')
    moreover have "dequeue_times n pr p = do {
        (ws, pr, p) \<leftarrow> dequeue_times (n - k) pr' p'; Some (take k xs @ ws, pr, p) }"
      using dequeue_times_add [OF s k(3), of "n - k"] d full(2) by simp
    ultimately show ?thesis using step False by simp
  qed
qed

section \<open>The bulk dequeue of a producer\<close>

lemma unat_min_u64:
  assumes "n < 2 ^ 64"
  shows "unat (if of_nat n < w then of_nat n else w :: u64) = min n (unat w)"
proof -
  have u: "unat (of_nat n :: u64) = n" by (rule unat_of_nat_u64 [OF assms])
  have "of_nat n < w \<longleftrightarrow> n < unat w" by (simp only: word_less_nat_alt u)
  then show ?thesis using u by (cases "n < unat w") (simp_all only: if_True if_False min_def, auto)
qed

text \<open>A bulk dequeue of no element leaves everything as it was.\<close>

lemma bulk_loop_none:
  assumes s: "subqueue others pr p (b # cl) xs" and h: "current_header pr = Some h"
    and ii: "bh_index h ! unat ii = ring_slot h (length cl)"
  shows "bulk_loop (headIndex pr) (headIndex pr) ii h pr p = Some ([], pr, p)"
proof -
  from first_block [OF s] obtain x where x: "heap p b = Some x"
    "elementsCompletelyDequeued x = of_nat (slot_of (headIndex pr))" by blast
  have m: "moved 0 pr = pr" by (simp add: moved_def)
  have "x\<lparr>elementsCompletelyDequeued := of_nat (slot_of (headIndex pr))\<rparr> = x" using x(2) by simp
  then have "emptied_to b x (slot_of (headIndex pr)) 0 p = p"
    using x(1) by (simp add: emptied_to_def put_block_same)
  moreover have "slot_of (headIndex pr) \<noteq> 32" using slot_of_less [of "headIndex pr"] by linarith
  ultimately show ?thesis using bulk_loop_step [OF s x(1) h ii, of 0] by (simp add: m give_back_def)
qed

lemma first_index:
  assumes s: "subqueue others pr p (b # cl) xs" and h: "current_header pr = Some h"
  obtains ii where "get_block_index_index_for_index (headIndex pr) pr = Some ii"
    "unat ii = ring_pos (unat (bh_capacity h)) (unat (bh_tail h)) (length cl)"
    "bh_index h ! unat ii = ring_slot h (length cl)"
proof -
  obtain m where ring: "ring_shape h m (length (entries pr))" "length (b # cl) \<le> 2 ^ m" using subqueue_ring [OF s h] .
  from first_block [OF s] h have "get_block_index_entry_for_index (headIndex pr) pr = Some (ring_slot h (length cl))"
    by (metis option.inject)
  then obtain ii where ii: "get_block_index_index_for_index (headIndex pr) pr = Some ii" "bh_index h ! unat ii = ring_slot h (length cl)"
    using h by (auto simp: get_block_index_entry_for_index_def bind_eq_Some_conv)
  have "unat ii < 2 ^ m"
  proof -
    from ii(1) h obtain y where "ii = y AND (bh_capacity h - 1)"
      by (auto simp: get_block_index_index_for_index_def bind_eq_Some_conv Let_def split: if_splits)
    then show ?thesis using ring(1) by (auto simp: ring_shape_def unat_and_mask)
  qed
  then have "unat ii = ring_pos (2 ^ m) (unat (bh_tail h)) (length cl)"
    using ii(2) ring by (simp add: ring_slot_def ring_shape_cap [OF ring(1)]) (simp add: ring_shape_def nth_eq_iff_index_eq)
  then have "unat ii = ring_pos (unat (bh_capacity h)) (unat (bh_tail h)) (length cl)"
    by (simp only: ring_shape_cap [OF ring(1)])
  from ii(1) this ii(2) show thesis by (rule that)
qed

lemma word_of_unat: "unat w = n \<Longrightarrow> w = of_nat n" for w :: u64
  by auto

lemma moved_bulk:
  "pr\<lparr>dequeueOptimisticCount := dequeueOptimisticCount pr + of_nat n, headIndex := headIndex pr + of_nat n\<rparr> = moved n pr"
  by (simp add: moved_def)

lemma lookup_moved: "get_block_index_index_for_index i (moved n pr) = get_block_index_index_for_index i pr"
  by (cases "current_header pr") (simp_all add: get_block_index_index_for_index_def Let_def)

lemma dequeue_bulk_is_dequeues:
  assumes s: "subqueue others pr p bl xs"
  shows "producer_dequeue_bulk most pr p = dequeue_times (min (unat most) (length xs)) pr p"
proof -
  define n where "n = min (length xs) (unat most)"
  have core: "queue_core (heap p) pr bl xs" using s by (simp add: subqueue_def queue_ok_def)
  have len: "length xs < 2 ^ 63" by (rule queue_length(1) [OF core])
  have c: "tailIndex pr - (dequeueOptimisticCount pr - dequeueOvercommit pr) = of_nat (length xs)"
    using core by (simp add: queue_core_def)
  have u: "unat (of_nat (length xs) :: u64) = length xs" using len by (intro unat_of_nat_u64) simp
  have some: "circular_less_than 0 (of_nat (length xs)) \<longleftrightarrow> xs \<noteq> []"
    using u len by (subst circular_less_than_iff) (auto simp: word_unat_eq_iff)
  show ?thesis
  proof (cases xs)
    case Nil
    with c some show ?thesis by (simp add: producer_dequeue_bulk_def Let_def)
  next
    case (Cons v ys)
    then obtain b cl where bl: "bl = b # cl" using core by (metis queue_non_empty)
    from first_block [OF s [unfolded bl]] obtain h where h: "current_header pr = Some h" by blast
    from first_index [OF s [unfolded bl] h] obtain ii where ii: "get_block_index_index_for_index (headIndex pr) pr = Some ii"
      "unat ii = ring_pos (unat (bh_capacity h)) (unat (bh_tail h)) (length cl)"
      "bh_index h ! unat ii = ring_slot h (length cl)" .
    let ?d = "if of_nat (length xs) < most then of_nat (length xs) else most"
    have "unat ?d = n" unfolding n_def using len by (intro unat_min_u64) simp
    then have d: "?d = of_nat n" by (rule word_of_unat)
    have un: "unat (of_nat n :: u64) = n" using len by (intro unat_of_nat_u64) (simp add: n_def)
    have n: "n \<le> length xs" by (simp add: n_def)
    have "(of_nat n :: u64) < of_nat (length xs) \<longleftrightarrow> n < length xs" by (simp only: word_less_nat_alt un u)
    then have le: "(if of_nat n < (of_nat (length xs) :: u64) then of_nat n else of_nat (length xs)) = (of_nat n :: u64)"
      using n by (cases "n < length xs") simp_all
    have "producer_dequeue_bulk most pr p =
        bulk_loop (headIndex pr + of_nat n) (headIndex pr) ii h (moved n pr) p"
    proof -
      have some': "circular_less_than 0 (of_nat (length xs)) = True" using some Cons by simp
      have upd: "(pr\<lparr>dequeueOptimisticCount := dequeueOptimisticCount pr + of_nat n\<rparr>)\<lparr>headIndex := headIndex pr + of_nat n\<rparr> = moved n pr"
        by (simp add: moved_def)
      have sel: "tailIndex (pr\<lparr>dequeueOptimisticCount := w\<rparr>) = tailIndex pr"
        "headIndex (pr\<lparr>dequeueOptimisticCount := w\<rparr>) = headIndex pr" for w by simp_all
      have "producer_dequeue_bulk most pr p = do {
          indexIndex \<leftarrow> get_block_index_index_for_index (headIndex pr) (moved n pr);
          h \<leftarrow> current_header (moved n pr);
          bulk_loop (headIndex pr + of_nat n) (headIndex pr) indexIndex h (moved n pr) p }"
        unfolding producer_dequeue_bulk_def Let_def
        by (simp only: sel c some' if_True if_False d le less_irrefl upd)
      then show ?thesis using ii(1) h by (simp add: lookup_moved)
    qed
    also have "\<dots> = dequeue_times n pr p"
    proof (cases "n = 0")
      case True
      then show ?thesis using bulk_loop_none [OF s [unfolded bl] h ii(3)] by (simp add: moved_def)
    next
      case False
      then show ?thesis using ii(2) by (intro bulk_loop_ok [OF s h]) (simp_all add: bl n_def)
    qed
    finally show ?thesis by (simp add: n_def min.commute)
  qed
qed

section \<open>The bulk dequeue of the queue\<close>

lemma from_thread_append: "from_thread i (xs @ ys) = from_thread i xs @ from_thread i ys"
  by (simp add: from_thread_def)

lemma from_thread_replicate: "length xs = n \<Longrightarrow> from_thread i (zip (replicate n j) xs) = (if i = j then xs else [])"
  by (induction xs arbitrary: n) auto

lemma count_step:
  fixes count most :: u64
  assumes "count \<le> most" "n \<le> unat (most - count)"
  shows "count + of_nat n = most \<longleftrightarrow> n = unat (most - count)" "unat (most - (count + of_nat n)) = unat (most - count) - n"
    "count + of_nat n \<le> most"
proof -
  have d: "unat (most - count) = unat most - unat count" by (rule unat_sub [OF assms(1)])
  have le: "unat count \<le> unat most" using assms(1) by (simp add: word_le_nat_alt)
  have u: "unat (count + of_nat n) = unat count + n"
    using assms(2) d le unat_u64 [of most] by (intro unat_add_small) linarith
  show l: "count + of_nat n \<le> most" using u assms(2) d le by (simp add: word_le_nat_alt)
  show "unat (most - (count + of_nat n)) = unat (most - count) - n" using unat_sub [OF l] u d by simp
  show "count + of_nat n = most \<longleftrightarrow> n = unat (most - count)"
    unfolding word_unat_eq_iff u d using le assms(2) d by linarith
qed

lemma bulk_from_ok:
  assumes "queue_state T q m bls cs" "distinct js" "set js \<subseteq> {..<length (producers q)}" "count \<le> most"
  shows "\<exists>els src q' bls' cs'. bulk_from js most count q = Some (els, q') \<and> queue_state T q' m bls' cs' \<and>
    els = take (unat (most - count)) (concat (map (\<lambda>j. cs ! j) js)) \<and> length src = length els \<and> set src \<subseteq> T \<and>
    (\<forall>i. contents m cs i = from_thread i (zip src els) @ contents m cs' i)"
  using assms
proof (induction js arbitrary: q bls cs count)
  case Nil
  then show ?case by (intro exI [of _ "[]"] exI [of _ q] exI [of _ bls] exI [of _ cs]) (auto simp: from_thread_def)
next
  case (Cons j js)
  note st = Cons.prems(1)
  have j: "j < length (producers q)" using Cons.prems(3) by simp
  have prods: "producers_ok bls cs q" using st by (simp add: queue_state_def)
  let ?r = "unat (most - count)"
  define n where "n = min ?r (length (cs ! j))"
  have sq: "subqueue (other_blocks bls j) (producers q ! j) (blocks q) (bls ! j) (cs ! j)"
    by (rule producers_subqueue [OF prods j])
  from dequeue_times_ok [OF sq, of n] obtain pr p bl where
    d: "dequeue_times n (producers q ! j) (blocks q) = Some (take n (cs ! j), pr, p)"
    and s: "subqueue (other_blocks bls j) pr p bl (drop n (cs ! j))"
    and frame: "\<forall>a \<in> other_blocks bls j. heap p a = heap (blocks q) a" and act: "inactive pr = inactive (producers q ! j)"
    by (auto simp: n_def)
  let ?q = "q\<lparr>producers := (producers q)[j := pr], blocks := p\<rparr>" and ?cs = "cs[j := drop n (cs ! j)]"
  define e where "e = take n (cs ! j)"
  have b: "producer_dequeue_bulk (most - count) (producers q ! j) (blocks q) = Some (e, pr, p)"
    using d dequeue_bulk_is_dequeues [OF sq, of "most - count"] by (simp add: n_def e_def)
  have st1: "queue_state T ?q m (bls[j := bl]) ?cs" by (rule queue_state_update [OF st j s act frame])
  obtain i where i: "m i = Some j" using queue_state_lengths(5) [OF st j] by blast
  then have iT: "i \<in> T" using queue_state_lengths(3) [OF st] by blast
  have c1: "contents m ?cs = (contents m cs)(i := drop n (cs ! j))" by (rule contents_update [OF st i])
  have len: "length e = n" by (simp add: n_def e_def)
  have ci: "contents m cs i = e @ drop n (cs ! j)" using i by (simp add: contents_def e_def)
  have nr: "n \<le> ?r" by (simp add: n_def)
  note more = count_step [OF Cons.prems(4) nr]
  show ?case
  proof (cases "n = ?r")
    case True
    have "bulk_from (j # js) most count q = Some (e, ?q)"
      using b more(1) True by (simp add: Let_def len)
    moreover have "contents m cs k = from_thread k (zip (replicate n i) (e)) @ contents m ?cs k" for k
      using ci by (simp add: c1 from_thread_replicate [OF len])
    moreover have "take ?r (concat (map (\<lambda>j. cs ! j) (j # js))) = e" using True by (simp add: n_def e_def)
    ultimately show ?thesis using st1 iT len
      by (intro exI [of _ "e"] exI [of _ "replicate n i"] exI [of _ ?q] exI [of _ "bls[j := bl]"] exI [of _ ?cs]) auto
  next
    case False
    then have full: "n = length (cs ! j)" "n < ?r" using nr by (auto simp: n_def)
    have js: "distinct js" "set js \<subseteq> {..<length (producers ?q)}" "j \<notin> set js" using Cons.prems by auto
    from Cons.IH [OF st1 js(1,2) more(3)] obtain els src q' bls' cs' where
      h: "bulk_from js most (count + of_nat n) ?q = Some (els, q')" "queue_state T q' m bls' cs'"
      "els = take (?r - n) (concat (map (\<lambda>j. ?cs ! j) js))" "length src = length els" "set src \<subseteq> T"
      "\<And>i. contents m ?cs i = from_thread i (zip src els) @ contents m cs' i" unfolding more(2) by blast
    have "bulk_from (j # js) most count q = Some (e @ els, q')"
      using b more(1) False h(1) by (simp add: Let_def len)
    moreover have same: "map (\<lambda>j. ?cs ! j) js = map (\<lambda>j. cs ! j) js" using js(3) by (auto intro!: nth_list_update_neq)
    have "e @ els = take ?r (concat (map (\<lambda>j. cs ! j) (j # js)))"
      using h(3) [unfolded same] full by (simp add: e_def)
    moreover have "contents m cs k = from_thread k (zip (replicate n i @ src) (e @ els)) @ contents m cs' k" for k
      using ci h(6) [of k] len by (auto simp: c1 from_thread_append from_thread_replicate [OF len] split: if_splits)
    moreover have "length (replicate n i @ src) = length (e @ els)" using h(4) len by (simp only: length_append length_replicate)
    moreover have "set (replicate n i @ src) \<subseteq> T" using h(5) iT by auto
    ultimately show ?thesis using h(2) by blast
  qed
qed

lemma sum_contents:
  fixes g :: "'a list \<Rightarrow> 'b :: comm_monoid_add"
  assumes "queue_state T q m bls cs" and g: "g [] = 0"
  shows "(\<Sum>i \<in> T. g (contents m cs i)) = sum_list (map (\<lambda>j. g (cs ! j)) (newest_first q))"
proof -
  have fin: "finite T" and T: "dom m \<subseteq> T" and ran: "ran m = {..<length (producers q)}" and inj: "inj_on m (dom m)"
    using assms(1) by (simp_all add: queue_state_def hashes_ok_def)
  have "(\<Sum>i \<in> T. g (contents m cs i)) = (\<Sum>i \<in> dom m. g (contents m cs i))"
    using T fin g by (intro sum.mono_neutral_right) (auto simp: contents_def split: option.splits)
  also have "\<dots> = (\<Sum>i \<in> dom m. g (cs ! the (m i)))" by (rule sum.cong) (auto simp: contents_def)
  also have "\<dots> = (\<Sum>j \<in> (\<lambda>i. the (m i)) ` dom m. g (cs ! j))"
    using inj by (subst sum.reindex) (auto simp: inj_on_def domIff intro: option.expand)
  also have "(\<lambda>i. the (m i)) ` dom m = ran m" by (force simp: ran_def image_iff dom_def)
  also have "(\<Sum>j \<in> ran m. g (cs ! j)) = sum_list (map (\<lambda>j. g (cs ! j)) (newest_first q))"
    unfolding ran newest_first_def by (simp add: sum_list_distinct_conv_sum_set atLeast0LessThan)
  finally show ?thesis .
qed

lemma total_contents:
  "queue_state T q m bls cs \<Longrightarrow>
    (\<Sum>i \<in> T. length (contents m cs i)) = sum_list (map (\<lambda>j. length (cs ! j)) (newest_first q))"
  by (rule sum_contents) simp_all

lemma bulk_receive:
  assumes q: "queue_repr T q c"
  shows "\<exists>els src q' c'. try_dequeue_bulk most q = Some (els, q') \<and> queue_repr T q' c' \<and>
    length els = min (unat most) (\<Sum>i \<in> T. length (c i)) \<and> length src = length els \<and> set src \<subseteq> T \<and>
    (\<forall>i. c i = from_thread i (zip src els) @ c' i)"
proof -
  from q obtain m bls cs where st: "queue_state T q m bls cs" and c: "c = contents m cs"
    by (auto simp: queue_repr_contents)
  have "distinct (newest_first q)" by (simp add: newest_first_def)
  from bulk_from_ok [OF st this, of 0 most] obtain els src q' bls' cs' where
    h: "bulk_from (newest_first q) most 0 q = Some (els, q')" "queue_state T q' m bls' cs'"
    "els = take (unat most) (concat (map (\<lambda>j. cs ! j) (newest_first q)))" "length src = length els" "set src \<subseteq> T"
    "\<forall>i. contents m cs i = from_thread i (zip src els) @ contents m cs' i" by auto
  have "length els = min (unat most) (\<Sum>i \<in> T. length (c i))"
    unfolding c total_contents [OF st] by (simp add: h(3) length_concat o_def min.commute)
  moreover have "queue_repr T q' (contents m cs')" using h(2) by (auto simp: queue_repr_contents)
  ultimately show ?thesis using h c unfolding try_dequeue_bulk_def by blast
qed

section \<open>Properties\<close>

text \<open>
  C16. A bulk dequeue of an implicit producer leaves the very state, of the producer, of the blocks and
  of the free list, and gives the very elements, that as many single dequeues would, also when the
  elements lie in several blocks or the indices wrap around.
\<close>

theorem bulk_is_dequeues:
  assumes "subqueue others pr p bl xs"
  shows "producer_dequeue_bulk most pr p = dequeue_times (min (unat most) (length xs)) pr p \<and>
    (\<exists>pr' p'. dequeue_times (min (unat most) (length xs)) pr p = Some (take (unat most) xs, pr', p'))"
proof -
  from dequeue_times_ok [OF assms, of "min (unat most) (length xs)"] obtain pr' p' where
    "dequeue_times (min (unat most) (length xs)) pr p = Some (take (min (unat most) (length xs)) xs, pr', p')" by auto
  moreover have "take (min (unat most) (length xs)) xs = take (unat most) xs" by (simp add: min_def)
  ultimately show ?thesis using dequeue_bulk_is_dequeues [OF assms, of most] by simp
qed

definition first_producer :: producer where
  "first_producer = fst (new_producer (\<lambda>_. True) (empty_pool :: unit pool))"

lemma one_element:
  "\<exists>pr p bl. producer_enqueue (\<lambda>_. True) v first_producer empty_pool = Some (True, pr, p) \<and> subqueue {} pr p bl [v]"
proof -
  obtain p0 where new: "new_producer (\<lambda>_. True) (empty_pool :: unit pool) = (first_producer, p0)"
    unfolding first_producer_def by (metis prod.collapse)
  have "pool_inv (empty_pool :: 'a pool) {}" unfolding pool_inv_def
    by (intro exI [of _ "[]"]) (simp add: pool_ok_def empty_pool_def)
  moreover have core: "queue_ok (heap (empty_pool :: 'a pool)) first_producer [] []" using new_producer_ok [OF new] by blast
  ultimately have s: "subqueue {} first_producer (empty_pool :: 'a pool) [] []" by (simp add: subqueue_def)
  have b: "blockIndex first_producer \<noteq> []"
    using new new_block_index_True unfolding new_producer_def by (metis prod.collapse snd_conv fst_conv)
  from producer_enqueue_ok [OF s, of "\<lambda>_. True" v] obtain ok pr p bl where
    e: "producer_enqueue (\<lambda>_. True) v first_producer empty_pool = Some (ok, pr, p)" "subqueue {} pr p bl (if ok then [] @ [v] else [])" by blast
  have "ok" using producer_enqueue_True [OF e(1) b, of "[]" "[]"] core by (simp add: queue_ok_def)
  with e show ?thesis by auto
qed

theorem bulk_is_dequeues_witness:
  "\<exists>pr p pr' p'. producer_enqueue (\<lambda>_. True) (7 :: nat) first_producer empty_pool = Some (True, pr, p) \<and>
    producer_dequeue_bulk 5 pr p = dequeue_times 1 pr p \<and> dequeue_times 1 pr p = Some ([7], pr', p')"
proof -
  from one_element [of "7 :: nat"] obtain pr p bl where e: "producer_enqueue (\<lambda>_. True) (7 :: nat) first_producer empty_pool = Some (True, pr, p)" and s: "subqueue {} pr p bl [7]" by blast
  from bulk_is_dequeues [OF s, of 5] have "producer_dequeue_bulk 5 pr p = dequeue_times 1 pr p \<and>
    (\<exists>pr' p'. dequeue_times 1 pr p = Some ([7], pr', p'))" by (simp del: dequeue_times.simps)
  with e show ?thesis by blast
qed

text \<open>
  C17. A bulk receive of the queue takes as many elements as it holds and the caller has room for, none
  twice and none lost: thread by thread, what it held is what was received, in order, and then what
  it still holds.
\<close>

theorem bulk_receives:
  assumes "queue_repr T q c"
  shows "\<exists>els src q' c'. try_dequeue_bulk most q = Some (els, q') \<and> queue_repr T q' c' \<and>
    length els = min (unat most) (\<Sum>i \<in> T. length (c i)) \<and> length src = length els \<and> set src \<subseteq> T \<and>
    (\<forall>i. c i = from_thread i (zip src els) @ c' i)"
  by (rule bulk_receive [OF assms])

theorem bulk_receives_witness:
  "\<exists>q0 q q'. enqueue (\<lambda>_. True) 5 ''a'' (ConcurrentQueue (\<lambda>_. True) 4096) = Some (True, q0) \<and>
    enqueue (\<lambda>_. True) 5 ''b'' q0 = Some (True, q) \<and> try_dequeue_bulk 3 q = Some ([''a'', ''b''], q')"
proof -
  from enqueue_accepts [OF fresh_queue, of 5 "''a''"] new_queue_indexed obtain q0 where
    1: "enqueue (\<lambda>_. True) 5 ''a'' (ConcurrentQueue (\<lambda>_. True) 4096) = Some (True, q0)" "indexed q0"
    "queue_repr {5, 6} q0 ((\<lambda>_. [])(5 := [''a'']))" by auto
  from enqueue_accepts [OF 1(3), of 5 "''b''"] 1(2) obtain q where
    2: "enqueue (\<lambda>_. True) 5 ''b'' q0 = Some (True, q)" "queue_repr {5, 6} q ((\<lambda>_. [])(5 := [''a'', ''b'']))" by auto
  from bulk_receives [OF 2(2), of 3] obtain els src q' c' where 3: "try_dequeue_bulk 3 q = Some (els, q')"
    "length els = min (unat (3 :: u64)) (\<Sum>i \<in> {5 :: thread_id, 6}. length (((\<lambda>_. [])(5 := [''a'', ''b''])) i))"
    "length src = length els" "set src \<subseteq> {5, 6}" "\<And>i. ((\<lambda>_. [])(5 := [''a'', ''b''])) i = from_thread i (zip src els) @ c' i" by blast
  have "length els = 2" using 3(2) by simp
  with 3(3) obtain a b i j where ab: "els = [a, b]" "src = [i, j]" by (auto simp: length_Suc_conv numeral_2_eq_2)
  have "els = [''a'', ''b'']"
    using 3(4) 3(5) [of 5] 3(5) [of 6] ab by (auto split: if_splits)
  with 1 2 3 show ?thesis by blast
qed

end
