(* ===== verification/Cq_Bulk_Enqueue.thy ===== *)
theory Cq_Bulk_Enqueue
  imports Cq_Bulk
begin

text \<open>
  \<open>include/concurrentqueue.h\<close>: adding many elements in one call. \<open>enqueue_bulk\<close> of an implicit
  producer first takes all the blocks it will need, chained by their \<open>next\<close> pointers, and
  then fills them one after another. When a block or a place in the block index cannot be
  allocated, it undoes what it has taken so far: it adds all of the elements or none.
\<close>

section \<open>Operations\<close>

definition set_next :: "nat \<Rightarrow> nat option \<Rightarrow> 'a pool \<Rightarrow> 'a pool option" where
  "set_next b n p = do {
     x \<leftarrow> heap p b;
     Some (put_block b (x\<lparr>next_block := n\<rparr>) p) }"

text \<open>
  The loop that takes the blocks. Its body repeats the start of a block in \<open>enqueue\<close> and then
  links the new block. The result tells whether all were taken, and the first of them.
\<close>

partial_function (option) reserve_blocks ::
  "malloc_ok \<Rightarrow> u64 \<Rightarrow> u64 \<Rightarrow> u64 \<Rightarrow> nat option \<Rightarrow> producer \<Rightarrow> 'a pool \<Rightarrow> (bool \<times> nat option \<times> producer \<times> 'a pool) option" where
  "reserve_blocks mok startTailIndex blockBaseDiff currentTailIndex firstAllocatedBlock pr p = do {
     let blockBaseDiff = blockBaseDiff - BLOCK_SIZE;
     let currentTailIndex = currentTailIndex + BLOCK_SIZE;
     (ok, pr', p) \<leftarrow> start_block mok currentTailIndex pr p;
     if \<not> ok then Some (False, firstAllocatedBlock, pr', p)
     else do {
       newBlock \<leftarrow> tailBlock pr';
       p \<leftarrow> set_next newBlock None p;
       p \<leftarrow> (if startTailIndex AND (BLOCK_SIZE - 1) \<noteq> 0 \<or> firstAllocatedBlock \<noteq> None
             then do { b \<leftarrow> tailBlock pr; set_next b (Some newBlock) p }
             else Some p);
       let firstAllocatedBlock = (if firstAllocatedBlock = None then Some newBlock else firstAllocatedBlock);
       if 0 < blockBaseDiff
       then reserve_blocks mok startTailIndex blockBaseDiff currentTailIndex firstAllocatedBlock pr' p
       else Some (True, firstAllocatedBlock, pr', p) } }"

text \<open>Undoing: the entries of the index, then the blocks.\<close>

partial_function (option) drop_entries :: "u64 \<Rightarrow> nat option \<Rightarrow> producer \<Rightarrow> 'a pool \<Rightarrow> producer option" where
  "drop_entries currentTailIndex block pr p =
     (case block of
        None \<Rightarrow> Some pr
      | Some b \<Rightarrow> do {
          let currentTailIndex = currentTailIndex + BLOCK_SIZE;
          a \<leftarrow> get_block_index_entry_for_index currentTailIndex pr;
          pr \<leftarrow> rewind_block_index_tail (store_entry a ((entries pr ! a)\<lparr>be_value := None\<rparr>) pr);
          x \<leftarrow> heap p b;
          drop_entries currentTailIndex (next_block x) pr p })"

partial_function (option) add_blocks_to_free_list :: "nat option \<Rightarrow> 'a pool \<Rightarrow> 'a pool option" where
  "add_blocks_to_free_list block p =
     (case block of
        None \<Rightarrow> Some p
      | Some b \<Rightarrow> do {
          x \<leftarrow> heap p b;
          p \<leftarrow> add_block_to_free_list b p;
          add_blocks_to_free_list (next_block x) p })"

text \<open>Constructing elements in one block from \<open>index\<close> to \<open>stopIndex\<close>; the result has the elements left.\<close>

partial_function (option) put_elements :: "nat \<Rightarrow> u64 \<Rightarrow> u64 \<Rightarrow> 'a list \<Rightarrow> 'a pool \<Rightarrow> ('a list \<times> 'a pool) option" where
  "put_elements b index stopIndex items p =
     (if index = stopIndex then Some (items, p)
      else case items of
        [] \<Rightarrow> None
      | v # vs \<Rightarrow> do {
          p \<leftarrow> put_element b index v p;
          put_elements b (index + 1) stopIndex vs p })"

partial_function (option) fill_blocks ::
  "u64 \<Rightarrow> nat option \<Rightarrow> u64 \<Rightarrow> nat option \<Rightarrow> 'a list \<Rightarrow> 'a pool \<Rightarrow> (nat option \<times> 'a pool) option" where
  "fill_blocks newTailIndex endBlock currentTailIndex tailb items p = do {
     let stopIndex = end_of_block currentTailIndex newTailIndex;
     (items, p) \<leftarrow> (if currentTailIndex = stopIndex then Some (items, p)
                   else do { b \<leftarrow> tailb; put_elements b currentTailIndex stopIndex items p });
     if tailb = endBlock then (if stopIndex = newTailIndex then Some (tailb, p) else None)
     else do {
       b \<leftarrow> tailb;
       x \<leftarrow> heap p b;
       fill_blocks newTailIndex endBlock stopIndex (next_block x) items p } }"

definition producer_enqueue_bulk :: "malloc_ok \<Rightarrow> 'a list \<Rightarrow> producer \<Rightarrow> 'a pool \<Rightarrow> (bool \<times> producer \<times> 'a pool) option" where
  "producer_enqueue_bulk mok items pr p =
     (let count = of_nat (length items);
          startTailIndex = tailIndex pr;
          startBlock = tailBlock pr;
          currentTailIndex = (startTailIndex - 1) AND NOT (BLOCK_SIZE - 1);
          blockBaseDiff = ((startTailIndex + count - 1) AND NOT (BLOCK_SIZE - 1)) - currentTailIndex in
      do {
        (ok, firstAllocatedBlock, pr, p) \<leftarrow>
          (if 0 < blockBaseDiff then reserve_blocks mok startTailIndex blockBaseDiff currentTailIndex None pr p
           else Some (True, None, pr, p));
        if \<not> ok then do {
          pr \<leftarrow> drop_entries currentTailIndex firstAllocatedBlock pr p;
          p \<leftarrow> add_blocks_to_free_list firstAllocatedBlock p;
          Some (False, pr\<lparr>tailBlock := startBlock\<rparr>, p) }
        else if startTailIndex AND (BLOCK_SIZE - 1) = 0 \<and> firstAllocatedBlock = None \<and> count \<noteq> 0 then None
        else do {
          let endBlock = tailBlock pr;
          let tailb = (if startTailIndex AND (BLOCK_SIZE - 1) = 0 \<and> firstAllocatedBlock \<noteq> None
                       then firstAllocatedBlock else startBlock);
          (tailb, p) \<leftarrow> fill_blocks (startTailIndex + count) endBlock startTailIndex tailb items p;
          Some (True, pr\<lparr>tailBlock := tailb, tailIndex := startTailIndex + count\<rparr>, p) } })"

definition inner_enqueue_bulk :: "malloc_ok \<Rightarrow> thread_id \<Rightarrow> 'a list \<Rightarrow> 'a queue \<Rightarrow> (bool \<times> 'a queue) option" where
  "inner_enqueue_bulk mok thread items q = do {
     (j, q) \<leftarrow> get_or_add_implicit_producer mok thread q;
     case j of
       None \<Rightarrow> Some (False, q)
     | Some j \<Rightarrow> do {
         (ok, pr, p) \<leftarrow> producer_enqueue_bulk mok items (producers q ! j) (blocks q);
         Some (ok, q\<lparr>producers := (producers q)[j := pr], blocks := p\<rparr>) } }"

definition enqueue_bulk :: "malloc_ok \<Rightarrow> thread_id \<Rightarrow> 'a list \<Rightarrow> 'a queue \<Rightarrow> (bool \<times> 'a queue) option" where
  "enqueue_bulk mok thread items q =
     (if INITIAL_IMPLICIT_PRODUCER_HASH_SIZE = 0 then Some (False, q) else inner_enqueue_bulk mok thread items q)"

section \<open>The chain of new blocks\<close>

definition head_of :: "nat list \<Rightarrow> nat option" where
  "head_of bs = (case bs of [] \<Rightarrow> None | b # _ \<Rightarrow> Some b)"

lemma head_of_simps [simp]: "head_of [] = None" "head_of (b # bs) = Some b"
  "head_of bs = None \<longleftrightarrow> bs = []" "head_of (bs @ cs) = (if bs = [] then head_of cs else head_of bs)"
  by (simp_all add: head_of_def split: list.split)

definition next_at :: "(nat \<rightharpoonup> 'a block) \<Rightarrow> nat \<Rightarrow> nat option \<Rightarrow> bool" where
  "next_at hp b n \<longleftrightarrow> map_option next_block (hp b) = Some n"

fun linked :: "(nat \<rightharpoonup> 'a block) \<Rightarrow> nat list \<Rightarrow> bool" where
  "linked hp [] = True"
| "linked hp (b # bs) \<longleftrightarrow> next_at hp b (head_of bs) \<and> linked hp bs"

lemma linked_cong: "\<forall>b \<in> set bs. map_option next_block (hp' b) = map_option next_block (hp b) \<Longrightarrow> linked hp' bs = linked hp bs"
  by (induction bs) (auto simp: next_at_def)

lemma linked_append:
  assumes "linked hp bs" "distinct bs" "b \<notin> set bs" "next_at hp' b None"
    and "\<forall>a \<in> set bs. a \<noteq> last bs \<longrightarrow> map_option next_block (hp' a) = map_option next_block (hp a)"
    and "bs \<noteq> [] \<Longrightarrow> next_at hp' (last bs) (Some b)"
  shows "linked hp' (bs @ [b])"
  using assms
proof (induction bs)
  case (Cons a bs)
  show ?case
  proof (cases "bs = []")
    case True
    with Cons.prems show ?thesis by simp
  next
    case False
    then have "a \<noteq> last bs" using Cons.prems(2) by (metis distinct.simps(2) last_in_set)
    with False Cons show ?thesis by (auto simp: next_at_def)
  qed
qed simp

text \<open>Writing a \<open>next\<close> pointer does not touch what a sub-queue keeps in its blocks.\<close>

definition same_blocks :: "nat set \<Rightarrow> (nat \<rightharpoonup> 'a block) \<Rightarrow> (nat \<rightharpoonup> 'a block) \<Rightarrow> bool" where
  "same_blocks S hp hp' \<longleftrightarrow>
     (\<forall>b \<in> S. map_option (next_block_update (\<lambda>_. None)) (hp' b) = map_option (next_block_update (\<lambda>_. None)) (hp b))"

lemma same_block_fields:
  assumes "map_option (next_block_update (\<lambda>_. None)) (hp' b) = map_option (next_block_update (\<lambda>_. None)) (hp b)" "hp b = Some x"
  obtains y where "hp' b = Some y" "elements y = elements x" "elementsCompletelyDequeued y = elementsCompletelyDequeued x"
proof -
  from assms obtain y where y: "hp' b = Some y" "y\<lparr>next_block := None\<rparr> = x\<lparr>next_block := None\<rparr>" by (cases "hp' b") auto
  have "elements y = elements (y\<lparr>next_block := None\<rparr>)" "elementsCompletelyDequeued y = elementsCompletelyDequeued (y\<lparr>next_block := None\<rparr>)"
    by simp_all
  then show thesis using that [OF y(1)] unfolding y(2) by simp
qed

lemma queue_core_same_blocks:
  assumes q: "queue_core hp pr bl xs" and s: "same_blocks (set bl) hp hp'"
  shows "queue_core hp' pr bl xs"
proof -
  have "(slot_of (headIndex pr) + i) div 32 < length bl" if "i < length xs" for i
    using q that by (auto simp: queue_core_def intro!: less_mult_imp_div_less)
  moreover have "element_at hp' bl i v" if "element_at hp bl i v" "i div 32 < length bl" for i v
    using s that by (auto simp: element_at_def same_blocks_def elim!: same_block_fields [where hp = hp])
  moreover have "block_holds hp' b t" if "block_holds hp b t" "b \<in> set bl" for b t
    using s that by (auto simp: block_holds_def same_blocks_def elim!: same_block_fields [where hp = hp])
  ultimately show ?thesis using q by (simp add: queue_core_def)
qed

lemma set_next_ok:
  assumes inv: "pool_inv p used" and b: "b \<in> used"
  shows "\<exists>p'. set_next b n p = Some p' \<and> pool_inv p' used \<and> next_at (heap p') b n \<and>
    (\<forall>a. a \<noteq> b \<longrightarrow> heap p' a = heap p a) \<and> (\<forall>S. same_blocks S (heap p) (heap p'))"
proof -
  from inv obtain fl where ok: "pool_ok p used fl" by (auto simp: pool_inv_def)
  from pool_ok_used [OF ok b] obtain x where x: "heap p b = Some x" "freeListRefs x = 0" "length (elements x) = 32" .
  have "pool_inv (put_block b (x\<lparr>next_block := n\<rparr>) p) used"
    using pool_ok_put_block [OF ok b, of "x\<lparr>next_block := n\<rparr>"] x by (auto simp: pool_inv_def)
  with x show ?thesis by (auto simp: set_next_def next_at_def same_blocks_def)
qed

lemma same_blocks_refl [simp]: "same_blocks S hp hp"
  by (simp add: same_blocks_def)

lemma same_blocks_trans: "same_blocks S hp hp1 \<Longrightarrow> same_blocks S hp1 hp2 \<Longrightarrow> same_blocks S hp hp2"
  by (simp add: same_blocks_def)

section \<open>Taking the blocks\<close>

text \<open>
  The sub-queue with the new blocks \<open>ns\<close> behind its blocks \<open>bl\<close>. The block the enqueue starts in, when it
  is not full, points to the first of them.
\<close>

definition reserved :: "nat set \<Rightarrow> u64 \<Rightarrow> producer \<Rightarrow> 'a pool \<Rightarrow> nat list \<Rightarrow> nat list \<Rightarrow> 'a list \<Rightarrow> bool" where
  "reserved others start pr p bl ns xs \<longleftrightarrow>
     queue_core (heap p) pr (bl @ ns) xs \<and> pool_inv p (others \<union> set (bl @ ns)) \<and> set (bl @ ns) \<inter> others = {} \<and>
     linked (heap p) ns \<and> (slot_of start \<noteq> 0 \<longrightarrow> bl \<noteq> [] \<and> (ns \<noteq> [] \<longrightarrow> next_at (heap p) (last bl) (head_of ns)))"

definition link_new :: "u64 \<Rightarrow> nat list \<Rightarrow> nat \<Rightarrow> producer \<Rightarrow> 'a pool \<Rightarrow> 'a pool option" where
  "link_new start ns b pr p = do {
     p \<leftarrow> set_next b None p;
     if slot_of start \<noteq> 0 \<or> ns \<noteq> [] then do { a \<leftarrow> tailBlock pr; set_next a (Some b) p } else Some p }"

lemma link_new_ok:
  assumes r: "reserved others start pr p bl ns xs"
    and b: "b \<notin> others \<union> set (bl @ ns)" "pool_inv p1 (insert b (others \<union> set (bl @ ns)))"
    and core: "queue_core (heap p1) pr1 ((bl @ ns) @ [b]) xs" and frame: "\<forall>a \<in> others \<union> set (bl @ ns). heap p1 a = heap p a"
  shows "\<exists>p2. link_new start ns b pr p1 = Some p2 \<and> reserved others start pr1 p2 bl (ns @ [b]) xs \<and>
    (\<forall>a \<in> others. heap p2 a = heap p a)"
proof -
  let ?used = "insert b (others \<union> set (bl @ ns))"
  have old: "queue_core (heap p) pr (bl @ ns) xs" "set (bl @ ns) \<inter> others = {}" "linked (heap p) ns"
    "slot_of start \<noteq> 0 \<Longrightarrow> bl \<noteq> [] \<and> (ns \<noteq> [] \<longrightarrow> next_at (heap p) (last bl) (head_of ns))"
    using r by (auto simp: reserved_def)
  have dist: "distinct (bl @ ns)" using old(1) by (simp add: queue_core_def)
  have lk1: "linked (heap p1) ns" using old(3) linked_cong [of ns "heap p1" "heap p"] frame by simp
  from set_next_ok [OF b(2), of b None] obtain p2 where p2: "set_next b None p1 = Some p2" "pool_inv p2 ?used"
    "next_at (heap p2) b None" "\<And>a. a \<noteq> b \<Longrightarrow> heap p2 a = heap p1 a" "\<And>S. same_blocks S (heap p1) (heap p2)" by auto
  have used: "?used = others \<union> set (bl @ ns @ [b])" "set (bl @ ns @ [b]) \<inter> others = {}" using b(1) old(2) by auto
  show ?thesis
  proof (cases "slot_of start \<noteq> 0 \<or> ns \<noteq> []")
    case False
    have "queue_core (heap p2) pr1 (bl @ ns @ [b]) xs" using queue_core_same_blocks [OF core p2(5)] by simp
    then have "reserved others start pr1 p2 bl (ns @ [b]) xs"
      using False p2(2,3) used by (simp add: reserved_def)
    moreover have "\<forall>a \<in> others. heap p2 a = heap p a" using p2(4) frame b(1) by (metis UnI1)
    ultimately show ?thesis using False p2(1) by (simp add: link_new_def)
  next
    case True
    let ?t = "last (bl @ ns)"
    have ne: "bl @ ns \<noteq> []" using True old(4) by auto
    then have t: "tailBlock pr = Some ?t" "?t \<in> set (bl @ ns)" using old(1) last_in_set [OF ne] by (simp_all add: queue_core_def)
    then have tb: "?t \<noteq> b" "?t \<in> ?used" "?t \<notin> others" using b(1) old(2) by auto
    from set_next_ok [OF p2(2) tb(2), of "Some b"] obtain p3 where p3: "set_next ?t (Some b) p2 = Some p3" "pool_inv p3 ?used"
      "next_at (heap p3) ?t (Some b)" "\<And>a. a \<noteq> ?t \<Longrightarrow> heap p3 a = heap p2 a" "\<And>S. same_blocks S (heap p2) (heap p3)" by auto
    have core3: "queue_core (heap p3) pr1 (bl @ ns @ [b]) xs"
      using queue_core_same_blocks [OF core same_blocks_trans [OF p2(5) p3(5)]] by simp
    have keep: "heap p3 a = heap p1 a" if "a \<noteq> b" "a \<noteq> ?t" for a using p2(4) p3(4) that by simp
    have "linked (heap p3) (ns @ [b])"
    proof (rule linked_append [OF lk1])
      show "distinct ns" using dist by simp
      show "b \<notin> set ns" using b(1) by simp
      show "next_at (heap p3) b None" using p2(3) p3(4) [of b] tb(1) by (simp add: next_at_def)
      show "\<forall>a \<in> set ns. a \<noteq> last ns \<longrightarrow> map_option next_block (heap p3 a) = map_option next_block (heap p1 a)"
      proof (intro ballI impI)
        fix a assume "a \<in> set ns" "a \<noteq> last ns"
        then have "a \<noteq> b" "a \<noteq> ?t" using b(1) by (auto simp: last_append split: if_splits)
        then show "map_option next_block (heap p3 a) = map_option next_block (heap p1 a)" by (simp add: keep)
      qed
      show "next_at (heap p3) (last ns) (Some b)" if "ns \<noteq> []" using p3(3) that by simp
    qed
    moreover have "next_at (heap p3) (last bl) (head_of (ns @ [b]))" if "slot_of start \<noteq> 0"
    proof (cases "ns = []")
      case True
      with p3(3) show ?thesis by simp
    next
      case False
      have l: "last bl \<in> set bl" using old(4) that by simp
      then have "last bl \<noteq> ?t" using dist False last_in_set [OF False] by auto
      moreover have "last bl \<noteq> b" using l b(1) by auto
      ultimately have "heap p3 (last bl) = heap p (last bl)" using keep [of "last bl"] frame l by simp
      then show ?thesis using old(4) that False by (simp add: next_at_def)
    qed
    ultimately have "reserved others start pr1 p3 bl (ns @ [b]) xs"
      using core3 p3(2) used old(4) by (simp add: reserved_def)
    moreover have "\<forall>a \<in> others. heap p3 a = heap p a" using keep frame b(1) tb(3) by (metis UnI1)
    ultimately show ?thesis using True p2(1) p3(1) t(1) by (simp add: link_new_def)
  qed
qed

lemma reserve_blocks_unfold:
  "reserve_blocks mok start diff cur (head_of ns) pr p = do {
     (ok, pr', p) \<leftarrow> start_block mok (cur + BLOCK_SIZE) pr p;
     if \<not> ok then Some (False, head_of ns, pr', p)
     else do {
       b \<leftarrow> tailBlock pr';
       p \<leftarrow> link_new start ns b pr p;
       if 0 < diff - BLOCK_SIZE
       then reserve_blocks mok start (diff - BLOCK_SIZE) (cur + BLOCK_SIZE) (head_of (ns @ [b])) pr' p
       else Some (True, head_of (ns @ [b]), pr', p) } }"
proof -
  have s: "start AND (BLOCK_SIZE - 1) = 0 \<longleftrightarrow> slot_of start = 0" by (simp add: BLOCK_SIZE_def slot_of_0_iff)
  have f: "(if head_of ns = None then Some b else head_of ns) = head_of (ns @ [b])" for b by (cases ns) simp_all
  show ?thesis
    by (subst reserve_blocks.simps)
      (simp add: Let_def s f link_new_def Option.bind_assoc split_def cong: if_cong)
qed

lemma end_index_step:
  "end_index pr (bl @ [b]) = end_index pr bl + BLOCK_SIZE"
  by (simp add: end_index_def BLOCK_SIZE_def algebra_simps)

lemma end_index_same: "same_queue pr (pr'\<lparr>tailBlock := tb\<rparr>) \<Longrightarrow> end_index pr' bl = end_index pr bl"
  by (simp add: end_index_def same_queue_def)

lemma more_blocks:
  assumes "0 < nb" "32 * nb < 2 ^ 64"
  shows "of_nat (32 * nb) - BLOCK_SIZE = (of_nat (32 * (nb - 1)) :: u64)" "(0 :: u64) < of_nat (32 * (nb - 1)) \<longleftrightarrow> 1 < nb"
proof -
  obtain n where n: "nb = Suc n" using assms(1) by (cases nb) auto
  then show "of_nat (32 * nb) - BLOCK_SIZE = (of_nat (32 * (nb - 1)) :: u64)" by (simp add: BLOCK_SIZE_def algebra_simps)
  have "unat (of_nat (32 * n) :: u64) = 32 * n" using assms(2) n by (intro unat_of_nat_u64) simp
  then show "(0 :: u64) < of_nat (32 * (nb - 1)) \<longleftrightarrow> 1 < nb"
    by (simp add: n word_less_nat_alt del: of_nat_mult)
qed

lemma start_block_accepts:
  assumes "start_block (\<lambda>_. True) (end_index pr bl) pr p = Some (ok, pr', p')" "blockIndex pr \<noteq> []"
    and "queue_core (heap p) pr bl xs" "32 * length bl + 32 < 2 ^ 63 + slot_of (headIndex pr)"
  shows "ok \<and> blockIndex pr' \<noteq> []"
  using assms(1,2) end_index_limits [OF assms(3)] assms(4)
  by (auto simp: start_block_def Let_def MAX_SUBQUEUE_SIZE_def bind_eq_Some_conv
      split: if_splits option.splits prod.splits dest!: insert_block_index_entry_True requisition_block_True)

text \<open>There is room for \<open>nb\<close> more blocks, and no allocation fails.\<close>

definition roomy_for :: "malloc_ok \<Rightarrow> nat \<Rightarrow> producer \<Rightarrow> nat list \<Rightarrow> bool" where
  "roomy_for mok nb pr bl \<longleftrightarrow>
     mok = (\<lambda>_. True) \<and> blockIndex pr \<noteq> [] \<and> 32 * (length bl + nb) < 2 ^ 63 + slot_of (headIndex pr)"

lemma reserve_blocks_ok:
  assumes "reserved others start pr p bl ns xs" "cur + BLOCK_SIZE = end_index pr (bl @ ns)" "0 < nb" "32 * nb < 2 ^ 64"
  shows "\<exists>ok pr' p' ms. reserve_blocks mok start (of_nat (32 * nb)) cur (head_of ns) pr p = Some (ok, head_of (ns @ ms), pr', p') \<and>
    reserved others start pr' p' bl (ns @ ms) xs \<and> (ok \<longrightarrow> length ms = nb) \<and> same_queue pr (pr'\<lparr>tailBlock := tailBlock pr\<rparr>) \<and>
    (\<forall>a \<in> others. heap p' a = heap p a) \<and> (roomy_for mok nb pr (bl @ ns) \<longrightarrow> ok \<and> blockIndex pr' \<noteq> [])"
  using assms
proof (induction nb arbitrary: pr p ns cur)
  case (Suc n)
  note r = Suc.prems(1)
  have core: "queue_core (heap p) pr (bl @ ns) xs" and inv: "pool_inv p (others \<union> set (bl @ ns))"
    using r by (simp_all add: reserved_def)
  from start_block_at [OF core inv, of mok] obtain ok pr1 p1 where
    st: "start_block mok (cur + BLOCK_SIZE) pr p = Some (ok, pr1, p1)" and same: "same_queue pr (pr1\<lparr>tailBlock := tailBlock pr\<rparr>)"
    and frame: "\<forall>a \<in> others \<union> set (bl @ ns). heap p1 a = heap p a" and
    res: "if ok then \<exists>b. b \<notin> others \<union> set (bl @ ns) \<and> pool_inv p1 (insert b (others \<union> set (bl @ ns))) \<and>
        queue_core (heap p1) pr1 ((bl @ ns) @ [b]) xs
      else pool_inv p1 (others \<union> set (bl @ ns)) \<and> queue_core (heap p1) pr1 (bl @ ns) xs \<and> tailBlock pr1 = tailBlock pr"
    unfolding Suc.prems(2) by auto
  have acc: "ok \<and> blockIndex pr1 \<noteq> []" if "roomy_for mok (Suc n) pr (bl @ ns)"
    using start_block_accepts [OF _ _ core] st that unfolding Suc.prems(2) by (simp add: roomy_for_def)
  note unfold = reserve_blocks_unfold [of mok start "of_nat (32 * Suc n)" cur ns pr p, unfolded st Option.bind.simps split_conv]
  show ?case
  proof (cases ok)
    case False
    have "linked (heap p1) ns" using linked_cong [of ns "heap p1" "heap p"] frame r by (simp add: reserved_def)
    moreover have "next_at (heap p1) (last bl) (head_of ns)" if "slot_of start \<noteq> 0" "ns \<noteq> []"
    proof -
      have bl: "bl \<noteq> []" and nx: "next_at (heap p) (last bl) (head_of ns)" using r that by (simp_all add: reserved_def)
      then show ?thesis using frame last_in_set [OF bl] by (simp add: next_at_def)
    qed
    ultimately have "reserved others start pr1 p1 bl ns xs" using r res False by (simp add: reserved_def)
    moreover have "reserve_blocks mok start (of_nat (32 * Suc n)) cur (head_of ns) pr p = Some (False, head_of ns, pr1, p1)"
      unfolding unfold using False by simp
    ultimately show ?thesis using same frame acc False by (intro exI [of _ False] exI [of _ pr1] exI [of _ p1] exI [of _ "[]"]) auto
  next
    case True
    with res obtain b where b: "b \<notin> others \<union> set (bl @ ns)" "pool_inv p1 (insert b (others \<union> set (bl @ ns)))"
      "queue_core (heap p1) pr1 ((bl @ ns) @ [b]) xs" by auto
    from link_new_ok [OF r b frame] obtain p2 where p2: "link_new start ns b pr p1 = Some p2"
      "reserved others start pr1 p2 bl (ns @ [b]) xs" "\<forall>a \<in> others. heap p2 a = heap p a" by blast
    have tb: "tailBlock pr1 = Some b" using b(3) by (simp add: queue_core_def)
    note more = more_blocks [OF _ Suc.prems(4)]
    have run: "reserve_blocks mok start (of_nat (32 * Suc n)) cur (head_of ns) pr p =
      (if 0 < n then reserve_blocks mok start (of_nat (32 * n)) (cur + BLOCK_SIZE) (head_of (ns @ [b])) pr1 p2
       else Some (True, head_of (ns @ [b]), pr1, p2))"
      unfolding unfold using True tb p2(1) more by (simp del: of_nat_mult)
    show ?thesis
    proof (cases "n = 0")
      case True
      with run p2 same acc show ?thesis by (intro exI [of _ True] exI [of _ pr1] exI [of _ p2] exI [of _ "[b]"]) auto
    next
      case False
      have cur: "cur + BLOCK_SIZE + BLOCK_SIZE = end_index pr1 (bl @ ns @ [b])"
        unfolding Suc.prems(2) using end_index_step [of pr "bl @ ns" b] end_index_same [OF same] by simp
      have nb: "0 < n" "32 * n < 2 ^ 64" using False Suc.prems(4) by simp_all
      from Suc.IH [OF p2(2) cur nb] obtain ok' pr' p' ms where
        h: "reserve_blocks mok start (of_nat (32 * n)) (cur + BLOCK_SIZE) (head_of (ns @ [b])) pr1 p2
            = Some (ok', head_of ((ns @ [b]) @ ms), pr', p')" "reserved others start pr' p' bl ((ns @ [b]) @ ms) xs"
          "ok' \<longrightarrow> length ms = n" "same_queue pr1 (pr'\<lparr>tailBlock := tailBlock pr1\<rparr>)" "\<forall>a \<in> others. heap p' a = heap p2 a"
          "roomy_for mok n pr1 (bl @ ns @ [b]) \<longrightarrow> ok' \<and> blockIndex pr' \<noteq> []" by blast
      have "same_queue pr (pr'\<lparr>tailBlock := tailBlock pr\<rparr>)" using same h(4) by (simp add: same_queue_def)
      moreover have "roomy_for mok n pr1 (bl @ ns @ [b])" if "roomy_for mok (Suc n) pr (bl @ ns)"
        using acc [OF that] that same by (simp add: roomy_for_def same_queue_def)
      ultimately show ?thesis using h run nb(1) p2(3)
        by (intro exI [of _ ok'] exI [of _ pr'] exI [of _ p'] exI [of _ "b # ms"]) auto
    qed
  qed
qed simp

section \<open>Undoing\<close>

lemma add_blocks_ok:
  assumes "pool_inv p (used \<union> set ns)" "set ns \<inter> used = {}" "distinct ns" "linked (heap p) ns"
  shows "\<exists>p'. add_blocks_to_free_list (head_of ns) p = Some p' \<and> pool_inv p' used \<and> (\<forall>a \<in> used. heap p' a = heap p a)"
  using assms
proof (induction ns arbitrary: p)
  case Nil
  then show ?case by (simp add: add_blocks_to_free_list.simps)
next
  case (Cons b ns)
  from Cons.prems(4) obtain x where x: "heap p b = Some x" "next_block x = head_of ns" by (auto simp: next_at_def)
  from pool.free_law [OF Cons.prems(1), of b] obtain p1 where p1: "add_block_to_free_list b p = Some p1"
    "pool_inv p1 (used \<union> set (b # ns) - {b})" "\<forall>a \<in> used \<union> set (b # ns) - {b}. heap p1 a = heap p a" by auto
  have rest: "used \<union> set (b # ns) - {b} = used \<union> set ns" using Cons.prems(2,3) by auto
  have "linked (heap p1) ns" using linked_cong [of ns "heap p1" "heap p"] p1(3) Cons.prems(4) unfolding rest by simp
  with Cons.IH [of p1] p1(2) Cons.prems(2,3) obtain p' where "add_blocks_to_free_list (head_of ns) p1 = Some p'"
    "pool_inv p' used" "\<forall>a \<in> used. heap p' a = heap p1 a" unfolding rest by auto
  with x p1 show ?case unfolding rest by (auto simp: add_blocks_to_free_list.simps [of "Some b"])
qed

text \<open>
  The undo walks over the entries from the first one while it moves the tail back from the last
  one, so in between the tail slot is not the last block's. \<open>undone\<close> is the index after \<open>i\<close>
  of the \<open>c\<close> last entries are undone.
\<close>

definition undone :: "block_index_header \<Rightarrow> block_index_entry list \<Rightarrow> nat \<Rightarrow> nat \<Rightarrow> nat \<Rightarrow> producer \<Rightarrow> bool" where
  "undone h es k c i pr \<longleftrightarrow>
     (\<exists>hs. blockIndex pr = h\<lparr>bh_tail := take_bit k (bh_tail h - of_nat i)\<rparr> # hs) \<and>
     nextBlockIndexCapacity pr = 2 ^ Suc k \<and> length (entries pr) = length es \<and>
     (\<forall>d < 2 ^ k. be_key (entries pr ! ring_slot h d) = be_key (es ! ring_slot h d) \<and>
        be_value (entries pr ! ring_slot h d) = (if c - i \<le> d \<and> d < c then None else be_value (es ! ring_slot h d)))"

lemma and_mask_take_bit: "(w :: u64) AND (2 ^ k - 1) = take_bit k w"
  by (simp add: take_bit_eq_mask mask_eq_exp_minus_1)

lemma take_bit_plus:
  assumes "k < 64"
  shows "take_bit k (take_bit k a + b) = take_bit k (a + b :: u64)"
proof -
  have mod: "(n mod 2 ^ 64) mod 2 ^ k = n mod 2 ^ k" for n :: nat
    using assms by (intro mod_mod_cancel le_imp_power_dvd) simp
  then have "n mod 18446744073709551616 mod 2 ^ k = n mod 2 ^ k" for n :: nat by simp
  then have "unat (take_bit k (take_bit k a + b)) = unat (take_bit k (a + b))"
    using assms by (simp add: unsigned_take_bit_eq take_bit_eq_mod unat_word_ariths mod_add_left_eq)
  then show ?thesis by (simp add: word_unat_eq_iff)
qed

lemma unat_take_bit_back:
  assumes "k < 64" "unat t < 2 ^ k" "d \<le> 2 ^ k"
  shows "unat (take_bit k (t - of_nat d) :: u64) = ring_pos (2 ^ k) (unat t) d"
  using ring_pos_word [OF assms] by (simp only: and_mask_take_bit)

lemma ring_pos_twice:
  assumes "t < K" "c \<le> K" "d < K"
  shows "ring_pos K (ring_pos K t c) d = ring_pos K t (if c + d < K then c + d else c + d - K)"
  using assms by (auto simp: ring_pos_def mod_if)

lemma signed_block_distance:
  fixes x y :: u64
  assumes "x - y = word_of_int (32 * z)" "- (2 ^ 63) \<le> 32 * z" "32 * z < 2 ^ 63"
  shows "word_of_int (sint (x - y) sdiv 32) = (word_of_int z :: u64)"
proof -
  have "sint (word_of_int (32 * z) :: u64) = 32 * z"
    using assms(2,3) by (subst sint_sbintrunc') (simp add: signed_take_bit_int_eq_self_iff)
  moreover have "(32 * z) sdiv 32 = z" by (auto simp: signed_divide_int_def sgn_if abs_if zdiv_zminus1_eq_if)
  ultimately show ?thesis by (simp add: assms(1))
qed

lemma undone_lookup:
  assumes ok: "ring_ok h es k b0 bl" and u: "undone h es k c i pr" and i: "i < c" "c \<le> length bl"
    and b0: "slot_of b0 = 0" and small: "32 * length bl < 2 ^ 63 + 32"
  shows "get_block_index_entry_for_index (b0 + of_nat (32 * (length bl - c + i))) pr = Some (ring_slot h (c - 1 - i))"
proof -
  let ?n = "length bl" and ?t = "take_bit k (bh_tail h - of_nat i)" and ?b = "b0 + of_nat (32 * (length bl - c + i))"
  have shape: "ring_shape h k (length es)" and len: "?n \<le> 2 ^ k" using ok by (auto simp: ring_ok_def)
  then have k: "k < 64" "bh_capacity h = 2 ^ k" "unat (bh_tail h) < 2 ^ k" by (auto simp: ring_shape_def)
  obtain hs where bi: "blockIndex pr = h\<lparr>bh_tail := ?t\<rparr> # hs" using u by (auto simp: undone_def)
  then have cur: "current_header pr = Some (h\<lparr>bh_tail := ?t\<rparr>)" by (simp add: current_header_def)
  have keys: "be_key (entries pr ! ring_slot h d) = be_key (es ! ring_slot h d)" if "d < 2 ^ k" for d
    using u that by (simp add: undone_def)
  have "base_of ?b = ?b" using base_of_add [of b0 "32 * (?n - c + i)"] base_of_eq [of b0] b0 by simp
  then have base: "?b AND NOT (BLOCK_SIZE - 1) = ?b" by (simp add: base_of_def BLOCK_SIZE_def)
  have slot_i: "bh_index h ! unat ?t = ring_slot h i"
    using unat_take_bit_back [OF k(1,3), of i] i len by (simp add: ring_slot_def ring_shape_cap [OF shape])
  have tail: "be_key (entries pr ! (bh_index h ! unat ?t)) = b0 + of_nat (32 * (?n - 1 - i))"
    using ring_ok_used [OF ok, of i] keys [of i] i len by (simp add: slot_i ring_entry_def)
  have valid: "b0 + of_nat (32 * (?n - 1 - i)) \<noteq> (1 :: u64)"
  proof
    assume "b0 + of_nat (32 * (?n - 1 - i)) = (1 :: u64)"
    then have "slot_of (b0 + of_nat (32 * (?n - 1 - i))) = slot_of 1" by simp
    then show False using b0 by (simp only: slot_of_add) (simp add: slot_of_mod)
  qed
  define z :: int where "z = 2 * int i + 1 - int c"
  have "?b - (b0 + of_nat (32 * (?n - 1 - i))) = word_of_int (int (32 * (?n - c + i)) - int (32 * (?n - 1 - i)))"
    by simp
  also have "int (32 * (?n - c + i)) - int (32 * (?n - 1 - i)) = 32 * z"
    using i by (simp add: z_def of_nat_diff)
  finally have diff: "?b - (b0 + of_nat (32 * (?n - 1 - i))) = word_of_int (32 * z)" .
  have off: "word_of_int (sint (?b - (b0 + of_nat (32 * (?n - 1 - i)))) sdiv 32) = (word_of_int z :: u64)"
    by (rule signed_block_distance [OF diff]) (use i small in \<open>simp_all add: z_def\<close>)
  have "bh_tail h - of_nat i + word_of_int z = bh_tail h - of_nat (c - 1 - i)"
  proof -
    have "word_of_int z = (of_nat i - of_nat (c - 1 - i) :: u64)"
      using i by (simp add: z_def of_nat_diff)
    then show ?thesis by simp
  qed
  then have idx: "(?t + word_of_int z) AND (bh_capacity h - 1) = take_bit k (bh_tail h - of_nat (c - 1 - i))"
    by (simp only: k(2) and_mask_take_bit take_bit_plus [OF k(1)])
  have slot: "bh_index h ! unat (take_bit k (bh_tail h - of_nat (c - 1 - i))) = ring_slot h (c - 1 - i)"
    using unat_take_bit_back [OF k(1,3), of "c - 1 - i"] i len by (simp add: ring_slot_def ring_shape_cap [OF shape])
  have e: "be_key (entries pr ! ring_slot h (c - 1 - i)) = ?b" "be_value (entries pr ! ring_slot h (c - 1 - i)) \<noteq> None"
    using ring_ok_used [OF ok, of "c - 1 - i"] keys [of "c - 1 - i"] u i len by (simp_all add: ring_entry_def undone_def)
  have sel: "bh_tail (h\<lparr>bh_tail := w\<rparr>) = w" "bh_index (h\<lparr>bh_tail := w\<rparr>) = bh_index h"
    "bh_capacity (h\<lparr>bh_tail := w\<rparr>) = bh_capacity h" for w by simp_all
  have "get_block_index_index_for_index ?b pr = Some (take_bit k (bh_tail h - of_nat (c - 1 - i)))"
    unfolding get_block_index_index_for_index_def base cur
    by (simp only: Option.bind.simps Let_def sel tail valid INVALID_BLOCK_BASE_def if_False BLOCK_SIZE_def
        sint_numeral_32 off idx slot e) simp
  with slot show ?thesis by (simp add: get_block_index_entry_for_index_def cur)
qed

lemma undone_step:
  assumes ok: "ring_ok h es k b0 bl" and u: "undone h es k c i pr" and i: "i < c" "c \<le> length bl"
  defines "a \<equiv> ring_slot h (c - 1 - i)"
  shows "\<exists>pr'. rewind_block_index_tail (store_entry a ((entries pr ! a)\<lparr>be_value := None\<rparr>) pr) = Some pr' \<and>
    undone h es k c (Suc i) pr' \<and> same_queue pr pr'"
proof -
  let ?t = "\<lambda>i. take_bit k (bh_tail h - of_nat i)"
  let ?pr = "store_entry a ((entries pr ! a)\<lparr>be_value := None\<rparr>) pr"
  have shape: "ring_shape h k (length es)" and len: "length bl \<le> 2 ^ k" using ok by (auto simp: ring_ok_def)
  have k: "k < 64" "bh_capacity h = 2 ^ k" using shape by (auto simp: ring_shape_def)
  obtain hs where bi: "blockIndex pr = h\<lparr>bh_tail := ?t i\<rparr> # hs" using u by (auto simp: undone_def)
  have "(?t i - 1) AND (bh_capacity h - 1) = ?t (Suc i)"
    using take_bit_plus [OF k(1), of "bh_tail h - of_nat i" "- 1"]
    by (simp add: k(2) and_mask_take_bit algebra_simps)
  then have rew: "rewind_block_index_tail ?pr = Some (store_tail (?t (Suc i)) ?pr)"
    by (simp add: rewind_block_index_tail_def current_header_def store_entry_def bi)
  have a: "a < length (entries pr)" using u ring_slot_less [OF shape] by (simp add: undone_def a_def)
  have es: "entries (store_tail w ?pr) = (entries pr)[a := (entries pr ! a)\<lparr>be_value := None\<rparr>]" for w
    by (simp add: store_tail_def store_entry_def bi)
  have "be_key (entries (store_tail w ?pr) ! ring_slot h d) = be_key (es ! ring_slot h d) \<and>
      be_value (entries (store_tail w ?pr) ! ring_slot h d) = (if c - Suc i \<le> d \<and> d < c then None else be_value (es ! ring_slot h d))"
    if d: "d < 2 ^ k" for d w
  proof (cases "d = c - 1 - i")
    case True
    then have "ring_slot h d = a" by (simp add: a_def)
    moreover have "c - Suc i \<le> d" "d < c" using True i by auto
    ultimately show ?thesis using u a d by (auto simp: es undone_def)
  next
    case False
    moreover have "c - 1 - i < 2 ^ k" using i len by linarith
    ultimately have "ring_slot h d \<noteq> a" unfolding a_def using ring_slot_inj [OF shape d] by blast
    moreover have "c - Suc i \<le> d \<longleftrightarrow> c - i \<le> d" using False i(1) by linarith
    ultimately show ?thesis using u d by (auto simp: es undone_def)
  qed
  then have "undone h es k c (Suc i) (store_tail (?t (Suc i)) ?pr)"
    using u by (simp add: undone_def es) (simp add: store_tail_def store_entry_def bi)
  with rew show ?thesis by simp
qed

lemma undone_all:
  assumes ok: "ring_ok h es k b0 (bl @ ns)" and u: "undone h es k (length ns) (length ns) pr"
  shows "index_ok pr b0 bl"
proof -
  let ?c = "length ns" and ?h = "h\<lparr>bh_tail := take_bit k (bh_tail h - of_nat (length ns))\<rparr>"
  have shape: "ring_shape h k (length es)" and len: "length bl + ?c \<le> 2 ^ k" using ok by (auto simp: ring_ok_def)
  then have k: "k < 64" "unat (bh_tail h) < 2 ^ k" by (auto simp: ring_shape_def)
  have t: "unat (take_bit k (bh_tail h - of_nat ?c)) = ring_pos (2 ^ k) (unat (bh_tail h)) ?c"
    using unat_take_bit_back [OF k, of ?c] len by simp
  have shape': "ring_shape ?h k (length (entries pr))" using shape u t by (auto simp: ring_shape_def undone_def)
  have slot: "ring_slot ?h d = ring_slot h (if ?c + d < 2 ^ k then ?c + d else ?c + d - 2 ^ k)" if "d < 2 ^ k" for d
    using ring_pos_twice [OF k(2), of ?c d] that len
    by (simp add: ring_slot_def ring_shape_cap [OF shape] t)
  have "if d < length bl then entries pr ! ring_slot ?h d = ring_entry b0 bl (length bl - 1 - d)
      else be_value (entries pr ! ring_slot ?h d) = None" if d: "d < 2 ^ k" for d
  proof (cases "?c + d < 2 ^ k")
    case True
    have "be_key (entries pr ! ring_slot h (?c + d)) = be_key (es ! ring_slot h (?c + d))"
      "be_value (entries pr ! ring_slot h (?c + d)) = be_value (es ! ring_slot h (?c + d))"
      using u True by (auto simp: undone_def)
    then have same: "entries pr ! ring_slot ?h d = es ! ring_slot h (?c + d)" using slot [OF d] True by simp
    show ?thesis
    proof (cases "d < length bl")
      case True
      then have "es ! ring_slot h (?c + d) = ring_entry b0 (bl @ ns) (length (bl @ ns) - 1 - (?c + d))"
        by (intro ring_ok_used [OF ok]) simp
      also have "\<dots> = ring_entry b0 bl (length bl - 1 - d)" using True by (simp add: ring_entry_append)
      finally show ?thesis using True same by simp
    next
      case False
      with ring_ok_unused [OF ok, of "?c + d"] True same show ?thesis by simp
    qed
  next
    case False
    then have "\<not> d < length bl" "?c + d - 2 ^ k < ?c" using len d by auto
    moreover have "be_value (entries pr ! ring_slot h (?c + d - 2 ^ k)) = None"
      using u len calculation(2) by (simp add: undone_def)
    ultimately show ?thesis using slot [OF d] False by simp
  qed
  then have "ring_ok ?h (entries pr) k b0 bl" using shape' len by (simp add: ring_ok_def)
  then show ?thesis using u by (auto simp: index_ok_def undone_def)
qed

lemma drop_entries_loop:
  assumes "ring_ok h es k b0 (bl @ ns)" "slot_of b0 = 0" "32 * length (bl @ ns) < 2 ^ 63 + 32"
    and "undone h es k (length ns) i pr" "i \<le> length ns" "linked (heap p) (drop i ns)"
    and "cur + BLOCK_SIZE = b0 + of_nat (32 * (length bl + i))"
  shows "\<exists>pr'. drop_entries cur (head_of (drop i ns)) pr p = Some pr' \<and> undone h es k (length ns) (length ns) pr' \<and> same_queue pr pr'"
  using assms(4-)
proof (induction "length ns - i" arbitrary: i pr cur)
  case 0
  then show ?case by (simp add: drop_entries.simps)
next
  case (Suc n)
  then have i: "i < length ns" by linarith
  then have dr: "drop i ns = ns ! i # drop (Suc i) ns" by (simp add: Cons_nth_drop_Suc)
  let ?a = "ring_slot h (length ns - 1 - i)"
  have look: "get_block_index_entry_for_index (cur + BLOCK_SIZE) pr = Some ?a"
    using undone_lookup [OF assms(1) Suc.prems(1) i _ assms(2,3)] Suc.prems(4) by simp
  from undone_step [OF assms(1) Suc.prems(1) i] obtain pr1 where
    1: "rewind_block_index_tail (store_entry ?a ((entries pr ! ?a)\<lparr>be_value := None\<rparr>) pr) = Some pr1"
    "undone h es k (length ns) (Suc i) pr1" "same_queue pr pr1" by auto
  obtain x where x: "heap p (ns ! i) = Some x" "next_block x = head_of (drop (Suc i) ns)"
    using Suc.prems(3) unfolding dr by (auto simp: next_at_def)
  have run: "drop_entries cur (head_of (drop i ns)) pr p = drop_entries (cur + BLOCK_SIZE) (head_of (drop (Suc i) ns)) pr1 p"
    unfolding dr by (subst drop_entries.simps) (simp only: head_of_simps option.case Let_def look 1(1) x Option.bind.simps)
  have "n = length ns - Suc i" "Suc i \<le> length ns" "linked (heap p) (drop (Suc i) ns)"
    using Suc.hyps(2) i Suc.prems(3) unfolding dr by simp_all
  moreover have "cur + BLOCK_SIZE + BLOCK_SIZE = b0 + of_nat (32 * (length bl + Suc i))"
    unfolding Suc.prems(4) by (simp add: BLOCK_SIZE_def algebra_simps)
  ultimately obtain pr' where "drop_entries (cur + BLOCK_SIZE) (head_of (drop (Suc i) ns)) pr1 p = Some pr'"
    "undone h es k (length ns) (length ns) pr'" "same_queue pr1 pr'"
    using Suc.hyps(1) [OF _ 1(2)] by blast
  with run same_queue_trans [OF 1(3)] show ?case by auto
qed

lemma drop_entries_ok:
  assumes idx: "index_ok pr b0 (bl @ ns)" and b0: "slot_of b0 = 0" and small: "32 * length (bl @ ns) < 2 ^ 63 + 32"
    and lk: "linked (heap p) ns" and cur: "cur + BLOCK_SIZE = b0 + of_nat (32 * length bl)"
  shows "\<exists>pr'. drop_entries cur (head_of ns) pr p = Some pr' \<and> index_ok pr' b0 bl \<and> same_queue pr pr'"
proof (cases "ns = []")
  case True
  with idx show ?thesis by (simp add: drop_entries.simps)
next
  case False
  then obtain h hs k where bi: "blockIndex pr = h # hs" and ok: "ring_ok h (entries pr) k b0 (bl @ ns)"
    and cap: "nextBlockIndexCapacity pr = 2 ^ Suc k" using idx by (auto simp: index_ok_def split: list.splits)
  have "unat (bh_tail h) < 2 ^ k" "k < 64" using ring_ok_shape [OF ok] by (auto simp: ring_shape_def)
  then have "take_bit k (bh_tail h) = bh_tail h"
    by (simp add: word_unat_eq_iff unsigned_take_bit_eq take_bit_nat_eq_self)
  then have "undone h (entries pr) k (length ns) 0 pr" using bi cap by (auto simp: undone_def)
  from drop_entries_loop [OF ok b0 small this] lk cur obtain pr' where
    "drop_entries cur (head_of ns) pr p = Some pr'" "undone h (entries pr) k (length ns) (length ns) pr'" "same_queue pr pr'" by auto
  with undone_all [OF ok] show ?thesis by blast
qed

section \<open>Filling the blocks\<close>

lemma put_elements_ok:
  assumes "queue_core (heap p) pr bl xs" "pool_inv p used" "set bl \<subseteq> used"
    and "b = bl ! ((slot_of (headIndex pr) + length xs) div 32)" "slot_of (headIndex pr) + length xs < 32 * length bl"
    and "(slot_of (headIndex pr) + length xs) mod 32 + k \<le> 32" "k \<le> length vs"
  shows "\<exists>p'. put_elements b (tailIndex pr) (tailIndex pr + of_nat k) vs p = Some (drop k vs, p') \<and> pool_inv p' used \<and>
    queue_core (heap p') (pr\<lparr>tailIndex := tailIndex pr + of_nat k\<rparr>) bl (xs @ take k vs) \<and>
    (\<forall>a. a \<noteq> b \<longrightarrow> heap p' a = heap p a) \<and> (\<forall>a. map_option next_block (heap p' a) = map_option next_block (heap p a))"
  using assms
proof (induction k arbitrary: p pr xs vs)
  case 0
  then show ?case by (simp add: put_elements.simps)
next
  case (Suc k)
  let ?s = "slot_of (headIndex pr)" and ?pr = "pr\<lparr>tailIndex := 1 + tailIndex pr\<rparr>"
  obtain v ws where vs: "vs = v # ws" using Suc.prems(7) by (cases vs) auto
  have ne: "tailIndex pr \<noteq> tailIndex pr + of_nat (Suc k)" using Suc.prems(6) by (intro index_less_end) auto
  have stop: "tailIndex pr + of_nat (Suc k) = tailIndex ?pr + of_nat k" by (simp add: algebra_simps)
  from put_at [OF Suc.prems(1-3,5,4), of v] obtain p1 where p1: "put_element b (tailIndex pr) v p = Some p1" "pool_inv p1 used"
    "queue_core (heap p1) ?pr bl (xs @ [v])" "\<forall>a. a \<noteq> b \<longrightarrow> heap p1 a = heap p a"
    "\<forall>a. map_option next_block (heap p1 a) = map_option next_block (heap p a)" by blast
  have run: "put_elements b (tailIndex pr) (tailIndex pr + of_nat (Suc k)) vs p =
      put_elements b (tailIndex ?pr) (tailIndex ?pr + of_nat k) ws p1"
    using ne p1(1) unfolding stop by (subst put_elements.simps) (simp add: vs add.commute)
  show ?case
  proof (cases "k = 0")
    case True
    with run p1 vs show ?thesis by (simp add: put_elements.simps add.commute)
  next
    case False
    let ?a = "?s + length xs"
    have d: "(?a + 1) div 32 = ?a div 32" "(?a + 1) mod 32 = ?a mod 32 + 1"
      using Suc.prems(6) False by (auto simp: mod_Suc div_Suc)
    have "?a div 32 < length bl" using Suc.prems(5) by (intro less_mult_imp_div_less) simp
    then have "?a + 1 < 32 * length bl" using d div_mult_mod_eq [of "?a + 1" 32] Suc.prems(6) False by linarith
    then have "\<exists>p'. put_elements b (tailIndex ?pr) (tailIndex ?pr + of_nat k) ws p1 = Some (drop k ws, p') \<and> pool_inv p' used \<and>
      queue_core (heap p') (?pr\<lparr>tailIndex := tailIndex ?pr + of_nat k\<rparr>) bl ((xs @ [v]) @ take k ws) \<and>
      (\<forall>a. a \<noteq> b \<longrightarrow> heap p' a = heap p1 a) \<and> (\<forall>a. map_option next_block (heap p' a) = map_option next_block (heap p1 a))"
      using Suc.prems(3,4,6,7) vs d by (intro Suc.IH [OF p1(3,2)]) simp_all
    then obtain p' where p': "put_elements b (tailIndex ?pr) (tailIndex ?pr + of_nat k) ws p1 = Some (drop k ws, p')" "pool_inv p' used"
      "queue_core (heap p') (pr\<lparr>tailIndex := tailIndex pr + of_nat (Suc k)\<rparr>) bl (xs @ take (Suc k) vs)"
      "\<forall>a. a \<noteq> b \<longrightarrow> heap p' a = heap p1 a" "\<forall>a. map_option next_block (heap p' a) = map_option next_block (heap p1 a)"
      unfolding stop vs by auto
    with run p1(4,5) vs show ?thesis by auto
  qed
qed

lemma fill_blocks_ok:
  assumes "queue_core (heap p) pr bl xs" "pool_inv p used" "set bl \<subseteq> used" "bl = dn @ b # rs"
    and "(slot_of (headIndex pr) + length xs) div 32 = length dn"
    and "rs \<noteq> [] \<longrightarrow> next_at (heap p) b (head_of rs)" "linked (heap p) rs" "vs \<noteq> []" "length vs < 2 ^ 63"
    and "slot_of (headIndex pr) + length xs + length vs \<le> 32 * length bl"
    and "32 * (length bl - 1) < slot_of (headIndex pr) + length xs + length vs"
  shows "\<exists>p'. fill_blocks (tailIndex pr + of_nat (length vs)) (Some (last bl)) (tailIndex pr) (Some b) vs p = Some (Some (last bl), p') \<and>
    pool_inv p' used \<and> queue_core (heap p') (pr\<lparr>tailIndex := tailIndex pr + of_nat (length vs)\<rparr>) bl (xs @ vs) \<and>
    (\<forall>a. a \<notin> set bl \<longrightarrow> heap p' a = heap p a)"
  using assms
proof (induction rs arbitrary: p pr xs vs dn b)
  case Nil
  let ?a = "slot_of (headIndex pr) + length xs"
  have slot: "slot_of (tailIndex pr) = ?a mod 32" by (rule queue_length(2) [OF Nil.prems(1)])
  have b: "b = bl ! (?a div 32)" "last bl = b" "b \<in> set bl" using Nil.prems(4,5) by simp_all
  have fits: "?a mod 32 + length vs \<le> 32" using Nil.prems(4,5,10) div_mult_mod_eq [of ?a 32] by simp
  have room: "?a < 32 * length bl" using Nil.prems(8,10) by (cases vs) auto
  have stop: "end_of_block (tailIndex pr) (tailIndex pr + of_nat (length vs)) = tailIndex pr + of_nat (length vs)"
    using end_of_block_eq [OF Nil.prems(9), of "tailIndex pr"] min.absorb1 [of "length vs" "32 - ?a mod 32"] fits by (simp add: slot)
  have ne: "tailIndex pr \<noteq> tailIndex pr + of_nat (length vs)" using Nil.prems(8,9) by (intro index_less_end) auto
  from put_elements_ok [OF Nil.prems(1-3) b(1) room fits order_refl] obtain p' where
    p': "put_elements b (tailIndex pr) (tailIndex pr + of_nat (length vs)) vs p = Some ([], p')" "pool_inv p' used"
    "queue_core (heap p') (pr\<lparr>tailIndex := tailIndex pr + of_nat (length vs)\<rparr>) bl (xs @ vs)"
    "\<forall>a. a \<noteq> b \<longrightarrow> heap p' a = heap p a" by auto
  have "fill_blocks (tailIndex pr + of_nat (length vs)) (Some (last bl)) (tailIndex pr) (Some b) vs p = Some (Some (last bl), p')"
    using p'(1) ne by (subst fill_blocks.simps) (simp add: stop b(2) Let_def)
  with p' b(3) show ?case by auto
next
  case (Cons c rs)
  let ?a = "slot_of (headIndex pr) + length xs"
  define k where "k = 32 - ?a mod 32"
  have slot: "slot_of (tailIndex pr) = ?a mod 32" by (rule queue_length(2) [OF Cons.prems(1)])
  have b: "b = bl ! (?a div 32)" "b \<in> set bl" using Cons.prems(4,5) by simp_all
  have "distinct bl" using Cons.prems(1) by (simp add: queue_core_def)
  then have last: "last bl \<noteq> b" "last bl = last (c # rs)" using Cons.prems(4) last_in_set [of "c # rs"] by auto
  have more: "32 * (length dn + 1) < ?a + length vs" using Cons.prems(4,11) by simp
  have a: "?a = 32 * length dn + ?a mod 32" using Cons.prems(5) div_mult_mod_eq [of ?a 32] by simp
  have k: "k < length vs" "0 < k" "k \<le> 32" "?a + k = 32 * (length dn + 1)"
    using more a by (simp_all add: k_def)
  have room: "?a < 32 * length bl" using a Cons.prems(4) by simp
  have stop: "end_of_block (tailIndex pr) (tailIndex pr + of_nat (length vs)) = tailIndex pr + of_nat k"
    using end_of_block_eq [OF Cons.prems(9), of "tailIndex pr"] k(1) by (simp add: slot k_def min_def)
  have ne: "tailIndex pr \<noteq> tailIndex pr + of_nat k" using k by (intro index_less_end) auto
  have kb: "?a mod 32 + k \<le> 32" by (simp add: k_def)
  let ?pr = "pr\<lparr>tailIndex := tailIndex pr + of_nat k\<rparr>"
  from put_elements_ok [OF Cons.prems(1-3) b(1) room kb less_imp_le [OF k(1)]] obtain p1 where
    p1: "put_elements b (tailIndex pr) (tailIndex pr + of_nat k) vs p = Some (drop k vs, p1)" "pool_inv p1 used"
    "queue_core (heap p1) ?pr bl (xs @ take k vs)" "\<forall>a. a \<noteq> b \<longrightarrow> heap p1 a = heap p a"
    "\<And>a. map_option next_block (heap p1 a) = map_option next_block (heap p a)" by blast
  have nx: "next_at (heap p1) b (Some c)" using Cons.prems(6) p1(5) by (simp add: next_at_def)
  then obtain x where x: "heap p1 b = Some x" "next_block x = Some c" by (auto simp: next_at_def)
  have end_eq: "tailIndex pr + of_nat (length vs) = tailIndex ?pr + of_nat (length (drop k vs))"
    using k(1) by (simp add: of_nat_diff)
  have run: "fill_blocks (tailIndex pr + of_nat (length vs)) (Some (last bl)) (tailIndex pr) (Some b) vs p =
      fill_blocks (tailIndex ?pr + of_nat (length (drop k vs))) (Some (last bl)) (tailIndex ?pr) (Some c) (drop k vs) p1"
    unfolding end_eq [symmetric] using p1(1) ne x last(1) by (subst fill_blocks.simps) (simp add: stop Let_def)
  have lk: "linked (heap p1) (c # rs)" using linked_cong [of "c # rs" "heap p1" "heap p"] p1(5) Cons.prems(7) by simp
  have at: "slot_of (headIndex ?pr) + length (xs @ take k vs) = 32 * (length dn + 1)"
    "slot_of (headIndex ?pr) + length (xs @ take k vs) + length (drop k vs) = ?a + length vs" using k by simp_all
  have "\<exists>p'. fill_blocks (tailIndex ?pr + of_nat (length (drop k vs))) (Some (last bl)) (tailIndex ?pr) (Some c) (drop k vs) p1
      = Some (Some (last bl), p') \<and> pool_inv p' used \<and>
    queue_core (heap p') (?pr\<lparr>tailIndex := tailIndex ?pr + of_nat (length (drop k vs))\<rparr>) bl ((xs @ take k vs) @ drop k vs) \<and>
    (\<forall>a. a \<notin> set bl \<longrightarrow> heap p' a = heap p1 a)"
  proof (rule Cons.IH [OF p1(3,2) Cons.prems(3)])
    show "bl = (dn @ [b]) @ c # rs" using Cons.prems(4) by simp
    show "(slot_of (headIndex ?pr) + length (xs @ take k vs)) div 32 = length (dn @ [b])" unfolding at(1) by simp
    show "rs \<noteq> [] \<longrightarrow> next_at (heap p1) c (head_of rs)" "linked (heap p1) rs" using lk by simp_all
    show "drop k vs \<noteq> []" "length (drop k vs) < 2 ^ 63" using k(1) Cons.prems(9) by simp_all
    show "slot_of (headIndex ?pr) + length (xs @ take k vs) + length (drop k vs) \<le> 32 * length bl"
      "32 * (length bl - 1) < slot_of (headIndex ?pr) + length (xs @ take k vs) + length (drop k vs)"
      unfolding at(2) by (rule Cons.prems(10), rule Cons.prems(11))
  qed
  then show ?case unfolding run end_eq [symmetric] using p1(4) b(2) by auto
qed

section \<open>All or nothing\<close>

lemma before_index:
  "slot_of (i - 1) = (slot_of i + 31) mod 32" "base_of (i - 1) + 32 = base_of i + of_nat (32 * ((slot_of i + 31) div 32))"
proof -
  have s: "slot_of i = (slot_of (i - 1) + 1) mod 32" using slot_of_add [of "i - 1" 1] by simp
  then show "slot_of (i - 1) = (slot_of i + 31) mod 32"
    using slot_of_less [of "i - 1"] by (simp add: mod_Suc split: if_splits)
  have "(slot_of (i - 1) + 32) div 32 = 1" using slot_of_less [of "i - 1"] by (intro div_nat_eqI) auto
  then have "base_of (i - 1) + 32 = base_of (i - 1 + of_nat 32)" using base_of_add [of "i - 1" 32] by simp
  also have "i - 1 + of_nat 32 = i + of_nat 31" by simp
  finally show "base_of (i - 1) + 32 = base_of i + of_nat (32 * ((slot_of i + 31) div 32))" by (simp only: base_of_add)
qed

text \<open>The number of blocks an enqueue of \<open>count\<close> elements takes.\<close>

definition blocks_needed :: "producer \<Rightarrow> 'a list \<Rightarrow> nat \<Rightarrow> nat" where
  "blocks_needed pr xs count = ((slot_of (headIndex pr) + length xs + 31) mod 32 + count) div 32"

lemma blocks_needed:
  assumes q: "queue_ok hp pr bl xs"
  defines "t \<equiv> slot_of (headIndex pr) + length xs" and "cur \<equiv> (tailIndex pr - 1) AND NOT (BLOCK_SIZE - 1)"
  shows "((tailIndex pr + of_nat count - 1) AND NOT (BLOCK_SIZE - 1)) - cur = of_nat (32 * blocks_needed pr xs count)"
    "cur + BLOCK_SIZE = end_index pr bl"
    "t + count \<le> 32 * (length bl + blocks_needed pr xs count)" "32 * (length bl + blocks_needed pr xs count) < t + count + 32"
proof -
  let ?n = "blocks_needed pr xs count"
  define r where "r = (t + 31) mod 32"
  have core: "queue_core hp pr bl xs" and lim: "t \<le> 32 * length bl" "32 * length bl < t + 32"
    using q by (simp_all add: queue_ok_def queue_core_def t_def)
  have m: "(t + 31) div 32 = length bl" using lim by (intro div_nat_eqI) auto
  have slot: "slot_of (tailIndex pr - 1) = r"
    using queue_length(2) [OF core] by (simp add: before_index(1) r_def t_def mod_add_left_eq)
  have n: "?n = (r + count) div 32" by (simp add: blocks_needed_def t_def r_def)
  have split: "t + 31 = 32 * length bl + r" using m div_mult_mod_eq [of "t + 31" 32] unfolding r_def by linarith
  have rc: "32 * ?n \<le> r + count" "r + count < 32 * ?n + 32" using div_mult_mod_eq [of "r + count" 32] by (simp_all add: n)
  show "t + count \<le> 32 * (length bl + ?n)" using split rc by simp
  show "32 * (length bl + ?n) < t + count + 32" using split rc by simp
  have base: "w AND NOT (BLOCK_SIZE - 1) = base_of w" for w by (simp add: base_of_def BLOCK_SIZE_def)
  have before: "tailIndex pr + of_nat count - 1 = tailIndex pr - 1 + of_nat count" by simp
  show "((tailIndex pr + of_nat count - 1) AND NOT (BLOCK_SIZE - 1)) - cur = of_nat (32 * ?n)"
    unfolding cur_def base before base_of_add slot n by simp
  have "tailIndex pr = base_of (headIndex pr) + of_nat t"
    using core queue_index [of "headIndex pr" "length xs"] by (simp add: queue_core_def t_def)
  then have "base_of (tailIndex pr) = base_of (headIndex pr) + of_nat (32 * (t div 32))" "slot_of (tailIndex pr) = t mod 32"
    using base_of_add [of "base_of (headIndex pr)" t] base_of_eq [of "base_of (headIndex pr)"]
      slot_of_add [of "base_of (headIndex pr)" t] by simp_all
  moreover have "t div 32 + (t mod 32 + 31) div 32 = length bl" using m by (simp add: div_add1_eq [of t 31] mod_add_left_eq)
  ultimately have "base_of (tailIndex pr - 1) + 32 =
      base_of (headIndex pr) + (of_nat (32 * (t div 32)) + of_nat (32 * (length bl - t div 32)))"
    unfolding before_index(2) by (simp only: add.assoc) (metis add_diff_cancel_left')
  also have "(of_nat (32 * (t div 32)) + of_nat (32 * (length bl - t div 32)) :: u64) = of_nat (32 * length bl)"
  proof -
    have "t div 32 \<le> length bl" using \<open>t div 32 + (t mod 32 + 31) div 32 = length bl\<close> by linarith
    then have "32 * (t div 32) + 32 * (length bl - t div 32) = 32 * length bl" by simp
    then show ?thesis by (metis of_nat_add)
  qed
  finally have "base_of (tailIndex pr - 1) + 32 = base_of (headIndex pr) + of_nat (32 * length bl)" .
  then show "cur + BLOCK_SIZE = end_index pr bl" unfolding cur_def base end_index_def by (simp add: BLOCK_SIZE_def)
qed

lemma queue_core_shrink:
  assumes q: "queue_core hp pr (bl @ ns) xs" and fits: "slot_of (headIndex pr) + length xs \<le> 32 * length bl"
    and idx: "index_ok pr' (base_of (headIndex pr)) bl" and same: "same_queue pr (pr'\<lparr>tailBlock := tailBlock pr\<rparr>)"
    and tb: "bl \<noteq> [] \<longrightarrow> tailBlock pr' = Some (last bl)" and hp: "\<forall>b \<in> set bl. hp' b = hp b"
  shows "queue_core hp' pr' bl xs"
proof -
  have "(slot_of (headIndex pr) + i) div 32 < length bl" if "i < length xs" for i
    using fits that by (auto intro!: less_mult_imp_div_less)
  then have els: "element_at hp bl (slot_of (headIndex pr) + i) (xs ! i)" if "i < length xs" for i
    using q that by (auto simp: queue_core_def element_at_def nth_append)
  have "block_holds hp (bl ! j) (taken (headIndex pr) j)" if "j < length bl" for j
  proof -
    have "block_holds hp ((bl @ ns) ! j) (taken (headIndex pr) j)" using q that unfolding queue_core_def by simp
    with that show ?thesis by (simp add: nth_append)
  qed
  with els have "queue_core hp pr' bl xs"
    using q fits idx same tb by (simp add: queue_core_def same_queue_def)
  from queue_core_cong [OF this hp] show ?thesis .
qed

lemma reserve_ok:
  assumes s: "subqueue others pr p bl xs" and size: "length vs < 2 ^ 63"
  defines "cur \<equiv> (tailIndex pr - 1) AND NOT (BLOCK_SIZE - 1)" and "n \<equiv> blocks_needed pr xs (length vs)"
  shows "\<exists>ok pr1 p1 ms. (if 0 < (of_nat (32 * n) :: u64) then reserve_blocks mok (tailIndex pr) (of_nat (32 * n)) cur None pr p
       else Some (True, None, pr, p)) = Some (ok, head_of ms, pr1, p1) \<and>
    reserved others (tailIndex pr) pr1 p1 bl ms xs \<and> (ok \<longrightarrow> length ms = n) \<and> same_queue pr (pr1\<lparr>tailBlock := tailBlock pr\<rparr>) \<and>
    (\<forall>a \<in> others. heap p1 a = heap p a) \<and> (roomy_for mok n pr bl \<longrightarrow> ok \<and> blockIndex pr1 \<noteq> [])"
proof -
  have q: "queue_ok (heap p) pr bl xs" and core: "queue_core (heap p) pr bl xs" using s by (auto simp: subqueue_def queue_ok_def)
  have "bl \<noteq> []" if "slot_of (tailIndex pr) \<noteq> 0"
  proof
    assume "bl = []"
    then have "slot_of (headIndex pr) + length xs = 0" using core by (simp add: queue_core_def)
    then show False using that queue_length(2) [OF core] by simp
  qed
  then have r: "reserved others (tailIndex pr) pr p bl [] xs" using s core by (simp add: reserved_def subqueue_def)
  have "32 * n \<le> length vs + 31"
  proof -
    have "(slot_of (headIndex pr) + length xs + 31) mod 32 < 32" by simp
    then show ?thesis unfolding n_def blocks_needed_def
      using times_div_less_eq_dividend [of 32 "(slot_of (headIndex pr) + length xs + 31) mod 32 + length vs"] by linarith
  qed
  then have lim: "32 * n < 2 ^ 64" using size by simp
  then have u: "unat (of_nat (32 * n) :: u64) = 32 * n" by (rule unat_of_nat_u64)
  show ?thesis
  proof (cases "n = 0")
    case True
    with r show ?thesis
      by (intro exI [of _ True] exI [of _ pr] exI [of _ p] exI [of _ "[]"]) (simp add: same_queue_def roomy_for_def)
  next
    case False
    then have pos: "0 < (of_nat (32 * n) :: u64)" using u by (simp only: word_less_nat_alt) simp
    have cur: "cur + BLOCK_SIZE = end_index pr (bl @ [])" using blocks_needed(2) [OF q] by (simp add: cur_def)
    have n: "0 < n" using False by simp
    from reserve_blocks_ok [OF r cur n lim, of mok] show ?thesis unfolding if_P [OF pos] by simp
  qed
qed

lemma undo_ok:
  assumes s: "subqueue others pr p bl xs" and r: "reserved others (tailIndex pr) pr1 p1 bl ms xs"
    and same: "same_queue pr (pr1\<lparr>tailBlock := tailBlock pr\<rparr>)" and frame: "\<forall>a \<in> others. heap p1 a = heap p a"
  shows "\<exists>pr2 p2. drop_entries ((tailIndex pr - 1) AND NOT (BLOCK_SIZE - 1)) (head_of ms) pr1 p1 = Some pr2 \<and>
    add_blocks_to_free_list (head_of ms) p1 = Some p2 \<and>
    subqueue others (pr2\<lparr>tailBlock := tailBlock pr\<rparr>) p2 bl xs \<and> (\<forall>a \<in> others. heap p2 a = heap p a) \<and> inactive pr2 = inactive pr"
proof -
  have q: "queue_ok (heap p) pr bl xs" and core: "queue_core (heap p) pr bl xs" using s by (auto simp: subqueue_def queue_ok_def)
  have core1: "queue_core (heap p1) pr1 (bl @ ms) xs" and inv: "pool_inv p1 (others \<union> set (bl @ ms))" and dis: "set (bl @ ms) \<inter> others = {}"
    and lk: "linked (heap p1) ms" using r by (simp_all add: reserved_def)
  have heads: "headIndex pr1 = headIndex pr" using same by (simp add: same_queue_def)
  have idx: "index_ok pr1 (base_of (headIndex pr)) (bl @ ms)" and dist: "distinct (bl @ ms)"
    and lim: "32 * length (bl @ ms) < 2 ^ 63 + slot_of (headIndex pr)"
    using core1 by (simp_all add: queue_core_def heads)
  have small: "32 * length (bl @ ms) < 2 ^ 63 + 32" using lim slot_of_less [of "headIndex pr"] by linarith
  have cur: "((tailIndex pr - 1) AND NOT (BLOCK_SIZE - 1)) + BLOCK_SIZE = base_of (headIndex pr) + of_nat (32 * length bl)"
    using blocks_needed(2) [OF q] by (simp add: end_index_def)
  from drop_entries_ok [OF idx slot_of_base small lk cur] obtain pr2 where
    d: "drop_entries ((tailIndex pr - 1) AND NOT (BLOCK_SIZE - 1)) (head_of ms) pr1 p1 = Some pr2"
    "index_ok pr2 (base_of (headIndex pr)) bl" "same_queue pr1 pr2" by blast
  have "pool_inv p1 ((others \<union> set bl) \<union> set ms)" "set ms \<inter> (others \<union> set bl) = {}" "distinct ms"
    using inv dis dist by (auto simp: Un_assoc)
  from add_blocks_ok [OF this lk] obtain p2 where p2: "add_blocks_to_free_list (head_of ms) p1 = Some p2"
    "pool_inv p2 (others \<union> set bl)" "\<forall>a \<in> others \<union> set bl. heap p2 a = heap p1 a" by blast
  let ?pr = "pr2\<lparr>tailBlock := tailBlock pr\<rparr>"
  have fits: "slot_of (headIndex pr1) + length xs \<le> 32 * length bl" using core by (simp add: queue_core_def heads)
  have same2: "same_queue pr1 (?pr\<lparr>tailBlock := tailBlock pr1\<rparr>)" using d(3) by (simp add: same_queue_def)
  have tb: "bl \<noteq> [] \<longrightarrow> tailBlock ?pr = Some (last bl)" using core by (simp add: queue_core_def)
  have "queue_core (heap p2) ?pr bl xs"
    by (rule queue_core_shrink [OF core1 fits _ same2 tb]) (use d(2) p2(3) heads in simp_all)
  moreover have "headIndex ?pr = headIndex pr" using same2 heads by (simp add: same_queue_def)
  ultimately have "subqueue others ?pr p2 bl xs"
    using q p2(2) dis by (simp add: subqueue_def queue_ok_def Int_Un_distrib2)
  moreover have "inactive pr2 = inactive pr" using same d(3) by (simp add: same_queue_def)
  ultimately show ?thesis using d(1) p2 frame by auto
qed

lemma fill_ok:
  assumes s: "subqueue others pr p bl xs" and r: "reserved others (tailIndex pr) pr1 p1 bl ms xs"
    and len: "length ms = blocks_needed pr xs (length vs)" and same: "same_queue pr (pr1\<lparr>tailBlock := tailBlock pr\<rparr>)"
    and frame: "\<forall>a \<in> others. heap p1 a = heap p a" and vs: "vs \<noteq> []" "length vs < 2 ^ 63"
  shows "\<not> (tailIndex pr AND (BLOCK_SIZE - 1) = 0 \<and> head_of ms = None) \<and>
    (\<exists>p2 tb. fill_blocks (tailIndex pr + of_nat (length vs)) (tailBlock pr1) (tailIndex pr)
        (if tailIndex pr AND (BLOCK_SIZE - 1) = 0 \<and> head_of ms \<noteq> None then head_of ms else tailBlock pr) vs p1 = Some (tb, p2) \<and>
      subqueue others (pr1\<lparr>tailBlock := tb, tailIndex := tailIndex pr + of_nat (length vs)\<rparr>) p2 (bl @ ms) (xs @ vs) \<and>
      (\<forall>a \<in> others. heap p2 a = heap p a))"
proof -
  let ?t = "slot_of (headIndex pr) + length xs"
  have q: "queue_ok (heap p) pr bl xs" and core: "queue_core (heap p) pr bl xs" using s by (auto simp: subqueue_def queue_ok_def)
  have core1: "queue_core (heap p1) pr1 (bl @ ms) xs" and inv: "pool_inv p1 (others \<union> set (bl @ ms))" and dis: "set (bl @ ms) \<inter> others = {}"
    and lk: "linked (heap p1) ms" and lb: "slot_of (tailIndex pr) \<noteq> 0 \<longrightarrow> bl \<noteq> [] \<and> (ms \<noteq> [] \<longrightarrow> next_at (heap p1) (last bl) (head_of ms))"
    using r by (simp_all add: reserved_def)
  have heads: "headIndex pr1 = headIndex pr" "tailIndex pr1 = tailIndex pr" using same by (simp_all add: same_queue_def)
  note room = blocks_needed(3,4) [OF q, of "length vs", folded len]
  have slot: "slot_of (tailIndex pr) = ?t mod 32" by (rule queue_length(2) [OF core])
  have lim: "?t \<le> 32 * length bl" "32 * length bl < ?t + 32" using q by (simp_all add: queue_ok_def queue_core_def)
  have zero: "tailIndex pr AND (BLOCK_SIZE - 1) = 0 \<longleftrightarrow> slot_of (tailIndex pr) = 0" by (simp add: BLOCK_SIZE_def slot_of_0_iff)
  have full: "?t = 32 * length bl" if "slot_of (tailIndex pr) = 0" using queue_full [OF core lim(2)] that zero by simp
  have some: "ms \<noteq> []" if "slot_of (tailIndex pr) = 0" using full [OF that] room(1) vs(1) by auto
  have ne: "bl @ ms \<noteq> []" using lb some by (cases "slot_of (tailIndex pr) = 0") auto
  then have tb1: "tailBlock pr1 = Some (last (bl @ ms))" using core1 by (simp add: queue_core_def)
  obtain dn b rs where start: "(if tailIndex pr AND (BLOCK_SIZE - 1) = 0 \<and> head_of ms \<noteq> None then head_of ms else tailBlock pr) = Some b"
    "bl @ ms = dn @ b # rs" "?t div 32 = length dn" "rs \<noteq> [] \<longrightarrow> next_at (heap p1) b (head_of rs)" "linked (heap p1) rs"
  proof (cases "slot_of (tailIndex pr) = 0")
    case True
    with some obtain b rs where ms: "ms = b # rs" by (cases ms) auto
    show thesis by (rule that [of b bl rs]) (use True zero ms lk full in auto)
  next
    case False
    then have bl: "bl \<noteq> []" using lb by simp
    have "?t div 32 = length bl - 1"
      using lim False slot by (intro div_nat_eqI) (auto simp: mod_eq_0_iff_dvd order_less_le)
    moreover have "tailBlock pr = Some (last bl)" using core bl by (simp add: queue_core_def)
    ultimately show thesis using bl False zero lb lk by (intro that [of "last bl" "butlast bl" ms]) auto
  qed
  have "\<exists>p2. fill_blocks (tailIndex pr1 + of_nat (length vs)) (Some (last (bl @ ms))) (tailIndex pr1) (Some b) vs p1 = Some (Some (last (bl @ ms)), p2) \<and>
    pool_inv p2 (others \<union> set (bl @ ms)) \<and> queue_core (heap p2) (pr1\<lparr>tailIndex := tailIndex pr1 + of_nat (length vs)\<rparr>) (bl @ ms) (xs @ vs) \<and>
    (\<forall>a. a \<notin> set (bl @ ms) \<longrightarrow> heap p2 a = heap p1 a)"
  proof (rule fill_blocks_ok [OF core1 inv _ start(2) _ start(4,5) vs])
    show "(slot_of (headIndex pr1) + length xs) div 32 = length dn" using start(3) heads by simp
    show "slot_of (headIndex pr1) + length xs + length vs \<le> 32 * length (bl @ ms)" using room heads by simp
    have "32 * (length (bl @ ms) - 1) = 32 * (length bl + length ms) - 32" by simp
    then show "32 * (length (bl @ ms) - 1) < slot_of (headIndex pr1) + length xs + length vs" using room(2) heads vs(1) by (cases vs) auto
  qed simp
  then obtain p2 where p2: "fill_blocks (tailIndex pr + of_nat (length vs)) (Some (last (bl @ ms))) (tailIndex pr) (Some b) vs p1
      = Some (Some (last (bl @ ms)), p2)" "pool_inv p2 (others \<union> set (bl @ ms))"
    "queue_core (heap p2) (pr1\<lparr>tailIndex := tailIndex pr + of_nat (length vs)\<rparr>) (bl @ ms) (xs @ vs)"
    "\<forall>a. a \<notin> set (bl @ ms) \<longrightarrow> heap p2 a = heap p1 a" unfolding heads by blast
  have "pr1\<lparr>tailBlock := Some (last (bl @ ms)), tailIndex := w\<rparr> = pr1\<lparr>tailIndex := w\<rparr>" for w using tb1 by simp
  then have "subqueue others (pr1\<lparr>tailBlock := Some (last (bl @ ms)), tailIndex := tailIndex pr + of_nat (length vs)\<rparr>) p2 (bl @ ms) (xs @ vs)"
    using p2(2,3) dis room(2) heads by (simp add: subqueue_def queue_ok_def)
  moreover have "\<forall>a \<in> others. heap p2 a = heap p a" using p2(4) frame dis by (metis disjoint_iff)
  ultimately show ?thesis using p2(1) start(1) some zero tb1 by auto
qed

lemma producer_enqueue_bulk_ok:
  assumes s: "subqueue others pr p bl xs" and size: "length vs < 2 ^ 63"
  shows "\<exists>ok pr' p' bl'. producer_enqueue_bulk mok vs pr p = Some (ok, pr', p') \<and>
    subqueue others pr' p' bl' (if ok then xs @ vs else xs) \<and> (\<forall>a \<in> others. heap p' a = heap p a) \<and>
    inactive pr' = inactive pr \<and>
    (mok = (\<lambda>_. True) \<and> blockIndex pr \<noteq> [] \<and> length xs + length vs + 32 < 2 ^ 63 \<longrightarrow> ok \<and> blockIndex pr' \<noteq> [])"
proof -
  let ?cur = "(tailIndex pr - 1) AND NOT (BLOCK_SIZE - 1)" and ?n = "blocks_needed pr xs (length vs)"
  have q: "queue_ok (heap p) pr bl xs" using s by (simp add: subqueue_def)
  note diff = blocks_needed(1) [OF q, of "length vs"]
  from reserve_ok [OF s size, of mok] obtain ok pr1 p1 ms where
    res: "(if 0 < (of_nat (32 * ?n) :: u64) then reserve_blocks mok (tailIndex pr) (of_nat (32 * ?n)) ?cur None pr p
       else Some (True, None, pr, p)) = Some (ok, head_of ms, pr1, p1)"
    and r: "reserved others (tailIndex pr) pr1 p1 bl ms xs" and n: "ok \<longrightarrow> length ms = ?n"
    and same: "same_queue pr (pr1\<lparr>tailBlock := tailBlock pr\<rparr>)" and frame: "\<forall>a \<in> others. heap p1 a = heap p a"
    and acc: "roomy_for mok ?n pr bl \<longrightarrow> ok \<and> blockIndex pr1 \<noteq> []" by blast
  have acc: "ok \<and> blockIndex pr1 \<noteq> []" if "mok = (\<lambda>_. True) \<and> blockIndex pr \<noteq> [] \<and> length xs + length vs + 32 < 2 ^ 63"
  proof -
    have "32 * (length bl + ?n) < 2 ^ 63 + slot_of (headIndex pr)" using blocks_needed(4) [OF q, of "length vs"] that by simp
    with that acc show ?thesis by (simp add: roomy_for_def)
  qed
  note run = producer_enqueue_bulk_def [of mok vs pr p, unfolded Let_def, unfolded diff res Option.bind.simps split_conv]
  show ?thesis
  proof (cases ok)
    case False
    from undo_ok [OF s r same frame] obtain pr2 p2 where
      "drop_entries ?cur (head_of ms) pr1 p1 = Some pr2" "add_blocks_to_free_list (head_of ms) p1 = Some p2"
      "subqueue others (pr2\<lparr>tailBlock := tailBlock pr\<rparr>) p2 bl xs" "\<forall>a \<in> others. heap p2 a = heap p a" "inactive pr2 = inactive pr" by blast
    with False acc show ?thesis unfolding run
      by (intro exI [of _ False] exI [of _ "pr2\<lparr>tailBlock := tailBlock pr\<rparr>"] exI [of _ p2] exI [of _ bl]) auto
  next
    case True
    show ?thesis
    proof (cases "vs = []")
      case True
      have "?n = 0" using True by (simp add: blocks_needed_def)
      then have e: "head_of ms = None" "pr1 = pr" "p1 = p" using res by simp_all
      have "end_of_block (tailIndex pr) (tailIndex pr) = tailIndex pr" using end_of_block_eq [of 0 "tailIndex pr"] by simp
      then have "fill_blocks (tailIndex pr) (tailBlock pr) (tailIndex pr) (tailBlock pr) vs p = Some (tailBlock pr, p)"
        by (subst fill_blocks.simps) (simp add: Let_def)
      moreover have "pr\<lparr>tailBlock := tailBlock pr, tailIndex := tailIndex pr\<rparr> = pr" by simp
      ultimately show ?thesis using s True \<open>ok\<close> unfolding run e by auto
    next
      case False
      have len: "length ms = ?n" using n True by simp
      have "unat (of_nat (length vs) :: u64) = length vs" using size by (intro unat_of_nat_u64) simp
      then have "(of_nat (length vs) :: u64) \<noteq> 0" using False by auto
      with fill_ok [OF s r len same frame False size] same True acc show ?thesis unfolding run
        by (fastforce simp: same_queue_def)
    qed
  qed
qed

section \<open>The queue\<close>

lemma enqueue_bulk_with_producer: "enqueue_bulk mok i vs = with_producer mok i (producer_enqueue_bulk mok vs)"
  by (simp add: fun_eq_iff enqueue_bulk_def inner_enqueue_bulk_def with_producer_def INITIAL_IMPLICIT_PRODUCER_HASH_SIZE_def)

lemma enqueue_bulk_ok:
  assumes q: "queue_repr T q c" and i: "i \<in> T" and size: "length vs < 2 ^ 63"
  shows "\<exists>ok q'. enqueue_bulk mok i vs q = Some (ok, q') \<and> queue_repr T q' (if ok then c(i := c i @ vs) else c)"
  unfolding enqueue_bulk_with_producer
  by (rule with_producer_ok [OF q i]) (use producer_enqueue_bulk_ok [OF _ size, of _ _ _ _ _ mok] in blast)

lemma enqueue_bulk_accepts:
  assumes q: "queue_repr T q c" and i: "i \<in> T" and x: "indexed q" and len: "length (c i) + length vs + 32 < 2 ^ 63"
  shows "\<exists>q'. enqueue_bulk (\<lambda>_. True) i vs q = Some (True, q') \<and> indexed q' \<and> queue_repr T q' (c(i := c i @ vs))"
proof -
  have size: "length vs < 2 ^ 63" using len by simp
  have op: "\<exists>pr' p'. producer_enqueue_bulk (\<lambda>_. True) vs pr p = Some (True, pr', p') \<and> blockIndex pr' \<noteq> []"
    if "subqueue others pr p bl (c i)" "blockIndex pr \<noteq> []" for others pr p bl
    using producer_enqueue_bulk_ok [OF that(1) size, of "\<lambda>_. True"] that(2) len by auto
  have "\<exists>q'. enqueue_bulk (\<lambda>_. True) i vs q = Some (True, q') \<and> indexed q'"
    unfolding enqueue_bulk_with_producer by (rule with_producer_accepts [OF q i x]) (rule op)
  with enqueue_bulk_ok [OF q i size, of "\<lambda>_. True"] show ?thesis by auto
qed

section \<open>Properties\<close>

text \<open>
  C18. A bulk enqueue is all or nothing, whatever allocations fail: it reports success and all elements are
  behind those of the thread, in order, or failure and the queue holds what it held; also when the
  elements need several blocks and a later one cannot be had. While the allocator does not fail it succeeds.
\<close>

theorem bulk_send_all_or_nothing:
  assumes "queue_repr T q c" "i \<in> T" "length vs < 2 ^ 63"
  shows "(\<exists>ok q'. enqueue_bulk mok i vs q = Some (ok, q') \<and> queue_repr T q' (if ok then c(i := c i @ vs) else c)) \<and>
    (indexed q \<and> length (c i) + length vs + 32 < 2 ^ 63 \<longrightarrow>
      (\<exists>q'. enqueue_bulk (\<lambda>_. True) i vs q = Some (True, q') \<and> queue_repr T q' (c(i := c i @ vs))))"
  using enqueue_bulk_ok [OF assms, of mok] enqueue_bulk_accepts [OF assms(1,2), of vs] by blast

theorem bulk_send_all_or_nothing_witness:
  "\<exists>q q' r. enqueue_bulk (\<lambda>_. True) 5 [0..<100] (ConcurrentQueue (\<lambda>_. True) 4096) = Some (True, q) \<and>
    queue_repr {5, 6} q ((\<lambda>_. [])(5 := [0..<100])) \<and>
    enqueue_bulk (\<lambda>n. n < 3) 6 [0..<100] q = Some (r, q') \<and> queue_repr {5, 6} q' (if r then ((\<lambda>_. [])(5 := [0..<100]))(6 := [0..<100]) else (\<lambda>_. [])(5 := [0..<100]))"
proof -
  have "indexed (ConcurrentQueue (\<lambda>_. True) 4096 :: nat queue)" by (rule new_queue_indexed)
  with bulk_send_all_or_nothing [OF fresh_queue, of 5 "[0..<100]" "\<lambda>_. True"] obtain q where
    q: "enqueue_bulk (\<lambda>_. True) 5 [0..<100] (ConcurrentQueue (\<lambda>_. True) 4096) = Some (True, q)"
    "queue_repr {5, 6} q ((\<lambda>_. [])(5 := [0..<100]))" by auto
  let ?c = "(\<lambda>_. [])(5 := [0..<100])"
  have none: "?c (6 :: thread_id) @ [0..<100] = [0..<100]" by simp
  have "length [0..<100] < 2 ^ 63" by simp
  from bulk_send_all_or_nothing [OF q(2) _ this, of 6 "\<lambda>n. n < 3", unfolded none] obtain r q' where
    r: "enqueue_bulk (\<lambda>n. n < 3) 6 [0..<100] q = Some (r, q')" "queue_repr {5, 6} q' (if r then ?c(6 := [0..<100]) else ?c)" by blast
  with q show ?thesis by blast
qed

end
