(* ===== verification/Cq_Lifetime.thy ===== *)
theory Cq_Lifetime
  imports Cq_Bulk_Enqueue "HOL-Library.Multiset"
begin

text \<open>
  \<open>include/concurrentqueue.h\<close>: the end of a queue, \<open>~ImplicitProducer\<close> and \<open>~ConcurrentQueue\<close>. The
  destructors report what they destroy. Giving back or reading a block that is no longer allocated
  has the result \<open>None\<close>, so a definite result excludes a double free and a use after free; the
  properties add that no block stays allocated.
\<close>

section \<open>Destructors\<close>

text \<open>The block of an index, giving the previous block back when the index enters a new one.\<close>

definition enter_block :: "producer \<Rightarrow> u64 \<Rightarrow> nat option \<Rightarrow> 'a pool \<Rightarrow> (nat \<times> 'a pool) option" where
  "enter_block pr index block p =
     (if index AND (BLOCK_SIZE - 1) = 0 \<or> block = None then do {
        p \<leftarrow> (case block of Some b \<Rightarrow> add_block_to_free_list b p | None \<Rightarrow> Some p);
        a \<leftarrow> get_block_index_entry_for_index index pr;
        b \<leftarrow> be_value (entries pr ! a);
        Some (b, p) }
      else do {
        b \<leftarrow> block;
        Some (b, p) })"

partial_function (option) destroy_elements ::
  "producer \<Rightarrow> u64 \<Rightarrow> u64 \<Rightarrow> nat option \<Rightarrow> 'a pool \<Rightarrow> ('a list \<times> 'a pool) option" where
  "destroy_elements pr tail index block p =
     (if index = tail then Some ([], p)
      else do {
        (b, p) \<leftarrow> enter_block pr index block p;
        (v, p) \<leftarrow> take_element b index p;
        (vs, p) \<leftarrow> destroy_elements pr tail (index + 1) (Some b) p;
        Some (v # vs, p) })"

text \<open>The entries of the block index that are destroyed, through the current header.\<close>

definition destroy_block_index :: "producer \<Rightarrow> nat list" where
  "destroy_block_index pr =
     (case current_header pr of
        None \<Rightarrow> []
      | Some h \<Rightarrow> map (\<lambda>i. bh_index h ! i) [0..<unat (bh_capacity h)])"

definition destroy_producer :: "producer \<Rightarrow> 'a pool \<Rightarrow> ('a list \<times> nat list \<times> 'a pool) option" where
  "destroy_producer pr p =
     (let tail = tailIndex pr; index = headIndex pr; forceFreeLastBlock = (index \<noteq> tail) in
      if index = tail \<or> circular_less_than index tail then do {
        (els, p) \<leftarrow> destroy_elements pr tail index None p;
        p \<leftarrow> (case tailBlock pr of
                Some b \<Rightarrow> if forceFreeLastBlock \<or> tail AND (BLOCK_SIZE - 1) \<noteq> 0
                  then add_block_to_free_list b p else Some p
              | None \<Rightarrow> Some p);
        Some (els, destroy_block_index pr, p) }
      else None)"

fun destroy_producers :: "producer list \<Rightarrow> 'a pool \<Rightarrow> ('a list \<times> nat list list \<times> 'a pool) option" where
  "destroy_producers [] p = Some ([], [], p)"
| "destroy_producers (pr # prs) p = do {
     (els, es, p) \<leftarrow> destroy_producer pr p;
     (els', ess, p) \<leftarrow> destroy_producers prs p;
     Some (els @ els', es # ess, p) }"

partial_function (option) destroy_free_list :: "nat option \<Rightarrow> 'a pool \<Rightarrow> 'a pool option" where
  "destroy_free_list block p =
     (case block of
        None \<Rightarrow> Some p
      | Some b \<Rightarrow> do {
          x \<leftarrow> heap p b;
          let next = freeListNext x;
          destroy_free_list next (if dynamicallyAllocated x then p\<lparr>heap := (heap p)(b := None)\<rparr> else p) })"

definition destroy_initial_pool :: "'a pool \<Rightarrow> 'a pool" where
  "destroy_initial_pool p = p\<lparr>heap := (\<lambda>a. if a < unat (initialBlockPoolSize p) then None else heap p a)\<rparr>"

text \<open>
  The elements and the index entries destroyed, producer by producer, the hash tables freed (the
  first table is a part of the queue), and the blocks left.
\<close>

definition destroy_queue ::
  "'a queue \<Rightarrow> ('a list \<times> nat list list \<times> implicit_producer_hash list \<times> 'a pool) option" where
  "destroy_queue q = do {
     (els, entries, p) \<leftarrow> destroy_producers (map (\<lambda>j. producers q ! j) (newest_first q)) (blocks q);
     p \<leftarrow> destroy_free_list (freeListHead p) p;
     Some (els, entries, butlast (implicitProducerHash q), destroy_initial_pool p) }"

section \<open>Destroying the elements of a sub-queue\<close>

text \<open>
  Before element \<open>i\<close> the blocks from block \<open>at_block h i\<close> of \<open>bl\<close> on are held, and the elements from
  \<open>i\<close> on are in place. The block index does not change.
\<close>

definition at_block :: "nat \<Rightarrow> nat \<Rightarrow> nat" where
  "at_block h i = (if i = 0 then 0 else (h + i - 1) div 32)"

definition left_from :: "nat set \<Rightarrow> 'a pool \<Rightarrow> nat list \<Rightarrow> nat \<Rightarrow> nat \<Rightarrow> nat \<Rightarrow> 'a list \<Rightarrow> bool" where
  "left_from others p bl m h i xs \<longleftrightarrow>
     pool_inv p (others \<union> set (drop m bl)) \<and>
     (\<forall>j. i \<le> j \<and> j < length xs \<longrightarrow> element_at (heap p) bl (h + j) (xs ! j))"

lemma index_lookup_at:
  assumes idx: "index_ok pr (base_of i) bl" and k: "(slot_of i + k) div 32 < length bl"
    and small: "32 * length bl < 2 ^ 63 + slot_of i"
  shows "\<exists>a. get_block_index_entry_for_index (i + of_nat k) pr = Some a \<and>
    be_value (entries pr ! a) = Some (bl ! ((slot_of i + k) div 32))"
proof -
  let ?j = "(slot_of i + k) div 32"
  have "bl \<noteq> []" using k by auto
  with idx obtain h hs n where bi: "blockIndex pr = h # hs" and ok: "ring_ok h (entries pr) n (base_of i) bl"
    by (auto simp: index_ok_def split: list.splits)
  then have cur: "current_header pr = Some h" by (simp add: current_header_def)
  have lim: "32 * length bl \<le> 2 ^ 63 + 32" using small slot_of_less [of i] by linarith
  have r: "(slot_of i + k) mod 32 < 32" by simp
  have at: "i + of_nat k = base_of i + of_nat (32 * ?j + (slot_of i + k) mod 32)"
    unfolding mult_div_mod_eq by (rule queue_index)
  have "get_block_index_entry_for_index (i + of_nat k) pr = Some (ring_slot h (length bl - 1 - ?j))"
    unfolding at by (rule ring_lookup [OF cur ok slot_of_base k r lim])
  moreover have "be_value (entries pr ! ring_slot h (length bl - 1 - ?j)) = Some (bl ! ?j)"
    using ring_ok_used [OF ok, of "length bl - 1 - ?j"] k by (simp add: ring_entry_def)
  ultimately show ?thesis by blast
qed

lemma enter_block_ok:
  assumes idx: "index_ok pr (base_of first) bl" and small: "32 * length bl < 2 ^ 63 + slot_of first"
    and dist: "distinct bl" "set bl \<inter> others = {}" and room: "slot_of first + length xs \<le> 32 * length bl"
    and i: "i < length xs"
    and l: "left_from others p bl (at_block (slot_of first) i) (slot_of first) i xs"
    and blk: "block = (if i = 0 then None else Some (bl ! at_block (slot_of first) i))"
  shows "\<exists>p'. enter_block pr (first + of_nat i) block p = Some (bl ! ((slot_of first + i) div 32), p') \<and>
    left_from others p' bl ((slot_of first + i) div 32) (slot_of first) i xs \<and> (\<forall>a \<in> others. heap p' a = heap p a)"
proof -
  let ?h = "slot_of first" and ?m = "at_block (slot_of first) i" and ?n = "(slot_of first + i) div 32"
  have n: "?n < length bl" using i room by (intro less_mult_imp_div_less) simp
  from index_lookup_at [OF idx n small] obtain a where look:
    "get_block_index_entry_for_index (first + of_nat i) pr = Some a" "be_value (entries pr ! a) = Some (bl ! ?n)" by blast
  have test: "(first + of_nat i) AND (BLOCK_SIZE - 1) = 0 \<longleftrightarrow> (?h + i) mod 32 = 0"
    by (simp add: BLOCK_SIZE_def slot_of_0_iff slot_of_add)
  show ?thesis
  proof (cases "i = 0")
    case True
    then have "?n = ?m" by (simp add: at_block_def)
    with True look l blk show ?thesis by (simp add: enter_block_def)
  next
    case False
    note pos = this
    show ?thesis
    proof (cases "(?h + i) mod 32 = 0")
      case False
      have "?n = ?m"
        using pos False by (simp add: at_block_def) (metis Suc_pred add_gr_0 div_Suc neq0_conv)
      moreover have "enter_block pr (first + of_nat i) block p = Some (bl ! ?m, p)"
        using pos False test blk by (simp add: enter_block_def)
      ultimately show ?thesis using l by simp
    next
      case True
      obtain c where c: "?h + i = Suc c" using pos by (cases "?h + i") auto
      then have m: "?n = Suc ?m" "?m < length bl"
        using True n pos by (simp_all add: at_block_def div_Suc)
      have used: "others \<union> set (drop ?m bl) - {bl ! ?m} = others \<union> set (drop ?n bl)" "bl ! ?m \<in> set (drop ?m bl)"
      proof -
        have d: "drop ?m bl = bl ! ?m # drop ?n bl" using m by (simp add: Cons_nth_drop_Suc)
        moreover have "distinct (drop ?m bl)" using dist by simp
        moreover have "bl ! ?m \<notin> others" using dist m(2) by (meson disjoint_iff nth_mem)
        ultimately show "others \<union> set (drop ?m bl) - {bl ! ?m} = others \<union> set (drop ?n bl)" "bl ! ?m \<in> set (drop ?m bl)"
          by auto
      qed
      have inv: "pool_inv p (others \<union> set (drop ?m bl))" using l by (simp add: left_from_def)
      from pool.free_law [OF inv, of "bl ! ?m"] used obtain p' where p': "add_block_to_free_list (bl ! ?m) p = Some p'"
        "pool_inv p' (others \<union> set (drop ?n bl))" "\<forall>a \<in> others \<union> set (drop ?n bl). heap p' a = heap p a" by auto
      have "element_at (heap p') bl (?h + j) (xs ! j)" if "i \<le> j" "j < length xs" for j
      proof -
        have less: "(?h + j) div 32 < length bl" using that room by (intro less_mult_imp_div_less) simp
        have "?n \<le> (?h + j) div 32" using that by (intro div_le_mono) simp
        with less have "bl ! ((?h + j) div 32) \<in> set (drop ?n bl)"
          by (metis Cons_nth_drop_Suc list.set_intros(1) set_drop_subset_set_drop subsetD)
        with p'(3) l that show ?thesis by (simp add: element_at_def left_from_def)
      qed
      then show ?thesis using pos True test blk look p' by (simp add: enter_block_def left_from_def)
    qed
  qed
qed

lemma destroy_element:
  assumes l: "left_from others p bl ((h + i) div 32) h i xs" and i: "i < length xs" and dist: "distinct bl" "set bl \<inter> others = {}"
    and room: "h + length xs \<le> 32 * length bl" and slot: "slot_of index = (h + i) mod 32"
  shows "\<exists>p'. take_element (bl ! ((h + i) div 32)) index p = Some (xs ! i, p') \<and>
    left_from others p' bl ((h + i) div 32) h (Suc i) xs \<and> (\<forall>a \<in> others. heap p' a = heap p a)"
proof -
  let ?n = "(h + i) div 32"
  let ?b = "bl ! ?n"
  have n: "?n < length bl" using i room by (intro less_mult_imp_div_less) simp
  have inv: "pool_inv p (others \<union> set (drop ?n bl))" and at: "element_at (heap p) bl (h + i) (xs ! i)"
    using l i by (auto simp: left_from_def)
  from at obtain x where x: "heap p ?b = Some x" "elements x ! ((h + i) mod 32) = Some (xs ! i)"
    by (auto simp: element_at_def)
  have bu: "?b \<in> others \<union> set (drop ?n bl)" using Cons_nth_drop_Suc [OF n] by (metis UnI2 list.set_intros(1))
  from inv obtain fl where ok: "pool_ok p (others \<union> set (drop ?n bl)) fl" by (auto simp: pool_inv_def)
  from pool_ok_used [OF ok bu] x have len: "freeListRefs x = 0" "length (elements x) = 32" by auto
  let ?x = "x\<lparr>elements := (elements x)[slot_of index := None]\<rparr>"
  have "pool_inv (put_block ?b ?x p) (others \<union> set (drop ?n bl))"
    using pool_ok_put_block [OF ok bu, of ?x] x len by (auto simp: pool_inv_def)
  moreover have "element_at (heap (put_block ?b ?x p)) bl (h + j) (xs ! j)" if j: "Suc i \<le> j" "j < length xs" for j
  proof -
    have old: "element_at (heap p) bl (h + j) (xs ! j)" using l j by (simp add: left_from_def)
    show ?thesis
    proof (cases "(h + j) div 32 = ?n")
      case True
      then have "(h + j) mod 32 \<noteq> (h + i) mod 32"
        using j(1) by (metis Suc_n_not_le_n add_left_cancel div_mult_mod_eq)
      with old True x slot show ?thesis by (auto simp: element_at_def)
    next
      case False
      have "(h + j) div 32 < length bl" using j(2) room by (intro less_mult_imp_div_less) simp
      then have "bl ! ((h + j) div 32) \<noteq> ?b" using False n dist(1) by (simp add: nth_eq_iff_index_eq)
      with old show ?thesis by (simp add: element_at_def)
    qed
  qed
  moreover have "?b \<notin> others" using n dist(2) by (meson disjoint_iff nth_mem)
  moreover have "take_element ?b index p = Some (xs ! i, put_block ?b ?x p)"
    using x slot by (simp add: take_element_def)
  ultimately show ?thesis by (auto simp: left_from_def)
qed

lemma destroy_elements_ok:
  assumes idx: "index_ok pr (base_of first) bl" and small: "32 * length bl < 2 ^ 63 + slot_of first"
    and dist: "distinct bl" "set bl \<inter> others = {}" and room: "slot_of first + length xs \<le> 32 * length bl"
    and tail: "tail = first + of_nat (length xs)"
  shows "i \<le> length xs \<Longrightarrow> left_from others p bl (at_block (slot_of first) i) (slot_of first) i xs \<Longrightarrow>
    \<exists>p'. destroy_elements pr tail (first + of_nat i) (if i = 0 then None else Some (bl ! at_block (slot_of first) i)) p
      = Some (drop i xs, p') \<and>
    pool_inv p' (others \<union> set (drop (at_block (slot_of first) (length xs)) bl)) \<and> (\<forall>a \<in> others. heap p' a = heap p a)"
proof (induction "length xs - i" arbitrary: i p)
  case 0
  then have "i = length xs" by simp
  with 0 show ?case by (simp add: destroy_elements.simps tail left_from_def)
next
  case (Suc k)
  then have i: "i < length xs" by simp
  let ?h = "slot_of first" and ?blk = "if i = 0 then None else Some (bl ! at_block (slot_of first) i)"
  from enter_block_ok [OF idx small dist room i Suc.prems(2) refl] obtain p1 where
    e: "enter_block pr (first + of_nat i) ?blk p = Some (bl ! ((?h + i) div 32), p1)"
    "left_from others p1 bl ((?h + i) div 32) ?h i xs" "\<forall>a \<in> others. heap p1 a = heap p a" by blast
  from destroy_element [OF e(2) i dist room, of "first + of_nat i"] obtain p2 where
    t: "take_element (bl ! ((?h + i) div 32)) (first + of_nat i) p1 = Some (xs ! i, p2)"
    "left_from others p2 bl ((?h + i) div 32) ?h (Suc i) xs" "\<forall>a \<in> others. heap p2 a = heap p1 a"
    by (auto simp: slot_of_add)
  have at: "at_block ?h (Suc i) = (?h + i) div 32" by (simp add: at_block_def)
  have "k = length xs - Suc i" "Suc i \<le> length xs" using Suc.hyps(2) i by simp_all
  from Suc.hyps(1) [OF this, unfolded at, OF t(2)] obtain p' where
    r: "destroy_elements pr tail (first + of_nat (Suc i)) (Some (bl ! ((?h + i) div 32))) p2 = Some (drop (Suc i) xs, p')"
    "pool_inv p' (others \<union> set (drop (at_block ?h (length xs)) bl))" "\<forall>a \<in> others. heap p' a = heap p2 a" by auto
  have "length xs < 2 ^ 63" using room small by simp
  then have "first + of_nat i \<noteq> tail"
    using i unat_of_nat_u64 [of i] unat_of_nat_u64 [of "length xs"] by (auto simp: tail)
  then have "destroy_elements pr tail (first + of_nat i) ?blk p = Some (xs ! i # drop (Suc i) xs, p')"
    using e(1) t(1) r(1) by (subst destroy_elements.simps) (simp add: ac_simps)
  then show ?case using r(2,3) t(3) e(3) i by (simp add: Cons_nth_drop_Suc)
qed

section \<open>Destroying a producer\<close>

lemma destroy_block_index_ok:
  assumes "index_ok pr b0 bl"
  shows "mset (destroy_block_index pr) = mset [0..<length (entries pr)]"
proof (cases "blockIndex pr")
  case Nil
  with assms show ?thesis by (simp add: destroy_block_index_def current_header_def index_ok_def)
next
  case (Cons h hs)
  with assms obtain k where "ring_ok h (entries pr) k b0 bl" by (auto simp: index_ok_def)
  then have r: "unat (bh_capacity h) = 2 ^ k" "length (bh_index h) = 2 ^ k" "length (entries pr) = 2 ^ k"
    "distinct (bh_index h)" "set (bh_index h) \<subseteq> {..<2 ^ k}"
    using ring_shape_cap [OF ring_ok_shape] by (auto dest!: ring_ok_shape simp: ring_shape_def)
  have "destroy_block_index pr = bh_index h"
    using r(1,2) Cons map_nth [of "bh_index h"] by (simp add: destroy_block_index_def current_header_def)
  moreover have "set (bh_index h) = {..<2 ^ k}"
    using r(2,4,5) by (intro card_subset_eq) (simp_all add: distinct_card)
  ultimately show ?thesis
    using r(3,4) mset_set_set [of "bh_index h"] by (simp add: atLeast0LessThan)
qed

lemma destroy_producer_ok:
  assumes s: "subqueue others pr p bl xs"
  shows "\<exists>es p'. destroy_producer pr p = Some (xs, es, p') \<and> mset es = mset [0..<length (entries pr)] \<and>
    pool_inv p' others \<and> (\<forall>a \<in> others. heap p' a = heap p a)"
proof -
  let ?i = "headIndex pr"
  have core: "queue_core (heap p) pr bl xs" and last_block: "32 * length bl < slot_of ?i + length xs + 32"
    and inv: "pool_inv p (others \<union> set bl)" and dis: "set bl \<inter> others = {}"
    using s by (auto simp: subqueue_def queue_ok_def)
  have idx: "index_ok pr (base_of ?i) bl" and small: "32 * length bl < 2 ^ 63 + slot_of ?i" and dist: "distinct bl"
    and room: "slot_of ?i + length xs \<le> 32 * length bl" and tail: "tailIndex pr = ?i + of_nat (length xs)"
    using core by (auto simp: queue_core_def)
  have tb: "tailBlock pr = Some (last bl)" if "bl \<noteq> []" using core that by (simp add: queue_core_def)
  have "left_from others p bl (at_block (slot_of ?i) 0) (slot_of ?i) 0 xs"
    using inv core by (simp add: left_from_def at_block_def queue_core_def)
  from destroy_elements_ok [OF idx small dist dis room tail le0 this] obtain p1 where
    d: "destroy_elements pr (tailIndex pr) ?i None p = Some (xs, p1)"
    "pool_inv p1 (others \<union> set (drop (at_block (slot_of ?i) (length xs)) bl))" "\<forall>a \<in> others. heap p1 a = heap p a" by auto
  have len: "length xs < 2 ^ 63" "unat (tailIndex pr - ?i) = length xs" "slot_of (tailIndex pr) = (slot_of ?i + length xs) mod 32"
    using queue_length [OF core] by simp_all
  have eq: "?i = tailIndex pr \<longleftrightarrow> xs = []" using len by auto (use tail in simp)
  have ord: "?i = tailIndex pr \<or> circular_less_than ?i (tailIndex pr)"
    using len eq by (auto simp: circular_less_than_iff)
  define free where "free = (xs \<noteq> [] \<or> tailIndex pr AND (BLOCK_SIZE - 1) \<noteq> 0)"
  have free: "free \<longleftrightarrow> bl \<noteq> []"
  proof -
    have "tailIndex pr AND (BLOCK_SIZE - 1) \<noteq> 0 \<longleftrightarrow> slot_of ?i \<noteq> 0" if "xs = []"
      using that len(3) by (simp add: BLOCK_SIZE_def slot_of_0_iff)
    moreover have "bl = [] \<longleftrightarrow> slot_of ?i = 0 \<and> xs = []" using room last_block by (cases bl) auto
    ultimately show ?thesis by (auto simp: free_def)
  qed
  have es: "mset (destroy_block_index pr) = mset [0..<length (entries pr)]" by (rule destroy_block_index_ok [OF idx])
  have run: "destroy_producer pr p = do {
      p \<leftarrow> (case tailBlock pr of Some b \<Rightarrow> if free then add_block_to_free_list b p1 else Some p1 | None \<Rightarrow> Some p1);
      Some (xs, destroy_block_index pr, p) }"
    using d(1) ord eq by (auto simp: destroy_producer_def free_def Let_def cong: option.case_cong)
  show ?thesis
  proof (cases "bl = []")
    case True
    then have "destroy_producer pr p = Some (xs, destroy_block_index pr, p1)"
      using run free by (simp split: option.split)
    with True d es show ?thesis by simp
  next
    case False
    have "at_block (slot_of ?i) (length xs) = length bl - 1"
    proof (cases "xs = []")
      case True
      have "length xs = 0" using True by simp
      with last_block slot_of_less [of ?i] have "length bl < 2" by linarith
      then have "length bl = 1" using False by (cases bl) auto
      with True show ?thesis by (simp add: at_block_def)
    next
      case ne: False
      then have "(slot_of ?i + length xs - 1) div 32 = length bl - 1"
        using room last_block by (intro last_block_index) (use ne in \<open>simp_all add: length_greater_0_conv [symmetric] del: length_greater_0_conv\<close>)
      with ne show ?thesis by (simp add: at_block_def)
    qed
    then have drop: "drop (at_block (slot_of ?i) (length xs)) bl = [last bl]"
      using False by (metis Suc_diff_1 append_butlast_last_id append_eq_conv_conj length_butlast length_greater_0_conv)
    have out: "last bl \<notin> others" using False dis by (meson disjoint_iff last_in_set)
    from pool.free_law [OF d(2), of "last bl"] obtain p2 where p2: "add_block_to_free_list (last bl) p1 = Some p2"
      "pool_inv p2 (others \<union> {last bl} - {last bl})" "\<forall>a \<in> others \<union> {last bl} - {last bl}. heap p2 a = heap p1 a"
      unfolding drop by auto
    have "others \<union> {last bl} - {last bl} = others" using out by auto
    with p2 have "pool_inv p2 others" "\<forall>a \<in> others. heap p2 a = heap p1 a" by simp_all
    moreover have "destroy_producer pr p = Some (xs, destroy_block_index pr, p2)"
      using run free False tb p2(1) by simp
    ultimately show ?thesis using es d(3) by simp
  qed
qed

section \<open>Destroying the queue\<close>

lemma destroy_producers_ok:
  assumes "distinct js" "\<And>j. j \<in> set js \<Longrightarrow> queue_ok (heap p) (prs ! j) (bls ! j) (cs ! j)"
    and "\<And>j l. j \<in> set js \<Longrightarrow> l \<in> set js \<Longrightarrow> j \<noteq> l \<Longrightarrow> set (bls ! j) \<inter> set (bls ! l) = {}"
    and "pool_inv p (\<Union>j \<in> set js. set (bls ! j))"
  shows "\<exists>ess p'. destroy_producers (map (\<lambda>j. prs ! j) js) p = Some (concat (map (\<lambda>j. cs ! j) js), ess, p') \<and>
    map mset ess = map (\<lambda>j. mset [0..<length (entries (prs ! j))]) js \<and> pool_inv p' {}"
  using assms
proof (induction js arbitrary: p)
  case (Cons j js)
  let ?others = "\<Union>l \<in> set js. set (bls ! l)"
  have "set (bls ! j) \<inter> ?others = {}" using Cons.prems(1,3) by fastforce
  moreover have "pool_inv p (?others \<union> set (bls ! j))" using Cons.prems(4) by (simp add: Un_commute)
  ultimately have "subqueue ?others (prs ! j) p (bls ! j) (cs ! j)" using Cons.prems(2) by (simp add: subqueue_def)
  from destroy_producer_ok [OF this] obtain es p1 where
    d: "destroy_producer (prs ! j) p = Some (cs ! j, es, p1)" "mset es = mset [0..<length (entries (prs ! j))]"
    "pool_inv p1 ?others" "\<forall>a \<in> ?others. heap p1 a = heap p a" by blast
  have "queue_ok (heap p1) (prs ! l) (bls ! l) (cs ! l)" if "l \<in> set js" for l
    by (rule queue_ok_cong [OF Cons.prems(2)]) (use that d(4) in auto)
  with Cons.IH [of p1] Cons.prems(1,3) d(3) obtain ess p' where
    "destroy_producers (map (\<lambda>j. prs ! j) js) p1 = Some (concat (map (\<lambda>j. cs ! j) js), ess, p')"
    "map mset ess = map (\<lambda>j. mset [0..<length (entries (prs ! j))]) js" "pool_inv p' {}" by auto
  with d(1,2) show ?case by simp
qed simp

lemma destroy_free_list_ok:
  assumes "chain (heap p) head fl" "\<And>a x. heap p a = Some x \<Longrightarrow> \<not> dynamicallyAllocated x"
  shows "destroy_free_list head p = Some p"
  using assms
proof (induction fl arbitrary: head)
  case (Cons a fl)
  then obtain x where "head = Some a" "heap p a = Some x" "chain (heap p) (freeListNext x) fl" "\<not> dynamicallyAllocated x"
    by auto
  with Cons show ?case by (simp add: destroy_free_list.simps)
qed (simp add: destroy_free_list.simps)

lemma destroy_queue_ok:
  assumes q: "queue_repr T q c"
  shows "\<exists>els ess ts p. destroy_queue q = Some (els, ess, ts, p) \<and> mset els = (\<Sum>i \<in> T. mset (c i)) \<and>
    map mset ess = map (\<lambda>j. mset [0..<length (entries (producers q ! j))]) (newest_first q) \<and> heap p = Map.empty"
proof -
  from q obtain m bls cs where st: "queue_state T q m bls cs" and c: "c = contents m cs"
    by (auto simp: queue_repr_contents)
  then have prods: "producers_ok bls cs q" by (simp add: queue_state_def)
  have "(\<Union>j < length (producers q). set (bls ! j)) = \<Union> (set ` set bls)"
    using queue_state_lengths(2) [OF st] by (simp add: set_conv_nth image_def) blast
  moreover have "distinct (newest_first q)" by (simp add: newest_first_def)
  ultimately obtain ess p where
    d: "destroy_producers (map (\<lambda>j. producers q ! j) (newest_first q)) (blocks q)
      = Some (concat (map (\<lambda>j. cs ! j) (newest_first q)), ess, p)"
    "map mset ess = map (\<lambda>j. mset [0..<length (entries (producers q ! j))]) (newest_first q)" "pool_inv p {}"
    using destroy_producers_ok [of "newest_first q" "blocks q" "producers q" bls cs] prods
    by (auto simp: producers_ok_def)
  from d(3) obtain fl where ok: "pool_ok p {} fl" by (auto simp: pool_inv_def)
  then have static: "\<not> dynamicallyAllocated x \<and> a < unat (initialBlockPoolSize p)" if "heap p a = Some x" for a x
    using that unfolding pool_ok_def by (metis empty_iff not_le)
  have "destroy_free_list (freeListHead p) p = Some p"
    by (rule destroy_free_list_ok) (use ok static in \<open>auto simp: pool_ok_def\<close>)
  with d(1) have "destroy_queue q = Some (concat (map (\<lambda>j. cs ! j) (newest_first q)), ess,
      butlast (implicitProducerHash q), destroy_initial_pool p)" by (simp add: destroy_queue_def)
  moreover have "heap (destroy_initial_pool p) = Map.empty"
    using static by (fastforce simp: destroy_initial_pool_def fun_eq_iff intro: ccontr)
  moreover have "mset (concat (map (\<lambda>j. cs ! j) (newest_first q))) = (\<Sum>i \<in> T. mset (c i))"
    using sum_contents [OF st, of mset] by (simp add: c mset_concat o_def)
  ultimately show ?thesis using d(2) by blast
qed

section \<open>The contract of a queue that is destroyed\<close>

lemma mset_by_thread:
  assumes "finite S" "fst ` set l \<subseteq> S"
  shows "mset (map snd l) = (\<Sum>i \<in> S. mset (from_thread i l))"
  using assms(2)
proof (induction l)
  case (Cons y l)
  obtain i v where y: "y = (i, v)" by (cases y)
  have "(\<Sum>k \<in> S. mset (from_thread k (y # l))) = (\<Sum>k \<in> S. (if k = i then {#v#} else {#}) + mset (from_thread k l))"
    by (rule sum.cong) (auto simp: y from_thread_def)
  also have "\<dots> = {#v#} + (\<Sum>k \<in> S. mset (from_thread k l))"
    using assms(1) Cons.prems by (simp add: y sum.distrib sum.delta)
  finally show ?case using Cons by (simp add: y)
qed (simp add: from_thread_def)

text \<open>\<open>destroy\<close> reports the elements it destroys and what it leaves, which is to be \<open>clean\<close>.\<close>

locale disposable_queue = message_queue repr enq deq T
  for repr :: "'q \<Rightarrow> (thread_id \<Rightarrow> 'm list) \<Rightarrow> bool"
    and enq :: "thread_id \<Rightarrow> 'm \<Rightarrow> 'q \<Rightarrow> (bool \<times> 'q) option"
    and deq :: "'q \<Rightarrow> ('m option \<times> 'q) option"
    and T :: "thread_id set" +
  fixes destroy :: "'q \<Rightarrow> ('m list \<times> 'r) option"
    and clean :: "'r \<Rightarrow> bool"
  assumes threads_law: "repr q c \<Longrightarrow> finite T \<and> (\<forall>i. i \<notin> T \<longrightarrow> c i = [])"
    and destroy_law: "repr q c \<Longrightarrow> \<exists>els r. destroy q = Some (els, r) \<and> mset els = (\<Sum>i \<in> T. mset (c i)) \<and> clean r"
begin

lemma run_then_destroy:
  assumes "repr q c" "senders ops \<subseteq> T"
  shows "\<exists>sent received q' els r. run_ops enq deq ops q = Some (sent, received, q') \<and> destroy q' = Some (els, r) \<and>
    (\<Sum>i \<in> T. mset (c i)) + mset (map snd sent) = mset received + mset els \<and> clean r"
proof -
  from run_ops_fifo [OF assms] obtain sent received q' rest src where
    r: "run_ops enq deq ops q = Some (sent, received, q')" "repr q' rest" "length src = length received"
    "\<And>i. c i @ from_thread i sent = from_thread i (zip src received) @ rest i" by blast
  from destroy_law [OF r(2)] obtain els d where
    d: "destroy q' = Some (els, d)" "mset els = (\<Sum>i \<in> T. mset (rest i))" "clean d" by blast
  let ?S = "T \<union> (fst ` set sent \<union> set src)"
  have T: "finite T" "\<And>i. i \<notin> T \<Longrightarrow> c i = []" "\<And>i. i \<notin> T \<Longrightarrow> rest i = []"
    using threads_law [OF assms(1)] threads_law [OF r(2)] by auto
  then have fin: "finite ?S" by simp
  have outside: "(\<Sum>i \<in> ?S. mset (f i)) = (\<Sum>i \<in> T. mset (f i))" if "\<And>i. i \<notin> T \<Longrightarrow> f i = []" for f :: "thread_id \<Rightarrow> 'm list"
    by (rule sum.mono_neutral_right [OF fin]) (use that in auto)
  have "mset (c i) + mset (from_thread i sent) = mset (from_thread i (zip src received)) + mset (rest i)" for i
    using r(4) [of i] by (metis mset_append)
  then have "(\<Sum>i \<in> ?S. mset (c i)) + (\<Sum>i \<in> ?S. mset (from_thread i sent))
      = (\<Sum>i \<in> ?S. mset (from_thread i (zip src received))) + (\<Sum>i \<in> ?S. mset (rest i))"
    by (simp flip: sum.distrib)
  moreover have "(\<Sum>i \<in> ?S. mset (from_thread i sent)) = mset (map snd sent)"
    by (rule mset_by_thread [OF fin, symmetric]) auto
  moreover have "(\<Sum>i \<in> ?S. mset (from_thread i (zip src received))) = mset received"
    using mset_by_thread [OF fin, of "zip src received"] r(3) by (force dest: set_zip_leftD)
  ultimately show ?thesis using r(1) d outside [OF T(2)] outside [OF T(3)] by auto
qed

end

lemma queue_repr_threads:
  assumes "queue_repr T q c"
  shows "finite T \<and> (\<forall>i. i \<notin> T \<longrightarrow> c i = [])"
proof -
  from assms obtain m bls cs where st: "queue_state T q m bls cs" and c: "c = contents m cs"
    by (auto simp: queue_repr_contents)
  then have "finite T" by (simp add: queue_state_def hashes_ok_def)
  moreover have "c i = []" if "i \<notin> T" for i
    using queue_state_lengths(3) [OF st, of i] that by (auto simp: c contents_def split: option.split)
  ultimately show ?thesis by blast
qed

definition no_blocks :: "nat list list \<times> implicit_producer_hash list \<times> 'a pool \<Rightarrow> bool" where
  "no_blocks r \<longleftrightarrow> heap (snd (snd r)) = Map.empty"

interpretation dq: disposable_queue "queue_repr T" "enqueue mok" try_dequeue T destroy_queue no_blocks for T mok
  by unfold_locales (use queue_repr_threads destroy_queue_ok in \<open>fastforce simp: no_blocks_def\<close>)+

section \<open>Properties\<close>

text \<open>
  C19. No element is lost at the end: what the threads sent and the queue accepted is exactly, element by
  element, what was received and what the destructor of the queue destroys, and the destructor, which
  returns, leaves no block allocated, whichever allocations failed before.
\<close>

theorem destructor_leaves_nothing:
  fixes ops :: "'m queue_op list"
  assumes "\<forall>i \<in> senders ops. 1 < i" "length ops < 2 ^ 59"
  shows "\<exists>sent received q els entries tables p.
    run_ops (enqueue mok) try_dequeue ops (ConcurrentQueue mok capacity) = Some (sent, received, q) \<and>
    destroy_queue q = Some (els, entries, tables, p) \<and>
    mset (map snd sent) = mset received + mset els \<and> heap p = Map.empty"
proof -
  have "card (senders ops) < 2 ^ 59" using card_senders [of ops] assms(2) by linarith
  then have "queue_repr (senders ops) (ConcurrentQueue mok capacity :: 'm queue) (\<lambda>_. [])"
    using new_queue_ok assms(1) by simp
  from dq.run_then_destroy [OF this order_refl, of mok] show ?thesis by (force simp: no_blocks_def)
qed

theorem destructor_leaves_nothing_witness:
  "\<exists>sent received q els entries tables p.
    run_ops (enqueue (\<lambda>n. n < 7)) try_dequeue [Send 5 ''a'', Send 6 ''b'', Receive] (ConcurrentQueue (\<lambda>n. n < 7) 4096)
      = Some (sent, received, q) \<and>
    destroy_queue q = Some (els, entries, tables, p) \<and> mset (map snd sent) = mset received + mset els \<and> heap p = Map.empty"
  using destructor_leaves_nothing [of "[Send 5 ''a'', Send 6 ''b'', Receive]" "\<lambda>n. n < 7" 4096] by simp

end
