(* ===== verification/Itc.thy ===== *)
theory Itc
  imports Itc_Message Cq_Lifetime
begin

text \<open>
  \<open>include/itc_queue.hpp\<close>, \<open>struct ITCContext\<close>: one inbox and one eventfd per reactor. An
  eventfd is its counter: \<open>write\<close> of 1 adds one and fails when the counter is at its
  maximum, \<open>read\<close> of a non-zero counter sets it to zero (\<open>eventfd(2)\<close>, \<open>EFD_NONBLOCK\<close>). A
  descriptor is negative when \<open>eventfd\<close> failed. The thread of reactor \<open>i\<close> has the id
  \<open>thread_of i\<close>, and \<open>inbox_malloc i\<close> says which allocations of inbox \<open>i\<close> succeed.
\<close>

record itc_context =
  itc_num_reactors :: int
  inboxes :: "itc_message queue list"
  event_fds :: "int list"
  event_counters :: "u64 list"

text \<open>\<open>eventfds\<close> lists the descriptors that the calls of \<open>eventfd\<close> return.\<close>

definition itc_init :: "(nat \<Rightarrow> malloc_ok) \<Rightarrow> int list \<Rightarrow> nat \<Rightarrow> itc_context" where
  "itc_init inbox_malloc eventfds n_reactors =
     \<lparr>itc_num_reactors = int n_reactors,
      inboxes = map (\<lambda>i. ConcurrentQueue (inbox_malloc i) 4096) [0..<n_reactors],
      event_fds = map (\<lambda>i. eventfds ! i) [0..<n_reactors],
      event_counters = replicate n_reactors 0\<rparr>"

definition itc_push :: "(nat \<Rightarrow> malloc_ok) \<Rightarrow> thread_id \<Rightarrow> int \<Rightarrow> itc_message \<Rightarrow> itc_context \<Rightarrow> ub + (bool \<times> itc_context)" where
  "itc_push inbox_malloc thread target msg x =
     ub_bind (vec_at (inboxes x) target) (\<lambda>q.
       case enqueue (inbox_malloc (nat target)) thread msg q of
         None \<Rightarrow> Inl Queue_failure
       | Some (ok, q) \<Rightarrow> Inr (ok, x\<lparr>inboxes := (inboxes x)[nat target := q]\<rparr>))"

definition itc_pop :: "int \<Rightarrow> itc_context \<Rightarrow> ub + (itc_message option \<times> itc_context)" where
  "itc_pop i x =
     ub_bind (vec_at (inboxes x) i) (\<lambda>q.
       case try_dequeue q of
         None \<Rightarrow> Inl Queue_failure
       | Some (m, q) \<Rightarrow> Inr (m, x\<lparr>inboxes := (inboxes x)[nat i := q]\<rparr>))"

definition itc_pop_bulk :: "int \<Rightarrow> u64 \<Rightarrow> itc_context \<Rightarrow> ub + (itc_message list \<times> itc_context)" where
  "itc_pop_bulk i most x =
     ub_bind (vec_at (inboxes x) i) (\<lambda>q.
       case try_dequeue_bulk most q of
         None \<Rightarrow> Inl Queue_failure
       | Some (ms, q) \<Rightarrow> Inr (ms, x\<lparr>inboxes := (inboxes x)[nat i := q]\<rparr>))"

definition get_event_fd :: "int \<Rightarrow> itc_context \<Rightarrow> ub + int" where
  "get_event_fd i x = vec_at (event_fds x) i"

definition EVENTFD_MAX :: u64 where
  "EVENTFD_MAX = 0xFFFFFFFFFFFFFFFE"

definition itc_signal :: "int \<Rightarrow> itc_context \<Rightarrow> ub + (bool \<times> itc_context)" where
  "itc_signal i x =
     ub_bind (get_event_fd i x) (\<lambda>descr.
     ub_bind (vec_at (event_counters x) i) (\<lambda>n.
       if descr < 0 \<or> EVENTFD_MAX \<le> n then Inr (False, x)
       else Inr (True, x\<lparr>event_counters := (event_counters x)[nat i := n + 1]\<rparr>)))"

definition clear_signal :: "int \<Rightarrow> itc_context \<Rightarrow> ub + itc_context" where
  "clear_signal i x =
     ub_bind (get_event_fd i x) (\<lambda>descr.
       if descr < 0 then Inr x else ub_map (\<lambda>cs. x\<lparr>event_counters := cs\<rparr>) (vec_put (event_counters x) i 0))"

text \<open>
  \<open>~ITCContext\<close> closes the eventfds that were created; then the inboxes are destroyed. The result is the
  descriptors closed and, inbox by inbox, the messages destroyed.
\<close>

fun destroy_inboxes :: "itc_message queue list \<Rightarrow> itc_message list list option" where
  "destroy_inboxes [] = Some []"
| "destroy_inboxes (q # qs) = do {
     (ms, _) \<leftarrow> destroy_queue q;
     mss \<leftarrow> destroy_inboxes qs;
     Some (ms # mss) }"

definition itc_destroy :: "itc_context \<Rightarrow> (int list \<times> itc_message list list) option" where
  "itc_destroy x = do {
     mss \<leftarrow> destroy_inboxes (inboxes x);
     Some (filter (\<lambda>descr. 0 \<le> descr) (event_fds x), mss) }"

section \<open>What the inboxes hold\<close>

text \<open>\<open>c j i\<close> is what thread \<open>i\<close> has in inbox \<open>j\<close>, the oldest message first.\<close>

definition itc_repr :: "thread_id set \<Rightarrow> itc_context \<Rightarrow> (nat \<Rightarrow> thread_id \<Rightarrow> itc_message list) \<Rightarrow> bool" where
  "itc_repr T x c \<longleftrightarrow>
     length (event_fds x) = length (inboxes x) \<and> length (event_counters x) = length (inboxes x) \<and>
     (\<forall>j < length (inboxes x). queue_repr T (inboxes x ! j) (c j))"

lemma itc_repr_init:
  assumes "finite T" "card T < 2 ^ 59" "\<forall>i \<in> T. 1 < i"
  shows "itc_repr T (itc_init mok eventfds n) (\<lambda>_ _. [])"
  by (simp add: itc_repr_def itc_init_def new_queue_ok [OF assms])

lemma destroy_inboxes_ok:
  assumes "\<forall>j < length qs. queue_repr T (qs ! j) (c j)"
  shows "\<exists>mss. destroy_inboxes qs = Some mss \<and> map mset mss = map (\<lambda>j. \<Sum>i \<in> T. mset (c j i)) [0..<length qs]"
  using assms
proof (induction qs arbitrary: c)
  case (Cons q qs)
  then have "queue_repr T q (c 0)" "\<forall>j < length qs. queue_repr T (qs ! j) (c (Suc j))" by auto
  with dq.destroy_law [of T q "c 0"] Cons.IH [of "\<lambda>j. c (Suc j)"] obtain ms d mss where
    "destroy_queue q = Some (ms, d)" "mset ms = (\<Sum>i \<in> T. mset (c 0 i))" "destroy_inboxes qs = Some mss"
    "map mset mss = map (\<lambda>j. \<Sum>i \<in> T. mset (c (Suc j) i)) [0..<length qs]" by blast
  then show ?case by (simp add: upt_conv_Cons map_Suc_upt [symmetric] del: upt_Suc)
qed simp

text \<open>The messages still in the inboxes at the end are destroyed, each once.\<close>

lemma itc_destroy_ok:
  assumes "itc_repr T x c"
  shows "\<exists>mss. itc_destroy x = Some (filter (\<lambda>descr. 0 \<le> descr) (event_fds x), mss) \<and>
    map mset mss = map (\<lambda>j. \<Sum>i \<in> T. mset (c j i)) [0..<length (inboxes x)]"
  using destroy_inboxes_ok [of "inboxes x" T c] assms by (auto simp: itc_repr_def itc_destroy_def)

lemma itc_push_ok:
  assumes x: "itc_repr T x c" and t: "0 \<le> target" "nat target < length (inboxes x)" and i: "i \<in> T"
  shows "\<exists>ok x'. itc_push mok i target msg x = Inr (ok, x') \<and> length (inboxes x') = length (inboxes x) \<and>
    itc_repr T x' (if ok then c(nat target := (c (nat target))(i := c (nat target) i @ [msg])) else c)"
proof -
  have q: "queue_repr T (inboxes x ! nat target) (c (nat target))" using x t(2) by (simp add: itc_repr_def)
  from mq.enq_law [OF q i, of "mok (nat target)" msg] obtain ok q' where
    e: "enqueue (mok (nat target)) i msg (inboxes x ! nat target) = Some (ok, q')"
    "queue_repr T q' (if ok then (c (nat target))(i := c (nat target) i @ [msg]) else c (nat target))" by blast
  let ?x = "x\<lparr>inboxes := (inboxes x)[nat target := q']\<rparr>"
  have "vec_at (inboxes x) target = Inr (inboxes x ! nat target)" using t by (simp add: vec_at_def)
  then have "itc_push mok i target msg x = Inr (ok, ?x)" using e(1) by (simp add: itc_push_def)
  moreover have "itc_repr T ?x (if ok then c(nat target := (c (nat target))(i := c (nat target) i @ [msg])) else c)"
    using x e(2) t(2) by (cases ok) (auto simp: itc_repr_def nth_list_update)
  ultimately show ?thesis by auto
qed

lemma itc_pop_ok:
  assumes x: "itc_repr T x c" and j: "j < length (inboxes x)"
  shows "\<exists>r x'. itc_pop (int j) x = Inr (r, x') \<and> length (inboxes x') = length (inboxes x) \<and>
    (case r of
       None \<Rightarrow> (\<forall>i. c j i = []) \<and> itc_repr T x' c
     | Some m \<Rightarrow> \<exists>i \<in> T. \<exists>ms. c j i = m # ms \<and> itc_repr T x' (c(j := (c j)(i := ms))))"
proof -
  have q: "queue_repr T (inboxes x ! j) (c j)" using x j by (simp add: itc_repr_def)
  from mq.deq_law [OF q] obtain r q' where d: "try_dequeue (inboxes x ! j) = Some (r, q')" and
    r: "case r of None \<Rightarrow> (\<forall>i. c j i = []) \<and> queue_repr T q' (c j)
      | Some m \<Rightarrow> \<exists>i \<in> T. \<exists>ys. c j i = m # ys \<and> queue_repr T q' ((c j)(i := ys))" by blast
  let ?x = "x\<lparr>inboxes := (inboxes x)[j := q']\<rparr>"
  have run: "itc_pop (int j) x = Inr (r, ?x)" using d j by (simp add: itc_pop_def)
  show ?thesis
  proof (cases r)
    case None
    with r x j have "itc_repr T ?x c" by (auto simp: itc_repr_def nth_list_update)
    with run r None show ?thesis by simp
  next
    case (Some m)
    with r obtain i ys where i: "i \<in> T" "c j i = m # ys" "queue_repr T q' ((c j)(i := ys))" by auto
    then have "itc_repr T ?x (c(j := (c j)(i := ys)))" using x j by (auto simp: itc_repr_def nth_list_update)
    with run i Some show ?thesis by auto
  qed
qed

lemma itc_signal_ok:
  assumes x: "itc_repr T x c" and j: "j < length (inboxes x)"
  shows "\<exists>b x'. itc_signal (int j) x = Inr (b, x') \<and> inboxes x' = inboxes x \<and> itc_repr T x' c"
proof -
  have "j < length (event_fds x)" "j < length (event_counters x)" using x j by (simp_all add: itc_repr_def)
  then show ?thesis using x by (auto simp: itc_signal_def get_event_fd_def itc_repr_def)
qed

section \<open>The messages under way\<close>

text \<open>All messages in the inboxes, each with the number of its inbox.\<close>

definition all_messages :: "nat \<Rightarrow> thread_id set \<Rightarrow> (nat \<Rightarrow> thread_id \<Rightarrow> itc_message list) \<Rightarrow> (nat \<times> itc_message) multiset" where
  "all_messages n T c = (\<Sum>j < n. \<Sum>i \<in> T. image_mset (Pair j) (mset (c j i)))"

definition bus_holds :: "thread_id set \<Rightarrow> nat \<Rightarrow> itc_context \<Rightarrow> (nat \<times> itc_message) multiset \<Rightarrow> bool" where
  "bus_holds T n x M \<longleftrightarrow>
     finite T \<and> length (inboxes x) = n \<and> (\<exists>c. itc_repr T x c \<and> M = all_messages n T c)"

lemma all_messages_split:
  assumes "finite T" "j < n" "i \<in> T"
  shows "all_messages n T c = image_mset (Pair j) (mset (c j i)) + all_messages n T (c(j := (c j)(i := [])))"
proof -
  let ?f = "\<lambda>c j. \<Sum>i \<in> T. image_mset (Pair j) (mset (c j i))"
  let ?c = "c(j := (c j)(i := []))"
  have "all_messages n T c = ?f c j + (\<Sum>k \<in> {..<n} - {j}. ?f c k)"
    using assms by (simp add: all_messages_def sum.remove)
  moreover have "?f c j = image_mset (Pair j) (mset (c j i)) + ?f ?c j"
    using assms by (simp add: sum.remove [of T i])
  moreover have "(\<Sum>k \<in> {..<n} - {j}. ?f c k) = (\<Sum>k \<in> {..<n} - {j}. ?f ?c k)"
    by (rule sum.cong) auto
  moreover have "all_messages n T ?c = ?f ?c j + (\<Sum>k \<in> {..<n} - {j}. ?f ?c k)"
    using assms unfolding all_messages_def by (intro sum.remove) auto
  ultimately show ?thesis by (simp only: add.assoc)
qed

lemma all_messages_upd:
  assumes "finite T" "j < n" "i \<in> T"
  shows "all_messages n T (c(j := (c j)(i := ms))) + image_mset (Pair j) (mset (c j i))
    = all_messages n T c + image_mset (Pair j) (mset ms)"
  using all_messages_split [OF assms, of c] all_messages_split [OF assms, of "c(j := (c j)(i := ms))"]
  by simp

lemma all_messages_empty_inbox:
  assumes "\<And>i. c j i = []"
  shows "(j, m) \<notin># all_messages n T c"
  using assms by (auto simp: all_messages_def set_mset_sum)

text \<open>What a reactor relies on, with the order in the inboxes left out.\<close>

locale message_bus =
  fixes holds :: "'x \<Rightarrow> (nat \<times> 'm) multiset \<Rightarrow> bool"
    and push :: "thread_id \<Rightarrow> int \<Rightarrow> 'm \<Rightarrow> 'x \<Rightarrow> ub + (bool \<times> 'x)"
    and pop :: "int \<Rightarrow> 'x \<Rightarrow> ub + ('m option \<times> 'x)"
    and n :: nat
    and T :: "thread_id set"
  assumes push_law: "holds x M \<Longrightarrow> j < n \<Longrightarrow> i \<in> T \<Longrightarrow>
      \<exists>ok x'. push i (int j) m x = Inr (ok, x') \<and> holds x' (if ok then add_mset (j, m) M else M)"
    and pop_law: "holds x M \<Longrightarrow> j < n \<Longrightarrow> \<exists>r x'. pop (int j) x = Inr (r, x') \<and>
      (case r of None \<Rightarrow> (\<forall>m. (j, m) \<notin># M) \<and> holds x' M
       | Some m \<Rightarrow> (j, m) \<in># M \<and> holds x' (M - {#(j, m)#}))"
begin

text \<open>A message that was pushed can be popped, and then the bus is as it was.\<close>

lemma push_then_pop:
  assumes "holds x M" "j < n" "i \<in> T" "\<forall>m. (j, m) \<notin># M" "push i (int j) m x = Inr (True, x1)"
  shows "\<exists>x2. pop (int j) x1 = Inr (Some m, x2) \<and> holds x2 M"
proof -
  from push_law [OF assms(1-3), of m] assms(5) have h: "holds x1 (add_mset (j, m) M)" by auto
  from pop_law [OF h assms(2)] obtain r x2 where p: "pop (int j) x1 = Inr (r, x2)" and
    r: "case r of None \<Rightarrow> (\<forall>m'. (j, m') \<notin># add_mset (j, m) M) \<and> holds x2 (add_mset (j, m) M)
      | Some m' \<Rightarrow> (j, m') \<in># add_mset (j, m) M \<and> holds x2 (add_mset (j, m) M - {#(j, m')#})" by blast
  then obtain m' where "r = Some m'" by (cases r) auto
  with p r assms(4) show ?thesis by auto
qed

lemma pop_size:
  assumes "holds x M" "j < n" "pop (int j) x = Inr (Some m, x')"
  shows "\<exists>M'. holds x' M' \<and> size M = Suc (size M')"
  using pop_law [OF assms(1,2)] assms(3) by (auto simp: size_Suc_Diff1 intro!: exI)

end

lemma bus_push_law:
  assumes "bus_holds T n x M" "j < n" "i \<in> T"
  shows "\<exists>ok x'. itc_push mok i (int j) m x = Inr (ok, x') \<and> bus_holds T n x' (if ok then add_mset (j, m) M else M)"
proof -
  from assms(1) obtain c where c: "itc_repr T x c" "M = all_messages n T c" "length (inboxes x) = n" and fin: "finite T"
    by (auto simp: bus_holds_def)
  have len: "nat (int j) < length (inboxes x)" "(0 :: int) \<le> int j" using assms(2) c(3) by simp_all
  from itc_push_ok [OF c(1) len(2,1) assms(3), of mok m] obtain ok x' where
    p: "itc_push mok i (int j) m x = Inr (ok, x')" "length (inboxes x') = length (inboxes x)"
    and r0: "itc_repr T x' (if ok then c(nat (int j) := (c (nat (int j)))(i := c (nat (int j)) i @ [m])) else c)"
    by blast
  have r: "itc_repr T x' (if ok then c(j := (c j)(i := c j i @ [m])) else c)" using r0 by (cases ok) simp_all
  have "all_messages n T (c(j := (c j)(i := c j i @ [m]))) = add_mset (j, m) M"
    using all_messages_upd [OF fin assms(2,3), of c "c j i @ [m]"] c(2) by simp
  with r c(2,3) p fin have "bus_holds T n x' (if ok then add_mset (j, m) M else M)"
    by (cases ok) (auto simp: bus_holds_def)
  with p(1) show ?thesis by blast
qed

lemma bus_pop_law:
  assumes "bus_holds T n x M" "j < n"
  shows "\<exists>r x'. itc_pop (int j) x = Inr (r, x') \<and>
      (case r of None \<Rightarrow> (\<forall>m. (j, m) \<notin># M) \<and> bus_holds T n x' M
       | Some m \<Rightarrow> (j, m) \<in># M \<and> bus_holds T n x' (M - {#(j, m)#}))"
proof -
  from assms(1) obtain c where c: "itc_repr T x c" "M = all_messages n T c" "length (inboxes x) = n" and fin: "finite T"
    by (auto simp: bus_holds_def)
  have len: "j < length (inboxes x)" using assms(2) c(3) by simp
  from itc_pop_ok [OF c(1) len] obtain r x' where p: "itc_pop (int j) x = Inr (r, x')"
    "length (inboxes x') = length (inboxes x)" and
    r: "case r of None \<Rightarrow> (\<forall>i. c j i = []) \<and> itc_repr T x' c
      | Some m \<Rightarrow> \<exists>i \<in> T. \<exists>ms. c j i = m # ms \<and> itc_repr T x' (c(j := (c j)(i := ms)))" by blast
  show ?thesis
  proof (cases r)
    case None
    with r p c fin show ?thesis using all_messages_empty_inbox [of c j] by (auto simp: bus_holds_def)
  next
    case (Some m)
    with r obtain i ms where i: "i \<in> T" "c j i = m # ms" "itc_repr T x' (c(j := (c j)(i := ms)))" by auto
    have "M = add_mset (j, m) (all_messages n T (c(j := (c j)(i := ms))))"
      using all_messages_upd [OF fin assms(2) i(1), of c ms] i(2) c(2) by (simp flip: add_mset_add_single)
    then have M: "(j, m) \<in># M" "M - {#(j, m)#} = all_messages n T (c(j := (c j)(i := ms)))" by simp_all
    have "bus_holds T n x' (all_messages n T (c(j := (c j)(i := ms))))"
      unfolding bus_holds_def using i(3) p(2) c(3) fin by auto
    with p(1) Some M show ?thesis by simp
  qed
qed

interpretation ib: message_bus "bus_holds T n" "itc_push mok" itc_pop n T for T n mok
  by unfold_locales (rule bus_push_law bus_pop_law; assumption)+

section \<open>Popping many messages\<close>

lemma from_thread_sum:
  assumes "finite T" "length src = length els" "set src \<subseteq> T"
  shows "(\<Sum>i \<in> T. mset (from_thread i (zip src els))) = mset els"
  using assms(2,3)
proof (induction src els rule: list_induct2)
  case (Cons j src v els)
  have "mset (from_thread i (zip (j # src) (v # els))) = mset (from_thread i (zip src els)) + (if i = j then {#v#} else {#})" for i
    by simp
  then have "(\<Sum>i \<in> T. mset (from_thread i (zip (j # src) (v # els))))
      = (\<Sum>i \<in> T. mset (from_thread i (zip src els))) + (\<Sum>i \<in> T. if i = j then {#v#} else {#})"
    by (simp only: sum.distrib)
  with Cons assms(1) show ?case by simp
qed simp

lemma image_sum: "finite S \<Longrightarrow> image_mset f (\<Sum>i \<in> S. g i) = (\<Sum>i \<in> S. image_mset f (g i))"
  by (induction S rule: finite_induct) simp_all

lemma size_filter_sum: "finite S \<Longrightarrow> size (filter_mset P (\<Sum>i \<in> S. g i)) = (\<Sum>i \<in> S. size (filter_mset P (g i)))"
  by (induction S rule: finite_induct) simp_all

lemma all_messages_bulk:
  assumes "finite T" "j < n" "length src = length els" "set src \<subseteq> T" "\<And>i. c j i = from_thread i (zip src els) @ d i"
  shows "all_messages n T c = image_mset (Pair j) (mset els) + all_messages n T (c(j := d))"
proof -
  let ?f = "\<lambda>c k. \<Sum>i \<in> T. image_mset (Pair k) (mset (c k i))"
  have "?f c j = image_mset (Pair j) (\<Sum>i \<in> T. mset (from_thread i (zip src els))) + (\<Sum>i \<in> T. image_mset (Pair j) (mset (d i)))"
    by (simp add: assms(5) sum.distrib image_sum [OF assms(1)])
  also have "\<dots> = image_mset (Pair j) (mset els) + ?f (c(j := d)) j"
    by (simp add: from_thread_sum [OF assms(1,3,4)])
  finally have j: "?f c j = image_mset (Pair j) (mset els) + ?f (c(j := d)) j" .
  have "(\<Sum>k \<in> {..<n} - {j}. ?f c k) = (\<Sum>k \<in> {..<n} - {j}. ?f (c(j := d)) k)" by (rule sum.cong) auto
  moreover have "all_messages n T c = ?f c j + (\<Sum>k \<in> {..<n} - {j}. ?f c k)"
    "all_messages n T (c(j := d)) = ?f (c(j := d)) j + (\<Sum>k \<in> {..<n} - {j}. ?f (c(j := d)) k)"
    using assms(2) unfolding all_messages_def by (intro sum.remove; simp)+
  ultimately show ?thesis using j by (simp only: add.assoc)
qed

lemma itc_pop_bulk_ok:
  assumes x: "itc_repr T x c" and j: "j < length (inboxes x)"
  shows "\<exists>ms src x' d. itc_pop_bulk (int j) most x = Inr (ms, x') \<and> length (inboxes x') = length (inboxes x) \<and>
    itc_repr T x' (c(j := d)) \<and> length ms = min (unat most) (\<Sum>i \<in> T. length (c j i)) \<and>
    length src = length ms \<and> set src \<subseteq> T \<and> (\<forall>i. c j i = from_thread i (zip src ms) @ d i)"
proof -
  have q: "queue_repr T (inboxes x ! j) (c j)" using x j by (simp add: itc_repr_def)
  from bulk_receive [OF q, of most] obtain ms src q' d where d: "try_dequeue_bulk most (inboxes x ! j) = Some (ms, q')" "queue_repr T q' d"
    "length ms = min (unat most) (\<Sum>i \<in> T. length (c j i))" "length src = length ms" "set src \<subseteq> T"
    "\<forall>i. c j i = from_thread i (zip src ms) @ d i" by blast
  let ?x = "x\<lparr>inboxes := (inboxes x)[j := q']\<rparr>"
  have "itc_pop_bulk (int j) most x = Inr (ms, ?x)" using d(1) j by (simp add: itc_pop_bulk_def)
  moreover have "itc_repr T ?x (c(j := d))" using x j d(2) by (auto simp: itc_repr_def nth_list_update)
  ultimately show ?thesis using d(3-6) by (intro exI [of _ ms] exI [of _ src] exI [of _ ?x] exI [of _ d]) simp
qed

text \<open>A bus whose inboxes can be emptied in one call.\<close>

locale bulk_bus = message_bus holds push pop n T
  for holds :: "'x \<Rightarrow> (nat \<times> 'm) multiset \<Rightarrow> bool" and push pop n T +
  fixes pop_bulk :: "int \<Rightarrow> u64 \<Rightarrow> 'x \<Rightarrow> ub + ('m list \<times> 'x)"
  assumes pop_bulk_law: "holds x M \<Longrightarrow> j < n \<Longrightarrow> \<exists>ms x' M'. pop_bulk (int j) most x = Inr (ms, x') \<and> holds x' M' \<and>
      M = image_mset (Pair j) (mset ms) + M' \<and>
      length ms = min (unat most) (size (filter_mset (\<lambda>(k, _). k = j) M))"
begin

lemma bulk_empties:
  assumes "holds x M" "j < n" "size M \<le> unat most"
  shows "\<exists>ms x'. pop_bulk (int j) most x = Inr (ms, x') \<and> (\<exists>x''. pop (int j) x' = Inr (None, x''))"
proof -
  from pop_bulk_law [OF assms(1,2), of most] obtain ms x' M' where b: "pop_bulk (int j) most x = Inr (ms, x')" "holds x' M'"
    "M = image_mset (Pair j) (mset ms) + M'" "length ms = min (unat most) (size (filter_mset (\<lambda>(k, _). k = j) M))" by blast
  have "size (filter_mset (\<lambda>(k, _). k = j) M) \<le> size M" by (rule size_filter_mset_lesseq)
  then have "size (filter_mset (\<lambda>(k, _). k = j) M) = length ms" using b(4) assms(3) by linarith
  moreover have "filter_mset (\<lambda>(k, _). k = j) (image_mset (Pair j) (mset ms)) = image_mset (Pair j) (mset ms)"
    by (simp add: filter_mset_image_mset)
  ultimately have "size (filter_mset (\<lambda>(k, _). k = j) M') = 0" by (simp add: b(3))
  then have "(j, m) \<notin># M'" for m by auto
  with pop_law [OF b(2) assms(2)] b(1) show ?thesis by (auto split: option.splits)
qed

end

lemma bus_pop_bulk_law:
  assumes "bus_holds T n x M" "j < n"
  shows "\<exists>ms x' M'. itc_pop_bulk (int j) most x = Inr (ms, x') \<and> bus_holds T n x' M' \<and>
      M = image_mset (Pair j) (mset ms) + M' \<and>
      length ms = min (unat most) (size (filter_mset (\<lambda>(k, _). k = j) M))"
proof -
  from assms(1) obtain c where c: "itc_repr T x c" "M = all_messages n T c" "length (inboxes x) = n" and fin: "finite T"
    by (auto simp: bus_holds_def)
  have len: "j < length (inboxes x)" using assms(2) c(3) by simp
  from itc_pop_bulk_ok [OF c(1) len, of most] obtain ms src x' d where p: "itc_pop_bulk (int j) most x = Inr (ms, x')"
    "length (inboxes x') = length (inboxes x)" "itc_repr T x' (c(j := d))"
    "length ms = min (unat most) (\<Sum>i \<in> T. length (c j i))" "length src = length ms" "set src \<subseteq> T"
    "\<forall>i. c j i = from_thread i (zip src ms) @ d i" by blast
  have M: "M = image_mset (Pair j) (mset ms) + all_messages n T (c(j := d))"
    unfolding c(2) using p(7) by (intro all_messages_bulk [OF fin assms(2) p(5,6)]) simp
  have "size (filter_mset (\<lambda>(k, _). k = j) (image_mset (Pair k) (mset xs))) = (if k = j then length xs else 0)"
    for k and xs :: "itc_message list" by (simp add: filter_mset_image_mset)
  then have "size (filter_mset (\<lambda>(k, _). k = j) M) = (\<Sum>k < n. \<Sum>i \<in> T. if k = j then length (c k i) else 0)"
    unfolding c(2) all_messages_def by (simp add: size_filter_sum fin)
  also have "\<dots> = (\<Sum>i \<in> T. length (c j i))" using assms(2) by (simp add: sum.swap [of _ T] sum.delta)
  finally have "length ms = min (unat most) (size (filter_mset (\<lambda>(k, _). k = j) M))" using p(4) by simp
  moreover have "bus_holds T n x' (all_messages n T (c(j := d)))" using p(2,3) c(3) fin by (auto simp: bus_holds_def)
  ultimately show ?thesis using p(1) M by blast
qed

interpretation bb: bulk_bus "bus_holds T n" "itc_push mok" itc_pop n T itc_pop_bulk for T n mok
  by unfold_locales (rule bus_pop_bulk_law; assumption)

end
