(* ===== verification/Reactor.thy ===== *)
theory Reactor
  imports Commands Aof Connection Itc
begin

text \<open>
  \<open>src/main.cpp\<close>, \<open>run_reactor\<close>: one event loop. \<open>io_uring\<close> is used through its submission
  queue: \<open>sq\<close> are the entries prepared since the last \<open>io_uring_submit\<close>, \<open>in_kernel\<close> the
  operations submitted and not completed; \<open>io_uring_get_sqe\<close> returns an entry when
  \<open>sq_room\<close> of the number already prepared holds, and preparing a null entry is undefined.
  A send carries the bytes its buffer holds when it is prepared. \<open>closed\<close> records the
  descriptors closed. The entry of the loop, the drain of the inbox, the flush and the
  handler of each completion are one definition each, in the order of the source.
\<close>

section \<open>State\<close>

datatype io_op =
    Accept_op int
  | Read_event int
  | Read_conn int
  | Send_op int bytes
  | Write_aof int bytes

record sqe =
  sqe_op :: io_op
  sqe_data :: nat

record reactor =
  r_id :: int
  r_engine :: engine
  r_pool :: conn_pool
  fd_to_conn :: "int \<rightharpoonup> nat"
  thread_socket :: int
  itc_conn :: "nat option"
  aof_conn :: "nat option"
  sq :: "sqe list"
  in_kernel :: "sqe list"
  closed :: "int list"

text \<open>What surrounds the reactors: their threads, the allocator and the ring.\<close>

record config =
  g_num_reactors :: nat
  thread_of :: "int \<Rightarrow> thread_id"
  inbox_malloc :: "nat \<Rightarrow> malloc_ok"
  sq_room :: "nat \<Rightarrow> bool"

definition conn_at :: "nat \<Rightarrow> reactor \<Rightarrow> connection" where
  "conn_at i r = conns (r_pool r) ! i"

definition on_conn :: "nat \<Rightarrow> (connection \<Rightarrow> connection) \<Rightarrow> reactor \<Rightarrow> reactor" where
  "on_conn i f r = r\<lparr>r_pool := upd_conn i f (r_pool r)\<rparr>"

section \<open>Submitting\<close>

definition submit_op :: "config \<Rightarrow> io_op \<Rightarrow> nat \<Rightarrow> reactor \<Rightarrow> ub + reactor" where
  "submit_op cfg op i r =
     (if sq_room cfg (length (sq r)) then Inr (r\<lparr>sq := sq r @ [\<lparr>sqe_op = op, sqe_data = i\<rparr>]\<rparr>)
      else Inl Null_sqe)"

definition submit_accept :: "config \<Rightarrow> reactor \<Rightarrow> ub + reactor" where
  "submit_accept cfg r =
     (case acquire (r_pool r) of
        (None, _) \<Rightarrow> Inr r
      | (Some i, p) \<Rightarrow>
          submit_op cfg (Accept_op (thread_socket r)) i
            (on_conn i (\<lambda>c. c\<lparr>fd := thread_socket r, conn_type := ACCEPT\<rparr>) (r\<lparr>r_pool := p\<rparr>)))"

definition submit_itc_read :: "config \<Rightarrow> reactor \<Rightarrow> ub + reactor" where
  "submit_itc_read cfg r =
     (case itc_conn r of
        None \<Rightarrow> Inr r
      | Some i \<Rightarrow> submit_op cfg (Read_event (fd (conn_at i r))) i r)"

definition submit_response :: "config \<Rightarrow> nat \<Rightarrow> reactor \<Rightarrow> ub + reactor" where
  "submit_response cfg i r =
     (let c = conn_at i r in
      if 0 < pending_itc c then Inr (on_conn i (\<lambda>c. c\<lparr>suspended := True\<rparr>) r)
      else
        let c = (if pipeline_results c \<noteq> []
                 then c\<lparr>response_data := concat (pipeline_results c), pipeline_results := []\<rparr> else c) in
        if response_data c \<noteq> []
        then submit_op cfg (Send_op (fd c) (response_data c)) i (on_conn i (\<lambda>_. c\<lparr>conn_type := WRITE\<rparr>) r)
        else submit_op cfg (Read_conn (fd c)) i (on_conn i (\<lambda>_. c\<lparr>conn_type := READ\<rparr>) r))"

section \<open>Starting a reactor\<close>

text \<open>\<open>sock\<close> is the result of \<open>create_shared_socket\<close>; the function returns when it is negative.\<close>

definition start_reactor ::
  "config \<Rightarrow> int \<Rightarrow> (nat \<Rightarrow> u64) \<Rightarrow> bytes option \<Rightarrow> int \<Rightarrow> int \<Rightarrow> itc_context \<Rightarrow> ub + reactor option" where
  "start_reactor cfg rid clock file opened sock x =
     ub_bind (new_engine 512 rid (int (g_num_reactors cfg)) clock file opened) (\<lambda>e.
       if sock < 0 then Inr None
       else
         let r = \<lparr>r_id = rid, r_engine = e, r_pool = connection_pool MAX_CONN_PER_THREAD,
                  fd_to_conn = Map.empty, thread_socket = sock, itc_conn = None, aof_conn = None,
                  sq = [], in_kernel = [], closed = []\<rparr> in
         ub_bind (submit_accept cfg r) (\<lambda>r.
         let (ic, p) = acquire (r_pool r); r = r\<lparr>r_pool := p, itc_conn := ic\<rparr> in
         ub_bind (case ic of
             None \<Rightarrow> Inr r
           | Some i \<Rightarrow> ub_map (\<lambda>d. on_conn i (\<lambda>c. c\<lparr>fd := d, conn_type := ITC_EVENT\<rparr>) r) (get_event_fd rid x)) (\<lambda>r.
         ub_bind (submit_itc_read cfg r) (\<lambda>r.
         let (ac, p) = acquire (r_pool r); r = r\<lparr>r_pool := p, aof_conn := ac\<rparr> in
         case ac of
           None \<Rightarrow> Inr (Some r)
         | Some i \<Rightarrow> Inr (Some (on_conn i (\<lambda>c. c\<lparr>fd := aof_fd (r_engine r), conn_type := AOF_WRITE\<rparr>) r))))))"

section \<open>Phase 1: the inbox\<close>

definition shift_1ULL :: "int \<Rightarrow> ub + u64" where
  "shift_1ULL i = (if 0 \<le> i \<and> i < 64 then Inr (push_bit (nat i) 1) else Inl Wide_shift)"

text \<open>Pushing to an inbox and marking its reactor for the batched signal; the result of the
  push is not looked at.\<close>

definition push_and_mark ::
  "config \<Rightarrow> int \<Rightarrow> int \<Rightarrow> itc_message \<Rightarrow> itc_context \<times> u64 \<Rightarrow> ub + (itc_context \<times> u64)" where
  "push_and_mark cfg rid target msg s =
     ub_bind (itc_push (inbox_malloc cfg) (thread_of cfg rid) target msg (fst s)) (\<lambda>(_, x).
       ub_map (\<lambda>b. (x, snd s OR b)) (shift_1ULL target))"

definition reply_message :: "itc_message \<Rightarrow> int \<Rightarrow> itc_message \<Rightarrow> bool \<Rightarrow> itc_message" where
  "reply_message junk rid msg fnd =
     junk\<lparr>itc_type := RESP, sender_reactor := rid, conn_fd := conn_fd msg,
          pipeline_idx := pipeline_idx msg, found := fnd\<rparr>"

definition reply_text :: "itc_message \<Rightarrow> ub + bytes" where
  "reply_text msg =
     (if found msg then ub_map (\<lambda>val. if val = [] then resp_OK else bulk val) (get_value msg)
      else Inr resp_NIL)"

definition store_result :: "nat \<Rightarrow> itc_message \<Rightarrow> reactor \<Rightarrow> ub + reactor" where
  "store_result i msg r =
     (if pipeline_idx msg < int (length (pipeline_results (conn_at i r))) then
        ub_bind (reply_text msg) (\<lambda>s.
        ub_map (\<lambda>rs. on_conn i (\<lambda>c. c\<lparr>pipeline_results := rs\<rparr>) r)
          (vec_put (pipeline_results (conn_at i r)) (pipeline_idx msg) s))
      else Inr r)"

definition handle_resp :: "config \<Rightarrow> itc_message \<Rightarrow> reactor \<Rightarrow> ub + reactor" where
  "handle_resp cfg msg r =
     (case fd_to_conn r (conn_fd msg) of
        None \<Rightarrow> Inr r
      | Some i \<Rightarrow>
          ub_bind (store_result i msg r) (\<lambda>r.
          let r = on_conn i (\<lambda>c. c\<lparr>pending_itc := pending_itc c - 1\<rparr>) r in
          if pending_itc (conn_at i r) = 0 \<and> suspended (conn_at i r)
          then submit_response cfg i (on_conn i (\<lambda>c. c\<lparr>suspended := False\<rparr>) r)
          else Inr r))"

definition process_message ::
  "config \<Rightarrow> u64 \<Rightarrow> itc_message \<Rightarrow> itc_message \<Rightarrow> reactor \<times> itc_context \<times> u64 \<Rightarrow> ub + (reactor \<times> itc_context \<times> u64)" where
  "process_message cfg now junk msg s =
     (let r = fst s; rid = r_id r in
      case itc_type msg of
        GET_REQ \<Rightarrow>
          ub_bind (get_key msg) (\<lambda>key.
          ub_bind (engine_get now key (r_engine r)) (\<lambda>(result, e).
          let resp = reply_message junk rid msg (result \<noteq> None);
              resp = (case result of None \<Rightarrow> resp | Some v \<Rightarrow> set_value v resp) in
          ub_map (\<lambda>xm. (r\<lparr>r_engine := e\<rparr>, xm)) (push_and_mark cfg rid (sender_reactor msg) resp (snd s))))
      | SET_REQ \<Rightarrow>
          ub_bind (get_key msg) (\<lambda>key.
          ub_bind (get_value msg) (\<lambda>val.
          ub_bind (process_local_set now (r_engine r) key val (ttl_ms msg)) (\<lambda>(_, e).
          let e = append_aof_set key val e; resp = reply_message junk rid msg True in
          ub_map (\<lambda>xm. (r\<lparr>r_engine := e\<rparr>, xm)) (push_and_mark cfg rid (sender_reactor msg) resp (snd s)))))
      | RESP \<Rightarrow> ub_map (\<lambda>r. (r, snd s)) (handle_resp cfg msg r)
      | DEL_REQ \<Rightarrow> Inr s)"

text \<open>One round of the drain loop; \<open>False\<close> when the inbox was empty.\<close>

definition drain_one ::
  "config \<Rightarrow> u64 \<Rightarrow> itc_message \<Rightarrow> reactor \<times> itc_context \<times> u64 \<Rightarrow> ub + (bool \<times> reactor \<times> itc_context \<times> u64)" where
  "drain_one cfg now junk s =
     ub_bind (itc_pop (r_id (fst s)) (fst (snd s))) (\<lambda>(m, x).
       case m of
         None \<Rightarrow> Inr (False, fst s, x, snd (snd s))
       | Some msg \<Rightarrow> ub_map (\<lambda>s. (True, s)) (process_message cfg now junk msg (fst s, x, snd (snd s))))"

fun signal_marked :: "u64 \<Rightarrow> nat list \<Rightarrow> itc_context \<Rightarrow> ub + itc_context" where
  "signal_marked marks [] x = Inr x"
| "signal_marked marks (j # js) x =
     ub_bind (shift_1ULL (int j)) (\<lambda>b.
       if marks AND b \<noteq> 0 then ub_bind (itc_signal (int j) x) (\<lambda>(_, x). signal_marked marks js x)
       else signal_marked marks js x)"

section \<open>Phase 2: flush and submit\<close>

definition flush_aof :: "config \<Rightarrow> reactor \<Rightarrow> reactor" where
  "flush_aof cfg r =
     (let e = r_engine r in
      case aof_conn r of
        None \<Rightarrow> r
      | Some a \<Rightarrow>
          if \<not> aof_in_flight e \<and> aof_active e \<noteq> [] then
            if sq_room cfg (length (sq r)) then
              let e = e\<lparr>aof_active := aof_flush e, aof_flush := aof_active e, aof_in_flight := True\<rparr> in
              r\<lparr>r_engine := e,
                sq := sq r @ [\<lparr>sqe_op = Write_aof (aof_fd e) (aof_flush e), sqe_data = a\<rparr>]\<rparr>
            else r
          else r)"

definition ring_submit :: "reactor \<Rightarrow> reactor" where
  "ring_submit r = r\<lparr>in_kernel := in_kernel r @ sq r, sq := []\<rparr>"

definition finish_drain :: "config \<Rightarrow> reactor \<times> itc_context \<times> u64 \<Rightarrow> ub + (reactor \<times> itc_context)" where
  "finish_drain cfg s =
     ub_map (\<lambda>x. (ring_submit (flush_aof cfg (fst s)), x))
       (signal_marked (snd (snd s)) [0..<g_num_reactors cfg] (fst (snd s)))"

section \<open>Phase 3: pipelined commands\<close>

definition push_result :: "nat \<Rightarrow> bytes \<Rightarrow> reactor \<Rightarrow> reactor" where
  "push_result i s = on_conn i (\<lambda>c. c\<lparr>pipeline_results := pipeline_results c @ [s]\<rparr>)"

text \<open>Forwarding a request to the reactor that owns its key, with an empty placeholder for the
  result.\<close>

definition forward ::
  "config \<Rightarrow> nat \<Rightarrow> int \<Rightarrow> itc_message \<Rightarrow> reactor \<times> itc_context \<times> u64 \<Rightarrow> ub + (reactor \<times> itc_context \<times> u64)" where
  "forward cfg i owner msg s =
     ub_map (\<lambda>xm. (push_result i [] (on_conn i (\<lambda>c. c\<lparr>pending_itc := pending_itc c + 1\<rparr>) (fst s)), xm))
       (push_and_mark cfg (r_id (fst s)) owner msg (snd s))"

definition request_message :: "itc_message \<Rightarrow> itc_type \<Rightarrow> int \<Rightarrow> int \<Rightarrow> nat \<Rightarrow> itc_message" where
  "request_message junk t rid descr cmd_idx =
     junk\<lparr>itc_type := t, sender_reactor := rid, conn_fd := descr, pipeline_idx := int cmd_idx\<rparr>"

definition run_set ::
  "config \<Rightarrow> u64 \<Rightarrow> itc_message \<Rightarrow> nat \<Rightarrow> nat \<Rightarrow> int \<Rightarrow> command \<Rightarrow> reactor \<times> itc_context \<times> u64 \<Rightarrow> ub + (reactor \<times> itc_context \<times> u64)" where
  "run_set cfg now junk i cmd_idx owner c s =
     (let r = fst s; key = cmd_args c ! 0; val = cmd_args c ! 1; ttl = parse_ttl c in
      if owner = r_id r then
        ub_map (\<lambda>e. (push_result i resp_OK (r\<lparr>r_engine := append_aof_set key val e\<rparr>), snd s))
          (engine_set now key val ttl (r_engine r))
      else
        forward cfg i owner
          ((set_value val (set_key key (request_message junk SET_REQ (r_id r) (fd (conn_at i r)) cmd_idx)))\<lparr>ttl_ms := ttl\<rparr>) s)"

definition run_get ::
  "config \<Rightarrow> u64 \<Rightarrow> itc_message \<Rightarrow> nat \<Rightarrow> nat \<Rightarrow> int \<Rightarrow> command \<Rightarrow> reactor \<times> itc_context \<times> u64 \<Rightarrow> ub + (reactor \<times> itc_context \<times> u64)" where
  "run_get cfg now junk i cmd_idx owner c s =
     (let r = fst s; key = cmd_args c ! 0 in
      if owner = r_id r then
        ub_map (\<lambda>(val, e). (push_result i (case val of Some v \<Rightarrow> bulk v | None \<Rightarrow> resp_NIL) (r\<lparr>r_engine := e\<rparr>), snd s))
          (engine_get now key (r_engine r))
      else forward cfg i owner (set_key key (request_message junk GET_REQ (r_id r) (fd (conn_at i r)) cmd_idx)) s)"

text \<open>One command. EXPIRE parses its argument and ignores it.\<close>

definition run_command ::
  "config \<Rightarrow> u64 \<Rightarrow> itc_message \<Rightarrow> nat \<Rightarrow> nat \<Rightarrow> command \<Rightarrow> reactor \<times> itc_context \<times> u64 \<Rightarrow> ub + (reactor \<times> itc_context \<times> u64)" where
  "run_command cfg now junk i cmd_idx c s =
     (let r = fst s;
          key = (if (cmd_type c = ''GET'' \<or> cmd_type c = ''SET'') \<and> cmd_args c \<noteq> [] then cmd_args c ! 0 else []) in
      ub_bind (if key = [] then Inr (r_id r) else fast_owner (r_engine r) key) (\<lambda>owner.
        if cmd_type c = ''SET'' \<and> 2 \<le> length (cmd_args c) then run_set cfg now junk i cmd_idx owner c s
        else if cmd_type c = ''GET'' \<and> cmd_args c \<noteq> [] then run_get cfg now junk i cmd_idx owner c s
        else
          let reply = (if cmd_type c = ''CONFIG'' then resp_EMPTY_ARRAY
                       else if cmd_type c = ''EXPIRE'' \<and> 2 \<le> length (cmd_args c) then '':1'' @ crlf
                       else if cmd_type c = ''PING'' then resp_PONG
                       else resp_ERR_UNKNOWN) in
          Inr (push_result i reply r, snd s)))"

text \<open>The loop over the bytes of one read; the clock and the stack contents are given for each
  command. The result counts the commands.\<close>

function run_commands ::
  "config \<Rightarrow> (nat \<Rightarrow> u64) \<Rightarrow> (nat \<Rightarrow> itc_message) \<Rightarrow> nat \<Rightarrow> bytes \<Rightarrow> nat \<Rightarrow> reactor \<times> itc_context \<times> u64 \<Rightarrow>
     ub + (nat \<times> reactor \<times> itc_context \<times> u64)" where
  "run_commands cfg clock junk i remaining cmd_idx s =
     (if remaining = [] then Inr (cmd_idx, s)
      else
        let p = parse remaining in
        if consumed p = 0 then Inr (cmd_idx, s)
        else
          ub_bind (run_command cfg (clock cmd_idx) (junk cmd_idx) i cmd_idx (cmd p) s)
            (run_commands cfg clock junk i (drop (consumed p) remaining) (cmd_idx + 1)))"
  by pat_completeness auto
termination
  by (relation "measure (\<lambda>(cfg, clock, junk, i, remaining, cmd_idx, s). length remaining)")
    (auto intro!: diff_less dest: parse_consumed_pos)

declare run_commands.simps [simp del]

section \<open>Completions\<close>

definition complete_aof :: "config \<Rightarrow> nat \<Rightarrow> int \<Rightarrow> reactor \<Rightarrow> reactor" where
  "complete_aof cfg i res r =
     (let e = r_engine r in
      if res < 0 then r\<lparr>r_engine := e\<lparr>aof_flush := [], aof_in_flight := False\<rparr>\<rparr>
      else if nat res < length (aof_flush e) then
        let e = e\<lparr>aof_flush := drop (nat res) (aof_flush e)\<rparr> in
        if sq_room cfg (length (sq r))
        then r\<lparr>r_engine := e,
               sq := sq r @ [\<lparr>sqe_op = Write_aof (aof_fd e) (aof_flush e), sqe_data = i\<rparr>]\<rparr>
        else r\<lparr>r_engine := e\<lparr>aof_in_flight := False\<rparr>\<rparr>
      else r\<lparr>r_engine := e\<lparr>aof_flush := [], aof_in_flight := False\<rparr>\<rparr>)"

definition close_conn :: "nat \<Rightarrow> reactor \<Rightarrow> reactor" where
  "close_conn i r =
     r\<lparr>fd_to_conn := (fd_to_conn r)(fd (conn_at i r) := None), closed := fd (conn_at i r) # closed r,
       r_pool := release i (r_pool r)\<rparr>"

definition complete_accept :: "config \<Rightarrow> int \<Rightarrow> reactor \<Rightarrow> ub + reactor" where
  "complete_accept cfg res r =
     ub_bind
       (case acquire (r_pool r) of
          (None, _) \<Rightarrow> Inr (r\<lparr>closed := res # closed r\<rparr>)
        | (Some i, p) \<Rightarrow>
            submit_op cfg (Read_conn res) i
              (on_conn i (\<lambda>c. c\<lparr>fd := res, conn_type := READ, owner_reactor := r_id r\<rparr>)
                (r\<lparr>r_pool := p, fd_to_conn := (fd_to_conn r)(res \<mapsto> i)\<rparr>)))
       (submit_accept cfg)"

text \<open>A completed read of \<open>bs\<close> (not empty) from a client.\<close>

definition complete_read ::
  "config \<Rightarrow> (nat \<Rightarrow> u64) \<Rightarrow> (nat \<Rightarrow> itc_message) \<Rightarrow> nat \<Rightarrow> bytes \<Rightarrow> reactor \<times> itc_context \<Rightarrow> ub + (reactor \<times> itc_context)" where
  "complete_read cfg clock junk i bs s =
     (let r = on_conn i (\<lambda>c. c\<lparr>buffer := bs, response_data := [], pipeline_results := [], pending_itc := 0\<rparr>) (fst s) in
      ub_bind (run_commands cfg clock junk i bs 0 (r, snd s, 0)) (\<lambda>(cmd_idx, r, x, marks).
      let r = on_conn i (\<lambda>c. c\<lparr>expected_results := int cmd_idx\<rparr>) r in
      ub_bind (signal_marked marks [0..<g_num_reactors cfg] x) (\<lambda>x.
      ub_map (\<lambda>r. (r, x)) (submit_response cfg i r))))"

definition complete_write :: "config \<Rightarrow> nat \<Rightarrow> reactor \<Rightarrow> ub + reactor" where
  "complete_write cfg i r =
     submit_op cfg (Read_conn (fd (conn_at i r))) i
       (on_conn i (\<lambda>c. c\<lparr>conn_type := READ, response_data := []\<rparr>) r)"

text \<open>
  Dispatch on the completion of the operation whose user data is connection \<open>i\<close>: \<open>res\<close> is its
  result and \<open>bs\<close> the bytes a read put into the buffer.
\<close>

definition handle_completion ::
  "config \<Rightarrow> (nat \<Rightarrow> u64) \<Rightarrow> (nat \<Rightarrow> itc_message) \<Rightarrow> nat \<Rightarrow> int \<Rightarrow> bytes \<Rightarrow> reactor \<times> itc_context \<Rightarrow> ub + (reactor \<times> itc_context)" where
  "handle_completion cfg clock junk i res bs s =
     (let r = fst s; x = snd s in
      if conn_type (conn_at i r) = AOF_WRITE then Inr (complete_aof cfg i res r, x)
      else if res < 0 then
        Inr (if conn_type (conn_at i r) \<noteq> ACCEPT then close_conn i r else r, x)
      else
        case conn_type (conn_at i r) of
          ACCEPT \<Rightarrow> ub_map (\<lambda>r. (r, x)) (complete_accept cfg res r)
        | READ \<Rightarrow> if res = 0 then Inr (close_conn i r, x) else complete_read cfg clock junk i bs s
        | WRITE \<Rightarrow> ub_map (\<lambda>r. (r, x)) (complete_write cfg i r)
        | ITC_EVENT \<Rightarrow> ub_map (\<lambda>r. (r, x)) (submit_itc_read cfg r)
        | AOF_WRITE \<Rightarrow> Inr s)"

end
