(* ===== verification/Reactor_Inv.thy ===== *)
theory Reactor_Inv
  imports Reactor
begin

text \<open>
  The invariant of one reactor. \<open>outcome m P\<close> says that \<open>m\<close> is either a value satisfying \<open>P\<close> or
  one of the undefined behaviours a client can provoke by the contents of its requests; a
  null submission entry, a failure of the queue or a division by zero are not among them.
  The invariant ties each connection to the operation it waits for, and the count
  \<open>pending_itc\<close> to the placeholders among its results.
\<close>

section \<open>Outcomes\<close>

definition outcome :: "ub + 'a \<Rightarrow> ('a \<Rightarrow> bool) \<Rightarrow> bool" where
  "outcome m P \<longleftrightarrow> (case m of Inl u \<Rightarrow> u \<in> {Bad_index, Bad_view, Wide_shift} | Inr x \<Rightarrow> P x)"

lemma outcome_simps [simp]:
  "outcome (Inr x) P = P x"
  "outcome (Inl u) P = (u \<in> {Bad_index, Bad_view, Wide_shift})"
  by (simp_all add: outcome_def)

lemma outcome_bind:
  "outcome m P \<Longrightarrow> (\<And>x. P x \<Longrightarrow> outcome (f x) Q) \<Longrightarrow> outcome (ub_bind m f) Q"
  by (cases m) auto

lemma outcome_map: "outcome m (\<lambda>x. Q (f x)) \<Longrightarrow> outcome (ub_map f m) Q"
  by (cases m) auto

lemma outcome_weaken: "outcome m P \<Longrightarrow> (\<And>x. P x \<Longrightarrow> Q x) \<Longrightarrow> outcome m Q"
  by (cases m) auto

lemma outcome_Inr: "outcome m P \<Longrightarrow> m = Inr x \<Longrightarrow> P x"
  by simp

lemma outcome_vec_at: "outcome (vec_at v i) (\<lambda>x. 0 \<le> i \<and> i < int (length v) \<and> x = v ! nat i)"
  by (simp add: vec_at_def)

lemma outcome_vec_put: "outcome (vec_put v i x) (\<lambda>v'. 0 \<le> i \<and> i < int (length v) \<and> v' = v[nat i := x])"
  by (simp add: vec_put_def)

lemma outcome_shift: "outcome (shift_1ULL i) (\<lambda>_. True)"
  by (simp add: shift_1ULL_def)

lemma outcome_get_key: "outcome (get_key m) (\<lambda>_. True)"
  by (simp add: get_key_def)

lemma outcome_get_value: "outcome (get_value m) (\<lambda>_. True)"
  by (simp add: get_value_def)

section \<open>Connections and their operations\<close>

definition ops :: "reactor \<Rightarrow> sqe list" where
  "ops r = sq r @ in_kernel r"

definition op_slots :: "reactor \<Rightarrow> nat set" where
  "op_slots r = sqe_data ` set (ops r)"

definition op_matches :: "reactor \<Rightarrow> sqe \<Rightarrow> bool" where
  "op_matches r op \<longleftrightarrow>
     (let i = sqe_data op; c = conn_at i r; e = r_engine r in
      i \<in> held (r_pool r) \<and>
      (case sqe_op op of
         Accept_op d \<Rightarrow> conn_type c = ACCEPT
       | Read_event d \<Rightarrow> itc_conn r = Some i
       | Read_conn d \<Rightarrow> conn_type c = READ \<and> fd_to_conn r d = Some i
       | Send_op d b \<Rightarrow> conn_type c = WRITE \<and> fd_to_conn r d = Some i \<and> response_data c = b
       | Write_aof d b \<Rightarrow> aof_conn r = Some i \<and> b = aof_flush e \<and> aof_in_flight e))"

text \<open>
  A client connection waits for its one operation, or is suspended and waits for other
  reactors, unless it is in \<open>X\<close>: those are being handled.
\<close>

definition client_ok :: "reactor \<Rightarrow> nat set \<Rightarrow> int \<Rightarrow> nat \<Rightarrow> bool" where
  "client_ok r X d i \<longleftrightarrow>
     (let c = conn_at i r in
      i \<in> held (r_pool r) \<and> fd c = d \<and> conn_type c \<in> {READ, WRITE} \<and>
      pending_itc c = int (count_list (pipeline_results c) []) \<and>
      (if i \<in> X then \<not> suspended c \<and> i \<notin> op_slots r
       else if suspended c then 0 < pending_itc c \<and> i \<notin> op_slots r
       else pending_itc c = 0 \<and> i \<in> op_slots r))"

definition local_inv :: "reactor \<Rightarrow> nat set \<Rightarrow> bool" where
  "local_inv r X \<longleftrightarrow>
     conn_pool_ok (r_pool r) \<and> length (conns (r_pool r)) = MAX_CONN_PER_THREAD \<and>
     distinct (map sqe_data (ops r)) \<and> (\<forall>op \<in> set (ops r). op_matches r op) \<and>
     (\<forall>d i. fd_to_conn r d = Some i \<longrightarrow> client_ok r X d i) \<and>
     (\<forall>i. itc_conn r = Some i \<longrightarrow> i \<in> held (r_pool r) \<and> conn_type (conn_at i r) = ITC_EVENT) \<and>
     (\<forall>i. aof_conn r = Some i \<longrightarrow> i \<in> held (r_pool r) \<and> conn_type (conn_at i r) = AOF_WRITE \<and>
        (i \<in> op_slots r \<longrightarrow> aof_in_flight (r_engine r)))"

lemma op_matches_cong:
  assumes "conn_at (sqe_data op) r' = conn_at (sqe_data op) r" "held (r_pool r') = held (r_pool r)"
    "fd_to_conn r' = fd_to_conn r" "itc_conn r' = itc_conn r" "aof_conn r' = aof_conn r"
    "aof_flush (r_engine r') = aof_flush (r_engine r)" "aof_in_flight (r_engine r') = aof_in_flight (r_engine r)"
  shows "op_matches r' op = op_matches r op"
  using assms by (simp add: op_matches_def Let_def split: io_op.split)

lemma client_ok_cong:
  assumes "conn_at i r' = conn_at i r" "i \<in> held (r_pool r') \<longleftrightarrow> i \<in> held (r_pool r)"
    "i \<in> op_slots r' \<longleftrightarrow> i \<in> op_slots r" "i \<in> Y \<longleftrightarrow> i \<in> X"
  shows "client_ok r' Y d i = client_ok r X d i"
  using assms by (simp add: client_ok_def)

lemma held_less: "local_inv r X \<Longrightarrow> i \<in> held (r_pool r) \<Longrightarrow> i < length (conns (r_pool r))"
  by (auto simp: held_def)

lemma local_inv_cong:
  assumes "r_pool r' = r_pool r" "fd_to_conn r' = fd_to_conn r" "itc_conn r' = itc_conn r" "aof_conn r' = aof_conn r"
    "set (ops r') = set (ops r)" "distinct (map sqe_data (ops r')) = distinct (map sqe_data (ops r))"
    "aof_flush (r_engine r') = aof_flush (r_engine r)" "aof_in_flight (r_engine r') = aof_in_flight (r_engine r)"
  shows "local_inv r' X = local_inv r X"
proof -
  have at: "conn_at k r' = conn_at k r" for k using assms(1) by (simp add: conn_at_def)
  have slots: "op_slots r' = op_slots r" using assms(5) by (simp add: op_slots_def)
  have "op_matches r' op = op_matches r op" for op using assms by (intro op_matches_cong) (simp_all add: at)
  moreover have "client_ok r' X d i = client_ok r X d i" for d i
    using assms by (intro client_ok_cong) (simp_all add: at slots)
  ultimately show ?thesis unfolding local_inv_def using assms by (simp add: at slots)
qed

lemma client: "local_inv r X \<Longrightarrow> fd_to_conn r d = Some i \<Longrightarrow> client_ok r X d i"
  by (simp add: local_inv_def)

lemma client_inj:
  "local_inv r X \<Longrightarrow> fd_to_conn r d = Some i \<Longrightarrow> fd_to_conn r d' = Some i \<Longrightarrow> d = d'"
  using client [of r X d i] client [of r X d' i] by (simp add: client_ok_def Let_def)

text \<open>There is always room for the operation of a connection that has none.\<close>

definition room_ok :: "config \<Rightarrow> bool" where
  "room_ok cfg \<longleftrightarrow> (\<forall>n < QUEUE_DEPTH. sq_room cfg n)"

lemma op_slots_held: "local_inv r X \<Longrightarrow> op_slots r \<subseteq> held (r_pool r)"
  by (auto simp: local_inv_def op_slots_def op_matches_def Let_def)

lemma submit_room:
  assumes l: "local_inv r X" and i: "i \<in> held (r_pool r)" "i \<notin> op_slots r" and room: "room_ok cfg"
  shows "sq_room cfg (length (sq r))"
proof -
  have "op_slots r \<subset> {..<MAX_CONN_PER_THREAD}"
    using op_slots_held [OF l] i held_less [OF l] l by (auto simp: local_inv_def held_def)
  then have "card (op_slots r) < MAX_CONN_PER_THREAD"
    using psubset_card_mono [of "{..<MAX_CONN_PER_THREAD}" "op_slots r"] by simp
  moreover have "card (op_slots r) = length (ops r)"
    using l distinct_card [of "map sqe_data (ops r)"] by (simp add: local_inv_def op_slots_def)
  ultimately show ?thesis
    using room by (simp add: room_ok_def ops_def QUEUE_DEPTH_def MAX_CONN_PER_THREAD_def)
qed

lemma on_conn_simps [simp, frame_simps]:
  "r_id (on_conn i f r) = r_id r" "r_engine (on_conn i f r) = r_engine r"
  "fd_to_conn (on_conn i f r) = fd_to_conn r" "thread_socket (on_conn i f r) = thread_socket r"
  "itc_conn (on_conn i f r) = itc_conn r" "aof_conn (on_conn i f r) = aof_conn r"
  "sq (on_conn i f r) = sq r" "in_kernel (on_conn i f r) = in_kernel r" "closed (on_conn i f r) = closed r"
  "held (r_pool (on_conn i f r)) = held (r_pool r)" "ops (on_conn i f r) = ops r" "op_slots (on_conn i f r) = op_slots r"
  "length (conns (r_pool (on_conn i f r))) = length (conns (r_pool r))"
  by (simp_all add: on_conn_def ops_def op_slots_def)

lemma conn_at_on_conn:
  "i < length (conns (r_pool r)) \<Longrightarrow> conn_at j (on_conn i f r) = (if j = i then f (conn_at i r) else conn_at j r)"
  by (simp add: conn_at_def on_conn_def)

lemma conn_pool_ok_on_conn:
  "conn_pool_ok (r_pool r) \<Longrightarrow> i \<in> held (r_pool r) \<Longrightarrow> conn_pool_ok (r_pool (on_conn i f r))"
  by (simp add: on_conn_def upd_conn_pool_ok)

text \<open>Changing a client that has no operation.\<close>

lemma local_inv_on_client:
  assumes l: "local_inv r X" and i: "fd_to_conn r d = Some i" "i \<notin> op_slots r"
    and c: "client_ok (on_conn i f r) Y d i" and XY: "X - {i} = Y - {i}"
  shows "local_inv (on_conn i f r) Y"
proof -
  have held: "i \<in> held (r_pool r)" using client [OF l i(1)] by (simp add: client_ok_def Let_def)
  then have less: "i < length (conns (r_pool r))" by (rule held_less [OF l])
  note at = conn_at_on_conn [OF less]
  have ty: "conn_type (conn_at i r) \<in> {READ, WRITE}" using client [OF l i(1)] by (simp add: client_ok_def Let_def)
  have "op_matches (on_conn i f r) op" if "op \<in> set (ops r)" for op
  proof -
    have "sqe_data op \<noteq> i" using that i(2) by (auto simp: op_slots_def)
    moreover have "op_matches r op" using l that by (simp add: local_inv_def)
    ultimately show ?thesis by (subst op_matches_cong [of op _ r]) (simp_all add: at)
  qed
  moreover have "client_ok (on_conn i f r) Y d' i'" if "fd_to_conn r d' = Some i'" for d' i'
  proof (cases "i' = i")
    case True
    with c client_inj [OF l i(1)] that show ?thesis by simp
  next
    case False
    then have "i' \<in> X \<longleftrightarrow> i' \<in> Y" using XY by auto
    with client [OF l that] False show ?thesis by (subst client_ok_cong [of i' _ r _ X]) (simp_all add: at)
  qed
  moreover have "i' \<noteq> i" if "itc_conn r = Some i' \<or> aof_conn r = Some i'" for i'
    using l ty that by (auto simp: local_inv_def)
  ultimately show ?thesis
    using l held by (auto simp: local_inv_def conn_pool_ok_on_conn at)
qed

text \<open>Preparing an operation for a connection that has none.\<close>

lemma local_inv_submit:
  assumes l: "local_inv r X" and i: "i \<in> held (r_pool r)" "i \<notin> op_slots r" and room: "room_ok cfg"
    and m: "op_matches r \<lparr>sqe_op = op, sqe_data = i\<rparr>"
    and c: "\<And>d. fd_to_conn r d = Some i \<Longrightarrow> i \<in> X \<and> pending_itc (conn_at i r) = 0"
    and a: "aof_conn r = Some i \<Longrightarrow> aof_in_flight (r_engine r)"
  shows "\<exists>r'. submit_op cfg op i r = Inr r' \<and> r' = r\<lparr>sq := sq r @ [\<lparr>sqe_op = op, sqe_data = i\<rparr>]\<rparr> \<and>
    local_inv r' (X - {i})"
proof -
  let ?r = "r\<lparr>sq := sq r @ [\<lparr>sqe_op = op, sqe_data = i\<rparr>]\<rparr>"
  have slots: "op_slots ?r = insert i (op_slots r)" by (auto simp: op_slots_def ops_def)
  have at: "conn_at j ?r = conn_at j r" for j by (simp add: conn_at_def)
  have "op_matches ?r op'" if "op' \<in> set (ops ?r)" for op'
  proof -
    have "op_matches r op'" using that l m by (auto simp: local_inv_def ops_def)
    then show ?thesis by (subst op_matches_cong [of op' _ r]) (simp_all add: at)
  qed
  moreover have "distinct (map sqe_data (ops ?r))"
    using l i(2) by (auto simp: local_inv_def ops_def op_slots_def)
  moreover have "client_ok ?r (X - {i}) d j" if "fd_to_conn r d = Some j" for d j
  proof (cases "j = i")
    case True
    with client [OF l that] c [of d] that show ?thesis by (simp add: client_ok_def at slots Let_def)
  next
    case False
    with client [OF l that] show ?thesis by (subst client_ok_cong [of j _ r _ X]) (simp_all add: at slots)
  qed
  moreover have "j \<in> op_slots r \<longrightarrow> aof_in_flight (r_engine r)" if "aof_conn r = Some j" for j
    using l that by (simp add: local_inv_def)
  ultimately have "local_inv ?r (X - {i})"
    using l a unfolding local_inv_def by (auto simp: at slots)
  then show ?thesis using submit_room [OF l i room] by (simp add: submit_op_def)
qed

section \<open>The handlers of a client connection\<close>

text \<open>What a step on connection \<open>i\<close> leaves as it was.\<close>

definition client_frame :: "nat \<Rightarrow> reactor \<Rightarrow> reactor \<Rightarrow> bool" where
  "client_frame i r r' \<longleftrightarrow>
     r_id r' = r_id r \<and> r_engine r' = r_engine r \<and> fd_to_conn r' = fd_to_conn r \<and>
     thread_socket r' = thread_socket r \<and> itc_conn r' = itc_conn r \<and> aof_conn r' = aof_conn r \<and>
     (\<forall>k. k \<noteq> i \<longrightarrow> conn_at k r' = conn_at k r)"

lemma client_frame_refl [simp]: "client_frame i r r"
  by (simp add: client_frame_def)

lemma client_frame_trans: "client_frame i r r' \<Longrightarrow> client_frame i r' r'' \<Longrightarrow> client_frame i r r''"
  by (simp add: client_frame_def)

lemma client_frame_on_conn [simp]: "i < length (conns (r_pool r)) \<Longrightarrow> client_frame i r (on_conn i f r)"
  by (simp add: client_frame_def conn_at_on_conn)

lemma conn_at_sq [simp]: "conn_at k (r\<lparr>sq := q\<rparr>) = conn_at k r"
  by (simp add: conn_at_def)

lemma client_frame_sq [simp]: "client_frame i r (r'\<lparr>sq := q\<rparr>) = client_frame i r r'"
  by (simp add: client_frame_def)

definition responded :: "nat \<Rightarrow> reactor \<Rightarrow> reactor \<Rightarrow> bool" where
  "responded i r r' \<longleftrightarrow>
     client_frame i r r' \<and> pending_itc (conn_at i r') = pending_itc (conn_at i r) \<and>
     (0 < pending_itc (conn_at i r) \<longrightarrow> pipeline_results (conn_at i r') = pipeline_results (conn_at i r))"

lemma submit_response_ok:
  assumes l: "local_inv r X" and i: "fd_to_conn r d = Some i" "i \<in> X" and room: "room_ok cfg"
  shows "\<exists>r'. submit_response cfg i r = Inr r' \<and> local_inv r' (X - {i}) \<and> responded i r r'"
proof -
  let ?c = "conn_at i r"
  have c: "client_ok r X d i" by (rule client [OF l i(1)])
  then have c': "i \<in> held (r_pool r)" "fd ?c = d" "conn_type ?c \<in> {READ, WRITE}" "\<not> suspended ?c"
    "pending_itc ?c = int (count_list (pipeline_results ?c) [])" "i \<notin> op_slots r"
    using i(2) by (simp_all add: client_ok_def Let_def)
  have less: "i < length (conns (r_pool r))" by (rule held_less [OF l c'(1)])
  note at = conn_at_on_conn [OF less]
  show ?thesis
  proof (cases "0 < pending_itc ?c")
    case True
    let ?r = "on_conn i (\<lambda>c. c\<lparr>suspended := True\<rparr>) r"
    have "client_ok ?r (X - {i}) d i" using c' True by (simp add: client_ok_def at Let_def)
    then have "local_inv ?r (X - {i})" by (rule local_inv_on_client [OF l i(1) c'(6)]) simp
    with True less show ?thesis
      by (simp add: submit_response_def responded_def at Let_def)
  next
    case False
    with c'(5) have p: "pending_itc ?c = 0" by simp
    define c1 where "c1 = (if pipeline_results ?c \<noteq> []
      then ?c\<lparr>response_data := concat (pipeline_results ?c), pipeline_results := []\<rparr> else ?c)"
    have c1: "pipeline_results c1 = []" "pending_itc c1 = 0" "fd c1 = d" "\<not> suspended c1"
      using p c' by (auto simp: c1_def)
    have go: "\<exists>r'. submit_op cfg op i (on_conn i (\<lambda>_. c1\<lparr>conn_type := t\<rparr>) r) = Inr r' \<and>
        local_inv r' (X - {i}) \<and> responded i r r'"
      if op: "op = Read_conn d \<and> t = READ \<or> op = Send_op d (response_data c1) \<and> t = WRITE" for op t
    proof -
      let ?r = "on_conn i (\<lambda>_. c1\<lparr>conn_type := t\<rparr>) r"
      have "client_ok ?r X d i" using c' c1 i(2) op by (auto simp: client_ok_def at Let_def)
      then have l': "local_inv ?r X" by (rule local_inv_on_client [OF l i(1) c'(6)]) simp
      have m: "op_matches ?r \<lparr>sqe_op = op, sqe_data = i\<rparr>"
        using op c' i by (auto simp: op_matches_def at)
      have na: "aof_conn ?r \<noteq> Some i" using l' op by (auto simp: local_inv_def at)
      have "i \<in> held (r_pool ?r)" "i \<notin> op_slots ?r" using c' by simp_all
      from local_inv_submit [OF l' this room m] i c1 na obtain r' where
        "submit_op cfg op i ?r = Inr r'" "r' = ?r\<lparr>sq := sq ?r @ [\<lparr>sqe_op = op, sqe_data = i\<rparr>]\<rparr>" "local_inv r' (X - {i})"
        by (auto simp: at)
      then show ?thesis using less p c1 by (auto simp: responded_def at)
    qed
    have "submit_response cfg i r = (if response_data c1 \<noteq> []
      then submit_op cfg (Send_op d (response_data c1)) i (on_conn i (\<lambda>_. c1\<lparr>conn_type := WRITE\<rparr>) r)
      else submit_op cfg (Read_conn d) i (on_conn i (\<lambda>_. c1\<lparr>conn_type := READ\<rparr>) r))"
      using False c1(3) unfolding submit_response_def Let_def c1_def [symmetric] by simp
    with go show ?thesis by (cases "response_data c1 = []") auto
  qed
qed

text \<open>A completed operation leaves its connection without one.\<close>

definition take_completion :: "sqe \<Rightarrow> reactor \<Rightarrow> reactor" where
  "take_completion op r = r\<lparr>in_kernel := remove1 op (in_kernel r)\<rparr>"

lemma take_completion_simps [simp, frame_simps]:
  "r_id (take_completion op r) = r_id r" "r_engine (take_completion op r) = r_engine r"
  "r_pool (take_completion op r) = r_pool r" "fd_to_conn (take_completion op r) = fd_to_conn r"
  "thread_socket (take_completion op r) = thread_socket r" "itc_conn (take_completion op r) = itc_conn r"
  "aof_conn (take_completion op r) = aof_conn r" "sq (take_completion op r) = sq r"
  "conn_at k (take_completion op r) = conn_at k r"
  by (simp_all add: take_completion_def conn_at_def)

lemma op_slots_take:
  assumes l: "local_inv r X" and op: "op \<in> set (in_kernel r)"
  shows "op_slots (take_completion op r) = op_slots r - {sqe_data op}"
proof -
  have d: "distinct (map sqe_data (in_kernel r))" "sqe_data ` set (sq r) \<inter> sqe_data ` set (in_kernel r) = {}"
    using l by (auto simp: local_inv_def ops_def)
  then have "sqe_data ` set (remove1 op (in_kernel r)) = sqe_data ` set (in_kernel r) - {sqe_data op}"
    using op by (auto simp: distinct_map inj_on_def set_remove1_eq)
  with d(2) op show ?thesis by (auto simp: op_slots_def ops_def take_completion_def)
qed

lemma local_inv_take:
  assumes l: "local_inv r {}" and op: "op \<in> set (in_kernel r)"
  shows "local_inv (take_completion op r) {i. i = sqe_data op \<and> (\<exists>d. fd_to_conn r d = Some i)}"
proof -
  let ?r = "take_completion op r" and ?i = "sqe_data op"
  have slots: "op_slots ?r = op_slots r - {?i}" by (rule op_slots_take [OF l op])
  have sub: "set (ops ?r) \<subseteq> set (ops r)"
    using set_remove1_subset [of op "in_kernel r"] by (auto simp: ops_def take_completion_def)
  have "op_matches ?r op'" if "op' \<in> set (ops ?r)" for op'
  proof -
    have "op_matches r op'" using l sub that by (auto simp: local_inv_def)
    then show ?thesis by (subst op_matches_cong [of op' _ r]) simp_all
  qed
  moreover have "distinct (map sqe_data (ops ?r))"
    using l set_remove1_subset [of op "in_kernel r"]
    by (auto simp: local_inv_def ops_def take_completion_def distinct_map intro: inj_on_subset)
  moreover have "client_ok ?r {i. i = ?i \<and> (\<exists>d. fd_to_conn r d = Some i)} d j" if "fd_to_conn r d = Some j" for d j
  proof (cases "j = ?i")
    case True
    have "?i \<in> op_slots r" using op by (auto simp: op_slots_def ops_def)
    with client [OF l that] True that show ?thesis
      by (auto simp: client_ok_def slots Let_def split: if_splits)
  next
    case False
    with client [OF l that] show ?thesis
      by (subst client_ok_cong [of j _ r _ "{}"]) (simp_all add: slots)
  qed
  ultimately show ?thesis
    using l unfolding local_inv_def slots by simp
qed

lemma complete_write_ok:
  assumes l: "local_inv r X" and i: "fd_to_conn r d = Some i" "i \<in> X" and room: "room_ok cfg"
    and p: "pending_itc (conn_at i r) = 0"
  shows "\<exists>r'. complete_write cfg i r = Inr r' \<and> local_inv r' (X - {i}) \<and> responded i r r' \<and>
    pipeline_results (conn_at i r') = pipeline_results (conn_at i r)"
proof -
  have c: "client_ok r X d i" by (rule client [OF l i(1)])
  then have c': "i \<in> held (r_pool r)" "i \<notin> op_slots r" "fd (conn_at i r) = d"
    using i(2) by (simp_all add: client_ok_def Let_def)
  have less: "i < length (conns (r_pool r))" by (rule held_less [OF l c'(1)])
  note at = conn_at_on_conn [OF less]
  let ?r = "on_conn i (\<lambda>c. c\<lparr>conn_type := READ, response_data := []\<rparr>) r"
  have "client_ok ?r X d i" using c i(2) by (simp add: client_ok_def at Let_def)
  then have l': "local_inv ?r X" by (rule local_inv_on_client [OF l i(1) c'(2)]) simp
  have m: "op_matches ?r \<lparr>sqe_op = Read_conn d, sqe_data = i\<rparr>" using c' i by (simp add: op_matches_def at)
  have na: "aof_conn ?r = Some i \<Longrightarrow> aof_in_flight (r_engine ?r)" using l' by (auto simp: local_inv_def at)
  have h: "i \<in> held (r_pool ?r)" "i \<notin> op_slots ?r" using c' by simp_all
  have cl: "i \<in> X \<and> pending_itc (conn_at i ?r) = 0" using i p by (simp add: at)
  from local_inv_submit [OF l' h room m cl na] obtain r' where "submit_op cfg (Read_conn d) i ?r = Inr r'"
    "r' = ?r\<lparr>sq := sq ?r @ [\<lparr>sqe_op = Read_conn d, sqe_data = i\<rparr>]\<rparr>" "local_inv r' (X - {i})"
    by blast
  then show ?thesis using c'(3) less by (auto simp: complete_write_def responded_def at)
qed

lemma close_conn_ok:
  assumes l: "local_inv r X" and i: "fd_to_conn r d = Some i" "i \<in> X"
  shows "local_inv (close_conn i r) (X - {i}) \<and> fd_to_conn (close_conn i r) = (fd_to_conn r)(d := None) \<and>
    r_engine (close_conn i r) = r_engine r \<and> r_id (close_conn i r) = r_id r \<and>
    (\<forall>k. k \<noteq> i \<longrightarrow> conn_at k (close_conn i r) = conn_at k r)"
proof -
  let ?r = "close_conn i r"
  have c: "client_ok r X d i" by (rule client [OF l i(1)])
  then have c': "i \<in> held (r_pool r)" "i \<notin> op_slots r" "fd (conn_at i r) = d" "conn_type (conn_at i r) \<in> {READ, WRITE}"
    using i(2) by (simp_all add: client_ok_def Let_def)
  have pool: "conn_pool_ok (r_pool r)" using l by (simp add: local_inv_def)
  have rel: "conn_pool_ok (r_pool ?r)" "held (r_pool ?r) = held (r_pool r) - {i}"
    "length (conns (r_pool ?r)) = length (conns (r_pool r))"
    using release_ok [OF pool c'(1)] by (simp_all add: close_conn_def)
  have at: "conn_at k ?r = conn_at k r" if "k \<noteq> i" for k
    using release_ok [OF pool c'(1)] that by (simp add: close_conn_def conn_at_def)
  have f: "fd_to_conn ?r = (fd_to_conn r)(d := None)" "ops ?r = ops r" "op_slots ?r = op_slots r"
    "itc_conn ?r = itc_conn r" "aof_conn ?r = aof_conn r" "r_engine ?r = r_engine r" "r_id ?r = r_id r"
    using c'(3) by (simp_all add: close_conn_def ops_def op_slots_def)
  have "op_matches ?r op" if op: "op \<in> set (ops r)" for op
  proof -
    have ne: "sqe_data op \<noteq> i" using op c'(2) by (auto simp: op_slots_def)
    have m: "op_matches r op" using l op by (simp add: local_inv_def)
    have "fd_to_conn r e = Some (sqe_data op) \<Longrightarrow> e \<noteq> d" for e using ne i(1) by auto
    with m ne show ?thesis by (auto simp: op_matches_def f at rel Let_def split: io_op.splits)
  qed
  moreover have "client_ok ?r (X - {i}) e j" if "((fd_to_conn r)(d := None)) e = Some j" for e j
  proof -
    have e: "fd_to_conn r e = Some j" "e \<noteq> d" using that by (auto split: if_splits)
    then have "j \<noteq> i" using client_inj [OF l i(1)] by auto
    with client [OF l e(1)] show ?thesis
      by (subst client_ok_cong [of j _ r _ X]) (simp_all add: at f rel)
  qed
  moreover have "k \<noteq> i" if "itc_conn r = Some k \<or> aof_conn r = Some k" for k
    using l c'(4) that by (auto simp: local_inv_def)
  ultimately have "local_inv ?r (X - {i})"
    using l rel(1) by (auto simp: local_inv_def f at rel)
  with f at show ?thesis by simp
qed

section \<open>The other handlers\<close>

text \<open>A slot from the pool is not in use by anything.\<close>

lemma local_inv_acquire:
  assumes l: "local_inv r X" and a: "acquire (r_pool r) = (Some i, p)"
  shows "local_inv (on_conn i f (r\<lparr>r_pool := p\<rparr>)) X"
    "i \<in> held p" "i \<notin> op_slots r" "\<And>d. fd_to_conn r d \<noteq> Some i" "itc_conn r \<noteq> Some i" "aof_conn r \<noteq> Some i"
    "is_reset (conn_at i r)" "conn_at k (on_conn i f (r\<lparr>r_pool := p\<rparr>)) = (if k = i then f (conn_at i r) else conn_at k r)"
proof -
  have pool: "conn_pool_ok (r_pool r)" using l by (simp add: local_inv_def)
  have acq: "i \<notin> held (r_pool r)" "i < length (conns (r_pool r))" "is_reset (conns p ! i)"
    "held p = insert i (held (r_pool r))" "conns p = conns (r_pool r)" "conn_pool_ok p"
    using acquire_ok [OF pool] a by auto
  show "i \<in> held p" using acq by simp
  show nop: "i \<notin> op_slots r" using op_slots_held [OF l] acq(1) by blast
  show ncl: "fd_to_conn r d \<noteq> Some i" for d
    using client [OF l, of d i] acq(1) by (auto simp: client_ok_def Let_def)
  show nit: "itc_conn r \<noteq> Some i" "aof_conn r \<noteq> Some i" using l acq(1) by (auto simp: local_inv_def)
  show "is_reset (conn_at i r)" using acq by (simp add: conn_at_def)
  let ?r = "on_conn i f (r\<lparr>r_pool := p\<rparr>)"
  show at: "conn_at k ?r = (if k = i then f (conn_at i r) else conn_at k r)" for k
    using acq by (subst conn_at_on_conn) (simp_all add: conn_at_def)
  have "held (r_pool ?r) = insert i (held (r_pool r))" "ops ?r = ops r" "op_slots ?r = op_slots r"
    using acq by (simp_all add: ops_def op_slots_def)
  note f = this
  have "op_matches ?r op" if op: "op \<in> set (ops r)" for op
  proof -
    have "sqe_data op \<noteq> i" using op nop by (auto simp: op_slots_def)
    moreover have "op_matches r op" using l op by (simp add: local_inv_def)
    ultimately show ?thesis by (auto simp: op_matches_def acq(4) at Let_def split: io_op.splits)
  qed
  moreover have "client_ok ?r X d j" if "fd_to_conn r d = Some j" for d j
  proof -
    have "j \<noteq> i" using ncl that by auto
    with client [OF l that] show ?thesis
      by (subst client_ok_cong [of j _ r _ X]) (simp_all add: at acq(4) op_slots_def ops_def)
  qed
  moreover have "conn_pool_ok (r_pool ?r)" using acq by (intro conn_pool_ok_on_conn) simp_all
  moreover have "length (conns (r_pool ?r)) = length (conns (r_pool r))" using acq by simp
  moreover have "k \<in> held (r_pool ?r) \<and> conn_type (conn_at k ?r) = ITC_EVENT" if "itc_conn ?r = Some k" for k
  proof -
    have "k \<noteq> i" using that nit(1) by auto
    with l that show ?thesis by (simp add: local_inv_def at acq(4))
  qed
  moreover have "k \<in> held (r_pool ?r) \<and> conn_type (conn_at k ?r) = AOF_WRITE \<and>
      (k \<in> op_slots ?r \<longrightarrow> aof_in_flight (r_engine ?r))" if "aof_conn ?r = Some k" for k
  proof -
    have "k \<noteq> i" using that nit(2) by auto
    with l that show ?thesis by (simp add: local_inv_def at acq(4) op_slots_def ops_def)
  qed
  moreover have "distinct (map sqe_data (ops ?r))" using l f(2) by (simp add: local_inv_def)
  moreover have "length (conns (r_pool r)) = MAX_CONN_PER_THREAD" using l by (simp add: local_inv_def)
  ultimately show "local_inv ?r X"
    unfolding local_inv_def f(2) by simp
qed

definition same_clients :: "reactor \<Rightarrow> reactor \<Rightarrow> bool" where
  "same_clients r r' \<longleftrightarrow>
     r_id r' = r_id r \<and> (\<forall>d i. fd_to_conn r d = Some i \<longrightarrow> fd_to_conn r' d = Some i \<and>
       pending_itc (conn_at i r') = pending_itc (conn_at i r) \<and>
       pipeline_results (conn_at i r') = pipeline_results (conn_at i r))"

lemma same_clients_refl [simp]: "same_clients r r"
  by (simp add: same_clients_def)

lemma same_clients_trans: "same_clients r r' \<Longrightarrow> same_clients r' r'' \<Longrightarrow> same_clients r r''"
  unfolding same_clients_def by metis

lemma submit_accept_ok:
  assumes l: "local_inv r X" and room: "room_ok cfg"
  shows "\<exists>r'. submit_accept cfg r = Inr r' \<and> local_inv r' X \<and> same_clients r r' \<and>
    fd_to_conn r' = fd_to_conn r \<and> r_engine r' = r_engine r"
proof (cases "acquire (r_pool r)")
  case (Pair oi p)
  show ?thesis
  proof (cases oi)
    case None
    with Pair l show ?thesis by (simp add: submit_accept_def)
  next
    case (Some i)
    let ?f = "\<lambda>c. c\<lparr>fd := thread_socket r, conn_type := ACCEPT\<rparr>"
    let ?r = "on_conn i ?f (r\<lparr>r_pool := p\<rparr>)"
    have a: "acquire (r_pool r) = (Some i, p)" using Pair Some by simp
    note acq = local_inv_acquire [OF l a]
    have "op_matches ?r \<lparr>sqe_op = Accept_op (thread_socket r), sqe_data = i\<rparr>"
      using acq(2) acq(8) [of i ?f] by (simp add: op_matches_def)
    moreover have "i \<in> held (r_pool ?r)" "i \<notin> op_slots ?r"
      using acq(2,3) by (simp_all add: op_slots_def ops_def)
    ultimately obtain r' where r': "submit_op cfg (Accept_op (thread_socket r)) i ?r = Inr r'"
      "r' = ?r\<lparr>sq := sq ?r @ [\<lparr>sqe_op = Accept_op (thread_socket r), sqe_data = i\<rparr>]\<rparr>" "local_inv r' (X - {i})"
      using local_inv_submit [OF acq(1) _ _ room, of i ?f "Accept_op (thread_socket r)"] acq(4,6) by auto
    have "local_inv r' X"
    proof -
      have "client_ok r' X d j" if "fd_to_conn r' d = Some j" for d j
      proof -
        have "j \<noteq> i" using that acq(4) [of d] r'(2) by auto
        with client [OF r'(3) that] show ?thesis by (subst client_ok_cong [of j _ r' _ "X - {i}"]) simp_all
      qed
      with r'(3) show ?thesis by (auto simp: local_inv_def)
    qed
    moreover have "same_clients r r'"
      using r'(2) acq(4) acq(8) [of _ ?f] by (auto simp: same_clients_def)
    ultimately show ?thesis using r' a by (simp add: submit_accept_def)
  qed
qed

lemma local_inv_add_client:
  assumes l: "local_inv r X" and i: "i \<in> held (r_pool r)" "i \<notin> op_slots r" "\<And>d. fd_to_conn r d \<noteq> Some i"
    and new: "fd_to_conn r d = None"
    and c: "fd (conn_at i r) = d" "conn_type (conn_at i r) = READ" "\<not> suspended (conn_at i r)"
      "pending_itc (conn_at i r) = 0" "pipeline_results (conn_at i r) = []"
  shows "local_inv (r\<lparr>fd_to_conn := (fd_to_conn r)(d \<mapsto> i)\<rparr>) (insert i X)"
proof -
  let ?r = "r\<lparr>fd_to_conn := (fd_to_conn r)(d \<mapsto> i)\<rparr>"
  have at: "conn_at k ?r = conn_at k r" "ops ?r = ops r" "op_slots ?r = op_slots r" for k
    by (simp_all add: conn_at_def ops_def op_slots_def)
  have "op_matches ?r op" if "op \<in> set (ops r)" for op
  proof -
    have "op_matches r op" using l that by (simp add: local_inv_def)
    then show ?thesis using new by (auto simp: op_matches_def at Let_def split: io_op.splits)
  qed
  moreover have "client_ok ?r (insert i X) e j" if "((fd_to_conn r)(d \<mapsto> i)) e = Some j" for e j
  proof (cases "e = d")
    case True
    have "client_ok ?r (insert i X) d i" using c i by (simp add: client_ok_def at Let_def)
    with True that show ?thesis by simp
  next
    case False
    with that have e: "fd_to_conn r e = Some j" by simp
    then have "j \<noteq> i" using i(3) [of e] by auto
    with client [OF l e] show ?thesis by (subst client_ok_cong [of j _ r _ X]) (simp_all add: at)
  qed
  ultimately show ?thesis using l by (simp add: local_inv_def at)
qed

lemma complete_accept_ok:
  assumes l: "local_inv r {}" and room: "room_ok cfg" and new: "fd_to_conn r res = None"
  shows "\<exists>r'. complete_accept cfg res r = Inr r' \<and> local_inv r' {} \<and> same_clients r r' \<and>
    (\<forall>d i. fd_to_conn r' d = Some i \<longrightarrow> fd_to_conn r d = Some i \<or> d = res \<and> pending_itc (conn_at i r') = 0) \<and>
    r_engine r' = r_engine r"
proof (cases "acquire (r_pool r)")
  case (Pair oi p)
  have fin: "\<exists>r'. submit_accept cfg r1 = Inr r' \<and> local_inv r' {} \<and> same_clients r1 r' \<and>
      fd_to_conn r' = fd_to_conn r1 \<and> r_engine r' = r_engine r1" if "local_inv r1 {}" for r1
    by (rule submit_accept_ok [OF that room])
  show ?thesis
  proof (cases oi)
    case None
    let ?r = "r\<lparr>closed := res # closed r\<rparr>"
    have "local_inv ?r {}"
      using l by (subst local_inv_cong [of _ r]) (simp_all add: ops_def)
    from fin [OF this] Pair None show ?thesis
      by (auto simp: complete_accept_def same_clients_def conn_at_def)
  next
    case (Some i)
    let ?f = "\<lambda>c. c\<lparr>fd := res, conn_type := READ, owner_reactor := r_id r\<rparr>"
    let ?r1 = "on_conn i ?f (r\<lparr>r_pool := p\<rparr>)"
    let ?r2 = "?r1\<lparr>fd_to_conn := (fd_to_conn r)(res \<mapsto> i)\<rparr>"
    have a: "acquire (r_pool r) = (Some i, p)" using Pair Some by simp
    note acq = local_inv_acquire [OF l a]
    note at = acq(8) [of _ ?f]
    have i1: "i \<in> held (r_pool ?r1)" "i \<notin> op_slots ?r1" "\<And>d. fd_to_conn ?r1 d \<noteq> Some i"
      using acq(2-4) by (simp_all add: op_slots_def ops_def)
    have "local_inv (?r1\<lparr>fd_to_conn := (fd_to_conn ?r1)(res \<mapsto> i)\<rparr>) (insert i {})"
      by (rule local_inv_add_client [OF acq(1) i1]) (use new is_reset_fields [OF acq(7)] in \<open>simp_all add: at\<close>)
    then have l2: "local_inv ?r2 {i}" by simp
    have at2: "conn_at k ?r2 = (if k = i then ?f (conn_at i r) else conn_at k r)" for k
      using at by (simp add: conn_at_def)
    have m: "op_matches ?r2 \<lparr>sqe_op = Read_conn res, sqe_data = i\<rparr>"
      using acq(2) by (simp add: op_matches_def at2)
    have h: "i \<in> held (r_pool ?r2)" "i \<notin> op_slots ?r2" using i1 by (simp_all add: op_slots_def ops_def)
    have cl: "i \<in> {i} \<and> pending_itc (conn_at i ?r2) = 0" using is_reset_fields [OF acq(7)] by (simp add: at2)
    have na: "aof_conn ?r2 = Some i \<Longrightarrow> aof_in_flight (r_engine ?r2)" using acq(6) by simp
    from local_inv_submit [OF l2 h room m cl na] obtain r3 where r3: "submit_op cfg (Read_conn res) i ?r2 = Inr r3"
      "r3 = ?r2\<lparr>sq := sq ?r2 @ [\<lparr>sqe_op = Read_conn res, sqe_data = i\<rparr>]\<rparr>" "local_inv r3 {}" by auto
    from fin [OF r3(3)] obtain r4 where r4: "submit_accept cfg r3 = Inr r4" "local_inv r4 {}" "same_clients r3 r4"
      "fd_to_conn r4 = fd_to_conn r3" "r_engine r4 = r_engine r3" by blast
    have sc: "same_clients r r3"
    proof -
      have "k \<noteq> i \<and> d \<noteq> res" if "fd_to_conn r d = Some k" for d k using acq(4) [of d] that new by auto
      then show ?thesis using r3(2) at2 by (auto simp: same_clients_def)
    qed
    have r2: "on_conn i ?f (r\<lparr>r_pool := p, fd_to_conn := (fd_to_conn r)(res \<mapsto> i)\<rparr>) = ?r2"
      by (simp add: on_conn_def)
    have run: "complete_accept cfg res r = Inr r4"
      using a r3(1) r4(1) r2 by (simp add: complete_accept_def)
    have "fd_to_conn r d = Some k \<or> d = res \<and> pending_itc (conn_at k r4) = 0" if "fd_to_conn r4 d = Some k" for d k
    proof (cases "d = res")
      case True
      have "fd_to_conn r3 res = Some i" "pending_itc (conn_at i r3) = 0"
        using r3(2) cl by simp_all
      moreover have "k = i" using that True r4(4) r3(2) by simp
      ultimately show ?thesis using True r4(3) by (simp add: same_clients_def)
    next
      case False
      with that r4(4) r3(2) show ?thesis by simp
    qed
    moreover have "r_engine r4 = r_engine r" using r4(5) r3(2) by simp
    ultimately show ?thesis using run r4(2) same_clients_trans [OF sc r4(3)] by blast
  qed
qed

lemma submit_itc_read_ok:
  assumes l: "local_inv r X" and i: "\<And>i. itc_conn r = Some i \<Longrightarrow> i \<notin> op_slots r" and room: "room_ok cfg"
  shows "\<exists>r'. submit_itc_read cfg r = Inr r' \<and> local_inv r' X \<and> same_clients r r' \<and>
    fd_to_conn r' = fd_to_conn r \<and> r_engine r' = r_engine r"
proof (cases "itc_conn r")
  case None
  with l show ?thesis by (simp add: submit_itc_read_def)
next
  case (Some i)
  have i': "i \<in> held (r_pool r)" "conn_type (conn_at i r) = ITC_EVENT" using l Some by (simp_all add: local_inv_def)
  have ncl: "fd_to_conn r d \<noteq> Some i" for d using client [OF l, of d i] i'(2) by (auto simp: client_ok_def Let_def)
  have na: "aof_conn r \<noteq> Some i" using l i'(2) by (auto simp: local_inv_def)
  let ?op = "Read_event (fd (conn_at i r))"
  have m: "op_matches r \<lparr>sqe_op = ?op, sqe_data = i\<rparr>" using Some i' by (simp add: op_matches_def)
  from local_inv_submit [OF l i'(1) i [OF Some] room m] ncl na obtain r'
    where r': "submit_op cfg ?op i r = Inr r'" "r' = r\<lparr>sq := sq r @ [\<lparr>sqe_op = ?op, sqe_data = i\<rparr>]\<rparr>"
    "local_inv r' (X - {i})" by blast
  have "local_inv r' X"
  proof -
    have "client_ok r' X d j" if "fd_to_conn r' d = Some j" for d j
    proof -
      have "j \<noteq> i" using that ncl [of d] r'(2) by auto
      with client [OF r'(3) that] show ?thesis by (subst client_ok_cong [of j _ r' _ "X - {i}"]) simp_all
    qed
    with r'(3) show ?thesis by (auto simp: local_inv_def)
  qed
  with r' Some show ?thesis by (simp add: submit_itc_read_def same_clients_def)
qed

text \<open>The append-only file: the sentinel has no operation when its handler runs.\<close>

definition no_aof_op :: "reactor \<Rightarrow> bool" where
  "no_aof_op r \<longleftrightarrow> (\<forall>i. aof_conn r = Some i \<longrightarrow> i \<notin> op_slots r)"

lemma local_inv_aof:
  assumes l: "local_inv r X" and n: "no_aof_op r"
  shows "local_inv (r\<lparr>r_engine := e\<rparr>) X"
proof -
  let ?r = "r\<lparr>r_engine := e\<rparr>"
  have at: "conn_at k ?r = conn_at k r" for k by (simp add: conn_at_def)
  have f: "ops ?r = ops r" "op_slots ?r = op_slots r" by (simp_all add: ops_def op_slots_def)
  have "op_matches ?r op" if op: "op \<in> set (ops r)" for op
  proof -
    have "op_matches r op" using l op by (simp add: local_inv_def)
    moreover have "aof_conn r \<noteq> Some (sqe_data op)" using n op by (auto simp: no_aof_op_def op_slots_def)
    ultimately show ?thesis by (auto simp: op_matches_def at Let_def split: io_op.splits)
  qed
  moreover have "client_ok ?r X d i" if "fd_to_conn r d = Some i" for d i
    using client [OF l that] by (subst client_ok_cong [of i _ r _ X]) (simp_all add: at f)
  ultimately show ?thesis
    using l n by (auto simp: local_inv_def at f no_aof_op_def)
qed

lemma local_inv_aof_write:
  assumes l: "local_inv r X" and n: "no_aof_op r" and a: "aof_conn r = Some i" and e: "aof_in_flight (r_engine r)"
    and room: "room_ok cfg"
  shows "sq_room cfg (length (sq r))"
    "local_inv (r\<lparr>sq := sq r @ [\<lparr>sqe_op = Write_aof d (aof_flush (r_engine r)), sqe_data = i\<rparr>]\<rparr>) X"
proof -
  have i: "i \<in> held (r_pool r)" "conn_type (conn_at i r) = AOF_WRITE" using l a by (simp_all add: local_inv_def)
  have nop: "i \<notin> op_slots r" using n a by (simp add: no_aof_op_def)
  have ncl: "fd_to_conn r d \<noteq> Some i" for d using client [OF l, of d i] i(2) by (auto simp: client_ok_def Let_def)
  let ?op = "Write_aof d (aof_flush (r_engine r))"
  have m: "op_matches r \<lparr>sqe_op = ?op, sqe_data = i\<rparr>" using a i e by (simp add: op_matches_def)
  from local_inv_submit [OF l i(1) nop room m] ncl e
  have l': "local_inv (r\<lparr>sq := sq r @ [\<lparr>sqe_op = ?op, sqe_data = i\<rparr>]\<rparr>) (X - {i})" by auto
  have "client_ok (r\<lparr>sq := sq r @ [\<lparr>sqe_op = ?op, sqe_data = i\<rparr>]\<rparr>) X d j"
    if "fd_to_conn (r\<lparr>sq := sq r @ [\<lparr>sqe_op = ?op, sqe_data = i\<rparr>]\<rparr>) d = Some j" for d j
  proof -
    have "j \<noteq> i" using that ncl [of d] by auto
    with client [OF l' that] show ?thesis by (subst client_ok_cong [of j _ "r\<lparr>sq := sq r @ [\<lparr>sqe_op = ?op, sqe_data = i\<rparr>]\<rparr>" _ "X - {i}"]) simp_all
  qed
  with l' show "local_inv (r\<lparr>sq := sq r @ [\<lparr>sqe_op = ?op, sqe_data = i\<rparr>]\<rparr>) X" by (auto simp: local_inv_def)
  show "sq_room cfg (length (sq r))" by (rule submit_room [OF l i(1) nop room])
qed

lemma complete_aof_ok:
  assumes l: "local_inv r X" and n: "no_aof_op r" and a: "aof_conn r = Some i" and room: "room_ok cfg"
    and fl: "aof_in_flight (r_engine r)"
  shows "local_inv (complete_aof cfg i res r) X \<and> same_clients r (complete_aof cfg i res r) \<and>
    fd_to_conn (complete_aof cfg i res r) = fd_to_conn r"
proof -
  let ?e = "r_engine r"
  let ?r = "r\<lparr>r_engine := ?e\<lparr>aof_flush := drop (nat res) (aof_flush ?e)\<rparr>\<rparr>"
  have n': "no_aof_op ?r" using n by (simp add: no_aof_op_def op_slots_def ops_def)
  have l': "local_inv ?r X" by (rule local_inv_aof [OF l n])
  note w = local_inv_aof_write(1) [OF l' n' _ _ room, of i] local_inv_aof_write(2) [OF l' n' _ _ room, of i "aof_fd ?e"]
  show ?thesis
    using local_inv_aof [OF l n] w a fl
    by (auto simp: complete_aof_def Let_def same_clients_def conn_at_def)
qed

lemma flush_aof_ok:
  assumes l: "local_inv r X" and room: "room_ok cfg"
  shows "local_inv (flush_aof cfg r) X \<and> same_clients r (flush_aof cfg r) \<and>
    fd_to_conn (flush_aof cfg r) = fd_to_conn r"
proof (cases "aof_conn r")
  case None
  with l show ?thesis by (simp add: flush_aof_def)
next
  case (Some i)
  let ?e = "r_engine r"
  show ?thesis
  proof (cases "\<not> aof_in_flight ?e \<and> aof_active ?e \<noteq> [] \<and> sq_room cfg (length (sq r))")
    case True
    let ?r = "r\<lparr>r_engine := ?e\<lparr>aof_active := aof_flush ?e, aof_flush := aof_active ?e, aof_in_flight := True\<rparr>\<rparr>"
    have n: "no_aof_op r" using l True by (auto simp: local_inv_def no_aof_op_def)
    then have n': "no_aof_op ?r" by (simp add: no_aof_op_def op_slots_def ops_def)
    have l': "local_inv ?r X" by (rule local_inv_aof [OF l n])
    from local_inv_aof_write(2) [OF l' n' _ _ room, of i "aof_fd ?e"] True Some
    show ?thesis by (simp add: flush_aof_def Let_def same_clients_def conn_at_def)
  next
    case False
    with Some l show ?thesis by (auto simp: flush_aof_def Let_def)
  qed
qed

lemma ring_submit_ok:
  assumes l: "local_inv r X"
  shows "local_inv (ring_submit r) X \<and> same_clients r (ring_submit r) \<and> fd_to_conn (ring_submit r) = fd_to_conn r"
proof -
  have "local_inv (ring_submit r) X = local_inv r X"
    by (rule local_inv_cong) (auto simp: ring_submit_def ops_def)
  with l show ?thesis by (simp add: same_clients_def ring_submit_def conn_at_def)
qed

section \<open>Responses and placeholders\<close>

text \<open>
  \<open>F\<close> are the positions for which a request or a response of descriptor \<open>d\<close> is under way. The
  connection is there, waits for at least as many responses, and each of those positions
  holds a placeholder.
\<close>

definition flight_ok :: "reactor \<Rightarrow> int multiset \<Rightarrow> int \<Rightarrow> bool" where
  "flight_ok r F d \<longleftrightarrow>
     (case fd_to_conn r d of
        None \<Rightarrow> F = {#}
      | Some i \<Rightarrow>
          let c = conn_at i r in
          int (size F) \<le> pending_itc c \<and>
          (\<forall>x \<in># F. count F x = 1 \<and> 0 \<le> x \<and> x < int (length (pipeline_results c)) \<and>
             pipeline_results c ! nat x = []))"

lemma flight_ok_mono:
  assumes "flight_ok r F d" "F' \<subseteq># F"
  shows "flight_ok r F' d"
proof (cases "fd_to_conn r d")
  case None
  with assms show ?thesis by (simp add: flight_ok_def)
next
  case (Some i)
  have "count F' x = 1" if "x \<in># F'" "count F x = 1" for x
    using that mset_subset_eq_count [OF assms(2), of x] by (metis count_greater_zero_iff le_antisym less_one nat_neq_iff not_le)
  moreover have "size F' \<le> size F" using assms(2) by (rule size_mset_mono)
  ultimately show ?thesis
    using assms Some by (auto simp: flight_ok_def Let_def dest: mset_subset_eqD)
qed

lemma flight_ok_same:
  assumes "same_clients r r'" "flight_ok r F d" "fd_to_conn r d = None \<Longrightarrow> fd_to_conn r' d = None \<or> (\<exists>i. fd_to_conn r' d = Some i \<and> 0 \<le> pending_itc (conn_at i r'))"
  shows "flight_ok r' F d"
proof (cases "fd_to_conn r d")
  case None
  with assms show ?thesis by (auto simp: flight_ok_def)
next
  case (Some i)
  with assms show ?thesis by (simp add: flight_ok_def same_clients_def Let_def)
qed

lemma count_list_update:
  "n < length xs \<Longrightarrow> xs ! n = y \<Longrightarrow> x \<noteq> y \<Longrightarrow> Suc (count_list (xs[n := x]) y) = count_list xs y"
proof (induction xs arbitrary: n)
  case (Cons a xs)
  then show ?case by (cases n) auto
qed simp

end
