(* ===== verification/System.thy ===== *)
theory System
  imports Reactor_Inv
begin

text \<open>
  The reactors together, over the shared inboxes: a step of the system is one round of a
  reactor's drain loop, the end of its drain (signals, flush, submit), or one completion it
  handles. The steps of different reactors interleave in any order. The invariant relates
  the messages under way to the placeholders they will fill.
\<close>

section \<open>Messages under way to a reactor\<close>

definition addressee :: "nat \<Rightarrow> itc_message \<Rightarrow> int" where
  "addressee k m = (if itc_type m = RESP then int k else sender_reactor m)"

text \<open>The positions, in the pipeline of descriptor \<open>d\<close> of reactor \<open>j\<close>, whose result is under way:
  a request of the reactor in some inbox, or a response in its own.\<close>

definition flight :: "(nat \<times> itc_message) multiset \<Rightarrow> nat \<Rightarrow> int \<Rightarrow> int multiset" where
  "flight M j d =
     image_mset (\<lambda>(k, m). pipeline_idx m) (filter_mset (\<lambda>(k, m). addressee k m = int j \<and> conn_fd m = d) M)"

text \<open>
  What a message in the inbox of reactor \<open>k\<close> of \<open>n\<close> is like: it comes from another reactor; a
  request has a key that is not empty and fits the buffer, a SET a value that does; and unless the
  key may have been cut, it hashes to \<open>k\<close>. No message is a \<open>DEL_REQ\<close>.
\<close>

definition key_for :: "nat \<Rightarrow> nat \<Rightarrow> bytes \<Rightarrow> bool" where
  "key_for n k key \<longleftrightarrow> key \<noteq> [] \<and> length key \<le> 127 \<and> (length key < 127 \<longrightarrow> owner_of 512 (int n) key = int k)"

definition message_typed :: "nat \<Rightarrow> nat \<Rightarrow> itc_message \<Rightarrow> bool" where
  "message_typed n k m \<longleftrightarrow>
     message_ok m \<and> 0 \<le> sender_reactor m \<and> sender_reactor m < int n \<and> sender_reactor m \<noteq> int k \<and>
     (case itc_type m of
        GET_REQ \<Rightarrow> \<exists>key. get_key m = Inr key \<and> key_for n k key
      | SET_REQ \<Rightarrow> (\<exists>key. get_key m = Inr key \<and> key_for n k key) \<and> (\<exists>val. get_value m = Inr val \<and> length val \<le> 383)
      | DEL_REQ \<Rightarrow> False
      | RESP \<Rightarrow> True)"

definition msgs_ok :: "nat \<Rightarrow> (nat \<times> itc_message) multiset \<Rightarrow> bool" where
  "msgs_ok n M \<longleftrightarrow> (\<forall>(k, m) \<in># M. message_typed n k m)"

definition threads :: "config \<Rightarrow> thread_id set" where
  "threads cfg = (\<lambda>j. thread_of cfg (int j)) ` {..<g_num_reactors cfg}"

abbreviation holds :: "config \<Rightarrow> itc_context \<Rightarrow> (nat \<times> itc_message) multiset \<Rightarrow> bool" where
  "holds cfg \<equiv> bus_holds (threads cfg) (g_num_reactors cfg)"

definition engine_ok :: "config \<Rightarrow> nat \<Rightarrow> engine \<Rightarrow> bool" where
  "engine_ok cfg j e \<longleftrightarrow> engine_wf e \<and> reactor_id e = int j \<and> num_reactors e = int (g_num_reactors cfg) \<and> shard_count e = 512 \<and>
     partitioned e"

definition node_inv :: "config \<Rightarrow> nat \<Rightarrow> nat set \<Rightarrow> reactor \<Rightarrow> (nat \<times> itc_message) multiset \<Rightarrow> bool" where
  "node_inv cfg j X r M \<longleftrightarrow>
     local_inv r X \<and> r_id r = int j \<and> engine_ok cfg j (r_engine r) \<and> (\<forall>d. flight_ok r (flight M j d) d)"

text \<open>What a handler of reactor \<open>j\<close> owes the others.\<close>

definition others_shrink :: "nat \<Rightarrow> (nat \<times> itc_message) multiset \<Rightarrow> (nat \<times> itc_message) multiset \<Rightarrow> bool" where
  "others_shrink j M M' \<longleftrightarrow> (\<forall>k d. k \<noteq> j \<longrightarrow> flight M' k d \<subseteq># flight M k d)"

lemma flight_simps [simp]:
  "flight {#} j d = {#}"
  "flight (add_mset (k, m) M) j d =
     (if addressee k m = int j \<and> conn_fd m = d then add_mset (pipeline_idx m) (flight M j d) else flight M j d)"
  by (simp_all add: flight_def)

lemma flight_mono: "M' \<subseteq># M \<Longrightarrow> flight M' j d \<subseteq># flight M j d"
  by (simp add: flight_def image_mset_subseteq_mono multiset_filter_mono)

lemma msgs_ok_add [simp]:
  "msgs_ok n (add_mset (k, m) M) \<longleftrightarrow>
     message_typed n k m \<and> msgs_ok n M"
  by (auto simp: msgs_ok_def)

lemma response_typed:
  "itc_type m = RESP \<Longrightarrow> message_typed n k m \<longleftrightarrow>
     message_ok m \<and> 0 \<le> sender_reactor m \<and> sender_reactor m < int n \<and> sender_reactor m \<noteq> int k"
  by (simp add: message_typed_def)

lemma typed_sender: "message_typed n k m \<Longrightarrow> 0 \<le> sender_reactor m \<and> sender_reactor m < int n \<and> sender_reactor m \<noteq> int k"
  by (simp add: message_typed_def)

lemma key_for_cut:
  assumes "k \<noteq> []" "owner_of 512 (int n) k = int j"
  shows "key_for n j (take 127 k)"
  using assms by (auto simp: key_for_def min_def split: if_splits)

lemma others_shrink_refl [simp]: "others_shrink j M M"
  by (simp add: others_shrink_def)

lemma others_shrink_trans: "others_shrink j M M' \<Longrightarrow> others_shrink j M' M'' \<Longrightarrow> others_shrink j M M''"
  unfolding others_shrink_def by (metis subset_mset.order_trans)

lemma finite_threads [simp]: "finite (threads cfg)"
  by (simp add: threads_def)

lemma thread_in: "j < g_num_reactors cfg \<Longrightarrow> thread_of cfg (int j) \<in> threads cfg"
  by (simp add: threads_def)

section \<open>Pushing, and the engine\<close>

definition pushed :: "config \<Rightarrow> int \<Rightarrow> itc_message \<Rightarrow> (nat \<times> itc_message) multiset \<Rightarrow> itc_context \<Rightarrow>
  (nat \<times> itc_message) multiset \<Rightarrow> bool" where
  "pushed cfg target msg M x M' \<longleftrightarrow> holds cfg x M' \<and> (M' = M \<or> M' = add_mset (nat target, msg) M)"

lemma push_and_mark_ok:
  assumes x: "holds cfg x M" and t: "0 \<le> target" "target < int (g_num_reactors cfg)" and j: "j < g_num_reactors cfg"
  shows "outcome (push_and_mark cfg (int j) target msg (x, marks)) (\<lambda>(x', _). \<exists>M'. pushed cfg target msg M x' M')"
proof -
  have n: "nat target < g_num_reactors cfg" "int (nat target) = target" using t by auto
  from ib.push_law [OF x n(1) thread_in [OF j], of "inbox_malloc cfg" msg] obtain ok x' where
    p: "itc_push (inbox_malloc cfg) (thread_of cfg (int j)) target msg x = Inr (ok, x')"
    and h: "holds cfg x' (if ok then add_mset (nat target, msg) M else M)" using n(2) by auto
  have "\<exists>M'. pushed cfg target msg M x' M'" using h by (cases ok) (auto simp: pushed_def)
  then show ?thesis using p by (simp add: push_and_mark_def) (intro outcome_map outcome_weaken [OF outcome_shift], simp)
qed

text \<open>The fields of the engine that the pending write to the file refers to.\<close>

definition same_flush :: "engine \<Rightarrow> engine \<Rightarrow> bool" where
  "same_flush e e' \<longleftrightarrow> aof_flush e' = aof_flush e \<and> aof_in_flight e' = aof_in_flight e"

lemma engine_ok_put [simp]: "engine_ok cfg j e \<Longrightarrow> owns e k \<Longrightarrow> engine_ok cfg j (put_entry k v e)"
  by (simp add: engine_ok_def)

lemma engine_get_ok:
  assumes "engine_ok cfg j e"
  shows "outcome (engine_get now key e) (\<lambda>(_, e'). engine_ok cfg j e' \<and> same_flush e e')"
proof (cases "owns e key")
  case True
  with assms show ?thesis
    by (auto simp: engine_ok_def engine_get_owned same_flush_def split: option.split)
next
  case False
  with assms show ?thesis by (simp add: engine_ok_def engine_foreign)
qed

lemma engine_set_ok:
  assumes "engine_ok cfg j e"
  shows "outcome (engine_set now key val ttl e) (\<lambda>e'. engine_ok cfg j e' \<and> same_flush e e')"
proof (cases "owns e key")
  case True
  with assms show ?thesis by (auto simp: engine_ok_def engine_set_owned same_flush_def)
next
  case False
  with assms show ?thesis by (simp add: engine_ok_def engine_foreign)
qed

lemma append_aof_ok [simp]:
  "engine_ok cfg j (append_aof_set k v e) = engine_ok cfg j e"
  "same_flush e0 (append_aof_set k v e) = same_flush e0 e"
  by (simp_all add: append_aof_set_def engine_ok_def engine_wf_def same_flush_def)

lemma node_inv_engine:
  assumes "node_inv cfg j X r M" "engine_ok cfg j e" "same_flush (r_engine r) e"
  shows "node_inv cfg j X (r\<lparr>r_engine := e\<rparr>) M"
proof -
  let ?r = "r\<lparr>r_engine := e\<rparr>"
  have "local_inv ?r X = local_inv r X"
    using assms(3) by (intro local_inv_cong) (simp_all add: ops_def same_flush_def)
  moreover have "flight_ok ?r F d = flight_ok r F d" for F d by (simp add: flight_ok_def conn_at_def cong: option.case_cong)
  ultimately show ?thesis using assms by (simp add: node_inv_def)
qed

lemma node_inv_mono:
  assumes "node_inv cfg j X r M" "\<And>d. flight M' j d \<subseteq># flight M j d"
  shows "node_inv cfg j X r M'"
  using assms flight_ok_mono unfolding node_inv_def by blast

section \<open>Draining the inbox\<close>

text \<open>What holds after a step of reactor \<open>j\<close> that began with the messages \<open>M\<close>.\<close>

definition after :: "config \<Rightarrow> nat \<Rightarrow> nat set \<Rightarrow> (nat \<times> itc_message) multiset \<Rightarrow> reactor \<Rightarrow> itc_context \<Rightarrow> bool" where
  "after cfg j X M r x \<longleftrightarrow>
     (\<exists>M'. holds cfg x M' \<and> msgs_ok (g_num_reactors cfg) M' \<and> node_inv cfg j X r M' \<and> others_shrink j M M')"

lemma conn_fields_sequel:
  "on_conn i g (on_conn i f r) = on_conn i (\<lambda>c. g (f c)) r"
  by (simp add: on_conn_def upd_conn_upd_conn comp_def)

lemma store_result_ok:
  assumes "0 \<le> pipeline_idx m" "pipeline_idx m < int (length (pipeline_results (conn_at i r)))"
  shows "outcome (store_result i m r) (\<lambda>r'. \<exists>s. s \<noteq> [] \<and>
    r' = on_conn i (\<lambda>c. c\<lparr>pipeline_results := (pipeline_results (conn_at i r))[nat (pipeline_idx m) := s]\<rparr>) r)"
proof -
  have "outcome (reply_text m) (\<lambda>s. s \<noteq> [])"
    unfolding reply_text_def
    by (auto intro!: outcome_map outcome_weaken [OF outcome_get_value] split: if_splits)
  then show ?thesis
    unfolding store_result_def using assms
    by (auto intro!: outcome_bind [where P = "\<lambda>s. s \<noteq> []"] outcome_map outcome_weaken [OF outcome_vec_put])
qed

lemma handle_resp_ok:
  assumes l: "local_inv r {}" and F: "flight_ok r F (conn_fd m)" and x: "pipeline_idx m \<in># F" and room: "room_ok cfg"
  shows "outcome (handle_resp cfg m r) (\<lambda>r'. local_inv r' {} \<and> r_id r' = r_id r \<and> r_engine r' = r_engine r \<and>
    fd_to_conn r' = fd_to_conn r \<and> flight_ok r' (F - {#pipeline_idx m#}) (conn_fd m) \<and>
    (\<forall>d i. d \<noteq> conn_fd m \<longrightarrow> fd_to_conn r d = Some i \<longrightarrow> conn_at i r' = conn_at i r))"
proof -
  let ?d = "conn_fd m" and ?x = "pipeline_idx m"
  obtain i where i: "fd_to_conn r ?d = Some i" using F x by (auto simp: flight_ok_def split: option.splits)
  let ?c = "conn_at i r"
  have fl: "int (size F) \<le> pending_itc ?c" "\<And>y. y \<in># F \<Longrightarrow> count F y = 1 \<and> 0 \<le> y \<and>
      y < int (length (pipeline_results ?c)) \<and> pipeline_results ?c ! nat y = []"
    using F i by (auto simp: flight_ok_def Let_def)
  have c: "client_ok r {} ?d i" by (rule client [OF l i])
  have "0 < size F" using x by (metis gr0I multi_member_last size_eq_0_iff_empty empty_iff set_mset_empty)
  then have pos: "0 < pending_itc ?c" using fl(1) by linarith
  with c have c': "i \<in> held (r_pool r)" "i \<notin> op_slots r" "suspended ?c" "fd ?c = ?d" "conn_type ?c \<in> {READ, WRITE}"
    "pending_itc ?c = int (count_list (pipeline_results ?c) [])"
    by (auto simp: client_ok_def Let_def split: if_splits)
  have less: "i < length (conns (r_pool r))" by (rule held_less [OF l c'(1)])
  note at = conn_at_on_conn [OF less]
  have sz: "size (F - {#?x#}) = size F - 1" using x by (simp add: size_Diff_singleton)
  have others: "conn_at k r' = conn_at k r"
    if "client_frame i r r'" "d \<noteq> ?d" "fd_to_conn r d = Some k" for r' d k
  proof -
    have "k \<noteq> i" using that(2,3) client_inj [OF l i, of d] by auto
    with that(1) show ?thesis by (simp add: client_frame_def)
  qed
  show ?thesis
    unfolding handle_resp_def i option.simps
  proof (rule outcome_bind [OF store_result_ok])
    show "0 \<le> ?x" "?x < int (length (pipeline_results ?c))" using fl(2) [OF x] by simp_all
    fix r1
    let ?rs = "\<lambda>s. (pipeline_results ?c)[nat ?x := s]"
    assume "\<exists>s. s \<noteq> [] \<and> r1 = on_conn i (\<lambda>c. c\<lparr>pipeline_results := ?rs s\<rparr>) r"
    then obtain s where s: "s \<noteq> []" "r1 = on_conn i (\<lambda>c. c\<lparr>pipeline_results := ?rs s\<rparr>) r" by blast
    let ?f = "\<lambda>c. c\<lparr>pipeline_results := ?rs s, pending_itc := pending_itc c - 1\<rparr>"
    let ?r = "on_conn i ?f r"
    have r2: "on_conn i (\<lambda>c. c\<lparr>pending_itc := pending_itc c - 1\<rparr>) r1 = ?r" by (simp add: s conn_fields_sequel)
    have cnt: "pending_itc ?c - 1 = int (count_list (?rs s) [])"
    proof -
      have "nat ?x < length (pipeline_results ?c)" "pipeline_results ?c ! nat ?x = []" using fl(2) [OF x] by auto
      from count_list_update [OF this s(1)] show ?thesis unfolding c'(6) by linarith
    qed
    have keep: "flight_ok r' (F - {#?x#}) ?d"
      if "fd_to_conn r' ?d = Some i" "pending_itc (conn_at i r') = pending_itc ?c - 1"
        "0 < pending_itc ?c - 1 \<Longrightarrow> pipeline_results (conn_at i r') = ?rs s" for r'
    proof (cases "pending_itc ?c - 1 = 0")
      case True
      then have "size F = 1" using fl(1) \<open>0 < size F\<close> by simp
      then have "F - {#?x#} = {#}" using sz by simp
      with that True show ?thesis by (simp add: flight_ok_def)
    next
      case False
      have "?rs s ! nat y = [] \<and> count (F - {#?x#}) y = 1 \<and> 0 \<le> y \<and> y < int (length (?rs s))" if y: "y \<in># F - {#?x#}" for y
      proof -
        have yF: "y \<in># F" using y by (rule in_diffD)
        have "y \<noteq> ?x" using y fl(2) [OF x] by (metis count_diff count_single cancel_comm_monoid_add_class.diff_cancel not_in_iff)
        with yF fl(2) [OF yF] fl(2) [OF x] show ?thesis by (simp add: nat_eq_iff)
      qed
      moreover have "0 < pending_itc ?c - 1" using False pos by simp
      ultimately show ?thesis
        using that fl(1) sz \<open>0 < size F\<close> by (simp add: flight_ok_def Let_def)
    qed
    show "outcome (let r = on_conn i (\<lambda>c. c\<lparr>pending_itc := pending_itc c - 1\<rparr>) r1 in
        if pending_itc (conn_at i r) = 0 \<and> suspended (conn_at i r)
        then submit_response cfg i (on_conn i (\<lambda>c. c\<lparr>suspended := False\<rparr>) r) else Inr r)
      (\<lambda>r'. local_inv r' {} \<and> r_id r' = r_id r \<and> r_engine r' = r_engine r \<and>
        fd_to_conn r' = fd_to_conn r \<and> flight_ok r' (F - {#?x#}) ?d \<and>
        (\<forall>d i. d \<noteq> ?d \<longrightarrow> fd_to_conn r d = Some i \<longrightarrow> conn_at i r' = conn_at i r))"
    proof (cases "pending_itc ?c - 1 = 0")
      case True
      let ?g = "\<lambda>c. (?f c)\<lparr>suspended := False\<rparr>"
      have "client_ok (on_conn i ?g r) {i} ?d i"
        using c' cnt True by (simp add: client_ok_def at Let_def)
      then have l3: "local_inv (on_conn i ?g r) {i}" by (rule local_inv_on_client [OF l i c'(2)]) simp
      have i3: "fd_to_conn (on_conn i ?g r) ?d = Some i" using i by simp
      from submit_response_ok [OF l3 i3 _ room] obtain r4 where r4: "submit_response cfg i (on_conn i ?g r) = Inr r4"
        "local_inv r4 {}" "responded i (on_conn i ?g r) r4" by auto
      have fr: "client_frame i r r4"
        using r4(3) less client_frame_trans [of i r "on_conn i ?g r" r4] by (simp add: responded_def)
      have p4: "pending_itc (conn_at i r4) = pending_itc ?c - 1" using r4(3) by (simp add: responded_def at)
      have "fd_to_conn r4 ?d = Some i" using fr i by (simp add: client_frame_def)
      from keep [OF this p4] True have "flight_ok r4 (F - {#?x#}) ?d" by simp
      moreover have "on_conn i (\<lambda>c. c\<lparr>suspended := False\<rparr>) ?r = on_conn i ?g r" by (simp add: conn_fields_sequel)
      ultimately show ?thesis
        using r4 fr others [OF fr] True c'(3) unfolding r2 Let_def by (simp add: at client_frame_def)
    next
      case False
      have p: "0 < pending_itc ?c - 1" using False pos by simp
      have "client_ok ?r {} ?d i" using c' cnt p by (simp add: client_ok_def at Let_def)
      then have l3: "local_inv ?r {}" by (rule local_inv_on_client [OF l i c'(2)]) simp
      have "flight_ok ?r (F - {#?x#}) ?d" by (rule keep) (use i in \<open>simp_all add: at\<close>)
      moreover have "client_frame i r ?r" using less by simp
      then have "conn_at k ?r = conn_at k r" if "d \<noteq> ?d" "fd_to_conn r d = Some k" for d k
        using that by (rule others)
      moreover have "pending_itc (conn_at i ?r) \<noteq> 0" using False by (simp add: at)
      ultimately show ?thesis
        using l3 unfolding r2 Let_def by simp
    qed
  qed
qed

text \<open>A reply replaces the request it answers.\<close>

lemma reply_flight:
  assumes M: "M = add_mset (j, msg) M0" and t: "itc_type msg \<noteq> RESP" "0 \<le> sender_reactor msg"
    and r: "itc_type resp = RESP" "conn_fd resp = conn_fd msg" "pipeline_idx resp = pipeline_idx msg"
    and M': "M' = M0 \<or> M' = add_mset (nat (sender_reactor msg), resp) M0"
  shows "flight M' k d \<subseteq># flight M k d"
  using M' by (rule disjE) (simp_all add: M addressee_def t r)

lemma after_reply:
  assumes v: "node_inv cfg j {} r M" and ok: "msgs_ok (g_num_reactors cfg) M" and M: "M = add_mset (j, msg) M0"
    and x: "holds cfg x M0" and j: "j < g_num_reactors cfg"
    and e: "engine_ok cfg j e" "same_flush (r_engine r) e" and t: "itc_type msg \<noteq> RESP"
    and resp: "itc_type resp = RESP" "conn_fd resp = conn_fd msg" "pipeline_idx resp = pipeline_idx msg" "message_ok resp"
      "sender_reactor resp = int j"
  shows "outcome (ub_map (\<lambda>xm. (r\<lparr>r_engine := e\<rparr>, xm)) (push_and_mark cfg (int j) (sender_reactor msg) resp (x, marks)))
    (\<lambda>(r', x', _). after cfg j {} M r' x')"
proof (intro outcome_map outcome_weaken [OF push_and_mark_ok [OF x _ _ j]])
  have ty: "0 \<le> sender_reactor msg \<and> sender_reactor msg < int (g_num_reactors cfg) \<and> sender_reactor msg \<noteq> int j"
    by (rule typed_sender) (use ok M in simp)
  then show s: "0 \<le> sender_reactor msg" "sender_reactor msg < int (g_num_reactors cfg)" by auto
  fix y
  assume "case y of (x', _) \<Rightarrow> \<exists>M'. pushed cfg (sender_reactor msg) resp M0 x' M'"
  then obtain x' marks' M' where y: "y = (x', marks')" and p: "pushed cfg (sender_reactor msg) resp M0 x' M'" by auto
  then have M': "M' = M0 \<or> M' = add_mset (nat (sender_reactor msg), resp) M0" "holds cfg x' M'"
    by (simp_all add: pushed_def)
  have fl: "flight M' k d \<subseteq># flight M k d" for k d by (rule reply_flight [OF M t s(1) resp(1-3) M'(1)])
  have "node_inv cfg j {} (r\<lparr>r_engine := e\<rparr>) M'" by (rule node_inv_mono [OF node_inv_engine [OF v e] fl])
  moreover have "message_typed (g_num_reactors cfg) (nat (sender_reactor msg)) resp"
    using resp ty j by (simp add: response_typed)
  then have "msgs_ok (g_num_reactors cfg) M'" using ok M M'(1) by auto
  ultimately have "after cfg j {} M (r\<lparr>r_engine := e\<rparr>) x'"
    using M'(2) fl by (auto simp: after_def others_shrink_def)
  then show "case (r\<lparr>r_engine := e\<rparr>, y) of (r', x', _) \<Rightarrow> after cfg j {} M r' x'" by (simp add: y)
qed

lemma process_message_ok:
  assumes v: "node_inv cfg j {} r M" and ok: "msgs_ok (g_num_reactors cfg) M" and M: "M = add_mset (j, msg) M0"
    and x: "holds cfg x M0" and j: "j < g_num_reactors cfg" and room: "room_ok cfg" and junk: "message_ok junk"
  shows "outcome (process_message cfg now junk msg (r, x, marks)) (\<lambda>(r', x', _). after cfg j {} M r' x')"
proof -
  have rid: "r_id r = int j" and e: "engine_ok cfg j (r_engine r)" using v by (simp_all add: node_inv_def)
  have junk': "message_ok (reply_message junk (int j) msg b)" for b
    using junk by (simp add: reply_message_def message_ok_def)
  show ?thesis
  proof (cases "itc_type msg")
    case GET_REQ
    show ?thesis
      unfolding process_message_def Let_def GET_REQ itc_type.case fst_conv snd_conv rid
    proof (rule outcome_bind [OF outcome_get_key])
      fix key
      show "outcome (ub_bind (engine_get now key (r_engine r)) (\<lambda>(result, e).
          ub_map (\<lambda>xm. (r\<lparr>r_engine := e\<rparr>, xm)) (push_and_mark cfg (int j) (sender_reactor msg)
            (case result of None \<Rightarrow> reply_message junk (int j) msg (result \<noteq> None)
             | Some v \<Rightarrow> set_value v (reply_message junk (int j) msg (result \<noteq> None))) (x, marks))))
        (\<lambda>(r', x', _). after cfg j {} M r' x')"
      proof (rule outcome_bind [OF engine_get_ok [OF e]])
        fix y :: "bytes option \<times> engine" assume "case y of (result, e') \<Rightarrow> engine_ok cfg j e' \<and> same_flush (r_engine r) e'"
        then obtain result e' where y: "y = (result, e')" "engine_ok cfg j e'" "same_flush (r_engine r) e'" by auto
        then show "outcome (case y of (result, e) \<Rightarrow>
            ub_map (\<lambda>xm. (r\<lparr>r_engine := e\<rparr>, xm)) (push_and_mark cfg (int j) (sender_reactor msg)
              (case result of None \<Rightarrow> reply_message junk (int j) msg (result \<noteq> None)
               | Some v \<Rightarrow> set_value v (reply_message junk (int j) msg (result \<noteq> None))) (x, marks)))
          (\<lambda>(r', x', _). after cfg j {} M r' x')"
          unfolding y prod.case
          by (intro after_reply [OF v ok M x j])
            (use junk' GET_REQ in \<open>auto simp: reply_message_def split: option.split\<close>)
      qed
    qed
  next
    case SET_REQ
    show ?thesis
      unfolding process_message_def Let_def SET_REQ itc_type.case fst_conv snd_conv rid process_local_set_def
    proof (intro outcome_bind [OF outcome_get_key] outcome_bind [OF outcome_get_value])
      fix key val
      show "outcome (ub_bind (ub_map (\<lambda>e. (resp_OK, e)) (engine_set now key val (ttl_ms msg) (r_engine r))) (\<lambda>(_, e).
          ub_map (\<lambda>xm. (r\<lparr>r_engine := append_aof_set key val e\<rparr>, xm))
            (push_and_mark cfg (int j) (sender_reactor msg) (reply_message junk (int j) msg True) (x, marks))))
        (\<lambda>(r', x', _). after cfg j {} M r' x')"
      proof (rule outcome_bind [OF outcome_map])
        show "outcome (engine_set now key val (ttl_ms msg) (r_engine r))
          (\<lambda>e'. (\<lambda>(_ :: bytes, e'). engine_ok cfg j e' \<and> same_flush (r_engine r) e') (resp_OK, e'))"
          using engine_set_ok [OF e] by simp
        fix y :: "bytes \<times> engine" assume "case y of (_, e') \<Rightarrow> engine_ok cfg j e' \<and> same_flush (r_engine r) e'"
        then obtain e' where y: "snd y = e'" "engine_ok cfg j e'" "same_flush (r_engine r) e'" by auto
        have "outcome (ub_map (\<lambda>xm. (r\<lparr>r_engine := append_aof_set key val e'\<rparr>, xm))
            (push_and_mark cfg (int j) (sender_reactor msg) (reply_message junk (int j) msg True) (x, marks)))
          (\<lambda>(r', x', _). after cfg j {} M r' x')"
          by (rule after_reply [OF v ok M x j]) (use y(2,3) junk' SET_REQ in \<open>simp_all, simp_all add: reply_message_def\<close>)
        then show "outcome (case y of (_, e) \<Rightarrow> ub_map (\<lambda>xm. (r\<lparr>r_engine := append_aof_set key val e\<rparr>, xm))
            (push_and_mark cfg (int j) (sender_reactor msg) (reply_message junk (int j) msg True) (x, marks)))
          (\<lambda>(r', x', _). after cfg j {} M r' x')"
          using y(1) by (cases y) simp
      qed
    qed
  next
    case DEL_REQ
    have fl: "flight M0 k d \<subseteq># flight M k d" for k d by (rule flight_mono) (simp add: M)
    have "node_inv cfg j {} r M0" by (rule node_inv_mono [OF v fl])
    moreover have "msgs_ok (g_num_reactors cfg) M0" using ok M by simp
    ultimately have "after cfg j {} M r x" using x fl by (auto simp: after_def others_shrink_def)
    then show ?thesis by (simp add: process_message_def DEL_REQ)
  next
    case RESP
    let ?d = "conn_fd msg"
    have l: "local_inv r {}" and F: "\<And>d. flight_ok r (flight M j d) d" using v by (simp_all add: node_inv_def)
    have fl: "flight M j d = (if d = ?d then add_mset (pipeline_idx msg) (flight M0 j d) else flight M0 j d)" for d
      by (auto simp: M addressee_def RESP)
    have idx: "pipeline_idx msg \<in># flight M j ?d" by (simp add: fl)
    show ?thesis
      unfolding process_message_def Let_def RESP itc_type.case fst_conv snd_conv
    proof (intro outcome_map outcome_weaken [OF handle_resp_ok [OF l F idx room]])
      fix r'
      assume r': "local_inv r' {} \<and> r_id r' = r_id r \<and> r_engine r' = r_engine r \<and> fd_to_conn r' = fd_to_conn r \<and>
        flight_ok r' (flight M j ?d - {#pipeline_idx msg#}) ?d \<and>
        (\<forall>d i. d \<noteq> ?d \<longrightarrow> fd_to_conn r d = Some i \<longrightarrow> conn_at i r' = conn_at i r)"
      have "flight_ok r' (flight M0 j d) d" for d
      proof (cases "d = ?d")
        case True
        with r' show ?thesis by (simp add: fl)
      next
        case False
        have "flight_ok r (flight M0 j d) d" using F [of d] False by (simp add: fl)
        with r' False show ?thesis by (auto simp: flight_ok_def split: option.splits)
      qed
      then have "node_inv cfg j {} r' M0" using r' v by (simp add: node_inv_def)
      moreover have "others_shrink j M M0" by (auto simp: others_shrink_def intro: flight_mono simp: M)
      ultimately have "after cfg j {} M r' x" using x ok M by (auto simp: after_def)
      then show "case (r', x, marks) of (r', x', _) \<Rightarrow> after cfg j {} M r' x'" by simp
    qed
  qed
qed

section \<open>A batch of commands\<close>

text \<open>Connection \<open>i\<close>, of descriptor \<open>d\<close>, is being served and has \<open>idx\<close> results.\<close>

definition batch_inv :: "config \<Rightarrow> nat \<Rightarrow> nat \<Rightarrow> int \<Rightarrow> nat \<Rightarrow> reactor \<Rightarrow> (nat \<times> itc_message) multiset \<Rightarrow> bool" where
  "batch_inv cfg j i d idx r M \<longleftrightarrow>
     node_inv cfg j {i} r M \<and> fd_to_conn r d = Some i \<and> length (pipeline_results (conn_at i r)) = idx"

definition batch_after :: "config \<Rightarrow> nat \<Rightarrow> nat \<Rightarrow> int \<Rightarrow> nat \<Rightarrow> (nat \<times> itc_message) multiset \<Rightarrow> reactor \<Rightarrow> itc_context \<Rightarrow> bool" where
  "batch_after cfg j i d idx M r x \<longleftrightarrow>
     (\<exists>M'. holds cfg x M' \<and> msgs_ok (g_num_reactors cfg) M' \<and> batch_inv cfg j i d idx r M' \<and> others_shrink j M M')"

lemma batch_client:
  assumes "batch_inv cfg j i d idx r M"
  shows "fd (conn_at i r) = d" "\<not> suspended (conn_at i r)" "conn_type (conn_at i r) \<in> {READ, WRITE}" "i \<notin> op_slots r"
    "pending_itc (conn_at i r) = int (count_list (pipeline_results (conn_at i r)) [])"
    "i < length (conns (r_pool r))" "i \<in> held (r_pool r)"
proof -
  have l: "local_inv r {i}" and i: "fd_to_conn r d = Some i" using assms by (simp_all add: batch_inv_def node_inv_def)
  have c: "client_ok r {i} d i" by (rule client [OF l i])
  then show "fd (conn_at i r) = d" "\<not> suspended (conn_at i r)" "conn_type (conn_at i r) \<in> {READ, WRITE}" "i \<notin> op_slots r"
    "pending_itc (conn_at i r) = int (count_list (pipeline_results (conn_at i r)) [])" "i \<in> held (r_pool r)"
    by (simp_all add: client_ok_def Let_def)
  then show "i < length (conns (r_pool r))" using held_less [OF l] by simp
qed

lemma batch_on_conn:
  assumes b: "batch_inv cfg j i d idx r M"
    and c: "fd (f (conn_at i r)) = d" "conn_type (f (conn_at i r)) \<in> {READ, WRITE}" "\<not> suspended (f (conn_at i r))"
      "pending_itc (f (conn_at i r)) = int (count_list (pipeline_results (f (conn_at i r))) [])"
    and len: "length (pipeline_results (f (conn_at i r))) = idx'"
    and F: "int (size (flight M' j d)) \<le> pending_itc (f (conn_at i r))"
      "\<And>y. y \<in># flight M' j d \<Longrightarrow> count (flight M' j d) y = 1 \<and> 0 \<le> y \<and> y < int idx' \<and>
         pipeline_results (f (conn_at i r)) ! nat y = []"
    and other: "\<And>e. e \<noteq> d \<Longrightarrow> flight M' j e = flight M j e"
  shows "batch_inv cfg j i d idx' (on_conn i f r) M'"
proof -
  note cl = batch_client [OF b]
  have l: "local_inv r {i}" and i: "fd_to_conn r d = Some i" and v: "node_inv cfg j {i} r M"
    using b by (simp_all add: batch_inv_def node_inv_def)
  note at = conn_at_on_conn [OF cl(6)]
  have "client_ok (on_conn i f r) {i} d i" using c cl by (simp add: client_ok_def at Let_def)
  then have l': "local_inv (on_conn i f r) {i}" by (rule local_inv_on_client [OF l i cl(4)]) simp
  have "flight_ok (on_conn i f r) (flight M' j e) e" for e
  proof (cases "e = d")
    case True
    with i F len show ?thesis by (simp add: flight_ok_def at)
  next
    case False
    have "flight_ok r (flight M' j e) e" using v other [OF False] by (simp add: node_inv_def)
    moreover have "k \<noteq> i" if "fd_to_conn r e = Some k" for k using client_inj [OF l i, of e] that False by auto
    ultimately show ?thesis by (auto simp: flight_ok_def at split: option.splits)
  qed
  with l' v i len show ?thesis by (simp add: batch_inv_def node_inv_def at)
qed

lemma batch_flight:
  assumes "batch_inv cfg j i d idx r M"
  shows "int (size (flight M j d)) \<le> pending_itc (conn_at i r)"
    "y \<in># flight M j d \<Longrightarrow> count (flight M j d) y = 1 \<and> 0 \<le> y \<and> y < int idx \<and> pipeline_results (conn_at i r) ! nat y = []"
  using assms by (auto simp: batch_inv_def node_inv_def flight_ok_def Let_def split: option.splits dest!: spec [of _ d])

lemma push_result_ok:
  assumes b: "batch_inv cfg j i d idx r M" and s: "s \<noteq> []"
  shows "batch_inv cfg j i d (Suc idx) (push_result i s r) M"
  unfolding push_result_def
proof (rule batch_on_conn [OF b])
  note cl = batch_client [OF b]
  let ?f = "\<lambda>c. c\<lparr>pipeline_results := pipeline_results c @ [s]\<rparr>"
  show "fd (?f (conn_at i r)) = d" "conn_type (?f (conn_at i r)) \<in> {READ, WRITE}" "\<not> suspended (?f (conn_at i r))"
    "pending_itc (?f (conn_at i r)) = int (count_list (pipeline_results (?f (conn_at i r))) [])"
    using cl s by simp_all
  show "length (pipeline_results (?f (conn_at i r))) = Suc idx" using b by (simp add: batch_inv_def)
  show "int (size (flight M j d)) \<le> pending_itc (?f (conn_at i r))" using batch_flight(1) [OF b] by simp
  fix y assume "y \<in># flight M j d"
  from batch_flight(2) [OF b this] b
  show "count (flight M j d) y = 1 \<and> 0 \<le> y \<and> y < int (Suc idx) \<and> pipeline_results (?f (conn_at i r)) ! nat y = []"
    by (simp add: batch_inv_def nth_append nat_less_iff)
qed simp

lemma forward_ok:
  assumes b: "batch_inv cfg j i d idx r M" and ok: "msgs_ok (g_num_reactors cfg) M" and x: "holds cfg x M"
    and j: "j < g_num_reactors cfg" and o: "0 \<le> owner" "owner < int (g_num_reactors cfg)"
    and m: "itc_type msg \<noteq> RESP" "sender_reactor msg = int j" "conn_fd msg = d" "pipeline_idx msg = int idx"
      "message_typed (g_num_reactors cfg) (nat owner) msg"
  shows "outcome (forward cfg i owner msg (r, x, marks)) (\<lambda>(r', x', _). batch_after cfg j i d (Suc idx) M r' x')"
proof -
  have rid: "r_id r = int j" using b by (simp add: batch_inv_def node_inv_def)
  let ?r = "push_result i [] (on_conn i (\<lambda>c. c\<lparr>pending_itc := pending_itc c + 1\<rparr>) r)"
  let ?f = "\<lambda>c. c\<lparr>pending_itc := pending_itc c + 1, pipeline_results := pipeline_results c @ [[]]\<rparr>"
  have r': "?r = on_conn i ?f r" by (simp add: push_result_def conn_fields_sequel)
  note cl = batch_client [OF b] and fl = batch_flight [OF b]
  have len: "length (pipeline_results (conn_at i r)) = idx" using b by (simp add: batch_inv_def)
  show ?thesis
    unfolding forward_def fst_conv snd_conv rid
  proof (intro outcome_map outcome_weaken [OF push_and_mark_ok [OF x o j]])
    fix y :: "itc_context \<times> u64" assume "case y of (x', _) \<Rightarrow> \<exists>M'. pushed cfg owner msg M x' M'"
    then obtain x' marks' M' where y: "y = (x', marks')" and p: "pushed cfg owner msg M x' M'" by auto
    then have M': "M' = M \<or> M' = add_mset (nat owner, msg) M" and h: "holds cfg x' M'" by (simp_all add: pushed_def)
    have F: "flight M' j d = flight M j d \<or> flight M' j d = add_mset (int idx) (flight M j d)"
      using M' m by (auto simp: addressee_def)
    have other: "flight M' k e = flight M k e" if "k \<noteq> j \<or> e \<noteq> d" for k e
      using M' m that by (auto simp: addressee_def)
    have nidx: "int idx \<notin># flight M j d" using fl(2) [of "int idx"] by auto
    have "batch_inv cfg j i d (Suc idx) (on_conn i ?f r) M'"
    proof (rule batch_on_conn [OF b])
      show "fd (?f (conn_at i r)) = d" "conn_type (?f (conn_at i r)) \<in> {READ, WRITE}" "\<not> suspended (?f (conn_at i r))"
        "pending_itc (?f (conn_at i r)) = int (count_list (pipeline_results (?f (conn_at i r))) [])"
        using cl by simp_all
      show "length (pipeline_results (?f (conn_at i r))) = Suc idx" using len by simp
      show "int (size (flight M' j d)) \<le> pending_itc (?f (conn_at i r))" using fl(1) F by auto
      show "flight M' j e = flight M j e" if "e \<noteq> d" for e using other that by simp
      fix z assume z: "z \<in># flight M' j d"
      show "count (flight M' j d) z = 1 \<and> 0 \<le> z \<and> z < int (Suc idx) \<and> pipeline_results (?f (conn_at i r)) ! nat z = []"
      proof (cases "z = int idx")
        case True
        with z F nidx have "flight M' j d = add_mset (int idx) (flight M j d)" by auto
        with True nidx len show ?thesis by (simp add: not_in_iff nth_append)
      next
        case False
        with z F have "z \<in># flight M j d" by auto
        from fl(2) [OF this] F False len show ?thesis by (auto simp: nth_append nat_less_iff)
      qed
    qed
    moreover have "msgs_ok (g_num_reactors cfg) M'" using M' ok m j by auto
    moreover have "others_shrink j M M'" using other by (simp add: others_shrink_def)
    ultimately have "batch_after cfg j i d (Suc idx) M ?r x'" unfolding r' batch_after_def using h by blast
    then show "case (?r, y) of (r', x', _) \<Rightarrow> batch_after cfg j i d (Suc idx) M r' x'" by (simp add: y)
  qed
qed

lemma batch_engine:
  assumes "batch_inv cfg j i d idx r M" "engine_ok cfg j e" "same_flush (r_engine r) e"
  shows "batch_inv cfg j i d idx (r\<lparr>r_engine := e\<rparr>) M"
  using assms node_inv_engine by (auto simp: batch_inv_def conn_at_def)

lemma batch_afterI:
  "batch_inv cfg j i d idx r M \<Longrightarrow> holds cfg x M \<Longrightarrow> msgs_ok (g_num_reactors cfg) M \<Longrightarrow> batch_after cfg j i d idx M r x"
  by (auto simp: batch_after_def)

lemma request_message_simps [simp]:
  "itc_type (request_message junk t rid d n) = t" "sender_reactor (request_message junk t rid d n) = rid"
  "conn_fd (request_message junk t rid d n) = d" "pipeline_idx (request_message junk t rid d n) = int n"
  "message_ok (request_message junk t rid d n) = message_ok junk"
  by (simp_all add: request_message_def message_ok_def)

lemma requests_typed:
  assumes "message_ok junk" "j < n" "int j \<noteq> owner" "0 \<le> owner" "key \<noteq> []" "owner_of 512 (int n) key = owner"
  shows "message_typed n (nat owner) (set_key key (request_message junk GET_REQ (int j) d idx))"
    "message_typed n (nat owner) ((set_value val (set_key key (request_message junk SET_REQ (int j) d idx)))\<lparr>ttl_ms := ttl\<rparr>)"
proof -
  have frame: "message_ok (m\<lparr>ttl_ms := ttl\<rparr>) = message_ok m" "get_key (m\<lparr>ttl_ms := ttl\<rparr>) = get_key m"
    "get_value (m\<lparr>ttl_ms := ttl\<rparr>) = get_value m" for m
    by (simp_all add: message_ok_def get_key_def get_value_def)
  have k: "key_for n (nat owner) (take 127 key)" by (rule key_for_cut) (use assms in simp_all)
  show "message_typed n (nat owner) (set_key key (request_message junk GET_REQ (int j) d idx))"
    "message_typed n (nat owner) ((set_value val (set_key key (request_message junk SET_REQ (int j) d idx)))\<lparr>ttl_ms := ttl\<rparr>)"
    using assms k by (simp_all add: message_typed_def frame)
qed

lemma run_set_ok:
  assumes b: "batch_inv cfg j i d idx r M" and ok: "msgs_ok (g_num_reactors cfg) M" and x: "holds cfg x M"
    and j: "j < g_num_reactors cfg" and o: "0 \<le> owner" "owner < int (g_num_reactors cfg)" and junk: "message_ok junk"
    and key: "owner \<noteq> int j \<Longrightarrow> cmd_args c ! 0 \<noteq> [] \<and> owner_of 512 (int (g_num_reactors cfg)) (cmd_args c ! 0) = owner"
  shows "outcome (run_set cfg now junk i idx owner c (r, x, marks)) (\<lambda>(r', x', _). batch_after cfg j i d (Suc idx) M r' x')"
proof -
  have e: "engine_ok cfg j (r_engine r)" and rid: "r_id r = int j" using b by (simp_all add: batch_inv_def node_inv_def)
  have d: "fd (conn_at i r) = d" by (rule batch_client(1) [OF b])
  show ?thesis
  proof (cases "owner = int j")
    case True
    show ?thesis
      unfolding run_set_def Let_def fst_conv snd_conv rid if_P [OF True]
    proof (intro outcome_map outcome_weaken [OF engine_set_ok [OF e]])
      fix e' assume "engine_ok cfg j e' \<and> same_flush (r_engine r) e'"
      then have "batch_inv cfg j i d (Suc idx)
          (push_result i resp_OK (r\<lparr>r_engine := append_aof_set (cmd_args c ! 0) (cmd_args c ! 1) e'\<rparr>)) M"
        by (intro push_result_ok batch_engine [OF b]) simp_all
      from batch_afterI [OF this x ok]
      show "case (push_result i resp_OK (r\<lparr>r_engine := append_aof_set (cmd_args c ! 0) (cmd_args c ! 1) e'\<rparr>), x, marks) of
          (r', x', _) \<Rightarrow> batch_after cfg j i d (Suc idx) M r' x'" by simp
    qed
  next
    case False
    show ?thesis
      unfolding run_set_def Let_def fst_conv snd_conv rid if_not_P [OF False] d
      by (rule forward_ok [OF b ok x j o]) (use key False junk j o requests_typed(2) in auto)
  qed
qed

lemma run_get_ok:
  assumes b: "batch_inv cfg j i d idx r M" and ok: "msgs_ok (g_num_reactors cfg) M" and x: "holds cfg x M"
    and j: "j < g_num_reactors cfg" and o: "0 \<le> owner" "owner < int (g_num_reactors cfg)" and junk: "message_ok junk"
    and key: "owner \<noteq> int j \<Longrightarrow> cmd_args c ! 0 \<noteq> [] \<and> owner_of 512 (int (g_num_reactors cfg)) (cmd_args c ! 0) = owner"
  shows "outcome (run_get cfg now junk i idx owner c (r, x, marks)) (\<lambda>(r', x', _). batch_after cfg j i d (Suc idx) M r' x')"
proof -
  have e: "engine_ok cfg j (r_engine r)" and rid: "r_id r = int j" using b by (simp_all add: batch_inv_def node_inv_def)
  have d: "fd (conn_at i r) = d" by (rule batch_client(1) [OF b])
  show ?thesis
  proof (cases "owner = int j")
    case True
    show ?thesis
      unfolding run_get_def Let_def fst_conv snd_conv rid if_P [OF True]
    proof (intro outcome_map outcome_weaken [OF engine_get_ok [OF e]])
      fix y :: "bytes option \<times> engine" assume "case y of (_, e') \<Rightarrow> engine_ok cfg j e' \<and> same_flush (r_engine r) e'"
      then obtain v e' where y: "y = (v, e')" "engine_ok cfg j e'" "same_flush (r_engine r) e'" by auto
      have "batch_inv cfg j i d (Suc idx)
          (push_result i (case v of Some v \<Rightarrow> bulk v | None \<Rightarrow> resp_NIL) (r\<lparr>r_engine := e'\<rparr>)) M"
        by (intro push_result_ok batch_engine [OF b] y) (simp split: option.split)
      from batch_afterI [OF this x ok]
      show "case (case y of (val, e) \<Rightarrow> (push_result i (case val of Some v \<Rightarrow> bulk v | None \<Rightarrow> resp_NIL) (r\<lparr>r_engine := e\<rparr>), x, marks)) of
          (r', x', _) \<Rightarrow> batch_after cfg j i d (Suc idx) M r' x'" by (simp add: y)
    qed
  next
    case False
    show ?thesis
      unfolding run_get_def Let_def fst_conv snd_conv rid if_not_P [OF False] d
      by (rule forward_ok [OF b ok x j o]) (use key False junk j o requests_typed(1) in auto)
  qed
qed

lemma fast_owner_ok:
  assumes "engine_ok cfg j e"
  shows "outcome (fast_owner e key) (\<lambda>o'. 0 \<le> o' \<and> o' < int (g_num_reactors cfg) \<and>
    owner_of 512 (int (g_num_reactors cfg)) key = o')"
proof -
  have "engine_wf e" "0 < shard_count e" "0 < num_reactors e" "num_reactors e = int (g_num_reactors cfg)" "shard_count e = 512"
    using assms by (auto simp: engine_ok_def engine_wf_def)
  with owner_bounds [of "shard_count e" "num_reactors e" key] show ?thesis by (simp add: fast_owner_wf)
qed

lemma run_command_ok:
  assumes b: "batch_inv cfg j i d idx r M" and ok: "msgs_ok (g_num_reactors cfg) M" and x: "holds cfg x M"
    and j: "j < g_num_reactors cfg" and junk: "message_ok junk"
  shows "outcome (run_command cfg now junk i idx c (r, x, marks)) (\<lambda>(r', x', _). batch_after cfg j i d (Suc idx) M r' x')"
proof -
  have e: "engine_ok cfg j (r_engine r)" and rid: "r_id r = int j" using b by (simp_all add: batch_inv_def node_inv_def)
  let ?key = "if (cmd_type c = ''GET'' \<or> cmd_type c = ''SET'') \<and> cmd_args c \<noteq> [] then cmd_args c ! 0 else []"
  have own: "outcome (if ?key = [] then Inr (r_id r) else fast_owner (r_engine r) ?key)
      (\<lambda>o'. 0 \<le> o' \<and> o' < int (g_num_reactors cfg) \<and>
        (o' \<noteq> int j \<longrightarrow> ?key \<noteq> [] \<and> owner_of 512 (int (g_num_reactors cfg)) ?key = o'))"
  proof (cases "?key = []")
    case True
    with j show ?thesis unfolding if_P [OF True] rid by simp
  next
    case False
    show ?thesis unfolding if_not_P [OF False]
      by (rule outcome_weaken [OF fast_owner_ok [OF e]]) (use False in blast)
  qed
  show ?thesis
    unfolding run_command_def Let_def fst_conv snd_conv
  proof (rule outcome_bind [OF own])
    fix owner assume o: "0 \<le> owner \<and> owner < int (g_num_reactors cfg) \<and>
      (owner \<noteq> int j \<longrightarrow> ?key \<noteq> [] \<and> owner_of 512 (int (g_num_reactors cfg)) ?key = owner)"
    have key: "cmd_args c ! 0 \<noteq> [] \<and> owner_of 512 (int (g_num_reactors cfg)) (cmd_args c ! 0) = owner" if "owner \<noteq> int j"
      using o that by (auto split: if_splits)
    let ?reply = "if cmd_type c = ''CONFIG'' then resp_EMPTY_ARRAY
      else if cmd_type c = ''EXPIRE'' \<and> 2 \<le> length (cmd_args c) then '':1'' @ crlf
      else if cmd_type c = ''PING'' then resp_PONG else resp_ERR_UNKNOWN"
    have "?reply \<noteq> []" by simp
    from batch_afterI [OF push_result_ok [OF b this] x ok]
    show "outcome (if cmd_type c = ''SET'' \<and> 2 \<le> length (cmd_args c) then run_set cfg now junk i idx owner c (r, x, marks)
        else if cmd_type c = ''GET'' \<and> cmd_args c \<noteq> [] then run_get cfg now junk i idx owner c (r, x, marks)
        else Inr (push_result i ?reply r, x, marks)) (\<lambda>(r', x', _). batch_after cfg j i d (Suc idx) M r' x')"
      using run_set_ok [OF b ok x j _ _ junk key, of now marks] run_get_ok [OF b ok x j _ _ junk key, of now marks] o
      by simp
  qed
qed

lemma run_commands_ok:
  assumes "batch_inv cfg j i d idx r M" "msgs_ok (g_num_reactors cfg) M" "holds cfg x M"
    "j < g_num_reactors cfg" "\<And>n. message_ok (junk n)"
  shows "outcome (run_commands cfg clock junk i bs idx (r, x, marks))
    (\<lambda>(idx', r', x', _). batch_after cfg j i d idx' M r' x')"
  using assms(1-3)
proof (induction "length bs" arbitrary: bs idx r x marks M rule: less_induct)
  case less
  show ?case
  proof (cases "bs = [] \<or> consumed (parse bs) = 0")
    case True
    then have "run_commands cfg clock junk i bs idx (r, x, marks) = Inr (idx, r, x, marks)"
      by (subst run_commands.simps) (auto simp: Let_def)
    with batch_afterI [OF less(2,4,3)] show ?thesis by simp
  next
    case False
    let ?n = "consumed (parse bs)"
    have run: "run_commands cfg clock junk i bs idx (r, x, marks) =
      ub_bind (run_command cfg (clock idx) (junk idx) i idx (cmd (parse bs)) (r, x, marks))
        (run_commands cfg clock junk i (drop ?n bs) (idx + 1))"
      using False by (subst run_commands.simps) (simp add: Let_def)
    show ?thesis
      unfolding run
    proof (rule outcome_bind [OF run_command_ok [OF less(2-4) assms(4,5)]])
      fix y :: "reactor \<times> itc_context \<times> u64"
      assume "case y of (r', x', _) \<Rightarrow> batch_after cfg j i d (Suc idx) M r' x'"
      then obtain r' x' marks' M' where y: "y = (r', x', marks')" and M': "holds cfg x' M'"
        "msgs_ok (g_num_reactors cfg) M'" "batch_inv cfg j i d (Suc idx) r' M'" "others_shrink j M M'"
        by (auto simp: batch_after_def)
      have "0 < ?n" "0 < length bs" using False by (simp_all del: parse_consumed_0_iff)
      then have "length (drop ?n bs) < length bs" by simp
      from less(1) [OF this M'(3,2,1), of marks']
      show "outcome (run_commands cfg clock junk i (drop ?n bs) (idx + 1) y)
        (\<lambda>(idx', r', x', _). batch_after cfg j i d idx' M r' x')"
        unfolding y Suc_eq_plus1
        by (rule outcome_weaken) (use M'(4) others_shrink_trans in \<open>fastforce simp: batch_after_def\<close>)
    qed
  qed
qed

section \<open>Completions\<close>

lemma signal_marked_ok:
  assumes "holds cfg x M" "\<forall>k \<in> set js. k < g_num_reactors cfg"
  shows "outcome (signal_marked marks js x) (\<lambda>x'. holds cfg x' M)"
  using assms
proof (induction js arbitrary: x)
  case (Cons k js)
  from Cons.prems obtain c where c: "itc_repr (threads cfg) x c" "M = all_messages (g_num_reactors cfg) (threads cfg) c"
    "length (inboxes x) = g_num_reactors cfg" by (auto simp: bus_holds_def)
  have "k < length (inboxes x)" using Cons.prems c(3) by simp
  from itc_signal_ok [OF c(1) this] obtain b x' where s: "itc_signal (int k) x = Inr (b, x')" "inboxes x' = inboxes x"
    "itc_repr (threads cfg) x' c" by blast
  have "holds cfg x' M" using s c by (auto simp: bus_holds_def)
  with Cons s(1) show ?case
    by (auto intro!: outcome_bind [OF outcome_shift])
qed simp

lemma node_inv_same:
  assumes v: "node_inv cfg j X r M" and l: "local_inv r' Y" and s: "same_clients r r'" "fd_to_conn r' = fd_to_conn r"
    and e: "engine_ok cfg j (r_engine r')"
  shows "node_inv cfg j Y r' M"
proof -
  have "flight_ok r' (flight M j d) d" for d
    by (rule flight_ok_same [OF s(1)]) (use v s(2) in \<open>simp_all add: node_inv_def\<close>)
  with l e s(1) v show ?thesis by (simp add: node_inv_def same_clients_def)
qed

lemma finish_drain_ok:
  assumes v: "node_inv cfg j {} r M" and x: "holds cfg x M" and ok: "msgs_ok (g_num_reactors cfg) M" and room: "room_ok cfg"
  shows "outcome (finish_drain cfg (r, x, marks)) (\<lambda>(r', x'). after cfg j {} M r' x')"
proof -
  have l: "local_inv r {}" using v by (simp add: node_inv_def)
  note f = flush_aof_ok [OF l room]
  then have g: "local_inv (ring_submit (flush_aof cfg r)) {}" "same_clients (flush_aof cfg r) (ring_submit (flush_aof cfg r))"
    "fd_to_conn (ring_submit (flush_aof cfg r)) = fd_to_conn r"
    using ring_submit_ok [of "flush_aof cfg r" "{}"] by simp_all
  have "engine_ok cfg j (r_engine (flush_aof cfg r))"
    using v by (auto simp: node_inv_def flush_aof_def Let_def engine_ok_def engine_wf_def split: option.split)
  then have e: "engine_ok cfg j (r_engine (ring_submit (flush_aof cfg r)))" by (simp add: ring_submit_def)
  have "same_clients r (ring_submit (flush_aof cfg r))" using f g(2) same_clients_trans by blast
  from node_inv_same [OF v g(1) this g(3) e] ok
  show ?thesis unfolding finish_drain_def fst_conv snd_conv
    by (intro outcome_map outcome_weaken [OF signal_marked_ok [OF x]]) (auto simp: after_def)
qed

text \<open>Answering a connection ends its being served.\<close>

lemma node_responded:
  assumes b: "batch_inv cfg j i d idx r M" and l: "local_inv r' ({i} - {i})" and s: "responded i r r'"
  shows "node_inv cfg j {} r' M"
proof -
  have v: "node_inv cfg j {i} r M" and i: "fd_to_conn r d = Some i" using b by (simp_all add: batch_inv_def)
  have fr: "client_frame i r r'" using s by (simp add: responded_def)
  have "flight_ok r' (flight M j e) e" for e
  proof (cases "e = d")
    case True
    have F: "int (size (flight M j d)) \<le> pending_itc (conn_at i r)" by (rule batch_flight(1) [OF b])
    show ?thesis
    proof (cases "0 < pending_itc (conn_at i r)")
      case True
      with s fr i v \<open>e = d\<close> show ?thesis
        by (auto simp: responded_def client_frame_def flight_ok_def node_inv_def Let_def split: option.splits)
    next
      case False
      with F batch_client(5) [OF b] have "size (flight M j d) = 0" "pending_itc (conn_at i r) = 0" by linarith+
      then have "flight M j d = {#}" "pending_itc (conn_at i r) = 0" by simp_all
      with s fr i \<open>e = d\<close> show ?thesis by (simp add: flight_ok_def responded_def client_frame_def)
    qed
  next
    case False
    have l0: "local_inv r {i}" using v by (simp add: node_inv_def)
    have "k \<noteq> i" if "fd_to_conn r e = Some k" for k using client_inj [OF l0 i, of e] that False by auto
    moreover have "flight_ok r (flight M j e) e" using v by (simp add: node_inv_def)
    ultimately show ?thesis using fr by (auto simp: flight_ok_def client_frame_def split: option.splits)
  qed
  with v fr l show ?thesis by (simp add: node_inv_def client_frame_def)
qed

lemma complete_read_ok:
  assumes b: "batch_inv cfg j i d idx r M" and p: "pending_itc (conn_at i r) = 0"
    and ok: "msgs_ok (g_num_reactors cfg) M" and x: "holds cfg x M"
    and j: "j < g_num_reactors cfg" and room: "room_ok cfg" and junk: "\<And>n. message_ok (junk n)"
  shows "outcome (complete_read cfg clock junk i bs (r, x)) (\<lambda>(r', x'). after cfg j {} M r' x')"
proof -
  let ?f = "\<lambda>c. c\<lparr>buffer := bs, response_data := [], pipeline_results := [], pending_itc := 0\<rparr>"
  note cl = batch_client [OF b]
  have F: "flight M j d = {#}" using batch_flight(1) [OF b] p by simp
  have b0: "batch_inv cfg j i d 0 (on_conn i ?f r) M"
    by (rule batch_on_conn [OF b]) (use cl F in simp_all)
  show ?thesis
    unfolding complete_read_def Let_def fst_conv snd_conv
  proof (rule outcome_bind [OF run_commands_ok [OF b0 ok x j junk]])
    fix y :: "nat \<times> reactor \<times> itc_context \<times> u64"
    assume "case y of (idx', r', x', _) \<Rightarrow> batch_after cfg j i d idx' M r' x'"
    then obtain n r1 x1 marks M1 where y: "y = (n, r1, x1, marks)" and M1: "holds cfg x1 M1"
      "msgs_ok (g_num_reactors cfg) M1" "batch_inv cfg j i d n r1 M1" "others_shrink j M M1"
      by (auto simp: batch_after_def)
    let ?r = "on_conn i (\<lambda>c. c\<lparr>expected_results := int n\<rparr>) r1"
    have b1: "batch_inv cfg j i d n ?r M1"
      by (rule batch_on_conn [OF M1(3)])
        (use batch_client [OF M1(3)] batch_flight [OF M1(3)] M1(3) in \<open>simp_all add: batch_inv_def\<close>)
    have l1: "local_inv ?r {i}" and i1: "fd_to_conn ?r d = Some i" using b1 by (simp_all add: batch_inv_def node_inv_def)
    from submit_response_ok [OF l1 i1 _ room] obtain r2 where r2: "submit_response cfg i ?r = Inr r2"
      "local_inv r2 ({i} - {i})" "responded i ?r r2" by blast
    have v2: "node_inv cfg j {} r2 M1" by (rule node_responded [OF b1 r2(2,3)])
    show "outcome (case y of (cmd_idx, r, x, marks) \<Rightarrow>
        ub_bind (signal_marked marks [0..<g_num_reactors cfg] x) (\<lambda>x.
          ub_map (\<lambda>r. (r, x)) (submit_response cfg i (on_conn i (\<lambda>c. c\<lparr>expected_results := int cmd_idx\<rparr>) r))))
      (\<lambda>(r', x'). after cfg j {} M r' x')"
      unfolding y prod.case r2(1) ub_map_simps
      by (rule outcome_bind [OF signal_marked_ok [OF M1(1)]]) (use v2 M1(2,4) in \<open>auto simp: after_def\<close>)
  qed
qed

lemma complete_aof_engine [simp]: "engine_ok cfg j (r_engine (complete_aof cfg' i res r)) = engine_ok cfg j (r_engine r)"
  by (simp add: complete_aof_def Let_def engine_ok_def engine_wf_def)

text \<open>
  What the kernel may report: an accepted descriptor is not open, a read returns the bytes it
  read, and a read of the eventfd does not fail.
\<close>

definition kernel_result :: "reactor \<Rightarrow> io_op \<Rightarrow> int \<Rightarrow> bytes \<Rightarrow> bool" where
  "kernel_result r op res bs \<longleftrightarrow>
     (case op of
        Accept_op _ \<Rightarrow> res < 0 \<or> fd_to_conn r res = None
      | Read_event _ \<Rightarrow> 0 \<le> res
      | Read_conn _ \<Rightarrow> res < 0 \<or> int (length bs) = res
      | _ \<Rightarrow> True)"

lemma node_inv_take:
  assumes v: "node_inv cfg j {} r M" and op: "op \<in> set (in_kernel r)"
  shows "node_inv cfg j {i. i = sqe_data op \<and> (\<exists>d. fd_to_conn r d = Some i)} (take_completion op r) M"
proof -
  have l: "local_inv r {}" using v by (simp add: node_inv_def)
  have "same_clients r (take_completion op r)" by (simp add: same_clients_def)
  from node_inv_same [OF v local_inv_take [OF l op] this] v show ?thesis by (simp add: node_inv_def)
qed

lemma afterI:
  "node_inv cfg j X r M \<Longrightarrow> holds cfg x M \<Longrightarrow> msgs_ok (g_num_reactors cfg) M \<Longrightarrow> after cfg j X M r x"
  by (auto simp: after_def)

lemma close_client_ok:
  assumes b: "batch_inv cfg j i d idx r M" and p: "pending_itc (conn_at i r) = 0"
  shows "node_inv cfg j {} (close_conn i r) M"
proof -
  have v: "node_inv cfg j {i} r M" and i: "fd_to_conn r d = Some i" and l: "local_inv r {i}"
    using b by (simp_all add: batch_inv_def node_inv_def)
  note c = close_conn_ok [OF l i, simplified]
  have F: "flight M j d = {#}" using batch_flight(1) [OF b] p by simp
  have "flight_ok (close_conn i r) (flight M j e) e" for e
  proof (cases "e = d")
    case True
    with c F show ?thesis by (simp add: flight_ok_def)
  next
    case False
    have "k \<noteq> i" if "fd_to_conn r e = Some k" for k using client_inj [OF l i, of e] that False by auto
    moreover have "flight_ok r (flight M j e) e" using v by (simp add: node_inv_def)
    ultimately show ?thesis using c False by (auto simp: flight_ok_def split: option.splits)
  qed
  with v c show ?thesis by (simp add: node_inv_def)
qed

text \<open>A completion of reactor \<open>j\<close>: its operation leaves the ring and is handled.\<close>

lemma client_completion:
  assumes v: "node_inv cfg j {} r M" and op: "op \<in> set (in_kernel r)" and i: "fd_to_conn r d = Some (sqe_data op)"
  shows "batch_inv cfg j (sqe_data op) d (length (pipeline_results (conn_at (sqe_data op) r))) (take_completion op r) M"
    "pending_itc (conn_at (sqe_data op) (take_completion op r)) = 0"
proof -
  let ?i = "sqe_data op"
  have l: "local_inv r {}" using v by (simp add: node_inv_def)
  have c: "client_ok r {} d ?i" by (rule client [OF l i])
  have "?i \<in> op_slots r" using op by (auto simp: op_slots_def ops_def)
  with c show "pending_itc (conn_at ?i (take_completion op r)) = 0" by (auto simp: client_ok_def Let_def split: if_splits)
  have "{i. i = ?i \<and> (\<exists>d. fd_to_conn r d = Some i)} = {?i}" using i by auto
  with node_inv_take [OF v op] i
  show "batch_inv cfg j ?i d (length (pipeline_results (conn_at ?i r))) (take_completion op r) M"
    by (simp add: batch_inv_def)
qed

lemma other_completion:
  assumes v: "node_inv cfg j {} r M" and op: "op \<in> set (in_kernel r)"
    and ty: "conn_type (conn_at (sqe_data op) r) \<notin> {READ, WRITE}"
  shows "node_inv cfg j {} (take_completion op r) M" "sqe_data op \<notin> op_slots (take_completion op r)"
proof -
  have l: "local_inv r {}" using v by (simp add: node_inv_def)
  have "fd_to_conn r d \<noteq> Some (sqe_data op)" for d
    using client [OF l, of d "sqe_data op"] ty by (auto simp: client_ok_def Let_def)
  then have "{i. i = sqe_data op \<and> (\<exists>d. fd_to_conn r d = Some i)} = {}" by auto
  with node_inv_take [OF v op] show "node_inv cfg j {} (take_completion op r) M" by simp
  show "sqe_data op \<notin> op_slots (take_completion op r)" using op_slots_take [OF l op] by simp
qed

lemma op_in_kernel:
  "node_inv cfg j X r M \<Longrightarrow> op \<in> set (in_kernel r) \<Longrightarrow> op_matches r op"
  by (simp add: node_inv_def local_inv_def ops_def)

lemma handle_completion_ok:
  assumes v: "node_inv cfg j {} r M" and op: "op \<in> set (in_kernel r)" and k: "kernel_result r (sqe_op op) res bs"
    and ok: "msgs_ok (g_num_reactors cfg) M" and x: "holds cfg x M"
    and j: "j < g_num_reactors cfg" and room: "room_ok cfg" and junk: "\<And>n. message_ok (junk n)"
  shows "outcome (handle_completion cfg clock junk (sqe_data op) res bs (take_completion op r, x))
    (\<lambda>(r', x'). after cfg j {} M r' x')"
proof -
  let ?i = "sqe_data op" and ?r = "take_completion op r"
  have m: "op_matches r op" by (rule op_in_kernel [OF v op])
  have l: "local_inv r {}" using v by (simp add: node_inv_def)
  note cl = client_completion [OF v op] and ot = other_completion [OF v op]
  show ?thesis
  proof (cases "sqe_op op")
    case (Accept_op d)
    then have ty: "conn_type (conn_at ?i r) = ACCEPT" using m by (simp add: op_matches_def Let_def)
    have v1: "node_inv cfg j {} ?r M" using ot ty by simp
    show ?thesis
    proof (cases "res < 0")
      case True
      with ty v1 x ok show ?thesis by (simp add: handle_completion_def Let_def afterI)
    next
      case False
      have l1: "local_inv ?r {}" and new: "fd_to_conn ?r res = None" using v1 k False Accept_op
        by (simp_all add: node_inv_def kernel_result_def)
      from complete_accept_ok [OF l1 room new] obtain r2 where r2: "complete_accept cfg res ?r = Inr r2" "local_inv r2 {}"
        "same_clients ?r r2" "r_engine r2 = r_engine ?r"
        "\<forall>d i. fd_to_conn r2 d = Some i \<longrightarrow> fd_to_conn ?r d = Some i \<or> d = res \<and> pending_itc (conn_at i r2) = 0" by blast
      have "flight_ok r2 (flight M j e) e" for e
      proof (rule flight_ok_same [OF r2(3)])
        show "flight_ok ?r (flight M j e) e" using v1 by (simp add: node_inv_def)
        assume "fd_to_conn ?r e = None"
        with r2(5) show "fd_to_conn r2 e = None \<or> (\<exists>i. fd_to_conn r2 e = Some i \<and> 0 \<le> pending_itc (conn_at i r2))"
          by (cases "fd_to_conn r2 e") fastforce+
      qed
      then have "node_inv cfg j {} r2 M" using v1 r2 by (simp add: node_inv_def same_clients_def)
      with False ty r2(1) x ok show ?thesis by (simp add: handle_completion_def Let_def afterI)
    qed
  next
    case (Read_event d)
    then have i: "itc_conn r = Some ?i" using m by (simp add: op_matches_def Let_def)
    then have ty: "conn_type (conn_at ?i r) = ITC_EVENT" using l by (simp add: local_inv_def)
    have v1: "node_inv cfg j {} ?r M" and n: "?i \<notin> op_slots ?r" using ot ty by simp_all
    have l1: "local_inv ?r {}" using v1 by (simp add: node_inv_def)
    from submit_itc_read_ok [OF l1 _ room] n i obtain r2 where r2: "submit_itc_read cfg ?r = Inr r2" "local_inv r2 {}"
      "same_clients ?r r2" "fd_to_conn r2 = fd_to_conn ?r" "r_engine r2 = r_engine ?r" by auto
    have "engine_ok cfg j (r_engine r2)" using v1 r2(5) by (simp add: node_inv_def)
    from node_inv_same [OF v1 r2(2-4) this] have "node_inv cfg j {} r2 M" .
    with k Read_event ty r2(1) x ok show ?thesis by (simp add: handle_completion_def Let_def afterI kernel_result_def)
  next
    case (Read_conn d)
    then have ty: "conn_type (conn_at ?i r) = READ" and i: "fd_to_conn r d = Some ?i" using m by (simp_all add: op_matches_def Let_def)
    have close: "after cfg j {} M (close_conn ?i ?r) x" by (rule afterI [OF close_client_ok [OF cl [OF i]] x ok])
    from complete_read_ok [OF cl [OF i] ok x j room junk] close ty k Read_conn show ?thesis
      by (simp add: handle_completion_def Let_def)
  next
    case (Send_op d b)
    then have ty: "conn_type (conn_at ?i r) = WRITE" and i: "fd_to_conn r d = Some ?i" using m by (simp_all add: op_matches_def Let_def)
    have close: "after cfg j {} M (close_conn ?i ?r) x" by (rule afterI [OF close_client_ok [OF cl [OF i]] x ok])
    note b = cl [OF i]
    have l1: "local_inv ?r {?i}" and i1: "fd_to_conn ?r d = Some ?i" using b(1) by (simp_all add: batch_inv_def node_inv_def)
    from complete_write_ok [OF l1 i1 _ room b(2)] obtain r2 where r2: "complete_write cfg ?i ?r = Inr r2"
      "local_inv r2 ({?i} - {?i})" "responded ?i ?r r2" by blast
    have "after cfg j {} M r2 x" by (rule afterI [OF node_responded [OF b(1) r2(2,3)] x ok])
    with close ty r2(1) show ?thesis by (simp add: handle_completion_def Let_def)
  next
    case (Write_aof d b)
    then have a: "aof_conn r = Some ?i" and fl: "aof_in_flight (r_engine r)" using m by (simp_all add: op_matches_def Let_def)
    then have ty: "conn_type (conn_at ?i r) = AOF_WRITE" using l by (simp add: local_inv_def)
    have v1: "node_inv cfg j {} ?r M" and n: "?i \<notin> op_slots ?r" using ot ty by simp_all
    have l1: "local_inv ?r {}" and e1: "engine_ok cfg j (r_engine ?r)" using v1 by (simp_all add: node_inv_def)
    have n1: "no_aof_op ?r" and a1: "aof_conn ?r = Some ?i" and fl1: "aof_in_flight (r_engine ?r)"
      using n a fl by (simp_all add: no_aof_op_def)
    note c = complete_aof_ok [OF l1 n1 a1 room fl1]
    have "node_inv cfg j {} (complete_aof cfg ?i res ?r) M"
      by (rule node_inv_same [OF v1]) (use c e1 in simp_all)
    with ty x ok show ?thesis by (simp add: handle_completion_def Let_def afterI)
  qed
qed

end
