(* ===== verification/Startup.thy ===== *)
theory Startup
  imports System
begin

text \<open>
  What \<open>run_reactor\<close> has before it enters its loop: the engine that recovery built is
  well-formed whatever the file held, and the pool, the ring and the sentinels satisfy the
  invariant.
\<close>

section \<open>The engine after recovery\<close>

lemma recover_set_keeps:
  assumes "\<forall>now k v ttl e e'. P e \<longrightarrow> engine_set now k v ttl e = Inr e' \<longrightarrow> P e'"
    and "P (rec_engine st)" "recover_set clock data n st = Inr st'"
  shows "P (rec_engine st')"
  using assms(2,3)
  by (auto simp: recover_set_def ub_map_Inr_iff split: if_splits option.splits) (metis assms(1))+

lemma recover_step_keeps:
  assumes "\<forall>now k v ttl e e'. P e \<longrightarrow> engine_set now k v ttl e = Inr e' \<longrightarrow> P e'"
    and "P (rec_engine st)" "recover_step clock data st = Inr ex"
  shows "case ex of Break st' \<Rightarrow> P (rec_engine st') | Continue st' \<Rightarrow> P (rec_engine st')"
proof -
  have s: "P (rec_engine st'')" if "recover_set clock data n (st\<lparr>rec_pos := b\<rparr>) = Inr st''" for n b st''
    using recover_set_keeps [OF assms(1) _ that] assms(2) by simp
  show ?thesis
    using assms(2,3)
    by (auto simp: recover_step_def Let_def ub_map_Inr_iff split: if_splits) (erule s)+
qed

lemma recover_loop_keeps:
  assumes set: "\<forall>now k v ttl e e'. P e \<longrightarrow> engine_set now k v ttl e = Inr e' \<longrightarrow> P e'"
    and "P (rec_engine st)" "recover_loop clock data st = Inr st'"
  shows "P (rec_engine st')"
  using assms(2,3)
proof (induction clock data st rule: recover_loop.induct)
  case (1 clock data st)
  show ?case
  proof (cases "rec_pos st < length data")
    case True
    with "1.prems"(2) obtain ex where ex: "recover_step clock data st = Inr ex"
      "(case ex of Break st2 \<Rightarrow> Inr st2 | Continue st2 \<Rightarrow> recover_loop clock data st2) = Inr st'"
      by (subst (asm) recover_loop.simps) auto
    with recover_step_keeps [OF set "1.prems"(1) ex(1)] "1.IH" [OF True, of ex] show ?thesis
      by (cases ex) auto
  next
    case False
    with "1.prems" show ?thesis by (subst (asm) recover_loop.simps) simp
  qed
qed

lemma new_engine_keeps:
  assumes "\<forall>now k v ttl e e'. P e \<longrightarrow> engine_set now k v ttl e = Inr e' \<longrightarrow> P e'"
    and "\<And>name e. P e \<Longrightarrow> P (e\<lparr>file_name := name\<rparr>)" "\<And>d e. P e \<Longrightarrow> P (e\<lparr>aof_fd := d\<rparr>)"
    and "P (engine_fields k rid n)" "new_engine k rid n clock file opened = Inr e"
  shows "P e"
proof -
  have r: "P e0 \<Longrightarrow> P (rec_engine st)" if "recover_from_aof clock file e0 = Inr st" for e0 st
    using that recover_loop_keeps [OF assms(1), of "\<lparr>rec_pos = 0, rec_tick = 0, rec_count = 0, rec_engine = e0\<rparr>"]
    by (auto simp: recover_from_aof_def Let_def split: option.splits if_splits)
  show ?thesis
    using assms(4,5)
    by (auto simp: new_engine_def Let_def ub_map_Inr_iff intro!: assms(2,3) dest: r split: if_splits)
qed

lemma new_engine_ok:
  assumes "j < g_num_reactors cfg" "512 * int (g_num_reactors cfg) < 2 ^ 31"
    and "new_engine 512 (int j) (int (g_num_reactors cfg)) clock file opened = Inr e"
  shows "engine_ok cfg j e"
proof (rule new_engine_keeps [OF _ _ _ _ assms(3)])
  show "\<forall>now k v ttl e e'. engine_ok cfg j e \<longrightarrow> engine_set now k v ttl e = Inr e' \<longrightarrow> engine_ok cfg j e'"
    using outcome_Inr [OF engine_set_ok] by blast
  show "engine_ok cfg j (engine_fields 512 (int j) (int (g_num_reactors cfg)))"
    using engine_wf_fields [of 512 "int j" "int (g_num_reactors cfg)"] assms(1,2)
    by (simp add: engine_ok_def partitioned_fields) (simp add: engine_fields_def)
qed (auto simp: engine_ok_def engine_wf_def)

section \<open>The sentinels\<close>

lemma local_inv_set_itc:
  assumes l: "local_inv r X" and n: "itc_conn r = None" and i: "i \<in> held (r_pool r)" "conn_type (conn_at i r) = ITC_EVENT"
  shows "local_inv (r\<lparr>itc_conn := Some i\<rparr>) X"
proof -
  let ?r = "r\<lparr>itc_conn := Some i\<rparr>"
  have f: "conn_at k ?r = conn_at k r" "ops ?r = ops r" "op_slots ?r = op_slots r" for k
    by (simp_all add: conn_at_def ops_def op_slots_def)
  have "op_matches ?r op" if "op \<in> set (ops r)" for op
    using l n that by (auto simp: local_inv_def op_matches_def f Let_def split: io_op.splits)
  moreover have "client_ok ?r X d k" if "fd_to_conn r d = Some k" for d k
    using client [OF l that] by (subst client_ok_cong [of k _ r _ X]) (simp_all add: f)
  ultimately show ?thesis using l i by (simp add: local_inv_def f)
qed

lemma local_inv_set_aof:
  assumes l: "local_inv r X" and n: "aof_conn r = None" and i: "i \<in> held (r_pool r)" "conn_type (conn_at i r) = AOF_WRITE"
    and o: "i \<notin> op_slots r"
  shows "local_inv (r\<lparr>aof_conn := Some i\<rparr>) X"
proof -
  let ?r = "r\<lparr>aof_conn := Some i\<rparr>"
  have f: "conn_at k ?r = conn_at k r" "ops ?r = ops r" "op_slots ?r = op_slots r" for k
    by (simp_all add: conn_at_def ops_def op_slots_def)
  have "op_matches ?r op" if "op \<in> set (ops r)" for op
    using l n that by (auto simp: local_inv_def op_matches_def f Let_def split: io_op.splits)
  moreover have "client_ok ?r X d k" if "fd_to_conn r d = Some k" for d k
    using client [OF l that] by (subst client_ok_cong [of k _ r _ X]) (simp_all add: f)
  ultimately show ?thesis using l i o by (simp add: local_inv_def f)
qed

lemma submit_op_frame:
  "submit_op cfg op i r = Inr r' \<Longrightarrow> r' = r\<lparr>sq := sq r @ [\<lparr>sqe_op = op, sqe_data = i\<rparr>]\<rparr>"
  by (simp add: submit_op_def split: if_splits)

lemma submit_accept_frame:
  assumes "submit_accept cfg r = Inr r'"
  shows "itc_conn r' = itc_conn r" "aof_conn r' = aof_conn r" "r_id r' = r_id r" "fd_to_conn r' = fd_to_conn r"
    "in_kernel r' = in_kernel r"
  using assms by (auto simp: submit_accept_def dest!: submit_op_frame split: prod.splits option.splits)

lemma submit_itc_read_frame:
  assumes "submit_itc_read cfg r = Inr r'"
  shows "itc_conn r' = itc_conn r" "aof_conn r' = aof_conn r" "r_id r' = r_id r" "fd_to_conn r' = fd_to_conn r"
    "in_kernel r' = in_kernel r" "r_pool r' = r_pool r"
  using assms by (auto simp: submit_itc_read_def dest!: submit_op_frame split: option.splits)

section \<open>Entering the loop\<close>

text \<open>Acquiring a sentinel and writing its descriptor and type.\<close>

lemma acquire_sentinel:
  assumes l: "local_inv r {}" and a: "acquire (r_pool r) = (Some i, p)"
    and c: "\<And>c. conn_type (f c) = t"
  defines "r' \<equiv> on_conn i f (r\<lparr>r_pool := p\<rparr>)"
  shows "local_inv r' {}" "i \<in> held (r_pool r')" "conn_type (conn_at i r') = t" "i \<notin> op_slots r'"
    "itc_conn r' = itc_conn r" "aof_conn r' = aof_conn r" "fd_to_conn r' = fd_to_conn r" "r_id r' = r_id r"
    "r_engine r' = r_engine r"
  unfolding r'_def using local_inv_acquire [OF l a] by (simp_all add: c op_slots_def ops_def)

lemma start_reactor_ok:
  assumes run: "start_reactor cfg (int j) clock file opened sock x = Inr (Some r)"
    and j: "j < g_num_reactors cfg" and n: "512 * int (g_num_reactors cfg) < 2 ^ 31" and room: "room_ok cfg"
  shows "local_inv r {} \<and> r_id r = int j \<and> engine_ok cfg j (r_engine r) \<and> fd_to_conn r = Map.empty"
proof -
  from run obtain e where e: "new_engine 512 (int j) (int (g_num_reactors cfg)) clock file opened = Inr e"
    by (auto simp: start_reactor_def)
  have eok: "engine_ok cfg j e" by (rule new_engine_ok [OF j n e])
  let ?r0 = "\<lparr>r_id = int j, r_engine = e, r_pool = connection_pool MAX_CONN_PER_THREAD,
                  fd_to_conn = Map.empty, thread_socket = sock, itc_conn = None, aof_conn = None,
                  sq = [], in_kernel = [], closed = []\<rparr>"
  have "local_inv ?r0 {}"
    by (simp add: local_inv_def ops_def connection_pool_def MAX_CONN_PER_THREAD_def conn_pool_ok_def is_reset_def
        conn_default_def conn_reset_def)
  from submit_accept_ok [OF this room] obtain r1 where r1: "submit_accept cfg ?r0 = Inr r1" "local_inv r1 {}"
    "r_engine r1 = e" by auto
  note f1 = submit_accept_frame [OF r1(1), simplified]
  obtain ic p where a: "acquire (r_pool r1) = (ic, p)" by fastforce
  define r2 where "r2 = r1\<lparr>r_pool := p, itc_conn := ic\<rparr>"
  let ?arm = "case ic of
             None \<Rightarrow> Inr r2
           | Some i \<Rightarrow> ub_map (\<lambda>d. on_conn i (\<lambda>c. c\<lparr>fd := d, conn_type := ITC_EVENT\<rparr>) r2) (get_event_fd (int j) x)"
  let ?rest = "\<lambda>r. ub_bind (submit_itc_read cfg r) (\<lambda>r. let (ac, p) = acquire (r_pool r); r = r\<lparr>r_pool := p, aof_conn := ac\<rparr> in
         case ac of None \<Rightarrow> Inr (Some r)
         | Some i \<Rightarrow> Inr (Some (on_conn i (\<lambda>c. c\<lparr>fd := aof_fd (r_engine r), conn_type := AOF_WRITE\<rparr>) r)))"
  have "0 \<le> sock" using run by (simp add: start_reactor_def e split: if_splits)
  then have "start_reactor cfg (int j) clock file opened sock x = ub_bind ?arm ?rest"
    unfolding start_reactor_def e by (simp only: ub_bind_simps Let_def r1(1) a r2_def prod.case if_False not_less [symmetric])
  with run have "ub_bind ?arm ?rest = Inr (Some r)" by simp
  then obtain r3 where r3: "?arm = Inr r3" and run2: "?rest r3 = Inr (Some r)" by (cases ?arm) auto
  have r3': "local_inv r3 {} \<and> (\<forall>i. itc_conn r3 = Some i \<longrightarrow> i \<notin> op_slots r3) \<and> r_engine r3 = e \<and> r_id r3 = int j \<and>
    fd_to_conn r3 = Map.empty \<and> aof_conn r3 = None"
  proof (cases ic)
    case None
    have "p = r_pool r1" using a None by (simp add: acquire_def split: list.splits)
    then have "r3 = r1" using r3 None f1 by (cases r1) (auto simp: r2_def)
    with r1 f1 show ?thesis by simp
  next
    case (Some i)
    have a': "acquire (r_pool r1) = (Some i, p)" using a Some by simp
    from r3 Some obtain d where d: "r3 = on_conn i (\<lambda>c. c\<lparr>fd := d, conn_type := ITC_EVENT\<rparr>) r2"
      by (auto simp: ub_map_Inr_iff)
    note q = acquire_sentinel [OF r1(2) a', of "\<lambda>c. c\<lparr>fd := d, conn_type := ITC_EVENT\<rparr>" ITC_EVENT, simplified]
    let ?q = "on_conn i (\<lambda>c. c\<lparr>fd := d, conn_type := ITC_EVENT\<rparr>) (r1\<lparr>r_pool := p\<rparr>)"
    have eq: "r3 = ?q\<lparr>itc_conn := Some i\<rparr>" using d Some by (simp add: r2_def on_conn_def)
    have "local_inv r3 {}" unfolding eq
      by (rule local_inv_set_itc) (use q f1 in simp_all)
    with q r1(3) f1 show ?thesis by (simp add: eq op_slots_def ops_def)
  qed
  with submit_itc_read_ok [of r3 "{}" cfg] room obtain r4 where r4: "submit_itc_read cfg r3 = Inr r4" "local_inv r4 {}"
    "fd_to_conn r4 = fd_to_conn r3" "r_engine r4 = r_engine r3" by blast
  note f4 = submit_itc_read_frame [OF r4(1)]
  obtain ac p' where a4: "acquire (r_pool r4) = (ac, p')" by fastforce
  show ?thesis
  proof (cases ac)
    case None
    have "p' = r_pool r4" using a4 None by (simp add: acquire_def split: list.splits)
    then have "r = r4" using run2 r4(1) a4 None f4 r3' by (cases r4) (auto simp: Let_def)
    with r4 r3' f4 eok show ?thesis by simp
  next
    case (Some i)
    have a': "acquire (r_pool r4) = (Some i, p')" using a4 Some by simp
    let ?f = "\<lambda>c. c\<lparr>fd := aof_fd e, conn_type := AOF_WRITE\<rparr>"
    note q = acquire_sentinel [OF r4(2) a', of ?f AOF_WRITE, simplified]
    let ?q = "on_conn i ?f (r4\<lparr>r_pool := p'\<rparr>)"
    have eq: "r = ?q\<lparr>aof_conn := Some i\<rparr>" using run2 r4 a' r3' by (cases r4) (auto simp: Let_def on_conn_def)
    have "local_inv r {}" unfolding eq
      by (rule local_inv_set_aof) (use q f4 r3' in simp_all)
    with q r4 r3' f4 eok show ?thesis by (simp add: eq)
  qed
qed

end
