(* ===== verification/Cluster.thy ===== *)
theory Cluster
  imports Startup
begin

text \<open>
  The running program: \<open>main\<close> of \<open>src/main.cpp\<close> starts one thread per reactor over the shared
  inboxes, and their steps interleave in any order. A step is the start of a reactor, one
  round of its drain loop, the end of its drain (signals, flush of the file, submission), the
  kernel's read of its eventfd, or one completion it handles. The clocks, the contents of
  uninitialised messages and what the kernel reports are free in each step. The invariant of
  all reachable states follows by rule induction from the lemmas on the single handlers.
\<close>

section \<open>States and steps\<close>

text \<open>A reactor drains its inbox, with the reactors it has to signal marked, or waits for a
  completion. \<open>event_read\<close> holds when the kernel has read the eventfd and the completion of
  that read is not yet handled.\<close>

datatype phase = Draining u64 | Waiting

record node =
  node_reactor :: reactor
  node_phase :: phase
  event_read :: bool

record cluster =
  nodes :: "node option list"
  bus :: itc_context

definition set_node :: "nat \<Rightarrow> reactor \<Rightarrow> phase \<Rightarrow> bool \<Rightarrow> itc_context \<Rightarrow> cluster \<Rightarrow> cluster" where
  "set_node j r ph ev x s =
     s\<lparr>nodes := (nodes s)[j := Some \<lparr>node_reactor = r, node_phase = ph, event_read = ev\<rparr>], bus := x\<rparr>"

definition is_event :: "io_op \<Rightarrow> bool" where
  "is_event op = (case op of Read_event _ \<Rightarrow> True | _ \<Rightarrow> False)"

inductive cluster_step :: "config \<Rightarrow> cluster \<Rightarrow> cluster \<Rightarrow> bool" for cfg where
  start: "j < g_num_reactors cfg \<Longrightarrow> nodes s ! j = None \<Longrightarrow>
    start_reactor cfg (int j) clock file opened sock (bus s) = Inr (Some r) \<Longrightarrow>
    cluster_step cfg s (set_node j r (Draining 0) False (bus s) s)"
| drain_message: "j < g_num_reactors cfg \<Longrightarrow> nodes s ! j = Some nd \<Longrightarrow> node_phase nd = Draining marks \<Longrightarrow>
    message_ok junk \<Longrightarrow>
    drain_one cfg now junk (node_reactor nd, bus s, marks) = Inr (True, r, x, marks') \<Longrightarrow>
    cluster_step cfg s (set_node j r (Draining marks') (event_read nd) x s)"
| drain_end: "j < g_num_reactors cfg \<Longrightarrow> nodes s ! j = Some nd \<Longrightarrow> node_phase nd = Draining marks \<Longrightarrow>
    drain_one cfg now junk (node_reactor nd, bus s, marks) = Inr (False, t) \<Longrightarrow>
    finish_drain cfg t = Inr (r, x) \<Longrightarrow>
    cluster_step cfg s (set_node j r Waiting (event_read nd) x s)"
| wait_failed: "j < g_num_reactors cfg \<Longrightarrow> nodes s ! j = Some nd \<Longrightarrow> node_phase nd = Waiting \<Longrightarrow>
    cluster_step cfg s (set_node j (node_reactor nd) (Draining 0) (event_read nd) (bus s) s)"
| event: "j < g_num_reactors cfg \<Longrightarrow> nodes s ! j = Some nd \<Longrightarrow> \<not> event_read nd \<Longrightarrow>
    op \<in> set (in_kernel (node_reactor nd)) \<Longrightarrow> sqe_op op = Read_event (event_fds (bus s) ! j) \<Longrightarrow>
    event_counters (bus s) ! j \<noteq> 0 \<Longrightarrow> clear_signal (int j) (bus s) = Inr x \<Longrightarrow>
    cluster_step cfg s (set_node j (node_reactor nd) (node_phase nd) True x s)"
| completion: "j < g_num_reactors cfg \<Longrightarrow> nodes s ! j = Some nd \<Longrightarrow> node_phase nd = Waiting \<Longrightarrow>
    op \<in> set (in_kernel (node_reactor nd)) \<Longrightarrow> kernel_result (node_reactor nd) (sqe_op op) res bs \<Longrightarrow>
    (is_event (sqe_op op) \<longrightarrow> event_read nd) \<Longrightarrow> (\<forall>k. message_ok (junk k)) \<Longrightarrow>
    handle_completion cfg clock junk (sqe_data op) res bs (take_completion op (node_reactor nd), bus s) = Inr (r, x) \<Longrightarrow>
    cluster_step cfg s (set_node j r (Draining 0) (event_read nd \<and> \<not> is_event (sqe_op op)) x s)"

definition cluster_start :: "config \<Rightarrow> int list \<Rightarrow> cluster" where
  "cluster_start cfg eventfds =
     \<lparr>nodes = replicate (g_num_reactors cfg) None, bus = itc_init (inbox_malloc cfg) eventfds (g_num_reactors cfg)\<rparr>"

inductive reachable :: "config \<Rightarrow> int list \<Rightarrow> cluster \<Rightarrow> bool" for cfg eventfds where
  begin_run: "reachable cfg eventfds (cluster_start cfg eventfds)"
| one_step: "reachable cfg eventfds s \<Longrightarrow> cluster_step cfg s s' \<Longrightarrow> reachable cfg eventfds s'"

inductive_cases cluster_stepE: "cluster_step cfg s s'"

text \<open>At least one reactor and few enough for their shard numbers to fit; the identifiers of
  threads are none of the two values the hash tables reserve; the ring has room for as many
  entries as it was made for.\<close>

definition config_ok :: "config \<Rightarrow> bool" where
  "config_ok cfg \<longleftrightarrow>
     0 < g_num_reactors cfg \<and> 512 * int (g_num_reactors cfg) < 2 ^ 31 \<and>
     (\<forall>j < g_num_reactors cfg. 1 < thread_of cfg (int j)) \<and> room_ok cfg"

section \<open>The invariant\<close>

definition slot_inv :: "config \<Rightarrow> nat \<Rightarrow> node option \<Rightarrow> (nat \<times> itc_message) multiset \<Rightarrow> bool" where
  "slot_inv cfg j nd M \<longleftrightarrow>
     (case nd of None \<Rightarrow> \<forall>d. flight M j d = {#} | Some nd \<Rightarrow> node_inv cfg j {} (node_reactor nd) M)"

definition cluster_inv :: "config \<Rightarrow> cluster \<Rightarrow> bool" where
  "cluster_inv cfg s \<longleftrightarrow>
     length (nodes s) = g_num_reactors cfg \<and>
     (\<exists>M. holds cfg (bus s) M \<and> msgs_ok (g_num_reactors cfg) M \<and>
        (\<forall>j < g_num_reactors cfg. slot_inv cfg j (nodes s ! j) M))"

lemma slot_inv_shrink:
  assumes "slot_inv cfg k nd M" "others_shrink j M M'" "k \<noteq> j"
  shows "slot_inv cfg k nd M'"
proof (cases nd)
  case None
  have "flight M' k d = {#}" for d
  proof -
    have "flight M k d = {#}" using assms(1) None by (simp add: slot_inv_def)
    moreover have "flight M' k d \<subseteq># flight M k d" using assms(2,3) by (simp add: others_shrink_def)
    ultimately show ?thesis by simp
  qed
  then show ?thesis using None by (simp add: slot_inv_def)
next
  case (Some n)
  with assms show ?thesis by (auto simp: slot_inv_def others_shrink_def intro: node_inv_mono)
qed

lemma cluster_inv_after:
  assumes "length (nodes s) = g_num_reactors cfg" "\<forall>j < g_num_reactors cfg. slot_inv cfg j (nodes s ! j) M"
    and "after cfg j {} M r x"
  shows "cluster_inv cfg (set_node j r ph ev x s)"
proof -
  from assms(3) obtain M' where M': "holds cfg x M'" "msgs_ok (g_num_reactors cfg) M'" "node_inv cfg j {} r M'"
    "others_shrink j M M'" by (auto simp: after_def)
  have "slot_inv cfg k (nodes (set_node j r ph ev x s) ! k) M'" if "k < g_num_reactors cfg" for k
    using assms(1,2) M'(3) slot_inv_shrink [OF _ M'(4), of cfg k] that
    by (cases "k = j") (auto simp: set_node_def slot_inv_def)
  with M'(1,2) assms(1) show ?thesis by (auto simp: cluster_inv_def set_node_def)
qed

lemma drain_one_ok:
  assumes v: "node_inv cfg j {} r M" and ok: "msgs_ok (g_num_reactors cfg) M" and x: "holds cfg x M"
    and j: "j < g_num_reactors cfg" and room: "room_ok cfg" and junk: "message_ok junk"
  shows "outcome (drain_one cfg now junk (r, x, marks)) (\<lambda>(_, r', x', _). after cfg j {} M r' x')"
proof -
  have rid: "r_id r = int j" using v by (simp add: node_inv_def)
  from ib.pop_law [OF x j] obtain m x1 where p: "itc_pop (int j) x = Inr (m, x1)" and
    m: "case m of None \<Rightarrow> (\<forall>m. (j, m) \<notin># M) \<and> holds cfg x1 M
      | Some m \<Rightarrow> (j, m) \<in># M \<and> holds cfg x1 (M - {#(j, m)#})" by blast
  show ?thesis
  proof (cases m)
    case None
    with m v ok have "after cfg j {} M r x1" by (simp add: afterI)
    with None p rid show ?thesis by (simp add: drain_one_def)
  next
    case (Some msg)
    with m have M: "M = add_mset (j, msg) (M - {#(j, msg)#})" and h: "holds cfg x1 (M - {#(j, msg)#})" by simp_all
    show ?thesis
      unfolding drain_one_def fst_conv snd_conv rid p ub_bind_simps prod.case Some option.case
      by (intro outcome_map outcome_weaken [OF process_message_ok [OF v ok M h j room junk]]) auto
  qed
qed

lemma drain_empty:
  assumes "drain_one cfg now junk (r, x, marks) = Inr (False, t)"
  shows "\<exists>x'. t = (r, x', marks) \<and> itc_pop (r_id r) x = Inr (None, x')"
  using assms by (auto simp: drain_one_def ub_map_Inr_iff split: option.splits)

lemma node_after_start:
  assumes "start_reactor cfg (int j) clock file opened sock x = Inr (Some r)" "config_ok cfg" "j < g_num_reactors cfg"
    and "\<forall>d. flight M j d = {#}"
  shows "node_inv cfg j {} r M"
  using start_reactor_ok [OF assms(1,3)] assms(2,4) by (simp add: node_inv_def config_ok_def flight_ok_def)

lemma clear_signal_holds:
  assumes "holds cfg x M" "clear_signal i x = Inr x'"
  shows "holds cfg x' M"
proof -
  from assms(1) obtain c where c: "itc_repr (threads cfg) x c" "M = all_messages (g_num_reactors cfg) (threads cfg) c"
    "length (inboxes x) = g_num_reactors cfg" by (auto simp: bus_holds_def)
  have "inboxes x' = inboxes x" "itc_repr (threads cfg) x' c"
    using assms(2) c(1) by (auto simp: clear_signal_def itc_repr_def ub_map_Inr_iff vec_put_def split: if_splits)
  with c show ?thesis by (auto simp: bus_holds_def)
qed

lemma cluster_step_inv:
  assumes step: "cluster_step cfg s s'" and inv: "cluster_inv cfg s" and cfg: "config_ok cfg"
  shows "cluster_inv cfg s'"
proof -
  from inv obtain M where len: "length (nodes s) = g_num_reactors cfg" and x: "holds cfg (bus s) M"
    and ok: "msgs_ok (g_num_reactors cfg) M" and sl: "\<forall>j < g_num_reactors cfg. slot_inv cfg j (nodes s ! j) M"
    by (auto simp: cluster_inv_def)
  have room: "room_ok cfg" using cfg by (simp add: config_ok_def)
  note fin = cluster_inv_after [OF len sl]
  have v: "node_inv cfg j {} (node_reactor nd) M" if "j < g_num_reactors cfg" "nodes s ! j = Some nd" for j nd
    using sl that by (auto simp: slot_inv_def)
  from step show ?thesis
  proof (cases rule: cluster_step.cases)
    case (start j clock contents opened sock r)
    have "\<forall>d. flight M j d = {#}" using sl start(2,3) by (auto simp: slot_inv_def)
    from afterI [OF node_after_start [OF start(4) cfg start(2) this] x ok] show ?thesis unfolding start(1) by (rule fin)
  next
    case (drain_message j nd marks junk now r x marks')
    from outcome_Inr [OF drain_one_ok [OF v [OF drain_message(2,3)] ok x drain_message(2) room drain_message(5)] drain_message(6)]
    show ?thesis unfolding drain_message(1) by (intro fin) simp
  next
    case (drain_end j nd marks now junk t r x')
    from drain_empty [OF drain_end(5)] obtain x1 where t: "t = (node_reactor nd, x1, marks)"
      "itc_pop (r_id (node_reactor nd)) (bus s) = Inr (None, x1)" by blast
    have "r_id (node_reactor nd) = int j" using v [OF drain_end(2,3)] by (simp add: node_inv_def)
    with ib.pop_law [OF x drain_end(2)] t(2) have x1: "holds cfg x1 M" by auto
    from outcome_Inr [OF finish_drain_ok [OF v [OF drain_end(2,3)] x1 ok room] drain_end(6) [unfolded t(1)]]
    show ?thesis unfolding drain_end(1) by (intro fin) simp
  next
    case (wait_failed j nd)
    from afterI [OF v [OF wait_failed(2,3)] x ok] show ?thesis unfolding wait_failed(1) by (rule fin)
  next
    case (event j nd op x')
    from afterI [OF v [OF event(2,3)] clear_signal_holds [OF x event(8)] ok] show ?thesis unfolding event(1) by (rule fin)
  next
    case (completion j nd op res bs junk clock r x')
    from outcome_Inr [OF handle_completion_ok [OF v [OF completion(2,3)] completion(5,6) ok x completion(2) room] completion(9)]
      completion(8) show ?thesis unfolding completion(1) by (intro fin) simp
  qed
qed

lemma cluster_start_holds:
  assumes "config_ok cfg"
  shows "holds cfg (bus (cluster_start cfg eventfds)) {#}"
proof -
  let ?T = "threads cfg" and ?n = "g_num_reactors cfg"
  have "card ?T \<le> ?n" unfolding threads_def by (rule order_trans [OF card_image_le]) simp_all
  moreover have "?n < 2 ^ 59" using assms by (simp add: config_ok_def)
  ultimately have "card ?T < 2 ^ 59" by linarith
  moreover have "\<forall>i \<in> ?T. 1 < i" using assms by (auto simp: threads_def config_ok_def)
  ultimately have "itc_repr ?T (itc_init (inbox_malloc cfg) eventfds ?n) (\<lambda>_ _. [])"
    by (intro itc_repr_init) simp_all
  moreover have "all_messages ?n ?T (\<lambda>_ _. []) = {#}" by (simp add: all_messages_def)
  ultimately show ?thesis
    by (auto simp: bus_holds_def cluster_start_def itc_init_def intro!: exI [of _ "\<lambda>_ _. []"])
qed

lemma cluster_start_inv:
  assumes "config_ok cfg"
  shows "cluster_inv cfg (cluster_start cfg eventfds)"
  using cluster_start_holds [OF assms, of eventfds]
    by (auto simp: cluster_inv_def slot_inv_def cluster_start_def msgs_ok_def intro!: exI [of _ "{#}"])

lemma reachable_inv:
  assumes "reachable cfg eventfds s" "config_ok cfg"
  shows "cluster_inv cfg s"
  using assms by (induction rule: reachable.induct) (auto intro: cluster_start_inv cluster_step_inv)

end
