(* ===== verification/Wakeup.thy ===== *)
theory Wakeup
  imports Cluster
begin

text \<open>
  No message is forgotten: a reactor that waits for a completion while its inbox has a message
  is going to be woken. Pushing marks the target, the marks are kept until the drain or the
  batch of commands ends and are then signalled, and the read of the eventfd is always armed.
\<close>

section \<open>What handlers do to the inboxes\<close>

definition ready :: "nat \<Rightarrow> itc_context \<Rightarrow> bool" where
  "ready j x \<longleftrightarrow> (\<exists>m x'. itc_pop (int j) x = Inr (Some m, x'))"

text \<open>Only inboxes of marked reactors changed, and marks are never taken back.\<close>

definition bus_step :: "itc_context \<times> u64 \<Rightarrow> itc_context \<times> u64 \<Rightarrow> bool" where
  "bus_step s s' \<longleftrightarrow>
     event_fds (fst s') = event_fds (fst s) \<and> event_counters (fst s') = event_counters (fst s) \<and>
     length (inboxes (fst s')) = length (inboxes (fst s)) \<and>
     (\<forall>j. bit (snd s) j \<longrightarrow> bit (snd s') j) \<and>
     (\<forall>j. inboxes (fst s') ! j = inboxes (fst s) ! j \<or> bit (snd s') j)"

lemma bus_step_refl [simp]: "bus_step s s"
  by (simp add: bus_step_def)

lemma bus_step_trans: "bus_step s s' \<Longrightarrow> bus_step s' s'' \<Longrightarrow> bus_step s s''"
  unfolding bus_step_def by metis

lemma ready_cong:
  assumes "inboxes x' ! j = inboxes x ! j" "length (inboxes x') = length (inboxes x)"
  shows "ready j x' = ready j x"
  using assms by (auto simp: ready_def itc_pop_def ub_bind_Inr_iff vec_at_Inr_iff split: option.splits)

lemma shift_bit: "shift_1ULL t = Inr b \<Longrightarrow> 0 \<le> t \<and> t < 64 \<and> (\<forall>j. bit b j \<longleftrightarrow> j = nat t)"
  by (auto simp: shift_1ULL_def bit_simps split: if_splits)

lemma push_and_mark_bus:
  assumes "push_and_mark cfg rid t msg s = Inr s'"
  shows "bus_step s s'"
proof -
  from assms obtain ok x b where p: "itc_push (inbox_malloc cfg) (thread_of cfg rid) t msg (fst s) = Inr (ok, x)"
    and b: "shift_1ULL t = Inr b" and s': "s' = (x, snd s OR b)"
    by (auto simp: push_and_mark_def ub_map_Inr_iff split: prod.splits)
  from p obtain q where "x = (fst s)\<lparr>inboxes := (inboxes (fst s))[nat t := q]\<rparr>"
    by (auto simp: itc_push_def split: option.splits)
  moreover have "(inboxes (fst s))[nat t := q] ! j = inboxes (fst s) ! j \<or> bit (snd s OR b) j" for j q
    using shift_bit [OF b] by (cases "j = nat t") (simp_all add: bit_or_iff)
  ultimately show ?thesis by (auto simp: bus_step_def s' bit_or_iff)
qed

lemma push_map_bus:
  assumes "ub_map (Pair r) (push_and_mark cfg rid t msg s) = Inr z"
  shows "fst z = r \<and> bus_step s (snd z)"
  using assms by (auto simp: ub_map_Inr_iff dest: push_and_mark_bus)

lemma process_message_bus:
  assumes "process_message cfg now junk msg s = Inr s'"
  shows "bus_step (snd s) (snd s')"
  using assms
  by (auto simp: process_message_def Let_def ub_map_Inr_iff dest!: push_and_mark_bus split: itc_type.splits prod.splits)

lemma forward_bus: "forward cfg i t msg s = Inr s' \<Longrightarrow> bus_step (snd s) (snd s')"
  by (auto simp: forward_def ub_map_Inr_iff dest!: push_and_mark_bus)

lemma run_command_bus:
  assumes "run_command cfg now junk i n c s = Inr s'"
  shows "bus_step (snd s) (snd s')"
  using assms
  by (auto simp: run_command_def run_set_def run_get_def Let_def ub_map_Inr_iff dest!: forward_bus split: if_splits prod.splits)

lemma run_commands_bus:
  "run_commands cfg clock junk i bs n s = Inr (n', s') \<Longrightarrow> bus_step (snd s) (snd s')"
proof (induction cfg clock junk i bs n s arbitrary: n' s' rule: run_commands.induct)
  case (1 cfg clock junk i bs n s)
  show ?case
  proof (cases "bs = [] \<or> consumed (parse bs) = 0")
    case True
    with "1.prems" show ?thesis by (subst (asm) run_commands.simps) (auto simp: Let_def split: if_splits)
  next
    case False
    with "1.prems" obtain s1 where s1: "run_command cfg (clock n) (junk n) i n (cmd (parse bs)) s = Inr s1"
      "run_commands cfg clock junk i (drop (consumed (parse bs)) bs) (n + 1) s1 = Inr (n', s')"
      by (subst (asm) run_commands.simps) (auto simp: Let_def)
    from "1.IH" [OF _ refl _ s1] False run_command_bus [OF s1(1)] bus_step_trans show ?thesis by blast
  qed
qed

text \<open>After the signals every marked reactor whose eventfd exists has a counter that is not zero.\<close>

definition signalled :: "itc_context \<Rightarrow> itc_context \<Rightarrow> bool" where
  "signalled x x' \<longleftrightarrow>
     event_fds x' = event_fds x \<and> inboxes x' = inboxes x \<and> length (event_counters x') = length (event_counters x) \<and>
     (\<forall>j. event_counters x ! j \<noteq> 0 \<longrightarrow> event_counters x' ! j \<noteq> 0)"

lemma signalled_refl [simp]: "signalled x x"
  by (simp add: signalled_def)

lemma signalled_trans: "signalled x x' \<Longrightarrow> signalled x' x'' \<Longrightarrow> signalled x x''"
  by (simp add: signalled_def)

lemma itc_signal_signals:
  assumes "itc_signal (int j) x = Inr (b, x')"
  shows "signalled x x' \<and> (0 \<le> event_fds x ! j \<longrightarrow> event_counters x' ! j \<noteq> 0)"
proof -
  have "n + 1 \<noteq> 0" if n: "\<not> EVENTFD_MAX \<le> n" for n :: u64
  proof
    assume "n + 1 = 0"
    then have "n = - 1" by (simp add: eq_neg_iff_add_eq_0)
    with n show False by simp
  qed
  moreover have "EVENTFD_MAX \<noteq> 0" by (simp add: EVENTFD_MAX_def)
  ultimately show ?thesis using assms
    by (auto simp: itc_signal_def get_event_fd_def vec_at_Inr_iff signalled_def nth_list_update split: if_splits)
qed

lemma signal_marked_signals:
  assumes "signal_marked marks js x = Inr x'"
  shows "signalled x x' \<and> (\<forall>j \<in> set js. bit marks j \<longrightarrow> 0 \<le> event_fds x ! j \<longrightarrow> event_counters x' ! j \<noteq> 0)"
  using assms
proof (induction marks js x rule: signal_marked.induct)
  case (2 marks j js x)
  from "2.prems" obtain b where b: "shift_1ULL (int j) = Inr b"
    and run: "(if marks AND b \<noteq> 0 then ub_bind (itc_signal (int j) x) (\<lambda>(_, x). signal_marked marks js x)
       else signal_marked marks js x) = Inr x'" by auto
  have marked: "marks AND b \<noteq> 0 \<longleftrightarrow> bit marks j"
  proof -
    have "bit (marks AND b) k \<longleftrightarrow> bit marks j \<and> k = j" for k using shift_bit [OF b] by (auto simp: bit_and_iff)
    then show ?thesis by (metis bit_0_eq bot_apply bot_bool_def bit_eqI)
  qed
  show ?case
  proof (cases "bit marks j")
    case True
    with run marked obtain ok x1 where x1: "itc_signal (int j) x = Inr (ok, x1)" "signal_marked marks js x1 = Inr x'"
      by (auto split: prod.splits)
    note s = itc_signal_signals [OF x1(1)]
    note i = "2.IH"(1) [OF b _ x1(1) refl x1(2)]
    have i': "signalled x1 x'" "\<forall>j \<in> set js. bit marks j \<longrightarrow> 0 \<le> event_fds x1 ! j \<longrightarrow> event_counters x' ! j \<noteq> 0"
      using i marked True by simp_all
    have "signalled x x'" using s i'(1) signalled_trans by blast
    with s i' show ?thesis by (auto simp: signalled_def)
  next
    case False
    with run marked "2.IH"(2) [OF b] show ?thesis by auto
  qed
qed simp

section \<open>The read of the eventfd stays armed\<close>

definition keeps :: "reactor \<Rightarrow> reactor \<Rightarrow> bool" where
  "keeps r r' \<longleftrightarrow>
     itc_conn r' = itc_conn r \<and> set (ops r) \<subseteq> set (ops r') \<and>
     (\<forall>k. itc_conn r = Some k \<and> k \<in> held (r_pool r) \<longrightarrow>
        k \<in> held (r_pool r') \<and> fd (conn_at k r') = fd (conn_at k r))"

definition armed :: "reactor \<Rightarrow> int \<Rightarrow> bool" where
  "armed r d \<longleftrightarrow>
     (\<exists>k. itc_conn r = Some k \<and> k \<in> held (r_pool r) \<and> fd (conn_at k r) = d \<and>
        \<lparr>sqe_op = Read_event d, sqe_data = k\<rparr> \<in> set (ops r))"

lemma keeps_refl [simp]: "keeps r r"
  by (simp add: keeps_def)

lemma keeps_trans: "keeps r r' \<Longrightarrow> keeps r' r'' \<Longrightarrow> keeps r r''"
  by (auto simp: keeps_def)

lemma armed_keeps: "armed r d \<Longrightarrow> keeps r r' \<Longrightarrow> armed r' d"
  by (auto simp: armed_def keeps_def)

lemma fd_on_conn:
  assumes "fd (f (conn_at i r)) = fd (conn_at i r)"
  shows "fd (conn_at k (on_conn i f r)) = fd (conn_at k r)"
  using assms by (cases "i < length (conns (r_pool r))"; cases "k = i")
    (auto simp: conn_at_def on_conn_def upd_conn_def list_update_beyond)

lemma keeps_on_conn: "fd (f (conn_at i r)) = fd (conn_at i r) \<Longrightarrow> keeps r (on_conn i f r)"
  by (simp add: keeps_def fd_on_conn)

lemma keeps_on_other: "itc_conn r \<noteq> Some i \<Longrightarrow> keeps r (on_conn i f r)"
  by (auto simp: keeps_def conn_at_def on_conn_def ops_def)

lemma keeps_submit_op: "submit_op cfg op i r = Inr r' \<Longrightarrow> keeps r r'"
  by (auto simp: submit_op_def keeps_def ops_def conn_at_def split: if_splits)

lemma keeps_engine [simp]: "keeps r (r\<lparr>r_engine := e\<rparr>)"
  by (simp add: keeps_def ops_def conn_at_def)

lemma keeps_fields [simp]:
  "keeps r (r\<lparr>fd_to_conn := m\<rparr>)" "keeps r (r\<lparr>closed := ds\<rparr>)"
  by (simp_all add: keeps_def ops_def conn_at_def)

lemma keeps_push_result [simp]: "keeps r (push_result i s r)"
  by (simp add: push_result_def keeps_on_conn)

lemma keeps_submit_response:
  assumes "submit_response cfg i r = Inr r'"
  shows "keeps r r'"
proof -
  have f: "keeps r (on_conn i (\<lambda>_. c) r)" if "fd c = fd (conn_at i r)" for c using that by (simp add: keeps_on_conn)
  show ?thesis using assms
    by (auto simp: submit_response_def Let_def keeps_on_conn split: if_splits
        elim!: keeps_trans [OF f keeps_submit_op, rotated])
qed

text \<open>A slot that was just acquired is not the one of the eventfd.\<close>

lemma keeps_acquire:
  assumes "acquire (r_pool r) = (Some i, p)"
  shows "keeps r (on_conn i f (r\<lparr>r_pool := p\<rparr>))"
  using assms
  by (auto simp: acquire_def keeps_def held_def conn_at_def on_conn_def upd_conn_def ops_def split: list.splits)

lemma keeps_submit_accept:
  assumes "submit_accept cfg r = Inr r'"
  shows "keeps r r'"
proof (cases "acquire (r_pool r)")
  case (Pair o' p)
  with assms show ?thesis
    by (cases o') (auto simp: submit_accept_def intro: keeps_trans [OF keeps_acquire keeps_submit_op])
qed

lemma keeps_complete_accept:
  assumes "complete_accept cfg res r = Inr r'"
  shows "keeps r r'"
proof (cases "acquire (r_pool r)")
  case (Pair o' p)
  show ?thesis
  proof (cases o')
    case None
    with assms Pair have "submit_accept cfg (r\<lparr>closed := res # closed r\<rparr>) = Inr r'" by (simp add: complete_accept_def)
    from keeps_trans [OF _ keeps_submit_accept [OF this]] show ?thesis by simp
  next
    case (Some i)
    let ?f = "\<lambda>c. c\<lparr>fd := res, conn_type := READ, owner_reactor := r_id r\<rparr>"
    let ?r = "on_conn i ?f (r\<lparr>r_pool := p, fd_to_conn := (fd_to_conn r)(res \<mapsto> i)\<rparr>)"
    from assms Pair Some obtain r1 where r1: "submit_op cfg (Read_conn res) i ?r = Inr r1" "submit_accept cfg r1 = Inr r'"
      by (auto simp: complete_accept_def)
    have "?r = (on_conn i ?f (r\<lparr>r_pool := p\<rparr>))\<lparr>fd_to_conn := (fd_to_conn r)(res \<mapsto> i)\<rparr>" by (simp add: on_conn_def)
    moreover have "keeps r (on_conn i ?f (r\<lparr>r_pool := p\<rparr>))" by (rule keeps_acquire) (use Pair Some in simp)
    ultimately have "keeps r ?r" by (metis keeps_fields(1) keeps_trans)
    with r1 show ?thesis by (meson keeps_submit_op keeps_submit_accept keeps_trans)
  qed
qed

lemma keeps_store_result:
  assumes "store_result i msg r = Inr r'"
  shows "keeps r r'"
  using assms by (auto simp: store_result_def ub_map_Inr_iff keeps_on_conn split: if_splits)

lemma keeps_handle_resp:
  assumes "handle_resp cfg msg r = Inr r'"
  shows "keeps r r'"
proof (cases "fd_to_conn r (conn_fd msg)")
  case None
  with assms show ?thesis by (simp add: handle_resp_def)
next
  case (Some i)
  with assms obtain r1 where r1: "store_result i msg r = Inr r1" and
    run: "(let r = on_conn i (\<lambda>c. c\<lparr>pending_itc := pending_itc c - 1\<rparr>) r1 in
          if pending_itc (conn_at i r) = 0 \<and> suspended (conn_at i r)
          then submit_response cfg i (on_conn i (\<lambda>c. c\<lparr>suspended := False\<rparr>) r) else Inr r) = Inr r'"
    by (auto simp: handle_resp_def)
  let ?r2 = "on_conn i (\<lambda>c. c\<lparr>pending_itc := pending_itc c - 1\<rparr>) r1"
  let ?r3 = "on_conn i (\<lambda>c. c\<lparr>suspended := False\<rparr>) ?r2"
  have k: "keeps r r1" "keeps r1 ?r2" "keeps ?r2 ?r3" using keeps_store_result [OF r1] by (simp_all add: keeps_on_conn)
  have "r' = ?r2 \<or> submit_response cfg i ?r3 = Inr r'" using run by (auto simp: Let_def split: if_splits)
  then show ?thesis
    using keeps_trans [OF k(1,2)] keeps_trans [OF keeps_trans [OF keeps_trans [OF k(1,2)] k(3)] keeps_submit_response] by blast
qed

lemma keeps_process_message:
  assumes "process_message cfg now junk msg s = Inr s'"
  shows "keeps (fst s) (fst s')"
  using assms
  by (auto simp: process_message_def Let_def ub_map_Inr_iff dest: keeps_handle_resp split: itc_type.splits prod.splits)

lemma keeps_drain_one:
  assumes "drain_one cfg now junk s = Inr (b, s')"
  shows "keeps (fst s) (fst s')"
  using assms
  by (auto simp: drain_one_def ub_map_Inr_iff dest!: keeps_process_message [where s = "(fst s, x)" for x, unfolded fst_conv]
      split: option.splits)

lemma keeps_forward:
  assumes "forward cfg i t msg s = Inr s'"
  shows "keeps (fst s) (fst s')"
proof -
  let ?r = "on_conn i (\<lambda>c. c\<lparr>pending_itc := pending_itc c + 1\<rparr>) (fst s)"
  have "keeps (fst s) (push_result i [] ?r)" by (rule keeps_trans [of _ ?r]) (simp_all add: keeps_on_conn)
  with assms show ?thesis by (auto simp: forward_def ub_map_Inr_iff)
qed

lemma keeps_answer: "keeps r (push_result i s (r\<lparr>r_engine := e\<rparr>))"
  by (rule keeps_trans [OF keeps_engine keeps_push_result])

lemma keeps_run_command:
  assumes "run_command cfg now junk i n c s = Inr s'"
  shows "keeps (fst s) (fst s')"
  using assms
  by (auto simp: run_command_def run_set_def run_get_def Let_def ub_map_Inr_iff keeps_answer dest: keeps_forward
      split: if_splits prod.splits)

lemma keeps_run_commands:
  "run_commands cfg clock junk i bs n s = Inr (n', s') \<Longrightarrow> keeps (fst s) (fst s')"
proof (induction cfg clock junk i bs n s arbitrary: n' s' rule: run_commands.induct)
  case (1 cfg clock junk i bs n s)
  show ?case
  proof (cases "bs = [] \<or> consumed (parse bs) = 0")
    case True
    with "1.prems" show ?thesis by (subst (asm) run_commands.simps) (auto simp: Let_def split: if_splits)
  next
    case False
    with "1.prems" obtain s1 where s1: "run_command cfg (clock n) (junk n) i n (cmd (parse bs)) s = Inr s1"
      "run_commands cfg clock junk i (drop (consumed (parse bs)) bs) (n + 1) s1 = Inr (n', s')"
      by (subst (asm) run_commands.simps) (auto simp: Let_def)
    from "1.IH" [OF _ refl _ s1] False keeps_run_command [OF s1(1)] keeps_trans show ?thesis by blast
  qed
qed

lemma complete_read_steps:
  assumes "complete_read cfg clock junk i bs (r, x) = Inr (r', x')"
  shows "keeps r r' \<and> (\<exists>x1 marks. bus_step (x, 0) (x1, marks) \<and> signal_marked marks [0..<g_num_reactors cfg] x1 = Inr x')"
proof -
  let ?r = "on_conn i (\<lambda>c. c\<lparr>buffer := bs, response_data := [], pipeline_results := [], pending_itc := 0\<rparr>) r"
  from assms obtain n r1 x1 marks where run: "run_commands cfg clock junk i bs 0 (?r, x, 0) = Inr (n, r1, x1, marks)"
    and sig: "signal_marked marks [0..<g_num_reactors cfg] x1 = Inr x'"
    and sub: "submit_response cfg i (on_conn i (\<lambda>c. c\<lparr>expected_results := int n\<rparr>) r1) = Inr r'"
    by (auto simp: complete_read_def Let_def ub_map_Inr_iff split: prod.splits)
  let ?r1 = "on_conn i (\<lambda>c. c\<lparr>expected_results := int n\<rparr>) r1"
  have "keeps r ?r" "keeps ?r r1" "keeps r1 ?r1" "keeps ?r1 r'"
    using keeps_run_commands [OF run] keeps_submit_response [OF sub] by (simp_all add: keeps_on_conn)
  then have "keeps r r'" by (meson keeps_trans)
  with run_commands_bus [OF run] sig show ?thesis by auto
qed

lemma keeps_complete_write: "complete_write cfg i r = Inr r' \<Longrightarrow> keeps r r'"
  unfolding complete_write_def by (rule keeps_trans [OF keeps_on_conn keeps_submit_op]) simp_all

lemma keeps_close_conn:
  assumes "itc_conn r \<noteq> Some i"
  shows "keeps r (close_conn i r)"
  using assms by (auto simp: keeps_def close_conn_def release_def held_def conn_at_def ops_def)

lemma keeps_complete_aof [simp]: "keeps r (complete_aof cfg i res r)"
  by (auto simp: complete_aof_def Let_def keeps_def ops_def conn_at_def)

lemma keeps_finish: "keeps r (ring_submit (flush_aof cfg r))"
  by (auto simp: flush_aof_def ring_submit_def Let_def keeps_def ops_def conn_at_def split: option.split)

lemma finish_drain_steps:
  assumes "finish_drain cfg (r, x, marks) = Inr (r', x')"
  shows "keeps r r' \<and> sq r' = [] \<and> signal_marked marks [0..<g_num_reactors cfg] x = Inr x'"
  using assms keeps_finish by (auto simp: finish_drain_def ub_map_Inr_iff ring_submit_def)

section \<open>Completions\<close>

text \<open>A batch that changed an inbox has woken its reactor by the end.\<close>

definition settled :: "nat \<Rightarrow> itc_context \<Rightarrow> itc_context \<Rightarrow> bool" where
  "settled n x x' \<longleftrightarrow>
     event_fds x' = event_fds x \<and> length (inboxes x') = length (inboxes x) \<and>
     (\<forall>j. event_counters x ! j \<noteq> 0 \<longrightarrow> event_counters x' ! j \<noteq> 0) \<and>
     (\<forall>j < n. inboxes x' ! j = inboxes x ! j \<or> event_fds x ! j < 0 \<or> event_counters x' ! j \<noteq> 0)"

lemma settled_refl [simp]: "settled n x x"
  by (simp add: settled_def)

lemma settled_batch:
  assumes "bus_step (x, 0) (x1, marks)" "signal_marked marks [0..<n] x1 = Inr x'"
  shows "settled n x x'"
  using signal_marked_signals [OF assms(2)] assms(1) by (auto simp: settled_def bus_step_def signalled_def)

lemma armed_take:
  assumes "armed r d" "\<not> is_event (sqe_op op)"
  shows "armed (take_completion op r) d"
proof -
  from assms(1) obtain k where k: "itc_conn r = Some k" "k \<in> held (r_pool r)" "fd (conn_at k r) = d"
    "\<lparr>sqe_op = Read_event d, sqe_data = k\<rparr> \<in> set (sq r) \<union> set (in_kernel r)" by (auto simp: armed_def ops_def)
  have "\<lparr>sqe_op = Read_event d, sqe_data = k\<rparr> \<noteq> op" using assms(2) by (auto simp: is_event_def)
  then have "\<lparr>sqe_op = Read_event d, sqe_data = k\<rparr> \<in> set (ops (take_completion op r))"
    using k(4) by (auto simp: ops_def take_completion_def in_set_remove1)
  with k show ?thesis by (auto simp: armed_def)
qed

lemma armed_submit:
  assumes "itc_conn r = Some k" "k \<in> held (r_pool r)" "fd (conn_at k r) = d" "submit_itc_read cfg r = Inr r'"
  shows "armed r' d"
  using assms by (auto simp: armed_def submit_itc_read_def submit_op_def ops_def conn_at_def split: if_splits)

lemma completion_steps:
  assumes v: "node_inv cfg j {} r M" and op: "op \<in> set (in_kernel r)" and k: "kernel_result r (sqe_op op) res bs"
    and a: "armed r d"
    and run: "handle_completion cfg clock junk (sqe_data op) res bs (take_completion op r, x) = Inr (r', x')"
  shows "armed r' d \<and> settled (g_num_reactors cfg) x x'"
proof -
  let ?i = "sqe_data op" and ?r = "take_completion op r"
  have m: "op_matches r op" by (rule op_in_kernel [OF v op])
  have l: "local_inv r {}" using v by (simp add: node_inv_def)
  show ?thesis
  proof (cases "is_event (sqe_op op)")
    case True
    then obtain e where e: "sqe_op op = Read_event e" by (auto simp: is_event_def split: io_op.splits)
    then have i: "itc_conn r = Some ?i" "?i \<in> held (r_pool r)" using m by (simp_all add: op_matches_def Let_def)
    then have ty: "conn_type (conn_at ?i r) = ITC_EVENT" using l by (simp add: local_inv_def)
    have d: "fd (conn_at ?i r) = d" using a i by (auto simp: armed_def)
    have "0 \<le> res" using k e by (simp add: kernel_result_def)
    with run ty have "submit_itc_read cfg ?r = Inr r'" "x' = x"
      by (auto simp: handle_completion_def Let_def ub_map_Inr_iff)
    with armed_submit [of ?r ?i d cfg r'] i d show ?thesis by simp
  next
    case False
    note at = armed_take [OF a False]
    have keep: ?thesis if "keeps ?r r'" "settled (g_num_reactors cfg) x x'" using that armed_keeps [OF at] by simp
    have ty: "conn_type (conn_at ?i r) \<noteq> ITC_EVENT" "conn_type (conn_at ?i r) = AOF_WRITE \<or> itc_conn ?r \<noteq> Some ?i"
      using m l False by (auto simp: op_matches_def Let_def local_inv_def is_event_def split: io_op.splits)
    show ?thesis
    proof (cases "conn_type (conn_at ?i r)")
      case AOF_WRITE
      with run show ?thesis by (intro keep) (auto simp: handle_completion_def Let_def)
    next
      case ACCEPT
      with run show ?thesis
        by (intro keep) (auto simp: handle_completion_def Let_def ub_map_Inr_iff dest: keeps_complete_accept split: if_splits)
    next
      case READ
      with ty have "keeps ?r (close_conn ?i ?r)" by (intro keeps_close_conn) simp
      with run READ complete_read_steps [of cfg clock junk ?i bs ?r x r' x'] show ?thesis
        by (intro keep) (auto simp: handle_completion_def Let_def intro: settled_batch split: if_splits)
    next
      case WRITE
      with ty have "keeps ?r (close_conn ?i ?r)" by (intro keeps_close_conn) simp
      with run WRITE show ?thesis
        by (intro keep) (auto simp: handle_completion_def Let_def ub_map_Inr_iff dest: keeps_complete_write split: if_splits)
    next
      case ITC_EVENT
      with ty show ?thesis by simp
    qed
  qed
qed

section \<open>Starting\<close>

lemma start_armed:
  assumes "start_reactor cfg (int j) clock file opened sock x = Inr (Some r)"
  shows "armed r (event_fds x ! j)"
proof -
  from assms obtain e where e: "new_engine 512 (int j) (int (g_num_reactors cfg)) clock file opened = Inr e"
    by (auto simp: start_reactor_def)
  let ?r0 = "\<lparr>r_id = int j, r_engine = e, r_pool = connection_pool MAX_CONN_PER_THREAD,
                  fd_to_conn = Map.empty, thread_socket = sock, itc_conn = None, aof_conn = None,
                  sq = [], in_kernel = [], closed = []\<rparr>"
  have s: "0 \<le> sock" using assms by (simp add: start_reactor_def e split: if_splits)
  have "2 \<le> MAX_CONN_PER_THREAD" by (simp add: MAX_CONN_PER_THREAD_def)
  then obtain rest where fr: "free_indices (connection_pool MAX_CONN_PER_THREAD) = 0 # 1 # rest" "1 \<notin> set rest"
    by (cases MAX_CONN_PER_THREAD) (auto simp: connection_pool_def upt_conv_Cons simp flip: numeral_2_eq_2 split: nat.splits)
  let ?p1 = "(connection_pool MAX_CONN_PER_THREAD)\<lparr>free_indices := 1 # rest\<rparr>"
  let ?f = "\<lambda>c. c\<lparr>fd := sock, conn_type := ACCEPT\<rparr>"
  have acc: "submit_accept cfg ?r0 = submit_op cfg (Accept_op sock) 0 (on_conn 0 ?f (?r0\<lparr>r_pool := ?p1\<rparr>))"
    using fr by (simp add: submit_accept_def acquire_def)
  obtain r1 where r1: "submit_op cfg (Accept_op sock) 0 (on_conn 0 ?f (?r0\<lparr>r_pool := ?p1\<rparr>)) = Inr r1"
    using assms s by (cases "submit_accept cfg ?r0") (auto simp: start_reactor_def e acc)
  have p1: "r_pool r1 = upd_conn 0 ?f ?p1" "itc_conn r1 = None"
    using r1 by (auto simp: submit_op_def on_conn_def split: if_splits)
  let ?p2 = "(upd_conn 0 ?f ?p1)\<lparr>free_indices := rest\<rparr>"
  have a1: "acquire (r_pool r1) = (Some 1, ?p2)" by (simp add: p1 acquire_def upd_conn_def)
  have d: "get_event_fd (int j) x = Inr (event_fds x ! j)" if "get_event_fd (int j) x = Inr y" for y
    using that by (auto simp: get_event_fd_def vec_at_Inr_iff)
  let ?d = "event_fds x ! j"
  let ?r2 = "on_conn 1 (\<lambda>c. c\<lparr>fd := ?d, conn_type := ITC_EVENT\<rparr>) (r1\<lparr>r_pool := ?p2, itc_conn := Some 1\<rparr>)"
  define last :: "reactor \<Rightarrow> ub + reactor option" where "last = (\<lambda>r. let (ac, p) = acquire (r_pool r); r = r\<lparr>r_pool := p, aof_conn := ac\<rparr> in
         case ac of None \<Rightarrow> Inr (Some r)
         | Some i \<Rightarrow> Inr (Some (on_conn i (\<lambda>c. c\<lparr>fd := aof_fd (r_engine r), conn_type := AOF_WRITE\<rparr>) r)))"
  have "start_reactor cfg (int j) clock file opened sock x =
      ub_bind (ub_map (\<lambda>d. on_conn 1 (\<lambda>c. c\<lparr>fd := d, conn_type := ITC_EVENT\<rparr>) (r1\<lparr>r_pool := ?p2, itc_conn := Some 1\<rparr>))
          (get_event_fd (int j) x)) (\<lambda>r. ub_bind (submit_itc_read cfg r) last)"
    unfolding start_reactor_def e last_def using s
    by (simp only: ub_bind_simps Let_def acc r1 a1 prod.case option.case if_False not_less [symmetric])
  with assms have "ub_bind (ub_map (\<lambda>d. on_conn 1 (\<lambda>c. c\<lparr>fd := d, conn_type := ITC_EVENT\<rparr>) (r1\<lparr>r_pool := ?p2, itc_conn := Some 1\<rparr>))
          (get_event_fd (int j) x)) (\<lambda>r. ub_bind (submit_itc_read cfg r) last) = Inr (Some r)" by simp
  then obtain r3 where r3: "submit_itc_read cfg ?r2 = Inr r3" and r: "last r3 = Inr (Some r)"
    using d by (cases "get_event_fd (int j) x"; cases "submit_itc_read cfg ?r2") auto
  have len: "1 < length (conns (r_pool (r1\<lparr>r_pool := ?p2, itc_conn := Some 1\<rparr>)))"
    by (simp add: connection_pool_def MAX_CONN_PER_THREAD_def)
  have h: "1 \<in> held (r_pool ?r2)" using fr(2) len by (simp add: held_def on_conn_def upd_conn_def)
  have f: "fd (conn_at 1 ?r2) = ?d" by (subst conn_at_on_conn [OF len]) simp
  have c: "itc_conn ?r2 = Some 1" by simp
  have "armed r3 ?d" by (rule armed_submit [OF c h f r3])
  moreover have "keeps r3 r"
  proof (cases "acquire (r_pool r3)")
    case (Pair o' p)
    have aof: "keeps q (q\<lparr>aof_conn := a\<rparr>)" for q a by (simp add: keeps_def ops_def conn_at_def)
    show ?thesis
    proof (cases o')
      case None
      with Pair have "p = r_pool r3" by (simp add: acquire_def split: list.splits)
      with r Pair None aof [of r3] show ?thesis by (auto simp: Let_def last_def)
    next
      case (Some i)
      let ?g = "\<lambda>c. c\<lparr>fd := aof_fd (r_engine r3), conn_type := AOF_WRITE\<rparr>"
      have "r = (on_conn i ?g (r3\<lparr>r_pool := p\<rparr>))\<lparr>aof_conn := Some i\<rparr>"
        using r Pair Some by (auto simp: Let_def on_conn_def last_def)
      moreover have "keeps r3 (on_conn i ?g (r3\<lparr>r_pool := p\<rparr>))" by (rule keeps_acquire) (use Pair Some in simp)
      ultimately show ?thesis using aof keeps_trans by blast
    qed
  qed
  ultimately show ?thesis by (rule armed_keeps)
qed

section \<open>The invariant\<close>

definition marked_by :: "cluster \<Rightarrow> nat \<Rightarrow> bool" where
  "marked_by s j \<longleftrightarrow>
     (\<exists>k < length (nodes s). \<exists>nd marks. nodes s ! k = Some nd \<and> node_phase nd = Draining marks \<and> bit marks j)"

definition awake :: "cluster \<Rightarrow> nat \<Rightarrow> node \<Rightarrow> bool" where
  "awake s j nd \<longleftrightarrow>
     armed (node_reactor nd) (event_fds (bus s) ! j) \<and>
     (node_phase nd = Waiting \<longrightarrow> sq (node_reactor nd) = [] \<and>
       (0 \<le> event_fds (bus s) ! j \<longrightarrow> ready j (bus s) \<longrightarrow>
          event_read nd \<or> event_counters (bus s) ! j \<noteq> 0 \<or> marked_by s j))"

definition wake_inv :: "config \<Rightarrow> cluster \<Rightarrow> bool" where
  "wake_inv cfg s \<longleftrightarrow> (\<forall>j < g_num_reactors cfg. \<forall>nd. nodes s ! j = Some nd \<longrightarrow> awake s j nd)"

lemma set_node_simps [simp]:
  "bus (set_node j r ph ev x s) = x" "length (nodes (set_node j r ph ev x s)) = length (nodes s)"
  "j < length (nodes s) \<Longrightarrow> nodes (set_node j r ph ev x s) ! k =
     (if k = j then Some \<lparr>node_reactor = r, node_phase = ph, event_read = ev\<rparr> else nodes s ! k)"
  by (simp_all add: set_node_def nth_list_update)

text \<open>A step of node \<open>j\<close> keeps another node awake when what it did to the inboxes is marked or signalled.\<close>

lemma awake_other:
  assumes a: "awake s k nd" and k: "k \<noteq> j" and j: "j < length (nodes s)"
    and x: "event_fds x = event_fds (bus s)" "length (inboxes x) = length (inboxes (bus s))"
      "event_counters (bus s) ! k \<noteq> 0 \<longrightarrow> event_counters x ! k \<noteq> 0"
    and old: "\<And>nj marks. nodes s ! j = Some nj \<Longrightarrow> node_phase nj = Draining marks \<Longrightarrow> bit marks k \<Longrightarrow>
      (\<exists>marks'. ph = Draining marks' \<and> bit marks' k) \<or> event_fds x ! k < 0 \<or> event_counters x ! k \<noteq> 0"
    and new: "inboxes x ! k = inboxes (bus s) ! k \<or> event_fds x ! k < 0 \<or> event_counters x ! k \<noteq> 0 \<or>
      (\<exists>marks'. ph = Draining marks' \<and> bit marks' k)"
  shows "awake (set_node j r ph ev x s) k nd"
proof -
  let ?s = "set_node j r ph ev x s"
  have here: "marked_by ?s k" if "\<exists>marks'. ph = Draining marks' \<and> bit marks' k"
    using that j by (auto simp: marked_by_def intro!: exI [of _ j])
  have "event_read nd \<or> event_counters x ! k \<noteq> 0 \<or> marked_by ?s k"
    if w: "node_phase nd = Waiting" "0 \<le> event_fds x ! k" "ready k x"
  proof (cases "inboxes x ! k = inboxes (bus s) ! k")
    case True
    then have "ready k (bus s)" using w(3) x(2) ready_cong [of x k "bus s"] by simp
    with a w x(1) have "event_read nd \<or> event_counters (bus s) ! k \<noteq> 0 \<or> marked_by s k" by (simp add: awake_def)
    moreover have "event_counters x ! k \<noteq> 0 \<or> marked_by ?s k" if "marked_by s k"
    proof -
      from that obtain l nl marks where l: "l < length (nodes s)" "nodes s ! l = Some nl" "node_phase nl = Draining marks"
        "bit marks k" by (auto simp: marked_by_def)
      show ?thesis
      proof (cases "l = j")
        case True
        with old [of nl marks] l w(2) here show ?thesis by auto
      next
        case False
        with l j show ?thesis by (auto simp: marked_by_def intro!: exI [of _ l])
      qed
    qed
    ultimately show ?thesis using x(3) by blast
  next
    case False
    with new w(2) here show ?thesis by auto
  qed
  with a x(1) show ?thesis by (simp add: awake_def)
qed

lemma wake_inv_after:
  assumes w: "wake_inv cfg s" and j: "j < length (nodes s)"
    and self: "awake (set_node j r ph ev x s) j \<lparr>node_reactor = r, node_phase = ph, event_read = ev\<rparr>"
    and x: "event_fds x = event_fds (bus s)" "length (inboxes x) = length (inboxes (bus s))"
    and others: "\<And>k. k < g_num_reactors cfg \<Longrightarrow> k \<noteq> j \<Longrightarrow>
      (event_counters (bus s) ! k \<noteq> 0 \<longrightarrow> event_counters x ! k \<noteq> 0) \<and>
      (\<forall>nj marks. nodes s ! j = Some nj \<longrightarrow> node_phase nj = Draining marks \<longrightarrow> bit marks k \<longrightarrow>
        (\<exists>marks'. ph = Draining marks' \<and> bit marks' k) \<or> event_fds x ! k < 0 \<or> event_counters x ! k \<noteq> 0) \<and>
      (inboxes x ! k = inboxes (bus s) ! k \<or> event_fds x ! k < 0 \<or> event_counters x ! k \<noteq> 0 \<or>
        (\<exists>marks'. ph = Draining marks' \<and> bit marks' k))"
  shows "wake_inv cfg (set_node j r ph ev x s)"
  unfolding wake_inv_def
proof (intro allI impI)
  fix k nd
  assume k: "k < g_num_reactors cfg" and nd: "nodes (set_node j r ph ev x s) ! k = Some nd"
  show "awake (set_node j r ph ev x s) k nd"
  proof (cases "k = j")
    case True
    with nd j self show ?thesis by auto
  next
    case False
    with nd j w k have "awake s k nd" by (simp add: wake_inv_def)
    then show ?thesis using others [OF k False] by (intro awake_other [OF _ False j x]) auto
  qed
qed

lemma awake_draining:
  "armed r (event_fds x ! j) \<Longrightarrow> awake (set_node j r (Draining m) ev x s) j \<lparr>node_reactor = r, node_phase = Draining m, event_read = ev\<rparr>"
  by (simp add: awake_def)

lemma pop_bus:
  assumes "itc_pop (int j) x = Inr (m, x')"
  shows "event_fds x' = event_fds x \<and> event_counters x' = event_counters x \<and> length (inboxes x') = length (inboxes x) \<and>
    (\<forall>k. k \<noteq> j \<longrightarrow> inboxes x' ! k = inboxes x ! k)"
  using assms by (auto simp: itc_pop_def split: option.splits)

lemma drain_one_bus:
  assumes "drain_one cfg now junk (r, x, marks) = Inr (b, r', x', marks')" "r_id r = int j"
  shows "event_fds x' = event_fds x \<and> event_counters x' = event_counters x \<and> length (inboxes x') = length (inboxes x) \<and>
    (\<forall>k. bit marks k \<longrightarrow> bit marks' k) \<and> (\<forall>k. k \<noteq> j \<longrightarrow> inboxes x' ! k = inboxes x ! k \<or> bit marks' k)"
proof -
  from assms obtain m x1 where p: "itc_pop (int j) x = Inr (m, x1)" by (auto simp: drain_one_def)
  note pb = pop_bus [OF p]
  show ?thesis
  proof (cases m)
    case None
    with assms p pb show ?thesis by (auto simp: drain_one_def)
  next
    case (Some msg)
    with assms p have "process_message cfg now junk msg (r, x1, marks) = Inr (r', x', marks')"
      by (auto simp: drain_one_def ub_map_Inr_iff)
    from process_message_bus [OF this] have b: "bus_step (x1, marks) (x', marks')" by simp
    then have "inboxes x' ! k = inboxes x1 ! k \<or> bit marks' k" for k by (simp add: bus_step_def)
    with b pb show ?thesis by (simp add: bus_step_def) metis
  qed
qed

lemma wake_step:
  assumes step: "cluster_step cfg s s'" and inv: "cluster_inv cfg s" and w: "wake_inv cfg s"
  shows "wake_inv cfg s'"
proof -
  from inv obtain M where len: "length (nodes s) = g_num_reactors cfg" and x: "holds cfg (bus s) M"
    and sl: "\<forall>j < g_num_reactors cfg. slot_inv cfg j (nodes s ! j) M" by (auto simp: cluster_inv_def)
  have v: "node_inv cfg j {} (node_reactor nd) M" if "j < g_num_reactors cfg" "nodes s ! j = Some nd" for j nd
    using sl that by (auto simp: slot_inv_def)
  have aw: "awake s j nd" if "j < g_num_reactors cfg" "nodes s ! j = Some nd" for j nd using w that by (simp add: wake_inv_def)
  have arm: "armed (node_reactor nd) (event_fds (bus s) ! j)" if "j < g_num_reactors cfg" "nodes s ! j = Some nd" for j nd
    using aw [OF that] by (simp add: awake_def)
  from step show ?thesis
  proof (cases rule: cluster_step.cases)
    case (start j clock contents opened sock r)
    have "awake s' j \<lparr>node_reactor = r, node_phase = Draining 0, event_read = False\<rparr>"
      unfolding start(1) by (rule awake_draining [OF start_armed [OF start(4)]])
    then show ?thesis unfolding start(1) by (intro wake_inv_after [OF w]) (use start(2,3) len in auto)
  next
    case (drain_message j nd marks junk now r x' marks')
    have id: "r_id (node_reactor nd) = int j" using v [OF drain_message(2,3)] by (simp add: node_inv_def)
    note db = drain_one_bus [OF drain_message(6) id]
    have "armed r (event_fds x' ! j)"
      using keeps_drain_one [OF drain_message(6)] arm [OF drain_message(2,3)] armed_keeps db by auto
    then have "awake s' j \<lparr>node_reactor = r, node_phase = Draining marks', event_read = event_read nd\<rparr>"
      unfolding drain_message(1) by (rule awake_draining)
    then show ?thesis unfolding drain_message(1)
      by (intro wake_inv_after [OF w]) (use drain_message(2-4) len db in auto)
  next
    case (drain_end j nd marks now junk t r x')
    have id: "r_id (node_reactor nd) = int j" using v [OF drain_end(2,3)] by (simp add: node_inv_def)
    from drain_empty [OF drain_end(5)] obtain x1 where t: "t = (node_reactor nd, x1, marks)"
      "itc_pop (int j) (bus s) = Inr (None, x1)" using id by auto
    from ib.pop_law [OF x drain_end(2)] t(2) have h: "holds cfg x1 M" "\<forall>m. (j, m) \<notin># M" by auto
    note pb = pop_bus [OF t(2)]
    note fd = finish_drain_steps [OF drain_end(6) [unfolded t(1)]]
    note sg = signal_marked_signals [OF fd [THEN conjunct2, THEN conjunct2]]
    have "\<not> ready j x1" using ib.pop_law [OF h(1) drain_end(2)] h(2) by (auto simp: ready_def)
    then have "\<not> ready j x'" using sg ready_cong [of x' j x1] by (simp add: signalled_def)
    moreover have "armed r (event_fds x' ! j)"
      using fd arm [OF drain_end(2,3)] armed_keeps pb sg by (auto simp: signalled_def)
    ultimately have "awake s' j \<lparr>node_reactor = r, node_phase = Waiting, event_read = event_read nd\<rparr>"
      using fd by (simp add: awake_def drain_end(1))
    moreover have "(event_counters (bus s) ! k \<noteq> 0 \<longrightarrow> event_counters x' ! k \<noteq> 0) \<and>
        (bit marks k \<longrightarrow> event_fds x' ! k < 0 \<or> event_counters x' ! k \<noteq> 0) \<and> inboxes x' ! k = inboxes (bus s) ! k"
      if "k < g_num_reactors cfg" "k \<noteq> j" for k
      using sg pb that by (auto simp: signalled_def not_less [symmetric])
    ultimately show ?thesis unfolding drain_end(1)
      by (intro wake_inv_after [OF w]) (use drain_end(2-4) len sg pb in \<open>auto simp: signalled_def\<close>)
  next
    case (wait_failed j nd)
    have "awake s' j \<lparr>node_reactor = node_reactor nd, node_phase = Draining 0, event_read = event_read nd\<rparr>"
      unfolding wait_failed(1) by (rule awake_draining [OF arm [OF wait_failed(2,3)]])
    then show ?thesis unfolding wait_failed(1) by (intro wake_inv_after [OF w]) (use wait_failed len in auto)
  next
    case (event j nd op x')
    have f: "event_fds x' = event_fds (bus s)" "inboxes x' = inboxes (bus s)"
      "\<And>k. k \<noteq> j \<Longrightarrow> event_counters x' ! k = event_counters (bus s) ! k"
      using event(8) by (auto simp: clear_signal_def ub_map_Inr_iff vec_put_Inr_iff split: if_splits)
    have "awake s' j \<lparr>node_reactor = node_reactor nd, node_phase = node_phase nd, event_read = True\<rparr>"
      using aw [OF event(2,3)] f by (simp add: awake_def event(1))
    then show ?thesis unfolding event(1) by (intro wake_inv_after [OF w]) (use event(2,3) len f in auto)
  next
    case (completion j nd op res bs junk clock r x')
    from completion_steps [OF v [OF completion(2,3)] completion(5,6) arm [OF completion(2,3)] completion(9)]
    have c: "armed r (event_fds (bus s) ! j)" "settled (g_num_reactors cfg) (bus s) x'" by simp_all
    then have "awake s' j \<lparr>node_reactor = r, node_phase = Draining 0, event_read = event_read nd \<and> \<not> is_event (sqe_op op)\<rparr>"
      unfolding completion(1) by (intro awake_draining) (simp add: settled_def)
    then show ?thesis unfolding completion(1)
      by (intro wake_inv_after [OF w]) (use completion(2-4) len c(2) in \<open>auto simp: settled_def\<close>)
  qed
qed

lemma reachable_awake:
  assumes "reachable cfg eventfds s" "config_ok cfg"
  shows "wake_inv cfg s"
  using assms
proof (induction rule: reachable.induct)
  case begin_run
  then show ?case by (simp add: wake_inv_def cluster_start_def)
next
  case (one_step s s')
  then show ?case using wake_step reachable_inv by blast
qed

end
