(* ===== verification/Serve.thy ===== *)
theory Serve
  imports Reactor_Inv
begin

text \<open>
  What a reactor answers, against a specification that knows only a map from keys to values
  with expiries: \<open>serve\<close> says for a list of commands what the replies are and what the map is
  afterwards, \<open>forwarded\<close> which messages leave for other reactors. The loop over the bytes of
  a read refines it, through the parser, the sharded engine, the log and the connection.
\<close>

section \<open>The specification\<close>

type_synonym store = "bytes \<rightharpoonup> value_entry"

definition is_set :: "command \<Rightarrow> bool" where
  "is_set c \<longleftrightarrow> cmd_type c = ''SET'' \<and> 2 \<le> length (cmd_args c)"

definition is_get :: "command \<Rightarrow> bool" where
  "is_get c \<longleftrightarrow> cmd_type c = ''GET'' \<and> cmd_args c \<noteq> []"

definition key_of :: "command \<Rightarrow> bytes" where
  "key_of c = cmd_args c ! 0"

definition other_reply :: "command \<Rightarrow> bytes" where
  "other_reply c =
     (if cmd_type c = ''CONFIG'' then resp_EMPTY_ARRAY
      else if cmd_type c = ''EXPIRE'' \<and> 2 \<le> length (cmd_args c) then '':1'' @ crlf
      else if cmd_type c = ''PING'' then resp_PONG
      else resp_ERR_UNKNOWN)"

text \<open>One command at time \<open>now\<close>; a command on a key that is not \<open>mine\<close> is left to its owner.\<close>

definition serve_one :: "(bytes \<Rightarrow> bool) \<Rightarrow> u64 \<Rightarrow> command \<Rightarrow> store \<Rightarrow> bytes \<times> store" where
  "serve_one mine now c m =
     (let k = key_of c in
      if (is_set c \<or> is_get c) \<and> \<not> mine k then ([], m)
      else if is_set c then (resp_OK, m(k \<mapsto> new_entry now (cmd_args c ! 1) (parse_ttl c)))
      else if is_get c then
        (case visible now (m k) of
           Some v \<Rightarrow> (bulk (ve_data v), m)
         | None \<Rightarrow> (resp_NIL, m(k := None)))
      else (other_reply c, m))"

fun serve :: "(bytes \<Rightarrow> bool) \<Rightarrow> (nat \<Rightarrow> u64) \<Rightarrow> nat \<Rightarrow> command list \<Rightarrow> store \<Rightarrow> bytes list \<times> store" where
  "serve mine clock n [] m = ([], m)"
| "serve mine clock n (c # cs) m =
     (let (s, m) = serve_one mine (clock n) c m; (ss, m) = serve mine clock (n + 1) cs m in (s # ss, m))"

text \<open>The SETs that are logged here.\<close>

definition logged :: "(bytes \<Rightarrow> bool) \<Rightarrow> command list \<Rightarrow> (bytes \<times> bytes) list" where
  "logged mine cs = map (\<lambda>c. (key_of c, cmd_args c ! 1)) (filter (\<lambda>c. is_set c \<and> mine (key_of c)) cs)"

definition request_for :: "itc_message \<Rightarrow> int \<Rightarrow> int \<Rightarrow> nat \<Rightarrow> command \<Rightarrow> itc_message" where
  "request_for junk rid d n c =
     (if is_set c
      then (set_value (cmd_args c ! 1) (set_key (key_of c) (request_message junk SET_REQ rid d n)))\<lparr>ttl_ms := parse_ttl c\<rparr>
      else set_key (key_of c) (request_message junk GET_REQ rid d n))"

fun forwarded ::
  "(bytes \<Rightarrow> int) \<Rightarrow> (nat \<Rightarrow> itc_message) \<Rightarrow> int \<Rightarrow> int \<Rightarrow> nat \<Rightarrow> command list \<Rightarrow> (int \<times> itc_message) list" where
  "forwarded owner junk rid d n [] = []"
| "forwarded owner junk rid d n (c # cs) =
     (if (is_set c \<or> is_get c) \<and> owner (key_of c) \<noteq> rid
      then (owner (key_of c), request_for (junk n) rid d n c) # forwarded owner junk rid d (n + 1) cs
      else forwarded owner junk rid d (n + 1) cs)"

fun push_all :: "config \<Rightarrow> int \<Rightarrow> (int \<times> itc_message) list \<Rightarrow> itc_context \<times> u64 \<Rightarrow> ub + (itc_context \<times> u64)" where
  "push_all cfg rid [] s = Inr s"
| "push_all cfg rid ((target, msg) # ms) s =
     ub_bind (push_and_mark cfg rid target msg s) (push_all cfg rid ms)"

lemma is_set_not_get: "is_set c \<Longrightarrow> \<not> is_get c"
  by (simp add: is_set_def is_get_def)

lemma length_serve [simp]: "length (fst (serve mine clock n cs m)) = length cs"
proof (induction cs arbitrary: n m)
  case (Cons c cs)
  obtain s m1 where "serve_one mine (clock n) c m = (s, m1)" by fastforce
  with Cons [of "n + 1" m1] show ?case by (simp add: split_beta)
qed simp

section \<open>One command\<close>

text \<open>An empty key is not routed: it must be the reactor's own.\<close>

definition routable :: "engine \<Rightarrow> command \<Rightarrow> bool" where
  "routable e c \<longleftrightarrow> ((is_set c \<or> is_get c) \<and> key_of c = [] \<longrightarrow> owns e [])"

definition own :: "engine \<Rightarrow> bytes \<Rightarrow> int" where
  "own e k = owner_of (shard_count e) (num_reactors e) k"

text \<open>The engine after a command: the map of the specification, and the log.\<close>

definition stepped :: "engine \<Rightarrow> engine \<Rightarrow> store \<Rightarrow> (bytes \<times> bytes) list \<Rightarrow> bool" where
  "stepped e e' m kvs \<longleftrightarrow>
     engine_wf e' \<and> owns e' = owns e \<and> own e' = own e \<and> reactor_id e' = reactor_id e \<and> aof_fd e' = aof_fd e \<and>
     aof_flush e' = aof_flush e \<and> aof_in_flight e' = aof_in_flight e \<and> kv e' = m \<and>
     aof_active e' = aof_active e @ (if aof_fd e < 0 then [] else aof_image kvs)"

lemma stepped_refl: "engine_wf e \<Longrightarrow> stepped e e (kv e) []"
  by (simp add: stepped_def aof_image_def)

lemma stepped_trans:
  "stepped e e1 m1 kvs1 \<Longrightarrow> stepped e1 e2 m2 kvs2 \<Longrightarrow> stepped e e2 m2 (kvs1 @ kvs2)"
  by (simp add: stepped_def aof_image_append)

lemma owns_own: "owns e k \<longleftrightarrow> own e k = reactor_id e"
  by (simp add: owns_def own_def)

lemma stepped_put: "engine_wf e \<Longrightarrow> owns e k \<Longrightarrow> stepped e (put_entry k x e) ((kv e)(k := x)) []"
  by (simp add: stepped_def aof_image_def own_def fun_eq_iff)

lemma append_aof_fields:
  "reactor_id (append_aof_set k v e) = reactor_id e" "own (append_aof_set k v e) = own e"
  "aof_flush (append_aof_set k v e) = aof_flush e" "aof_in_flight (append_aof_set k v e) = aof_in_flight e"
  "aof_active (append_aof_set k v e) = aof_active e @ (if aof_fd e < 0 then [] else set_record (k, v))"
  by (simp_all add: append_aof_set_def own_def fun_eq_iff set_record_eq bulk_def)

lemma stepped_append:
  "stepped e e' m [] \<Longrightarrow> stepped e (append_aof_set k v e') m [(k, v)]"
  by (simp add: stepped_def append_aof_fields aof_image_def)

lemma on_conn_engine: "(on_conn i f r)\<lparr>r_engine := e\<rparr> = on_conn i f (r\<lparr>r_engine := e\<rparr>)"
  by (simp add: on_conn_def)

lemma on_conn_on_conn: "on_conn i g (on_conn i f r) = on_conn i (\<lambda>c. g (f c)) r"
  by (simp add: on_conn_def upd_conn_upd_conn comp_def)

lemma on_conn_id [simp]: "on_conn i (\<lambda>c. c) r = r"
  by (cases r) (simp add: on_conn_def upd_conn_def)

definition add_results :: "nat \<Rightarrow> bytes list \<Rightarrow> nat \<Rightarrow> reactor \<Rightarrow> reactor" where
  "add_results i ss waiting =
     on_conn i (\<lambda>c. c\<lparr>pending_itc := pending_itc c + int waiting, pipeline_results := pipeline_results c @ ss\<rparr>)"

lemma add_results_simps [simp]:
  "r_id (add_results i ss n r) = r_id r" "r_engine (add_results i ss n r) = r_engine r"
  "sq (add_results i ss n r) = sq r" "fd_to_conn (add_results i ss n r) = fd_to_conn r"
  "(add_results i ss n r)\<lparr>r_engine := e\<rparr> = add_results i ss n (r\<lparr>r_engine := e\<rparr>)"
  "add_results i ss2 n2 (add_results i ss n r) = add_results i (ss @ ss2) (n + n2) r"
  "length (conns (r_pool (add_results i ss n r))) = length (conns (r_pool r))"
  by (simp_all add: add_results_def on_conn_engine on_conn_on_conn add.assoc)

lemma fd_add_results [simp]:
  "fd (conn_at k (add_results i ss n r)) = fd (conn_at k r)"
  by (cases "i < length (conns (r_pool r))"; cases "k = i")
    (auto simp: add_results_def on_conn_def conn_at_def upd_conn_def list_update_beyond)

lemma push_result_add: "push_result i s = add_results i [s] 0"
  by (simp add: push_result_def add_results_def fun_eq_iff)

lemma forward_add:
  "forward cfg i owner msg s = ub_map (\<lambda>xm. (add_results i [[]] 1 (fst s), xm)) (push_and_mark cfg (r_id (fst s)) owner msg (snd s))"
  by (simp add: forward_def push_result_def add_results_def on_conn_on_conn)

lemma owner_routed:
  assumes "engine_wf e" "routable e c" "is_set c \<or> is_get c"
  shows "(if key_of c = [] then Inr (reactor_id e) else fast_owner e (key_of c)) = Inr (own e (key_of c))"
  using assms by (auto simp: fast_owner_wf own_def routable_def owns_def)

lemma run_command_unkeyed:
  assumes "engine_wf (r_engine r)" "\<not> is_set c" "\<not> is_get c"
  shows "run_command cfg now junk i n c (r, xm) = Inr (add_results i [other_reply c] 0 r, xm)"
  using assms
  by (auto simp: run_command_def Let_def fast_owner_wf is_set_def is_get_def other_reply_def push_result_add)

lemma run_command_set:
  assumes e: "engine_wf (r_engine r)" "r_id r = reactor_id (r_engine r)" "routable (r_engine r) c" and c: "is_set c" and that: "fst s = r"
  shows "run_command cfg now junk i n c s = run_set cfg now junk i n (own (r_engine r) (key_of c)) c s"
proof -
  have "(cmd_type c = ''GET'' \<or> cmd_type c = ''SET'') \<and> cmd_args c \<noteq> []" using c by (auto simp: is_set_def)
  then show ?thesis using owner_routed [OF e(1,3)] c that e(2)
    unfolding run_command_def Let_def by (simp add: is_set_def key_of_def cong: if_cong)
qed

lemma run_command_get:
  assumes e: "engine_wf (r_engine r)" "r_id r = reactor_id (r_engine r)" "routable (r_engine r) c" and c: "is_get c" and that: "fst s = r"
  shows "run_command cfg now junk i n c s = run_get cfg now junk i n (own (r_engine r) (key_of c)) c s"
  using owner_routed [OF e(1,3)] c that e(2)
  unfolding run_command_def Let_def by (simp add: is_get_def key_of_def cong: if_cong)

lemma run_command_serves:
  fixes i n :: nat and junk :: "nat \<Rightarrow> itc_message"
  assumes e: "engine_wf (r_engine r)" "r_id r = reactor_id (r_engine r)" "routable (r_engine r) c"
  defines "mine \<equiv> owns (r_engine r)" and "fw \<equiv> forwarded (own (r_engine r)) junk (r_id r) (fd (conn_at i r)) n [c]"
  shows "\<exists>e'. stepped (r_engine r) e' (snd (serve_one mine now c (kv (r_engine r)))) (logged mine [c]) \<and>
    run_command cfg now (junk n) i n c (r, xm) =
      ub_map (\<lambda>xm. (add_results i [fst (serve_one mine now c (kv (r_engine r)))] (length fw) (r\<lparr>r_engine := e'\<rparr>), xm))
        (push_all cfg (r_id r) fw xm)"
proof -
  let ?e = "r_engine r" and ?k = "key_of c"
  have one: "ub_bind m (push_all cfg (r_id r) []) = m" for m by (cases m) simp_all
  consider (foreign) "is_set c \<or> is_get c" "\<not> mine ?k" | (set) "is_set c" "mine ?k" | (get) "is_get c" "mine ?k" "\<not> is_set c"
    | (other) "\<not> is_set c" "\<not> is_get c" by blast
  then show ?thesis
  proof cases
    case foreign
    then have o: "own ?e ?k \<noteq> r_id r" using e(2) by (simp add: mine_def owns_own)
    have fw: "fw = [(own ?e ?k, request_for (junk n) (r_id r) (fd (conn_at i r)) n c)]" using foreign(1) o by (simp add: fw_def)
    have "run_command cfg now (junk n) i n c (r, xm) = forward cfg i (own ?e ?k) (request_for (junk n) (r_id r) (fd (conn_at i r)) n c) (r, xm)"
    proof (cases "is_set c")
      case True
      then show ?thesis using run_command_set [OF e True, of "(r, xm)"] o by (simp add: run_set_def request_for_def key_of_def Let_def)
    next
      case False
      then have g: "is_get c" using foreign(1) by simp
      then show ?thesis using run_command_get [OF e g, of "(r, xm)"] o False by (simp add: run_get_def request_for_def key_of_def Let_def)
    qed
    moreover have "serve_one mine now c (kv ?e) = ([], kv ?e)" using foreign by (auto simp: serve_one_def Let_def)
    moreover have "logged mine [c] = []" using foreign by (simp add: logged_def)
    ultimately show ?thesis
      using stepped_refl [OF e(1)] by (intro exI [of _ ?e]) (simp add: fw forward_add one ub_map_def)
  next
    case set
    then have "owns ?e ?k" "fw = []" using e(2) by (simp_all add: mine_def fw_def owns_own)
    let ?e' = "append_aof_set ?k (cmd_args c ! 1) (put_entry ?k (Some (new_entry now (cmd_args c ! 1) (parse_ttl c))) ?e)"
    have "run_command cfg now (junk n) i n c (r, xm) = Inr (add_results i [resp_OK] 0 (r\<lparr>r_engine := ?e'\<rparr>), xm)"
      using run_command_set [OF e set(1), of "(r, xm)"] engine_set_owned [OF e(1) \<open>owns ?e ?k\<close>] e(2) \<open>owns ?e ?k\<close>
      by (simp add: run_set_def key_of_def push_result_add owns_own Let_def)
    moreover have "stepped ?e ?e' ((kv ?e)(?k \<mapsto> new_entry now (cmd_args c ! 1) (parse_ttl c))) [(?k, cmd_args c ! 1)]"
      by (rule stepped_append [OF stepped_put [OF e(1) \<open>owns ?e ?k\<close>]])
    ultimately show ?thesis using set \<open>fw = []\<close> by (intro exI [of _ ?e']) (simp add: serve_one_def Let_def logged_def)
  next
    case get
    then have k: "owns ?e ?k" "fw = []" using e(2) by (simp_all add: mine_def fw_def owns_own)
    let ?e' = "if visible now (kv ?e ?k) = None then put_entry ?k None ?e else ?e"
    have g: "engine_get now ?k ?e = Inr (map_option ve_data (visible now (kv ?e ?k)), if kv ?e ?k = None then ?e else ?e')"
      by (simp add: engine_get_owned [OF e(1) k(1)] visible_def split: option.split)
    let ?e2 = "if kv ?e ?k = None then ?e else ?e'"
    have "run_command cfg now (junk n) i n c (r, xm) =
        Inr (add_results i [fst (serve_one mine now c (kv ?e))] 0 (r\<lparr>r_engine := ?e2\<rparr>), xm)"
      using run_command_get [OF e get(1), of "(r, xm)"] g e(2) k(1) get
      by (cases "visible now (kv ?e ?k)") (simp_all add: run_get_def key_of_def push_result_add owns_own Let_def serve_one_def)
    moreover have "stepped ?e ?e2 (snd (serve_one mine now c (kv ?e))) []"
    proof (cases "kv ?e ?k")
      case None
      then have "(kv ?e)(?k := None) = kv ?e" by auto
      with None get stepped_refl [OF e(1)] show ?thesis by (simp add: serve_one_def Let_def visible_def)
    next
      case (Some v)
      with get stepped_refl [OF e(1)] stepped_put [OF e(1) k(1), of None] show ?thesis
        by (auto simp: serve_one_def Let_def visible_def)
    qed
    moreover have "logged mine [c] = []" using get by (simp add: logged_def)
    ultimately show ?thesis using k(2) by (intro exI [of _ ?e2]) simp
  next
    case other
    then have "fw = []" "logged mine [c] = []" "serve_one mine now c (kv ?e) = (other_reply c, kv ?e)"
      by (simp_all add: fw_def logged_def serve_one_def Let_def)
    then show ?thesis using run_command_unkeyed [OF e(1) other] stepped_refl [OF e(1)] by (intro exI [of _ ?e]) simp
  qed
qed

section \<open>A read\<close>

lemma push_all_append: "push_all cfg rid (ms @ ms') s = ub_bind (push_all cfg rid ms s) (push_all cfg rid ms')"
  by (induction cfg rid ms s rule: push_all.induct) (auto simp: ub_bind_assoc intro: ub_bind_cong)

lemma forwarded_Cons:
  "forwarded owner junk rid d n (c # cs) = forwarded owner junk rid d n [c] @ forwarded owner junk rid d (n + 1) cs"
  by simp

lemma logged_Cons: "logged mine (c # cs) = logged mine [c] @ logged mine cs"
  by (simp add: logged_def)

lemma serve_Cons:
  "serve mine clock n (c # cs) m =
     (let p = serve_one mine (clock n) c m; q = serve mine clock (n + 1) cs (snd p) in (fst p # fst q, snd q))"
  by (simp add: Let_def split_beta)

lemma routable_stepped: "stepped e e' m kvs \<Longrightarrow> routable e' c = routable e c"
  by (simp add: stepped_def routable_def)

lemma run_commands_serve:
  fixes i n :: nat and junk :: "nat \<Rightarrow> itc_message"
  assumes "engine_wf (r_engine r)" "r_id r = reactor_id (r_engine r)" "\<forall>c \<in> set (parse_all bs). routable (r_engine r) c"
  shows "\<exists>e'. stepped (r_engine r) e' (snd (serve (owns (r_engine r)) clock n (parse_all bs) (kv (r_engine r))))
        (logged (owns (r_engine r)) (parse_all bs)) \<and>
    run_commands cfg clock junk i bs n (r, xm) =
      ub_map (\<lambda>xm. (n + length (parse_all bs),
          add_results i (fst (serve (owns (r_engine r)) clock n (parse_all bs) (kv (r_engine r))))
            (length (forwarded (own (r_engine r)) junk (r_id r) (fd (conn_at i r)) n (parse_all bs))) (r\<lparr>r_engine := e'\<rparr>), xm))
        (push_all cfg (r_id r) (forwarded (own (r_engine r)) junk (r_id r) (fd (conn_at i r)) n (parse_all bs)) xm)"
  using assms
proof (induction bs arbitrary: n r xm rule: length_induct)
  case (1 bs)
  let ?e = "r_engine r" and ?d = "fd (conn_at i r)"
  show ?case
  proof (cases "well_headed bs")
    case False
    then have "parse_all bs = []" by (simp add: parse_all_step)
    moreover have "run_commands cfg clock junk i bs n (r, xm) = Inr (n, r, xm)"
      using False by (subst run_commands.simps) (simp add: Let_def)
    moreover have "add_results i [] 0 r = r" by (simp add: add_results_def)
    ultimately show ?thesis using stepped_refl [OF "1.prems"(1)] by (intro exI [of _ ?e]) (simp add: logged_def)
  next
    case True
    let ?c = "cmd (parse bs)" and ?rest = "drop (consumed (parse bs)) bs"
    have ne: "bs \<noteq> []" "consumed (parse bs) \<noteq> 0" using True by (auto simp: well_headed_def)
    then have less: "length ?rest < length bs" using parse_consumed_pos [of bs] True by (cases bs) auto
    have cs: "parse_all bs = ?c # parse_all ?rest" using True by (subst parse_all_step) simp
    let ?p = "serve_one (owns ?e) (clock n) ?c (kv ?e)" and ?fw = "forwarded (own ?e) junk (r_id r) ?d n [?c]"
    have c: "routable ?e ?c" using "1.prems"(3) cs by simp
    from run_command_serves [OF "1.prems"(1,2) c, of "clock n" cfg junk n i xm] obtain e1 where
      s1: "stepped ?e e1 (snd ?p) (logged (owns ?e) [?c])" and
      run1: "run_command cfg (clock n) (junk n) i n ?c (r, xm) =
        ub_map (\<lambda>xm. (add_results i [fst ?p] (length ?fw) (r\<lparr>r_engine := e1\<rparr>), xm)) (push_all cfg (r_id r) ?fw xm)"
      by blast
    define r1 where "r1 = add_results i [fst ?p] (length ?fw) (r\<lparr>r_engine := e1\<rparr>)"
    have e1: "engine_wf e1" "owns e1 = owns ?e" "own e1 = own ?e" "reactor_id e1 = reactor_id ?e" "kv e1 = snd ?p"
      using s1 by (simp_all add: stepped_def)
    let ?q = "serve (owns ?e) clock (n + 1) (parse_all ?rest) (snd ?p)"
      and ?fw2 = "forwarded (own ?e) junk (r_id r) ?d (n + 1) (parse_all ?rest)"
    have "fd (conn_at i (r\<lparr>r_engine := e1\<rparr>)) = ?d" by (simp add: conn_at_def)
    then have r1: "r_engine r1 = e1" "r_id r1 = r_id r" "fd (conn_at i r1) = ?d" by (simp_all add: r1_def)
    have pre: "engine_wf (r_engine r1)" "r_id r1 = reactor_id (r_engine r1)"
      "\<And>c. c \<in> set (parse_all ?rest) \<Longrightarrow> routable (r_engine r1) c"
      using "1.prems"(2,3) cs routable_stepped [OF s1] e1 r1 by simp_all
    from "1.IH" [rule_format, OF less pre] have
      "\<exists>e2. stepped e1 e2 (snd ?q) (logged (owns ?e) (parse_all ?rest)) \<and>
        run_commands cfg clock junk i ?rest (n + 1) (r1, xm) =
          ub_map (\<lambda>xm. (n + 1 + length (parse_all ?rest), add_results i (fst ?q) (length ?fw2) (r1\<lparr>r_engine := e2\<rparr>), xm))
            (push_all cfg (r_id r) ?fw2 xm)" for xm
      unfolding r1 e1 by blast
    then obtain e2 where e2: "\<And>xm. stepped e1 (e2 xm) (snd ?q) (logged (owns ?e) (parse_all ?rest)) \<and>
        run_commands cfg clock junk i ?rest (n + 1) (r1, xm) =
          ub_map (\<lambda>xm'. (n + 1 + length (parse_all ?rest), add_results i (fst ?q) (length ?fw2) (r1\<lparr>r_engine := e2 xm\<rparr>), xm'))
            (push_all cfg (r_id r) ?fw2 xm)" by metis
    have run: "run_commands cfg clock junk i bs n (r, xm) =
        ub_bind (push_all cfg (r_id r) ?fw xm) (\<lambda>xm. run_commands cfg clock junk i ?rest (n + 1) (r1, xm))"
      using ne run1 by (subst run_commands.simps) (cases "push_all cfg (r_id r) ?fw xm"; simp add: Let_def r1_def)
    show ?thesis
    proof (cases "push_all cfg (r_id r) ?fw xm")
      case (Inl u)
      have "stepped ?e (e2 xm) (snd ?q) (logged (owns ?e) [?c] @ logged (owns ?e) (parse_all ?rest))"
        using stepped_trans [OF s1] e2 by blast
      with run Inl show ?thesis
        unfolding cs forwarded_Cons [of _ _ _ _ _ ?c "parse_all ?rest"] serve_Cons logged_Cons [of _ ?c "parse_all ?rest"] push_all_append
        by (intro exI [of _ "e2 xm"]) (simp add: Let_def)
    next
      case (Inr xm')
      have "stepped ?e (e2 xm') (snd ?q) (logged (owns ?e) [?c] @ logged (owns ?e) (parse_all ?rest))"
        using stepped_trans [OF s1] e2 by blast
      with run Inr e2 [of xm'] show ?thesis
        unfolding cs forwarded_Cons [of _ _ _ _ _ ?c "parse_all ?rest"] serve_Cons logged_Cons [of _ ?c "parse_all ?rest"] push_all_append
        by (intro exI [of _ "e2 xm'"]) (simp add: Let_def r1_def)
    qed
  qed
qed

section \<open>What the client gets\<close>

lemma serve_one_nonempty:
  "\<not> ((is_set c \<or> is_get c) \<and> \<not> mine (key_of c)) \<Longrightarrow> fst (serve_one mine now c m) \<noteq> []"
  by (auto simp: serve_one_def Let_def other_reply_def split: option.split)

lemma serve_nonempty:
  assumes "\<forall>c \<in> set cs. is_set c \<or> is_get c \<longrightarrow> mine (key_of c)" "cs \<noteq> []"
  shows "concat (fst (serve mine clock n cs m)) \<noteq> []"
proof -
  obtain c cs' where cs: "cs = c # cs'" using assms(2) by (cases cs) auto
  with assms(1) serve_one_nonempty [of c mine "clock n" m] show ?thesis unfolding cs serve_Cons Let_def by auto
qed

lemma forwarded_none:
  assumes "\<forall>c \<in> set cs. is_set c \<or> is_get c \<longrightarrow> owner (key_of c) = rid"
  shows "forwarded owner junk rid d n cs = []"
  using assms by (induction cs arbitrary: n) auto

lemma signal_none: "\<forall>j \<in> set js. j < 64 \<Longrightarrow> signal_marked 0 js x = Inr x"
  by (induction js) (simp_all add: shift_1ULL_def)

lemma conn_at_add_results:
  "i < length (conns (r_pool r)) \<Longrightarrow> conn_at i (add_results i ss n r) =
     (conn_at i r)\<lparr>pending_itc := pending_itc (conn_at i r) + int n, pipeline_results := pipeline_results (conn_at i r) @ ss\<rparr>"
  by (simp add: add_results_def conn_at_on_conn)

text \<open>The state in which a read is handled: the connection is cleared, its bytes are in its buffer.\<close>

definition cleared :: "nat \<Rightarrow> bytes \<Rightarrow> reactor \<Rightarrow> reactor" where
  "cleared i bs = on_conn i (\<lambda>c. c\<lparr>buffer := bs, response_data := [], pipeline_results := [], pending_itc := 0\<rparr>)"

lemma cleared_simps [simp]:
  "r_engine (cleared i bs r) = r_engine r" "r_id (cleared i bs r) = r_id r" "sq (cleared i bs r) = sq r"
  "length (conns (r_pool (cleared i bs r))) = length (conns (r_pool r))"
  by (simp_all add: cleared_def)

lemma cleared_conn:
  "i < length (conns (r_pool r)) \<Longrightarrow> conn_at i (cleared i bs r) =
     (conn_at i r)\<lparr>buffer := bs, response_data := [], pipeline_results := [], pending_itc := 0\<rparr>"
  by (simp add: cleared_def conn_at_on_conn)

lemma complete_read_serve:
  fixes clock :: "nat \<Rightarrow> u64" and junk :: "nat \<Rightarrow> itc_message"
  assumes e: "engine_wf (r_engine r)" "r_id r = reactor_id (r_engine r)" "\<forall>c \<in> set (parse_all bs). routable (r_engine r) c"
    and i: "i < length (conns (r_pool r))"
  defines "cs \<equiv> parse_all bs"
  defines "out \<equiv> serve (owns (r_engine r)) clock 0 cs (kv (r_engine r))"
    and "fw \<equiv> forwarded (own (r_engine r)) junk (r_id r) (fd (conn_at i r)) 0 cs"
  shows "\<exists>r'. stepped (r_engine r) (r_engine r') (snd out) (logged (owns (r_engine r)) cs) \<and> sq r' = sq r \<and>
    length (conns (r_pool r')) = length (conns (r_pool r)) \<and>
    conn_at i r' = (conn_at i r)\<lparr>buffer := bs, response_data := [], pipeline_results := fst out,
        pending_itc := int (length fw), expected_results := int (length cs)\<rparr> \<and>
    complete_read cfg clock junk i bs (r, x) =
      ub_bind (push_all cfg (r_id r) fw (x, 0)) (\<lambda>(x, marks).
        ub_bind (signal_marked marks [0..<g_num_reactors cfg] x) (\<lambda>x. ub_map (\<lambda>r. (r, x)) (submit_response cfg i r')))"
proof -
  let ?r = "cleared i bs r"
  have d: "fd (conn_at i ?r) = fd (conn_at i r)" using i by (simp add: cleared_conn)
  from run_commands_serve [where r = ?r and bs = bs and clock = clock and cfg = cfg and junk = junk and i = i and n = 0 and xm = "(x, 0)"] e obtain e' where
    e': "stepped (r_engine r) e' (snd out) (logged (owns (r_engine r)) cs)" and
    run: "run_commands cfg clock junk i bs 0 (?r, x, 0) =
      ub_map (\<lambda>xm. (length cs, add_results i (fst out) (length fw) (?r\<lparr>r_engine := e'\<rparr>), xm)) (push_all cfg (r_id r) fw (x, 0))"
    by (auto simp: cs_def out_def fw_def d)
  let ?r1 = "add_results i (fst out) (length fw) (?r\<lparr>r_engine := e'\<rparr>)"
  let ?r' = "on_conn i (\<lambda>c. c\<lparr>expected_results := int (length cs)\<rparr>) ?r1"
  have less: "i < length (conns (r_pool (?r\<lparr>r_engine := e'\<rparr>)))" "i < length (conns (r_pool ?r1))" using i by simp_all
  have "conn_at i (?r\<lparr>r_engine := e'\<rparr>) = conn_at i ?r" by (simp add: conn_at_def)
  then have "conn_at i ?r' = (conn_at i r)\<lparr>buffer := bs, response_data := [], pipeline_results := fst out,
        pending_itc := int (length fw), expected_results := int (length cs)\<rparr>"
    using i less by (simp add: conn_at_on_conn conn_at_add_results cleared_conn)
  moreover have "complete_read cfg clock junk i bs (r, x) =
      ub_bind (push_all cfg (r_id r) fw (x, 0)) (\<lambda>(x, marks).
        ub_bind (signal_marked marks [0..<g_num_reactors cfg] x) (\<lambda>x. ub_map (\<lambda>r. (r, x)) (submit_response cfg i ?r')))"
    using run by (cases "push_all cfg (r_id r) fw (x, 0)")
      (auto simp: complete_read_def Let_def split_beta simp flip: cleared_def)
  ultimately show ?thesis using e' by (intro exI [of _ ?r']) simp
qed

section \<open>Properties\<close>

text \<open>
  C4. A read whose commands are all on keys of the reactor is answered like a single map would
  answer it: one send is prepared, whose bytes are the replies of the map to the commands in
  order; the engine holds the map afterwards and its log has got the SETs in order; nothing is
  sent to other reactors. A read without a complete header is answered by nothing.
\<close>

theorem read_served:
  assumes "engine_wf (r_engine r)" "r_id r = reactor_id (r_engine r)" "i < length (conns (r_pool r))"
    and "sq_room cfg (length (sq r))" "g_num_reactors cfg \<le> 64" "0 \<le> aof_fd (r_engine r)"
    and "\<forall>c \<in> set (parse_all bs). is_set c \<or> is_get c \<longrightarrow> owns (r_engine r) (key_of c)"
  shows "\<exists>r'. complete_read cfg clock junk i bs (r, x) = Inr (r', x) \<and>
    sq r' = sq r @ [\<lparr>sqe_op = (if parse_all bs = [] then Read_conn (fd (conn_at i r))
        else Send_op (fd (conn_at i r)) (concat (fst (serve (\<lambda>_. True) clock 0 (parse_all bs) (kv (r_engine r)))))), sqe_data = i\<rparr>] \<and>
    kv (r_engine r') = snd (serve (\<lambda>_. True) clock 0 (parse_all bs) (kv (r_engine r))) \<and>
    aof_active (r_engine r') = aof_active (r_engine r) @ aof_image (logged (\<lambda>_. True) (parse_all bs))"
proof -
  let ?e = "r_engine r" and ?cs = "parse_all bs" and ?d = "fd (conn_at i r)"
  have rt: "\<forall>c \<in> set ?cs. routable ?e c" using assms(7) by (auto simp: routable_def)
  have same: "serve (owns ?e) clock n cs m = serve (\<lambda>_. True) clock n cs m"
    if "\<forall>c \<in> set cs. is_set c \<or> is_get c \<longrightarrow> owns ?e (key_of c)" for n cs m
    using that by (induction cs arbitrary: n m) (auto simp: serve_one_def Let_def split_beta)
  have lg: "logged (owns ?e) ?cs = logged (\<lambda>_. True) ?cs"
    unfolding logged_def using assms(7) by (intro arg_cong [where f = "map _"] filter_cong) auto
  have fw: "forwarded (own ?e) junk (r_id r) ?d 0 ?cs = []"
    by (rule forwarded_none) (use assms(2,7) in \<open>auto simp: owns_own\<close>)
  let ?out = "serve (\<lambda>_. True) clock 0 ?cs (kv ?e)"
  from complete_read_serve [OF assms(1,2) rt assms(3), where clock = clock and junk = junk and cfg = cfg and x = x] obtain r1 where
    r1: "stepped ?e (r_engine r1) (snd ?out) (logged (\<lambda>_. True) ?cs)" "sq r1 = sq r"
      "length (conns (r_pool r1)) = length (conns (r_pool r))"
      "conn_at i r1 = (conn_at i r)\<lparr>buffer := bs, response_data := [], pipeline_results := fst ?out,
        pending_itc := 0, expected_results := int (length ?cs)\<rparr>"
    and run: "complete_read cfg clock junk i bs (r, x) =
      ub_bind (signal_marked 0 [0..<g_num_reactors cfg] x) (\<lambda>x. ub_map (\<lambda>r. (r, x)) (submit_response cfg i r1))"
    unfolding fw lg same [OF assms(7)] by auto
  have "signal_marked 0 [0..<g_num_reactors cfg] x = Inr x" by (rule signal_none) (use assms(5) in auto)
  then have run': "complete_read cfg clock junk i bs (r, x) = ub_map (\<lambda>r. (r, x)) (submit_response cfg i r1)" using run by simp
  have "fst ?out = [] \<longleftrightarrow> ?cs = []" using length_serve [of "\<lambda>_. True" clock 0 ?cs "kv ?e"] by (metis length_0_conv)
  moreover have "?cs \<noteq> [] \<Longrightarrow> concat (fst ?out) \<noteq> []" by (rule serve_nonempty) simp_all
  ultimately show ?thesis
    using run' r1 assms(4,6) by (cases "?cs = []") (auto simp: submit_response_def Let_def submit_op_def stepped_def)
qed

text \<open>Two empty inboxes.\<close>

definition quiet_bus :: itc_context where
  "quiet_bus = itc_init (\<lambda>_ _. True) [7, 8] 2"

text \<open>A reactor without clients around an engine, in a program whose ring always has room.\<close>

definition reactor_of :: "engine \<Rightarrow> reactor" where
  "reactor_of e =
     \<lparr>r_id = reactor_id e, r_engine = e, r_pool = connection_pool MAX_CONN_PER_THREAD, fd_to_conn = Map.empty,
      thread_socket = 3, itc_conn = None, aof_conn = None, sq = [], in_kernel = [], closed = []\<rparr>"

definition roomy :: "nat \<Rightarrow> config" where
  "roomy n =
     \<lparr>g_num_reactors = n, thread_of = (\<lambda>i. of_int (i + 10)), inbox_malloc = (\<lambda>_ _. True), sq_room = (\<lambda>_. True)\<rparr>"

lemma reactor_of_simps [simp]:
  "r_engine (reactor_of e) = e" "r_id (reactor_of e) = reactor_id e" "sq (reactor_of e) = []"
  "fd_to_conn (reactor_of e) = Map.empty" "length (conns (r_pool (reactor_of e))) = MAX_CONN_PER_THREAD"
  by (simp_all add: reactor_of_def connection_pool_def)

lemma conn_at_reactor_of [simp]: "i < MAX_CONN_PER_THREAD \<Longrightarrow> conn_at i (reactor_of e) = conn_reset conn_default"
  by (simp add: conn_at_def reactor_of_def connection_pool_def conn_default_def conn_reset_def)

lemma roomy_simps [simp]:
  "g_num_reactors (roomy n) = n" "sq_room (roomy n) = (\<lambda>_. True)" "inbox_malloc (roomy n) = (\<lambda>_ _. True)"
  "thread_of (roomy n) = (\<lambda>i. of_int (i + 10))"
  by (simp_all add: roomy_def)

lemma reactor_id_single [simp]: "reactor_id single_engine = 0"
  by (simp add: single_engine_def engine_fields_def)

theorem read_served_witness:
  "\<exists>r'. complete_read (roomy 1) (\<lambda>_. 5) (\<lambda>_. blank_message) 7
       (concat (map encode_request [[''SET'', ''k'', ''v''], [''GET'', ''k''], [''PING'']]))
       (reactor_of single_engine, quiet_bus) = Inr (r', quiet_bus) \<and>
     sq r' = [\<lparr>sqe_op = Send_op (-1) (resp_OK @ bulk ''v'' @ resp_PONG), sqe_data = 7\<rparr>]"
proof -
  let ?reqs = "[[''SET'', ''k'', ''v''], [''GET'', ''k''], [''PING'']]"
  let ?bs = "concat (map encode_request ?reqs)"
  have p: "parse_all ?bs = map (\<lambda>r. \<lparr>cmd_type = hd r, cmd_args = tl r\<rparr>) ?reqs"
    using parse_all_pipeline [of ?reqs "[]"] by (simp add: line_free_def)
  have room: "7 < length (conns (r_pool (reactor_of single_engine)))" by (simp add: MAX_CONN_PER_THREAD_def)
  have out: "fst (serve (\<lambda>_. True) (\<lambda>_. 5) 0 (parse_all ?bs) Map.empty) = [resp_OK, bulk ''v'', resp_PONG]"
    unfolding p by (simp add: serve_Cons serve_one_def is_set_def is_get_def key_of_def other_reply_def Let_def
        visible_def live_def new_entry_def parse_ttl_def)
  have "parse_all ?bs \<noteq> []" unfolding p by simp
  with read_served [where r = "reactor_of single_engine" and i = 7 and cfg = "roomy 1" and bs = ?bs
      and clock = "\<lambda>_. 5" and junk = "\<lambda>_. blank_message" and x = quiet_bus] room out
  show ?thesis by (auto simp: MAX_CONN_PER_THREAD_def conn_reset_def conn_default_def)
qed

text \<open>
  C5. A read with commands on keys of other reactors, which must not be empty: each of these gets a placeholder at its
  position among the results, a message to the owner of its key that carries the position and the
  descriptor of the client, in the order of the commands, and is counted; the others are answered
  at once as in a map; the connection is suspended with no operation prepared, and the reactors
  that got messages are signalled.
\<close>

theorem read_forwarded:
  fixes clock :: "nat \<Rightarrow> u64" and junk :: "nat \<Rightarrow> itc_message"
  assumes "engine_wf (r_engine r)" "r_id r = reactor_id (r_engine r)" "i < length (conns (r_pool r))"
    and "\<forall>c \<in> set (parse_all bs). (is_set c \<or> is_get c) \<and> key_of c = [] \<longrightarrow> owns (r_engine r) []"
    and "forwarded (own (r_engine r)) junk (r_id r) (fd (conn_at i r)) 0 (parse_all bs) \<noteq> []"
  shows "\<exists>r'. complete_read cfg clock junk i bs (r, x) =
      ub_bind (push_all cfg (r_id r) (forwarded (own (r_engine r)) junk (r_id r) (fd (conn_at i r)) 0 (parse_all bs)) (x, 0))
        (\<lambda>(x, marks). ub_map (\<lambda>x. (r', x)) (signal_marked marks [0..<g_num_reactors cfg] x)) \<and>
    sq r' = sq r \<and> suspended (conn_at i r') \<and>
    pending_itc (conn_at i r') = int (length (forwarded (own (r_engine r)) junk (r_id r) (fd (conn_at i r)) 0 (parse_all bs))) \<and>
    pipeline_results (conn_at i r') = fst (serve (owns (r_engine r)) clock 0 (parse_all bs) (kv (r_engine r))) \<and>
    kv (r_engine r') = snd (serve (owns (r_engine r)) clock 0 (parse_all bs) (kv (r_engine r))) \<and>
    aof_active (r_engine r') = aof_active (r_engine r) @
      (if aof_fd (r_engine r) < 0 then [] else aof_image (logged (owns (r_engine r)) (parse_all bs)))"
proof -
  let ?e = "r_engine r" and ?cs = "parse_all bs"
  let ?fw = "forwarded (own ?e) junk (r_id r) (fd (conn_at i r)) 0 ?cs"
  have rt: "\<forall>c \<in> set ?cs. routable ?e c" using assms(4) by (auto simp: routable_def)
  from complete_read_serve [OF assms(1,2) rt assms(3), where clock = clock and junk = junk and cfg = cfg and x = x]
  obtain r1 where r1: "stepped ?e (r_engine r1) (snd (serve (owns ?e) clock 0 ?cs (kv ?e))) (logged (owns ?e) ?cs)"
      "sq r1 = sq r" "length (conns (r_pool r1)) = length (conns (r_pool r))"
      "conn_at i r1 = (conn_at i r)\<lparr>buffer := bs, response_data := [], pipeline_results := fst (serve (owns ?e) clock 0 ?cs (kv ?e)),
        pending_itc := int (length ?fw), expected_results := int (length ?cs)\<rparr>"
    and run: "complete_read cfg clock junk i bs (r, x) =
      ub_bind (push_all cfg (r_id r) ?fw (x, 0)) (\<lambda>(x, marks).
        ub_bind (signal_marked marks [0..<g_num_reactors cfg] x) (\<lambda>x. ub_map (\<lambda>r. (r, x)) (submit_response cfg i r1)))"
    by blast
  let ?r = "on_conn i (\<lambda>c. c\<lparr>suspended := True\<rparr>) r1"
  have "0 < length ?fw" using assms(5) by simp
  then have sub: "submit_response cfg i r1 = Inr ?r" using r1(4) by (simp add: submit_response_def)
  have "complete_read cfg clock junk i bs (r, x) =
      ub_bind (push_all cfg (r_id r) ?fw (x, 0))
        (\<lambda>(x, marks). ub_map (\<lambda>x. (?r, x)) (signal_marked marks [0..<g_num_reactors cfg] x))"
    unfolding run sub ub_map_simps by (simp add: ub_map_def)
  moreover have "conn_at i ?r = (conn_at i r1)\<lparr>suspended := True\<rparr>" using r1(3) assms(3) by (simp add: conn_at_on_conn)
  ultimately show ?thesis using r1 by (intro exI [of _ ?r]) (simp add: stepped_def)
qed

text \<open>An engine of two that does not own the key.\<close>

definition engine_without :: "bytes \<Rightarrow> engine" where
  "engine_without k = engine_fields 512 (if owner_of 512 2 k = 0 then 1 else 0) 2"

lemma engine_without_ok [simp]:
  "engine_wf (engine_without k)" "\<not> owns (engine_without k) k" "own (engine_without k) k \<noteq> reactor_id (engine_without k)"
  using engine_wf_fields [of 512 0 2] engine_wf_fields [of 512 1 2]
  by (auto simp: engine_without_def owns_def own_def engine_fields_def)

theorem read_forwarded_witness:
  "\<exists>r' f. complete_read (roomy 2) (\<lambda>_. 5) (\<lambda>_. blank_message) 7 (encode_request [''GET'', ''k''])
       (reactor_of (engine_without ''k''), quiet_bus) = ub_bind f (\<lambda>(x, marks). ub_map (\<lambda>x. (r', x)) (signal_marked marks [0, 1] x)) \<and>
     suspended (conn_at 7 r') \<and> pending_itc (conn_at 7 r') = 1 \<and> pipeline_results (conn_at 7 r') = [[]] \<and> sq r' = []"
proof -
  let ?e = "engine_without ''k''" and ?bs = "encode_request [''GET'', ''k'']"
  have p: "parse_all ?bs = [\<lparr>cmd_type = ''GET'', cmd_args = [''k'']\<rparr>]"
    using parse_all_pipeline [of "[[''GET'', ''k'']]" "[]"] by (simp add: line_free_def)
  have i: "7 < length (conns (r_pool (reactor_of ?e)))" by (simp add: MAX_CONN_PER_THREAD_def)
  have fw: "length (forwarded (own ?e) (\<lambda>_. blank_message) (reactor_id ?e) d 0 (parse_all ?bs)) = 1" for d
    unfolding p by (simp add: is_get_def key_of_def)
  have out: "fst (serve (owns ?e) (\<lambda>_. 5) 0 (parse_all ?bs) (kv ?e)) = [[]]"
    unfolding p by (simp add: serve_Cons serve_one_def is_set_def is_get_def key_of_def Let_def)
  have ne: "forwarded (own ?e) (\<lambda>_. blank_message) (reactor_id ?e) d 0 (parse_all ?bs) \<noteq> []" for d
    using fw [of d] by (metis list.size(3) zero_neq_one)
  have keyed: "\<forall>c \<in> set (parse_all ?bs). (is_set c \<or> is_get c) \<and> key_of c = [] \<longrightarrow> owns ?e []"
    unfolding p by (simp add: key_of_def)
  have two: "[0..<2] = [0, 1 :: nat]" by (simp add: upt_rec)
  from read_forwarded [where r = "reactor_of ?e" and i = 7 and bs = ?bs and junk = "\<lambda>_. blank_message" and clock = "\<lambda>_. 5"
      and cfg = "roomy 2" and x = quiet_bus] i keyed ne
  show ?thesis by (simp add: fw out two) (use fw [of "-1"] in \<open>metis (no_types, lifting)\<close>)
qed

section \<open>A command on a key of another reactor\<close>

lemma request_for_ok:
  assumes "message_ok junk" "is_set c \<or> is_get c" "length (key_of c) \<le> 127"
  shows "get_key (request_for junk rid d n c) = Inr (key_of c)" "sender_reactor (request_for junk rid d n c) = rid"
    "conn_fd (request_for junk rid d n c) = d" "pipeline_idx (request_for junk rid d n c) = int n"
    "itc_type (request_for junk rid d n c) = (if is_set c then SET_REQ else GET_REQ)"
    "is_set c \<Longrightarrow> get_value (request_for junk rid d n c) = Inr (take 383 (cmd_args c ! 1))"
    "is_set c \<Longrightarrow> ttl_ms (request_for junk rid d n c) = parse_ttl c"
proof -
  have m: "message_ok (request_message junk t rid d n)" for t using assms(1) by (simp add: request_message_def message_ok_def)
  have u: "get_key (mm\<lparr>ttl_ms := t\<rparr>) = get_key mm" "get_value (mm\<lparr>ttl_ms := t\<rparr>) = get_value mm" for mm t
    by (simp_all add: get_key_def get_value_def)
  show "get_key (request_for junk rid d n c) = Inr (key_of c)" using assms m by (simp add: request_for_def u)
  show "is_set c \<Longrightarrow> get_value (request_for junk rid d n c) = Inr (take 383 (cmd_args c ! 1))"
    using m by (simp add: request_for_def u)
qed (simp_all add: request_for_def, simp_all add: request_message_def)

text \<open>The reply to a GET as the requester will write it.\<close>

definition remote_text :: "bytes option \<Rightarrow> bytes" where
  "remote_text v = (case v of None \<Rightarrow> resp_NIL | Some v \<Rightarrow> if v = [] then resp_OK else bulk (take 383 v))"

lemma remote_get_run:
  assumes "engine_wf (r_engine r)" "owns (r_engine r) (key_of c)" "is_get c" "length (key_of c) \<le> 127"
    and "message_ok junk" "message_ok junk'"
  shows "\<exists>e resp. process_message cfg now junk' (request_for junk rid d n c) (r, x, marks) =
      ub_map (\<lambda>xm. (r\<lparr>r_engine := e\<rparr>, xm)) (push_and_mark cfg (r_id r) rid resp (x, marks)) \<and>
    itc_type resp = RESP \<and> conn_fd resp = d \<and> pipeline_idx resp = int n \<and>
    reply_text resp = Inr (remote_text (map_option ve_data (visible now (kv (r_engine r) (key_of c))))) \<and>
    kv e = snd (serve_one (\<lambda>_. True) now c (kv (r_engine r)))"
proof -
  let ?k = "key_of c" and ?m = "request_for junk rid d n c"
  note q = request_for_ok [OF assms(5) disjI2 [OF assms(3)] assms(4), of rid d n]
  have ns: "\<not> is_set c" using assms(3) is_set_not_get by blast
  define res where "res = map_option ve_data (visible now (kv (r_engine r) ?k))"
  from eng.get_law [OF assms(1,2), of now] obtain e where
    e: "engine_get now ?k (r_engine r) = Inr (res, e)"
      "kv e = (if visible now (kv (r_engine r) ?k) = None then (kv (r_engine r))(?k := None) else kv (r_engine r))"
    unfolding res_def by blast
  define rm where "rm = reply_message junk' (r_id r) ?m (res \<noteq> None)"
  let ?resp = "case res of None \<Rightarrow> rm | Some v \<Rightarrow> set_value v rm"
  have rm: "message_ok rm" using assms(6) by (simp add: rm_def reply_message_def message_ok_def)
  have f: "itc_type rm = RESP" "conn_fd rm = d" "pipeline_idx rm = int n" "found rm = (res \<noteq> None)"
    by (simp_all add: rm_def reply_message_def q)
  have "process_message cfg now junk' ?m (r, x, marks) =
      ub_map (\<lambda>xm. (r\<lparr>r_engine := e\<rparr>, xm)) (push_and_mark cfg (r_id r) rid ?resp (x, marks))"
    using e(1) by (cases res) (simp_all add: process_message_def Let_def q ns rm_def)
  moreover have "reply_text ?resp = Inr (remote_text res)"
    using rm f by (cases res) (simp_all add: reply_text_def remote_text_def)
  moreover have "kv e = snd (serve_one (\<lambda>_. True) now c (kv (r_engine r)))"
    using e(2) assms(3) ns by (auto simp: serve_one_def Let_def split: option.split)
  ultimately show ?thesis using f unfolding res_def [symmetric]
    by (intro exI [of _ e] exI [of _ ?resp]) (auto split: option.split)
qed

text \<open>
  C6. A GET of a key of another reactor gives the client the bytes it would have got from its own
  reactor: the owner turns the request into a response for the same descriptor and position,
  whose text is the reply of the map, and its map changes like the map of a local GET. The key
  must fit a message (127 bytes), and the value must not be empty and must fit it too (383 bytes); without that the
  claim is false.
\<close>

theorem remote_get_like_local:
  assumes "engine_wf (r_engine r)" "owns (r_engine r) (key_of c)" "is_get c" "length (key_of c) \<le> 127"
    and "message_ok junk" "message_ok junk'"
    and "\<forall>v. kv (r_engine r) (key_of c) = Some v \<longrightarrow> ve_data v \<noteq> [] \<and> length (ve_data v) \<le> 383"
  shows "\<exists>e resp. process_message cfg now junk' (request_for junk rid d n c) (r, x, marks) =
      ub_map (\<lambda>xm. (r\<lparr>r_engine := e\<rparr>, xm)) (push_and_mark cfg (r_id r) rid resp (x, marks)) \<and>
    itc_type resp = RESP \<and> conn_fd resp = d \<and> pipeline_idx resp = int n \<and>
    reply_text resp = Inr (fst (serve_one (\<lambda>_. True) now c (kv (r_engine r)))) \<and>
    kv e = snd (serve_one (\<lambda>_. True) now c (kv (r_engine r)))"
proof -
  have "remote_text (map_option ve_data (visible now (kv (r_engine r) (key_of c)))) = fst (serve_one (\<lambda>_. True) now c (kv (r_engine r)))"
    using assms(3,7) is_set_not_get [of c]
    by (auto simp: remote_text_def visible_def serve_one_def Let_def split: option.split)
  with remote_get_run [OF assms(1-6), of cfg now rid d n x marks] show ?thesis by simp
qed

definition get_command :: "bytes \<Rightarrow> command" where
  "get_command k = \<lparr>cmd_type = ''GET'', cmd_args = [k]\<rparr>"

lemma get_command_simps [simp]: "is_get (get_command k)" "\<not> is_set (get_command k)" "key_of (get_command k) = k"
  by (simp_all add: get_command_def is_get_def is_set_def key_of_def)

text \<open>An engine of one reactor that holds one value.\<close>

definition engine_with :: "bytes \<Rightarrow> bytes \<Rightarrow> engine" where
  "engine_with k v = put_entry k (Some (new_entry 0 v 0)) single_engine"

lemma engine_with_ok [simp]:
  "engine_wf (engine_with k v)" "owns (engine_with k v) k'" "kv (engine_with k v) = [k \<mapsto> new_entry 0 v 0]"
  by (simp_all add: engine_with_def)

lemma visible_new [simp]: "visible now (Some (new_entry 0 v 0)) = Some (new_entry 0 v 0)"
  "ve_data (new_entry 0 v 0) = v"
  by (simp_all add: visible_def live_def new_entry_def)

theorem remote_get_like_local_witness:
  "\<exists>resp f. process_message (roomy 2) 9 blank_message (request_for blank_message 1 12 0 (get_command ''k''))
       (reactor_of (engine_with ''k'' ''v''), quiet_bus, 0) = ub_map f (push_and_mark (roomy 2) (reactor_id (engine_with ''k'' ''v'')) 1 resp (quiet_bus, 0)) \<and>
     reply_text resp = Inr (bulk ''v'')"
proof -
  have "fst (serve_one (\<lambda>_. True) 9 (get_command ''k'') [''k'' \<mapsto> new_entry 0 ''v'' 0]) = bulk ''v''"
    by (simp add: serve_one_def Let_def)
  with remote_get_like_local [of "reactor_of (engine_with ''k'' ''v'')" "get_command ''k''" blank_message blank_message "roomy 2" 9 1 12 0 quiet_bus 0]
  show ?thesis by (auto simp: new_entry_def)
qed

text \<open>
  C37. A GET of a key of another reactor, of at most 127 bytes, whose value is empty is answered with \<open>+OK\<close> and a GET of a
  value of more than 383 bytes with its first 383: only the first is the reply to a local GET.
\<close>

theorem remote_get_differs:
  assumes "engine_wf (r_engine r)" "owns (r_engine r) (key_of c)" "is_get c" "length (key_of c) \<le> 127"
    and "message_ok junk" "message_ok junk'" "visible now (kv (r_engine r) (key_of c)) = Some v"
    and "ve_data v = [] \<or> 383 < length (ve_data v)"
  shows "\<exists>e resp. process_message cfg now junk' (request_for junk rid d n c) (r, x, marks) =
      ub_map (\<lambda>xm. (r\<lparr>r_engine := e\<rparr>, xm)) (push_and_mark cfg (r_id r) rid resp (x, marks)) \<and>
    reply_text resp = Inr (if ve_data v = [] then resp_OK else bulk (take 383 (ve_data v))) \<and>
    fst (serve_one (\<lambda>_. True) now c (kv (r_engine r))) = bulk (ve_data v)"
proof -
  have "fst (serve_one (\<lambda>_. True) now c (kv (r_engine r))) = bulk (ve_data v)"
    using assms(3,7) is_set_not_get [of c] by (auto simp: serve_one_def Let_def)
  moreover have "remote_text (map_option ve_data (visible now (kv (r_engine r) (key_of c)))) =
      (if ve_data v = [] then resp_OK else bulk (take 383 (ve_data v)))"
    using assms(7) by (simp add: remote_text_def)
  ultimately show ?thesis using remote_get_run [OF assms(1-6), of cfg now rid d n x marks] by (simp only:) blast
qed

theorem remote_get_differs_witness:
  "\<exists>resp f. process_message (roomy 2) 9 blank_message (request_for blank_message 1 12 0 (get_command ''k''))
       (reactor_of (engine_with ''k'' []), quiet_bus, 0) = ub_map f (push_and_mark (roomy 2) (reactor_id (engine_with ''k'' [])) 1 resp (quiet_bus, 0)) \<and>
     reply_text resp = Inr resp_OK"
  using remote_get_differs [of "reactor_of (engine_with ''k'' [])" "get_command ''k''" blank_message blank_message 9
      "new_entry 0 [] 0" "roomy 2" 1 12 0 quiet_bus 0] by auto

lemma remote_set_run:
  fixes n :: nat and d rid :: int and junk' :: itc_message
  assumes "engine_wf (r_engine r)" "owns (r_engine r) (key_of c)" "is_set c" "length (key_of c) \<le> 127"
    and "length (cmd_args c ! 1) \<le> 383" "message_ok junk"
  defines "resp \<equiv> reply_message junk' (r_id r) (request_for junk rid d n c) True"
  shows "\<exists>e. process_message cfg now junk' (request_for junk rid d n c) (r, x, marks) =
      ub_map (\<lambda>xm. (r\<lparr>r_engine := e\<rparr>, xm)) (push_and_mark cfg (r_id r) rid resp (x, marks)) \<and>
    stepped (r_engine r) e (snd (serve_one (\<lambda>_. True) now c (kv (r_engine r)))) [(key_of c, cmd_args c ! 1)]"
    and "itc_type resp = RESP \<and> conn_fd resp = d \<and> pipeline_idx resp = int n \<and> found resp \<and> get_value resp = get_value junk'"
proof -
  let ?k = "key_of c" and ?v = "cmd_args c ! 1" and ?m = "request_for junk rid d n c"
  note q = request_for_ok [OF assms(6) disjI1 [OF assms(3)] assms(4), of rid d n]
  let ?e = "append_aof_set ?k ?v (put_entry ?k (Some (new_entry now ?v (parse_ttl c))) (r_engine r))"
  have "process_message cfg now junk' ?m (r, x, marks) =
      ub_map (\<lambda>xm. (r\<lparr>r_engine := ?e\<rparr>, xm)) (push_and_mark cfg (r_id r) rid resp (x, marks))"
    using assms(3,5) engine_set_owned [OF assms(1,2)]
    by (simp add: process_message_def Let_def q process_local_set_def resp_def)
  moreover have "stepped (r_engine r) ?e ((kv (r_engine r))(?k \<mapsto> new_entry now ?v (parse_ttl c))) [(?k, ?v)]"
    by (rule stepped_append [OF stepped_put [OF assms(1,2)]])
  ultimately show "\<exists>e. process_message cfg now junk' ?m (r, x, marks) =
      ub_map (\<lambda>xm. (r\<lparr>r_engine := e\<rparr>, xm)) (push_and_mark cfg (r_id r) rid resp (x, marks)) \<and>
    stepped (r_engine r) e (snd (serve_one (\<lambda>_. True) now c (kv (r_engine r)))) [(?k, ?v)]"
    using assms(3) by (intro exI [of _ ?e]) (simp add: serve_one_def Let_def)
  show "itc_type resp = RESP \<and> conn_fd resp = d \<and> pipeline_idx resp = int n \<and> found resp \<and> get_value resp = get_value junk'"
    by (simp add: resp_def reply_message_def q get_value_def)
qed

text \<open>
  C7. A SET of a key of at most 127 bytes of another reactor and a value of at most 383 has the effect of a SET at
  its owner: the map of the owner changes as there, its log, when it is open, gets the whole record, and the response
  carries the descriptor and position of the request. A longer key or value is cut by the message.
\<close>

theorem remote_set_like_local:
  assumes "engine_wf (r_engine r)" "owns (r_engine r) (key_of c)" "is_set c" "length (key_of c) \<le> 127"
    and "length (cmd_args c ! 1) \<le> 383" "message_ok junk"
  shows "\<exists>e resp. process_message cfg now junk' (request_for junk rid d n c) (r, x, marks) =
      ub_map (\<lambda>xm. (r\<lparr>r_engine := e\<rparr>, xm)) (push_and_mark cfg (r_id r) rid resp (x, marks)) \<and>
    kv e = snd (serve_one (\<lambda>_. True) now c (kv (r_engine r))) \<and>
    aof_active e = aof_active (r_engine r) @ (if aof_fd (r_engine r) < 0 then [] else set_record (key_of c, cmd_args c ! 1)) \<and>
    itc_type resp = RESP \<and> conn_fd resp = d \<and> pipeline_idx resp = int n \<and> found resp"
proof -
  let ?resp = "reply_message junk' (r_id r) (request_for junk rid d n c) True"
  from remote_set_run(1) [OF assms, where cfg = cfg and now = now and junk' = junk' and rid = rid and d = d and n = n and x = x and marks = marks]
  obtain e where e: "process_message cfg now junk' (request_for junk rid d n c) (r, x, marks) =
      ub_map (\<lambda>xm. (r\<lparr>r_engine := e\<rparr>, xm)) (push_and_mark cfg (r_id r) rid ?resp (x, marks))"
    "stepped (r_engine r) e (snd (serve_one (\<lambda>_. True) now c (kv (r_engine r)))) [(key_of c, cmd_args c ! 1)]" by blast
  with remote_set_run(2) [OF assms, where junk' = junk' and rid = rid and d = d and n = n] show ?thesis
    by (intro exI [of _ e] exI [of _ ?resp]) (simp add: stepped_def aof_image_def)
qed

definition set_command :: "bytes \<Rightarrow> bytes \<Rightarrow> command" where
  "set_command k v = \<lparr>cmd_type = ''SET'', cmd_args = [k, v]\<rparr>"

lemma set_command_simps [simp]:
  "is_set (set_command k v)" "key_of (set_command k v) = k" "cmd_args (set_command k v) ! Suc 0 = v"
  "parse_ttl (set_command k v) = 0"
  by (simp_all add: set_command_def is_set_def key_of_def parse_ttl_def)

theorem remote_set_like_local_witness:
  "\<exists>e f. process_message (roomy 2) 9 blank_message (request_for blank_message 1 12 0 (set_command ''k'' ''v''))
       (reactor_of single_engine, quiet_bus, 0) = f e \<and> kv e = [''k'' \<mapsto> new_entry 9 ''v'' 0] \<and> aof_active e = set_record (''k'', ''v'')"
proof -
  have "snd (serve_one (\<lambda>_. True) 9 (set_command ''k'' ''v'') Map.empty) = [''k'' \<mapsto> new_entry 9 ''v'' 0]"
    by (simp add: serve_one_def Let_def)
  with remote_set_like_local [of "reactor_of single_engine" "set_command ''k'' ''v''" blank_message "roomy 2" 9 blank_message 1 12 0 quiet_bus 0]
  show ?thesis by auto
qed

text \<open>A reply of the owner that was found and whose value was not set shows what was left there.\<close>

lemma reply_text_left:
  assumes "message_ok left"
  shows "reply_text (reply_message (set_value v left) rid msg True) = Inr (if v = [] then resp_OK else bulk (take 383 v))"
proof -
  have "get_value (reply_message (set_value v left) rid msg True) = get_value (set_value v left)"
    by (simp add: reply_message_def get_value_def)
  moreover have "found (reply_message (set_value v left) rid msg True)" by (simp add: reply_message_def)
  ultimately show ?thesis using assms by (auto simp: reply_text_def)
qed

text \<open>
  C38. The owner answers a SET of a key of another reactor with a response whose value it does not set, and the
  requester reads it: the client gets \<open>+OK\<close>, as for a SET of a key of its own reactor, only when the memory of the message
  happened to hold an empty value, and otherwise the value that was left in it, such as that of an earlier
  reply. The key and the value of the request fit a message.
\<close>

theorem remote_set_reply_is_leftover:
  assumes "engine_wf (r_engine r)" "owns (r_engine r) (key_of c)" "is_set c" "length (key_of c) \<le> 127"
    and "length (cmd_args c ! 1) \<le> 383" "message_ok junk" "message_ok left"
  shows "\<exists>e resp. process_message cfg now (set_value v left) (request_for junk rid d n c) (r, x, marks) =
      ub_map (\<lambda>xm. (r\<lparr>r_engine := e\<rparr>, xm)) (push_and_mark cfg (r_id r) rid resp (x, marks)) \<and>
    reply_text resp = Inr (if v = [] then resp_OK else bulk (take 383 v)) \<and>
    fst (serve_one (\<lambda>_. True) now c (kv (r_engine r))) = resp_OK"
proof -
  let ?resp = "reply_message (set_value v left) (r_id r) (request_for junk rid d n c) True"
  have "fst (serve_one (\<lambda>_. True) now c (kv (r_engine r))) = resp_OK"
    using assms(3) by (simp add: serve_one_def Let_def)
  with reply_text_left [OF assms(7)] show ?thesis
    using remote_set_run(1) [OF assms(1-6), of cfg now "set_value v left" rid d n x marks] by blast
qed

theorem remote_set_reply_is_leftover_witness:
  "\<exists>resp f. process_message (roomy 2) 9 (set_value ''old'' blank_message) (request_for blank_message 1 12 0 (set_command ''k'' ''v''))
       (reactor_of single_engine, quiet_bus, 0) = ub_map f (push_and_mark (roomy 2) (reactor_id single_engine) 1 resp (quiet_bus, 0)) \<and>
     reply_text resp = Inr (bulk ''old'')"
  using remote_set_reply_is_leftover [of "reactor_of single_engine" "set_command ''k'' ''v''" blank_message blank_message
      "roomy 2" 9 "''old''" 1 12 0 quiet_bus 0] by auto

section \<open>The response comes back\<close>

text \<open>
  C8. A response fills its placeholder. While others are awaited nothing is sent; the last one
  resumes the connection and prepares one send with all results of the pipeline in the order of the
  commands.
\<close>

theorem response_fills_placeholder:
  assumes "fd_to_conn r (conn_fd msg) = Some i" "i < length (conns (r_pool r))" "suspended (conn_at i r)"
    and "pipeline_idx msg = int n" "n < length (pipeline_results (conn_at i r))" "reply_text msg = Inr s" "s \<noteq> []"
    and "0 < pending_itc (conn_at i r)" "sq_room cfg (length (sq r))"
  shows "\<exists>r'. handle_resp cfg msg r = Inr r' \<and> r_engine r' = r_engine r \<and>
    pending_itc (conn_at i r') = pending_itc (conn_at i r) - 1 \<and>
    (if pending_itc (conn_at i r) = 1
     then sq r' = sq r @ [\<lparr>sqe_op = Send_op (fd (conn_at i r)) (concat ((pipeline_results (conn_at i r))[n := s])), sqe_data = i\<rparr>] \<and>
       \<not> suspended (conn_at i r') \<and> pipeline_results (conn_at i r') = []
     else sq r' = sq r \<and> suspended (conn_at i r') \<and> pipeline_results (conn_at i r') = (pipeline_results (conn_at i r))[n := s])"
proof -
  let ?c = "conn_at i r" and ?rs = "(pipeline_results (conn_at i r))[n := s]"
  note at = conn_at_on_conn
  have st: "store_result i msg r = Inr (on_conn i (\<lambda>c. c\<lparr>pipeline_results := ?rs\<rparr>) r)"
    using assms(4-6) by (simp add: store_result_def)
  let ?r = "on_conn i (\<lambda>c. c\<lparr>pipeline_results := ?rs, pending_itc := pending_itc c - 1\<rparr>) r"
  have r2: "on_conn i (\<lambda>c. c\<lparr>pending_itc := pending_itc c - 1\<rparr>) (on_conn i (\<lambda>c. c\<lparr>pipeline_results := ?rs\<rparr>) r) = ?r"
    by (simp add: on_conn_on_conn)
  have run: "handle_resp cfg msg r =
      (if pending_itc (conn_at i ?r) = 0 \<and> suspended (conn_at i ?r)
       then submit_response cfg i (on_conn i (\<lambda>c. c\<lparr>suspended := False\<rparr>) ?r) else Inr ?r)"
    by (simp only: handle_resp_def assms(1) option.case st ub_bind_simps Let_def r2)
  show ?thesis
  proof (cases "pending_itc ?c = 1")
    case True
    let ?q = "on_conn i (\<lambda>c. c\<lparr>suspended := False\<rparr>) ?r"
    have q: "conn_at i ?q = ?c\<lparr>pipeline_results := ?rs, pending_itc := 0, suspended := False\<rparr>"
      using assms(2) True by (simp add: at)
    have ne: "?rs \<noteq> []" "concat ?rs \<noteq> []" using assms(5,7) set_update_memI [of n _ s] by auto
    have "submit_response cfg i ?q = submit_op cfg (Send_op (fd ?c) (concat ?rs)) i
        (on_conn i (\<lambda>_. ?c\<lparr>pending_itc := 0, suspended := False, response_data := concat ?rs, pipeline_results := [], conn_type := WRITE\<rparr>) ?q)"
      using ne by (simp add: submit_response_def q Let_def)
    with run True assms(2,3,9) show ?thesis by (simp add: submit_op_def at)
  next
    case False
    with run assms(2,3) show ?thesis by (simp add: at)
  qed
qed

text \<open>A reactor whose connection 7, of descriptor 12, waits for the second of two results.\<close>

definition waiting_reactor :: reactor where
  "waiting_reactor =
     on_conn 7 (\<lambda>c. c\<lparr>fd := 12, conn_type := READ, pipeline_results := [resp_OK, []], pending_itc := 1, suspended := True\<rparr>)
       ((reactor_of single_engine)\<lparr>fd_to_conn := [12 \<mapsto> 7]\<rparr>)"

theorem response_fills_placeholder_witness:
  "\<exists>r'. handle_resp (roomy 2) (reply_message (set_value ''v'' blank_message) 1
         (request_for blank_message 0 12 1 (get_command ''k'')) True) waiting_reactor = Inr r' \<and>
     sq r' = [\<lparr>sqe_op = Send_op 12 (resp_OK @ bulk ''v''), sqe_data = 7\<rparr>]"
proof -
  let ?m = "reply_message (set_value ''v'' blank_message) 1 (request_for blank_message 0 12 1 (get_command ''k'')) True"
  have b: "7 < length (conns (r_pool (reactor_of single_engine)))" by (simp add: MAX_CONN_PER_THREAD_def)
  have "conn_at 7 ((reactor_of single_engine)\<lparr>fd_to_conn := [12 \<mapsto> 7]\<rparr>) = conn_reset conn_default"
    using conn_at_reactor_of [of 7 single_engine] by (simp add: conn_at_def MAX_CONN_PER_THREAD_def)
  then have c: "conn_at 7 waiting_reactor = (conn_reset conn_default)\<lparr>fd := 12, conn_type := READ,
      pipeline_results := [resp_OK, []], pending_itc := 1, suspended := True\<rparr>"
    using b by (simp add: waiting_reactor_def conn_at_on_conn)
  have m: "conn_fd ?m = 12" "pipeline_idx ?m = int 1" "reply_text ?m = Inr (bulk ''v'')"
    using request_for_ok(3,4) [of blank_message "get_command ''k''" 0 12 1]
      reply_text_left [OF blank_message_ok, of "''v''" 1 "request_for blank_message 0 12 1 (get_command ''k'')"]
    by (simp_all add: reply_message_def)
  have w: "fd_to_conn waiting_reactor (conn_fd ?m) = Some 7" "7 < length (conns (r_pool waiting_reactor))" "sq waiting_reactor = []"
    using b m(1) by (simp_all add: waiting_reactor_def)
  from response_fills_placeholder [OF w(1,2) _ m(2) _ m(3), where cfg = "roomy 2"] c w(3) show ?thesis by auto
qed

end
