(* ===== verification/Runs.thy ===== *)
theory Runs
  imports Wakeup Serve
begin

text \<open>
  Concrete runs of the program: the first reactor of a program of \<open>n\<close> starts on an empty
  file, drains its empty inbox, and waits; then a client connects. They give the properties of
  reachable states the states they are applied to.
\<close>

lemma submit_op_roomy [simp]:
  "submit_op (roomy n) op i r = Inr (r\<lparr>sq := sq r @ [\<lparr>sqe_op = op, sqe_data = i\<rparr>]\<rparr>)"
  by (simp add: submit_op_def)

lemma config_ok_roomy:
  assumes "0 < n" "n \<le> 64"
  shows "config_ok (roomy n)"
proof -
  have "(1 :: u64) < of_int (int j + 10)" if "j < n" for j
  proof -
    have "uint (of_int (int j + 10) :: u64) = int j + 10"
      using that assms by (subst uint_word_of_int) (simp add: take_bit_int_eq_self)
    then show ?thesis by (simp add: word_less_def)
  qed
  with assms show ?thesis by (simp add: config_ok_def room_ok_def)
qed

lemma new_engine_fresh:
  assumes "0 \<le> rid"
  shows "\<exists>name. new_engine 512 rid n clock None opened = Inr ((engine_fields 512 rid n)\<lparr>file_name := name, aof_fd := opened\<rparr>)"
  using assms by (auto simp: new_engine_def Let_def recover_from_aof_def)

lemma upt_three: "2 < n \<Longrightarrow> [0..<n] = 0 # 1 # 2 # [3..<n]"
  by (simp add: upt_conv_Cons numeral_2_eq_2 numeral_3_eq_3)

lemma free_slots:
  "free_indices (connection_pool MAX_CONN_PER_THREAD) = 0 # 1 # 2 # [3..<MAX_CONN_PER_THREAD]"
  using upt_three [of MAX_CONN_PER_THREAD] by (simp add: connection_pool_def MAX_CONN_PER_THREAD_def)

lemma start_roomy:
  assumes "j < n" "j < length (event_fds x)" "0 \<le> sock"
  shows "\<exists>r. start_reactor (roomy n) (int j) clock None opened sock x = Inr (Some r) \<and> in_kernel r = [] \<and>
    fd_to_conn r = Map.empty \<and> free_indices (r_pool r) = [3..<MAX_CONN_PER_THREAD] \<and>
    sq r = [\<lparr>sqe_op = Accept_op sock, sqe_data = 0\<rparr>, \<lparr>sqe_op = Read_event (event_fds x ! j), sqe_data = 1\<rparr>] \<and>
    aof_active (r_engine r) = [] \<and> conn_type (conn_at 0 r) = ACCEPT"
proof -
  from new_engine_fresh [of "int j" "int n" clock opened] obtain name where
    e: "new_engine 512 (int j) (int n) clock None opened = Inr ((engine_fields 512 (int j) (int n))\<lparr>file_name := name, aof_fd := opened\<rparr>)"
    by auto
  have g: "get_event_fd (int j) x = Inr (event_fds x ! j)" using assms(2) by (simp add: get_event_fd_def)
  have l: "0 < length (conns (connection_pool MAX_CONN_PER_THREAD))" "1 < length (conns (connection_pool MAX_CONN_PER_THREAD))" by (simp_all add: connection_pool_def MAX_CONN_PER_THREAD_def)
  show ?thesis
    using assms(3) l
    by (simp add: start_reactor_def e g submit_accept_def submit_itc_read_def acquire_def free_slots Let_def on_conn_def
        upd_conn_def conn_at_def nth_list_update engine_fields_def)
qed

section \<open>Reachable states\<close>

lemma pop_empty:
  assumes "holds cfg x {#}" "j < g_num_reactors cfg"
  shows "\<exists>x'. itc_pop (int j) x = Inr (None, x') \<and> holds cfg x' {#}"
  using ib.pop_law [OF assms] by (auto split: option.splits)

lemma quiet_drain:
  assumes "itc_pop (r_id r) x = Inr (None, x')" "aof_active (r_engine r) = []" "n \<le> 64"
  shows "drain_one (roomy n) now junk (r, x, 0) = Inr (False, r, x', 0)"
    "finish_drain (roomy n) (r, x', 0) = Inr (ring_submit r, x')"
proof -
  show "drain_one (roomy n) now junk (r, x, 0) = Inr (False, r, x', 0)" using assms(1) by (simp add: drain_one_def)
  have "flush_aof (roomy n) r = r" using assms(2) by (simp add: flush_aof_def Let_def split: option.split)
  then show "finish_drain (roomy n) (r, x', 0) = Inr (ring_submit r, x')"
    using assms(3) by (simp add: finish_drain_def signal_none)
qed

text \<open>The first reactor waits for its first completion.\<close>

lemma run_waiting:
  assumes n: "0 < n" "n \<le> 64"
  shows "\<exists>s r. reachable (roomy n) eventfds s \<and> length (nodes s) = n \<and>
    nodes s ! 0 = Some \<lparr>node_reactor = r, node_phase = Waiting, event_read = False\<rparr> \<and>
    in_kernel r = [\<lparr>sqe_op = Accept_op 4, sqe_data = 0\<rparr>, \<lparr>sqe_op = Read_event (event_fds (bus s) ! 0), sqe_data = 1\<rparr>] \<and>
    fd_to_conn r = Map.empty \<and> free_indices (r_pool r) = [3..<MAX_CONN_PER_THREAD] \<and> conn_type (conn_at 0 r) = ACCEPT"
proof -
  let ?cfg = "roomy n"
  let ?s0 = "cluster_start ?cfg eventfds"
  note cfg = config_ok_roomy [OF n]
  have "0 < length (event_fds (bus ?s0))" using n by (simp add: cluster_start_def itc_init_def)
  from start_roomy [OF n(1) this, of 4 "\<lambda>_. 0" 3] obtain r where
    r: "start_reactor ?cfg (int 0) (\<lambda>_. 0) None 3 4 (bus ?s0) = Inr (Some r)" "in_kernel r = []" "fd_to_conn r = Map.empty"
      "free_indices (r_pool r) = [3..<MAX_CONN_PER_THREAD]" "aof_active (r_engine r) = []" "conn_type (conn_at 0 r) = ACCEPT"
      "sq r = [\<lparr>sqe_op = Accept_op 4, sqe_data = 0\<rparr>, \<lparr>sqe_op = Read_event (event_fds (bus ?s0) ! 0), sqe_data = 1\<rparr>]"
    by auto
  let ?s1 = "set_node 0 r (Draining 0) False (bus ?s0) ?s0"
  have "cluster_step ?cfg ?s0 ?s1"
    by (rule cluster_step.start [OF _ _ r(1)]) (use n in \<open>simp_all add: cluster_start_def\<close>)
  then have r1: "reachable ?cfg eventfds ?s1" by (rule one_step [OF begin_run])
  have n1: "nodes ?s1 ! 0 = Some \<lparr>node_reactor = r, node_phase = Draining 0, event_read = False\<rparr>"
    using n by (simp add: cluster_start_def)
  have rid: "r_id r = 0" using start_reactor_ok [OF r(1)] n cfg by (simp add: config_ok_def)
  from pop_empty [OF cluster_start_holds [OF cfg], of 0] n obtain x where
    x: "itc_pop (int 0) (bus ?s0) = Inr (None, x)" by auto
  note q = quiet_drain [of r "bus ?s0" x n, OF _ r(5) n(2)]
  let ?s2 = "set_node 0 (ring_submit r) Waiting False x ?s1"
  have "cluster_step ?cfg ?s1 (set_node 0 (ring_submit r) Waiting
      (event_read \<lparr>node_reactor = r, node_phase = Draining 0, event_read = False\<rparr>) x ?s1)"
    by (rule cluster_step.drain_end [OF _ n1]) (use n x rid q in simp_all)
  then have "reachable ?cfg eventfds ?s2" using one_step [OF r1] by simp
  moreover have "event_fds x = event_fds (bus ?s0)" using pop_bus [OF x] by simp
  moreover have "conn_at 0 (ring_submit r) = conn_at 0 r" by (simp add: conn_at_def ring_submit_def)
  ultimately show ?thesis
    using r n by (intro exI [of _ ?s2] exI [of _ "ring_submit r"]) (simp add: ring_submit_def cluster_start_def)
qed

text \<open>A client of descriptor 12 connects to it.\<close>

lemma run_client:
  assumes n: "0 < n" "n \<le> 64"
  shows "\<exists>s r i. reachable (roomy n) eventfds s \<and>
    nodes s ! 0 = Some \<lparr>node_reactor = r, node_phase = Draining 0, event_read = False\<rparr> \<and> fd_to_conn r 12 = Some i"
proof -
  from run_waiting [OF n, of eventfds] obtain s r where s: "reachable (roomy n) eventfds s" "length (nodes s) = n"
    "nodes s ! 0 = Some \<lparr>node_reactor = r, node_phase = Waiting, event_read = False\<rparr>"
    "in_kernel r = [\<lparr>sqe_op = Accept_op 4, sqe_data = 0\<rparr>, \<lparr>sqe_op = Read_event (event_fds (bus s) ! 0), sqe_data = 1\<rparr>]"
    "fd_to_conn r = Map.empty" "free_indices (r_pool r) = [3..<MAX_CONN_PER_THREAD]" "conn_type (conn_at 0 r) = ACCEPT"
    by blast
  let ?op = "\<lparr>sqe_op = Accept_op 4, sqe_data = 0\<rparr>"
  let ?r = "take_completion ?op r"
  have "free_indices (r_pool ?r) = 3 # [4..<MAX_CONN_PER_THREAD]"
    using s(6) by (simp add: MAX_CONN_PER_THREAD_def upt_rec [of 3])
  then obtain p where p: "acquire (r_pool ?r) = (Some 3, p)" by (simp add: acquire_def)
  have "\<exists>r'. complete_accept (roomy n) 12 ?r = Inr r' \<and> fd_to_conn r' 12 = Some 3"
    using p by (auto simp: complete_accept_def submit_accept_def split: prod.split option.split)
  then obtain r' where r': "complete_accept (roomy n) 12 ?r = Inr r'" "fd_to_conn r' 12 = Some 3" by blast
  have "handle_completion (roomy n) (\<lambda>_. 0) (\<lambda>_. blank_message) 0 12 [] (?r, bus s) = Inr (r', bus s)"
    using s(7) r'(1) by (simp add: handle_completion_def Let_def)
  then have "cluster_step (roomy n) s (set_node 0 r' (Draining 0) (event_read \<lparr>node_reactor = r, node_phase = Waiting, event_read = False\<rparr> \<and>
      \<not> is_event (sqe_op ?op)) (bus s) s)"
    by (intro cluster_step.completion [OF _ s(3)]) (use n s in \<open>simp_all add: kernel_result_def is_event_def\<close>)
  then have "reachable (roomy n) eventfds (set_node 0 r' (Draining 0) False (bus s) s)"
    using one_step [OF s(1)] by simp
  with r'(2) n s(2) show ?thesis by (intro exI [of _ "set_node 0 r' (Draining 0) False (bus s) s"]) simp
qed

end
