(* ===== verification/Two_Reactors.thy ===== *)
theory Two_Reactors
  imports Runs
begin

text \<open>
  A run of two reactors in which the first message crosses: a client of the one reactor sends a
  SET of a key of the other; its owner runs it and pushes the response while the reactor of the client
  waits.
\<close>

section \<open>The inboxes when the allocator does not fail\<close>

definition bus_ready :: "nat \<Rightarrow> itc_context \<Rightarrow> (nat \<Rightarrow> thread_id \<Rightarrow> itc_message list) \<Rightarrow> bool" where
  "bus_ready n x c \<longleftrightarrow> itc_repr (threads (roomy n)) x c \<and> length (inboxes x) = n \<and> (\<forall>j < n. indexed (inboxes x ! j))"

lemma bus_ready_start:
  assumes "0 < n" "n \<le> 64"
  shows "bus_ready n (bus (cluster_start (roomy n) eventfds)) (\<lambda>_ _. [])"
proof -
  have "card (threads (roomy n)) \<le> n" unfolding threads_def by (rule order_trans [OF card_image_le]) simp_all
  then have "card (threads (roomy n)) < 2 ^ 59" using assms(2) by simp
  moreover have "\<forall>i \<in> threads (roomy n). 1 < i"
    using config_ok_roomy [OF assms] by (auto simp: config_ok_def threads_def)
  ultimately have "itc_repr (threads (roomy n)) (itc_init (inbox_malloc (roomy n)) eventfds n) (\<lambda>_ _. [])"
    by (intro itc_repr_init) simp_all
  then show ?thesis by (simp add: bus_ready_def cluster_start_def itc_init_def new_queue_indexed)
qed

lemma bus_ready_lengths:
  "bus_ready n x c \<Longrightarrow> length (event_fds x) = n \<and> length (event_counters x) = n"
  by (simp add: bus_ready_def itc_repr_def)

lemma roomy_thread: "j < n \<Longrightarrow> thread_of (roomy n) (int j) \<in> threads (roomy n)"
  using thread_in [of j "roomy n"] by simp

lemma push_roomy:
  assumes x: "bus_ready n x c" and n: "n \<le> 64" "j < n" "t < n" and len: "length (c t (thread_of (roomy n) (int j))) + 32 < 2 ^ 63"
  shows "\<exists>x'. push_and_mark (roomy n) (int j) (int t) msg (x, marks) = Inr (x', marks OR push_bit t 1) \<and>
    bus_ready n x' (c(t := (c t)(thread_of (roomy n) (int j) := c t (thread_of (roomy n) (int j)) @ [msg]))) \<and>
    event_fds x' = event_fds x"
proof -
  let ?i = "thread_of (roomy n) (int j)" and ?T = "threads (roomy n)"
  have q: "queue_repr ?T (inboxes x ! t) (c t)" "indexed (inboxes x ! t)" and l: "length (inboxes x) = n"
    using x n by (simp_all add: bus_ready_def itc_repr_def)
  from enqueue_accepts [OF q(1) roomy_thread [OF n(2)] q(2) len, of msg] obtain q' where
    q': "enqueue (\<lambda>_. True) ?i msg (inboxes x ! t) = Some (True, q')" "indexed q'"
      "queue_repr ?T q' ((c t)(?i := c t ?i @ [msg]))" by blast
  let ?x = "x\<lparr>inboxes := (inboxes x)[t := q']\<rparr>"
  have "itc_push (inbox_malloc (roomy n)) ?i (int t) msg x = Inr (True, ?x)"
    using q'(1) l n by (simp add: itc_push_def)
  moreover have "shift_1ULL (int t) = Inr (push_bit t 1)" using n by (simp add: shift_1ULL_def)
  moreover have "bus_ready n ?x (c(t := (c t)(?i := c t ?i @ [msg])))"
    using x q'(2,3) n l by (auto simp: bus_ready_def itc_repr_def nth_list_update)
  ultimately show ?thesis by (simp add: push_and_mark_def)
qed

lemma pop_roomy:
  assumes x: "bus_ready n x c" and j: "j < n"
  shows "\<exists>m x'. itc_pop (int j) x = Inr (m, x') \<and> event_fds x' = event_fds x \<and>
    (case m of None \<Rightarrow> (\<forall>i. c j i = []) \<and> bus_ready n x' c
     | Some m \<Rightarrow> \<exists>i ms. c j i = m # ms \<and> bus_ready n x' (c(j := (c j)(i := ms))))"
proof -
  have r: "itc_repr (threads (roomy n)) x c" "j < length (inboxes x)" using x j by (simp_all add: bus_ready_def)
  from itc_pop_ok [OF r] obtain m x' where p: "itc_pop (int j) x = Inr (m, x')" "length (inboxes x') = length (inboxes x)"
    and m: "case m of None \<Rightarrow> (\<forall>i. c j i = []) \<and> itc_repr (threads (roomy n)) x' c
     | Some m \<Rightarrow> \<exists>i \<in> threads (roomy n). \<exists>ms. c j i = m # ms \<and> itc_repr (threads (roomy n)) x' (c(j := (c j)(i := ms)))" by blast
  from p(1) obtain q' where d: "try_dequeue (inboxes x ! j) = Some (m, q')" and x': "x' = x\<lparr>inboxes := (inboxes x)[j := q']\<rparr>"
    using r(2) by (auto simp: itc_pop_def split: option.splits)
  have "indexed q'" by (rule try_dequeue_indexed [OF d]) (use x j in \<open>simp add: bus_ready_def\<close>)
  then have "\<forall>k < n. indexed (inboxes x' ! k)" using x r(2) by (auto simp: x' bus_ready_def nth_list_update)
  with m p x x' show ?thesis by (auto simp: bus_ready_def split: option.splits)
qed

lemma signal_roomy:
  assumes "bus_ready n x c" "\<forall>j \<in> set js. j < n" "n \<le> 64"
  shows "\<exists>x'. signal_marked marks js x = Inr x' \<and> bus_ready n x' c \<and> event_fds x' = event_fds x"
  using assms
proof (induction js arbitrary: x)
  case (Cons j js)
  have s: "shift_1ULL (int j) = Inr (push_bit j 1)" using Cons.prems by (simp add: shift_1ULL_def)
  have l: "length (inboxes x) = n" "itc_repr (threads (roomy n)) x c" using Cons.prems(1) by (simp_all add: bus_ready_def)
  show ?case
  proof (cases "marks AND push_bit j 1 = 0")
    case True
    with Cons s show ?thesis by simp
  next
    case False
    have "j < length (inboxes x)" using Cons.prems(2) l by simp
    from itc_signal_ok [OF l(2) this] obtain b x1 where x1: "itc_signal (int j) x = Inr (b, x1)" "inboxes x1 = inboxes x"
      "itc_repr (threads (roomy n)) x1 c" by blast
    then have "bus_ready n x1 c" "event_fds x1 = event_fds x"
      using Cons.prems(1) itc_signal_signals [OF x1(1)] by (simp_all add: bus_ready_def signalled_def)
    with Cons.IH [of x1] Cons.prems x1(1) s False show ?thesis by auto
  qed
qed simp

section \<open>Steps\<close>

lemma running_inv:
  assumes "reachable (roomy n) fds s" "0 < n" "n \<le> 64" "j < n" "nodes s ! j = Some nd"
  shows "r_id (node_reactor nd) = int j" "engine_ok (roomy n) j (r_engine (node_reactor nd))" "length (nodes s) = n"
    "local_inv (node_reactor nd) {}"
  using reachable_inv [OF assms(1) config_ok_roomy [OF assms(2,3)]] assms(4,5)
  by (fastforce simp: cluster_inv_def slot_inv_def node_inv_def)+

lemma start_step:
  assumes s: "reachable (roomy n) fds s" and n: "0 < n" "n \<le> 64" "j < n" "nodes s ! j = None" and x: "bus_ready n (bus s) c"
  shows "\<exists>r. reachable (roomy n) fds (set_node j r (Draining 0) False (bus s) s) \<and> in_kernel r = [] \<and>
    fd_to_conn r = Map.empty \<and> free_indices (r_pool r) = [3..<MAX_CONN_PER_THREAD] \<and>
    sq r = [\<lparr>sqe_op = Accept_op 4, sqe_data = 0\<rparr>, \<lparr>sqe_op = Read_event (event_fds (bus s) ! j), sqe_data = 1\<rparr>] \<and>
    aof_active (r_engine r) = [] \<and> conn_type (conn_at 0 r) = ACCEPT"
proof -
  have "j < length (event_fds (bus s))" using bus_ready_lengths [OF x] n by simp
  from start_roomy [OF n(3) this, of 4 "\<lambda>_. 0" 3] obtain r where
    r: "start_reactor (roomy n) (int j) (\<lambda>_. 0) None 3 4 (bus s) = Inr (Some r)" "in_kernel r = []" "fd_to_conn r = Map.empty"
      "free_indices (r_pool r) = [3..<MAX_CONN_PER_THREAD]" "aof_active (r_engine r) = []" "conn_type (conn_at 0 r) = ACCEPT"
      "sq r = [\<lparr>sqe_op = Accept_op 4, sqe_data = 0\<rparr>, \<lparr>sqe_op = Read_event (event_fds (bus s) ! j), sqe_data = 1\<rparr>]"
    by auto
  have "cluster_step (roomy n) s (set_node j r (Draining 0) False (bus s) s)"
    by (rule cluster_step.start [OF _ n(4) r(1)]) (use n in simp)
  from one_step [OF s this] r show ?thesis by blast
qed

lemma end_step:
  assumes s: "reachable (roomy n) fds s" and n: "0 < n" "n \<le> 64" "j < n"
    and nd: "nodes s ! j = Some \<lparr>node_reactor = r, node_phase = Draining 0, event_read = ev\<rparr>"
    and x: "bus_ready n (bus s) c" "\<forall>i. c j i = []" and a: "aof_active (r_engine r) = []"
  shows "\<exists>x. reachable (roomy n) fds (set_node j (ring_submit r) Waiting ev x s) \<and> bus_ready n x c \<and> event_fds x = event_fds (bus s)"
proof -
  have rid: "r_id r = int j" using running_inv(1) [OF s n nd] by simp
  from pop_roomy [OF x(1) n(3)] obtain m x1 where p: "itc_pop (int j) (bus s) = Inr (m, x1)" "event_fds x1 = event_fds (bus s)" and
    m: "case m of None \<Rightarrow> (\<forall>i. c j i = []) \<and> bus_ready n x1 c
      | Some m \<Rightarrow> \<exists>i ms. c j i = m # ms \<and> bus_ready n x1 (c(j := (c j)(i := ms)))" by blast
  then have e: "m = None" "bus_ready n x1 c" using x(2) by (auto split: option.splits)
  note q = quiet_drain [of r "bus s" x1 n, OF _ a n(2)]
  have "cluster_step (roomy n) s (set_node j (ring_submit r) Waiting
      (event_read \<lparr>node_reactor = r, node_phase = Draining 0, event_read = ev\<rparr>) x1 s)"
    by (rule cluster_step.drain_end [OF _ nd]) (use n p e rid q in simp_all)
  from one_step [OF s this] e(2) p(2) show ?thesis by auto
qed

text \<open>The client of descriptor 12 gets connection 3 and its read is prepared.\<close>

lemma accept_step:
  assumes s: "reachable (roomy n) fds s" and n: "0 < n" "n \<le> 64" "j < n"
    and nd: "nodes s ! j = Some \<lparr>node_reactor = r, node_phase = Waiting, event_read = False\<rparr>"
    and r: "\<lparr>sqe_op = Accept_op 4, sqe_data = 0\<rparr> \<in> set (in_kernel r)" "fd_to_conn r = Map.empty"
      "free_indices (r_pool r) = [3..<MAX_CONN_PER_THREAD]" "conn_type (conn_at 0 r) = ACCEPT"
  shows "\<exists>r'. reachable (roomy n) fds (set_node j r' (Draining 0) False (bus s) s) \<and> fd_to_conn r' 12 = Some 3 \<and>
    r_engine r' = r_engine r \<and> \<lparr>sqe_op = Read_conn 12, sqe_data = 3\<rparr> \<in> set (sq r')"
proof -
  let ?op = "\<lparr>sqe_op = Accept_op 4, sqe_data = 0\<rparr>"
  let ?r = "take_completion ?op r"
  have "free_indices (r_pool ?r) = 3 # [4..<MAX_CONN_PER_THREAD]"
    using r(3) by (simp add: MAX_CONN_PER_THREAD_def upt_rec [of 3])
  then obtain p where p: "acquire (r_pool ?r) = (Some 3, p)" by (simp add: acquire_def)
  have "\<exists>r'. complete_accept (roomy n) 12 ?r = Inr r' \<and> fd_to_conn r' 12 = Some 3 \<and>
      r_engine r' = r_engine r \<and> \<lparr>sqe_op = Read_conn 12, sqe_data = 3\<rparr> \<in> set (sq r')"
    using p by (auto simp: complete_accept_def submit_accept_def split: prod.split option.split)
  then obtain r' where r': "complete_accept (roomy n) 12 ?r = Inr r'" "fd_to_conn r' 12 = Some 3"
    "r_engine r' = r_engine r" "\<lparr>sqe_op = Read_conn 12, sqe_data = 3\<rparr> \<in> set (sq r')" by blast
  have "handle_completion (roomy n) (\<lambda>_. 0) (\<lambda>_. blank_message) 0 12 [] (?r, bus s) = Inr (r', bus s)"
    using r(4) r'(1) by (simp add: handle_completion_def Let_def)
  then have "cluster_step (roomy n) s (set_node j r' (Draining 0) (event_read \<lparr>node_reactor = r, node_phase = Waiting, event_read = False\<rparr> \<and>
      \<not> is_event (sqe_op ?op)) (bus s) s)"
    by (intro cluster_step.completion [OF _ nd]) (use n r in \<open>simp_all add: kernel_result_def is_event_def\<close>)
  with one_step [OF s] r' show ?thesis by auto
qed

text \<open>The client's SET of a key of reactor \<open>t\<close>.\<close>

lemma own_ok: "engine_ok (roomy n) j e \<Longrightarrow> own e k = owner_of 512 (int n) k"
  by (simp add: engine_ok_def own_def)

lemma set_step:
  assumes s: "reachable (roomy n) fds s" and n: "0 < n" "n \<le> 64" "j < n" "t < n" "t \<noteq> j"
    and nd: "nodes s ! j = Some \<lparr>node_reactor = r, node_phase = Waiting, event_read = False\<rparr>"
    and op: "\<lparr>sqe_op = Read_conn 12, sqe_data = 3\<rparr> \<in> set (in_kernel r)"
    and k: "owner_of 512 (int n) k = int t" "line_free k" "k \<noteq> []" and x: "bus_ready n (bus s) (\<lambda>_ _. [])"
  shows "\<exists>r' x' i. reachable (roomy n) fds (set_node j r' (Draining 0) False x' s) \<and> event_fds x' = event_fds (bus s) \<and>
    aof_active (r_engine r') = aof_active (r_engine r) \<and>
    bus_ready n x' ((\<lambda>_ _. [])(t := (\<lambda>_. [])(i := [request_for blank_message (int j) 12 0 (set_command k [CHR ''v''])])))"
proof -
  let ?op = "\<lparr>sqe_op = Read_conn 12, sqe_data = 3\<rparr>"
  let ?r = "take_completion ?op r" and ?bs = "encode_request [''SET'', k, ''v'']"
  note inv = running_inv [OF s n(1-3) nd, unfolded node.simps]
  have m: "op_matches r ?op" using inv(4) op by (simp add: local_inv_def ops_def)
  then have c: "conn_type (conn_at 3 r) = READ" "fd_to_conn r 12 = Some 3" "3 \<in> held (r_pool r)" by (simp_all add: op_matches_def Let_def)
  have d: "fd (conn_at 3 r) = 12" using client [OF inv(4) c(2)] by (simp add: client_ok_def Let_def)
  have less: "3 < length (conns (r_pool ?r))" using held_less [OF inv(4) c(3)] by simp
  have p: "parse_all ?bs = [set_command k ''v'']"
    using parse_all_pipeline [of "[[''SET'', k, ''v'']]" "[]"] k(2) by (simp add: line_free_def set_command_def)
  have o: "own (r_engine ?r) k = int t" using own_ok [OF inv(2)] k(1) by simp
  let ?msg = "request_for blank_message (int j) 12 0 (set_command k ''v'')"
  have fw: "forwarded (own (r_engine ?r)) (\<lambda>_. blank_message) (r_id ?r) (fd (conn_at 3 ?r)) 0 (parse_all ?bs) = [(int t, ?msg)]"
    unfolding p using o inv(1) n(5) d by simp
  have wf: "engine_wf (r_engine ?r)" "r_id ?r = reactor_id (r_engine ?r)" using inv(1,2) by (simp_all add: engine_ok_def)
  have keyed: "\<forall>c \<in> set (parse_all ?bs). (is_set c \<or> is_get c) \<and> key_of c = [] \<longrightarrow> owns (r_engine ?r) []"
    unfolding p using k(3) by simp
  from read_forwarded [OF wf less keyed, where junk = "\<lambda>_. blank_message" and clock = "\<lambda>_. 0" and cfg = "roomy n" and x = "bus s"] fw
  obtain r' where r': "complete_read (roomy n) (\<lambda>_. 0) (\<lambda>_. blank_message) 3 ?bs (?r, bus s) =
      ub_bind (push_all (roomy n) (r_id ?r) [(int t, ?msg)] (bus s, 0))
        (\<lambda>(x, marks). ub_map (\<lambda>x. (r', x)) (signal_marked marks [0..<n] x))"
    and log: "aof_active (r_engine r') = aof_active (r_engine r)"
    using o inv(1) n(5) wf by (auto simp: p logged_def aof_image_def owns_own)
  let ?i = "thread_of (roomy n) (int j)"
  from push_roomy [OF x n(2-4), of ?msg 0] obtain x1 where x1: "push_and_mark (roomy n) (int j) (int t) ?msg (bus s, 0) = Inr (x1, push_bit t 1)"
    "bus_ready n x1 ((\<lambda>_ _. [])(t := (\<lambda>_. [])(?i := [?msg])))" "event_fds x1 = event_fds (bus s)" by auto
  from signal_roomy [OF x1(2) _ n(2), of "[0..<n]" "push_bit t 1"] obtain x2 where x2: "signal_marked (push_bit t 1) [0..<n] x1 = Inr x2"
    "bus_ready n x2 ((\<lambda>_ _. [])(t := (\<lambda>_. [])(?i := [?msg])))" "event_fds x2 = event_fds x1" by auto
  have "complete_read (roomy n) (\<lambda>_. 0) (\<lambda>_. blank_message) 3 ?bs (?r, bus s) = Inr (r', x2)"
    unfolding r' using x1(1) x2(1) inv(1) by simp
  moreover have "?bs \<noteq> []" by (simp add: encode_request_def)
  ultimately have "handle_completion (roomy n) (\<lambda>_. 0) (\<lambda>_. blank_message) 3 (int (length ?bs)) ?bs (?r, bus s) = Inr (r', x2)"
    using c(1) by (simp add: handle_completion_def Let_def)
  then have "cluster_step (roomy n) s (set_node j r' (Draining 0) (event_read \<lparr>node_reactor = r, node_phase = Waiting, event_read = False\<rparr> \<and>
      \<not> is_event (sqe_op ?op)) x2 s)"
    by (intro cluster_step.completion [OF _ nd]) (use n op in \<open>simp_all add: kernel_result_def is_event_def\<close>)
  then have "cluster_step (roomy n) s (set_node j r' (Draining 0) False x2 s)" by simp
  from one_step [OF s this] x1(3) x2(2,3) log show ?thesis by auto
qed

text \<open>The owner takes the request from its inbox.\<close>

lemma owner_step:
  assumes s: "reachable (roomy n) fds s" and n: "0 < n" "n \<le> 64" "j < n" "t < n" "t \<noteq> j"
    and nd: "nodes s ! t = Some \<lparr>node_reactor = r, node_phase = Draining 0, event_read = ev\<rparr>"
    and k: "owner_of 512 (int n) k = int t" "length k \<le> 127"
    and x: "bus_ready n (bus s) ((\<lambda>_ _. [])(t := (\<lambda>_. [])(i := [request_for blank_message (int j) 12 0 (set_command k [CHR ''v''])])))"
  shows "\<exists>r' x' m x2. reachable (roomy n) fds (set_node t r' (Draining (push_bit j 1)) ev x' s) \<and> event_fds x' = event_fds (bus s) \<and>
    kv (r_engine r') k \<noteq> None \<and> itc_pop (int j) x' = Inr (Some m, x2) \<and> itc_type m = RESP"
proof -
  let ?msg = "request_for blank_message (int j) 12 0 (set_command k ''v'')"
  note inv = running_inv [OF s n(1,2,4) nd, unfolded node.simps]
  from pop_roomy [OF x n(4), unfolded fun_upd_same] obtain m x1 where p: "itc_pop (int t) (bus s) = Inr (m, x1)" "event_fds x1 = event_fds (bus s)" and
    m: "case m of None \<Rightarrow> (\<forall>l. ((\<lambda>_. [])(i := [?msg])) l = []) \<and> bus_ready n x1 ((\<lambda>_ _. [])(t := (\<lambda>_. [])(i := [?msg])))
      | Some m \<Rightarrow> \<exists>l ms. ((\<lambda>_. [])(i := [?msg])) l = m # ms \<and>
          bus_ready n x1 (((\<lambda>_ _. [])(t := (\<lambda>_. [])(i := [?msg])))(t := ((\<lambda>_. [])(i := [?msg]))(l := ms)))" by blast
  have "m \<noteq> None"
  proof
    assume "m = None"
    with m have "((\<lambda>_. [])(i := [?msg])) i = []" by (simp only: option.case)
    then show False by simp
  qed
  with m have m1: "m = Some ?msg" "bus_ready n x1 (\<lambda>_ _. [])"
    by (auto split: option.splits if_splits simp: fun_upd_idem)
  have e: "engine_wf (r_engine r)" "owns (r_engine r) k" using inv(2) k(1) by (auto simp: engine_ok_def owns_def)
  define resp where "resp = reply_message blank_message (r_id r) ?msg True"
  from remote_set_run(1) [where r = r and c = "set_command k ''v''" and junk = blank_message and cfg = "roomy n" and now = 0
      and junk' = blank_message and rid = "int j" and d = 12 and n = 0 and x = x1 and marks = 0] e k(2)
  obtain e' where e': "process_message (roomy n) 0 blank_message ?msg (r, x1, 0) =
      ub_map (\<lambda>xm. (r\<lparr>r_engine := e'\<rparr>, xm)) (push_and_mark (roomy n) (int t) (int j) resp (x1, 0))"
    "stepped (r_engine r) e' (snd (serve_one (\<lambda>_. True) 0 (set_command k ''v'') (kv (r_engine r)))) [(k, ''v'')]"
    using inv(1) by (auto simp: resp_def)
  let ?c = "(\<lambda>_ _. [])(j := (\<lambda>_. [])(thread_of (roomy n) (int t) := [resp]))"
  from push_roomy [OF m1(2) n(2,4,3), of resp 0] obtain x2 where
    x2: "push_and_mark (roomy n) (int t) (int j) resp (x1, 0) = Inr (x2, push_bit j 1)" "bus_ready n x2 ?c" "event_fds x2 = event_fds x1"
    by auto
  have "drain_one (roomy n) 0 blank_message (r, bus s, 0) = Inr (True, r\<lparr>r_engine := e'\<rparr>, x2, push_bit j 1)"
    using p(1) m1(1) e'(1) x2(1) inv(1) by (simp add: drain_one_def)
  then have "cluster_step (roomy n) s (set_node t (r\<lparr>r_engine := e'\<rparr>) (Draining (push_bit j 1))
      (event_read \<lparr>node_reactor = r, node_phase = Draining 0, event_read = ev\<rparr>) x2 s)"
    by (intro cluster_step.drain_message [OF _ nd, where marks = 0 and junk = blank_message]) (use n in simp_all)
  then have r: "reachable (roomy n) fds (set_node t (r\<lparr>r_engine := e'\<rparr>) (Draining (push_bit j 1)) ev x2 s)"
    using one_step [OF s] by simp
  have kv: "kv e' k \<noteq> None" using e'(2) by (simp add: stepped_def serve_one_def Let_def)
  from pop_roomy [OF x2(2) n(3)] obtain m2 x3 where q: "itc_pop (int j) x2 = Inr (m2, x3)" and
    m2: "case m2 of None \<Rightarrow> (\<forall>l. ?c j l = []) \<and> bus_ready n x3 ?c
      | Some m \<Rightarrow> \<exists>l ms. ?c j l = m # ms \<and> bus_ready n x3 (?c(j := (?c j)(l := ms)))" by blast
  have "m2 \<noteq> None"
  proof
    assume "m2 = None"
    with m2 have "?c j (thread_of (roomy n) (int t)) = []" by (simp only: option.case)
    then show False by simp
  qed
  with m2 have "m2 = Some resp" by (auto split: option.splits if_splits)
  moreover have "itc_type resp = RESP" by (simp add: resp_def reply_message_def)
  ultimately show ?thesis using r kv q x2(3) p(2)
    by (intro exI [of _ "r\<lparr>r_engine := e'\<rparr>"] exI [of _ x2] exI [of _ resp] exI [of _ x3]) simp
qed

section \<open>The run\<close>

text \<open>Two reactors \<open>j\<close> and \<open>t\<close> at work: \<open>j\<close> waits for completions, \<open>t\<close> drains its inbox.\<close>

definition at_work :: "int list \<Rightarrow> nat \<Rightarrow> nat \<Rightarrow> reactor \<Rightarrow> reactor \<Rightarrow> (nat \<Rightarrow> thread_id \<Rightarrow> itc_message list) \<Rightarrow> cluster \<Rightarrow> bool" where
  "at_work fds j t r rt c s \<longleftrightarrow>
     reachable (roomy 2) fds s \<and> length (nodes s) = 2 \<and> bus_ready 2 (bus s) c \<and>
     event_fds (bus s) = event_fds (bus (cluster_start (roomy 2) fds)) \<and> aof_active (r_engine r) = [] \<and>
     nodes s ! j = Some \<lparr>node_reactor = r, node_phase = Waiting, event_read = False\<rparr> \<and>
     nodes s ! t = Some \<lparr>node_reactor = rt, node_phase = Draining 0, event_read = False\<rparr>"

text \<open>A reactor that has handled a completion, has nothing to drain and nothing to log waits again.\<close>

lemma wait_again:
  assumes w: "at_work fds j t r rt c s" and jt: "j < 2" "t < 2" "t \<noteq> j"
    and r': "reachable (roomy 2) fds (set_node j r' (Draining 0) False x s)" "bus_ready 2 x c'" "\<forall>i. c' j i = []"
      "event_fds x = event_fds (bus s)" "aof_active (r_engine r') = []"
  shows "\<exists>s'. at_work fds j t (ring_submit r') rt c' s'"
proof -
  let ?s = "set_node j r' (Draining 0) False x s"
  have nd: "nodes ?s ! j = Some \<lparr>node_reactor = r', node_phase = Draining 0, event_read = False\<rparr>" "bus_ready 2 (bus ?s) c'"
    using w jt r'(2) by (simp_all add: at_work_def)
  from end_step [OF r'(1) _ _ jt(1) nd r'(3,5)] obtain x' where
    "reachable (roomy 2) fds (set_node j (ring_submit r') Waiting False x' ?s)" "bus_ready 2 x' c'" "event_fds x' = event_fds (bus ?s)"
    by auto
  with w jt r'(4,5) have "at_work fds j t (ring_submit r') rt c' (set_node j (ring_submit r') Waiting False x' ?s)"
    by (simp add: at_work_def ring_submit_def)
  then show ?thesis by blast
qed

lemma run_started:
  assumes jt: "j < 2" "t < 2" "t \<noteq> j"
  shows "\<exists>s r rt. at_work fds j t r rt (\<lambda>_ _. []) s \<and> \<lparr>sqe_op = Accept_op 4, sqe_data = 0\<rparr> \<in> set (in_kernel r) \<and>
    fd_to_conn r = Map.empty \<and> free_indices (r_pool r) = [3..<MAX_CONN_PER_THREAD] \<and> conn_type (conn_at 0 r) = ACCEPT"
proof -
  have two: "0 < (2 :: nat)" "(2 :: nat) \<le> 64" by simp_all
  let ?s0 = "cluster_start (roomy 2) fds"
  have s0: "reachable (roomy 2) fds ?s0" by (rule begin_run)
  have b0: "bus_ready 2 (bus ?s0) (\<lambda>_ _. [])" by (rule bus_ready_start) simp_all
  have l0: "length (nodes ?s0) = 2" "nodes ?s0 ! j = None" "nodes ?s0 ! t = None" using jt by (simp_all add: cluster_start_def)
  from start_step [OF s0 two jt(2) l0(3) b0] obtain rt where rt: "reachable (roomy 2) fds (set_node t rt (Draining 0) False (bus ?s0) ?s0)"
    by blast
  let ?s1 = "set_node t rt (Draining 0) False (bus ?s0) ?s0"
  have n1: "nodes ?s1 ! j = None" and b1: "bus_ready 2 (bus ?s1) (\<lambda>_ _. [])" using l0 jt b0 by simp_all
  from start_step [OF rt two jt(1) n1 b1] obtain r where r: "reachable (roomy 2) fds (set_node j r (Draining 0) False (bus ?s1) ?s1)"
    "fd_to_conn r = Map.empty" "free_indices (r_pool r) = [3..<MAX_CONN_PER_THREAD]" "aof_active (r_engine r) = []"
    "conn_type (conn_at 0 r) = ACCEPT" "\<lparr>sqe_op = Accept_op 4, sqe_data = 0\<rparr> \<in> set (sq r)" by auto
  let ?s2 = "set_node j r (Draining 0) False (bus ?s1) ?s1"
  have nd: "nodes ?s2 ! j = Some \<lparr>node_reactor = r, node_phase = Draining 0, event_read = False\<rparr>" and b2: "bus_ready 2 (bus ?s2) (\<lambda>_ _. [])"
    using l0 jt b0 by simp_all
  from end_step [OF r(1) two jt(1) nd b2 _ r(4)] obtain x where x: "reachable (roomy 2) fds (set_node j (ring_submit r) Waiting False x ?s2)"
    "bus_ready 2 x (\<lambda>_ _. [])" "event_fds x = event_fds (bus ?s2)" by auto
  have "at_work fds j t (ring_submit r) rt (\<lambda>_ _. []) (set_node j (ring_submit r) Waiting False x ?s2)"
    using x l0 jt r(4) by (simp add: at_work_def ring_submit_def)
  then show ?thesis using r(2,3,5,6)
    by (intro exI conjI) (assumption, simp_all add: ring_submit_def conn_at_def)
qed

text \<open>The request of the client of \<open>j\<close> is in the inbox of \<open>t\<close>, the owner of its key.\<close>

lemma run_request:
  assumes k: "line_free k" "k \<noteq> []" and jt: "j < 2" "t < 2" "t \<noteq> j" and o: "owner_of 512 (int 2) k = int t"
  shows "\<exists>s r rt i. at_work fds j t r rt
    ((\<lambda>_ _. [])(t := (\<lambda>_. [])(i := [request_for blank_message (int j) 12 0 (set_command k [CHR ''v''])]))) s"
proof -
  have two: "0 < (2 :: nat)" "(2 :: nat) \<le> 64" by simp_all
  from run_started [OF jt] obtain s r rt where w: "at_work fds j t r rt (\<lambda>_ _. []) s" and
    r: "\<lparr>sqe_op = Accept_op 4, sqe_data = 0\<rparr> \<in> set (in_kernel r)" "fd_to_conn r = Map.empty"
      "free_indices (r_pool r) = [3..<MAX_CONN_PER_THREAD]" "conn_type (conn_at 0 r) = ACCEPT" by blast
  have s: "reachable (roomy 2) fds s" "nodes s ! j = Some \<lparr>node_reactor = r, node_phase = Waiting, event_read = False\<rparr>"
    "bus_ready 2 (bus s) (\<lambda>_ _. [])" "aof_active (r_engine r) = []" using w by (simp_all add: at_work_def)
  from accept_step [OF s(1) two jt(1) s(2) r] obtain r1 where
    r1: "reachable (roomy 2) fds (set_node j r1 (Draining 0) False (bus s) s)" "r_engine r1 = r_engine r"
      "\<lparr>sqe_op = Read_conn 12, sqe_data = 3\<rparr> \<in> set (sq r1)" by blast
  from wait_again [OF w jt r1(1) s(3)] s(4) r1(2) obtain s' where w': "at_work fds j t (ring_submit r1) rt (\<lambda>_ _. []) s'" by auto
  then have s': "reachable (roomy 2) fds s'" "nodes s' ! j = Some \<lparr>node_reactor = ring_submit r1, node_phase = Waiting, event_read = False\<rparr>"
    "bus_ready 2 (bus s') (\<lambda>_ _. [])" by (simp_all add: at_work_def)
  have op: "\<lparr>sqe_op = Read_conn 12, sqe_data = 3\<rparr> \<in> set (in_kernel (ring_submit r1))" using r1(3) by (simp add: ring_submit_def)
  from set_step [OF s'(1) two jt s'(2) op o k s'(3)] obtain r2 x i where
    r2: "reachable (roomy 2) fds (set_node j r2 (Draining 0) False x s')" "event_fds x = event_fds (bus s')"
      "aof_active (r_engine r2) = aof_active (r_engine (ring_submit r1))"
      "bus_ready 2 x ((\<lambda>_ _. [])(t := (\<lambda>_. [])(i := [request_for blank_message (int j) 12 0 (set_command k ''v'')])))" by blast
  have "aof_active (r_engine r2) = []" using r2(3) r1(2) s(4) by (simp add: ring_submit_def)
  from wait_again [OF w' jt r2(1,4) _ r2(2) this] jt show ?thesis by auto
qed

lemma other_of_two:
  obtains j t where "j < 2" "t < 2" "t \<noteq> j" "owner_of 512 (int 2) k = int t"
proof -
  define t where "t = nat (owner_of 512 2 k)"
  have "0 \<le> owner_of 512 2 k" "owner_of 512 2 k < 2" using owner_bounds [of 512 2 k] by auto
  then have t: "owner_of 512 (int 2) k = int t" "t < 2" by (auto simp: t_def)
  show ?thesis by (rule that [OF _ t(2) _ t(1), of "1 - t"]) presburger+
qed

text \<open>The reactor of the client waits, with the response in its inbox; the owner has run the SET and
  still drains.\<close>

lemma run_response:
  assumes k: "line_free k" "k \<noteq> []" "length k \<le> 127" and fds: "\<forall>j < 2. (0 :: int) \<le> fds ! j"
  shows "\<exists>s j t nj nt m x'. reachable (roomy 2) fds s \<and> j < 2 \<and> t < 2 \<and> nodes s ! j = Some nj \<and> nodes s ! t = Some nt \<and>
    node_phase nj = Waiting \<and> 0 \<le> event_fds (bus s) ! j \<and> itc_pop (int j) (bus s) = Inr (Some m, x') \<and> itc_type m = RESP \<and>
    kv (r_engine (node_reactor nt)) k \<noteq> None"
proof -
  have two: "0 < (2 :: nat)" "(2 :: nat) \<le> 64" by simp_all
  obtain j t where jt: "j < 2" "t < 2" "t \<noteq> j" and o: "owner_of 512 (int 2) k = int t" by (rule other_of_two)
  from run_request [OF k(1,2) jt o] obtain s r rt i where w: "at_work fds j t r rt
    ((\<lambda>_ _. [])(t := (\<lambda>_. [])(i := [request_for blank_message (int j) 12 0 (set_command k ''v'')]))) s" by blast
  then have s: "reachable (roomy 2) fds s" "nodes s ! t = Some \<lparr>node_reactor = rt, node_phase = Draining 0, event_read = False\<rparr>"
    "bus_ready 2 (bus s) ((\<lambda>_ _. [])(t := (\<lambda>_. [])(i := [request_for blank_message (int j) 12 0 (set_command k ''v'')])))"
    "nodes s ! j = Some \<lparr>node_reactor = r, node_phase = Waiting, event_read = False\<rparr>" "length (nodes s) = 2"
    by (simp_all add: at_work_def)
  from owner_step [OF s(1) two jt s(2) o k(3) s(3)] obtain r' x m x' where
    r': "reachable (roomy 2) fds (set_node t r' (Draining (push_bit j 1)) False x s)" "event_fds x = event_fds (bus s)"
      "kv (r_engine r') k \<noteq> None" "itc_pop (int j) x = Inr (Some m, x')" "itc_type m = RESP" by blast
  have "0 \<le> event_fds x ! j" using r'(2) w fds jt by (simp add: at_work_def cluster_start_def itc_init_def)
  with r' s(4,5) jt show ?thesis
    by (intro exI [of _ "set_node t r' (Draining (push_bit j 1)) False x s"] exI [of _ j] exI [of _ t]) auto
qed

text \<open>The request is in the inbox of the owner of its key.\<close>

lemma run_forwarded:
  assumes k: "line_free k" "k \<noteq> []" "length k \<le> 127"
  shows "\<exists>s t nt m x'. reachable (roomy 2) fds s \<and> t < 2 \<and> nodes s ! t = Some nt \<and> itc_pop (int t) (bus s) = Inr (Some m, x') \<and>
    itc_type m = SET_REQ \<and> owner_of 512 2 k = int t \<and> get_key m = Inr k"
proof -
  obtain j t where jt: "j < 2" "t < 2" "t \<noteq> j" and o: "owner_of 512 (int 2) k = int t" by (rule other_of_two)
  from run_request [OF k(1,2) jt o] obtain s r rt i where w: "at_work fds j t r rt
    ((\<lambda>_ _. [])(t := (\<lambda>_. [])(i := [request_for blank_message (int j) 12 0 (set_command k ''v'')]))) s" by blast
  let ?msg = "request_for blank_message (int j) 12 0 (set_command k ''v'')"
  have b: "bus_ready 2 (bus s) ((\<lambda>_ _. [])(t := (\<lambda>_. [])(i := [?msg])))" using w by (simp add: at_work_def)
  from pop_roomy [OF b jt(2), unfolded fun_upd_same] obtain m x where p: "itc_pop (int t) (bus s) = Inr (m, x)"
    and m: "case m of None \<Rightarrow> \<forall>l. ((\<lambda>_. [])(i := [?msg])) l = []
      | Some m \<Rightarrow> \<exists>l ms. ((\<lambda>_. [])(i := [?msg])) l = m # ms" by (fastforce split: option.splits)
  then have "m = Some ?msg" by (auto split: option.splits if_splits)
  moreover have "get_key ?msg = Inr k" "itc_type ?msg = SET_REQ"
    using request_for_ok [OF blank_message_ok, of "set_command k ''v''"] k(3) by simp_all
  ultimately show ?thesis using w p jt o
    by (intro exI [of _ s] exI [of _ t]) (auto simp: at_work_def)
qed

end
