(* ===== verification/Aof_Stream.thy ===== *)
theory Aof_Stream
  imports Serve
begin

text \<open>
  The way of a logged SET to the file: into the active buffer, with it into the flush buffer,
  and from there by as many writes as the kernel needs. The file and the two buffers together are
  always the log, also when the ring has no room for the write.
\<close>

text \<open>What is still to be written, in order.\<close>

definition unwritten :: "engine \<Rightarrow> bytes" where
  "unwritten e = aof_flush e @ aof_active e"

fun writes :: "io_op \<Rightarrow> bytes option" where
  "writes (Write_aof d bs) = Some bs"
| "writes _ = None"

text \<open>What happens in a turn of the loop: SETs are logged, handlers prepare entries for clients, and in the
  end the log is flushed, the ring submitted and one completion taken, of the write with its
  result or of another operation.\<close>

datatype aof_event =
    Logged bytes bytes
  | Prepared "sqe list"
  | Other_done
  | Written int

text \<open>One event of a reactor and the file. A write appends what the kernel was given in the entry; its completion is
  ignored when none is in the kernel.\<close>

definition turn_end :: "config \<Rightarrow> reactor \<Rightarrow> reactor" where
  "turn_end cfg r = ring_submit (flush_aof cfg r)"

fun aof_apply :: "config \<Rightarrow> aof_event \<Rightarrow> reactor \<times> bytes \<Rightarrow> reactor \<times> bytes" where
  "aof_apply cfg (Logged k v) (r, f) = (r\<lparr>r_engine := append_aof_set k v (r_engine r)\<rparr>, f)"
| "aof_apply cfg (Prepared prepared) (r, f) = (r\<lparr>sq := sq r @ prepared\<rparr>, f)"
| "aof_apply cfg Other_done (r, f) = (turn_end cfg r, f)"
| "aof_apply cfg (Written res) (r, f) =
     (let r = turn_end cfg r in
      case [op \<leftarrow> in_kernel r. writes (sqe_op op) \<noteq> None] of
        [] \<Rightarrow> (r, f)
      | op # _ \<Rightarrow>
          (complete_aof cfg (sqe_data op) res (r\<lparr>in_kernel := remove1 op (in_kernel r)\<rparr>),
           f @ take (nat res) (the (writes (sqe_op op)))))"

fun log_of :: "aof_event list \<Rightarrow> (bytes \<times> bytes) list" where
  "log_of [] = []"
| "log_of (Logged k v # es) = (k, v) # log_of es"
| "log_of (_ # es) = log_of es"

text \<open>Entries of others are no writes, and no write fails.\<close>

fun event_ok :: "aof_event \<Rightarrow> bool" where
  "event_ok (Prepared prepared) \<longleftrightarrow> (\<forall>op \<in> set prepared. writes (sqe_op op) = None)"
| "event_ok (Written res) \<longleftrightarrow> 0 \<le> res"
| "event_ok _ \<longleftrightarrow> True"

text \<open>There is one write in the ring when one is in flight, of the flush buffer, and none otherwise.\<close>

definition stream_ok :: "nat \<Rightarrow> reactor \<Rightarrow> bool" where
  "stream_ok a r \<longleftrightarrow> aof_conn r = Some a \<and> 0 \<le> aof_fd (r_engine r) \<and>
     [op \<leftarrow> in_kernel r @ sq r. writes (sqe_op op) \<noteq> None] =
       (if aof_in_flight (r_engine r) then [\<lparr>sqe_op = Write_aof (aof_fd (r_engine r)) (aof_flush (r_engine r)), sqe_data = a\<rparr>] else []) \<and>
     (\<not> aof_in_flight (r_engine r) \<longrightarrow> aof_flush (r_engine r) = [])"

lemma turn_end_ok:
  assumes "stream_ok a r"
  shows "stream_ok a (turn_end cfg r) \<and> unwritten (r_engine (turn_end cfg r)) = unwritten (r_engine r) \<and> sq (turn_end cfg r) = []"
  using assms by (cases "aof_in_flight (r_engine r)"; cases "aof_active (r_engine r) = []")
    (auto simp: stream_ok_def unwritten_def turn_end_def flush_aof_def ring_submit_def Let_def)

lemma written_ok:
  assumes "stream_ok a r" "sq r = []" "sq_room cfg 0" "0 \<le> res" "aof_in_flight (r_engine r)"
    and "op = \<lparr>sqe_op = Write_aof (aof_fd (r_engine r)) (aof_flush (r_engine r)), sqe_data = a\<rparr>"
    and "r' = complete_aof cfg a res (r\<lparr>in_kernel := remove1 op (in_kernel r)\<rparr>)"
  shows "stream_ok a r' \<and> take (nat res) (aof_flush (r_engine r)) @ unwritten (r_engine r') = unwritten (r_engine r)"
proof -
  have "[op \<leftarrow> in_kernel r. writes (sqe_op op) \<noteq> None] = [op]" using assms(1,2,5,6) by (simp add: stream_ok_def)
  then have "[op' \<leftarrow> remove1 op (in_kernel r). writes (sqe_op op') \<noteq> None] = []" by (simp add: filter_remove1)
  moreover have "take n xs @ drop n xs @ ys = xs @ ys" for n and xs ys :: bytes by (metis append.assoc append_take_drop_id)
  ultimately show ?thesis using assms
    by (auto simp: stream_ok_def unwritten_def complete_aof_def Let_def not_less nat_le_iff)
qed

lemma aof_event_ok:
  assumes "stream_ok a r" "sq_room cfg 0" "event_ok ev" and "aof_apply cfg ev (r, f) = (r', f')"
  shows "stream_ok a r' \<and> f' @ unwritten (r_engine r') = f @ unwritten (r_engine r) @ aof_image (log_of [ev])"
proof (cases ev)
  case (Logged k v)
  with assms show ?thesis by (auto simp: stream_ok_def unwritten_def append_aof_set_record aof_image_def)
next
  case (Prepared prepared)
  with assms have "[op \<leftarrow> prepared. writes (sqe_op op) \<noteq> None] = []" by (auto simp: filter_empty_conv)
  with Prepared assms show ?thesis by (auto simp: stream_ok_def unwritten_def aof_image_def)
next
  case Other_done
  with assms turn_end_ok [OF assms(1), of cfg] show ?thesis by (auto simp: aof_image_def)
next
  case (Written res)
  let ?r = "turn_end cfg r"
  note t = turn_end_ok [OF assms(1), of cfg]
  let ?op = "\<lparr>sqe_op = Write_aof (aof_fd (r_engine ?r)) (aof_flush (r_engine ?r)), sqe_data = a\<rparr>"
  have k: "[op \<leftarrow> in_kernel ?r. writes (sqe_op op) \<noteq> None] = (if aof_in_flight (r_engine ?r) then [?op] else [])"
    using t by (auto simp: stream_ok_def)
  show ?thesis
  proof (cases "aof_in_flight (r_engine ?r)")
    case True
    then have "r' = complete_aof cfg a res (?r\<lparr>in_kernel := remove1 ?op (in_kernel ?r)\<rparr>)"
      "f' = f @ take (nat res) (aof_flush (r_engine ?r))" using assms(4) Written k by (auto simp: Let_def)
    with written_ok [OF _ _ assms(2) _ True refl this(1)] t assms(3) Written show ?thesis by (simp add: aof_image_def)
  next
    case False
    then have "r' = ?r" "f' = f" using assms(4) Written k by (auto simp: Let_def)
    with t Written show ?thesis by (simp add: aof_image_def)
  qed
qed

lemma log_of_Cons: "log_of (ev # es) = log_of [ev] @ log_of es"
  by (cases ev) simp_all

lemma aof_events_ok:
  assumes "stream_ok a r" "sq_room cfg 0" "\<forall>ev \<in> set evs. event_ok ev"
    and "foldl (\<lambda>s ev. aof_apply cfg ev s) (r, f) evs = (r', f')"
  shows "stream_ok a r' \<and> f' @ unwritten (r_engine r') = f @ unwritten (r_engine r) @ aof_image (log_of evs)"
  using assms(1,3,4)
proof (induction evs arbitrary: r f)
  case Nil
  then show ?case by (simp add: aof_image_def)
next
  case (Cons ev evs)
  obtain r1 f1 where 1: "aof_apply cfg ev (r, f) = (r1, f1)" by fastforce
  have ev: "event_ok ev" using Cons.prems(2) by simp
  note s = aof_event_ok [OF Cons.prems(1) assms(2) ev 1]
  from Cons.IH [of r1 f1] Cons.prems 1 s
  have i: "stream_ok a r'" "f' @ unwritten (r_engine r') = f1 @ unwritten (r_engine r1) @ aof_image (log_of evs)" by auto
  have "f1 @ unwritten (r_engine r1) @ aof_image (log_of evs) = (f1 @ unwritten (r_engine r1)) @ aof_image (log_of evs)" by simp
  also have "\<dots> = f @ unwritten (r_engine r) @ aof_image (log_of (ev # evs))"
    using s by (simp add: log_of_Cons [of ev evs] aof_image_append)
  finally show ?case using i by simp
qed

section \<open>Properties\<close>

text \<open>
  C36. While no write fails, the log is a stream: from an open log with nothing to write, after any sequence of
  logged SETs, entries prepared for clients, flushes with the submission of the ring, and completions, of writes
  that may be partial and of other operations, the file and the two buffers behind it hold exactly the records
  of the SETs, in order, with none lost, repeated or torn. The ring may be full when the log is flushed; it takes one
  entry when it is empty, which it always is when a completion is handled.
\<close>

theorem aof_is_a_stream:
  assumes "aof_conn r = Some a" "0 \<le> aof_fd (r_engine r)" "\<not> aof_in_flight (r_engine r)"
    and "aof_active (r_engine r) = []" "aof_flush (r_engine r) = []"
    and "\<forall>op \<in> set (in_kernel r @ sq r). writes (sqe_op op) = None"
    and "sq_room cfg 0" "\<forall>ev \<in> set evs. event_ok ev"
  shows "case foldl (\<lambda>s ev. aof_apply cfg ev s) (r, []) evs of (r', f) \<Rightarrow>
    f @ aof_flush (r_engine r') @ aof_active (r_engine r') = aof_image (log_of evs)"
proof -
  obtain r' f where run: "foldl (\<lambda>s ev. aof_apply cfg ev s) (r, []) evs = (r', f)" by fastforce
  have "[op \<leftarrow> in_kernel r @ sq r. writes (sqe_op op) \<noteq> None] = []" using assms(6) by (simp add: filter_empty_conv)
  then have "stream_ok a r" using assms(1-5) by (simp add: stream_ok_def)
  from aof_events_ok [OF this assms(7,8) run] assms(4,5) run show ?thesis by (simp add: unwritten_def)
qed

text \<open>A ring of one entry: the first flush finds it taken by a read and is skipped.\<close>

theorem aof_is_a_stream_witness:
  "case foldl (\<lambda>s ev. aof_apply ((roomy 1)\<lparr>sq_room := (\<lambda>n. n < 1)\<rparr>) ev s) ((reactor_of single_engine)\<lparr>aof_conn := Some 2\<rparr>, [])
       [Logged ''a'' ''1'', Prepared [\<lparr>sqe_op = Read_conn 9, sqe_data = 5\<rparr>], Other_done,
        Logged ''b'' ''2'', Written 5, Written 100, Other_done] of (r, f) \<Rightarrow>
     f @ aof_flush (r_engine r) @ aof_active (r_engine r) = set_record (''a'', ''1'') @ set_record (''b'', ''2'')"
proof -
  let ?evs = "[Logged ''a'' ''1'', Prepared [\<lparr>sqe_op = Read_conn 9, sqe_data = 5\<rparr>], Other_done,
        Logged ''b'' ''2'', Written 5, Written 100, Other_done]"
  have log: "set_record (''a'', ''1'') @ set_record (''b'', ''2'') = aof_image (log_of ?evs)" by (simp add: aof_image_def)
  have "\<not> aof_in_flight single_engine" "aof_flush single_engine = []" by (simp_all add: single_engine_def engine_fields_def)
  then show ?thesis unfolding log by (intro aof_is_a_stream) (simp_all add: reactor_of_def)
qed

text \<open>
  The loop over a read ends: it runs at most one command for every three bytes, and when it returns,
  it has run the commands the parser finds.
\<close>

theorem command_loop_ends:
  "3 * length (parse_all bs) \<le> length bs \<and>
   run_commands cfg clock junk i bs n s \<in> range Inl \<union> range (\<lambda>s'. Inr (n + length (parse_all bs), s'))"
proof (induction bs arbitrary: n s rule: length_induct)
  case (1 bs)
  show ?case
  proof (cases "well_headed bs")
    case False
    then have "parse_all bs = []" by (simp add: parse_all_step)
    moreover have "run_commands cfg clock junk i bs n s = Inr (n, s)"
      using False by (subst run_commands.simps) (simp add: Let_def)
    ultimately show ?thesis by simp
  next
    case True
    let ?rest = "drop (consumed (parse bs)) bs"
    have c: "3 \<le> consumed (parse bs)" "consumed (parse bs) \<le> length bs"
      using parse_consumed_pos [of bs] parse_consumed_bound [of bs] True by simp_all
    have cs: "parse_all bs = cmd (parse bs) # parse_all ?rest" using True by (subst parse_all_step) simp
    have less: "length ?rest < length bs" using c by simp
    note IH = "1.IH" [rule_format, OF less]
    have "run_commands cfg clock junk i bs n s =
        ub_bind (run_command cfg (clock n) (junk n) i n (cmd (parse bs)) s) (run_commands cfg clock junk i ?rest (n + 1))"
      using c True by (subst run_commands.simps) (auto simp: Let_def)
    moreover have "3 * length (parse_all ?rest) \<le> length bs - consumed (parse bs)" using IH [of n s] by simp
    ultimately show ?thesis
      using c IH [of "n + 1"] by (cases "run_command cfg (clock n) (junk n) i n (cmd (parse bs)) s") (auto simp: cs)
  qed
qed

end
