(* ===== verification/Program_Start.thy ===== *)
theory Program_Start
  imports Runs
begin

text \<open>
  \<open>src/main.cpp\<close> before the reactors run: \<open>create_shared_socket\<close>, the number of reactors and the
  cores \<open>main\<close> gives them, and the start of one reactor with the socket it creates. The
  operating system is the argument \<open>os\<close>, which says what each call returns; the calls made are
  part of the result, in their order. The lemmas show that a socket is either listening and
  the only descriptor left open, or closed again.
\<close>

section \<open>Calls of the operating system\<close>

datatype sock_opt = SO_REUSEADDR | SO_REUSEPORT

datatype sys_call =
    Socket_call
  | Setsockopt_call int sock_opt
  | Bind_call int int
  | Listen_call int nat
  | Close_call int

definition create_shared_socket :: "(sys_call \<Rightarrow> int) \<Rightarrow> sys_call list \<times> int" where
  "create_shared_socket os =
     (let calls = [Socket_call]; fd = os Socket_call in
      if fd = -1 then (calls, -1)
      else let calls = calls @ [Setsockopt_call fd SO_REUSEADDR] in
      if os (Setsockopt_call fd SO_REUSEADDR) < 0 then (calls @ [Close_call fd], -1)
      else let calls = calls @ [Setsockopt_call fd SO_REUSEPORT] in
      if os (Setsockopt_call fd SO_REUSEPORT) < 0 then (calls @ [Close_call fd], -1)
      else let calls = calls @ [Bind_call fd PORT] in
      if os (Bind_call fd PORT) < 0 then (calls @ [Close_call fd], -1)
      else let calls = calls @ [Listen_call fd 1024] in
      if os (Listen_call fd 1024) < 0 then (calls @ [Close_call fd], -1)
      else (calls, fd))"

text \<open>What \<open>run_reactor\<close> does before its loop, with the socket it creates.\<close>

definition run_reactor_start ::
  "config \<Rightarrow> (sys_call \<Rightarrow> int) \<Rightarrow> int \<Rightarrow> (nat \<Rightarrow> u64) \<Rightarrow> bytes option \<Rightarrow> int \<Rightarrow> itc_context \<Rightarrow>
     sys_call list \<times> (ub + reactor option)" where
  "run_reactor_start cfg os rid clock file opened x =
     (let (calls, sock) = create_shared_socket os in (calls, start_reactor cfg rid clock file opened sock x))"

section \<open>The number of reactors\<close>

text \<open>\<open>hardware_concurrency\<close> is an \<open>unsigned\<close> that \<open>main\<close> stores in an \<open>int\<close>.\<close>

definition reactors_for :: "u32 \<Rightarrow> int" where
  "reactors_for hardware_concurrency =
     (let logical_cores = sint hardware_concurrency; n = logical_cores sdiv 2 in if n = 0 then 1 else n)"

text \<open>The identifier and the core of each thread \<open>main\<close> creates.\<close>

definition main_threads :: "u32 \<Rightarrow> (int \<times> int) list" where
  "main_threads hardware_concurrency = map (\<lambda>i. (i, i * 2)) [0..reactors_for hardware_concurrency - 1]"

section \<open>Properties\<close>

text \<open>The descriptors that a sequence of calls leaves open.\<close>

fun left_open :: "(sys_call \<Rightarrow> int) \<Rightarrow> sys_call list \<Rightarrow> int set" where
  "left_open os [] = {}"
| "left_open os (c # cs) =
     (let later = left_open os cs in
      case c of
        Socket_call \<Rightarrow> if os c < 0 \<or> Close_call (os c) \<in> set cs then later else insert (os c) later
      | _ \<Rightarrow> later)"

text \<open>The calls that make a listening socket, each of which has to succeed.\<close>

definition listening_calls :: "int \<Rightarrow> sys_call list" where
  "listening_calls d =
     [Socket_call, Setsockopt_call d SO_REUSEADDR, Setsockopt_call d SO_REUSEPORT, Bind_call d PORT, Listen_call d 1024]"

lemma create_shared_socket_cases:
  assumes "os Socket_call = -1 \<or> 0 \<le> os Socket_call"
  shows "create_shared_socket os = (listening_calls (os Socket_call), os Socket_call) \<and>
      (\<forall>c \<in> set (listening_calls (os Socket_call)). 0 \<le> os c) \<or>
    (\<exists>cs c. create_shared_socket os = (cs @ c # (if c = Socket_call then [] else [Close_call (os Socket_call)]), -1) \<and>
      (\<exists>rest. listening_calls (os Socket_call) = cs @ c # rest) \<and> os c < 0 \<and> (\<forall>d \<in> set cs. 0 \<le> os d))"
    (is "?works \<or> ?fails")
proof -
  let ?fd = "os Socket_call"
  have fails: "?works \<or> ?fails"
    if "create_shared_socket os = (cs @ c # (if c = Socket_call then [] else [Close_call ?fd]), -1)"
      "\<exists>rest. listening_calls ?fd = cs @ c # rest" "os c < 0" "\<forall>d \<in> set cs. 0 \<le> os d" for cs c
    using that by blast
  consider "?fd = -1" | "?fd \<noteq> -1" "os (Setsockopt_call ?fd SO_REUSEADDR) < 0"
    | "?fd \<noteq> -1" "0 \<le> os (Setsockopt_call ?fd SO_REUSEADDR)" "os (Setsockopt_call ?fd SO_REUSEPORT) < 0"
    | "?fd \<noteq> -1" "0 \<le> os (Setsockopt_call ?fd SO_REUSEADDR)" "0 \<le> os (Setsockopt_call ?fd SO_REUSEPORT)" "os (Bind_call ?fd PORT) < 0"
    | "?fd \<noteq> -1" "0 \<le> os (Setsockopt_call ?fd SO_REUSEADDR)" "0 \<le> os (Setsockopt_call ?fd SO_REUSEPORT)" "0 \<le> os (Bind_call ?fd PORT)"
      "os (Listen_call ?fd 1024) < 0"
    | "?fd \<noteq> -1" "\<forall>c \<in> set (listening_calls ?fd). 0 \<le> os c"
    using assms by (simp add: listening_calls_def not_less [symmetric]) blast
  then show ?thesis
  proof cases
    case 1
    then show ?thesis by (intro fails [of "[]" Socket_call]) (simp_all add: create_shared_socket_def listening_calls_def)
  next
    case 2
    with assms show ?thesis
      by (intro fails [of "take 1 (listening_calls ?fd)" "Setsockopt_call ?fd SO_REUSEADDR"])
        (auto simp: create_shared_socket_def listening_calls_def Let_def)
  next
    case 3
    with assms show ?thesis
      by (intro fails [of "take 2 (listening_calls ?fd)" "Setsockopt_call ?fd SO_REUSEPORT"])
        (auto simp: create_shared_socket_def listening_calls_def Let_def)
  next
    case 4
    with assms show ?thesis
      by (intro fails [of "take 3 (listening_calls ?fd)" "Bind_call ?fd PORT"])
        (auto simp: create_shared_socket_def listening_calls_def Let_def)
  next
    case 5
    with assms show ?thesis
      by (intro fails [of "take 4 (listening_calls ?fd)" "Listen_call ?fd 1024"])
        (auto simp: create_shared_socket_def listening_calls_def Let_def)
  next
    case 6
    then have ?works by (simp add: create_shared_socket_def listening_calls_def Let_def)
    then show ?thesis ..
  qed
qed

lemma start_reactor_socket:
  assumes "start_reactor cfg rid clock file opened sock x = Inr res"
  shows "case res of None \<Rightarrow> sock < 0 | Some r \<Rightarrow> \<not> sock < 0 \<and> thread_socket r = sock"
proof -
  have op: "thread_socket r' = thread_socket r" if "submit_op cfg p i r = Inr r'" for p i r r'
    using that by (auto simp: submit_op_def split: if_splits)
  have oc: "thread_socket (on_conn i f r) = thread_socket r" for i f r by (simp add: on_conn_def)
  have ac: "thread_socket r' = thread_socket r" if "submit_accept cfg r = Inr r'" for r r'
    using that by (auto simp: submit_accept_def oc dest!: op split: option.splits prod.splits)
  have rd: "thread_socket r' = thread_socket r" if "submit_itc_read cfg r = Inr r'" for r r'
    using that by (auto simp: submit_itc_read_def dest: op split: option.splits)
  show ?thesis
    using assms
    by (auto simp: start_reactor_def Let_def oc ub_map_Inr_iff dest!: ac rd split: if_splits option.splits prod.splits)
qed

lemma left_open_append:
  "\<forall>c \<in> set cs. c \<noteq> Socket_call \<Longrightarrow> left_open os cs = {}"
  by (induction cs) (auto simp: Let_def split: sys_call.split)

text \<open>
  C13. A shared socket is all or nothing: either every call succeeded, both options before the binding and
  the binding to port 6379 before listening, and the listening descriptor is the one left open, or a
  call failed, no later one but \<open>close\<close> is made, the result is -1 and no descriptor is left open. A
  reactor starts exactly when it got such a socket, and accepts on it.
\<close>

theorem shared_socket_all_or_nothing:
  assumes "os Socket_call = -1 \<or> 0 \<le> os Socket_call"
    and "run_reactor_start cfg os (int j) clock file opened x = (calls, Inr res)"
  shows "(case res of
      Some r \<Rightarrow> calls = listening_calls (os Socket_call) \<and> (\<forall>c \<in> set calls. 0 \<le> os c) \<and>
        thread_socket r = os Socket_call \<and> left_open os calls = {thread_socket r}
    | None \<Rightarrow> (\<exists>cs c. (\<exists>rest. listening_calls (os Socket_call) = cs @ c # rest) \<and> os c < 0 \<and> (\<forall>d \<in> set cs. 0 \<le> os d) \<and>
        calls = cs @ c # (if c = Socket_call then [] else [Close_call (os Socket_call)])) \<and> left_open os calls = {})"
proof -
  let ?fd = "os Socket_call"
  obtain sock where c: "create_shared_socket os = (calls, sock)" and r: "start_reactor cfg (int j) clock file opened sock x = Inr res"
    using assms(2) by (auto simp: run_reactor_start_def split: prod.splits)
  from create_shared_socket_cases [where os = os, OF assms(1)] show ?thesis
  proof (elim disjE exE conjE)
    assume w: "create_shared_socket os = (listening_calls ?fd, ?fd)" "\<forall>c \<in> set (listening_calls ?fd). 0 \<le> os c"
    then have "sock = ?fd" "calls = listening_calls ?fd" "0 \<le> ?fd" using c by (simp_all add: listening_calls_def)
    moreover have "left_open os (listening_calls ?fd) = {?fd}" using w(2) by (simp add: listening_calls_def)
    ultimately show ?thesis using start_reactor_socket [OF r] w(2) by (auto split: option.splits)
  next
    fix cs c' rest
    assume f: "create_shared_socket os = (cs @ c' # (if c' = Socket_call then [] else [Close_call ?fd]), - 1)"
      "listening_calls ?fd = cs @ c' # rest" "os c' < 0" "\<forall>d \<in> set cs. 0 \<le> os d"
    then have e: "sock = -1" "calls = cs @ c' # (if c' = Socket_call then [] else [Close_call ?fd])" using c by simp_all
    have "left_open os calls = {}"
      using f(2,3) unfolding e(2) listening_calls_def
      by (cases cs) (auto intro: left_open_append simp: Cons_eq_append_conv)
    then show ?thesis using start_reactor_socket [OF r] e f(2-4) by (auto split: option.splits)
  qed
qed

theorem shared_socket_all_or_nothing_witness:
  "\<exists>r. snd (run_reactor_start (roomy 1) (\<lambda>c. if c = Socket_call then 4 else 0) 0 (\<lambda>_. 0) None 3 (itc_init (\<lambda>_ _. True) [7] 1)) = Inr (Some r) \<and>
     thread_socket r = 4 \<and> left_open (\<lambda>c. if c = Socket_call then 4 else 0) (listening_calls 4) = {4}"
proof -
  let ?os = "\<lambda>c. if c = Socket_call then 4 else 0 :: int"
  let ?x = "itc_init (\<lambda>_ _. True) [7] 1"
  have "0 < (1 :: nat)" "0 < length (event_fds ?x)" "0 \<le> (4 :: int)" by (simp_all add: itc_init_def)
  from start_roomy [OF this, of "\<lambda>_. 0" 3] obtain r where "start_reactor (roomy 1) (int 0) (\<lambda>_. 0) None 3 4 ?x = Inr (Some r)" by blast
  then have r: "run_reactor_start (roomy 1) ?os (int 0) (\<lambda>_. 0) None 3 ?x = (listening_calls 4, Inr (Some r))"
    by (simp add: run_reactor_start_def create_shared_socket_def listening_calls_def Let_def)
  from shared_socket_all_or_nothing [OF _ r] r show ?thesis by simp
qed

text \<open>
  Whatever the number of logical cores, \<open>main\<close> starts at least one reactor, with the identifiers
  0, 1, ... in order, each pinned to another core of those there are. The bounds the other
  properties ask for hold below 2 ^ 23 cores, and the marks of the signals suffice below 130.
\<close>

theorem main_starts_reactors:
  assumes "hw < (2 ^ 31 :: u32)"
  shows "map fst (main_threads hw) = [0..int (length (main_threads hw)) - 1] \<and> main_threads hw \<noteq> [] \<and>
    reactors_for hw = int (length (main_threads hw)) \<and>
    distinct (map snd (main_threads hw)) \<and> (\<forall>core \<in> set (map snd (main_threads hw)). 0 \<le> core \<and> core < max 1 (uint hw)) \<and>
    (hw < 2 ^ 23 \<longrightarrow> 512 * reactors_for hw < 2 ^ 31) \<and> (reactors_for hw \<le> 64 \<longleftrightarrow> hw < 130)"
proof -
  let ?n = "reactors_for hw"
  have h: "sint hw = uint hw" "uint hw < 2 ^ 31" "0 \<le> uint hw"
    using assms order_trans [of "- (2 ^ 31)" 0 "uint hw"]
    by (simp_all add: word_less_def sint_uint signed_take_bit_int_eq_self_iff)
  have "0 \<le> uint hw div 2" by simp
  then have n: "?n = max 1 (uint hw div 2)" using h by (auto simp: reactors_for_def sdiv_nonneg Let_def max_def)
  have len: "int (length (main_threads hw)) = ?n" using n by (simp add: main_threads_def)
  have "map fst (main_threads hw) = [0..?n - 1]" by (simp add: main_threads_def comp_def)
  moreover have "main_threads hw \<noteq> []" using len n by auto
  moreover have "map snd (main_threads hw) = map (\<lambda>i. i * 2) [0..?n - 1]" by (simp add: main_threads_def comp_def)
  moreover have "distinct (map (\<lambda>i. i * 2) [0..?n - 1])" by (simp add: distinct_map inj_on_def)
  moreover have "i * 2 < max 1 (uint hw)" if "0 \<le> i" "i < ?n" for i using that n by (auto simp: max_def split: if_splits)
  moreover have "512 * ?n < 2 ^ 31" if "hw < 2 ^ 23" using that n by (simp add: word_less_def)
  moreover have "?n \<le> 64 \<longleftrightarrow> hw < 130" using n by (auto simp: word_less_def)
  ultimately show ?thesis using len by auto
qed

theorem main_starts_reactors_witness:
  "reactors_for 16 = 8 \<and> main_threads 5 = [(0, 0), (1, 2)] \<and> reactors_for 0 = 1 \<and>
     distinct (map snd (main_threads 16)) \<and> 512 * reactors_for 16 < 2 ^ 31"
proof -
  have "main_threads 5 = [(0, 0), (1, 2)]" by (simp add: main_threads_def reactors_for_def Let_def upto.simps)
  moreover have "reactors_for 16 = 8" "reactors_for 0 = 1" by (simp_all add: reactors_for_def Let_def)
  ultimately show ?thesis using main_starts_reactors [of 16] by simp
qed

end
