(* ===== verification/Cq_Notifier.thy ===== *)
theory Cq_Notifier
  imports Cq_Words "HOL-Library.Monad_Syntax"
begin

text \<open>
  \<open>include/concurrentqueue.h\<close>, \<open>class ThreadExitNotifier\<close>: for each thread a linked list of listeners that
  are called when the thread ends. \<open>std::mutex\<close> makes each of its operations one step. \<open>None\<close> is
  the result of reading through a pointer to no listener; the lemmas show that it does not occur.
\<close>

section \<open>Listeners\<close>

text \<open>
  A listener is a pointer; \<open>tel_chain\<close> names the notifier, one per thread. \<open>ListTail\<close> and \<open>NextOf\<close> are
  the places that the pointer to a pointer \<open>prev\<close> can stand for.
\<close>

record thread_exit_listener =
  tel_next :: "nat option"
  tel_chain :: "thread_id option"

record thread_exit_notifiers =
  listeners :: "nat \<rightharpoonup> thread_exit_listener"
  list_tail :: "thread_id \<Rightarrow> nat option"

datatype link = ListTail thread_id | NextOf nat

definition subscribe :: "thread_id \<Rightarrow> nat \<Rightarrow> thread_exit_notifiers \<Rightarrow> thread_exit_notifiers" where
  "subscribe i l st =
     st\<lparr>listeners := (listeners st)(l \<mapsto> \<lparr>tel_next = list_tail st i, tel_chain = Some i\<rparr>),
        list_tail := (list_tail st)(i := Some l)\<rparr>"

fun write_link :: "link \<Rightarrow> nat option \<Rightarrow> thread_exit_notifiers \<Rightarrow> thread_exit_notifiers option" where
  "write_link (ListTail i) v st = Some (st\<lparr>list_tail := (list_tail st)(i := v)\<rparr>)"
| "write_link (NextOf a) v st = do {
     x \<leftarrow> listeners st a;
     Some (st\<lparr>listeners := (listeners st)(a \<mapsto> x\<lparr>tel_next := v\<rparr>)\<rparr>) }"

partial_function (option) unsubscribe_loop ::
  "nat \<Rightarrow> link \<Rightarrow> nat option \<Rightarrow> thread_exit_notifiers \<Rightarrow> thread_exit_notifiers option" where
  "unsubscribe_loop l prev ptr st =
     (case ptr of
        None \<Rightarrow> Some st
      | Some a \<Rightarrow> do {
          x \<leftarrow> listeners st a;
          if a = l then write_link prev (tel_next x) st
          else unsubscribe_loop l (NextOf a) (tel_next x) st })"

definition unsubscribe :: "nat \<Rightarrow> thread_exit_notifiers \<Rightarrow> thread_exit_notifiers option" where
  "unsubscribe l st = do {
     x \<leftarrow> listeners st l;
     case tel_chain x of
       None \<Rightarrow> Some st
     | Some i \<Rightarrow>
         let st = st\<lparr>listeners := (listeners st)(l \<mapsto> x\<lparr>tel_chain := None\<rparr>)\<rparr> in
         unsubscribe_loop l (ListTail i) (list_tail st i) st }"

text \<open>The notifier of a thread that ends: the listeners it calls, in this order.\<close>

partial_function (option) notify_exit ::
  "nat option \<Rightarrow> thread_exit_notifiers \<Rightarrow> (nat list \<times> thread_exit_notifiers) option" where
  "notify_exit ptr st =
     (case ptr of
        None \<Rightarrow> Some ([], st)
      | Some a \<Rightarrow> do {
          x \<leftarrow> listeners st a;
          (called, st') \<leftarrow> notify_exit (tel_next x) (st\<lparr>listeners := (listeners st)(a \<mapsto> x\<lparr>tel_chain := None\<rparr>)\<rparr>);
          Some (a # called, st') })"

definition thread_exit_notifier :: "thread_id \<Rightarrow> thread_exit_notifiers \<Rightarrow> (nat list \<times> thread_exit_notifiers) option" where
  "thread_exit_notifier i st = notify_exit (list_tail st i) st"

text \<open>\<open>list_from\<close>: the list from a pointer on; \<open>subscribed\<close>: the listeners of a thread, the newest first.\<close>

fun list_from :: "thread_exit_notifiers \<Rightarrow> nat option \<Rightarrow> nat list \<Rightarrow> bool" where
  "list_from st ptr [] \<longleftrightarrow> ptr = None"
| "list_from st ptr (a # as) \<longleftrightarrow> ptr = Some a \<and> (\<exists>x. listeners st a = Some x \<and> list_from st (tel_next x) as)"

definition subscribed :: "thread_exit_notifiers \<Rightarrow> (thread_id \<Rightarrow> nat list) \<Rightarrow> bool" where
  "subscribed st ls \<longleftrightarrow>
     (\<forall>i. list_from st (list_tail st i) (ls i) \<and> distinct (ls i) \<and>
        (\<forall>l \<in> set (ls i). \<exists>x. listeners st l = Some x \<and> tel_chain x = Some i)) \<and>
     (\<forall>l x. listeners st l = Some x \<longrightarrow> (case tel_chain x of None \<Rightarrow> \<forall>i. l \<notin> set (ls i) | Some i \<Rightarrow> l \<in> set (ls i)))"

lemma list_from_cong:
  "list_from st ptr as \<Longrightarrow> (\<And>a. a \<in> set as \<Longrightarrow> map_option tel_next (listeners st' a) = map_option tel_next (listeners st a)) \<Longrightarrow>
    list_from st' ptr as"
proof (induction as arbitrary: ptr)
  case (Cons a as)
  have "map_option tel_next (listeners st' a) = map_option tel_next (listeners st a)" using Cons.prems(2) by simp
  then show ?case using Cons by (cases "listeners st a"; cases "listeners st' a") auto
qed simp

lemma subscribed_disjoint:
  assumes "subscribed st ls" "l \<in> set (ls i)" "l \<in> set (ls k)"
  shows "i = k"
  using assms unfolding subscribed_def by (metis option.inject)

lemma subscribe_ok:
  assumes s: "subscribed st ls" and new: "\<And>k. l \<notin> set (ls k)"
  shows "subscribed (subscribe i l st) (ls(i := l # ls i))"
proof -
  let ?st = "subscribe i l st"
  have old: "list_from ?st (list_tail st k) (ls k)" for k
    by (rule list_from_cong [of st]) (use s new in \<open>auto simp: subscribed_def subscribe_def\<close>)
  show ?thesis
    unfolding subscribed_def
  proof (intro conjI allI impI ballI)
    fix k
    show "list_from ?st (list_tail ?st k) ((ls(i := l # ls i)) k)" using old by (simp add: subscribe_def)
    show "distinct ((ls(i := l # ls i)) k)" using s new by (simp add: subscribed_def)
    show "\<exists>x. listeners ?st a = Some x \<and> tel_chain x = Some k" if "a \<in> set ((ls(i := l # ls i)) k)" for a
      using that s new by (cases "a = l") (auto simp: subscribe_def subscribed_def split: if_splits)
  next
    fix a x assume x: "listeners ?st a = Some x"
    show "case tel_chain x of None \<Rightarrow> \<forall>k. a \<notin> set ((ls(i := l # ls i)) k) | Some k \<Rightarrow> a \<in> set ((ls(i := l # ls i)) k)"
    proof (cases "a = l")
      case True
      with x show ?thesis by (auto simp: subscribe_def)
    next
      case False
      with x have "listeners st a = Some x" by (simp add: subscribe_def)
      then have "case tel_chain x of None \<Rightarrow> \<forall>k. a \<notin> set (ls k) | Some k \<Rightarrow> a \<in> set (ls k)"
        using s unfolding subscribed_def by blast
      with False show ?thesis by (auto split: option.splits)
    qed
  qed
qed

text \<open>The loop of \<open>unsubscribe\<close>, from the place \<open>prev\<close> that points to the rest \<open>as\<close> of the list.\<close>

definition at_link :: "thread_exit_notifiers \<Rightarrow> link \<Rightarrow> nat option" where
  "at_link st prev = (case prev of ListTail i \<Rightarrow> list_tail st i | NextOf a \<Rightarrow> (case listeners st a of None \<Rightarrow> None | Some x \<Rightarrow> tel_next x))"

lemma unsubscribe_loop_ok:
  assumes "list_from st ptr as" "distinct as" "l \<in> set as" "at_link st prev = ptr"
    "\<And>a. prev = NextOf a \<Longrightarrow> a \<notin> set as \<and> listeners st a \<noteq> None"
  shows "\<exists>st'. unsubscribe_loop l prev ptr st = Some st' \<and> list_from st' (at_link st' prev) (remove1 l as) \<and>
    (\<forall>i. (\<forall>k. prev = ListTail k \<longrightarrow> i \<noteq> k) \<longrightarrow> list_tail st' i = list_tail st i) \<and>
    (\<forall>a. map_option tel_chain (listeners st' a) = map_option tel_chain (listeners st a)) \<and>
    (\<forall>a. a \<notin> set as \<and> prev \<noteq> NextOf a \<longrightarrow> listeners st' a = listeners st a)"
  using assms
proof (induction as arbitrary: prev ptr)
  case (Cons b as)
  then obtain x where x: "ptr = Some b" "listeners st b = Some x" "list_from st (tel_next x) as" by auto
  show ?case
  proof (cases "b = l")
    case True
    show ?thesis
    proof (cases prev)
      case (ListTail i)
      let ?st = "st\<lparr>list_tail := (list_tail st)(i := tel_next x)\<rparr>"
      have "list_from ?st (tel_next x) as" by (rule list_from_cong [OF x(3)]) simp
      with ListTail True x show ?thesis by (simp add: unsubscribe_loop.simps at_link_def)
    next
      case (NextOf c)
      with Cons.prems(5) obtain y where y: "listeners st c = Some y" "c \<noteq> b" "c \<notin> set as" by auto
      let ?st = "st\<lparr>listeners := (listeners st)(c \<mapsto> y\<lparr>tel_next := tel_next x\<rparr>)\<rparr>"
      have "list_from ?st (tel_next x) as" by (rule list_from_cong [OF x(3)]) (use y in auto)
      with NextOf True x y show ?thesis by (simp add: unsubscribe_loop.simps at_link_def)
    qed
  next
    case False
    have "l \<in> set as" "distinct as" "b \<notin> set as" using Cons.prems False by auto
    moreover have "at_link st (NextOf b) = tel_next x" using x by (simp add: at_link_def)
    ultimately obtain st' where st': "unsubscribe_loop l (NextOf b) (tel_next x) st = Some st'"
      "list_from st' (at_link st' (NextOf b)) (remove1 l as)" "\<forall>i. list_tail st' i = list_tail st i"
      "\<forall>a. map_option tel_chain (listeners st' a) = map_option tel_chain (listeners st a)"
      "\<forall>a. a \<notin> set as \<and> b \<noteq> a \<longrightarrow> listeners st' a = listeners st a"
      using Cons.IH [OF x(3), of "NextOf b"] x(2) by auto
    have "at_link st' prev = ptr"
      using Cons.prems(4,5) st'(3,5) by (cases prev) (auto simp: at_link_def)
    moreover obtain y where "listeners st' b = Some y" using st'(4) x(2) by (metis option.map_disc_iff option.exhaust option.simps(3))
    ultimately have "list_from st' (at_link st' prev) (b # remove1 l as)" using st'(2) x(1) by (simp add: at_link_def)
    with st' False x show ?thesis by (auto simp: unsubscribe_loop.simps)
  qed
qed simp

lemma unsubscribe_ok:
  assumes s: "subscribed st ls" and l: "l \<in> set (ls i)"
  shows "\<exists>st'. unsubscribe l st = Some st' \<and> subscribed st' (ls(i := remove1 l (ls i)))"
proof -
  from s l obtain x where x: "listeners st l = Some x" "tel_chain x = Some i" unfolding subscribed_def by blast
  let ?st = "st\<lparr>listeners := (listeners st)(l \<mapsto> x\<lparr>tel_chain := None\<rparr>)\<rparr>"
  have lnk: "list_from ?st (list_tail ?st k) (ls k)" "distinct (ls k)" for k
  proof -
    have "list_from st (list_tail st k) (ls k)" "distinct (ls k)" using s unfolding subscribed_def by blast+
    then show "list_from ?st (list_tail ?st k) (ls k)" "distinct (ls k)"
      using x by (auto intro: list_from_cong)
  qed
  from unsubscribe_loop_ok [OF lnk(1,2) l, of "ListTail i"] obtain st' where
    st': "unsubscribe_loop l (ListTail i) (list_tail ?st i) ?st = Some st'"
    "list_from st' (list_tail st' i) (remove1 l (ls i))" "\<forall>k. k \<noteq> i \<longrightarrow> list_tail st' k = list_tail ?st k"
    "\<forall>a. map_option tel_chain (listeners st' a) = map_option tel_chain (listeners ?st a)"
    "\<forall>a. a \<notin> set (ls i) \<longrightarrow> listeners st' a = listeners ?st a" by (auto simp: at_link_def)
  have run: "unsubscribe l st = Some st'" using x st'(1) by (simp add: unsubscribe_def)
  have others: "list_from st' (list_tail st' k) (ls k)" if k: "k \<noteq> i" for k
  proof -
    have "a \<notin> set (ls i)" if "a \<in> set (ls k)" for a using subscribed_disjoint [OF s that] k by blast
    then have "list_from st' (list_tail ?st k) (ls k)"
      by (intro list_from_cong [OF lnk(1)]) (simp add: st'(5))
    with k st'(3) show ?thesis by simp
  qed
  have chains: "map_option tel_chain (listeners st' a) = (if a = l then Some None else map_option tel_chain (listeners st a))" for a
    using st'(4) by simp
  have "subscribed st' (ls(i := remove1 l (ls i)))"
    unfolding subscribed_def
  proof (intro conjI allI impI ballI)
    fix k
    show "list_from st' (list_tail st' k) ((ls(i := remove1 l (ls i))) k)" using others st'(2) by simp
    show "distinct ((ls(i := remove1 l (ls i))) k)" using lnk(2) by simp
    fix a assume "a \<in> set ((ls(i := remove1 l (ls i))) k)"
    then have a: "a \<in> set (ls k)" "a \<noteq> l" using lnk(2) [of i] subscribed_disjoint [OF s l] by (auto split: if_splits)
    then obtain y where "listeners st a = Some y" "tel_chain y = Some k" using s unfolding subscribed_def by blast
    with chains [of a] a(2) show "\<exists>x. listeners st' a = Some x \<and> tel_chain x = Some k" by auto
  next
    fix a y assume y: "listeners st' a = Some y"
    show "case tel_chain y of None \<Rightarrow> \<forall>k. a \<notin> set ((ls(i := remove1 l (ls i))) k)
      | Some k \<Rightarrow> a \<in> set ((ls(i := remove1 l (ls i))) k)"
    proof (cases "a = l")
      case True
      with chains [of a] y show ?thesis using lnk(2) [of i] subscribed_disjoint [OF s l] by auto
    next
      case False
      with chains [of a] y obtain z where z: "listeners st a = Some z" "tel_chain z = tel_chain y"
        by (cases "listeners st a") auto
      then have "case tel_chain y of None \<Rightarrow> \<forall>k. a \<notin> set (ls k) | Some k \<Rightarrow> a \<in> set (ls k)"
        using s unfolding subscribed_def by metis
      with False show ?thesis by (auto split: option.splits dest: notin_set_remove1)
    qed
  qed
  with run show ?thesis by blast
qed

text \<open>
  A thread that ends calls its listeners, each once; a listener that has been called can be
  unsubscribed, which then does nothing.
\<close>

lemma notify_exit_ok:
  "list_from st ptr as \<Longrightarrow> distinct as \<Longrightarrow> \<exists>st'. notify_exit ptr st = Some (as, st') \<and> list_tail st' = list_tail st \<and>
    (\<forall>a. listeners st' a = (if a \<in> set as then map_option (\<lambda>x. x\<lparr>tel_chain := None\<rparr>) (listeners st a) else listeners st a))"
proof (induction as arbitrary: ptr st)
  case (Cons a as)
  then obtain x where x: "ptr = Some a" "listeners st a = Some x" "list_from st (tel_next x) as" by auto
  let ?st = "st\<lparr>listeners := (listeners st)(a \<mapsto> x\<lparr>tel_chain := None\<rparr>)\<rparr>"
  have "list_from ?st (tel_next x) as" by (rule list_from_cong [OF x(3)]) (use Cons.prems(2) x(2) in auto)
  with Cons.IH Cons.prems(2) obtain st' where st': "notify_exit (tel_next x) ?st = Some (as, st')" "list_tail st' = list_tail ?st"
    "\<forall>b. listeners st' b = (if b \<in> set as then map_option (\<lambda>x. x\<lparr>tel_chain := None\<rparr>) (listeners ?st b) else listeners ?st b)"
    by fastforce
  then have "notify_exit ptr st = Some (a # as, st')" using x by (simp add: notify_exit.simps)
  with st'(2,3) x(2) Cons.prems(2) show ?case by auto
qed (simp add: notify_exit.simps)

lemma thread_exit_notifier_ok:
  assumes s: "subscribed st ls"
  shows "\<exists>st'. thread_exit_notifier i st = Some (ls i, st') \<and> (\<forall>l \<in> set (ls i). unsubscribe l st' = Some st') \<and>
    (\<forall>k. k \<noteq> i \<longrightarrow> list_from st' (list_tail st' k) (ls k))"
proof -
  have lnk: "list_from st (list_tail st k) (ls k)" "distinct (ls k)" for k
    using s unfolding subscribed_def by blast+
  from notify_exit_ok [OF lnk] obtain st' where st': "notify_exit (list_tail st i) st = Some (ls i, st')" "list_tail st' = list_tail st"
    "\<And>a. listeners st' a = (if a \<in> set (ls i) then map_option (\<lambda>x. x\<lparr>tel_chain := None\<rparr>) (listeners st a) else listeners st a)"
    by blast
  have "unsubscribe l st' = Some st'" if "l \<in> set (ls i)" for l
  proof -
    from s that obtain x where "listeners st l = Some x" unfolding subscribed_def by blast
    with that show ?thesis by (simp add: unsubscribe_def st'(3))
  qed
  moreover have "list_from st' (list_tail st' k) (ls k)" if "k \<noteq> i" for k
    unfolding st'(2) by (rule list_from_cong [OF lnk(1)]) (use subscribed_disjoint [OF s] that in \<open>auto simp: st'(3)\<close>)
  ultimately show ?thesis using st'(1) by (simp add: thread_exit_notifier_def)
qed

end
