(* ===== verification/Cq_Exit.thy ===== *)
theory Cq_Exit
  imports Cq_Accept Cq_Notifier
begin

text \<open>
  \<open>include/concurrentqueue.h\<close>, \<open>implicit_producer_thread_exited\<close>: when a thread ends its key leaves the hash
  tables, behind a mark that keeps the probe sequences of other keys whole, and its producer becomes
  inactive. What it sent can still be received, and the next thread that enqueues takes over the
  producer.
\<close>

section \<open>The end of a thread\<close>

partial_function (option) release_key ::
  "thread_id \<Rightarrow> u64 \<Rightarrow> implicit_producer_hash \<Rightarrow> implicit_producer_hash option" where
  "release_key i index hash =
     (let index = index AND (ph_capacity hash - 1);
          probedKey = kvp_key (ph_entries hash ! unat index) in
      if probedKey = i then Some (hash\<lparr>ph_entries := (ph_entries hash)[unat index :=
          (ph_entries hash ! unat index)\<lparr>kvp_key := invalid_thread_id2\<rparr>]\<rparr>)
      else if probedKey = invalid_thread_id then Some hash
      else release_key i (index + 1) hash)"

fun release_keys :: "thread_id \<Rightarrow> u64 \<Rightarrow> implicit_producer_hash list \<Rightarrow> implicit_producer_hash list option" where
  "release_keys i hashedId [] = Some []"
| "release_keys i hashedId (hash # prev) = do {
     hash \<leftarrow> release_key i hashedId hash;
     prev \<leftarrow> release_keys i hashedId prev;
     Some (hash # prev) }"

definition implicit_producer_thread_exited :: "thread_id \<Rightarrow> nat \<Rightarrow> 'a queue \<Rightarrow> 'a queue option" where
  "implicit_producer_thread_exited i j q =
     (if implicitProducerHash q = [] then None
      else do {
        hashes \<leftarrow> release_keys i (hash_thread_id i) (implicitProducerHash q);
        Some (q\<lparr>implicitProducerHash := hashes, producers := (producers q)[j := (producers q ! j)\<lparr>inactive := True\<rparr>]\<rparr>) })"

section \<open>Tables without a key\<close>

definition released :: "thread_id \<Rightarrow> implicit_producer_hash \<Rightarrow> implicit_producer_hash" where
  "released i t = t\<lparr>ph_entries := map (\<lambda>e. if kvp_key e = i then e\<lparr>kvp_key := invalid_thread_id2\<rparr> else e) (ph_entries t)\<rparr>"

lemma released_simps [simp]:
  "ph_capacity (released i t) = ph_capacity t" "length (ph_entries (released i t)) = length (ph_entries t)"
  "keys (released i t) = map (\<lambda>x. if x = i then 1 else x) (keys t)"
  by (simp_all add: released_def keys_def invalid_thread_id2_def)

lemma used_keys_not: "i \<notin> used_keys t \<Longrightarrow> i \<noteq> 0 \<Longrightarrow> i \<notin> set (keys t)"
  by (simp add: used_keys_def)

lemma released_absent: "i \<notin> set (keys t) \<Longrightarrow> released i t = t"
  by (cases t) (auto simp: released_def keys_def intro!: map_idI)

lemma release_steps:
  assumes cap: "ph_capacity t = 2 ^ k" "k < 64" "length (ph_entries t) = 2 ^ k"
    and stop: "keys t ! probe_slot h (2 ^ k) D = i \<or> keys t ! probe_slot h (2 ^ k) D = 0"
    and walk: "\<And>e. e < D \<Longrightarrow> keys t ! probe_slot h (2 ^ k) e \<noteq> i \<and> keys t ! probe_slot h (2 ^ k) e \<noteq> 0"
    and e: "e \<le> D" and index: "unat (index AND (2 ^ k - 1)) = probe_slot h (2 ^ k) e"
  shows "release_key i index t = Some (if keys t ! probe_slot h (2 ^ k) D = i
    then t\<lparr>ph_entries := (ph_entries t)[probe_slot h (2 ^ k) D :=
      (ph_entries t ! probe_slot h (2 ^ k) D)\<lparr>kvp_key := invalid_thread_id2\<rparr>]\<rparr> else t)"
  using e index
proof (induction "D - e" arbitrary: e index)
  case 0
  then have "e = D" by simp
  with 0 stop cap show ?case
    by (auto simp: release_key.simps [of i index t] Let_def probe_slot_less invalid_thread_id_def)
next
  case (Suc n)
  then have "e < D" by simp
  from walk [OF this] Suc(4) cap
  have step: "release_key i index t = release_key i ((index AND (2 ^ k - 1)) + 1) t"
    by (simp add: release_key.simps [of i index t] Let_def probe_slot_less invalid_thread_id_def)
  have "n = D - Suc e" "Suc e \<le> D" using Suc(2) \<open>e < D\<close> by simp_all
  from Suc(1) [OF this slot_next [OF cap(2) Suc(4)]] step show ?case by simp
qed

text \<open>Where the probes for a key end: at the key or at an empty slot.\<close>

lemma probe_end:
  assumes t: "table_ok m t" and i: "1 < i"
  obtains k D where "ph_capacity t = 2 ^ k" "k < 62" "length (ph_entries t) = 2 ^ k"
    "keys t ! probe_slot (hash_thread_id i) (2 ^ k) D = i \<or> keys t ! probe_slot (hash_thread_id i) (2 ^ k) D = 0"
    "\<And>e. e < D \<Longrightarrow> keys t ! probe_slot (hash_thread_id i) (2 ^ k) e \<noteq> i \<and> keys t ! probe_slot (hash_thread_id i) (2 ^ k) e \<noteq> 0"
    "unat (hash_thread_id i AND (2 ^ k - 1)) = probe_slot (hash_thread_id i) (2 ^ k) 0"
    "keys t ! probe_slot (hash_thread_id i) (2 ^ k) D = i \<longleftrightarrow> i \<in> used_keys t"
proof -
  obtain k where k: "ph_capacity t = 2 ^ k" "k < 62" "length (ph_entries t) = 2 ^ k"
    using t by (rule table_capacity)
  let ?h = "hash_thread_id i"
  obtain D where stop: "keys t ! probe_slot ?h (2 ^ k) D = i \<or> keys t ! probe_slot ?h (2 ^ k) D = 0"
    and walk: "\<And>e. e < D \<Longrightarrow> \<not> (keys t ! probe_slot ?h (2 ^ k) e = i \<or> keys t ! probe_slot ?h (2 ^ k) e = 0)"
    using first_probe [OF t, of "\<lambda>x. x = i \<or> x = 0" ?h] k(3) by auto
  have at: "unat (?h AND (2 ^ k - 1)) = probe_slot ?h (2 ^ k) 0" using slot_word [of k ?h 0] k by simp
  have w: "\<And>e. e < D \<Longrightarrow> keys t ! probe_slot ?h (2 ^ k) e \<noteq> i \<and> keys t ! probe_slot ?h (2 ^ k) e \<noteq> 0" using walk by blast
  from find_steps [OF k(1) _ k(3) stop w _ at] k(2) obtain idx
    where run: "find_in_hash t i ?h = Some (if keys t ! probe_slot ?h (2 ^ k) D = i then Some idx else None)" by auto
  with find_in_hash_ok [OF t i] have "keys t ! probe_slot ?h (2 ^ k) D = i \<longleftrightarrow> i \<in> used_keys t"
    by (auto split: if_splits)
  with that k stop w at show thesis by blast
qed

lemma release_key_ok:
  assumes t: "table_ok m t" and i: "1 < i"
  shows "release_key i (hash_thread_id i) t = Some (released i t)"
proof -
  from t i obtain k D where k: "ph_capacity t = 2 ^ k" "k < 62" "length (ph_entries t) = 2 ^ k"
    and stop: "keys t ! probe_slot (hash_thread_id i) (2 ^ k) D = i \<or> keys t ! probe_slot (hash_thread_id i) (2 ^ k) D = 0"
    and walk: "\<And>e. e < D \<Longrightarrow> keys t ! probe_slot (hash_thread_id i) (2 ^ k) e \<noteq> i \<and> keys t ! probe_slot (hash_thread_id i) (2 ^ k) e \<noteq> 0"
    and at: "unat (hash_thread_id i AND (2 ^ k - 1)) = probe_slot (hash_thread_id i) (2 ^ k) 0"
    and used: "keys t ! probe_slot (hash_thread_id i) (2 ^ k) D = i \<longleftrightarrow> i \<in> used_keys t" using probe_end by metis
  let ?s = "probe_slot (hash_thread_id i) (2 ^ k) D"
  note run = release_steps [OF k(1) _ k(3) stop walk _ at]
  have nz: "i \<noteq> 0" using i by auto
  show ?thesis
  proof (cases "i \<in> used_keys t")
    case False
    with run used k(2) released_absent [OF used_keys_not [OF False nz]] show ?thesis by simp
  next
    case True
    have s: "?s < length (ph_entries t)" "keys t ! ?s = i" using used True k(3) by (simp_all add: probe_slot_less)
    have "(ph_entries t)[?s := (ph_entries t ! ?s)\<lparr>kvp_key := invalid_thread_id2\<rparr>] = ph_entries (released i t)"
    proof (rule nth_equalityI)
      fix j assume "j < length ((ph_entries t)[?s := (ph_entries t ! ?s)\<lparr>kvp_key := invalid_thread_id2\<rparr>])"
      then have j: "j < length (ph_entries t)" by simp
      then have "kvp_key (ph_entries t ! j) = i \<longleftrightarrow> j = ?s"
        using table_slot_inj [OF t, of j ?s] s nz by (auto simp: key_nth)
      with j show "(ph_entries t)[?s := (ph_entries t ! ?s)\<lparr>kvp_key := invalid_thread_id2\<rparr>] ! j = ph_entries (released i t) ! j"
        by (simp add: released_def nth_list_update)
    qed simp
    with run used True k(2) show ?thesis by (simp add: released_def)
  qed
qed

lemma release_keys_ok:
  "\<forall>t \<in> set ts. table_ok m t \<Longrightarrow> 1 < i \<Longrightarrow> release_keys i (hash_thread_id i) ts = Some (map (released i) ts)"
  by (induction ts) (auto simp: release_key_ok [of m])

text \<open>Other threads are found where they were, the thread itself no longer.\<close>

lemma find_in_released:
  assumes t: "table_ok m t" and i: "1 < i" and x: "1 < x"
  shows "find_in_hash (released i t) x (hash_thread_id x) = (if x = i then Some None else find_in_hash t x (hash_thread_id x))"
    "find_in_hash t x (hash_thread_id x) = Some (Some at) \<Longrightarrow> unat at < length (ph_entries t)"
proof -
  from t x obtain k D where k: "ph_capacity t = 2 ^ k" "k < 62" "length (ph_entries t) = 2 ^ k"
    and stop: "keys t ! probe_slot (hash_thread_id x) (2 ^ k) D = x \<or> keys t ! probe_slot (hash_thread_id x) (2 ^ k) D = 0"
    and walk: "\<And>e. e < D \<Longrightarrow> keys t ! probe_slot (hash_thread_id x) (2 ^ k) e \<noteq> x \<and> keys t ! probe_slot (hash_thread_id x) (2 ^ k) e \<noteq> 0"
    and start: "unat (hash_thread_id x AND (2 ^ k - 1)) = probe_slot (hash_thread_id x) (2 ^ k) 0" using probe_end by metis
  let ?h = "hash_thread_id x" and ?r = "released i t"
  have less: "probe_slot ?h (2 ^ k) e < length (keys t)" for e using k(3) by (simp add: probe_slot_less)
  have ks: "keys ?r ! probe_slot ?h (2 ^ k) e = (if keys t ! probe_slot ?h (2 ^ k) e = i then 1 else keys t ! probe_slot ?h (2 ^ k) e)" for e
    using less by simp
  have ne: "i \<noteq> 0" "x \<noteq> 1" "x \<noteq> 0" using i x by auto
  have kr: "ph_capacity ?r = 2 ^ k" "length (ph_entries ?r) = 2 ^ k" using k by simp_all
  from find_steps [OF k(1) _ k(3) stop walk _ start] k(2) obtain idx where 1: "unat idx = probe_slot ?h (2 ^ k) D"
    "find_in_hash t x ?h = Some (if keys t ! probe_slot ?h (2 ^ k) D = x then Some idx else None)" by auto
  then show "find_in_hash t x ?h = Some (Some at) \<Longrightarrow> unat at < length (ph_entries t)"
    using less by (auto split: if_splits)
  show "find_in_hash (released i t) x ?h = (if x = i then Some None else find_in_hash t x ?h)"
  proof (cases "x = i")
    case True
    obtain E where "keys t ! probe_slot ?h (2 ^ k) E = 0" "\<And>e. e < E \<Longrightarrow> keys t ! probe_slot ?h (2 ^ k) e \<noteq> 0"
      using first_probe [OF t, of "\<lambda>y. y = 0" ?h] k(3) by auto
    then have "keys ?r ! probe_slot ?h (2 ^ k) E = x \<or> keys ?r ! probe_slot ?h (2 ^ k) E = 0"
      "\<And>e. e < E \<Longrightarrow> keys ?r ! probe_slot ?h (2 ^ k) e \<noteq> x \<and> keys ?r ! probe_slot ?h (2 ^ k) e \<noteq> 0"
      "keys ?r ! probe_slot ?h (2 ^ k) E \<noteq> x"
      using True ne unfolding ks by auto
    with find_steps [OF kr(1) _ kr(2), of ?h E x 0 ?h] start k(2) True show ?thesis by auto
  next
    case False
    have same: "keys ?r ! probe_slot ?h (2 ^ k) e = x \<longleftrightarrow> keys t ! probe_slot ?h (2 ^ k) e = x"
      "keys ?r ! probe_slot ?h (2 ^ k) e = 0 \<longleftrightarrow> keys t ! probe_slot ?h (2 ^ k) e = 0" for e
      using False ne unfolding ks by auto
    from find_steps [OF kr(1) _ kr(2), of ?h D x 0 ?h] stop walk start k(2) obtain idx' where 2: "unat idx' = probe_slot ?h (2 ^ k) D"
      "find_in_hash ?r x ?h = Some (if keys ?r ! probe_slot ?h (2 ^ k) D = x then Some idx' else None)"
      unfolding same by auto
    have "idx = idx'" using 1(1) 2(1) by (simp add: word_unat_eq_iff)
    with 1(2) 2(2) False same(1) show ?thesis by simp
  qed
qed

lemma search_released:
  assumes "\<forall>t \<in> set ts. table_ok m t" "1 < i" "1 < x"
  shows "search_hashes (map (released i) ts) x (hash_thread_id x)
    = (if x = i then Some None else search_hashes ts x (hash_thread_id x))"
  using assms(1)
proof (induction ts)
  case (Cons t ts)
  then have t: "table_ok m t" by simp
  from find_in_hash_ok [OF t assms(3)] obtain f where f: "find_in_hash t x (hash_thread_id x) = Some f" by blast
  have "kvp_value (ph_entries (released i t) ! unat at) = kvp_value (ph_entries t ! unat at)" if "f = Some at" for at
    using find_in_released(2) [OF t assms(2,3), of at] f that by (simp add: released_def)
  then show ?case
    using Cons f find_in_released(1) [OF t assms(2,3)] by (simp split: option.split)
qed simp

section \<open>Taking over the producer\<close>

lemma find_unique:
  "j \<in> set xs \<Longrightarrow> (\<And>x. x \<in> set xs \<Longrightarrow> P x \<longleftrightarrow> x = j) \<Longrightarrow> find P xs = Some j"
  by (induction xs) auto

lemma recycle_inactive:
  assumes prods: "producers_ok bls cs q" and j: "j < length (producers q)"
    and q': "producers q' = (producers q)[j := (producers q ! j)\<lparr>inactive := True\<rparr>]"
  shows "recycle_or_create_producer mok q' = (Some j, q'\<lparr>producers := producers q\<rparr>)"
proof -
  have act: "\<not> inactive (producers q ! l)" if "l < length (producers q)" for l
    using prods that by (simp add: producers_ok_def)
  have "find (\<lambda>l. inactive (producers q' ! l)) (newest_first q') = Some j"
    by (rule find_unique) (use j act in \<open>auto simp: q' nth_list_update\<close>)
  moreover have "(producers q ! j)\<lparr>inactive := False\<rparr> = producers q ! j" using act [OF j] by simp
  ultimately show ?thesis using j by (simp add: recycle_or_create_producer_def q')
qed

text \<open>The queue after the thread that owns producer \<open>j\<close> has ended.\<close>

definition left_behind :: "thread_id \<Rightarrow> nat \<Rightarrow> 'a queue \<Rightarrow> 'a queue" where
  "left_behind i j q = q\<lparr>implicitProducerHash := map (released i) (implicitProducerHash q),
     producers := (producers q)[j := (producers q ! j)\<lparr>inactive := True\<rparr>]\<rparr>"

lemma thread_exited_ok:
  assumes st: "queue_state T q m bls cs" and i: "m i = Some j"
  shows "implicit_producer_thread_exited i j q = Some (left_behind i j q)"
    and "x \<in> T \<Longrightarrow> search_hashes (implicitProducerHash (left_behind i j q)) x (hash_thread_id x)
      = (if x = i then Some None else search_hashes (implicitProducerHash q) x (hash_thread_id x))"
    and "recycle_or_create_producer mok (left_behind i j q) = (Some j, (left_behind i j q)\<lparr>producers := producers q\<rparr>)"
proof -
  have hash: "hashes_ok T m q" and prods: "producers_ok bls cs q" using st by (simp_all add: queue_state_def)
  have ts: "\<forall>t \<in> set (implicitProducerHash q). table_ok m t" "implicitProducerHash q \<noteq> []" and T: "\<forall>x \<in> T. 1 < x"
    using hash by (simp_all add: hashes_ok_def)
  have j: "j < length (producers q)" "i \<in> T" using queue_state_lengths(3) [OF st i] by simp_all
  then have i1: "1 < i" using T by blast
  show "implicit_producer_thread_exited i j q = Some (left_behind i j q)"
    using release_keys_ok [OF ts(1) i1] ts(2) by (simp add: implicit_producer_thread_exited_def left_behind_def)
  show "search_hashes (implicitProducerHash (left_behind i j q)) x (hash_thread_id x)
      = (if x = i then Some None else search_hashes (implicitProducerHash q) x (hash_thread_id x))" if "x \<in> T"
    using search_released [OF ts(1) i1] T that by (simp add: left_behind_def)
  show "recycle_or_create_producer mok (left_behind i j q) = (Some j, (left_behind i j q)\<lparr>producers := producers q\<rparr>)"
    by (rule recycle_inactive [OF prods j(1)]) (simp add: left_behind_def)
qed

lemma put_returns:
  assumes cap: "ph_capacity t = 2 ^ k" "k < 64" "length (ph_entries t) = 2 ^ k" and e: "e < 2 ^ k" "keys t ! e = 0"
  shows "\<exists>r t'. put_in_hash x v h t = Some (r, t')"
proof -
  let ?P = "\<lambda>d. keys t ! probe_slot h (2 ^ k) d = 0 \<or> keys t ! probe_slot h (2 ^ k) d = 1"
  from probe_covers [OF _ e(1), of h] obtain d where "probe_slot h (2 ^ k) d = e" by auto
  with e(2) have "\<exists>d. ?P d" by metis
  then have stop: "?P (LEAST d. ?P d)" by (rule LeastI_ex)
  have walk: "keys t ! probe_slot h (2 ^ k) e \<noteq> 0 \<and> keys t ! probe_slot h (2 ^ k) e \<noteq> 1" if "e < (LEAST d. ?P d)" for e
    using not_less_Least [OF that] by blast
  have start: "unat (h AND (2 ^ k - 1)) = probe_slot h (2 ^ k) 0" using slot_word [of k h 0] cap by simp
  from put_steps [OF cap stop walk le0 start] show ?thesis by blast
qed

lemma released_has_empty:
  assumes "table_ok m t" "1 < i"
  shows "\<exists>e < length (ph_entries t). keys (released i t) ! e = 0"
proof -
  from table_has_empty [OF assms(1)] obtain e where "e < length (ph_entries t)" "keys t ! e = 0" by blast
  moreover have "i \<noteq> 0" using assms(2) by auto
  ultimately show ?thesis by auto
qed

lemma resize_hash_producers:
  "resize_hash mok n (q\<lparr>producers := ps\<rparr>) = map_option (\<lambda>(ok, q). (ok, q\<lparr>producers := ps\<rparr>)) (resize_hash mok n q)"
  by (cases "grow_capacity n (push_bit 1 (ph_capacity (hd (implicitProducerHash q))))")
    (simp_all add: resize_hash_def Let_def)

lemma resize_hash_heap:
  "resize_hash mok n q = Some (ok, q') \<Longrightarrow> heap (blocks q') = heap (blocks q)"
  by (auto simp: resize_hash_def Let_def bind_eq_Some_conv split: if_splits)

lemma next_thread_ok:
  assumes st: "queue_state T q m bls cs" and i: "m i = Some j" and x: "x \<in> T" "m x = None"
  shows "\<exists>q'. get_or_add_implicit_producer (\<lambda>_. True) x (left_behind i j q) = Some (Some j, q') \<and>
    producers q' = producers q \<and> heap (blocks q') = heap (blocks q)"
proof -
  have hash: "hashes_ok T m q" and prods: "producers_ok bls cs q" using st by (simp_all add: queue_state_def)
  have i1: "1 < i" using queue_state_lengths(3) [OF st i] hash by (simp add: hashes_ok_def)
  have x1: "1 < x" using x hash by (simp add: hashes_ok_def)
  let ?q = "left_behind i j q" and ?ts = "implicitProducerHash q" and ?n = "1 + implicitProducerHashCount q"
  have ts: "tables_ok m ?ts" by (rule hashes_tables [OF hash])
  then have each: "\<forall>t \<in> set ?ts. table_ok m t" and ne: "?ts \<noteq> []" by (simp_all add: tables_ok_def)
  have "x \<noteq> i" using x i by auto
  from search_hashes_ok [OF each x1] obtain f where f: "search_hashes ?ts x (hash_thread_id x) = Some f"
    and fok: "case f of None \<Rightarrow> \<forall>t \<in> set ?ts. x \<notin> used_keys t
     | Some (d, v) \<Rightarrow> d < length ?ts \<and> v = m x \<and> v \<noteq> None \<and> (\<forall>e < d. x \<notin> used_keys (?ts ! e)) \<and> x \<in> used_keys (?ts ! d)" by blast
  then have "search_hashes ?ts x (hash_thread_id x) = Some None" using x(2) by (cases f) auto
  with thread_exited_ok(2) [OF st i x(1)] have nowhere: "search_hashes (implicitProducerHash ?q) x (hash_thread_id x) = Some None"
    by simp
  have count: "implicitProducerHashCount ?q = implicitProducerHashCount q" by (simp add: left_behind_def)
  have fin: "finite T" "card T < 2 ^ 59" "dom m \<subseteq> T" using hash by (simp_all add: hashes_ok_def)
  then have "dom m \<subset> T" using x by auto
  then have lt: "card (dom m) < 2 ^ 59" using fin psubset_card_mono [of T "dom m"] by simp
  have n: "unat ?n = Suc (card (dom m))"
    using unat_add_small [of "implicitProducerHashCount q" 1] hash lt by (simp add: add.commute hashes_ok_def)
  from ts obtain k where k: "ph_capacity (hd ?ts) = 2 ^ k" "5 \<le> k" "k < 62" "4 * card (dom m) < 3 * 2 ^ k"
    "length (ph_entries (hd ?ts)) = 2 ^ k" "table_ok m (hd ?ts)" using tables_main by metis
  let ?start = "?q\<lparr>implicitProducerHashCount := ?n\<rparr>" and ?same = "?q\<lparr>producers := producers q, implicitProducerHashCount := ?n\<rparr>"
  have p0: "producers_ok bls cs ?same" by (rule producers_ok_cong [OF _ _ _ prods]) (simp_all add: left_behind_def)
  have free0: "\<not> resizeInProgress ?same" using hash by (simp add: hashes_ok_def left_behind_def)
  have cap0: "ph_capacity (hd (implicitProducerHash ?same)) = 2 ^ k" using k(1) ne by (simp add: left_behind_def hd_map)
  have n0: "4 * unat ?n < 3 * 2 ^ k + 4" "unat ?n < 2 ^ 60" using n k(4) lt by simp_all
  from resize_hash_ok [OF p0 free0 cap0 k(2,3) n0, of "\<lambda>_. True"] obtain ok q1
    where rs: "resize_hash (\<lambda>_. True) ?n ?same = Some (ok, q1)" and p1: "producers_ok bls cs q1"
    and prods1: "producers q1 = producers q"
    and grown: "ok \<longrightarrow> implicitProducerHash q1 = implicitProducerHash ?same \<and> 2 * unat ?n < 2 ^ k \<or>
      implicitProducerHash q1 = empty_hash (2 ^ Suc k) # implicitProducerHash ?same \<and> Suc k < 62" by (auto split: if_splits)
  have ok: "ok" using resize_hash_True [OF rs] by simp
  let ?next = "q1\<lparr>producers := producers ?q\<rparr>"
  have rs1: "resize_hash (\<lambda>_. True) ?n ?start = Some (True, ?next)"
    using resize_hash_producers [of _ ?n "producers ?q" ?same] rs ok by simp
  have hp1: "heap (blocks q1) = heap (blocks q)" using resize_hash_heap [OF rs] by (simp add: left_behind_def)
  obtain l where l: "ph_capacity (hd (implicitProducerHash q1)) = 2 ^ l" "5 \<le> l" "l < 62" "2 * unat ?n < 2 ^ l"
    and room: "\<exists>r main. put_in_hash x (Some j) (hash_thread_id x) (hd (implicitProducerHash q1)) = Some (r, main)"
  proof (cases "implicitProducerHash q1 = implicitProducerHash ?same \<and> 2 * unat ?n < 2 ^ k")
    case True
    then have hd: "hd (implicitProducerHash q1) = released i (hd ?ts)" using ne by (simp add: left_behind_def hd_map)
    from released_has_empty [OF k(6) i1] obtain e where "e < 2 ^ k" "keys (released i (hd ?ts)) ! e = 0" using k(5) by auto
    then have "\<exists>r main. put_in_hash x (Some j) (hash_thread_id x) (hd (implicitProducerHash q1)) = Some (r, main)"
      unfolding hd using k(1,3,5) by (intro put_returns) auto
    with that [of k] k hd True show thesis by simp
  next
    case False
    with grown ok have hd: "hd (implicitProducerHash q1) = empty_hash (2 ^ Suc k)" and k': "Suc k < 62" by auto
    have cap: "unat (2 ^ Suc k :: u64) = 2 ^ Suc k" using k' by (intro unat_2_power) simp
    have "\<exists>r main. put_in_hash x (Some j) (hash_thread_id x) (hd (implicitProducerHash q1)) = Some (r, main)"
      unfolding hd by (rule put_returns [of _ "Suc k" 0])
        (use k' cap in \<open>simp_all add: empty_hash_def keys_def invalid_thread_id_def del: power_Suc\<close>)
    moreover have "(32 :: nat) \<le> 2 ^ k" using power_increasing [of 5 k "2 :: nat"] k(2) by simp
    then have "2 * unat ?n < 2 ^ Suc k" using n k(4) by simp
    ultimately show thesis using that [of "Suc k"] k(2) k' hd by (simp add: empty_hash_def)
  qed
  have "?next\<lparr>producers := producers q\<rparr> = q1" unfolding prods1 [symmetric] by simp
  moreover have "recycle_or_create_producer (\<lambda>_. True) ?next = (Some j, ?next\<lparr>producers := producers q\<rparr>)"
    by (rule recycle_inactive [OF prods]) (use queue_state_lengths(3) [OF st i] in \<open>simp_all add: left_behind_def\<close>)
  ultimately have rc: "recycle_or_create_producer (\<lambda>_. True) ?next = (Some j, q1)" by simp
  have test: "?n < drop_bit 1 (2 ^ l :: u64) + drop_bit 2 (2 ^ l)"
    using three_quarters [of l ?n] l n by simp
  from room obtain r main where put: "put_in_hash x (Some j) (hash_thread_id x) (hd (implicitProducerHash q1)) = Some (r, main)" by blast
  have "get_or_add_implicit_producer (\<lambda>_. True) x ?q = add_implicit_producer (\<lambda>_. True) x ?n ?start"
    by (simp only: get_or_add_implicit_producer_def nowhere Option.bind.simps option.case Let_def count)
  also have "\<dots> = Some (Some j, q1\<lparr>implicitProducerHash := main # tl (implicitProducerHash q1),
      implicitProducerHashCount := implicitProducerHashCount q1 - (if r then 1 else 0)\<rparr>)"
    using test by (subst add_implicit_producer.simps) (simp add: rs1 Let_def l(1) rc put)
  finally show ?thesis using prods1 hp1 by simp
qed

section \<open>What the thread sent can still be received\<close>

text \<open>The operations of a receiver do not look at \<open>inactive\<close>.\<close>

lemma lookup_inactive:
  "get_block_index_entry_for_index index (pr\<lparr>inactive := b\<rparr>) = get_block_index_entry_for_index index pr"
proof -
  have "current_header (pr\<lparr>inactive := b\<rparr>) = current_header pr" by (simp add: current_header_def)
  then show ?thesis
    by (cases "current_header pr")
      (simp_all add: get_block_index_entry_for_index_def get_block_index_index_for_index_def Let_def)
qed

lemma producer_dequeue_inactive:
  "producer_dequeue (pr\<lparr>inactive := b\<rparr>) p =
    map_option (\<lambda>(r, pr, p). (r, pr\<lparr>inactive := b\<rparr>, p)) (producer_dequeue pr p)"
proof -
  let ?f = "\<lambda>(r, pr, p). (r, pr\<lparr>inactive := b\<rparr>, p)"
  define pr' where "pr' = pr\<lparr>dequeueOptimisticCount := dequeueOptimisticCount pr + 1, headIndex := headIndex pr + 1\<rparr>"
  have look: "get_block_index_entry_for_index i (pr'\<lparr>inactive := b\<rparr>) = get_block_index_entry_for_index i pr'" for i
    by (rule lookup_inactive)
  have eq: "pr\<lparr>inactive := b, dequeueOptimisticCount := dequeueOptimisticCount pr + 1, headIndex := headIndex pr + 1\<rparr> = pr'\<lparr>inactive := b\<rparr>"
    by (simp add: pr'_def)
  show ?thesis
  proof (cases "circular_less_than (dequeueOptimisticCount pr - dequeueOvercommit pr) (tailIndex pr)")
    case True
    have step: "producer_dequeue x p = (let index = headIndex x; y = x\<lparr>dequeueOptimisticCount := dequeueOptimisticCount x + 1, headIndex := headIndex x + 1\<rparr> in do {
        a \<leftarrow> get_block_index_entry_for_index index y;
        c \<leftarrow> be_value (entries y ! a);
        (el, p) \<leftarrow> take_element c index p;
        (emptied, p) \<leftarrow> set_empty c p;
        if emptied then do {
          let y = store_entry a ((entries y ! a)\<lparr>be_value := None\<rparr>) y;
          p \<leftarrow> add_block_to_free_list c p;
          Some (Some el, y, p) }
        else Some (Some el, y, p) })"
      if "circular_less_than (dequeueOptimisticCount x - dequeueOvercommit x) (tailIndex x)" for x
      using that by (simp add: producer_dequeue_def Let_def)
    have "producer_dequeue (pr\<lparr>inactive := b\<rparr>) p = map_option ?f (producer_dequeue pr p)"
      using True by (simp add: step Let_def eq look flip: pr'_def)
        (auto simp: pr'_def store_entry_def split: Option.bind_splits prod.splits if_splits)
    then show ?thesis .
  qed (simp add: producer_dequeue_def)
qed

lemma dequeue_from_left:
  assumes "j < length (producers q)"
  shows "dequeue_from l (left_behind i j q) = map_option (map_prod id (left_behind i j)) (dequeue_from l q)"
proof (cases "l = j")
  case True
  with assms show ?thesis
    by (cases "producer_dequeue (producers q ! j) (blocks q)")
      (auto simp: dequeue_from_def left_behind_def producer_dequeue_inactive)
next
  case False
  with assms show ?thesis
    by (cases "producer_dequeue (producers q ! l) (blocks q)")
      (auto simp: dequeue_from_def left_behind_def list_update_swap)
qed

lemma dequeue_from_length: "dequeue_from l q = Some (r, q') \<Longrightarrow> length (producers q') = length (producers q)"
  by (auto simp: dequeue_from_def bind_eq_Some_conv)

lemma dequeue_any_left:
  "j < length (producers q) \<Longrightarrow>
    dequeue_any best ls (left_behind i j q) = map_option (map_prod id (left_behind i j)) (dequeue_any best ls q)"
proof (induction ls arbitrary: q)
  case (Cons l ls)
  show ?case
  proof (cases "dequeue_from l q")
    case None
    with Cons show ?thesis by (simp add: dequeue_from_left)
  next
    case (Some a)
    with Cons dequeue_from_length [of l q] show ?thesis by (cases a) (auto simp: dequeue_from_left)
  qed
qed simp

lemma choose_best_cong:
  "(\<And>l. producer_size_approx (prs' ! l) = producer_size_approx (prs ! l)) \<Longrightarrow>
    choose_best prs' ls n best bestSize = choose_best prs ls n best bestSize"
  by (induction ls arbitrary: n best bestSize) (simp_all add: Let_def)

lemma try_dequeue_left:
  assumes j: "j < length (producers q)"
  shows "try_dequeue (left_behind i j q) = map_option (map_prod id (left_behind i j)) (try_dequeue q)"
proof -
  have size: "producer_size_approx (producers (left_behind i j q) ! l) = producer_size_approx (producers q ! l)" for l
    using j by (cases "l = j") (simp_all add: left_behind_def producer_size_approx_def)
  have first: "newest_first (left_behind i j q') = newest_first q'" for q' :: "'a queue"
    by (simp add: newest_first_def left_behind_def)
  obtain n best where c: "choose_best (producers q) (newest_first q) 0 None 0 = (n, best)" by fastforce
  show ?thesis
  proof (cases best)
    case None
    then show ?thesis by (simp add: try_dequeue_def first choose_best_cong [OF size] c)
  next
    case (Some b)
    show ?thesis
    proof (cases "dequeue_from b q")
      case None
      with Some j show ?thesis by (simp add: try_dequeue_def first choose_best_cong [OF size] c dequeue_from_left)
    next
      case (Some a)
      then obtain r q' where a: "dequeue_from b q = Some (r, q')" by (cases a) simp
      have "length (producers q') = length (producers q)" by (rule dequeue_from_length [OF a])
      with \<open>best = Some b\<close> a j show ?thesis
        by (auto simp: try_dequeue_def first choose_best_cong [OF size] c dequeue_from_left dequeue_any_left)
    qed
  qed
qed

section \<open>Properties\<close>

text \<open>
  C20. When the first thread of a queue to end ends, while all producers are active and no key has been released, its key leaves
  every hash table without breaking the search for the other threads,
  a receive finds what it would have found, and the next new thread that enqueues, when no allocation fails, gets the
  very producer, with every element still in it, instead of a new one. (After several exits the newest inactive
  producer is taken, which need not be that of the last thread to end.)
\<close>

theorem thread_exit_hands_over:
  assumes "queue_state T q m bls cs" "m i = Some j" "x \<in> T" "m x = None"
  shows "\<exists>q1 q2. implicit_producer_thread_exited i j q = Some q1 \<and>
    (\<forall>k \<in> T. search_hashes (implicitProducerHash q1) k (hash_thread_id k)
       = (if k = i then Some None else search_hashes (implicitProducerHash q) k (hash_thread_id k))) \<and>
    map_option fst (try_dequeue q1) = map_option fst (try_dequeue q) \<and>
    get_or_add_implicit_producer (\<lambda>_. True) x q1 = Some (Some j, q2) \<and>
    producers q2 = producers q \<and> heap (blocks q2) = heap (blocks q)"
proof -
  have "j < length (producers q)" using queue_state_lengths(3) [OF assms(1,2)] by simp
  from try_dequeue_left [OF this, of i] have "map_option fst (try_dequeue (left_behind i j q)) = map_option fst (try_dequeue q)"
    by (simp add: option.map_comp o_def)
  with thread_exited_ok(1,2) [OF assms(1,2)] next_thread_ok [OF assms] show ?thesis by blast
qed

theorem thread_exit_hands_over_witness:
  "\<exists>q0 j q1 q2. get_or_add_implicit_producer (\<lambda>_. True) 5 (ConcurrentQueue (\<lambda>_. True) 4096 :: nat queue) = Some (Some j, q0) \<and>
    implicit_producer_thread_exited 5 j q0 = Some q1 \<and>
    get_or_add_implicit_producer (\<lambda>_. True) 6 q1 = Some (Some j, q2) \<and> producers q2 = producers q0"
proof -
  let ?new = "ConcurrentQueue (\<lambda>_. True) 4096 :: nat queue"
  from fresh_queue obtain m bls cs where st: "queue_state {5, 6} ?new m bls cs" by (auto simp: queue_repr_contents)
  have "producers ?new = []" by (simp add: ConcurrentQueue_def populate_initial_implicit_producer_hash_def Let_def)
  then have none: "m k = None" for k using queue_state_lengths(3) [OF st, of k] by (cases "m k") auto
  have "(5 :: thread_id) \<in> {5, 6}" by simp
  from get_or_add_ok [OF st this, of "\<lambda>_. True"] obtain r q0 m0 bls0 cs0 where
    g: "get_or_add_implicit_producer (\<lambda>_. True) 5 ?new = Some (r, q0)" "queue_state {5, 6} q0 m0 bls0 cs0" "m0 5 = r"
      "if r = m 5 then m0 = m \<and> cs0 = cs else m 5 = None \<and> r = Some (length cs) \<and> m0 = m(5 := r) \<and> cs0 = cs @ [[]]" by blast
  from get_or_add_True [OF st _ g(1) new_queue_indexed] obtain j where j: "r = Some j" by auto
  have "m0 6 = None" using g(4) none by (auto split: if_splits)
  moreover have "m0 5 = Some j" using g(3) j by simp
  ultimately show ?thesis using thread_exit_hands_over [OF g(2), of 5 j 6] g(1) j by auto
qed

end
