(* ===== verification/Cq_Explicit.thy ===== *)
theory Cq_Explicit
  imports Cq_Lifetime
begin

text \<open>
  \<open>include/concurrentqueue.h\<close>, \<open>struct ExplicitProducer\<close>: the sub-queue of a producer token. Its blocks form
  a circular list that is reused block by block; a block counts as empty by a flag per element. The
  block index is an array of pairs, used as a ring by the producer, which the consumers enter through
  \<open>front\<close>. The program creates no tokens; the queue offers them beside the implicit producers.
  \<open>None\<close> is again the result of a failed \<open>assert\<close>, of reading a missing block, or an array slot
  that was never written.
\<close>

section \<open>Blocks, in the explicit context\<close>

definition x_is_empty :: "nat \<Rightarrow> 'a pool \<Rightarrow> bool option" where
  "x_is_empty b p = do {
     x \<leftarrow> heap p b;
     Some (list_all (\<lambda>flag. flag) (emptyFlags x)) }"

definition x_set_empty :: "nat \<Rightarrow> u64 \<Rightarrow> 'a pool \<Rightarrow> 'a pool option" where
  "x_set_empty b i p = do {
     x \<leftarrow> heap p b;
     let j = 31 - slot_of i;
     if emptyFlags x ! j then None
     else Some (put_block b (x\<lparr>emptyFlags := (emptyFlags x)[j := True]\<rparr>) p) }"

fun set_flags :: "nat \<Rightarrow> nat \<Rightarrow> bool list \<Rightarrow> bool list option" where
  "set_flags j 0 flags = Some flags"
| "set_flags j (Suc k) flags =
     (if j < length flags \<and> \<not> flags ! j then set_flags (Suc j) k (flags[j := True]) else None)"

definition x_set_many_empty :: "nat \<Rightarrow> u64 \<Rightarrow> u64 \<Rightarrow> 'a pool \<Rightarrow> 'a pool option" where
  "x_set_many_empty b i k p = do {
     x \<leftarrow> heap p b;
     let i = BLOCK_SIZE - 1 - (i AND (BLOCK_SIZE - 1)) - k + 1;
     flags \<leftarrow> set_flags (unat i) (unat k) (emptyFlags x);
     Some (put_block b (x\<lparr>emptyFlags := flags\<rparr>) p) }"

definition x_set_all_empty :: "nat \<Rightarrow> 'a pool \<Rightarrow> 'a pool option" where
  "x_set_all_empty b p = do {
     x \<leftarrow> heap p b;
     Some (put_block b (x\<lparr>emptyFlags := replicate 32 True\<rparr>) p) }"

definition x_reset_empty :: "nat \<Rightarrow> 'a pool \<Rightarrow> 'a pool option" where
  "x_reset_empty b p = do {
     x \<leftarrow> heap p b;
     Some (put_block b (x\<lparr>emptyFlags := replicate 32 False\<rparr>) p) }"

definition get_next :: "nat \<Rightarrow> 'a pool \<Rightarrow> nat option" where
  "get_next b p = do {
     x \<leftarrow> heap p b;
     next_block x }"

text \<open>Inserting a block behind the tail block of the circular list.\<close>

definition link_block :: "nat \<Rightarrow> nat option \<Rightarrow> 'a pool \<Rightarrow> 'a pool option" where
  "link_block newBlock tail p =
     (case tail of
        None \<Rightarrow> set_next newBlock (Some newBlock) p
      | Some t \<Rightarrow> do {
          n \<leftarrow> get_next t p;
          p \<leftarrow> set_next newBlock (Some n) p;
          set_next t (Some newBlock) p })"

section \<open>State\<close>

text \<open>An entry is the base and the block; the slots of a new array are not written yet.\<close>

type_synonym index_slot = "(u64 \<times> nat) option"

record explicit_index =
  xi_size :: u64
  xi_front :: u64
  xi_entries :: "index_slot list"

record explicit_producer =
  x_tailIndex :: u64
  x_headIndex :: u64
  x_dequeueOptimisticCount :: u64
  x_dequeueOvercommit :: u64
  x_tailBlock :: "nat option"
  pr_blockIndexSlotsUsed :: u64
  pr_blockIndexSize :: u64
  pr_blockIndexFront :: u64
  x_blockIndex :: "explicit_index list"

definition EXPLICIT_INITIAL_INDEX_SIZE :: u64 where
  "EXPLICIT_INITIAL_INDEX_SIZE = 32"

definition ceil_to_pow_2 :: "u64 \<Rightarrow> u64" where
  "ceil_to_pow_2 x =
     (let x = x - 1;
          x = x OR drop_bit 1 x;
          x = x OR drop_bit 2 x;
          x = x OR drop_bit 4 x;
          x = x OR drop_bit 8 x;
          x = x OR drop_bit 16 x;
          x = x OR drop_bit 32 x in
      x + 1)"

section \<open>The block index\<close>

text \<open>
  \<open>x_blockIndex\<close> lists the headers from the current one, which \<open>pr_blockIndexRaw\<close> and
  \<open>pr_blockIndexEntries\<close> point to as well, along \<open>prev\<close>.
\<close>

definition current_index :: "explicit_producer \<Rightarrow> explicit_index option" where
  "current_index pr = (case x_blockIndex pr of [] \<Rightarrow> None | h # _ \<Rightarrow> Some h)"

definition store_slot :: "u64 \<Rightarrow> nat \<Rightarrow> explicit_producer \<Rightarrow> explicit_producer option" where
  "store_slot base b pr =
     (case x_blockIndex pr of
        [] \<Rightarrow> None
      | h # hs \<Rightarrow>
          if unat (pr_blockIndexFront pr) < length (xi_entries h)
          then Some (pr\<lparr>x_blockIndex := h\<lparr>xi_entries := (xi_entries h)[unat (pr_blockIndexFront pr) := Some (base, b)]\<rparr> # hs\<rparr>)
          else None)"

definition expose_front :: "u64 \<Rightarrow> explicit_producer \<Rightarrow> explicit_producer" where
  "expose_front f pr =
     (case x_blockIndex pr of [] \<Rightarrow> pr | h # hs \<Rightarrow> pr\<lparr>x_blockIndex := h\<lparr>xi_front := f\<rparr> # hs\<rparr>)"

definition next_front :: "explicit_producer \<Rightarrow> u64" where
  "next_front pr = (pr_blockIndexFront pr + 1) AND (pr_blockIndexSize pr - 1)"

text \<open>Adding the tail block to the index.\<close>

definition index_tail_block :: "u64 \<Rightarrow> explicit_producer \<Rightarrow> explicit_producer option" where
  "index_tail_block currentTailIndex pr = do {
     b \<leftarrow> x_tailBlock pr;
     pr \<leftarrow> store_slot currentTailIndex b pr;
     let pr = expose_front (pr_blockIndexFront pr) pr;
     Some (pr\<lparr>pr_blockIndexFront := next_front pr\<rparr>) }"

partial_function (option) copy_slots :: "index_slot list \<Rightarrow> u64 \<Rightarrow> u64 \<Rightarrow> u64 \<Rightarrow> index_slot list option" where
  "copy_slots slots mask_of i front =
     (let i' = (i + 1) AND mask_of in
      if i' = front then Some [slots ! unat i]
      else do {
        rest \<leftarrow> copy_slots slots mask_of i' front;
        Some (slots ! unat i # rest) })"

definition x_new_block_index ::
  "malloc_ok \<Rightarrow> u64 \<Rightarrow> explicit_producer \<Rightarrow> 'a pool \<Rightarrow> (bool \<times> explicit_producer \<times> 'a pool) option" where
  "x_new_block_index mok numberOfFilledSlotsToExpose pr p =
     (let prevBlockSizeMask = pr_blockIndexSize pr - 1;
          pr = pr\<lparr>pr_blockIndexSize := push_bit 1 (pr_blockIndexSize pr)\<rparr>;
          n = mallocs p;
          p = p\<lparr>mallocs := n + 1\<rparr> in
      if \<not> mok n then Some (False, pr\<lparr>pr_blockIndexSize := drop_bit 1 (pr_blockIndexSize pr)\<rparr>, p)
      else do {
        copied \<leftarrow> (if pr_blockIndexSlotsUsed pr \<noteq> 0 then do {
            h \<leftarrow> current_index pr;
            copy_slots (xi_entries h) prevBlockSizeMask
              ((pr_blockIndexFront pr - pr_blockIndexSlotsUsed pr) AND prevBlockSizeMask) (pr_blockIndexFront pr) }
          else Some []);
        let size = unat (pr_blockIndexSize pr);
        if size < length copied then None
        else Some (True,
          pr\<lparr>pr_blockIndexFront := of_nat (length copied),
             x_blockIndex := \<lparr>xi_size = pr_blockIndexSize pr, xi_front = numberOfFilledSlotsToExpose - 1,
               xi_entries = copied @ replicate (size - length copied) None\<rparr> # x_blockIndex pr\<rparr>, p) })"

definition new_explicit_producer :: "malloc_ok \<Rightarrow> 'a pool \<Rightarrow> (explicit_producer \<times> 'a pool) option" where
  "new_explicit_producer mok p =
     (let size = drop_bit 1 EXPLICIT_INITIAL_INDEX_SIZE;
          poolBasedIndexSize = drop_bit 1 (ceil_to_pow_2 (initialBlockPoolSize p));
          size = (if size < poolBasedIndexSize then poolBasedIndexSize else size) in
      do {
        (_, pr, p) \<leftarrow> x_new_block_index mok 0
          \<lparr>x_tailIndex = 0, x_headIndex = 0, x_dequeueOptimisticCount = 0, x_dequeueOvercommit = 0,
           x_tailBlock = None, pr_blockIndexSlotsUsed = 0, pr_blockIndexSize = size, pr_blockIndexFront = 0,
           x_blockIndex = []\<rparr> p;
        Some (pr, p) })"

section \<open>Enqueue and dequeue\<close>

text \<open>The block behind the tail block, when there is one and it is empty.\<close>

definition empty_ahead :: "explicit_producer \<Rightarrow> 'a pool \<Rightarrow> nat option option" where
  "empty_ahead pr p =
     (case x_tailBlock pr of
        None \<Rightarrow> Some None
      | Some t \<Rightarrow> do {
          n \<leftarrow> get_next t p;
          e \<leftarrow> x_is_empty n p;
          Some (if e then Some n else None) })"

definition x_limit :: "u64 \<Rightarrow> explicit_producer \<Rightarrow> bool" where
  "x_limit currentTailIndex pr \<longleftrightarrow>
     \<not> circular_less_than (x_headIndex pr) (currentTailIndex + BLOCK_SIZE)
     \<or> (MAX_SUBQUEUE_SIZE \<noteq> - 1
        \<and> (MAX_SUBQUEUE_SIZE = 0 \<or> MAX_SUBQUEUE_SIZE - BLOCK_SIZE < currentTailIndex - x_headIndex pr))"

text \<open>Taking a block from the pool and inserting it behind the tail block.\<close>

definition x_add_block ::
  "malloc_ok \<Rightarrow> (nat \<Rightarrow> 'a pool \<Rightarrow> 'a pool option) \<Rightarrow> explicit_producer \<Rightarrow> 'a pool \<Rightarrow> (bool \<times> explicit_producer \<times> 'a pool) option" where
  "x_add_block mok mark pr p = do {
     (newBlock, p) \<leftarrow> requisition_block mok p;
     case newBlock of
       None \<Rightarrow> Some (False, pr, p)
     | Some b \<Rightarrow> do {
         p \<leftarrow> mark b p;
         p \<leftarrow> link_block b (x_tailBlock pr) p;
         Some (True, pr\<lparr>x_tailBlock := Some b, pr_blockIndexSlotsUsed := pr_blockIndexSlotsUsed pr + 1\<rparr>, p) } }"

definition x_start_block ::
  "malloc_ok \<Rightarrow> u64 \<Rightarrow> explicit_producer \<Rightarrow> 'a pool \<Rightarrow> (bool \<times> explicit_producer \<times> 'a pool) option" where
  "x_start_block mok currentTailIndex pr p = do {
     ahead \<leftarrow> empty_ahead pr p;
     (ok, pr, p) \<leftarrow> (case ahead of
         Some n \<Rightarrow> do {
           p \<leftarrow> x_reset_empty n p;
           Some (True, pr\<lparr>x_tailBlock := Some n\<rparr>, p) }
       | None \<Rightarrow>
           if circular_less_than currentTailIndex (x_headIndex pr) then None
           else if x_limit currentTailIndex pr then Some (False, pr, p)
           else do {
             (ok, pr, p) \<leftarrow> (if x_blockIndex pr = [] \<or> pr_blockIndexSlotsUsed pr = pr_blockIndexSize pr
                then x_new_block_index mok (pr_blockIndexSlotsUsed pr) pr p
                else Some (True, pr, p));
             if \<not> ok then Some (False, pr, p)
             else x_add_block mok x_reset_empty pr p });
     if \<not> ok then Some (False, pr, p)
     else do {
       pr \<leftarrow> index_tail_block currentTailIndex pr;
       Some (True, pr, p) } }"

definition x_enqueue ::
  "malloc_ok \<Rightarrow> 'a \<Rightarrow> explicit_producer \<Rightarrow> 'a pool \<Rightarrow> (bool \<times> explicit_producer \<times> 'a pool) option" where
  "x_enqueue mok element pr p =
     (let currentTailIndex = x_tailIndex pr;
          newTailIndex = 1 + currentTailIndex in
      do {
        (ok, pr, p) \<leftarrow> (if currentTailIndex AND (BLOCK_SIZE - 1) = 0
                        then x_start_block mok currentTailIndex pr p
                        else Some (True, pr, p));
        if \<not> ok then Some (False, pr, p)
        else do {
          b \<leftarrow> x_tailBlock pr;
          p \<leftarrow> put_element b currentTailIndex element p;
          Some (True, pr\<lparr>x_tailIndex := newTailIndex\<rparr>, p) } })"

text \<open>The slot of the index for the block of an index, from the entry \<open>front\<close> points to.\<close>

definition slot_for :: "explicit_index \<Rightarrow> u64 \<Rightarrow> u64 option" where
  "slot_for h index = do {
     (headBase, _) \<leftarrow> xi_entries h ! unat (xi_front h);
     let blockBaseIndex = index AND NOT (BLOCK_SIZE - 1);
     let offset = word_of_int (sint (blockBaseIndex - headBase) sdiv sint BLOCK_SIZE);
     Some ((xi_front h + offset) AND (xi_size h - 1)) }"

definition x_dequeue :: "explicit_producer \<Rightarrow> 'a pool \<Rightarrow> ('a option \<times> explicit_producer \<times> 'a pool) option" where
  "x_dequeue pr p =
     (let tail = x_tailIndex pr;
          overcommit = x_dequeueOvercommit pr in
      if circular_less_than (x_dequeueOptimisticCount pr - overcommit) tail then
        let myDequeueCount = x_dequeueOptimisticCount pr;
            pr = pr\<lparr>x_dequeueOptimisticCount := myDequeueCount + 1\<rparr>;
            tail = x_tailIndex pr in
        if circular_less_than (myDequeueCount - overcommit) tail then
          let index = x_headIndex pr;
              pr = pr\<lparr>x_headIndex := index + 1\<rparr> in
          do {
            h \<leftarrow> current_index pr;
            a \<leftarrow> slot_for h index;
            (_, b) \<leftarrow> xi_entries h ! unat a;
            (el, p) \<leftarrow> take_element b index p;
            p \<leftarrow> x_set_empty b index p;
            Some (Some el, pr, p) }
        else Some (None, pr\<lparr>x_dequeueOvercommit := x_dequeueOvercommit pr + 1\<rparr>, p)
      else Some (None, pr, p))"

end
