(* ===== verification/Cq_Explicit_Index.thy ===== *)
theory Cq_Explicit_Index
  imports Cq_Explicit
begin

text \<open>
  The block index of an explicit producer: its entries as a ring, from the newest one backwards, what adding an
  entry and copying the ring to a larger array do to it, and its sizes as powers of two.
\<close>

section \<open>The index as a ring\<close>

lemma ring_pos_back:
  assumes "t < c" "d + e \<le> c"
  shows "ring_pos c (ring_pos c t d) e = ring_pos c t (d + e)"
proof -
  have "ring_pos c (ring_pos c t d) e = ((t + c - d) mod c + (c - e)) mod c" using assms by (simp add: ring_pos_def)
  also have "\<dots> = (t + c - d + (c - e)) mod c" by (rule mod_add_left_eq)
  also have "t + c - d + (c - e) = t + c - (d + e) + c" using assms by simp
  finally show ?thesis by (simp add: ring_pos_def)
qed

lemma ring_pos_turn:
  assumes "t < c" "d < c"
  shows "ring_pos c (Suc t mod c) (Suc d) = ring_pos c t d"
proof -
  have "ring_pos c (Suc t mod c) (Suc d) = (Suc t mod c + (c - Suc d)) mod c" using assms by (simp add: ring_pos_def)
  also have "\<dots> = (Suc t + (c - Suc d)) mod c" by (rule mod_add_left_eq)
  also have "Suc t + (c - Suc d) = t + c - d" using assms by simp
  finally show ?thesis by (simp add: ring_pos_def)
qed

text \<open>
  \<open>e\<close> is the index behind the last block of \<open>bl\<close>, \<open>f\<close> the slot the next entry goes to. The entry \<open>d\<close>
  places before the last one is the block \<open>d\<close> places before the last.
\<close>

definition slots_ok :: "index_slot list \<Rightarrow> nat \<Rightarrow> nat \<Rightarrow> u64 \<Rightarrow> nat list \<Rightarrow> bool" where
  "slots_ok es k f e bl \<longleftrightarrow>
     length es = 2 ^ k \<and> f < 2 ^ k \<and> length bl \<le> 2 ^ k \<and>
     (\<forall>d < length bl. es ! ring_pos (2 ^ k) f (Suc d) = Some (e - of_nat (32 * Suc d), bl ! (length bl - 1 - d)))"

lemma slots_ok_drop:
  assumes "slots_ok es k f e bl"
  shows "slots_ok es k f e (drop m bl)"
  using assms by (auto simp: slots_ok_def)

lemma slots_push:
  assumes ok: "slots_ok es k f e bl" and room: "length bl < 2 ^ k"
  shows "slots_ok (es[f := Some (e, b)]) k (Suc f mod 2 ^ k) (e + 32) (bl @ [b])"
proof -
  have f: "f < 2 ^ k" "length es = 2 ^ k" using ok by (simp_all add: slots_ok_def)
  have "es[f := Some (e, b)] ! ring_pos (2 ^ k) (Suc f mod 2 ^ k) (Suc d)
      = Some (e + 32 - of_nat (32 * Suc d), (bl @ [b]) ! (length (bl @ [b]) - 1 - d))" if d: "d < length (bl @ [b])" for d
  proof -
    have pos: "ring_pos (2 ^ k) (Suc f mod 2 ^ k) (Suc d) = ring_pos (2 ^ k) f d"
      using f(1) d room by (intro ring_pos_turn) simp_all
    show ?thesis
    proof (cases d)
      case 0
      with f show ?thesis unfolding pos by simp
    next
      case (Suc c)
      have "ring_pos (2 ^ k) f (Suc c) \<noteq> ring_pos (2 ^ k) f 0"
        using ring_pos_inj [OF f(1), of "Suc c" 0] d room Suc by auto
      then have "ring_pos (2 ^ k) f d \<noteq> f" using f(1) Suc by simp
      moreover have "es ! ring_pos (2 ^ k) f (Suc c) = Some (e - of_nat (32 * Suc c), bl ! (length bl - 1 - c))"
        using ok d Suc by (simp add: slots_ok_def)
      moreover have "length bl - Suc c < length bl" using d Suc by simp
      ultimately show ?thesis unfolding pos using Suc d by (simp add: nth_append algebra_simps)
    qed
  qed
  moreover have "length (bl @ [b]) \<le> 2 ^ k" using room by simp
  ultimately show ?thesis using f by (simp add: slots_ok_def del: length_append)
qed

lemma slots_newest:
  assumes "slots_ok es k f e bl" "bl \<noteq> []"
  shows "es ! ring_pos (2 ^ k) f 1 = Some (e - 32, last bl)"
proof -
  have "0 < length bl" using assms(2) by simp
  with assms show ?thesis by (fastforce simp: slots_ok_def last_conv_nth)
qed

text \<open>Copying the ring to an array of twice the size.\<close>

lemma copy_slots_ok:
  assumes k: "k < 64" and f: "unat front < 2 ^ k"
  shows "0 < n \<Longrightarrow> n \<le> 2 ^ k \<Longrightarrow> unat i = ring_pos (2 ^ k) (unat front) n \<Longrightarrow>
    copy_slots es (2 ^ k - 1) i front = Some (map (\<lambda>j. es ! ring_pos (2 ^ k) (unat front) (n - j)) [0..<n])"
proof (induction n arbitrary: i)
  case (Suc n)
  let ?f = "unat front" and ?i = "(i + 1) AND (2 ^ k - 1)"
  have c: "(0 :: nat) < 2 ^ k" by simp
  have "unat i < 2 ^ k" using Suc.prems(3) by simp
  then have "unat i + 1 \<le> 2 ^ k" by simp
  moreover have "(2 :: nat) ^ k \<le> 2 ^ 63" using k by (intro power_increasing) simp_all
  ultimately have "unat (i + 1) = Suc (unat i)" by (simp add: unat_add_small [of i 1, simplified])
  then have ui: "unat ?i = Suc (unat i) mod 2 ^ k" using k by (simp add: unat_and_mask)
  have step: "unat ?i = ring_pos (2 ^ k) ?f n"
  proof -
    have "Suc (ring_pos (2 ^ k) ?f (Suc n)) mod 2 ^ k = (?f + 2 ^ k - Suc n + 1) mod 2 ^ k"
      by (simp add: ring_pos_def mod_Suc_eq)
    also have "?f + 2 ^ k - Suc n + 1 = ?f + 2 ^ k - n" using Suc.prems(2) by simp
    finally show ?thesis by (simp add: ui Suc.prems(3) ring_pos_def)
  qed
  have eq: "map (\<lambda>j. es ! ring_pos (2 ^ k) ?f (Suc n - j)) [0..<Suc n]
      = es ! unat i # map (\<lambda>j. es ! ring_pos (2 ^ k) ?f (n - j)) [0..<n]"
    by (simp add: upt_conv_Cons map_Suc_upt [symmetric] Suc.prems(3) del: upt_Suc)
  show ?case
  proof (cases "n = 0")
    case True
    with step f have "?i = front" by (simp add: word_unat_eq_iff)
    with True show ?thesis using Suc.prems(3) by (subst copy_slots.simps) simp
  next
    case False
    have "unat ?i \<noteq> ?f"
    proof
      assume "unat ?i = ?f"
      then have "ring_pos (2 ^ k) ?f n = ring_pos (2 ^ k) ?f 0" using step f by simp
      with False Suc.prems(2) ring_pos_inj [OF f, of n 0] show False by simp
    qed
    then have "?i \<noteq> front" by auto
    moreover have "copy_slots es (2 ^ k - 1) ?i front = Some (map (\<lambda>j. es ! ring_pos (2 ^ k) ?f (n - j)) [0..<n])"
      using Suc.IH [OF _ _ step] False Suc.prems(2) by simp
    ultimately show ?thesis by (subst copy_slots.simps) (simp add: eq del: upt_Suc)
  qed
qed simp

lemma slots_copied:
  assumes ok: "slots_ok es k f e bl"
  shows "slots_ok (map (\<lambda>j. es ! ring_pos (2 ^ k) f (length bl - j)) [0..<length bl] @ replicate (2 ^ Suc k - length bl) None)
    (Suc k) (length bl) e bl"
proof -
  have n: "length bl \<le> 2 ^ k" using ok by (simp add: slots_ok_def)
  have less: "length bl < 2 ^ Suc k"
    using n by (simp add: le_less_trans [OF n])
  have "ring_pos (2 ^ Suc k) (length bl) (Suc d) = length bl - Suc d" if "d < length bl" for d
    using that less by (subst ring_pos_eq) auto
  moreover have "d < length bl \<Longrightarrow> length bl - Suc d < length bl" for d by simp
  ultimately show ?thesis using ok less by (auto simp: slots_ok_def nth_append)
qed

section \<open>The index of a producer\<close>
text \<open>
  \<open>x_slots\<close>: what the producer relies on. \<open>x_exposed\<close>: the entry that the consumers start from is
  the newest one.
\<close>

definition x_slots :: "explicit_producer \<Rightarrow> u64 \<Rightarrow> nat list \<Rightarrow> bool" where
  "x_slots pr e bl \<longleftrightarrow>
     unat (pr_blockIndexSlotsUsed pr) = length bl \<and>
     (case x_blockIndex pr of
        [] \<Rightarrow> bl = [] \<and> (\<exists>k. pr_blockIndexSize pr = 2 ^ k \<and> 4 \<le> k \<and> k < 63)
      | h # hs \<Rightarrow> \<exists>k. pr_blockIndexSize pr = 2 ^ k \<and> xi_size h = 2 ^ k \<and> 4 < k \<and> k < 64 \<and>
          slots_ok (xi_entries h) k (unat (pr_blockIndexFront pr)) e bl)"

definition x_exposed :: "explicit_producer \<Rightarrow> bool" where
  "x_exposed pr \<longleftrightarrow> (\<forall>h. current_index pr = Some h \<longrightarrow> pr_blockIndexSlotsUsed pr \<noteq> 0 \<longrightarrow>
     unat (xi_front h) = ring_pos (unat (xi_size h)) (unat (pr_blockIndexFront pr)) 1)"

text \<open>The parts of a producer the block index does not touch.\<close>

definition x_same :: "explicit_producer \<Rightarrow> explicit_producer \<Rightarrow> bool" where
  "x_same pr pr' \<longleftrightarrow>
     x_tailIndex pr' = x_tailIndex pr \<and> x_headIndex pr' = x_headIndex pr \<and>
     x_dequeueOptimisticCount pr' = x_dequeueOptimisticCount pr \<and>
     x_dequeueOvercommit pr' = x_dequeueOvercommit pr \<and> x_tailBlock pr' = x_tailBlock pr \<and>
     pr_blockIndexSlotsUsed pr' = pr_blockIndexSlotsUsed pr"

lemma x_same_refl [simp]: "x_same pr pr"
  by (simp add: x_same_def)

lemma unat_push_bit_1: "k < 63 \<Longrightarrow> push_bit 1 (2 ^ k :: u64) = 2 ^ Suc k"
  by (simp add: push_bit_eq_mult)

lemma x_slots_power:
  assumes "x_slots pr e bl" "x_blockIndex pr = h # hs"
  obtains k where "pr_blockIndexSize pr = 2 ^ k" "xi_size h = 2 ^ k" "4 < k" "k < 64"
    "slots_ok (xi_entries h) k (unat (pr_blockIndexFront pr)) e bl" "unat (pr_blockIndexSlotsUsed pr) = length bl"
    "unat (pr_blockIndexSize pr) = 2 ^ k"
  using assms by (auto simp: x_slots_def)

lemma x_new_block_index_ok:
  fixes p :: "'a pool"
  assumes idx: "x_slots pr e bl" and full: "x_blockIndex pr = [] \<or> pr_blockIndexSlotsUsed pr = pr_blockIndexSize pr"
    and small: "32 * length bl < 2 ^ 63 + 32"
  shows "\<exists>pr'. x_new_block_index mok n pr p = Some (mok (mallocs p), pr', p\<lparr>mallocs := mallocs p + 1\<rparr>) \<and>
    x_same pr pr' \<and> x_slots pr' e bl \<and>
    (if mok (mallocs p) then pr_blockIndexFront pr' = of_nat (length bl) \<and> length bl < unat (pr_blockIndexSize pr') \<and>
       (\<exists>h. current_index pr' = Some h \<and> xi_front h = n - 1)
     else pr' = pr)"
proof (cases "x_blockIndex pr")
  case Nil
  with idx obtain k where k: "pr_blockIndexSize pr = 2 ^ k" "4 \<le> k" "k < 63" and bl: "bl = []" and used: "pr_blockIndexSlotsUsed pr = 0"
    by (auto simp: x_slots_def unat_eq_0)
  have p1: "push_bit 1 (2 ^ k :: u64) = 2 ^ Suc k" using k by (intro unat_push_bit_1) simp
  have p2: "drop_bit 1 (2 ^ Suc k :: u64) = 2 ^ k" using k by (intro drop_bit_1_power) simp
  have p3: "unat (2 ^ Suc k :: u64) = 2 ^ Suc k" using k by (intro unat_2_power) simp
  show ?thesis
  proof (cases "mok (mallocs p)")
    case False
    have same: "pr\<lparr>pr_blockIndexSize := 2 ^ k\<rparr> = pr" using k(1) by simp
    have "x_new_block_index mok n pr p = Some (False, pr\<lparr>pr_blockIndexSize := 2 ^ k\<rparr>, p\<lparr>mallocs := mallocs p + 1\<rparr>)"
      using False k by (simp add: x_new_block_index_def Let_def p1 p2 del: One_nat_def power_Suc)
    then show ?thesis unfolding same using False idx by simp
  next
    case True
    let ?h = "\<lparr>xi_size = 2 ^ Suc k, xi_front = n - 1, xi_entries = replicate (2 ^ Suc k) None\<rparr>"
    let ?pr = "pr\<lparr>pr_blockIndexSize := 2 ^ Suc k, pr_blockIndexFront := 0, x_blockIndex := [?h]\<rparr>"
    have "x_new_block_index mok n pr p = Some (True, ?pr, p\<lparr>mallocs := mallocs p + 1\<rparr>)"
      using True k used Nil p3 by (simp add: x_new_block_index_def Let_def p1 del: One_nat_def power_Suc)
    moreover have "x_slots ?pr e bl"
      using k used bl unfolding x_slots_def by (auto simp: slots_ok_def intro!: exI [of _ "Suc k"])
    ultimately show ?thesis using True bl p3 by (simp add: x_same_def current_index_def del: power_Suc)
  qed
next
  case (Cons h hs)
  from x_slots_power [OF idx Cons] obtain k where k: "pr_blockIndexSize pr = 2 ^ k" "xi_size h = 2 ^ k" "4 < k" "k < 64"
    and ok: "slots_ok (xi_entries h) k (unat (pr_blockIndexFront pr)) e bl" and used: "unat (pr_blockIndexSlotsUsed pr) = length bl"
    and size: "unat (pr_blockIndexSize pr) = 2 ^ k" .
  have n: "length bl = 2 ^ k" using full Cons used size by simp
  then have "(2 :: nat) ^ k < 2 ^ 59" using small by simp
  then have k59: "k < 59" using power_strict_increasing_iff [of "2 :: nat" k 59] by simp
  have f: "unat (pr_blockIndexFront pr) < 2 ^ k" using ok by (simp add: slots_ok_def)
  have nz: "pr_blockIndexSlotsUsed pr \<noteq> 0" using used n by auto
  have p1: "push_bit 1 (2 ^ k :: u64) = 2 ^ Suc k" using k59 by (intro unat_push_bit_1) simp
  have p2: "drop_bit 1 (2 ^ Suc k :: u64) = 2 ^ k" using k59 by (intro drop_bit_1_power) simp
  have p3: "unat (2 ^ Suc k :: u64) = 2 ^ Suc k" using k59 by (intro unat_2_power) simp
  have cur: "current_index pr = Some h" using Cons by (simp add: current_index_def)
  show ?thesis
  proof (cases "mok (mallocs p)")
    case False
    have same: "pr\<lparr>pr_blockIndexSize := 2 ^ k\<rparr> = pr" using k(1) by simp
    have "x_new_block_index mok n pr p = Some (False, pr\<lparr>pr_blockIndexSize := 2 ^ k\<rparr>, p\<lparr>mallocs := mallocs p + 1\<rparr>)"
      using False k nz by (simp add: x_new_block_index_def Let_def p1 p2 del: One_nat_def power_Suc)
    then show ?thesis unfolding same using False idx by simp
  next
    case True
    let ?es = "map (\<lambda>j. xi_entries h ! ring_pos (2 ^ k) (unat (pr_blockIndexFront pr)) (length bl - j)) [0..<length bl]"
    let ?g = "\<lparr>xi_size = 2 ^ Suc k, xi_front = n - 1, xi_entries = ?es @ replicate (2 ^ Suc k - length bl) None\<rparr>"
    let ?pr = "pr\<lparr>pr_blockIndexSize := 2 ^ Suc k, pr_blockIndexFront := of_nat (length bl), x_blockIndex := ?g # h # hs\<rparr>"
    have "of_nat (length bl) = pr_blockIndexSlotsUsed pr" by (simp flip: used)
    then have "unat ((pr_blockIndexFront pr - pr_blockIndexSlotsUsed pr) AND (2 ^ k - 1))
        = ring_pos (2 ^ k) (unat (pr_blockIndexFront pr)) (length bl)"
      using ring_pos_word [of k "pr_blockIndexFront pr" "length bl"] k f n by simp
    from copy_slots_ok [OF _ f _ _ this, of "xi_entries h"] k n
    have copy: "copy_slots (xi_entries h) (2 ^ k - 1)
        ((pr_blockIndexFront pr - pr_blockIndexSlotsUsed pr) AND (2 ^ k - 1)) (pr_blockIndexFront pr) = Some ?es" by simp
    have less: "length bl < 2 ^ Suc k" using n by simp
    have "x_new_block_index mok n pr p = Some (True, ?pr, p\<lparr>mallocs := mallocs p + 1\<rparr>)"
      using True nz cur copy less p3 Cons
      by (simp add: x_new_block_index_def Let_def p1 k(1) current_index_def del: One_nat_def power_Suc)
    moreover have "unat (of_nat (length bl) :: u64) = length bl"
      using n k59 power_strict_increasing [of k 64 "2 :: nat"] by (intro unat_of_nat_u64) simp
    then have "x_slots ?pr e bl"
      using slots_copied [OF ok] used k59 k(3) unfolding x_slots_def by (auto simp del: power_Suc intro!: exI [of _ "Suc k"])
    ultimately show ?thesis using True less p3 by (simp add: x_same_def current_index_def del: power_Suc)
  qed
qed

section \<open>The smallest power of two that is not smaller\<close>

lemma smear_step:
  assumes "\<forall>n. bit a n \<longleftrightarrow> (\<exists>i < c. bit x (n + i))"
  shows "\<forall>n. bit ((a :: u64) OR drop_bit c a) n \<longleftrightarrow> (\<exists>i < 2 * c. bit (x :: u64) (n + i))"
proof
  fix n
  have "(\<exists>i < 2 * c. bit x (n + i)) \<longleftrightarrow> (\<exists>i < c. bit x (n + i)) \<or> (\<exists>i < c. bit x (c + n + i))"
  proof (intro iffI; elim exE conjE disjE)
    fix i assume i: "i < 2 * c" "bit x (n + i)"
    then show "(\<exists>i < c. bit x (n + i)) \<or> (\<exists>i < c. bit x (c + n + i))"
    proof (cases "i < c")
      case False
      then have "bit x (c + n + (i - c))" "i - c < c" using i by (simp_all add: ac_simps)
      then show ?thesis by blast
    qed (use i in blast)
  next
    fix i assume "i < c" "bit x (n + i)"
    then show "\<exists>i < 2 * c. bit x (n + i)" by (intro exI [of _ i]) simp
  next
    fix i assume "i < c" "bit x (c + n + i)"
    then show "\<exists>i < 2 * c. bit x (n + i)" by (intro exI [of _ "c + i"]) (simp add: ac_simps)
  qed
  then show "bit (a OR drop_bit c a) n \<longleftrightarrow> (\<exists>i < 2 * c. bit x (n + i))"
    using assms by (simp add: bit_simps)
qed

lemma ceil_to_pow_2_power: "\<exists>k. k \<le> 64 \<and> ceil_to_pow_2 x = 2 ^ k"
proof -
  let ?y = "x - 1"
  define w where "w = (let x = ?y; x = x OR drop_bit 1 x; x = x OR drop_bit 2 x; x = x OR drop_bit 4 x;
    x = x OR drop_bit 8 x; x = x OR drop_bit 16 x in x OR drop_bit 32 x)"
  have s0: "\<forall>n. bit ?y n \<longleftrightarrow> (\<exists>i < 1. bit ?y (n + i))" by simp
  note s1 = smear_step [OF s0, simplified] note s2 = smear_step [OF s1, simplified]
  note s3 = smear_step [OF s2, simplified] note s4 = smear_step [OF s3, simplified]
  note s5 = smear_step [OF s4, simplified] note s6 = smear_step [OF s5, simplified]
  have w: "bit w n \<longleftrightarrow> (\<exists>i < 64. bit ?y (n + i))" for n
    using s6 unfolding w_def Let_def by simp
  have eq: "ceil_to_pow_2 x = w + 1" by (simp add: ceil_to_pow_2_def w_def Let_def)
  show ?thesis
  proof (cases "?y = 0")
    case True
    then have "w = 0" by (intro bit_word_eqI) (simp add: w)
    then show ?thesis unfolding eq by (intro exI [of _ 0]) simp
  next
    case False
    define m where "m = Max {n. bit ?y n}"
    have fin: "finite {n. bit ?y n}"
      by (rule finite_subset [of _ "{..< 64}"]) (auto dest: bit_imp_le_length)
    moreover have "{n. bit ?y n} \<noteq> {}" using False by (auto simp: bit_eq_iff)
    ultimately have m: "bit ?y m" "\<And>n. bit ?y n \<Longrightarrow> n \<le> m" using Max_in Max_ge unfolding m_def by blast+
    have m64: "m < 64" using bit_imp_le_length [OF m(1)] by simp
    have "bit w n \<longleftrightarrow> n < Suc m" for n
    proof
      assume "bit w n"
      then show "n < Suc m" using w m(2) by fastforce
    next
      assume "n < Suc m"
      then show "bit w n" unfolding w using m(1) m64 by (intro exI [of _ "m - n"]) simp
    qed
    then have "w = mask (Suc m)" by (intro bit_word_eqI) (simp add: bit_mask_iff)
    then show ?thesis unfolding eq using m64 by (intro exI [of _ "Suc m"]) (simp add: mask_eq_exp_minus_1)
  qed
qed


lemma pow2_half: "k \<le> 64 \<Longrightarrow> drop_bit 1 (2 ^ k :: u64) = 0 \<or> (\<exists>j < 63. drop_bit 1 (2 ^ k :: u64) = 2 ^ j)"
proof (cases k)
  case (Suc j)
  assume "k \<le> 64"
  then consider "j < 63" | "k = 64" using Suc by linarith
  then show ?thesis
  proof cases
    case 1
    then show ?thesis using drop_bit_1_power [of j] Suc by auto
  qed simp
qed simp

end
