(* ===== verification/Cq_Explicit_Ok.thy ===== *)
theory Cq_Explicit_Ok
  imports Cq_Explicit_Index
begin

text \<open>
  The invariant of an explicit sub-queue, and what enqueue and dequeue do to the elements it holds. From a well-formed
  state no operation reads a missing block or an unwritten slot, or fails an \<open>assert\<close>, whatever
  allocations fail; indices may wrap around. The limit on the length is what the wrap-around comparison of the
  indices can tell apart.
\<close>

text \<open>Both depend on the index only.\<close>

lemma x_slots_cong:
  assumes a: "x_blockIndex pr' = x_blockIndex pr" "pr_blockIndexSlotsUsed pr' = pr_blockIndexSlotsUsed pr"
    "pr_blockIndexSize pr' = pr_blockIndexSize pr" "pr_blockIndexFront pr' = pr_blockIndexFront pr"
  shows "x_slots pr' e bl = x_slots pr e bl" "x_exposed pr' = x_exposed pr"
  unfolding x_slots_def x_exposed_def current_index_def a by simp_all

lemma x_slots_updates [simp]:
  "x_slots (pr\<lparr>x_tailIndex := i\<rparr>) e bl = x_slots pr e bl" "x_exposed (pr\<lparr>x_tailIndex := i\<rparr>) = x_exposed pr"
  "x_slots (pr\<lparr>x_headIndex := i\<rparr>) e bl = x_slots pr e bl" "x_exposed (pr\<lparr>x_headIndex := i\<rparr>) = x_exposed pr"
  "x_slots (pr\<lparr>x_dequeueOptimisticCount := i\<rparr>) e bl = x_slots pr e bl"
  "x_exposed (pr\<lparr>x_dequeueOptimisticCount := i\<rparr>) = x_exposed pr"
  "x_slots (pr\<lparr>x_tailBlock := t\<rparr>) e bl = x_slots pr e bl" "x_exposed (pr\<lparr>x_tailBlock := t\<rparr>) = x_exposed pr"
  by (rule x_slots_cong; simp)+

section \<open>The invariant of an explicit sub-queue\<close>

text \<open>
  \<open>bl\<close> lists the blocks of the ring from the one behind the tail block to the tail block; \<open>h\<close> is the
  position of the head, counted from the first slot of the ring, so the elements \<open>xs\<close> are at
  the positions from \<open>h\<close> on. A slot is flagged empty when it is before the head.
\<close>

definition x_block_ok :: "(nat \<rightharpoonup> 'a block) \<Rightarrow> nat list \<Rightarrow> nat \<Rightarrow> nat \<Rightarrow> bool" where
  "x_block_ok hp bl h i \<longleftrightarrow>
     (\<exists>x. hp (bl ! i) = Some x \<and> next_block x = Some (bl ! (Suc i mod length bl)) \<and>
        length (emptyFlags x) = 32 \<and> (\<forall>s < 32. emptyFlags x ! (31 - s) \<longleftrightarrow> 32 * i + s < h))"

definition x_blocks_ok :: "(nat \<rightharpoonup> 'a block) \<Rightarrow> nat list \<Rightarrow> nat \<Rightarrow> 'a list \<Rightarrow> bool" where
  "x_blocks_ok hp bl h xs \<longleftrightarrow>
     (\<forall>i < length bl. x_block_ok hp bl h i) \<and> (\<forall>i < length xs. element_at hp bl (h + i) (xs ! i))"

definition x_core :: "(nat \<rightharpoonup> 'a block) \<Rightarrow> explicit_producer \<Rightarrow> nat list \<Rightarrow> nat \<Rightarrow> u64 \<Rightarrow> 'a list \<Rightarrow> bool" where
  "x_core hp pr bl h e xs \<longleftrightarrow>
     slot_of e = 0 \<and> x_headIndex pr = e - of_nat (32 * length bl) + of_nat h \<and>
     x_tailIndex pr = x_headIndex pr + of_nat (length xs) \<and>
     x_dequeueOptimisticCount pr - x_dequeueOvercommit pr = x_headIndex pr \<and>
     h + length xs \<le> 32 * length bl \<and> 32 * length bl < 2 ^ 63 + 32 \<and> length xs < 2 ^ 63 \<and>
     distinct bl \<and> x_tailBlock pr = (if bl = [] then None else Some (last bl)) \<and>
     x_slots pr e bl \<and> x_exposed pr \<and> x_blocks_ok hp bl h xs"

definition x_ok :: "(nat \<rightharpoonup> 'a block) \<Rightarrow> explicit_producer \<Rightarrow> nat list \<Rightarrow> nat \<Rightarrow> u64 \<Rightarrow> 'a list \<Rightarrow> bool" where
  "x_ok hp pr bl h e xs \<longleftrightarrow> x_core hp pr bl h e xs \<and> 32 * length bl < h + length xs + 32"

definition explicit_queue ::
  "nat set \<Rightarrow> explicit_producer \<Rightarrow> 'a pool \<Rightarrow> nat list \<Rightarrow> nat \<Rightarrow> u64 \<Rightarrow> 'a list \<Rightarrow> bool" where
  "explicit_queue others pr p bl h e xs \<longleftrightarrow>
     x_ok (heap p) pr bl h e xs \<and> set bl \<inter> others = {} \<and> pool_inv p (others \<union> set bl)"

lemma x_core_cong:
  assumes q: "x_core hp pr bl h e xs" and "\<forall>b \<in> set bl. hp' b = hp b"
  shows "x_core hp' pr bl h e xs"
proof -
  have "(h + i) div 32 < length bl" if "i < length xs" for i
    using q that by (auto simp: x_core_def intro!: less_mult_imp_div_less)
  with assms show ?thesis by (simp add: x_core_def x_blocks_ok_def x_block_ok_def element_at_def)
qed

lemma x_same_trans: "x_same a b \<Longrightarrow> x_same b c \<Longrightarrow> x_same a c"
  by (simp add: x_same_def)

lemma x_core_same:
  assumes "x_core hp pr bl h e xs" "x_same pr pr'" "x_slots pr' e bl" "x_exposed pr'"
  shows "x_core hp pr' bl h e xs"
  using assms by (simp add: x_core_def x_same_def)

lemma x_tail_position:
  assumes "x_core hp pr bl h e xs"
  shows "slot_of (x_tailIndex pr) = (h + length xs) mod 32" "slot_of (x_headIndex pr) = h mod 32"
    "x_tailIndex pr = e - of_nat (32 * length bl) + of_nat (h + length xs)"
    "unat (x_tailIndex pr - x_headIndex pr) = length xs"
proof -
  let ?s = "e - of_nat (32 * length bl)"
  have "slot_of (?s + of_nat (32 * length bl)) = (slot_of ?s + 32 * length bl) mod 32" by (rule slot_of_add)
  then have "slot_of ?s mod 32 = 0" using assms by (simp add: x_core_def mod_simps)
  then have s: "slot_of ?s = 0" using slot_of_less [of ?s] by simp
  show t: "x_tailIndex pr = ?s + of_nat (h + length xs)" using assms by (simp add: x_core_def)
  show "slot_of (x_tailIndex pr) = (h + length xs) mod 32" unfolding t slot_of_add s by simp
  have "x_headIndex pr = ?s + of_nat h" using assms by (simp add: x_core_def)
  then show "slot_of (x_headIndex pr) = h mod 32" by (simp only: slot_of_add s) simp
  show "unat (x_tailIndex pr - x_headIndex pr) = length xs" using assms by (simp add: x_core_def unat_of_nat_u64)
qed

lemma x_tests:
  assumes q: "x_core hp pr bl h e xs"
  shows "circular_less_than (x_dequeueOptimisticCount pr - x_dequeueOvercommit pr) (x_tailIndex pr) \<longleftrightarrow> xs \<noteq> []"
proof -
  have "unat (x_tailIndex pr - x_headIndex pr) = length xs" "length xs < 2 ^ 63"
    using x_tail_position(4) [OF q] q by (simp_all add: x_core_def)
  moreover have "x_dequeueOptimisticCount pr - x_dequeueOvercommit pr = x_headIndex pr"
    using q by (simp add: x_core_def)
  moreover have "x_headIndex pr = x_tailIndex pr \<longleftrightarrow> xs = []"
    using calculation(1) by auto (use q in \<open>simp add: x_core_def\<close>)
  ultimately show ?thesis by (simp add: circular_less_than_iff)
qed

lemma pool_read:
  assumes "pool_inv p used" "b \<in> used"
  obtains x where "heap p b = Some x" "freeListRefs x = 0" "length (elements x) = 32"
  using assms by (auto simp: pool_inv_def elim: pool_ok_used)

lemma pool_write:
  assumes "pool_inv p used" "b \<in> used" "heap p b = Some x"
    "length (elements y) = 32" "freeListRefs y = 0" "dynamicallyAllocated y = dynamicallyAllocated x"
  shows "pool_inv (put_block b y p) used"
  using assms pool_ok_put_block [of p used _ b y] by (auto simp: pool_inv_def)

section \<open>Writing an element\<close>

lemma x_put_at:
  assumes q: "x_core (heap p) pr bl h e xs" and inv: "pool_inv p used" and sub: "set bl \<subseteq> used"
    and room: "h + length xs < 32 * length bl" and small: "Suc (length xs) < 2 ^ 63"
    and b: "b = bl ! ((h + length xs) div 32)"
  shows "\<exists>p'. put_element b (x_tailIndex pr) v p = Some p' \<and> pool_inv p' used \<and>
    x_core (heap p') (pr\<lparr>x_tailIndex := 1 + x_tailIndex pr\<rparr>) bl h e (xs @ [v]) \<and>
    (\<forall>a. a \<noteq> b \<longrightarrow> heap p' a = heap p a)"
proof -
  let ?n = "length xs"
  have j: "(h + ?n) div 32 < length bl" using room by (intro less_mult_imp_div_less) simp
  then have bu: "b \<in> used" using sub b by auto
  from pool_read [OF inv bu] obtain x where x: "heap p b = Some x" "freeListRefs x = 0" "length (elements x) = 32" .
  let ?x = "x\<lparr>elements := (elements x)[slot_of (x_tailIndex pr) := Some v]\<rparr>"
  let ?p = "put_block b ?x p" and ?pr = "pr\<lparr>x_tailIndex := 1 + x_tailIndex pr\<rparr>"
  have slot: "slot_of (x_tailIndex pr) = (h + ?n) mod 32" by (rule x_tail_position(1) [OF q])
  have dist: "distinct bl" using q by (simp add: x_core_def)
  have "element_at (heap ?p) bl (h + i) ((xs @ [v]) ! i)" if "i < Suc ?n" for i
  proof (cases "i = ?n")
    case True
    then show ?thesis using x(3) slot by (simp add: element_at_def b)
  next
    case False
    then have i: "i < ?n" using that by simp
    then have old: "element_at (heap p) bl (h + i) (xs ! i)" using q by (simp add: x_core_def x_blocks_ok_def)
    have "(h + i) mod 32 \<noteq> (h + ?n) mod 32" if "(h + i) div 32 = (h + ?n) div 32"
      using that i by (metis add_left_cancel div_mult_mod_eq less_irrefl)
    moreover have "(h + i) div 32 = (h + ?n) div 32" if "bl ! ((h + i) div 32) = b"
    proof -
      have "(h + i) div 32 < length bl" using i room by (intro less_mult_imp_div_less) simp
      then show ?thesis using that dist j unfolding b by (simp add: nth_eq_iff_index_eq)
    qed
    ultimately show ?thesis using old i x by (auto simp: element_at_def nth_append slot)
  qed
  moreover have "x_block_ok (heap ?p) bl h i" if "x_block_ok (heap p) bl h i" for i
    using that x(1) by (auto simp: x_block_ok_def)
  moreover have "x_slots ?pr e bl" "x_exposed ?pr"
    using q by (simp_all add: x_core_def)
  moreover have "1 + x_tailIndex pr = x_headIndex pr + of_nat (Suc ?n)"
    using q by (simp add: x_core_def algebra_simps)
  ultimately have "x_core (heap ?p) ?pr bl h e (xs @ [v])"
    using q room small by (simp add: x_core_def x_blocks_ok_def)
  moreover have "pool_inv ?p used" using pool_write [OF inv bu x(1), of ?x] x by simp
  ultimately show ?thesis using x by (simp add: put_element_def)
qed

lemma x_put:
  assumes q: "x_core (heap p) pr bl h e xs" and inv: "pool_inv p used" and sub: "set bl \<subseteq> used"
    and last_block: "32 * length bl < h + length xs + 33" and room: "h + length xs < 32 * length bl"
    and small: "Suc (length xs) < 2 ^ 63"
  shows "\<exists>p'. put_element (last bl) (x_tailIndex pr) v p = Some p' \<and> pool_inv p' used \<and>
    x_ok (heap p') (pr\<lparr>x_tailIndex := 1 + x_tailIndex pr\<rparr>) bl h e (xs @ [v]) \<and>
    (\<forall>a. a \<noteq> last bl \<longrightarrow> heap p' a = heap p a)"
proof -
  have "(h + length xs) div 32 = length bl - 1" using room last_block by (intro last_block_index) simp_all
  moreover have "bl \<noteq> []" using room by auto
  ultimately have "last bl = bl ! ((h + length xs) div 32)" by (simp add: last_conv_nth)
  from x_put_at [OF q inv sub room small this, of v] last_block show ?thesis by (fastforce simp: x_ok_def)
qed

section \<open>Starting a block\<close>

lemma x_store_slot:
  assumes idx: "x_slots pr0 e bl0" "x_blockIndex pr0 = h # hs" and sub: "bl = drop m bl0" "length bl < unat (pr_blockIndexSize pr0)"
    and pr: "x_blockIndex pr = h # hs" "pr_blockIndexSize pr = pr_blockIndexSize pr0"
      "pr_blockIndexFront pr = pr_blockIndexFront pr0" "unat (pr_blockIndexSlotsUsed pr) = Suc (length bl)"
  shows "\<exists>g k. store_slot e b pr = Some (pr\<lparr>x_blockIndex := g # hs\<rparr>) \<and>
    xi_size g = 2 ^ k \<and> pr_blockIndexSize pr = 2 ^ k \<and> k < 64 \<and> unat (pr_blockIndexFront pr) < 2 ^ k \<and>
    unat (next_front pr) = Suc (unat (pr_blockIndexFront pr)) mod 2 ^ k \<and>
    (\<forall>w. x_slots (pr\<lparr>x_blockIndex := g\<lparr>xi_front := w\<rparr> # hs, pr_blockIndexFront := next_front pr\<rparr>) (e + 32) (bl @ [b]))"
proof -
  let ?f = "unat (pr_blockIndexFront pr)"
  from x_slots_power [OF idx] obtain k where k: "pr_blockIndexSize pr0 = 2 ^ k" "xi_size h = 2 ^ k" "4 < k" "k < 64"
    "slots_ok (xi_entries h) k ?f e bl0" "unat (pr_blockIndexSize pr0) = 2 ^ k" unfolding pr(3) .
  from slots_ok_drop [OF k(5)] have ok: "slots_ok (xi_entries h) k ?f e bl" unfolding sub(1) .
  have less: "length bl < 2 ^ k" using sub(2) k(6) by simp
  have f: "?f < 2 ^ k" "length (xi_entries h) = 2 ^ k" using ok by (simp_all add: slots_ok_def)
  let ?h = "h\<lparr>xi_entries := (xi_entries h)[?f := Some (e, b)]\<rparr>"
  have "?f + 1 \<le> 2 ^ k" using f by simp
  moreover have "(2 :: nat) ^ k \<le> 2 ^ 63" using k by (intro power_increasing) simp_all
  ultimately have "unat (pr_blockIndexFront pr + 1) = Suc ?f"
    by (simp add: unat_add_small [of "pr_blockIndexFront pr" 1, simplified])
  then have next_f: "unat (next_front pr) = Suc ?f mod 2 ^ k"
    using k by (simp add: next_front_def pr(2) unat_and_mask)
  have "x_slots (pr\<lparr>x_blockIndex := ?h\<lparr>xi_front := w\<rparr> # hs, pr_blockIndexFront := next_front pr\<rparr>) (e + 32) (bl @ [b])" for w
    using slots_push [OF ok less, of b] k pr(2,4) next_f unfolding x_slots_def by auto
  moreover have "store_slot e b pr = Some (pr\<lparr>x_blockIndex := ?h # hs\<rparr>)" using f pr(1) by (simp add: store_slot_def)
  ultimately show ?thesis using k(1,2,4) f(1) next_f pr(2) by (intro exI [of _ ?h] exI [of _ k]) simp
qed

lemma x_store:
  assumes idx: "x_slots pr0 e bl0" "x_blockIndex pr0 = h # hs" and sub: "bl = drop m bl0" "length bl < unat (pr_blockIndexSize pr0)"
    and pr: "x_blockIndex pr = h # hs" "pr_blockIndexSize pr = pr_blockIndexSize pr0"
      "pr_blockIndexFront pr = pr_blockIndexFront pr0" "unat (pr_blockIndexSlotsUsed pr) = Suc (length bl)" "x_tailBlock pr = Some b"
  shows "\<exists>pr'. index_tail_block e pr = Some pr' \<and> x_same pr pr' \<and> x_slots pr' (e + 32) (bl @ [b]) \<and> x_exposed pr'"
proof -
  let ?f = "unat (pr_blockIndexFront pr)"
  from x_store_slot [OF idx sub pr(1-4), of b] obtain g k where g: "store_slot e b pr = Some (pr\<lparr>x_blockIndex := g # hs\<rparr>)"
    "xi_size g = 2 ^ k" "k < 64" "?f < 2 ^ k" "unat (next_front pr) = Suc ?f mod 2 ^ k"
    "\<And>w. x_slots (pr\<lparr>x_blockIndex := g\<lparr>xi_front := w\<rparr> # hs, pr_blockIndexFront := next_front pr\<rparr>) (e + 32) (bl @ [b])" by blast
  let ?pr = "pr\<lparr>x_blockIndex := g\<lparr>xi_front := pr_blockIndexFront pr\<rparr> # hs, pr_blockIndexFront := next_front pr\<rparr>"
  have "unat (2 ^ k :: u64) = 2 ^ k" using g(3) by (intro unat_2_power) simp
  then have "x_exposed ?pr"
    using g(2-5) ring_pos_turn [of ?f "2 ^ k" 0] by (simp add: x_exposed_def current_index_def)
  with g(1) g(6) [of "pr_blockIndexFront pr"] pr(5) show ?thesis
    by (simp add: index_tail_block_def expose_front_def Let_def next_front_def x_same_def)
qed

text \<open>The ring turns by one block, which is the tail block then.\<close>

lemma x_turn:
  assumes bl: "x_blocks_ok (heap p) bl h xs" "distinct bl" "bl \<noteq> []" and h: "32 \<le> h" "h + length xs \<le> 32 * length bl"
    and inv: "pool_inv p used" and sub: "set bl \<subseteq> used"
  shows "\<exists>p'. x_reset_empty (hd bl) p = Some p' \<and> pool_inv p' used \<and>
    x_blocks_ok (heap p') (rotate1 bl) (h - 32) xs \<and> (\<forall>a. a \<noteq> hd bl \<longrightarrow> heap p' a = heap p a)"
proof -
  let ?n = "length bl"
  have b: "hd bl \<in> used" "hd bl = bl ! 0" "0 < ?n" using bl(3) sub by (auto simp: hd_conv_nth)
  from pool_read [OF inv b(1)] obtain x where x: "heap p (hd bl) = Some x" "freeListRefs x = 0" "length (elements x) = 32" .
  let ?p = "put_block (hd bl) (x\<lparr>emptyFlags := replicate 32 False\<rparr>) p"
  have old: "x_block_ok (heap p) bl h i" if "i < ?n" for i using bl(1) that by (simp add: x_blocks_ok_def)
  have same: "heap ?p (bl ! i) = heap p (bl ! i)" if "i < ?n" "0 < i" for i
    using that bl(2) b nth_eq_iff_index_eq [of bl i 0] by simp
  have "x_block_ok (heap ?p) (rotate1 bl) (h - 32) i" if i: "i < ?n" for i
  proof (cases "Suc i = ?n")
    case True
    have "next_block x = Some (bl ! (1 mod ?n))" using old [of 0] b x by (simp add: x_block_ok_def)
    moreover have "rotate1 bl ! i = hd bl" "rotate1 bl ! 0 = bl ! (1 mod ?n)" "Suc i mod ?n = 0"
      using True b i by (simp_all add: nth_rotate1)
    moreover have "\<not> 32 * i + s < h - 32" for s using True h(2) by simp
    ultimately show ?thesis by (simp add: x_block_ok_def)
  next
    case False
    with i have s: "Suc i < ?n" by simp
    moreover have "32 * i + j < h - 32 \<longleftrightarrow> 32 * Suc i + j < h" for j using h by auto
    ultimately show ?thesis
      using old [of "Suc i"] same [of "Suc i"] b by (simp add: x_block_ok_def nth_rotate1)
  qed
  moreover have "element_at (heap ?p) (rotate1 bl) (h - 32 + i) (xs ! i)" if i: "i < length xs" for i
  proof -
    let ?d = "(h - 32 + i) div 32"
    from h(1) obtain c where "h = 32 + c" using le_Suc_ex by blast
    then have e: "(h + i) div 32 = Suc ?d" "(h + i) mod 32 = (h - 32 + i) mod 32"
      by (simp_all add: add.assoc)
    moreover have "(h + i) div 32 < ?n" using i h by (intro less_mult_imp_div_less) simp
    moreover have "element_at (heap p) bl (h + i) (xs ! i)" using bl(1) i by (simp add: x_blocks_ok_def)
    ultimately show ?thesis using same [of "Suc ?d"] by (simp add: element_at_def nth_rotate1)
  qed
  ultimately have "x_blocks_ok (heap ?p) (rotate1 bl) (h - 32) xs" by (simp add: x_blocks_ok_def)
  moreover have "pool_inv ?p used" using pool_write [OF inv b(1) x(1)] x by simp
  ultimately show ?thesis using x by (simp add: x_reset_empty_def)
qed

text \<open>
  A new block is inserted behind the tail block. \<open>F i s\<close> says whether slot \<open>s\<close> of block \<open>i\<close> is flagged empty;
  all the flags of the new block are \<open>v\<close>.
\<close>

definition x_ring :: "(nat \<rightharpoonup> 'a block) \<Rightarrow> nat list \<Rightarrow> (nat \<Rightarrow> nat \<Rightarrow> bool) \<Rightarrow> bool" where
  "x_ring hp bl F \<longleftrightarrow>
     (\<forall>i < length bl. \<exists>x. hp (bl ! i) = Some x \<and> next_block x = Some (bl ! (Suc i mod length bl)) \<and>
        length (emptyFlags x) = 32 \<and> (\<forall>s < 32. emptyFlags x ! (31 - s) \<longleftrightarrow> F i s))"

lemma x_blocks_ok_ring:
  "x_blocks_ok hp bl h xs \<longleftrightarrow> x_ring hp bl (\<lambda>i s. 32 * i + s < h) \<and> (\<forall>i < length xs. element_at hp bl (h + i) (xs ! i))"
  by (simp add: x_blocks_ok_def x_block_ok_def x_ring_def)

lemma x_ring_cong:
  assumes "\<And>i s. i < length bl \<Longrightarrow> s < 32 \<Longrightarrow> F i s = G i s"
  shows "x_ring hp bl F = x_ring hp bl G"
  using assms by (auto simp: x_ring_def)

lemma element_at_cong: "map_option elements (hp' (bl ! (i div 32))) = map_option elements (hp (bl ! (i div 32))) \<Longrightarrow>
    element_at hp' bl i v = element_at hp bl i v"
  by (cases "hp (bl ! (i div 32))"; cases "hp' (bl ! (i div 32))") (simp_all add: element_at_def)

lemma x_link_ring:
  assumes ring: "x_ring (heap p) bl F" "distinct bl" and inv: "pool_inv p used" and sub: "set bl \<subseteq> used" "b \<in> used" "b \<notin> set bl"
    and x: "heap p b = Some x" "emptyFlags x = replicate 32 v"
  shows "\<exists>p'. link_block b (if bl = [] then None else Some (last bl)) p = Some p' \<and> pool_inv p' used \<and>
    x_ring (heap p') (bl @ [b]) (\<lambda>i s. if i = length bl then v else F i s) \<and>
    (\<forall>a. map_option elements (heap p' a) = map_option elements (heap p a)) \<and> (\<forall>a. a \<notin> insert b (set bl) \<longrightarrow> heap p' a = heap p a)"
proof -
  let ?n = "length bl"
  from pool_read [OF inv sub(2)] x have x2: "freeListRefs x = 0" "length (elements x) = 32" by auto
  show ?thesis
  proof (cases "bl = []")
    case True
    let ?p = "put_block b (x\<lparr>next_block := Some b\<rparr>) p"
    have "link_block b None p = Some ?p" using x by (simp add: link_block_def set_next_def)
    moreover have "pool_inv ?p used" using pool_write [OF inv sub(2) x(1)] x2 by simp
    moreover have "x_ring (heap ?p) [b] (\<lambda>i s. v)" using x(2) by (simp add: x_ring_def)
    ultimately show ?thesis using True x by (auto simp: x_ring_def)
  next
    case False
    then have l: "last bl \<in> used" "last bl \<noteq> b" "last bl = bl ! (?n - 1)" "0 < ?n" "hd bl = bl ! 0"
      using sub by (auto simp: last_conv_nth hd_conv_nth)
    have "?n - 1 < ?n" using l(4) by simp
    then have "\<exists>t. heap p (last bl) = Some t \<and> next_block t = Some (bl ! (Suc (?n - 1) mod ?n)) \<and> length (emptyFlags t) = 32 \<and>
        (\<forall>s < 32. emptyFlags t ! (31 - s) \<longleftrightarrow> F (?n - 1) s)"
      using ring(1) unfolding x_ring_def l(3) by blast
    then obtain t where t: "heap p (last bl) = Some t" "next_block t = Some (hd bl)" "length (emptyFlags t) = 32"
      "\<forall>s < 32. emptyFlags t ! (31 - s) \<longleftrightarrow> F (?n - 1) s" using l(4,5) by auto
    from pool_read [OF inv l(1)] t have t2: "freeListRefs t = 0" "length (elements t) = 32" by auto
    let ?p2 = "put_block b (x\<lparr>next_block := Some (hd bl)\<rparr>) p"
    let ?p = "put_block (last bl) (t\<lparr>next_block := Some b\<rparr>) ?p2"
    have "link_block b (Some (last bl)) p = Some ?p"
      using t l x by (simp add: link_block_def set_next_def get_next_def)
    moreover have "pool_inv ?p2 used" using pool_write [OF inv sub(2) x(1)] x2 by simp
    then have "pool_inv ?p used" using l t t2 by (intro pool_write [OF _ l(1), of _ t]) simp_all
    moreover have "x_ring (heap ?p) (bl @ [b]) (\<lambda>i s. if i = ?n then v else F i s)" unfolding x_ring_def
    proof (intro allI impI)
      fix i assume "i < length (bl @ [b])"
      then consider "i = ?n" | "Suc i = ?n" | "Suc i < ?n" by force
      then show "\<exists>y. heap ?p ((bl @ [b]) ! i) = Some y \<and> next_block y = Some ((bl @ [b]) ! (Suc i mod length (bl @ [b]))) \<and>
        length (emptyFlags y) = 32 \<and> (\<forall>s < 32. emptyFlags y ! (31 - s) \<longleftrightarrow> (if i = ?n then v else F i s))"
      proof cases
        case 1
        then show ?thesis using l x by (simp add: nth_append)
      next
        case 2
        then have i: "?n - 1 = i" "i \<noteq> ?n" "i < ?n" by simp_all
        then have "(bl @ [b]) ! i = last bl" "(bl @ [b]) ! (Suc i mod length (bl @ [b])) = b"
          using l(3) 2 by (simp_all add: nth_append)
        then show ?thesis using t(3,4) i(1,2) l(2) by simp
      next
        case 3
        then have "bl ! i \<noteq> last bl" "bl ! i \<noteq> b"
          using ring(2) l sub nth_mem [of i bl] by (auto simp: nth_eq_iff_index_eq)
        moreover have "\<exists>y. heap p (bl ! i) = Some y \<and> next_block y = Some (bl ! (Suc i mod ?n)) \<and> length (emptyFlags y) = 32 \<and>
          (\<forall>s < 32. emptyFlags y ! (31 - s) \<longleftrightarrow> F i s)" 
          using ring(1) [unfolded x_ring_def, rule_format, of i] 3 by simp
        ultimately show ?thesis using 3 by (simp add: nth_append)
      qed
    qed
    ultimately show ?thesis using False x t by auto
  qed
qed

lemma x_insert:
  assumes bl: "x_blocks_ok (heap p) bl h xs" "distinct bl" and h: "h + length xs \<le> 32 * length bl"
    and inv: "pool_inv p used" and sub: "set bl \<subseteq> used" "b \<in> used" "b \<notin> set bl"
  shows "\<exists>p1 p'. x_reset_empty b p = Some p1 \<and>
    link_block b (if bl = [] then None else Some (last bl)) p1 = Some p' \<and> pool_inv p' used \<and>
    x_blocks_ok (heap p') (bl @ [b]) h xs \<and> (\<forall>a. a \<notin> insert b (set bl) \<longrightarrow> heap p' a = heap p a)"
proof -
  from pool_read [OF inv sub(2)] obtain x where x: "heap p b = Some x" "freeListRefs x = 0" "length (elements x) = 32" .
  let ?p1 = "put_block b (x\<lparr>emptyFlags := replicate 32 False\<rparr>) p"
  have inv1: "pool_inv ?p1 used" using pool_write [OF inv sub(2) x(1)] x by simp
  have "bl ! i \<noteq> b" if "i < length bl" for i using that sub(3) nth_mem by metis
  then have "x_ring (heap ?p1) bl (\<lambda>i s. 32 * i + s < h)" using bl(1) by (simp add: x_blocks_ok_ring x_ring_def)
  from x_link_ring [OF this bl(2) inv1 sub, of _ False] obtain p' where
    p': "link_block b (if bl = [] then None else Some (last bl)) ?p1 = Some p'" "pool_inv p' used"
    "x_ring (heap p') (bl @ [b]) (\<lambda>i s. if i = length bl then False else 32 * i + s < h)"
    "\<forall>a. map_option elements (heap p' a) = map_option elements (heap ?p1 a)" "\<forall>a. a \<notin> insert b (set bl) \<longrightarrow> heap p' a = heap ?p1 a"
    by auto
  have "x_ring (heap p') (bl @ [b]) (\<lambda>i s. 32 * i + s < h)"
    using p'(3) h by (subst x_ring_cong [where G = "\<lambda>i s. if i = length bl then False else 32 * i + s < h"]) auto
  moreover have "element_at (heap p') (bl @ [b]) (h + i) (xs ! i)" if i: "i < length xs" for i
  proof -
    have d: "(h + i) div 32 < length bl" using i h by (intro less_mult_imp_div_less) simp
    have "map_option elements (heap p' a) = map_option elements (heap p a)" for a using p'(4) x by simp
    then have "element_at (heap p') (bl @ [b]) (h + i) v = element_at (heap p) (bl @ [b]) (h + i) v" for v
      by (rule element_at_cong)
    then show ?thesis using bl(1) i d by (simp add: x_blocks_ok_def element_at_def nth_append)
  qed
  moreover have "x_reset_empty b p = Some ?p1" using x by (simp add: x_reset_empty_def)
  ultimately show ?thesis using p'(1,2,5) by (auto simp: x_blocks_ok_ring)
qed

lemma x_end_index:
  assumes core: "x_core hp pr bl h e xs" and full: "h + length xs = 32 * length bl"
  shows "x_tailIndex pr = e" "\<not> circular_less_than e (x_headIndex pr)"
    "x_limit e pr \<longleftrightarrow> \<not> length xs + 32 < 2 ^ 63"
proof -
  let ?n = "length xs"
  have small: "?n < 2 ^ 63" and tail: "x_tailIndex pr = x_headIndex pr + of_nat ?n" using core by (simp_all add: x_core_def)
  show t: "x_tailIndex pr = e" using x_tail_position(3) [OF core] full by (simp del: of_nat_mult of_nat_add)
  have n: "unat (e - x_headIndex pr) = ?n" using x_tail_position(4) [OF core] t by simp
  then show "\<not> circular_less_than e (x_headIndex pr)" using small by (simp add: circular_less_than_unat)
  have "e + BLOCK_SIZE - x_headIndex pr = of_nat (?n + 32)"
    unfolding t [symmetric] tail BLOCK_SIZE_def by simp
  moreover have "unat (of_nat (?n + 32) :: u64) = ?n + 32" using small by (intro unat_of_nat_u64) simp
  ultimately have u: "unat (e + BLOCK_SIZE - x_headIndex pr) = ?n + 32" by simp
  then have "x_headIndex pr \<noteq> e + BLOCK_SIZE" by auto
  with u have "circular_less_than (x_headIndex pr) (e + BLOCK_SIZE) \<longleftrightarrow> ?n + 32 < 2 ^ 63"
    using small by (auto simp: circular_less_than_unat unat_minus_swap [of "x_headIndex pr" "e + BLOCK_SIZE"])
  then show "x_limit e pr \<longleftrightarrow> \<not> ?n + 32 < 2 ^ 63" by (simp add: x_limit_def MAX_SUBQUEUE_SIZE_def)
qed

lemma x_empty_ahead:
  assumes core: "x_core (heap p) pr bl h e xs"
  shows "empty_ahead pr p = Some (if bl \<noteq> [] \<and> 32 \<le> h then Some (hd bl) else None)"
proof (cases "bl = []")
  case True
  with core show ?thesis by (simp add: x_core_def empty_ahead_def)
next
  case False
  then have l: "length bl - 1 < length bl" "last bl = bl ! (length bl - 1)" "hd bl = bl ! 0" "0 < length bl"
    by (auto simp: last_conv_nth hd_conv_nth)
  from core l(1) have "x_block_ok (heap p) bl h (length bl - 1)" by (simp add: x_core_def x_blocks_ok_def)
  with l have "get_next (last bl) p = Some (hd bl)" by (auto simp: x_block_ok_def get_next_def)
  moreover from core l(4) have "x_block_ok (heap p) bl h 0" unfolding x_core_def x_blocks_ok_def by blast
  then obtain x where x: "heap p (hd bl) = Some x" "length (emptyFlags x) = 32"
    "\<forall>s < 32. emptyFlags x ! (31 - s) \<longleftrightarrow> s < h" by (auto simp: x_block_ok_def l(3))
  have "list_all (\<lambda>flag. flag) (emptyFlags x) \<longleftrightarrow> 32 \<le> h"
  proof
    assume "list_all (\<lambda>flag. flag) (emptyFlags x)"
    then have "emptyFlags x ! 0" using x(2) by (simp add: list_all_length)
    then show "32 \<le> h" using x(3) [rule_format, of 31] by simp
  next
    assume h: "32 \<le> h"
    have "emptyFlags x ! i" if "i < 32" for i using x(3) [rule_format, of "31 - i"] that h by simp
    then show "list_all (\<lambda>flag. flag) (emptyFlags x)" using x(2) by (simp add: list_all_length)
  qed
  then have "x_is_empty (hd bl) p = Some (32 \<le> h)" using x(1) by (simp add: x_is_empty_def)
  ultimately show ?thesis using core False by (simp add: x_core_def empty_ahead_def)
qed

text \<open>Making room in the index.\<close>

lemma x_index_room:
  assumes core: "x_core (heap p) pr bl h e xs" and inv: "pool_inv p used"
  shows "\<exists>ok pr' p'. (if x_blockIndex pr = [] \<or> pr_blockIndexSlotsUsed pr = pr_blockIndexSize pr
      then x_new_block_index mok (pr_blockIndexSlotsUsed pr) pr p else Some (True, pr, p)) = Some (ok, pr', p') \<and>
    pool_inv p' used \<and> heap p' = heap p \<and> x_same pr pr' \<and> x_core (heap p') pr' bl h e xs \<and>
    (ok \<longrightarrow> x_blockIndex pr' \<noteq> [] \<and> length bl < unat (pr_blockIndexSize pr'))"
proof -
  have slots: "x_slots pr e bl" and small: "32 * length bl < 2 ^ 63 + 32" using core by (simp_all add: x_core_def)
  show ?thesis
  proof (cases "x_blockIndex pr = [] \<or> pr_blockIndexSlotsUsed pr = pr_blockIndexSize pr")
    case False
    then obtain g gs where "x_blockIndex pr = g # gs" by (auto simp: neq_Nil_conv)
    from x_slots_power [OF slots this] have "unat (pr_blockIndexSlotsUsed pr) = length bl"
      "length bl \<le> unat (pr_blockIndexSize pr)" by (metis slots_ok_def)+
    moreover have "unat (pr_blockIndexSlotsUsed pr) \<noteq> unat (pr_blockIndexSize pr)" using False by (simp add: word_unat_eq_iff)
    ultimately show ?thesis using False inv core by auto
  next
    case True
    let ?p = "p\<lparr>mallocs := mallocs p + 1\<rparr>"
    from x_new_block_index_ok [OF slots True small, of mok "pr_blockIndexSlotsUsed pr" p] obtain pr' where
      new: "x_new_block_index mok (pr_blockIndexSlotsUsed pr) pr p = Some (mok (mallocs p), pr', ?p)"
      "x_same pr pr'" "x_slots pr' e bl" and
      parts: "if mok (mallocs p) then pr_blockIndexFront pr' = of_nat (length bl) \<and> length bl < unat (pr_blockIndexSize pr') \<and>
       (\<exists>h. current_index pr' = Some h \<and> xi_front h = pr_blockIndexSlotsUsed pr - 1)
       else pr' = pr" by blast
    have "pool_inv ?p used" using inv by (auto simp: pool_inv_def pool_ok_def)
    moreover have "x_core (heap ?p) pr' bl h e xs"
    proof (cases "mok (mallocs p)")
      case False
      with parts core show ?thesis by simp
    next
      case True
      with parts obtain g where g: "current_index pr' = Some g" "xi_front g = pr_blockIndexSlotsUsed pr - 1"
        "pr_blockIndexFront pr' = of_nat (length bl)" "length bl < unat (pr_blockIndexSize pr')" by auto
      then obtain gs where gs: "x_blockIndex pr' = g # gs" by (auto simp: current_index_def split: list.splits)
      from x_slots_power [OF new(3) gs] obtain k where k: "pr_blockIndexSize pr' = 2 ^ k" "xi_size g = 2 ^ k"
        "unat (pr_blockIndexSlotsUsed pr') = length bl" "unat (pr_blockIndexSize pr') = 2 ^ k" by metis
      have used: "pr_blockIndexSlotsUsed pr' = pr_blockIndexSlotsUsed pr" using new(2) by (simp add: x_same_def)
      have "x_exposed pr'"
      proof (cases "bl = []")
        case True
        then show ?thesis using k(3) by (simp add: x_exposed_def unat_eq_0)
      next
        case False
        then have "unat (pr_blockIndexSlotsUsed pr - 1) = length bl - 1"
          using k(3) used by (metis One_nat_def Suc_leI length_greater_0_conv unat_1 unat_sub word_le_nat_alt)
        moreover have "unat (of_nat (length bl) :: u64) = length bl" by (metis k(3) unat_of_nat_u64 unat_u64)
        moreover have "ring_pos (2 ^ k) (length bl) 1 = length bl - 1"
          using False g(4) k(4) by (subst ring_pos_eq) (cases bl; auto)+
        ultimately show ?thesis using g k by (simp add: x_exposed_def)
      qed
      with core new(2,3) show ?thesis by (auto intro: x_core_same)
    qed
    moreover have "mok (mallocs p) \<longrightarrow> x_blockIndex pr' \<noteq> [] \<and> length bl < unat (pr_blockIndexSize pr')"
      using parts by (auto simp: current_index_def)
    ultimately show ?thesis using True new(1,2) by auto
  qed
qed


text \<open>Putting the tail block into the index.\<close>

lemma x_index_tail:
  assumes core: "x_core hp0 pr0 bl0 h0 e xs" and hs: "x_blockIndex pr0 \<noteq> []" and sub: "bl = drop m bl0"
    and room: "length bl < unat (pr_blockIndexSize pr0)" and len: "unat used = Suc (length bl)"
    and blocks: "x_blocks_ok hp (bl @ [b]) h xs" "distinct (bl @ [b])" "h + length xs + 32 = 32 * length (bl @ [b])"
      "32 * length (bl @ [b]) < 2 ^ 63 + 32" and full: "h0 + length xs = 32 * length bl0"
  shows "\<exists>pr'. index_tail_block e (pr0\<lparr>x_tailBlock := Some b, pr_blockIndexSlotsUsed := used\<rparr>) = Some pr' \<and>
    x_core hp pr' (bl @ [b]) h (e + 32) xs \<and> x_tailIndex pr' = x_tailIndex pr0"
proof -
  let ?pr = "pr0\<lparr>x_tailBlock := Some b, pr_blockIndexSlotsUsed := used\<rparr>"
  obtain g gs where g: "x_blockIndex pr0 = g # gs" using hs by (auto simp: neq_Nil_conv)
  have slots: "x_slots pr0 e bl0" using core by (simp add: x_core_def)
  obtain pr' where pr': "index_tail_block e ?pr = Some pr'" "x_same ?pr pr'" "x_slots pr' (e + 32) (bl @ [b])" "x_exposed pr'"
    using x_store [OF slots g sub room, of ?pr b] g len by auto
  have "e = x_tailIndex pr0" using x_end_index(1) [OF core full] by simp
  moreover have "of_nat (32 * length (bl @ [b])) = (of_nat (h + length xs) + 32 :: u64)"
    using blocks(3) by (metis of_nat_add of_nat_numeral)
  ultimately have "x_headIndex pr0 = e + 32 - of_nat (32 * length (bl @ [b])) + of_nat h"
    using core by (simp add: x_core_def algebra_simps)
  moreover have "slot_of (e + 32) = 0" using core slot_of_add [of e 32] by (simp add: x_core_def)
  ultimately have "x_core hp pr' (bl @ [b]) h (e + 32) xs"
    using core pr' blocks unfolding x_core_def x_same_def by simp
  with pr' show ?thesis by (simp add: x_same_def)
qed

lemma x_start_block_ok:
  assumes core: "x_core (heap p) pr bl h e xs" and full: "h + length xs = 32 * length bl"
    and inv: "pool_inv p (others \<union> set bl)" and dis: "set bl \<inter> others = {}"
  shows "\<exists>ok pr' p' bl' h' e'. x_start_block mok e pr p = Some (ok, pr', p') \<and>
    pool_inv p' (others \<union> set bl') \<and> set bl' \<inter> others = {} \<and> (\<forall>a \<in> others. heap p' a = heap p a) \<and>
    x_tailIndex pr' = e \<and> x_core (heap p') pr' bl' h' e' xs \<and>
    (if ok then h' + length xs + 32 = 32 * length bl' else bl' = bl \<and> h' = h \<and> e' = e)"
proof -
  let ?u = "others \<union> set bl"
  have tail: "x_tailIndex pr = e" by (rule x_end_index [OF core full])
  have slots: "x_slots pr e bl" and dist: "distinct bl" and blocks: "x_blocks_ok (heap p) bl h xs"
    and tb: "x_tailBlock pr = (if bl = [] then None else Some (last bl))" using core by (simp_all add: x_core_def)
  note ahead = x_empty_ahead [OF core]
  show ?thesis
  proof (cases "bl \<noteq> [] \<and> 32 \<le> h")
    case True
    then obtain p' where p': "x_reset_empty (hd bl) p = Some p'" "pool_inv p' ?u" "x_blocks_ok (heap p') (rotate1 bl) (h - 32) xs"
      "\<forall>a. a \<noteq> hd bl \<longrightarrow> heap p' a = heap p a"
      using x_turn [OF blocks dist _ _ _ inv] full by auto
    have rot: "rotate1 bl = tl bl @ [hd bl]" using True by (cases bl) simp_all
    from slots True have hs: "x_blockIndex pr \<noteq> []" by (auto simp: x_slots_def)
    then obtain g gs where "x_blockIndex pr = g # gs" by (auto simp: neq_Nil_conv)
    from x_slots_power [OF slots this] have used: "unat (pr_blockIndexSlotsUsed pr) = length bl"
      and le: "length bl \<le> unat (pr_blockIndexSize pr)" by (metis slots_ok_def)+
    have "distinct (tl bl @ [hd bl])" using dist rot by (metis distinct1_rotate)
    moreover have "h - 32 + length xs + 32 = 32 * length (tl bl @ [hd bl])" using full True by simp
    moreover have "32 * length (tl bl @ [hd bl]) < 2 ^ 63 + 32" using core True by (simp add: x_core_def)
    moreover have "unat (pr_blockIndexSlotsUsed pr) = Suc (length (tl bl))" using used True by simp
    moreover have "length (tl bl) < unat (pr_blockIndexSize pr)" using le True by (cases bl) simp_all
    ultimately obtain pr' where pr': "index_tail_block e (pr\<lparr>x_tailBlock := Some (hd bl), pr_blockIndexSlotsUsed := pr_blockIndexSlotsUsed pr\<rparr>) = Some pr'"
      "x_core (heap p') pr' (tl bl @ [hd bl]) (h - 32) (e + 32) xs" "x_tailIndex pr' = x_tailIndex pr"
      using x_index_tail [OF core hs _ _ _ p'(3) [unfolded rot] _ _ _ full, of 1 "pr_blockIndexSlotsUsed pr"]
      by (auto simp: drop_Suc)
    have "pr\<lparr>x_tailBlock := t, pr_blockIndexSlotsUsed := pr_blockIndexSlotsUsed pr\<rparr> = pr\<lparr>x_tailBlock := t\<rparr>" for t by simp
    then have "x_start_block mok e pr p = Some (True, pr', p')"
      using True ahead p'(1) pr'(1) by (simp add: x_start_block_def)
    moreover have "set (tl bl @ [hd bl]) = set bl" unfolding rot [symmetric] by simp
    moreover have "hd bl \<in> set bl" using True by simp
    with dis have "hd bl \<notin> others" by blast
    then have "\<forall>a \<in> others. heap p' a = heap p a" using p'(4) by metis
    moreover have "h - 32 + length xs + 32 = 32 * length (tl bl @ [hd bl])" using full True by simp
    ultimately show ?thesis using p'(2) pr'(2,3) tail dis by metis
  next
    case False
    then have ahead: "empty_ahead pr p = Some None" using ahead by simp
    note assert = x_end_index(2) [OF core full]
    show ?thesis
    proof (cases "x_limit e pr")
      case True
      then have "x_start_block mok e pr p = Some (False, pr, p)" using ahead assert by (simp add: x_start_block_def)
      then show ?thesis using core inv dis tail by auto
    next
      case room: False
      then have "length xs + 32 < 2 ^ 63" using x_end_index(3) [OF core full] by simp
      moreover have "h < 32 \<or> bl = []" using False by auto
      ultimately have small: "32 * Suc (length bl) < 2 ^ 63 + 32" using full by auto
      from x_index_room [OF core inv] obtain ok pr1 p1 where
        room: "(if x_blockIndex pr = [] \<or> pr_blockIndexSlotsUsed pr = pr_blockIndexSize pr
          then x_new_block_index mok (pr_blockIndexSlotsUsed pr) pr p else Some (True, pr, p)) = Some (ok, pr1, p1)"
          "pool_inv p1 ?u" "heap p1 = heap p" "x_same pr pr1" "x_core (heap p1) pr1 bl h e xs"
          "ok \<longrightarrow> x_blockIndex pr1 \<noteq> [] \<and> length bl < unat (pr_blockIndexSize pr1)" by metis
      have start: "x_start_block mok e pr p = (if ok then do {
             (ok, pr, p) \<leftarrow> x_add_block mok x_reset_empty pr1 p1;
             if \<not> ok then Some (False, pr, p)
             else do { pr \<leftarrow> index_tail_block e pr; Some (True, pr, p) } } else Some (False, pr1, p1))"
        using ahead assert \<open>\<not> x_limit e pr\<close> room(1) by (cases ok) (simp_all add: x_start_block_def)
      have tail1: "x_tailIndex pr1 = e" "x_tailBlock pr1 = x_tailBlock pr" using room(4) tail by (simp_all add: x_same_def)
      show ?thesis
      proof (cases ok)
        case False
        then show ?thesis using start room tail1 dis by fastforce
      next
        case True
        from room(2) show ?thesis
        proof (cases rule: pool.alloc_cases [where mok = mok])
          case (none p2)
          then have "x_start_block mok e pr p = Some (False, pr1, p2)"
            using start True by (simp add: x_add_block_def)
          moreover have "x_core (heap p2) pr1 bl h e xs" 
            by (rule x_core_cong [OF room(5)]) (use none(3) in simp)
          moreover have "\<forall>a \<in> others. heap p2 a = heap p a" using none(3) room(3) by simp
          ultimately show ?thesis using none(2) tail1(1) dis by auto
        next
          case (some b p2)
          then have b: "b \<notin> set bl" "b \<notin> others" and keep: "\<forall>a \<in> ?u. heap p2 a = heap p a" using room(3) by auto
          have "x_core (heap p2) pr bl h e xs" 
            by (rule x_core_cong [OF core]) (use keep in simp)
          then have "x_blocks_ok (heap p2) bl h xs" by (simp add: x_core_def)
          from x_insert [OF this dist _ some(3) _ _ b(1)] full obtain p3 p4 where
            ins: "x_reset_empty b p2 = Some p3" "link_block b (x_tailBlock pr1) p3 = Some p4" "pool_inv p4 (insert b ?u)"
              "x_blocks_ok (heap p4) (bl @ [b]) h xs" "\<forall>a. a \<notin> insert b (set bl) \<longrightarrow> heap p4 a = heap p2 a"
            unfolding tail1(2) tb by auto
          let ?n = "pr_blockIndexSlotsUsed pr1 + 1"
          have "unat (pr_blockIndexSlotsUsed pr1) = length bl" using room(5) by (simp add: x_core_def x_slots_def)
          then have "unat ?n = Suc (length bl)" using small by (simp add: unat_add_small [of _ 1, simplified])
          then obtain pr' where pr': "index_tail_block e (pr1\<lparr>x_tailBlock := Some b, pr_blockIndexSlotsUsed := ?n\<rparr>) = Some pr'"
            "x_core (heap p4) pr' (bl @ [b]) h (e + 32) xs" "x_tailIndex pr' = x_tailIndex pr1"
            using x_index_tail [OF room(5) _ _ _ _ ins(4) _ _ _ full, of 0 ?n] room(6) True dist b small full by auto
          then have "x_start_block mok e pr p = Some (True, pr', p4)"
            using start True some(1) ins(1,2) by (simp add: x_add_block_def)
          moreover have "\<forall>a \<in> others. heap p4 a = heap p a" using ins(5) keep b(2) dis by (metis UnI1 disjoint_iff insert_iff)
          moreover have "insert b ?u = others \<union> set (bl @ [b])" by auto
          moreover have "set (bl @ [b]) \<inter> others = {}" using dis b by auto
          moreover have "h + length xs + 32 = 32 * length (bl @ [b])" using full by simp
          ultimately show ?thesis using ins(3) pr'(2,3) tail1(1) by metis
        qed
      qed
    qed
  qed
qed

section \<open>Enqueue and dequeue\<close>

lemma x_enqueue_ok:
  assumes q: "explicit_queue others pr p bl h e xs" and small: "Suc (length xs) < 2 ^ 63"
  shows "\<exists>ok pr' p' bl' h' e'. x_enqueue mok v pr p = Some (ok, pr', p') \<and>
    explicit_queue others pr' p' bl' h' e' (if ok then xs @ [v] else xs) \<and> (\<forall>a \<in> others. heap p' a = heap p a)"
proof -
  have core: "x_core (heap p) pr bl h e xs" and fill: "32 * length bl < h + length xs + 32"
    and dis: "set bl \<inter> others = {}" and inv: "pool_inv p (others \<union> set bl)"
    using q by (simp_all add: explicit_queue_def x_ok_def)
  have le: "h + length xs \<le> 32 * length bl" using core by (simp add: x_core_def)
  have put: "\<exists>p''. put_element (last bl') (x_tailIndex pr') v p' = Some p'' \<and>
      explicit_queue others (pr'\<lparr>x_tailIndex := 1 + x_tailIndex pr'\<rparr>) p'' bl' h' e' (xs @ [v]) \<and>
      (\<forall>a \<in> others. heap p'' a = heap p' a)"
    if core: "x_core (heap p') pr' bl' h' e' xs" and inv: "pool_inv p' (others \<union> set bl')" and dis: "set bl' \<inter> others = {}"
      and fill: "32 * length bl' < h' + length xs + 33" "h' + length xs < 32 * length bl'" for pr' p' bl' h' e'
  proof -
    have "last bl' \<in> set bl'" using fill(2) by (cases bl') auto
    then have b: "last bl' \<notin> others" using dis by blast
    obtain p'' where "put_element (last bl') (x_tailIndex pr') v p' = Some p''" "pool_inv p'' (others \<union> set bl')"
      "x_ok (heap p'') (pr'\<lparr>x_tailIndex := 1 + x_tailIndex pr'\<rparr>) bl' h' e' (xs @ [v])" "\<forall>a. a \<noteq> last bl' \<longrightarrow> heap p'' a = heap p' a"
      using x_put [OF core inv _ fill small, of v] by blast
    moreover have "\<forall>a \<in> others. heap p'' a = heap p' a" using calculation(4) b by metis
    ultimately show ?thesis using dis by (auto simp: explicit_queue_def)
  qed
  show ?thesis
  proof (cases "x_tailIndex pr AND (BLOCK_SIZE - 1) = 0")
    case False
    then have "slot_of (x_tailIndex pr) \<noteq> 0" by (simp add: BLOCK_SIZE_def slot_of_0_iff)
    then have "(h + length xs) mod 32 \<noteq> 0" using x_tail_position(1) [OF core] by simp
    then have lt: "h + length xs < 32 * length bl" using le by (cases "h + length xs = 32 * length bl") auto
    then have "x_tailBlock pr = Some (last bl)" using core by (auto simp: x_core_def)
    with put [OF core inv dis _ lt] fill False show ?thesis by (auto simp: x_enqueue_def)
  next
    case True
    then have "slot_of (x_tailIndex pr) = 0" by (simp add: BLOCK_SIZE_def slot_of_0_iff)
    then have "(h + length xs) mod 32 = 0" using x_tail_position(1) [OF core] by simp
    with fill le have full: "h + length xs = 32 * length bl" by presburger
    have tail: "x_tailIndex pr = e" by (rule x_end_index [OF core full])
    from x_start_block_ok [OF core full inv dis, of mok] obtain ok pr' p' bl' h' e' where
      start: "x_start_block mok e pr p = Some (ok, pr', p')" "pool_inv p' (others \<union> set bl')" "set bl' \<inter> others = {}"
        "\<forall>a \<in> others. heap p' a = heap p a" "x_tailIndex pr' = e" "x_core (heap p') pr' bl' h' e' xs"
        "if ok then h' + length xs + 32 = 32 * length bl' else bl' = bl \<and> h' = h \<and> e' = e" by blast
    show ?thesis
    proof (cases ok)
      case False
      then have "x_enqueue mok v pr p = Some (ok, pr', p')" using True tail start(1) by (simp add: x_enqueue_def)
      moreover have "explicit_queue others pr' p' bl' h' e' (if ok then xs @ [v] else xs)"
        using start False fill by (simp add: explicit_queue_def x_ok_def)
      ultimately show ?thesis using start(4) False by blast
    next
      case ok: True
      then have full': "h' + length xs + 32 = 32 * length bl'" using start(7) by simp
      then have "x_tailBlock pr' = Some (last bl')" using start(6) by (auto simp: x_core_def)
      moreover from put [OF start(6,2,3)] full' obtain p'' where p'': "put_element (last bl') (x_tailIndex pr') v p' = Some p''"
        "explicit_queue others (pr'\<lparr>x_tailIndex := 1 + x_tailIndex pr'\<rparr>) p'' bl' h' e' (xs @ [v])"
        "\<forall>a \<in> others. heap p'' a = heap p' a" by auto
      ultimately have "x_enqueue mok v pr p = Some (ok, pr'\<lparr>x_tailIndex := 1 + x_tailIndex pr'\<rparr>, p'')"
        using True tail start(1,5) ok by (simp add: x_enqueue_def)
      moreover have "\<forall>a \<in> others. heap p'' a = heap p a" using p''(3) start(4) by simp
      moreover have "explicit_queue others (pr'\<lparr>x_tailIndex := 1 + x_tailIndex pr'\<rparr>) p'' bl' h' e' (if ok then xs @ [v] else xs)"
        using p''(2) ok by simp
      ultimately show ?thesis by blast
    qed
  qed
qed

lemma x_lookup_position:
  assumes core: "x_core hp pr bl h e xs" and h: "h < 32 * length bl"
  shows "\<exists>g a k. current_index pr = Some g \<and> slot_for g (x_headIndex pr) = Some a \<and>
    slots_ok (xi_entries g) k (unat (pr_blockIndexFront pr)) e bl \<and> xi_size g = 2 ^ k \<and> k < 64 \<and>
    unat a = ring_pos (2 ^ k) (unat (pr_blockIndexFront pr)) (length bl - h div 32)"
proof -
  let ?n = "length bl" and ?d = "length bl - 1 - h div 32"
  have i: "h div 32 < ?n" using h by (intro less_mult_imp_div_less) simp
  have slots: "x_slots pr e bl" and small: "32 * ?n < 2 ^ 63 + 32" and e: "slot_of e = 0"
    and ex: "x_exposed pr" using core by (simp_all add: x_core_def)
  from slots i have "x_blockIndex pr \<noteq> []" by (auto simp: x_slots_def split: list.splits)
  then obtain g gs where g: "x_blockIndex pr = g # gs" by (auto simp: neq_Nil_conv)
  from x_slots_power [OF slots g] obtain k where k: "pr_blockIndexSize pr = 2 ^ k" "xi_size g = 2 ^ k" "k < 64"
    "slots_ok (xi_entries g) k (unat (pr_blockIndexFront pr)) e bl" "unat (pr_blockIndexSlotsUsed pr) = ?n"
    "unat (pr_blockIndexSize pr) = 2 ^ k" by metis
  let ?f = "unat (pr_blockIndexFront pr)"
  have f: "?f < 2 ^ k" "?n \<le> 2 ^ k" using k(4) by (simp_all add: slots_ok_def)
  have front: "unat (xi_front g) = ring_pos (2 ^ k) ?f 1"
    using ex g i k by (auto simp: x_exposed_def current_index_def)
  have newest: "xi_entries g ! unat (xi_front g) = Some (e - 32, last bl)"
    unfolding front by (rule slots_newest [OF k(4)]) (use i in auto)
  have "base_of (x_headIndex pr) = e - 32 - of_nat (32 * ?d)"
  proof -
    have "x_headIndex pr = e - of_nat (32 * ?n) + of_nat h" using core by (simp add: x_core_def)
    then have "base_of (x_headIndex pr) = e - of_nat (32 * ?n) + of_nat h - of_nat (h mod 32)"
      using x_tail_position(2) [OF core] by (simp add: base_of_eq)
    moreover have "(of_nat h :: u64) = of_nat (32 * (h div 32)) + of_nat (h mod 32)" by (metis of_nat_add mult_div_mod_eq)
    moreover have "(of_nat (32 * ?n) :: u64) = of_nat (32 * (h div 32)) + 32 + of_nat (32 * ?d)"
    proof -
      have "32 * ?n = 32 * (h div 32) + 32 + 32 * ?d" using i by simp
      then show ?thesis by (metis of_nat_add of_nat_numeral)
    qed
    ultimately show ?thesis by (simp del: of_nat_mult)
  qed
  then have headbase: "e - 32 = base_of (x_headIndex pr) + of_nat (32 * ?d)" by simp
  have "word_of_int (sint (base_of (x_headIndex pr) - (e - 32)) sdiv sint BLOCK_SIZE) = - (of_nat ?d :: u64)"
    unfolding headbase BLOCK_SIZE_def sint_numeral_32 by (rule signed_block_offset) (use small in simp)
  moreover have "x_headIndex pr AND NOT (BLOCK_SIZE - 1) = base_of (x_headIndex pr)" by (simp add: base_of_def BLOCK_SIZE_def)
  ultimately have "slot_for g (x_headIndex pr) = Some ((xi_front g - of_nat ?d) AND (xi_size g - 1))"
    using newest by (simp add: slot_for_def)
  moreover have "unat ((xi_front g - of_nat ?d) AND (xi_size g - 1)) = ring_pos (2 ^ k) ?f (Suc ?d)"
  proof -
    have "unat ((xi_front g - of_nat ?d) AND (2 ^ k - 1)) = ring_pos (2 ^ k) (unat (xi_front g)) ?d"
      using k(3) f front by (intro ring_pos_word) simp_all
    then show ?thesis using ring_pos_back [OF f(1), of 1 ?d] f i front k(2) by simp
  qed
  moreover have "Suc ?d = ?n - h div 32" using i by simp
  ultimately show ?thesis using g k by (intro exI [of _ g]) (auto simp: current_index_def)
qed

lemma x_lookup:
  assumes core: "x_core hp pr bl h e xs" and h: "h < 32 * length bl"
  shows "\<exists>g a base. current_index pr = Some g \<and> slot_for g (x_headIndex pr) = Some a \<and>
    xi_entries g ! unat a = Some (base, bl ! (h div 32))"
proof -
  let ?d = "length bl - 1 - h div 32"
  have i: "h div 32 < length bl" using h by (intro less_mult_imp_div_less) simp
  then have d: "Suc ?d = length bl - h div 32" "length bl - 1 - ?d = h div 32" "?d < length bl" by simp_all
  from x_lookup_position [OF assms] obtain g a k where g: "current_index pr = Some g" "slot_for g (x_headIndex pr) = Some a"
    "slots_ok (xi_entries g) k (unat (pr_blockIndexFront pr)) e bl"
    "unat a = ring_pos (2 ^ k) (unat (pr_blockIndexFront pr)) (length bl - h div 32)" by blast
  have "xi_entries g ! ring_pos (2 ^ k) (unat (pr_blockIndexFront pr)) (Suc ?d) = Some (e - of_nat (32 * Suc ?d), bl ! (length bl - 1 - ?d))"
    using g(3) d(3) unfolding slots_ok_def by blast
  with g d show ?thesis by auto
qed


lemma x_take:
  assumes core: "x_core (heap p) pr bl h e (v # ys)" and inv: "pool_inv p used" and sub: "set bl \<subseteq> used"
  shows "\<exists>p1 p'. take_element (bl ! (h div 32)) (x_headIndex pr) p = Some (v, p1) \<and>
    x_set_empty (bl ! (h div 32)) (x_headIndex pr) p1 = Some p' \<and> pool_inv p' used \<and>
    x_blocks_ok (heap p') bl (Suc h) ys \<and> (\<forall>a. a \<notin> set bl \<longrightarrow> heap p' a = heap p a)"
proof -
  let ?i = "h div 32" and ?b = "bl ! (h div 32)" and ?s = "h mod 32"
  have i: "?i < length bl" using core by (intro less_mult_imp_div_less) (simp add: x_core_def)
  have bu: "?b \<in> used" "?b \<in> set bl" using sub i by auto
  from pool_read [OF inv bu(1)] obtain x where x: "heap p ?b = Some x" "freeListRefs x = 0" "length (elements x) = 32" .
  have slot: "slot_of (x_headIndex pr) = ?s" by (rule x_tail_position(2) [OF core])
  have dist: "distinct bl" and blocks: "x_blocks_ok (heap p) bl h (v # ys)" using core by (simp_all add: x_core_def)
  then have old: "x_block_ok (heap p) bl h ?i" and el: "element_at (heap p) bl (h + i) ((v # ys) ! i)" if "i < Suc (length ys)" for i
    using i that by (simp_all add: x_blocks_ok_def)
  from old [of 0] x have flags: "length (emptyFlags x) = 32" "\<forall>s < 32. emptyFlags x ! (31 - s) \<longleftrightarrow> 32 * ?i + s < h"
    by (auto simp: x_block_ok_def)
  let ?x1 = "x\<lparr>elements := (elements x)[?s := None]\<rparr>"
  let ?x = "?x1\<lparr>emptyFlags := (emptyFlags x)[31 - ?s := True]\<rparr>"
  let ?p1 = "put_block ?b ?x1 p"
  let ?p = "put_block ?b ?x ?p1"
  have "elements x ! ?s = Some v" using el [of 0] x by (simp add: element_at_def)
  then have "take_element ?b (x_headIndex pr) p = Some (v, ?p1)" using x slot by (simp add: take_element_def)
  moreover have "\<not> emptyFlags x ! (31 - ?s)" using flags(2) [rule_format, of ?s] by simp
  then have "x_set_empty ?b (x_headIndex pr) ?p1 = Some ?p" using slot by (simp add: x_set_empty_def)
  moreover have "pool_inv ?p1 used" using pool_write [OF inv bu(1) x(1), of ?x1] x by simp
  then have "pool_inv ?p used" using pool_write [of ?p1 used ?b ?x1 ?x] bu(1) x by simp
  moreover have "x_block_ok (heap ?p) bl (Suc h) j" if j: "j < length bl" for j
  proof (cases "j = ?i")
    case True
    have "(emptyFlags x)[31 - ?s := True] ! (31 - s) \<longleftrightarrow> 32 * ?i + s < Suc h" if s: "s < 32" for s
    proof (cases "s = ?s")
      case False
      then have "31 - s \<noteq> 31 - ?s" using s mod_less_divisor [of 32 h] by linarith
      moreover have "32 * ?i + s < h \<longleftrightarrow> 32 * ?i + s < Suc h" using False by (metis less_Suc_eq mult_div_mod_eq add_left_cancel)
      ultimately show ?thesis using flags s by simp
    qed (use flags in simp)
    moreover have "next_block x = Some (bl ! (Suc ?i mod length bl))" using old [of 0] x by (simp add: x_block_ok_def)
    ultimately show ?thesis using flags True by (simp add: x_block_ok_def)
  next
    case False
    then have "bl ! j \<noteq> ?b" using dist i j by (simp add: nth_eq_iff_index_eq)
    moreover have "x_block_ok (heap p) bl h j" using blocks j by (simp add: x_blocks_ok_def)
    moreover have "32 * j + s < h \<longleftrightarrow> 32 * j + s < Suc h" if "s < 32" for s
      using that False by (auto simp: less_Suc_eq)
    ultimately show ?thesis by (simp add: x_block_ok_def)
  qed
  moreover have "element_at (heap ?p) bl (Suc h + j) (ys ! j)" if j: "j < length ys" for j
  proof -
    let ?k = "h + Suc j"
    have "?k div 32 < length bl" using core j by (intro less_mult_imp_div_less) (simp add: x_core_def)
    moreover have "?k mod 32 \<noteq> ?s" if "?k div 32 = ?i" using that by (metis add_cancel_left_right div_mult_mod_eq nat.distinct(1))
    ultimately have "bl ! (?k div 32) \<noteq> ?b \<or> ?k mod 32 \<noteq> ?s" using dist i by (auto simp: nth_eq_iff_index_eq)
    then show ?thesis using el [of "Suc j"] j x by (auto simp: element_at_def)
  qed
  moreover have "\<forall>a. a \<notin> set bl \<longrightarrow> heap ?p a = heap p a" using bu(2) by auto
  ultimately show ?thesis by (auto simp: x_blocks_ok_def)
qed

lemma x_dequeue_ok:
  assumes q: "explicit_queue others pr p bl h e xs"
  shows "\<exists>pr' p' h'. x_dequeue pr p = Some (case xs of [] \<Rightarrow> None | v # _ \<Rightarrow> Some v, pr', p') \<and>
    explicit_queue others pr' p' bl h' e (tl xs) \<and> (\<forall>a \<in> others. heap p' a = heap p a)"
proof -
  have core: "x_core (heap p) pr bl h e xs" and fill: "32 * length bl < h + length xs + 32"
    and dis: "set bl \<inter> others = {}" and inv: "pool_inv p (others \<union> set bl)"
    using q by (simp_all add: explicit_queue_def x_ok_def)
  note test = x_tests [OF core]
  show ?thesis
  proof (cases xs)
    case Nil
    then have "x_dequeue pr p = Some (None, pr, p)" using test by (simp add: x_dequeue_def Let_def)
    then show ?thesis using q Nil by auto
  next
    case (Cons v ys)
    let ?pr = "pr\<lparr>x_dequeueOptimisticCount := x_dequeueOptimisticCount pr + 1, x_headIndex := x_headIndex pr + 1\<rparr>"
    have core': "x_core (heap p) pr bl h e (v # ys)" using core Cons by simp
    then have "h < 32 * length bl" by (simp add: x_core_def)
    from x_lookup [OF core' this] obtain g a base where look: "current_index pr = Some g" "slot_for g (x_headIndex pr) = Some a"
      "xi_entries g ! unat a = Some (base, bl ! (h div 32))" by blast
    from x_take [OF core' inv] obtain p1 p' where p': "take_element (bl ! (h div 32)) (x_headIndex pr) p = Some (v, p1)"
      "x_set_empty (bl ! (h div 32)) (x_headIndex pr) p1 = Some p'" "pool_inv p' (others \<union> set bl)"
      "x_blocks_ok (heap p') bl (Suc h) ys" "\<forall>a. a \<notin> set bl \<longrightarrow> heap p' a = heap p a" by blast
    have "current_index ?pr = Some g" using look(1) by (simp add: current_index_def)
    then have "x_dequeue pr p = Some (Some v, ?pr, p')"
      using test Cons look p'(1,2) by (simp add: x_dequeue_def Let_def)
    moreover have "x_core (heap p') ?pr bl (Suc h) e ys"
      using core' p'(4) unfolding x_core_def by (auto simp: algebra_simps)
    then have "explicit_queue others ?pr p' bl (Suc h) e ys"
      using fill Cons dis p'(3) by (simp add: explicit_queue_def x_ok_def)
    moreover have "\<forall>a \<in> others. heap p' a = heap p a" using p'(5) dis by blast
    ultimately show ?thesis using Cons by auto
  qed
qed

section \<open>A new producer\<close>

lemma new_explicit_producer_ok:
  fixes p :: "'a pool"
  assumes inv: "pool_inv p others"
  shows "\<exists>pr p'. new_explicit_producer mok p = Some (pr, p') \<and> explicit_queue others pr p' [] 0 0 [] \<and>
    heap p' = heap p \<and> (mok (mallocs p) \<longrightarrow> x_blockIndex pr \<noteq> [])"
proof -
  let ?half = "drop_bit 1 (ceil_to_pow_2 (initialBlockPoolSize p))"
  let ?size = "if drop_bit 1 EXPLICIT_INITIAL_INDEX_SIZE < ?half then ?half else drop_bit 1 EXPLICIT_INITIAL_INDEX_SIZE"
  define pr0 where "pr0 = \<lparr>x_tailIndex = 0, x_headIndex = 0, x_dequeueOptimisticCount = 0, x_dequeueOvercommit = 0,
    x_tailBlock = None, pr_blockIndexSlotsUsed = 0, pr_blockIndexSize = ?size, pr_blockIndexFront = 0, x_blockIndex = []\<rparr>"
  have sixteen: "drop_bit 1 EXPLICIT_INITIAL_INDEX_SIZE = 2 ^ 4" by (simp add: EXPLICIT_INITIAL_INDEX_SIZE_def)
  have "\<exists>k. ?size = 2 ^ k \<and> 4 \<le> k \<and> k < 63"
  proof (cases "2 ^ 4 < ?half")
    case True
    obtain k where "k \<le> 64" "ceil_to_pow_2 (initialBlockPoolSize p) = 2 ^ k" using ceil_to_pow_2_power by blast
    with pow2_half True obtain j where j: "j < 63" "?half = 2 ^ j" by fastforce
    then have "unat ?half = 2 ^ j" by (simp add: unat_2_power)
    with True have "(2 :: nat) ^ 4 < 2 ^ j" by (simp add: word_less_nat_alt)
    then have "4 < j" using power_strict_increasing_iff [of "2 :: nat" 4 j] by simp
    with True j show ?thesis unfolding sixteen by auto
  next
    case False
    then show ?thesis unfolding sixteen by (intro exI [of _ 4]) simp
  qed
  then have slots: "x_slots pr0 0 []" by (simp add: x_slots_def pr0_def)
  then have core: "x_core (heap p) pr0 [] 0 0 []"
    by (simp add: x_core_def x_blocks_ok_def x_exposed_def current_index_def slot_of_def pr0_def)
  have none: "x_blockIndex pr0 = [] \<or> pr_blockIndexSlotsUsed pr0 = pr_blockIndexSize pr0" by (simp add: pr0_def)
  from x_new_block_index_ok [OF slots none, of mok 0 p] obtain pr' where
    new: "x_new_block_index mok 0 pr0 p = Some (mok (mallocs p), pr', p\<lparr>mallocs := mallocs p + 1\<rparr>)"
      "x_same pr0 pr'" "x_slots pr' 0 []" and
    index: "if mok (mallocs p) then pr_blockIndexFront pr' = of_nat (length ([] :: nat list)) \<and>
      length ([] :: nat list) < unat (pr_blockIndexSize pr') \<and> (\<exists>h. current_index pr' = Some h \<and> xi_front h = 0 - 1)
      else pr' = pr0" by auto
  have "x_exposed pr'" using new(2) by (simp add: x_exposed_def x_same_def pr0_def)
  with core new have "x_core (heap p) pr' [] 0 0 []" by (auto intro: x_core_same)
  moreover have "pool_inv (p\<lparr>mallocs := mallocs p + 1\<rparr>) others" using inv by (auto simp: pool_inv_def pool_ok_def)
  ultimately have "explicit_queue others pr' (p\<lparr>mallocs := mallocs p + 1\<rparr>) [] 0 0 []"
    by (simp add: explicit_queue_def x_ok_def)
  moreover have "new_explicit_producer mok p = Some (pr', p\<lparr>mallocs := mallocs p + 1\<rparr>)"
  proof -
    have "new_explicit_producer mok p = do { (_, pr, p) \<leftarrow> x_new_block_index mok 0 pr0 p; Some (pr, p) }"
      unfolding new_explicit_producer_def Let_def pr0_def by (rule refl)
    with new(1) show ?thesis by simp
  qed
  ultimately show ?thesis using index by (auto simp: current_index_def)
qed

end
