(* ===== verification/Cq_Explicit_Bulk.thy ===== *)
theory Cq_Explicit_Bulk
  imports Cq_Explicit_Ok Cq_Bulk_Enqueue
begin

text \<open>
  \<open>include/concurrentqueue.h\<close>: taking many elements from an explicit producer in one call. The loop of
  \<open>dequeue_bulk\<close> goes from block to block through the block index, moves the elements of each out and
  flags them empty together. It takes the first elements of the queue, as many as there are and are asked for.
\<close>

section \<open>Operations\<close>

partial_function (option) x_bulk_loop ::
  "u64 \<Rightarrow> u64 \<Rightarrow> u64 \<Rightarrow> explicit_index \<Rightarrow> 'a pool \<Rightarrow> ('a list \<times> 'a pool) option" where
  "x_bulk_loop stop index indexIndex h p = do {
     let endIndex = end_of_block index stop;
     (_, b) \<leftarrow> xi_entries h ! unat indexIndex;
     (els, p) \<leftarrow> move_elements b index endIndex p;
     p \<leftarrow> x_set_many_empty b index (endIndex - index) p;
     if endIndex = stop then Some (els, p)
     else do {
       (rest, p) \<leftarrow> x_bulk_loop stop endIndex ((indexIndex + 1) AND (xi_size h - 1)) h p;
       Some (els @ rest, p) } }"

definition x_dequeue_bulk :: "u64 \<Rightarrow> explicit_producer \<Rightarrow> 'a pool \<Rightarrow> ('a list \<times> explicit_producer \<times> 'a pool) option" where
  "x_dequeue_bulk most pr p =
     (let tail = x_tailIndex pr;
          overcommit = x_dequeueOvercommit pr;
          desiredCount = tail - (x_dequeueOptimisticCount pr - overcommit) in
      if circular_less_than 0 desiredCount then
        let desiredCount = (if desiredCount < most then desiredCount else most);
            myDequeueCount = x_dequeueOptimisticCount pr;
            pr = pr\<lparr>x_dequeueOptimisticCount := myDequeueCount + desiredCount\<rparr>;
            tail = x_tailIndex pr;
            actualCount = tail - (myDequeueCount - overcommit) in
        if circular_less_than 0 actualCount then
          let actualCount = (if desiredCount < actualCount then desiredCount else actualCount);
              pr = (if actualCount < desiredCount
                    then pr\<lparr>x_dequeueOvercommit := x_dequeueOvercommit pr + (desiredCount - actualCount)\<rparr> else pr);
              firstIndex = x_headIndex pr;
              pr = pr\<lparr>x_headIndex := firstIndex + actualCount\<rparr> in
          do {
            h \<leftarrow> current_index pr;
            indexIndex \<leftarrow> slot_for h firstIndex;
            (els, p) \<leftarrow> x_bulk_loop (firstIndex + actualCount) firstIndex indexIndex h p;
            Some (els, pr, p) }
        else Some ([], pr\<lparr>x_dequeueOvercommit := x_dequeueOvercommit pr + desiredCount\<rparr>, p)
      else Some ([], pr, p))"

section \<open>One block\<close>

lemma set_flags_ok:
  assumes "j + k \<le> length fs" "\<forall>i < k. \<not> fs ! (j + i)"
  shows "\<exists>gs. set_flags j k fs = Some gs \<and> length gs = length fs \<and>
    (\<forall>i < length fs. gs ! i \<longleftrightarrow> fs ! i \<or> j \<le> i \<and> i < j + k)"
  using assms
proof (induction k arbitrary: j fs)
  case (Suc k)
  have "\<forall>i < k. \<not> fs[j := True] ! (Suc j + i)"
  proof (intro allI impI)
    fix i assume "i < k"
    then show "\<not> fs[j := True] ! (Suc j + i)" using Suc.prems(2) [rule_format, of "Suc i"] by simp
  qed
  moreover have "Suc j + k \<le> length (fs[j := True])" using Suc.prems(1) by simp
  ultimately obtain gs where gs: "set_flags (Suc j) k (fs[j := True]) = Some gs" "length gs = length fs"
    "\<forall>i < length fs. gs ! i \<longleftrightarrow> fs[j := True] ! i \<or> Suc j \<le> i \<and> i < Suc j + k"
    using Suc.IH [of "Suc j" "fs[j := True]"] by auto
  have "gs ! i \<longleftrightarrow> fs ! i \<or> j \<le> i \<and> i < j + Suc k" if "i < length fs" for i
    using gs(3) that by (cases "i = j") auto
  moreover have "\<not> fs ! j" using Suc.prems(2) [rule_format, of 0] by simp
  ultimately show ?case using gs(1,2) Suc.prems(1) by auto
qed auto

lemma nth_clear: "length (clear s k es) = length es" "i < length es \<Longrightarrow> clear s k es ! i = (if s \<le> i \<and> i < s + k then None else es ! i)"
  by (induction s k es rule: clear.induct) (auto simp: nth_list_update)

text \<open>Taking \<open>k\<close> elements of the block the head is in.\<close>

lemma x_take_block:
  fixes i :: u64
  assumes blocks: "x_blocks_ok (heap p) bl h xs" "distinct bl" and len: "h + length xs \<le> 32 * length bl"
    and inv: "pool_inv p used" and sub: "set bl \<subseteq> used"
    and i: "slot_of i = h mod 32" and h: "h < 32 * length bl" and k: "h mod 32 + k \<le> 32" "k \<le> length xs"
  shows "\<exists>p1 p'. move_elements (bl ! (h div 32)) i (i + of_nat k) p = Some (take k xs, p1) \<and>
    x_set_many_empty (bl ! (h div 32)) i (of_nat k) p1 = Some p' \<and> pool_inv p' used \<and>
    x_blocks_ok (heap p') bl (h + k) (drop k xs) \<and> (\<forall>a. a \<notin> set bl \<longrightarrow> heap p' a = heap p a)"
proof -
  let ?i = "h div 32" and ?b = "bl ! (h div 32)" and ?s = "h mod 32"
  have n: "?i < length bl" using h by (intro less_mult_imp_div_less) simp
  have bu: "?b \<in> used" "?b \<in> set bl" using sub n by auto
  from pool_read [OF inv bu(1)] obtain x where x: "heap p ?b = Some x" "freeListRefs x = 0" "length (elements x) = 32" .
  have old: "x_block_ok (heap p) bl h j" if "j < length bl" for j using blocks(1) that by (simp add: x_blocks_ok_def)
  have el: "element_at (heap p) bl (h + j) (xs ! j)" if "j < length xs" for j using blocks(1) that by (simp add: x_blocks_ok_def)
  from old [OF n] x have flags: "length (emptyFlags x) = 32" "\<forall>s < 32. emptyFlags x ! (31 - s) \<longleftrightarrow> 32 * ?i + s < h"
    "next_block x = Some (bl ! (Suc ?i mod length bl))" by (auto simp: x_block_ok_def)
  have same: "(h + j) div 32 = ?i" "(h + j) mod 32 = ?s + j" if "?s + j < 32" for j
  proof -
    have "h + j = (?s + j) + 32 * ?i" by simp
    then show "(h + j) div 32 = ?i" "(h + j) mod 32 = ?s + j" using that by (metis div_mult_self2 add.commute div_less add_0 mod_mult_self2 mod_less zero_neq_numeral)+
  qed
  let ?x1 = "x\<lparr>elements := clear ?s k (elements x)\<rparr>"
  let ?p1 = "put_block ?b ?x1 p"
  have "\<forall>j < k. elements x ! (?s + j) = Some (take k xs ! j)"
  proof (intro allI impI)
    fix j assume j: "j < k"
    then show "elements x ! (?s + j) = Some (take k xs ! j)"
      using el [of j] same [of j] k x(1) by (simp add: element_at_def)
  qed
  then have move: "move_elements ?b i (i + of_nat k) p = Some (take k xs, ?p1)"
    using move_elements_block [OF x(1), of i k "take k xs"] k x(3) by (simp add: i)
  have "\<not> emptyFlags x ! (32 - ?s - k + j)" if "j < k" for j
  proof -
    have "32 - ?s - k + j = 31 - (?s + k - 1 - j)" "?s + k - 1 - j < 32" "h \<le> 32 * ?i + (?s + k - 1 - j)"
      using that k(1) by auto
    then show ?thesis using flags(2) by (metis not_le)
  qed
  then obtain gs where gs: "set_flags (32 - ?s - k) k (emptyFlags x) = Some gs" "length gs = 32"
    "\<forall>j < 32. gs ! j \<longleftrightarrow> emptyFlags x ! j \<or> 32 - ?s - k \<le> j \<and> j < 32 - ?s - k + k"
    using set_flags_ok [of "32 - ?s - k" k "emptyFlags x"] flags(1) k(1) by auto
  let ?x = "?x1\<lparr>emptyFlags := gs\<rparr>"
  let ?p = "put_block ?b ?x ?p1"
  have "x_set_many_empty ?b i (of_nat k) ?p1 = Some ?p"
  proof -
    have "i AND (BLOCK_SIZE - 1) = of_nat ?s" using i by (simp add: BLOCK_SIZE_def slot_of_def flip: i) 
    moreover have "unat (BLOCK_SIZE - 1 - of_nat ?s - of_nat k + 1 :: u64) = 32 - ?s - k"
    proof -
      have "BLOCK_SIZE - 1 - of_nat ?s - of_nat k + 1 = (of_nat (32 - ?s - k) :: u64)"
        using k(1) by (simp add: BLOCK_SIZE_def of_nat_diff)
      then show ?thesis by (simp only:) (rule unat_of_nat_u64, simp)
    qed
    moreover have "unat (of_nat k :: u64) = k" using k(1) by (intro unat_of_nat_u64) simp
    ultimately show ?thesis using gs(1) by (simp add: x_set_many_empty_def)
  qed
  moreover have "pool_inv ?p1 used" using pool_write [OF inv bu(1) x(1), of ?x1] x by (simp add: nth_clear)
  then have "pool_inv ?p used" using pool_write [of ?p1 used ?b ?x1 ?x] bu(1) x by (simp add: nth_clear)
  moreover have "x_block_ok (heap ?p) bl (h + k) j" if j: "j < length bl" for j
  proof (cases "j = ?i")
    case True
    have "gs ! (31 - s) \<longleftrightarrow> 32 * ?i + s < h + k" if s: "s < 32" for s
    proof -
      have "32 * ?i + s < h \<longleftrightarrow> s < ?s" "32 * ?i + s < h + k \<longleftrightarrow> s < ?s + k"
        using mult_div_mod_eq [of 32 h] by linarith+
      moreover have "32 - ?s - k \<le> 31 - s \<and> 31 - s < 32 - ?s - k + k \<longleftrightarrow> ?s \<le> s \<and> s < ?s + k"
        using s k(1) by linarith
      ultimately show ?thesis using gs(3) [rule_format, of "31 - s"] flags(2) [rule_format, OF s] by auto
    qed
    then show ?thesis using True flags(3) gs(2) by (simp add: x_block_ok_def)
  next
    case False
    then have "bl ! j \<noteq> ?b" using blocks(2) n j by (simp add: nth_eq_iff_index_eq)
    moreover have "32 * j + s < h \<longleftrightarrow> 32 * j + s < h + k" if "s < 32" for s
    proof -
      from False consider "Suc j \<le> ?i" | "Suc ?i \<le> j" by linarith
      then show ?thesis using that k(1) mult_div_mod_eq [of 32 h] by cases linarith+
    qed
    ultimately show ?thesis using old [OF j] by (simp add: x_block_ok_def)
  qed
  moreover have "element_at (heap ?p) bl (h + k + j) (drop k xs ! j)" if j: "j < length xs - k" for j
  proof -
    let ?q = "h + (k + j)"
    have e: "element_at (heap p) bl ?q (xs ! (k + j))" using el [of "k + j"] j by simp
    have q: "?q div 32 < length bl" using len j by (intro less_mult_imp_div_less) simp
    show ?thesis
    proof (cases "?q div 32 = ?i")
      case True
      then have "?q mod 32 = ?s + (k + j)" by (metis add.assoc add_left_cancel mult_div_mod_eq)
      moreover have "?q mod 32 < 32" by simp
      ultimately show ?thesis using e x True j k by (simp add: element_at_def nth_clear add.assoc)
    next
      case False
      then have "bl ! (?q div 32) \<noteq> ?b" using blocks(2) n q by (simp add: nth_eq_iff_index_eq)
      then show ?thesis using e j by (simp add: element_at_def add.assoc)
    qed
  qed
  moreover have "\<forall>a. a \<notin> set bl \<longrightarrow> heap ?p a = heap p a" using bu(2) by auto
  ultimately show ?thesis using move by (auto simp: x_blocks_ok_def)
qed


section \<open>The loop over the blocks\<close>

lemma ring_word_Suc:
  fixes w :: u64
  assumes "k < 64" "unat w = ring_pos (2 ^ k) f (Suc d)" "Suc d \<le> 2 ^ k" "f < 2 ^ k"
  shows "unat ((w + 1) AND (2 ^ k - 1)) = ring_pos (2 ^ k) f d"
proof -
  have "unat w < 2 ^ k" using assms(2) by simp
  then have "unat w + 1 \<le> 2 ^ k" by simp
  moreover have "(2 :: nat) ^ k \<le> 2 ^ 63" using assms(1) by (intro power_increasing) simp_all
  ultimately have "unat (w + 1) = Suc (unat w)" by (simp add: unat_add_small [of w 1, simplified])
  then have "unat ((w + 1) AND (2 ^ k - 1)) = Suc (ring_pos (2 ^ k) f (Suc d)) mod 2 ^ k"
    using assms(1,2) by (simp add: unat_and_mask)
  also have "\<dots> = (f + 2 ^ k - Suc d + 1) mod 2 ^ k" by (simp add: ring_pos_def mod_Suc_eq)
  also have "f + 2 ^ k - Suc d + 1 = f + 2 ^ k - d" using assms(3) by simp
  finally show ?thesis by (simp add: ring_pos_def)
qed

lemma x_bulk_loop_ok:
  fixes index :: u64
  assumes "x_blocks_ok (heap p) bl h xs" "distinct bl" "h + length xs \<le> 32 * length bl" "pool_inv p used" "set bl \<subseteq> used"
    and "slot_of index = h mod 32" "h < 32 * length bl" "n \<le> length xs" "n < 2 ^ 63"
    and "slots_ok (xi_entries g) k f e bl" "xi_size g = 2 ^ k" "k < 64"
    and "unat ii = ring_pos (2 ^ k) f (length bl - h div 32)"
  shows "\<exists>p'. x_bulk_loop (index + of_nat n) index ii g p = Some (take n xs, p') \<and> pool_inv p' used \<and>
    x_blocks_ok (heap p') bl (h + n) (drop n xs) \<and> (\<forall>a. a \<notin> set bl \<longrightarrow> heap p' a = heap p a)"
  using assms
proof (induction n arbitrary: p h xs index ii rule: less_induct)
  case (less n)
  let ?b = "bl ! (h div 32)" and ?m = "min n (32 - h mod 32)" and ?stop = "index + of_nat n"
  have i: "h div 32 < length bl" using less.prems(7) by (intro less_mult_imp_div_less) simp
  define d where "d = length bl - Suc (h div 32)"
  have d: "length bl - h div 32 = Suc d" "length bl - 1 - d = h div 32" "d < length bl" using i by (simp_all add: d_def)
  have entry: "xi_entries g ! unat ii = Some (e - of_nat (32 * Suc d), ?b)"
    using less.prems(10,13) d unfolding slots_ok_def by simp
  have m: "h mod 32 + ?m \<le> 32" "?m \<le> length xs" using less.prems(8) mod_less_divisor [of 32 h] by linarith+
  from x_take_block [OF less.prems(1-7) m] obtain p1 p2 where
    t: "move_elements ?b index (index + of_nat ?m) p = Some (take ?m xs, p1)" "x_set_many_empty ?b index (of_nat ?m) p1 = Some p2"
    "pool_inv p2 used" "x_blocks_ok (heap p2) bl (h + ?m) (drop ?m xs)" "\<forall>a. a \<notin> set bl \<longrightarrow> heap p2 a = heap p a" by blast
  have stop: "end_of_block index ?stop = index + of_nat ?m"
    using end_of_block_eq [OF less.prems(9), of index] less.prems(6) by simp
  have eq: "index + of_nat ?m = ?stop \<longleftrightarrow> ?m = n"
  proof -
    have "(of_nat ?m :: u64) = of_nat n \<longleftrightarrow> ?m = n"
    proof -
      have n: "n < 2 ^ 64" using less.prems(9) by simp
      moreover have "?m < 2 ^ 64" using n by (rule le_less_trans [OF min.cobounded1])
      ultimately have "n < 2 ^ 64" "?m < 2 ^ 64" by simp_all
      then show ?thesis by (metis unat_of_nat_u64)
    qed
    then show ?thesis by simp
  qed
  show ?case
  proof (cases "?m = n")
    case True
    then have "x_bulk_loop ?stop index ii g p = Some (take n xs, p2)"
      using t(1,2) stop by (subst x_bulk_loop.simps) (simp add: Let_def entry)
    with True t show ?thesis by auto
  next
    case False
    then have full: "?m = 32 - h mod 32" "?m < n" "0 < ?m" by auto
    have "h mod 32 < 32" by simp
    then have e: "h + ?m = 32 * Suc (h div 32)"
      unfolding full(1) by presburger
    have mod: "(h + ?m) mod 32 = 0" "(h + ?m) div 32 = Suc (h div 32)" unfolding e by simp_all
    have "n - ?m < n" using full by simp
    moreover have "h + ?m + length (drop ?m xs) \<le> 32 * length bl" using less.prems(3) m(2) by simp
    moreover have "slot_of (index + of_nat ?m) = (h + ?m) mod 32"
      using less.prems(6) by (simp add: slot_of_add mod_add_left_eq)
    moreover have "h + ?m < 32 * length bl" using less.prems(3,8) full(2) by linarith
    moreover have "n - ?m \<le> length (drop ?m xs)" "n - ?m < 2 ^ 63" using less.prems(8,9) by simp_all
    moreover have dk: "Suc d \<le> 2 ^ k" "f < 2 ^ k" using less.prems(10) d(3) unfolding slots_ok_def by simp_all
    have ld: "length bl - (h + ?m) div 32 = d" unfolding mod(2) d_def ..
    have "unat ((ii + 1) AND (xi_size g - 1)) = ring_pos (2 ^ k) f (length bl - (h + ?m) div 32)"
      unfolding ld less.prems(11) by (rule ring_word_Suc [OF less.prems(12) less.prems(13) [unfolded d(1)] dk])
    ultimately obtain p3 where r: "x_bulk_loop (index + of_nat ?m + of_nat (n - ?m)) (index + of_nat ?m) ((ii + 1) AND (xi_size g - 1)) g p2
        = Some (take (n - ?m) (drop ?m xs), p3)" "pool_inv p3 used" "x_blocks_ok (heap p3) bl (h + ?m + (n - ?m)) (drop (n - ?m) (drop ?m xs))"
      "\<forall>a. a \<notin> set bl \<longrightarrow> heap p3 a = heap p2 a"
      using less.IH [OF _ t(4) less.prems(2) _ t(3) less.prems(5) _ _ _ _ less.prems(10-12)] by blast
    have sum: "index + of_nat ?m + of_nat (n - ?m) = ?stop" using full(2) by (simp add: of_nat_diff)
    have "x_bulk_loop ?stop index ii g p = Some (take ?m xs @ take (n - ?m) (drop ?m xs), p3)"
      using t(1,2) stop False eq r(1) unfolding sum by (subst x_bulk_loop.simps) (simp add: Let_def entry)
    also have "take ?m xs @ take (n - ?m) (drop ?m xs) = take n xs" using full(2) by (metis less_imp_le_nat le_add_diff_inverse take_add)
    finally show ?thesis using r t(5) full(2) by (auto simp: drop_drop)
  qed
qed

lemma x_dequeue_bulk_ok:
  fixes most :: u64
  assumes q: "explicit_queue others pr p bl h e xs"
  defines "n \<equiv> min (unat most) (length xs)"
  shows "\<exists>pr' p'. x_dequeue_bulk most pr p = Some (take n xs, pr', p') \<and>
    explicit_queue others pr' p' bl (h + n) e (drop n xs) \<and> x_blockIndex pr' = x_blockIndex pr \<and> (\<forall>a \<in> others. heap p' a = heap p a)"
proof -
  have core: "x_core (heap p) pr bl h e xs" and fill: "32 * length bl < h + length xs + 32"
    and dis: "set bl \<inter> others = {}" and inv: "pool_inv p (others \<union> set bl)"
    using q by (simp_all add: explicit_queue_def x_ok_def)
  have len: "length xs < 2 ^ 63" and le: "h + length xs \<le> 32 * length bl" and blocks: "x_blocks_ok (heap p) bl h xs" "distinct bl"
    using core by (simp_all add: x_core_def)
  have c: "x_tailIndex pr - (x_dequeueOptimisticCount pr - x_dequeueOvercommit pr) = of_nat (length xs)"
    using core by (simp add: x_core_def)
  have u: "unat (of_nat (length xs) :: u64) = length xs" using len by (intro unat_of_nat_u64) simp
  have some: "circular_less_than 0 (of_nat (length xs)) \<longleftrightarrow> xs \<noteq> []"
    using u len by (subst circular_less_than_iff) (auto simp: word_unat_eq_iff)
  show ?thesis
  proof (cases "xs = []")
    case True
    with c some have "x_dequeue_bulk most pr p = Some ([], pr, p)" by (simp add: x_dequeue_bulk_def Let_def)
    with True q show ?thesis by (simp add: n_def)
  next
    case False
    let ?d = "if of_nat (length xs) < most then of_nat (length xs) else most"
    let ?pr = "pr\<lparr>x_dequeueOptimisticCount := x_dequeueOptimisticCount pr + of_nat n, x_headIndex := x_headIndex pr + of_nat n\<rparr>"
    have "unat ?d = min (length xs) (unat most)" using len by (intro unat_min_u64) simp
    then have "unat ?d = n" by (simp add: n_def min.commute)
    then have d: "?d = of_nat n" by (rule word_of_unat)
    have n: "n \<le> length xs" "n < 2 ^ 63" using len by (simp_all add: n_def)
    then have un: "unat (of_nat n :: u64) = n" by (intro unat_of_nat_u64) simp
    have "(of_nat n :: u64) < of_nat (length xs) \<longleftrightarrow> n < length xs" by (simp only: word_less_nat_alt un u)
    then have min_n: "(if of_nat n < (of_nat (length xs) :: u64) then of_nat n else of_nat (length xs)) = (of_nat n :: u64)"
      using n by (cases "n < length xs") simp_all
    have h: "h < 32 * length bl" using le False by (cases xs) simp_all
    from x_lookup_position [OF core h] obtain g a k where g: "current_index pr = Some g" "slot_for g (x_headIndex pr) = Some a"
      "slots_ok (xi_entries g) k (unat (pr_blockIndexFront pr)) e bl" "xi_size g = 2 ^ k" "k < 64"
      "unat a = ring_pos (2 ^ k) (unat (pr_blockIndexFront pr)) (length bl - h div 32)" by blast
    from x_bulk_loop_ok [OF blocks le inv _ x_tail_position(2) [OF core] h n g(3-6)] obtain p' where
      l: "x_bulk_loop (x_headIndex pr + of_nat n) (x_headIndex pr) a g p = Some (take n xs, p')" "pool_inv p' (others \<union> set bl)"
      "x_blocks_ok (heap p') bl (h + n) (drop n xs)" "\<forall>a. a \<notin> set bl \<longrightarrow> heap p' a = heap p a" by blast
    have some': "circular_less_than 0 (of_nat (length xs)) = True" using some False by simp
    have sel: "x_tailIndex (pr\<lparr>x_dequeueOptimisticCount := w\<rparr>) = x_tailIndex pr"
      "x_headIndex (pr\<lparr>x_dequeueOptimisticCount := w\<rparr>) = x_headIndex pr"
      "current_index ?pr = current_index pr" for w by (simp_all add: current_index_def)
    have "x_dequeue_bulk most pr p = do {
        h \<leftarrow> current_index ?pr;
        indexIndex \<leftarrow> slot_for h (x_headIndex pr);
        (els, p) \<leftarrow> x_bulk_loop (x_headIndex pr + of_nat n) (x_headIndex pr) indexIndex h p;
        Some (els, ?pr, p) }"
      unfolding x_dequeue_bulk_def Let_def
      by (simp only: sel(1,2) c some' if_True if_False d min_n less_irrefl)
    with g l have "x_dequeue_bulk most pr p = Some (take n xs, ?pr, p')" by (simp add: sel(3))
    moreover have "x_core (heap p') ?pr bl (h + n) e (drop n xs)"
    proof -
      have "(of_nat (length xs) :: u64) = of_nat n + of_nat (length xs - n)" using n(1) by (metis le_add_diff_inverse of_nat_add)
      moreover have "length xs - n < 2 ^ 63" using len by simp
      ultimately show ?thesis using core l(3) n unfolding x_core_def by (simp add: algebra_simps)
    qed
    then have "explicit_queue others ?pr p' bl (h + n) e (drop n xs)"
      using fill dis l(2) n by (simp add: explicit_queue_def x_ok_def)
    moreover have "\<forall>a \<in> others. heap p' a = heap p a" using l(4) dis by blast
    ultimately show ?thesis by auto
  qed
qed

end
