(* ===== verification/Cq_Explicit_Reserve.thy ===== *)
theory Cq_Explicit_Reserve
  imports Cq_Explicit_Bulk
begin

text \<open>
  \<open>include/concurrentqueue.h\<close>: \<open>enqueue_bulk\<close> of an explicit producer, and the blocks it takes before it constructs
  an element: first the empty ones ahead in the ring, then new ones, which are flagged empty until all are there; then
  the flags are reset and the front of the block index is published (with an element type whose copy may throw
  the code does this after the elements are there; no consumer looks in between here). When an allocation
  fails the new blocks stay in the ring and the counters are set back.
\<close>

section \<open>Adding many elements\<close>

definition x_append_slot :: "u64 \<Rightarrow> nat \<Rightarrow> explicit_producer \<Rightarrow> explicit_producer option" where
  "x_append_slot currentTailIndex b pr = do {
     pr \<leftarrow> store_slot currentTailIndex b pr;
     Some (pr\<lparr>pr_blockIndexFront := next_front pr\<rparr>) }"

text \<open>The empty blocks ahead, then new ones from the pool, which are marked as empty for the time being.\<close>

partial_function (option) x_take_ahead ::
  "'a pool \<Rightarrow> u64 \<Rightarrow> u64 \<Rightarrow> nat option \<Rightarrow> explicit_producer \<Rightarrow> (u64 \<times> u64 \<times> nat option \<times> explicit_producer) option" where
  "x_take_ahead p blockBaseDiff currentTailIndex firstAllocatedBlock pr =
     (case x_tailBlock pr of
        None \<Rightarrow> Some (blockBaseDiff, currentTailIndex, firstAllocatedBlock, pr)
      | Some t \<Rightarrow>
          if blockBaseDiff = 0 then Some (blockBaseDiff, currentTailIndex, firstAllocatedBlock, pr)
          else do {
            n \<leftarrow> get_next t p;
            free \<leftarrow> (if firstAllocatedBlock = Some n then Some False else x_is_empty n p);
            if \<not> free then Some (blockBaseDiff, currentTailIndex, firstAllocatedBlock, pr)
            else do {
              let currentTailIndex = currentTailIndex + BLOCK_SIZE;
              pr \<leftarrow> x_append_slot currentTailIndex n (pr\<lparr>x_tailBlock := Some n\<rparr>);
              x_take_ahead p (blockBaseDiff - BLOCK_SIZE) currentTailIndex
                (if firstAllocatedBlock = None then Some n else firstAllocatedBlock) pr } })"

definition x_undo :: "nat option \<Rightarrow> u64 \<Rightarrow> u64 \<Rightarrow> nat option \<Rightarrow> explicit_producer \<Rightarrow> explicit_producer" where
  "x_undo startBlock originalBlockIndexSlotsUsed originalBlockIndexFront firstAllocatedBlock pr =
     pr\<lparr>pr_blockIndexFront := originalBlockIndexFront, pr_blockIndexSlotsUsed := originalBlockIndexSlotsUsed,
        x_tailBlock := if startBlock = None then firstAllocatedBlock else startBlock\<rparr>"

partial_function (option) x_take_blocks ::
  "malloc_ok \<Rightarrow> nat option \<Rightarrow> u64 \<Rightarrow> u64 \<Rightarrow> u64 \<Rightarrow> u64 \<Rightarrow> nat option \<Rightarrow> explicit_producer \<Rightarrow> 'a pool \<Rightarrow>
   (bool \<times> nat option \<times> explicit_producer \<times> 'a pool) option" where
  "x_take_blocks mok startBlock originalBlockIndexSlotsUsed originalBlockIndexFront blockBaseDiff currentTailIndex firstAllocatedBlock pr p =
     (if blockBaseDiff = 0 then Some (True, firstAllocatedBlock, pr, p)
      else do {
        let blockBaseDiff = blockBaseDiff - BLOCK_SIZE;
        let currentTailIndex = currentTailIndex + BLOCK_SIZE;
        let full = x_limit currentTailIndex pr;
        (ok, originalBlockIndexFront, pr, p) \<leftarrow>
          (if circular_less_than currentTailIndex (x_headIndex pr) then None
           else if x_blockIndex pr = [] \<or> pr_blockIndexSlotsUsed pr = pr_blockIndexSize pr \<or> full then
             if full then Some (False, originalBlockIndexFront, pr, p)
             else do {
               (ok, pr, p) \<leftarrow> x_new_block_index mok originalBlockIndexSlotsUsed pr p;
               Some (ok, if ok then originalBlockIndexSlotsUsed else originalBlockIndexFront, pr, p) }
           else Some (True, originalBlockIndexFront, pr, p));
        if \<not> ok then
          Some (False, firstAllocatedBlock, x_undo startBlock originalBlockIndexSlotsUsed originalBlockIndexFront firstAllocatedBlock pr, p)
        else do {
          (ok, pr, p) \<leftarrow> x_add_block mok x_set_all_empty pr p;
          if \<not> ok then
            Some (False, firstAllocatedBlock, x_undo startBlock originalBlockIndexSlotsUsed originalBlockIndexFront firstAllocatedBlock pr, p)
          else do {
            n \<leftarrow> x_tailBlock pr;
            pr \<leftarrow> x_append_slot currentTailIndex n pr;
            x_take_blocks mok startBlock originalBlockIndexSlotsUsed originalBlockIndexFront blockBaseDiff currentTailIndex
              (if firstAllocatedBlock = None then Some n else firstAllocatedBlock) pr p } } })"

partial_function (option) x_reset_blocks :: "nat \<Rightarrow> nat \<Rightarrow> 'a pool \<Rightarrow> 'a pool option" where
  "x_reset_blocks tailb b p = do {
     p \<leftarrow> x_reset_empty b p;
     if b = tailb then Some p
     else do { n \<leftarrow> get_next b p; x_reset_blocks tailb n p } }"

definition x_enqueue_bulk ::
  "malloc_ok \<Rightarrow> 'a list \<Rightarrow> explicit_producer \<Rightarrow> 'a pool \<Rightarrow> (bool \<times> explicit_producer \<times> 'a pool) option" where
  "x_enqueue_bulk mok items pr p =
     (let count = of_nat (length items);
          startTailIndex = x_tailIndex pr;
          startBlock = x_tailBlock pr;
          originalBlockIndexFront = pr_blockIndexFront pr;
          originalBlockIndexSlotsUsed = pr_blockIndexSlotsUsed pr;
          currentTailIndex = (startTailIndex - 1) AND NOT (BLOCK_SIZE - 1);
          blockBaseDiff = ((startTailIndex + count - 1) AND NOT (BLOCK_SIZE - 1)) - currentTailIndex in
      do {
        (ok, firstAllocatedBlock, pr, p) \<leftarrow>
          (if 0 < blockBaseDiff then do {
             (blockBaseDiff, currentTailIndex, firstAllocatedBlock, pr) \<leftarrow> x_take_ahead p blockBaseDiff currentTailIndex None pr;
             (ok, firstAllocatedBlock, pr, p) \<leftarrow> x_take_blocks mok startBlock originalBlockIndexSlotsUsed originalBlockIndexFront
               blockBaseDiff currentTailIndex firstAllocatedBlock pr p;
             if \<not> ok then Some (False, firstAllocatedBlock, pr, p)
             else do {
               b \<leftarrow> firstAllocatedBlock;
               t \<leftarrow> x_tailBlock pr;
               p \<leftarrow> x_reset_blocks t b p;
               Some (True, firstAllocatedBlock, expose_front ((pr_blockIndexFront pr - 1) AND (pr_blockIndexSize pr - 1)) pr, p) } }
           else Some (True, None, pr, p));
        if \<not> ok then Some (False, pr, p)
        else if startTailIndex AND (BLOCK_SIZE - 1) = 0 \<and> firstAllocatedBlock = None \<and> count \<noteq> 0 then None
        else do {
          let endBlock = x_tailBlock pr;
          let tailb = (if startTailIndex AND (BLOCK_SIZE - 1) = 0 \<and> firstAllocatedBlock \<noteq> None
                       then firstAllocatedBlock else startBlock);
          (tailb, p) \<leftarrow> fill_blocks (startTailIndex + count) endBlock startTailIndex tailb items p;
          Some (True, pr\<lparr>x_tailBlock := tailb, x_tailIndex := startTailIndex + count\<rparr>, p) } })"

section \<open>The blocks that are taken\<close>

text \<open>The last \<open>c\<close> blocks of the ring are taken for the new elements; they are still flagged empty.\<close>

definition x_res :: "(nat \<rightharpoonup> 'a block) \<Rightarrow> explicit_producer \<Rightarrow> nat list \<Rightarrow> nat \<Rightarrow> u64 \<Rightarrow> nat \<Rightarrow> 'a list \<Rightarrow> bool" where
  "x_res hp pr bl h e c xs \<longleftrightarrow>
     slot_of e = 0 \<and> x_headIndex pr = e - of_nat (32 * length bl) + of_nat h \<and>
     x_tailIndex pr = x_headIndex pr + of_nat (length xs) \<and>
     x_dequeueOptimisticCount pr - x_dequeueOvercommit pr = x_headIndex pr \<and>
     c \<le> length bl \<and> h + length xs \<le> 32 * (length bl - c) \<and> 32 * length bl < 2 ^ 63 + 32 \<and> length xs < 2 ^ 63 \<and>
     distinct bl \<and> x_tailBlock pr = (if bl = [] then None else Some (last bl)) \<and> x_slots pr e bl \<and>
     x_ring hp bl (\<lambda>i s. 32 * i + s < h \<or> length bl - c \<le> i) \<and>
     (\<forall>i < length xs. element_at hp bl (h + i) (xs ! i))"

lemma x_res_core:
  assumes "x_core hp pr bl h e xs"
  shows "x_res hp pr bl h e 0 xs"
  using assms by (simp add: x_core_def x_res_def x_blocks_ok_ring) (subst x_ring_cong [where G = "\<lambda>i s. 32 * i + s < h"]; simp)

lemma x_ring_next:
  assumes "x_ring hp bl F" "i < length bl"
  obtains x where "hp (bl ! i) = Some x" "next_block x = Some (bl ! (Suc i mod length bl))" "length (emptyFlags x) = 32"
    "\<forall>s < 32. emptyFlags x ! (31 - s) \<longleftrightarrow> F i s"
  using assms unfolding x_ring_def by blast

lemma all_flags:
  assumes "length fs = 32"
  shows "list_all (\<lambda>flag. flag) fs \<longleftrightarrow> (\<forall>s < 32. fs ! (31 - s))"
proof
  assume all: "\<forall>s < 32. fs ! (31 - s)"
  have "fs ! i" if "i < 32" for i using all [rule_format, of "31 - i"] that by simp
  then show "list_all (\<lambda>flag. flag) fs" using assms by (simp add: list_all_length)
qed (use assms in \<open>simp add: list_all_length\<close>)

lemma x_ring_rotate:
  assumes "x_ring hp bl F"
  shows "x_ring hp (rotate1 bl) (\<lambda>i. F (Suc i mod length bl))"
  unfolding x_ring_def
proof (intro allI impI)
  fix i assume "i < length (rotate1 bl)"
  then have i: "i < length bl" by simp
  then have "Suc i mod length bl < length bl" by (metis mod_less_divisor not_less0 not_gr_zero)
  from x_ring_next [OF assms this] obtain x where "hp (bl ! (Suc i mod length bl)) = Some x"
    "next_block x = Some (bl ! (Suc (Suc i mod length bl) mod length bl))" "length (emptyFlags x) = 32"
    "\<forall>s < 32. emptyFlags x ! (31 - s) \<longleftrightarrow> F (Suc i mod length bl) s" .
  moreover have "rotate1 bl ! i = bl ! (Suc i mod length bl)"
    "rotate1 bl ! (Suc i mod length bl) = bl ! (Suc (Suc i mod length bl) mod length bl)"
    using i \<open>Suc i mod length bl < length bl\<close> by (simp_all add: nth_rotate1)
  ultimately show "\<exists>x. hp (rotate1 bl ! i) = Some x \<and> next_block x = Some (rotate1 bl ! (Suc i mod length (rotate1 bl))) \<and>
    length (emptyFlags x) = 32 \<and> (\<forall>s < 32. emptyFlags x ! (31 - s) \<longleftrightarrow> F (Suc i mod length bl) s)" by simp
qed

lemma x_append_ok:
  assumes idx: "x_slots pr0 e bl0" "x_blockIndex pr0 \<noteq> []" and sub: "bl = drop m bl0" "length bl < unat (pr_blockIndexSize pr0)"
    and used: "unat used = Suc (length bl)"
  shows "\<exists>pr'. x_append_slot e b (pr0\<lparr>x_tailBlock := Some b, pr_blockIndexSlotsUsed := used\<rparr>) = Some pr' \<and>
    x_same (pr0\<lparr>x_tailBlock := Some b, pr_blockIndexSlotsUsed := used\<rparr>) pr' \<and> x_slots pr' (e + 32) (bl @ [b]) \<and> x_blockIndex pr' \<noteq> []"
proof -
  let ?pr = "pr0\<lparr>x_tailBlock := Some b, pr_blockIndexSlotsUsed := used\<rparr>"
  from idx(2) obtain h hs where h: "x_blockIndex pr0 = h # hs" by (auto simp: neq_Nil_conv)
  from x_store_slot [OF idx(1) h sub, of ?pr b] h used obtain g k where
    g: "store_slot e b ?pr = Some (?pr\<lparr>x_blockIndex := g # hs\<rparr>)"
    "\<And>w. x_slots (?pr\<lparr>x_blockIndex := g\<lparr>xi_front := w\<rparr> # hs, pr_blockIndexFront := next_front ?pr\<rparr>) (e + 32) (bl @ [b])"
    by auto
  from g(2) [of "xi_front g"] have "x_slots (?pr\<lparr>x_blockIndex := g # hs, pr_blockIndexFront := next_front ?pr\<rparr>) (e + 32) (bl @ [b])"
    by simp
  moreover have "next_front (?pr\<lparr>x_blockIndex := g # hs\<rparr>) = next_front ?pr" by (simp add: next_front_def)
  ultimately show ?thesis using g(1) by (simp add: x_append_slot_def x_same_def)
qed

lemma x_slots_sizes:
  assumes "x_slots pr e bl"
  shows "unat (pr_blockIndexSlotsUsed pr) = length bl" "bl \<noteq> [] \<Longrightarrow> x_blockIndex pr \<noteq> []"
    "bl \<noteq> [] \<Longrightarrow> length bl \<le> unat (pr_blockIndexSize pr)"
proof -
  show "unat (pr_blockIndexSlotsUsed pr) = length bl" using assms by (simp add: x_slots_def)
  show i: "bl \<noteq> [] \<Longrightarrow> x_blockIndex pr \<noteq> []" using assms by (auto simp: x_slots_def)
  assume "bl \<noteq> []"
  then obtain g gs where "x_blockIndex pr = g # gs" using i by (auto simp: neq_Nil_conv)
  from x_slots_power [OF assms this] show "length bl \<le> unat (pr_blockIndexSize pr)" by (metis slots_ok_def)
qed

text \<open>One empty block ahead is taken.\<close>

lemma x_res_turn:
  assumes r: "x_res hp pr bl h e c xs" and c: "c < length bl" and h: "32 \<le> h"
  shows "\<exists>pr'. x_append_slot e (hd bl) (pr\<lparr>x_tailBlock := Some (hd bl)\<rparr>) = Some pr' \<and>
    x_res hp pr' (rotate1 bl) (h - 32) (e + 32) (Suc c) xs \<and> x_tailIndex pr' = x_tailIndex pr"
proof -
  let ?n = "length bl"
  have ne: "bl \<noteq> []" using c by auto
  have slots: "x_slots pr e bl" using r by (simp add: x_res_def)
  note sizes = x_slots_sizes [OF slots]
  have "length (tl bl) < unat (pr_blockIndexSize pr)" "unat (pr_blockIndexSlotsUsed pr) = Suc (length (tl bl))"
    using sizes(1) sizes(3) [OF ne] ne by (cases bl; simp)+
  from x_append_ok [OF slots sizes(2) [OF ne] _ this, of 1 "hd bl"] obtain pr' where
    pr': "x_append_slot e (hd bl) (pr\<lparr>x_tailBlock := Some (hd bl), pr_blockIndexSlotsUsed := pr_blockIndexSlotsUsed pr\<rparr>) = Some pr'"
    "x_same (pr\<lparr>x_tailBlock := Some (hd bl), pr_blockIndexSlotsUsed := pr_blockIndexSlotsUsed pr\<rparr>) pr'"
    "x_slots pr' (e + 32) (tl bl @ [hd bl])" by (auto simp: drop_Suc)
  have upd: "pr\<lparr>x_tailBlock := t, pr_blockIndexSlotsUsed := pr_blockIndexSlotsUsed pr\<rparr> = pr\<lparr>x_tailBlock := t\<rparr>" for t by simp
  have rot: "rotate1 bl = tl bl @ [hd bl]" using ne by (cases bl) simp_all
  have "x_ring hp (rotate1 bl) (\<lambda>i s. 32 * (Suc i mod ?n) + s < h \<or> ?n - c \<le> Suc i mod ?n)"
    by (rule x_ring_rotate) (use r in \<open>simp add: x_res_def\<close>)
  moreover have "(32 * (Suc i mod ?n) + s < h \<or> ?n - c \<le> Suc i mod ?n) \<longleftrightarrow> (32 * i + s < h - 32 \<or> ?n - Suc c \<le> i)"
    if "i < ?n" "s < 32" for i s
  proof (cases "Suc i = ?n")
    case True
    then show ?thesis using h that by auto
  next
    case False
    then have "Suc i mod ?n = Suc i" using that by simp
    then show ?thesis using h by auto
  qed
  ultimately have ring: "x_ring hp (rotate1 bl) (\<lambda>i s. 32 * i + s < h - 32 \<or> length (rotate1 bl) - Suc c \<le> i)"
    by (subst x_ring_cong [where G = "\<lambda>i s. 32 * (Suc i mod ?n) + s < h \<or> ?n - c \<le> Suc i mod ?n"]) simp_all
  have le: "h + length xs \<le> 32 * (?n - c)" using r by (simp add: x_res_def)
  have el: "element_at hp (rotate1 bl) (h - 32 + i) (xs ! i)" if i: "i < length xs" for i
  proof -
    let ?d = "(h - 32 + i) div 32"
    from h obtain j where "h = 32 + j" using le_Suc_ex by blast
    then have q: "(h + i) div 32 = Suc ?d" "(h + i) mod 32 = (h - 32 + i) mod 32" by (simp_all add: add.assoc)
    moreover have "(h + i) div 32 < ?n" using i le by (intro less_mult_imp_div_less) simp
    moreover have "element_at hp bl (h + i) (xs ! i)" using r i by (simp add: x_res_def)
    ultimately show ?thesis by (simp add: element_at_def nth_rotate1)
  qed
  have "slot_of (e + 32) = 0" using r slot_of_add [of e 32] by (simp add: x_res_def)
  moreover have "(of_nat h :: u64) = 32 + of_nat (h - 32)" using h by (metis le_add_diff_inverse of_nat_add of_nat_numeral)
  then have "x_headIndex pr = e + 32 - of_nat (32 * ?n) + of_nat (h - 32)" using r by (simp add: x_res_def)
  moreover have "h - 32 + length xs \<le> 32 * (?n - Suc c)" using le h c by (cases "?n - c") auto
  moreover have "distinct (rotate1 bl)" using r by (simp add: x_res_def)
  moreover have "rotate1 bl \<noteq> []" "last (rotate1 bl) = hd bl" using rot by simp_all
  ultimately have "x_res hp pr' (rotate1 bl) (h - 32) (e + 32) (Suc c) xs"
    using r c ring el pr'(2,3) unfolding x_res_def x_same_def rot [symmetric] by simp
  then show ?thesis using pr'(1,2) unfolding upd by (auto simp: x_same_def)
qed

lemma x_take_ahead_ok:
  assumes "x_res (heap p) pr bl h e c xs" "32 * nb < 2 ^ 64" "c < length bl \<longrightarrow> bl ! (length bl - 1 - c) = sb"
    and "first = (if c = 0 then None else Some (bl ! (length bl - c)))"
  shows "\<exists>m pr' bl' first'. x_take_ahead p (of_nat (32 * nb)) (e - 32) first pr =
      Some (of_nat (32 * (nb - m)), e - 32 + of_nat (32 * m), first', pr') \<and>
    x_res (heap p) pr' bl' (h - 32 * m) (e + of_nat (32 * m)) (c + m) xs \<and> x_tailIndex pr' = x_tailIndex pr \<and>
    32 * m \<le> h \<and> m \<le> nb \<and> set bl' = set bl \<and> length bl' = length bl \<and> (m < nb \<longrightarrow> h - 32 * m < 32) \<and>
    (c + m < length bl \<longrightarrow> bl' ! (length bl - 1 - (c + m)) = sb) \<and>
    first' = (if c + m = 0 then None else Some (bl' ! (length bl - (c + m))))"
  using assms
proof (induction nb arbitrary: pr bl h e c first)
  case 0
  then have "x_take_ahead p 0 (e - 32) first pr = Some (0, e - 32, first, pr)"
    by (subst x_take_ahead.simps) (simp split: option.split)
  with 0 show ?case by (intro exI [of _ 0] exI [of _ pr] exI [of _ bl] exI [of _ first]) simp
next
  case (Suc nb)
  let ?n = "length bl"
  have stop: ?case if "x_take_ahead p (of_nat (32 * Suc nb)) (e - 32) first pr = Some (of_nat (32 * Suc nb), e - 32, first, pr)" "h < 32"
    using that Suc.prems by (intro exI [of _ 0] exI [of _ pr] exI [of _ bl] exI [of _ first]) simp
  have diff: "(of_nat (32 * Suc nb) :: u64) \<noteq> 0" "of_nat (32 * Suc nb) - BLOCK_SIZE = (of_nat (32 * nb) :: u64)"
    using Suc.prems(2) unat_of_nat_u64 [of "32 * Suc nb"] by (auto simp: BLOCK_SIZE_def simp del: of_nat_mult of_nat_Suc)
  have c: "c \<le> ?n" and le: "h + length xs \<le> 32 * (?n - c)" and tb: "x_tailBlock pr = (if bl = [] then None else Some (last bl))"
    and ring: "x_ring (heap p) bl (\<lambda>i s. 32 * i + s < h \<or> ?n - c \<le> i)" and dist: "distinct bl"
    using Suc.prems(1) by (simp_all add: x_res_def)
  show ?case
  proof (cases "bl = []")
    case True
    then have "x_take_ahead p (of_nat (32 * Suc nb)) (e - 32) first pr = Some (of_nat (32 * Suc nb), e - 32, first, pr)"
      using tb by (subst x_take_ahead.simps) simp
    then show ?thesis using stop True le by simp
  next
    case False
    then have n0: "0 < ?n" "?n - 1 < ?n" "last bl = bl ! (?n - 1)" "hd bl = bl ! 0" by (simp_all add: last_conv_nth hd_conv_nth)
    from x_ring_next [OF ring n0(2)] obtain t where "heap p (last bl) = Some t" "next_block t = Some (bl ! (Suc (?n - 1) mod ?n))"
      unfolding n0(3) by blast
    moreover have "Suc (?n - 1) mod ?n = 0" using n0(1) by simp
    ultimately have nx: "get_next (last bl) p = Some (hd bl)" using n0(4) by (simp add: get_next_def)
    show ?thesis
    proof (cases "c = ?n")
      case True
      then have "first = Some (hd bl)" using Suc.prems(4) n0 False by simp
      then have "x_take_ahead p (of_nat (32 * Suc nb)) (e - 32) first pr = Some (of_nat (32 * Suc nb), e - 32, first, pr)"
        using tb False nx diff(1) by (subst x_take_ahead.simps) simp
      then show ?thesis using stop True le by simp
    next
      case less: False
      with c have cl: "c < ?n" by simp
      have first: "first \<noteq> Some (hd bl)" using Suc.prems(4) cl n0 dist by (auto simp: nth_eq_iff_index_eq)
      from x_ring_next [OF ring n0(1)] obtain x where x: "heap p (hd bl) = Some x" "length (emptyFlags x) = 32"
        "\<forall>s < 32. emptyFlags x ! (31 - s) \<longleftrightarrow> s < h" using cl n0(4) by auto
      have "list_all (\<lambda>flag. flag) (emptyFlags x) \<longleftrightarrow> 32 \<le> h"
        unfolding all_flags [OF x(2)] using x(3) by (metis le_less_linear less_le_trans numeral_less_iff Suc_leI linorder_not_less lessI
            numeral_nat(2) less_Suc_eq_le order_refl semiring_norm(26) semiring_norm(27) eval_nat_numeral(3) Suc_numeral semiring_norm(5) semiring_norm(8))
      then have emp: "x_is_empty (hd bl) p = Some (32 \<le> h)" using x(1) by (simp add: x_is_empty_def)
      show ?thesis
      proof (cases "32 \<le> h")
        case False
        then have "x_take_ahead p (of_nat (32 * Suc nb)) (e - 32) first pr = Some (of_nat (32 * Suc nb), e - 32, first, pr)"
          using tb \<open>bl \<noteq> []\<close> nx diff(1) emp first by (subst x_take_ahead.simps) simp
        then show ?thesis using stop False by simp
      next
        case True
        from x_res_turn [OF Suc.prems(1) cl True] obtain pr1 where
          t: "x_append_slot e (hd bl) (pr\<lparr>x_tailBlock := Some (hd bl)\<rparr>) = Some pr1"
          "x_res (heap p) pr1 (rotate1 bl) (h - 32) (e + 32) (Suc c) xs" "x_tailIndex pr1 = x_tailIndex pr" by blast
        let ?first = "if first = None then Some (hd bl) else first"
        have run: "x_take_ahead p (of_nat (32 * Suc nb)) (e - 32) first pr =
            x_take_ahead p (of_nat (32 * nb)) (e + 32 - 32) ?first pr1"
          using tb False nx diff emp first True t(1) by (subst x_take_ahead.simps) (simp add: Let_def BLOCK_SIZE_def)
        have len: "length (rotate1 bl) = ?n" by simp
        have f: "?first = (if Suc c = 0 then None else Some (rotate1 bl ! (length (rotate1 bl) - Suc c)))"
        proof (cases "c = 0")
          case True
          then show ?thesis using Suc.prems(4) n0 by (simp add: nth_rotate1)
        next
          case c0: False
          then have "Suc (?n - Suc c) mod ?n = ?n - c" using cl by simp
          then show ?thesis using Suc.prems(4) c0 cl by (simp add: nth_rotate1)
        qed
        have sb: "Suc c < length (rotate1 bl) \<longrightarrow> rotate1 bl ! (length (rotate1 bl) - 1 - Suc c) = sb"
        proof
          assume "Suc c < length (rotate1 bl)"
          then have "Suc (?n - 1 - Suc c) = ?n - 1 - c" "?n - 1 - Suc c < ?n" "?n - 1 - c < ?n" by simp_all
          then show "rotate1 bl ! (length (rotate1 bl) - 1 - Suc c) = sb"
            using Suc.prems(3) cl by (simp add: nth_rotate1 del: One_nat_def)
        qed
        have "32 * nb < 2 ^ 64" using Suc.prems(2) by simp
        from Suc.IH [OF t(2) this sb f] obtain m pr' bl' first' where
          r: "x_take_ahead p (of_nat (32 * nb)) (e + 32 - 32) ?first pr1 = Some (of_nat (32 * (nb - m)), e + 32 - 32 + of_nat (32 * m), first', pr')"
          "x_res (heap p) pr' bl' (h - 32 - 32 * m) (e + 32 + of_nat (32 * m)) (Suc c + m) xs" "x_tailIndex pr' = x_tailIndex pr1"
          "32 * m \<le> h - 32" "m \<le> nb" "set bl' = set (rotate1 bl)" "length bl' = length (rotate1 bl)" "m < nb \<longrightarrow> h - 32 - 32 * m < 32"
          "Suc c + m < length (rotate1 bl) \<longrightarrow> bl' ! (length (rotate1 bl) - 1 - (Suc c + m)) = sb"
          "first' = (if Suc c + m = 0 then None else Some (bl' ! (length (rotate1 bl) - (Suc c + m))))" by blast
        have w: "e + 32 - 32 + of_nat (32 * m) = e - 32 + of_nat (32 * Suc m)" "e + 32 + of_nat (32 * m) = e + of_nat (32 * Suc m)"
          by (simp_all add: algebra_simps)
        have hm: "h - 32 - 32 * m = h - 32 * Suc m" "Suc c + m = c + Suc m" "nb - m = Suc nb - Suc m" by simp_all
        show ?thesis
          using r(4-10) True t(3) run r(1-3) unfolding w hm len
          by (intro exI [of _ "Suc m"] exI [of _ pr'] exI [of _ bl'] exI [of _ first']) auto
      qed
    qed
  qed
qed

lemma x_res_limits:
  assumes r: "x_res hp pr bl h e c xs" and d: "32 * length bl < 2 ^ 63 + h"
  shows "\<not> circular_less_than e (x_headIndex pr)" "32 * length bl + 32 < 2 ^ 63 + h \<Longrightarrow> \<not> x_limit e pr"
proof -
  let ?d = "32 * length bl - h"
  have "h + length xs \<le> 32 * (length bl - c)" using r by (simp add: x_res_def)
  then have le: "h \<le> 32 * length bl" by simp
  have head: "e - x_headIndex pr = of_nat ?d" using r le by (simp add: x_res_def of_nat_diff)
  have "unat (of_nat ?d :: u64) = ?d" using d by (intro unat_of_nat_u64) simp
  then have u: "unat (e - x_headIndex pr) = ?d" using head by simp
  then show "\<not> circular_less_than e (x_headIndex pr)" using d by (simp add: circular_less_than_unat)
  assume d32: "32 * length bl + 32 < 2 ^ 63 + h"
  have "e + BLOCK_SIZE - x_headIndex pr = of_nat (?d + 32)" using head by (simp add: BLOCK_SIZE_def algebra_simps)
  moreover have "unat (of_nat (?d + 32) :: u64) = ?d + 32" using d32 by (intro unat_of_nat_u64) simp
  ultimately have v: "unat (e + BLOCK_SIZE - x_headIndex pr) = ?d + 32" by simp
  then have "x_headIndex pr \<noteq> e + BLOCK_SIZE" by auto
  with v have "circular_less_than (x_headIndex pr) (e + BLOCK_SIZE)"
    using d32 le by (auto simp: circular_less_than_unat unat_minus_swap [of "x_headIndex pr" "e + BLOCK_SIZE"])
  then show "\<not> x_limit e pr" by (simp add: x_limit_def MAX_SUBQUEUE_SIZE_def)
qed

lemma x_res_same:
  assumes "x_res hp pr bl h e c xs" "x_same pr pr'" "x_slots pr' e bl"
  shows "x_res hp pr' bl h e c xs"
  using assms by (simp add: x_res_def x_same_def)

lemma x_ring_heap: "\<forall>b \<in> set bl. hp' b = hp b \<Longrightarrow> x_ring hp' bl F = x_ring hp bl F"
  by (simp add: x_ring_def)

lemma x_res_cong:
  assumes r: "x_res hp pr bl h e c xs" and "\<forall>b \<in> set bl. hp' b = hp b"
  shows "x_res hp' pr bl h e c xs"
proof -
  have le: "h + length xs \<le> 32 * (length bl - c)" using r by (simp add: x_res_def)
  have "(h + i) div 32 < length bl" if "i < length xs" for i
    using le that by (intro less_mult_imp_div_less) simp
  moreover note x_ring_heap [OF assms(2)]
  ultimately show ?thesis using assms by (simp add: x_res_def element_at_def)
qed

lemma x_room_index:
  fixes p :: "'a pool"
  assumes slots: "x_slots pr e bl" and small: "32 * length bl < 2 ^ 63 + 32" and inv: "pool_inv p used"
  shows "\<exists>ok orig' pr' p'. (if x_blockIndex pr = [] \<or> pr_blockIndexSlotsUsed pr = pr_blockIndexSize pr
      then do { (ok, pr, p) \<leftarrow> x_new_block_index mok n pr p; Some (ok, if ok then n else orig, pr, p) }
      else Some (True, orig, pr, p)) = Some (ok, orig', pr', p') \<and>
    pool_inv p' used \<and> heap p' = heap p \<and> x_same pr pr' \<and> x_slots pr' e bl \<and>
    (ok \<longrightarrow> x_blockIndex pr' \<noteq> [] \<and> length bl < unat (pr_blockIndexSize pr')) \<and> (mok = (\<lambda>_. True) \<longrightarrow> ok)"
proof (cases "x_blockIndex pr = [] \<or> pr_blockIndexSlotsUsed pr = pr_blockIndexSize pr")
  case False
  then obtain g gs where "x_blockIndex pr = g # gs" by (auto simp: neq_Nil_conv)
  from x_slots_power [OF slots this] have "unat (pr_blockIndexSlotsUsed pr) = length bl"
    "length bl \<le> unat (pr_blockIndexSize pr)" by (metis slots_ok_def)+
  moreover have "unat (pr_blockIndexSlotsUsed pr) \<noteq> unat (pr_blockIndexSize pr)" using False by (simp add: word_unat_eq_iff)
  ultimately show ?thesis using False inv slots by auto
next
  case True
  let ?p = "p\<lparr>mallocs := mallocs p + 1\<rparr>"
  from x_new_block_index_ok [OF slots True small, of mok n p] obtain pr' where
    new: "x_new_block_index mok n pr p = Some (mok (mallocs p), pr', ?p)" "x_same pr pr'" "x_slots pr' e bl" and
    parts: "if mok (mallocs p) then pr_blockIndexFront pr' = of_nat (length bl) \<and> length bl < unat (pr_blockIndexSize pr') \<and>
     (\<exists>h. current_index pr' = Some h \<and> xi_front h = n - 1)
     else pr' = pr" by blast
  have "pool_inv ?p used" using inv by (auto simp: pool_inv_def pool_ok_def)
  moreover have "mok (mallocs p) \<longrightarrow> x_blockIndex pr' \<noteq> [] \<and> length bl < unat (pr_blockIndexSize pr')"
    using parts by (auto simp: current_index_def)
  ultimately show ?thesis using True new by auto
qed

lemma x_res_insert:
  assumes r: "x_res (heap p) pr bl h e c xs" and inv: "pool_inv p used" and sub: "set bl \<subseteq> used" "b \<in> used" "b \<notin> set bl"
    and room: "x_blockIndex pr \<noteq> []" "length bl < unat (pr_blockIndexSize pr)" and small: "32 * Suc (length bl) < 2 ^ 63 + 32"
  shows "\<exists>p1 p' pr'. x_set_all_empty b p = Some p1 \<and> link_block b (x_tailBlock pr) p1 = Some p' \<and> pool_inv p' used \<and>
    x_append_slot e b (pr\<lparr>x_tailBlock := Some b, pr_blockIndexSlotsUsed := pr_blockIndexSlotsUsed pr + 1\<rparr>) = Some pr' \<and>
    x_res (heap p') pr' (bl @ [b]) h (e + 32) (Suc c) xs \<and> x_tailIndex pr' = x_tailIndex pr \<and>
    (\<forall>a. a \<notin> insert b (set bl) \<longrightarrow> heap p' a = heap p a)"
proof -
  let ?n = "length bl"
  have dist: "distinct bl" and slots: "x_slots pr e bl" and ring: "x_ring (heap p) bl (\<lambda>i s. 32 * i + s < h \<or> ?n - c \<le> i)"
    and tb: "x_tailBlock pr = (if bl = [] then None else Some (last bl))" and le: "h + length xs \<le> 32 * (?n - c)" and c: "c \<le> ?n"
    using r by (simp_all add: x_res_def)
  from pool_read [OF inv sub(2)] obtain x where x: "heap p b = Some x" "freeListRefs x = 0" "length (elements x) = 32" .
  let ?p1 = "put_block b (x\<lparr>emptyFlags := replicate 32 True\<rparr>) p"
  have inv1: "pool_inv ?p1 used" using pool_write [OF inv sub(2) x(1)] x by simp
  have "x_ring (heap ?p1) bl (\<lambda>i s. 32 * i + s < h \<or> ?n - c \<le> i)"
    using ring sub(3) by (subst x_ring_heap [where hp = "heap p"]) auto
  from x_link_ring [OF this dist inv1 sub, of _ True] obtain p' where
    p': "link_block b (if bl = [] then None else Some (last bl)) ?p1 = Some p'" "pool_inv p' used"
    "x_ring (heap p') (bl @ [b]) (\<lambda>i s. if i = ?n then True else 32 * i + s < h \<or> ?n - c \<le> i)"
    "\<forall>a. map_option elements (heap p' a) = map_option elements (heap ?p1 a)" "\<forall>a. a \<notin> insert b (set bl) \<longrightarrow> heap p' a = heap ?p1 a"
    by auto
  have "x_ring (heap p') (bl @ [b]) (\<lambda>i s. 32 * i + s < h \<or> length (bl @ [b]) - Suc c \<le> i)"
    using p'(3) c by (subst x_ring_cong [where G = "\<lambda>i s. if i = ?n then True else 32 * i + s < h \<or> ?n - c \<le> i"]) auto
  moreover have "element_at (heap p') (bl @ [b]) (h + i) (xs ! i)" if i: "i < length xs" for i
  proof -
    have d: "(h + i) div 32 < ?n" using i le by (intro less_mult_imp_div_less) simp
    have "map_option elements (heap p' a) = map_option elements (heap p a)" for a using p'(4) x by simp
    then have "element_at (heap p') (bl @ [b]) (h + i) v = element_at (heap p) (bl @ [b]) (h + i) v" for v
      by (rule element_at_cong)
    then show ?thesis using r i d by (simp add: x_res_def element_at_def nth_append)
  qed
  moreover have "unat (pr_blockIndexSlotsUsed pr + 1) = Suc ?n"
    using x_slots_sizes(1) [OF slots] small by (simp add: unat_add_small [of _ 1, simplified])
  from x_append_ok [OF slots room(1) _ room(2) this, of 0 b] obtain pr' where
    pr': "x_append_slot e b (pr\<lparr>x_tailBlock := Some b, pr_blockIndexSlotsUsed := pr_blockIndexSlotsUsed pr + 1\<rparr>) = Some pr'"
    "x_same (pr\<lparr>x_tailBlock := Some b, pr_blockIndexSlotsUsed := pr_blockIndexSlotsUsed pr + 1\<rparr>) pr'"
    "x_slots pr' (e + 32) (bl @ [b])" by auto
  moreover have "slot_of (e + 32) = 0" using r slot_of_add [of e 32] by (simp add: x_res_def)
  moreover have "x_headIndex pr = e + 32 - of_nat (32 * length (bl @ [b])) + of_nat h" using r by (simp add: x_res_def algebra_simps)
  moreover have "distinct (bl @ [b])" using dist sub(3) by simp
  moreover have "Suc ?n - Suc c = ?n - c" by simp
  ultimately have "x_res (heap p') pr' (bl @ [b]) h (e + 32) (Suc c) xs"
    using r c small unfolding x_res_def x_same_def by simp
  moreover have "x_set_all_empty b p = Some ?p1" using x by (simp add: x_set_all_empty_def)
  ultimately show ?thesis using p'(1,2,5) pr'(1,2) tb by (auto simp: x_same_def)
qed

lemma x_take_blocks_ok:
  assumes "x_res (heap p) pr bl h e c xs" "nb \<noteq> 0 \<longrightarrow> h < 32" "pool_inv p (others \<union> set bl)" "set bl \<inter> others = {}"
    and "32 * (length bl + nb) < 2 ^ 63 + h" "c < length bl \<longrightarrow> bl ! (length bl - 1 - c) = sb"
    and "first = (if c = 0 then None else Some (bl ! (length bl - c)))"
  shows "\<exists>ok first' pr' p' bl'. x_take_blocks mok start used0 front0 (of_nat (32 * nb)) (e - 32) first pr p = Some (ok, first', pr', p') \<and>
    pool_inv p' (others \<union> set bl') \<and> set bl' \<inter> others = {} \<and> (\<forall>a \<in> others. heap p' a = heap p a) \<and> (mok = (\<lambda>_. True) \<longrightarrow> ok) \<and>
    (ok \<longrightarrow> x_res (heap p') pr' bl' h (e + of_nat (32 * nb)) (c + nb) xs \<and> x_tailIndex pr' = x_tailIndex pr \<and>
       length bl' = length bl + nb \<and> (c + nb < length bl' \<longrightarrow> bl' ! (length bl' - 1 - (c + nb)) = sb) \<and>
       first' = (if c + nb = 0 then None else Some (bl' ! (length bl' - (c + nb)))))"
  using assms
proof (induction nb arbitrary: p pr bl e c first front0)
  case 0
  then have "x_take_blocks mok start used0 front0 0 (e - 32) first pr p = Some (True, first, pr, p)"
    by (subst x_take_blocks.simps) simp
  with 0 show ?case by (intro exI [of _ True] exI [of _ first] exI [of _ pr] exI [of _ p] exI [of _ bl]) simp
next
  case (Suc nb)
  let ?n = "length bl" and ?u = "others \<union> set bl"
  have slots: "x_slots pr e bl" and small: "32 * ?n < 2 ^ 63 + 32" and c: "c \<le> ?n" using Suc.prems(1) by (simp_all add: x_res_def)
  have lim: "32 * ?n < 2 ^ 63 + h" "32 * ?n + 32 < 2 ^ 63 + h" "32 * Suc ?n < 2 ^ 63 + 32" "32 * Suc nb < 2 ^ 64"
    using Suc.prems(2,5) by simp_all
  have h32: "nb \<noteq> 0 \<longrightarrow> h < 32" using Suc.prems(2) by simp
  have diff: "(of_nat (32 * Suc nb) :: u64) \<noteq> 0" "of_nat (32 * Suc nb) - BLOCK_SIZE = (of_nat (32 * nb) :: u64)"
    using lim(4) unat_of_nat_u64 [of "32 * Suc nb"] by (auto simp: BLOCK_SIZE_def simp del: of_nat_mult of_nat_Suc)
  have cur: "e - 32 + BLOCK_SIZE = e" by (simp add: BLOCK_SIZE_def)
  note tests = x_res_limits [OF Suc.prems(1) lim(1)]
  from x_room_index [OF slots small Suc.prems(3), of mok used0 front0] obtain ok orig pr1 p1 where
    room: "(if x_blockIndex pr = [] \<or> pr_blockIndexSlotsUsed pr = pr_blockIndexSize pr
      then do { (ok, pr, p) \<leftarrow> x_new_block_index mok used0 pr p; Some (ok, if ok then used0 else front0, pr, p) }
      else Some (True, front0, pr, p)) = Some (ok, orig, pr1, p1)"
    "pool_inv p1 ?u" "heap p1 = heap p" "x_same pr pr1" "x_slots pr1 e bl"
    "ok \<longrightarrow> x_blockIndex pr1 \<noteq> [] \<and> ?n < unat (pr_blockIndexSize pr1)" "mok = (\<lambda>_. True) \<longrightarrow> ok" by blast
  have run: "x_take_blocks mok start used0 front0 (of_nat (32 * Suc nb)) (e - 32) first pr p =
      (if \<not> ok then Some (False, first, x_undo start used0 orig first pr1, p1)
       else do {
         (ok, pr, p) \<leftarrow> x_add_block mok x_set_all_empty pr1 p1;
         if \<not> ok then Some (False, first, x_undo start used0 orig first pr, p)
         else do {
           n \<leftarrow> x_tailBlock pr;
           pr \<leftarrow> x_append_slot e n pr;
           x_take_blocks mok start used0 orig (of_nat (32 * nb)) e (if first = None then Some n else first) pr p } })"
    using room(1) diff(1) tests(1) tests(2) [OF lim(2)]
    by (subst x_take_blocks.simps) (simp add: diff(2) cur Let_def del: of_nat_mult of_nat_Suc mult_Suc_right of_nat_add cong: if_cong)
  show ?case
  proof (cases ok)
    case False
    then have "x_take_blocks mok start used0 front0 (of_nat (32 * Suc nb)) (e - 32) first pr p =
      Some (False, first, x_undo start used0 orig first pr1, p1)" using run by simp
    then show ?thesis using room(2,3,7) Suc.prems(4) False by (intro exI [of _ False]) auto
  next
    case True
    with room(6) have idx: "x_blockIndex pr1 \<noteq> []" "?n < unat (pr_blockIndexSize pr1)" by simp_all
    have r1: "x_res (heap p1) pr1 bl h e c xs" using x_res_same [OF Suc.prems(1) room(4,5)] room(3) by simp
    from room(2) show ?thesis
    proof (cases rule: pool.alloc_cases [where mok = mok])
      case (none p2)
      have "mok \<noteq> (\<lambda>_. True)" using none(1) requisition_block_True by fastforce
      moreover have "x_take_blocks mok start used0 front0 (of_nat (32 * Suc nb)) (e - 32) first pr p =
        Some (False, first, x_undo start used0 orig first pr1, p2)" using run True none(1) by (simp add: x_add_block_def)
      moreover have "\<forall>a \<in> others. heap p2 a = heap p a" using none(3) room(3) by simp
      ultimately show ?thesis using none(2) Suc.prems(4) by (intro exI [of _ False]) auto
    next
      case (some b p2)
      then have b: "b \<notin> set bl" "b \<notin> others" and keep: "\<forall>a \<in> ?u. heap p2 a = heap p a" using room(3) by auto
      have r2: "x_res (heap p2) pr1 bl h e c xs" by (rule x_res_cong [OF r1]) (use some(4) in simp)
      from x_res_insert [OF r2 some(3) _ _ b(1) idx lim(3)] obtain p3 p4 pr4 where
        ins: "x_set_all_empty b p2 = Some p3" "link_block b (x_tailBlock pr1) p3 = Some p4" "pool_inv p4 (insert b ?u)"
          "x_append_slot e b (pr1\<lparr>x_tailBlock := Some b, pr_blockIndexSlotsUsed := pr_blockIndexSlotsUsed pr1 + 1\<rparr>) = Some pr4"
          "x_res (heap p4) pr4 (bl @ [b]) h (e + 32) (Suc c) xs" "x_tailIndex pr4 = x_tailIndex pr1"
          "\<forall>a. a \<notin> insert b (set bl) \<longrightarrow> heap p4 a = heap p2 a" by auto
      let ?bl = "bl @ [b]" and ?first = "if first = None then Some b else first"
      have set: "insert b ?u = others \<union> set ?bl" by auto
      have inv4: "pool_inv p4 (others \<union> set ?bl)" using ins(3) unfolding set .
      have dis4: "set ?bl \<inter> others = {}" using Suc.prems(4) b by auto
      have room4: "32 * (length ?bl + nb) < 2 ^ 63 + h" using Suc.prems(5) by simp
      have sb4: "Suc c < length ?bl \<longrightarrow> ?bl ! (length ?bl - 1 - Suc c) = sb"
        using Suc.prems(6) by (auto simp: nth_append)
      have f4: "?first = (if Suc c = 0 then None else Some (?bl ! (length ?bl - Suc c)))"
        using Suc.prems(7) c by (auto simp: nth_append)
      have step: "x_take_blocks mok start used0 front0 (of_nat (32 * Suc nb)) (e - 32) first pr p =
          x_take_blocks mok start used0 orig (of_nat (32 * nb)) (e + 32 - 32) ?first pr4 p4"
        using run True some(1) ins(1,2,4) by (simp add: x_add_block_def del: of_nat_mult of_nat_Suc mult_Suc_right of_nat_add)
      from Suc.IH [OF ins(5) h32 inv4 dis4 room4 sb4 f4, of orig] obtain ok' first' pr' p' bl' where
        r: "x_take_blocks mok start used0 orig (of_nat (32 * nb)) (e + 32 - 32) ?first pr4 p4 = Some (ok', first', pr', p')"
        "pool_inv p' (others \<union> set bl')" "set bl' \<inter> others = {}" "\<forall>a \<in> others. heap p' a = heap p4 a" "mok = (\<lambda>_. True) \<longrightarrow> ok'"
        "ok' \<longrightarrow> x_res (heap p') pr' bl' h (e + 32 + of_nat (32 * nb)) (Suc c + nb) xs \<and> x_tailIndex pr' = x_tailIndex pr4 \<and>
           length bl' = length ?bl + nb \<and> (Suc c + nb < length bl' \<longrightarrow> bl' ! (length bl' - 1 - (Suc c + nb)) = sb) \<and>
           first' = (if Suc c + nb = 0 then None else Some (bl' ! (length bl' - (Suc c + nb))))" by blast
      have w: "e + 32 + of_nat (32 * nb) = e + of_nat (32 * Suc nb)" "Suc c + nb = c + Suc nb" "length ?bl + nb = length bl + Suc nb"
        by (simp_all add: algebra_simps)
      have "\<forall>a \<in> others. heap p4 a = heap p a" using ins(7) keep b(2) Suc.prems(4) by (metis UnI1 disjoint_iff insert_iff)
      then have "\<forall>a \<in> others. heap p' a = heap p a" using r(4) by simp
      moreover have "x_tailIndex pr4 = x_tailIndex pr" using ins(6) room(4) by (simp add: x_same_def)
      ultimately show ?thesis using r(1,2,3,5,6) unfolding step w by metis
    qed
  qed
qed

section \<open>Resetting the flags and publishing the index\<close>

lemma x_ring_flags:
  assumes "x_ring (heap p) bl F" "i < length bl" "distinct bl" "pool_inv p used" "set bl \<subseteq> used"
  shows "\<exists>p'. x_reset_empty (bl ! i) p = Some p' \<and> pool_inv p' used \<and> x_ring (heap p') bl (\<lambda>j s. j \<noteq> i \<and> F j s) \<and>
    (\<forall>a. map_option elements (heap p' a) = map_option elements (heap p a)) \<and> (\<forall>a. a \<noteq> bl ! i \<longrightarrow> heap p' a = heap p a)"
proof -
  have b: "bl ! i \<in> used" using assms(2,5) by auto
  from pool_read [OF assms(4) b] obtain x where x: "heap p (bl ! i) = Some x" "freeListRefs x = 0" "length (elements x) = 32" .
  let ?p = "put_block (bl ! i) (x\<lparr>emptyFlags := replicate 32 False\<rparr>) p"
  have "\<exists>y. heap ?p (bl ! j) = Some y \<and> next_block y = Some (bl ! (Suc j mod length bl)) \<and> length (emptyFlags y) = 32 \<and>
      (\<forall>s < 32. emptyFlags y ! (31 - s) \<longleftrightarrow> j \<noteq> i \<and> F j s)" if j: "j < length bl" for j
  proof -
    from x_ring_next [OF assms(1) j] obtain y where y: "heap p (bl ! j) = Some y" "next_block y = Some (bl ! (Suc j mod length bl))"
      "length (emptyFlags y) = 32" "\<forall>s < 32. emptyFlags y ! (31 - s) \<longleftrightarrow> F j s" .
    show ?thesis
    proof (cases "j = i")
      case True
      with x y show ?thesis by simp
    next
      case False
      then have "bl ! j \<noteq> bl ! i" using assms(2,3) j by (simp add: nth_eq_iff_index_eq)
      with y False show ?thesis by simp
    qed
  qed
  then have "x_ring (heap ?p) bl (\<lambda>j s. j \<noteq> i \<and> F j s)" by (simp add: x_ring_def)
  moreover have "pool_inv ?p used" using pool_write [OF assms(4) b x(1)] x by simp
  ultimately show ?thesis using x by (auto simp: x_reset_empty_def)
qed

lemma x_reset_ok:
  assumes "x_res (heap p) pr bl h e (Suc c) xs" "pool_inv p used" "set bl \<subseteq> used"
  shows "\<exists>p'. x_reset_blocks (last bl) (bl ! (length bl - Suc c)) p = Some p' \<and> pool_inv p' used \<and>
    x_res (heap p') pr bl h e 0 xs \<and> (\<forall>a. a \<notin> set bl \<longrightarrow> heap p' a = heap p a)"
  using assms
proof (induction c arbitrary: p)
  case (0 p)
  let ?i = "length bl - 1"
  have "1 \<le> length bl" and dist: "distinct bl" and ring: "x_ring (heap p) bl (\<lambda>i s. 32 * i + s < h \<or> length bl - 1 \<le> i)"
    and le: "h + length xs \<le> 32 * (length bl - 1)"
    using 0(1) by (simp_all add: x_res_def)
  then have i: "?i < length bl" "last bl = bl ! ?i" by (cases bl; simp add: last_conv_nth)+
  from x_ring_flags [OF ring i(1) dist 0(2,3)] obtain p' where p': "x_reset_empty (bl ! ?i) p = Some p'" "pool_inv p' used"
    "x_ring (heap p') bl (\<lambda>j s. j \<noteq> ?i \<and> (32 * j + s < h \<or> length bl - 1 \<le> j))"
    "\<forall>a. map_option elements (heap p' a) = map_option elements (heap p a)" "\<forall>a. a \<noteq> bl ! ?i \<longrightarrow> heap p' a = heap p a" by blast
  have "x_ring (heap p') bl (\<lambda>i s. 32 * i + s < h \<or> length bl - 0 \<le> i)"
    by (rule x_ring_cong [THEN iffD1, OF _ p'(3)]) (use le in auto)
  moreover have "element_at (heap p') bl j v = element_at (heap p) bl j v" for j v
    by (rule element_at_cong) (use p'(4) in simp)
  moreover have "h + length xs \<le> 32 * length bl" using le by linarith
  ultimately have "x_res (heap p') pr bl h e 0 xs" using 0(1) by (simp add: x_res_def)
  moreover have "bl ! ?i \<in> set bl" using i(1) by simp
  then have "\<forall>a. a \<notin> set bl \<longrightarrow> heap p' a = heap p a" using p'(5) by metis
  ultimately show ?case using p'(1,2) i(2) by (auto intro!: exI [of _ p'] simp: x_reset_blocks.simps)
next
  case (Suc c p)
  let ?i = "length bl - Suc (Suc c)"
  have c: "Suc (Suc c) \<le> length bl" and dist: "distinct bl" and le: "h + length xs \<le> 32 * (length bl - Suc (Suc c))"
    and ring: "x_ring (heap p) bl (\<lambda>i s. 32 * i + s < h \<or> length bl - Suc (Suc c) \<le> i)"
    using Suc.prems(1) by (simp_all add: x_res_def)
  have i: "?i < length bl" "Suc ?i = length bl - Suc c" "Suc ?i < length bl" using c by simp_all
  from x_ring_flags [OF ring i(1) dist Suc.prems(2,3)] obtain p1 where p1: "x_reset_empty (bl ! ?i) p = Some p1" "pool_inv p1 used"
    "x_ring (heap p1) bl (\<lambda>j s. j \<noteq> ?i \<and> (32 * j + s < h \<or> ?i \<le> j))"
    "\<forall>a. map_option elements (heap p1 a) = map_option elements (heap p a)" "\<forall>a. a \<noteq> bl ! ?i \<longrightarrow> heap p1 a = heap p a" by blast
  have "x_ring (heap p1) bl (\<lambda>j s. 32 * j + s < h \<or> length bl - Suc c \<le> j)"
    by (rule x_ring_cong [THEN iffD1, OF _ p1(3)]) (use le i in auto)
  moreover have "element_at (heap p1) bl j v = element_at (heap p) bl j v" for j v
    by (rule element_at_cong) (use p1(4) in simp)
  moreover have "h + length xs \<le> 32 * (length bl - Suc c)" using le by linarith
  ultimately have r1: "x_res (heap p1) pr bl h e (Suc c) xs" using Suc.prems(1) c by (simp add: x_res_def)
  from Suc.IH [OF r1 p1(2) Suc.prems(3)] obtain p' where
    p': "x_reset_blocks (last bl) (bl ! (length bl - Suc c)) p1 = Some p'" "pool_inv p' used"
    "x_res (heap p') pr bl h e 0 xs" "\<forall>a. a \<notin> set bl \<longrightarrow> heap p' a = heap p1 a" by blast
  from x_ring_next [OF p1(3) i(1)] obtain t where "heap p1 (bl ! ?i) = Some t" "next_block t = Some (bl ! (Suc ?i mod length bl))" .
  moreover have "Suc ?i mod length bl = length bl - Suc c" unfolding i(2) [symmetric] using i(3) by (rule mod_less)
  ultimately have "get_next (bl ! ?i) p1 = Some (bl ! (length bl - Suc c))" by (simp add: get_next_def)
  moreover have "bl ! ?i \<noteq> last bl"
  proof -
    have "bl \<noteq> []" using i(1) by auto
    then have "last bl = bl ! (length bl - 1)" "length bl - 1 < length bl" by (simp_all add: last_conv_nth)
    moreover have "?i \<noteq> length bl - 1" using i by linarith
    ultimately show ?thesis using dist i(1) by (simp add: nth_eq_iff_index_eq)
  qed
  ultimately have "x_reset_blocks (last bl) (bl ! ?i) p = Some p'"
    using p1(1) p'(1) by (subst x_reset_blocks.simps) simp
  moreover have "bl ! ?i \<in> set bl" using i(1) by simp
  ultimately show ?case using p' p1(5) by (metis (no_types, lifting))
qed

lemma x_publish:
  assumes r: "x_res hp pr bl h e 0 xs" and ne: "bl \<noteq> []"
  defines "pr' \<equiv> expose_front ((pr_blockIndexFront pr - 1) AND (pr_blockIndexSize pr - 1)) pr"
  shows "x_core hp pr' bl h e xs" "x_tailIndex pr' = x_tailIndex pr" "x_tailBlock pr' = x_tailBlock pr"
proof -
  have slots: "x_slots pr e bl" using r by (simp add: x_res_def)
  from x_slots_sizes(2) [OF slots ne] obtain g gs where g: "x_blockIndex pr = g # gs" by (auto simp: neq_Nil_conv)
  from x_slots_power [OF slots g] obtain k where k: "pr_blockIndexSize pr = 2 ^ k" "xi_size g = 2 ^ k" "4 < k" "k < 64"
    "slots_ok (xi_entries g) k (unat (pr_blockIndexFront pr)) e bl" "unat (pr_blockIndexSlotsUsed pr) = length bl"
    "unat (pr_blockIndexSize pr) = 2 ^ k" by metis
  let ?w = "(pr_blockIndexFront pr - 1) AND (2 ^ k - 1)"
  have pr': "pr' = pr\<lparr>x_blockIndex := g\<lparr>xi_front := ?w\<rparr> # gs\<rparr>" using g k(1) by (simp add: pr'_def expose_front_def)
  have f: "unat (pr_blockIndexFront pr) < 2 ^ k" using k(5) by (simp add: slots_ok_def)
  have "unat ?w = ring_pos (2 ^ k) (unat (pr_blockIndexFront pr)) 1"
    using ring_pos_word [of k "pr_blockIndexFront pr" 1] k(4) f by simp
  then have "x_exposed pr'" using k(1,2,7) by (simp add: pr' x_exposed_def current_index_def)
  moreover have "x_slots pr' e bl" using slots k unfolding x_slots_def pr' g by auto
  moreover have "x_ring hp bl (\<lambda>i s. 32 * i + s < h)"
    by (rule x_ring_cong [THEN iffD1, of bl "\<lambda>i s. 32 * i + s < h \<or> length bl - 0 \<le> i"]) (use r in \<open>simp_all add: x_res_def\<close>)
  ultimately show "x_core hp pr' bl h e xs" using r by (simp add: x_core_def x_res_def x_blocks_ok_ring pr')
  show "x_tailIndex pr' = x_tailIndex pr" "x_tailBlock pr' = x_tailBlock pr" by (simp_all add: pr')
qed

end
