(* ===== verification/Cq_Explicit_Bulk_Enqueue.thy ===== *)
theory Cq_Explicit_Bulk_Enqueue
  imports Cq_Explicit_Reserve
begin

text \<open>
  \<open>include/concurrentqueue.h\<close>: the second half of \<open>enqueue_bulk\<close> of an explicit producer, which constructs the
  elements block by block, and the whole of it: it never fails an assertion, and when it reports success the
  elements are at the end of the queue in order. When it fails the queue may be left with more blocks than
  its block index counts, so nothing is claimed of the producer then.
\<close>

section \<open>Constructing the elements\<close>

lemma x_put_elements_ok:
  assumes "x_core (heap p) pr bl h e xs" "pool_inv p used" "set bl \<subseteq> used"
    and "b = bl ! ((h + length xs) div 32)" "h + length xs < 32 * length bl"
    and "(h + length xs) mod 32 + k \<le> 32" "k \<le> length vs" "length xs + k < 2 ^ 63"
  shows "\<exists>p'. put_elements b (x_tailIndex pr) (x_tailIndex pr + of_nat k) vs p = Some (drop k vs, p') \<and> pool_inv p' used \<and>
    x_core (heap p') (pr\<lparr>x_tailIndex := x_tailIndex pr + of_nat k\<rparr>) bl h e (xs @ take k vs) \<and>
    (\<forall>a. a \<noteq> b \<longrightarrow> heap p' a = heap p a)"
  using assms
proof (induction k arbitrary: p pr xs vs)
  case 0
  then show ?case by (simp add: put_elements.simps)
next
  case (Suc k)
  let ?pr = "pr\<lparr>x_tailIndex := 1 + x_tailIndex pr\<rparr>"
  obtain v ws where vs: "vs = v # ws" using Suc.prems(7) by (cases vs) auto
  have ne: "x_tailIndex pr \<noteq> x_tailIndex pr + of_nat (Suc k)" using Suc.prems(6) by (intro index_less_end) auto
  have stop: "x_tailIndex pr + of_nat (Suc k) = x_tailIndex ?pr + of_nat k" by (simp add: algebra_simps)
  have small: "Suc (length xs) < 2 ^ 63" using Suc.prems(8) by simp
  from x_put_at [OF Suc.prems(1-3,5) small Suc.prems(4), of v] obtain p1 where p1: "put_element b (x_tailIndex pr) v p = Some p1"
    "pool_inv p1 used" "x_core (heap p1) ?pr bl h e (xs @ [v])" "\<forall>a. a \<noteq> b \<longrightarrow> heap p1 a = heap p a" by blast
  have run: "put_elements b (x_tailIndex pr) (x_tailIndex pr + of_nat (Suc k)) vs p =
      put_elements b (x_tailIndex ?pr) (x_tailIndex ?pr + of_nat k) ws p1"
    using ne p1(1) unfolding stop by (subst put_elements.simps) (simp add: vs add.commute)
  show ?case
  proof (cases "k = 0")
    case True
    with run p1 vs show ?thesis by (simp add: put_elements.simps add.commute)
  next
    case False
    let ?a = "h + length xs"
    have d: "(?a + 1) div 32 = ?a div 32" "(?a + 1) mod 32 = ?a mod 32 + 1"
      using Suc.prems(6) False by (auto simp: mod_Suc div_Suc)
    have "?a div 32 < length bl" using Suc.prems(5) by (intro less_mult_imp_div_less) simp
    then have "?a + 1 < 32 * length bl" using d div_mult_mod_eq [of "?a + 1" 32] Suc.prems(6) False by linarith
    then have "\<exists>p'. put_elements b (x_tailIndex ?pr) (x_tailIndex ?pr + of_nat k) ws p1 = Some (drop k ws, p') \<and> pool_inv p' used \<and>
      x_core (heap p') (?pr\<lparr>x_tailIndex := x_tailIndex ?pr + of_nat k\<rparr>) bl h e ((xs @ [v]) @ take k ws) \<and>
      (\<forall>a. a \<noteq> b \<longrightarrow> heap p' a = heap p1 a)"
      using Suc.prems(3,4,6,7,8) vs d by (intro Suc.IH [OF p1(3,2)]) simp_all
    then obtain p' where p': "put_elements b (x_tailIndex ?pr) (x_tailIndex ?pr + of_nat k) ws p1 = Some (drop k ws, p')" "pool_inv p' used"
      "x_core (heap p') (pr\<lparr>x_tailIndex := x_tailIndex pr + of_nat (Suc k)\<rparr>) bl h e (xs @ take (Suc k) vs)"
      "\<forall>a. a \<noteq> b \<longrightarrow> heap p' a = heap p1 a" unfolding stop vs by auto
    with run p1(4) vs show ?thesis by auto
  qed
qed

lemma rest_of_block: "a + (32 - a mod 32) = 32 * (a div 32 + 1)" for a :: nat
  by presburger

lemma x_fill_ok:
  assumes "x_core (heap p) pr bl h e xs" "pool_inv p used" "set bl \<subseteq> used" "vs \<noteq> []" "length xs + length vs < 2 ^ 63"
    and "h + length xs + length vs \<le> 32 * length bl" "32 * (length bl - 1) < h + length xs + length vs"
  shows "\<exists>p'. fill_blocks (x_tailIndex pr + of_nat (length vs)) (Some (last bl)) (x_tailIndex pr)
      (Some (bl ! ((h + length xs) div 32))) vs p = Some (Some (last bl), p') \<and>
    pool_inv p' used \<and> x_core (heap p') (pr\<lparr>x_tailIndex := x_tailIndex pr + of_nat (length vs)\<rparr>) bl h e (xs @ vs) \<and>
    (\<forall>a. a \<notin> set bl \<longrightarrow> heap p' a = heap p a)"
  using assms
proof (induction "length vs" arbitrary: p pr xs vs rule: less_induct)
  case less
  let ?a = "h + length xs" and ?n = "length bl"
  let ?j = "?a div 32" and ?k = "min (length vs) (32 - ?a mod 32)"
  let ?b = "bl ! ?j" and ?stop = "x_tailIndex pr + of_nat (length vs)"
  have room: "?a < 32 * ?n" using less.prems(4,6) by (cases vs) auto
  then have j: "?j < ?n" by (intro less_mult_imp_div_less) simp
  have bm: "?b \<in> set bl" using j by simp
  have dist: "distinct bl" using less.prems(1) by (simp add: x_core_def)
  have vs63: "length vs < 2 ^ 63" using less.prems(5) by simp
  have mod: "?a mod 32 < 32" by simp
  have k: "?a mod 32 + ?k \<le> 32" "?k \<le> length vs" "0 < ?k" using less.prems(4) mod by (auto simp: min_def)
  have kx: "length xs + ?k < 2 ^ 63" using k(2) less.prems(5) by simp
  have stop: "end_of_block (x_tailIndex pr) ?stop = x_tailIndex pr + of_nat ?k"
    using end_of_block_eq [OF vs63, of "x_tailIndex pr"] x_tail_position(1) [OF less.prems(1)] by simp
  have ne: "x_tailIndex pr \<noteq> x_tailIndex pr + of_nat ?k" using k by (intro index_less_end) auto
  from x_put_elements_ok [OF less.prems(1-3) refl room k(1,2) kx] obtain p1 where
    p1: "put_elements ?b (x_tailIndex pr) (x_tailIndex pr + of_nat ?k) vs p = Some (drop ?k vs, p1)" "pool_inv p1 used"
    "x_core (heap p1) (pr\<lparr>x_tailIndex := x_tailIndex pr + of_nat ?k\<rparr>) bl h e (xs @ take ?k vs)"
    "\<forall>a. a \<noteq> ?b \<longrightarrow> heap p1 a = heap p a" by blast
  have last: "last bl = bl ! (?n - 1)" "?n - 1 < ?n" using j by (cases bl; simp add: last_conv_nth)+
  have frame: "\<forall>a. a \<notin> set bl \<longrightarrow> heap p1 a = heap p a" using p1(4) bm by metis
  have s0: "?a + (32 - ?a mod 32) = 32 * (?j + 1)" by (rule rest_of_block)
  show ?case
  proof (cases "Suc ?j = ?n")
    case True
    then have n: "?n = ?j + 1" "?n - 1 = ?j" by simp_all
    have "?a + length vs \<le> ?a + (32 - ?a mod 32)" using less.prems(6) unfolding s0 n(1) .
    then have "?k = length vs" by simp
    moreover have "?b = last bl" unfolding last(1) n(2) ..
    ultimately have "fill_blocks ?stop (Some (last bl)) (x_tailIndex pr) (Some ?b) vs p = Some (Some (last bl), p1)"
      using p1(1) ne stop by (subst fill_blocks.simps) (simp add: Let_def)
    with p1 frame \<open>?k = length vs\<close> show ?thesis by auto
  next
    case False
    then have j2: "Suc ?j < ?n" using j by simp
    then have "?j + 1 \<le> ?n - 1" by simp
    then have "32 * (?j + 1) \<le> 32 * (?n - 1)" by (rule mult_le_mono2)
    then have more: "32 * (?j + 1) < ?a + length vs" using less.prems(7) by (rule le_less_trans)
    have "32 - ?a mod 32 < length vs" using more unfolding s0 [symmetric] by (rule add_less_imp_less_left)
    then have full: "?k = 32 - ?a mod 32" "?k < length vs" by simp_all
    have sum: "?a + ?k = 32 * (?j + 1)" unfolding full(1) by (rule s0)
    let ?pr = "pr\<lparr>x_tailIndex := x_tailIndex pr + of_nat ?k\<rparr>" and ?xs = "xs @ take ?k vs" and ?vs = "drop ?k vs"
    have len: "length ?vs = length vs - ?k" "length ?xs = length xs + ?k" using k(2) by simp_all
    have shorter: "length ?vs < length vs" "?vs \<noteq> []" using full(2) k(3) by simp_all
    have a: "h + length ?xs = 32 * (?j + 1)" using sum len(2) by simp
    have total: "h + length ?xs + length ?vs = ?a + length vs" "length ?xs + length ?vs = length xs + length vs" using len k(2) by simp_all
    have st: "x_tailIndex ?pr + of_nat (length ?vs) = ?stop" using full(2) by (simp add: of_nat_diff)
    have jj: "(h + length ?xs) div 32 = Suc ?j" unfolding a by simp
    have lim: "length ?xs + length ?vs < 2 ^ 63" "h + length ?xs + length ?vs \<le> 32 * ?n" "32 * (?n - 1) < h + length ?xs + length ?vs"
      unfolding total by (rule less.prems(5-7))+
    from less.hyps [OF shorter(1) p1(3,2) less.prems(3) shorter(2) lim, unfolded st jj] obtain p' where
      p': "fill_blocks ?stop (Some (last bl)) (x_tailIndex ?pr) (Some (bl ! Suc ?j)) ?vs p1 = Some (Some (last bl), p')"
      "pool_inv p' used" "x_core (heap p') (?pr\<lparr>x_tailIndex := ?stop\<rparr>) bl h e (?xs @ ?vs)"
      "\<forall>a. a \<notin> set bl \<longrightarrow> heap p' a = heap p1 a" by blast
    have "x_ring (heap p1) bl (\<lambda>i s. 32 * i + s < h)" using p1(3) by (simp add: x_core_def x_blocks_ok_ring)
    from x_ring_next [OF this j] obtain x where x: "heap p1 ?b = Some x" "next_block x = Some (bl ! (Suc ?j mod ?n))" .
    have nx: "next_block x = Some (bl ! Suc ?j)" using x(2) j2 by simp
    have "?b \<noteq> last bl" using dist j last False by (auto simp: nth_eq_iff_index_eq)
    then have "fill_blocks ?stop (Some (last bl)) (x_tailIndex pr) (Some ?b) vs p = Some (Some (last bl), p')"
      using p1(1) ne stop x(1) nx p'(1) by (subst fill_blocks.simps) (simp add: Let_def)
    moreover have "?xs @ ?vs = xs @ vs" by simp
    moreover have "?pr\<lparr>x_tailIndex := ?stop\<rparr> = pr\<lparr>x_tailIndex := ?stop\<rparr>" by simp
    moreover have "\<forall>a. a \<notin> set bl \<longrightarrow> heap p' a = heap p a" using p'(4) frame by simp
    ultimately show ?thesis using p'(2,3) by auto
  qed
qed

section \<open>The bulk enqueue\<close>

lemma x_blocks_needed:
  fixes count :: nat
  assumes core: "x_core hp pr bl h e xs" and fill: "32 * length bl < h + length xs + 32"
  defines "t \<equiv> h + length xs" and "cur \<equiv> (x_tailIndex pr - 1) AND NOT (BLOCK_SIZE - 1)"
    and "nb \<equiv> ((h + length xs + 31) mod 32 + count) div 32"
  shows "((x_tailIndex pr + of_nat count - 1) AND NOT (BLOCK_SIZE - 1)) - cur = of_nat (32 * nb)" "cur = e - 32"
    "t + count \<le> 32 * (length bl + nb)" "32 * (length bl + nb) < t + count + 32"
proof -
  define r where "r = (t + 31) mod 32"
  let ?n = "length bl" and ?s = "e - of_nat (32 * length bl)"
  have lim: "t \<le> 32 * ?n" "32 * ?n < t + 32" using core fill by (simp_all add: x_core_def t_def)
  have m: "(t + 31) div 32 = ?n" using lim by (intro div_nat_eqI) auto
  have slot_t: "slot_of (x_tailIndex pr) = t mod 32" using x_tail_position(1) [OF core] by (simp add: t_def)
  have slot: "slot_of (x_tailIndex pr - 1) = r" by (simp add: before_index(1) r_def slot_t mod_add_left_eq)
  have nb: "nb = (r + count) div 32" by (simp add: nb_def t_def r_def)
  have split: "t + 31 = 32 * ?n + r" using m div_mult_mod_eq [of "t + 31" 32] unfolding r_def by linarith
  have rc: "32 * nb \<le> r + count" "r + count < 32 * nb + 32" using div_mult_mod_eq [of "r + count" 32] by (simp_all add: nb)
  show "t + count \<le> 32 * (?n + nb)" using split rc by simp
  show "32 * (?n + nb) < t + count + 32" using split rc by simp
  have base: "w AND NOT (BLOCK_SIZE - 1) = base_of w" for w by (simp add: base_of_def BLOCK_SIZE_def)
  have before: "x_tailIndex pr + of_nat count - 1 = x_tailIndex pr - 1 + of_nat count" by simp
  show "((x_tailIndex pr + of_nat count - 1) AND NOT (BLOCK_SIZE - 1)) - cur = of_nat (32 * nb)"
    unfolding cur_def base before base_of_add slot nb by simp
  have tail: "x_tailIndex pr = ?s + of_nat t" using x_tail_position(3) [OF core] by (simp add: t_def)
  have "(of_nat t :: u64) = of_nat (32 * (t div 32)) + of_nat (t mod 32)" by (metis of_nat_add mult_div_mod_eq)
  then have "?s + of_nat t - of_nat (t mod 32) = ?s + of_nat (32 * (t div 32))" by simp
  then have "base_of (x_tailIndex pr) = ?s + of_nat (32 * (t div 32))"
    by (simp only: base_of_eq slot_t) (simp only: tail)
  moreover have "t div 32 + (t mod 32 + 31) div 32 = ?n" using m by (simp add: div_add1_eq [of t 31] mod_add_left_eq)
  moreover from this have "(of_nat (32 * (t div 32)) + of_nat (32 * ((t mod 32 + 31) div 32)) :: u64) = of_nat (32 * ?n)"
    by (metis distrib_left of_nat_add)
  ultimately have "base_of (x_tailIndex pr - 1) + 32 = e" unfolding before_index(2) slot_t by (simp add: add.assoc del: of_nat_mult)
  then show "cur = e - 32" unfolding cur_def base by (metis add_diff_cancel_right')
qed

lemma x_reserve_ok:
  assumes core: "x_core (heap p) pr bl h e xs" and inv: "pool_inv p (others \<union> set bl)" and dis: "set bl \<inter> others = {}"
    and nb: "0 < nb" "32 * (length bl + nb) < h + 2 ^ 63"
  shows "\<exists>diff cur first pr1 ok first' pr2 p2. x_take_ahead p (of_nat (32 * nb)) (e - 32) None pr = Some (diff, cur, first, pr1) \<and>
    x_take_blocks mok start used0 front0 diff cur first pr1 p = Some (ok, first', pr2, p2) \<and>
    (\<forall>a \<in> others. heap p2 a = heap p a) \<and> (mok = (\<lambda>_. True) \<longrightarrow> ok) \<and>
    (\<exists>m bl'. pool_inv p2 (others \<union> set bl') \<and> set bl' \<inter> others = {} \<and>
       (ok \<longrightarrow> 32 * m \<le> h \<and> m \<le> nb \<and> length bl' = length bl + nb - m \<and>
         x_res (heap p2) pr2 bl' (h - 32 * m) (e + of_nat (32 * nb)) nb xs \<and> x_tailIndex pr2 = x_tailIndex pr \<and>
         (nb < length bl' \<and> bl \<noteq> [] \<longrightarrow> bl' ! (length bl' - 1 - nb) = last bl) \<and> first' = Some (bl' ! (length bl' - nb))))"
proof -
  let ?sb = "bl ! (length bl - 1)"
  have le: "h + length xs \<le> 32 * length bl" using core by (simp add: x_core_def)
  then have "32 * nb < 2 ^ 64" using nb(2) by simp
  from x_take_ahead_ok [OF x_res_core [OF core] this, of ?sb None] obtain m pr1 bl1 first where
    ahead: "x_take_ahead p (of_nat (32 * nb)) (e - 32) None pr = Some (of_nat (32 * (nb - m)), e - 32 + of_nat (32 * m), first, pr1)"
    "x_res (heap p) pr1 bl1 (h - 32 * m) (e + of_nat (32 * m)) (0 + m) xs" "x_tailIndex pr1 = x_tailIndex pr"
    "32 * m \<le> h" "m \<le> nb" "set bl1 = set bl" "length bl1 = length bl" "m < nb \<longrightarrow> h - 32 * m < 32"
    "0 + m < length bl \<longrightarrow> bl1 ! (length bl - 1 - (0 + m)) = ?sb"
    "first = (if 0 + m = 0 then None else Some (bl1 ! (length bl - (0 + m))))" by auto
  have inv1: "pool_inv p (others \<union> set bl1)" "set bl1 \<inter> others = {}" using inv dis ahead(6) by simp_all
  have h1: "nb - m \<noteq> 0 \<longrightarrow> h - 32 * m < 32" using ahead(8) by simp
  have room: "32 * (length bl1 + (nb - m)) < 2 ^ 63 + (h - 32 * m)" using nb(2) ahead(4,5,7) by simp
  have sb: "0 + m < length bl1 \<longrightarrow> bl1 ! (length bl1 - 1 - (0 + m)) = ?sb" using ahead(7,9) by simp
  have f: "first = (if 0 + m = 0 then None else Some (bl1 ! (length bl1 - (0 + m))))" using ahead(7,10) by simp
  have w: "e + of_nat (32 * m) - 32 = e - 32 + of_nat (32 * m)" by simp
  from x_take_blocks_ok [OF ahead(2) h1 inv1 room sb f, of mok start used0 front0] obtain ok first' pr2 p2 bl2 where
    r: "x_take_blocks mok start used0 front0 (of_nat (32 * (nb - m))) (e - 32 + of_nat (32 * m)) first pr1 p = Some (ok, first', pr2, p2)"
    "pool_inv p2 (others \<union> set bl2)" "set bl2 \<inter> others = {}" "\<forall>a \<in> others. heap p2 a = heap p a" "mok = (\<lambda>_. True) \<longrightarrow> ok"
    "ok \<longrightarrow> x_res (heap p2) pr2 bl2 (h - 32 * m) (e + of_nat (32 * m) + of_nat (32 * (nb - m))) (0 + m + (nb - m)) xs \<and>
       x_tailIndex pr2 = x_tailIndex pr1 \<and> length bl2 = length bl1 + (nb - m) \<and>
       (0 + m + (nb - m) < length bl2 \<longrightarrow> bl2 ! (length bl2 - 1 - (0 + m + (nb - m))) = ?sb) \<and>
       first' = (if 0 + m + (nb - m) = 0 then None else Some (bl2 ! (length bl2 - (0 + m + (nb - m)))))" unfolding w by blast
  have sum: "0 + m + (nb - m) = nb" using ahead(5) by simp
  have ee: "e + of_nat (32 * m) + of_nat (32 * (nb - m)) = e + of_nat (32 * nb)"
  proof -
    have "32 * nb = 32 * m + 32 * (nb - m)" using ahead(5) by simp
    then show ?thesis by (metis add.assoc of_nat_add)
  qed
  have len: "length bl1 + (nb - m) = length bl + nb - m" using ahead(5,7) by simp
  have l: "bl \<noteq> [] \<longrightarrow> ?sb = last bl" by (simp add: last_conv_nth)
  have good: "ok \<longrightarrow> 32 * m \<le> h \<and> m \<le> nb \<and> length bl2 = length bl + nb - m \<and>
         x_res (heap p2) pr2 bl2 (h - 32 * m) (e + of_nat (32 * nb)) nb xs \<and> x_tailIndex pr2 = x_tailIndex pr \<and>
         (nb < length bl2 \<and> bl \<noteq> [] \<longrightarrow> bl2 ! (length bl2 - 1 - nb) = last bl) \<and> first' = Some (bl2 ! (length bl2 - nb))"
    using r(6) ahead(3-5) nb(1) l unfolding sum ee len by auto
  show ?thesis using ahead(1) r(1-5) good by blast
qed

lemma x_bulk_fits:
  assumes q: "explicit_queue others pr p bl h e xs" and vs: "vs \<noteq> []" "length xs + length vs < 2 ^ 63"
    and fits: "h + length xs + length vs \<le> 32 * length bl"
  shows "\<exists>p'. fill_blocks (x_tailIndex pr + of_nat (length vs)) (x_tailBlock pr) (x_tailIndex pr) (x_tailBlock pr) vs p =
      Some (x_tailBlock pr, p') \<and> slot_of (x_tailIndex pr) \<noteq> 0 \<and>
    explicit_queue others (pr\<lparr>x_tailIndex := x_tailIndex pr + of_nat (length vs)\<rparr>) p' bl h e (xs @ vs) \<and>
    (\<forall>a \<in> others. heap p' a = heap p a)"
proof -
  have core: "x_core (heap p) pr bl h e xs" and fill: "32 * length bl < h + length xs + 32"
    and dis: "set bl \<inter> others = {}" and inv: "pool_inv p (others \<union> set bl)"
    using q by (simp_all add: explicit_queue_def x_ok_def)
  have room: "h + length xs < 32 * length bl" using vs(1) fits by (cases vs) auto
  then have ne: "bl \<noteq> []" by auto
  have d: "(h + length xs) div 32 = length bl - 1" using room fill by (intro last_block_index) simp_all
  then have b: "bl ! ((h + length xs) div 32) = last bl" using ne by (simp add: last_conv_nth)
  have tb: "x_tailBlock pr = Some (last bl)" using core ne by (simp add: x_core_def)
  have "32 * (length bl - 1) < h + length xs + length vs" using fill vs(1) by (cases vs) auto
  from x_fill_ok [OF core inv _ vs fits this, unfolded b] obtain p' where
    p': "fill_blocks (x_tailIndex pr + of_nat (length vs)) (Some (last bl)) (x_tailIndex pr) (Some (last bl)) vs p = Some (Some (last bl), p')"
    "pool_inv p' (others \<union> set bl)" "x_core (heap p') (pr\<lparr>x_tailIndex := x_tailIndex pr + of_nat (length vs)\<rparr>) bl h e (xs @ vs)"
    "\<forall>a. a \<notin> set bl \<longrightarrow> heap p' a = heap p a" by blast
  have "(h + length xs) mod 32 \<noteq> 0"
  proof
    assume "(h + length xs) mod 32 = 0"
    then have "h + length xs = 32 * (length bl - 1)" using d by (metis add.right_neutral mult_div_mod_eq)
    then show False using fill ne by (cases bl) auto
  qed
  then have "slot_of (x_tailIndex pr) \<noteq> 0" using x_tail_position(1) [OF core] by simp
  moreover have "explicit_queue others (pr\<lparr>x_tailIndex := x_tailIndex pr + of_nat (length vs)\<rparr>) p' bl h e (xs @ vs)"
    using p'(2,3) dis fill by (simp add: explicit_queue_def x_ok_def)
  moreover have "\<forall>a \<in> others. heap p' a = heap p a" using p'(4) dis by blast
  ultimately show ?thesis using p'(1) unfolding tb by blast
qed

lemma index_shifted:
  fixes q :: nat
  assumes "q + (1 + m) = n" "32 * n < t + 32" "t < 32 * n" "u + 32 * m = t"
  shows "32 * q \<le> u" "u < 32 * Suc q"
  using assms by auto

lemma x_bulk_new:
  assumes core: "x_core (heap p) pr bl h e xs" and fill: "32 * length bl < h + length xs + 32"
    and r: "x_res (heap p2) pr2 bl' (h - 32 * m) e' nb xs" "32 * m \<le> h" "m \<le> nb" "0 < nb" "length bl' = length bl + nb - m"
      "x_tailIndex pr2 = x_tailIndex pr" "nb < length bl' \<and> bl \<noteq> [] \<longrightarrow> bl' ! (length bl' - 1 - nb) = last bl"
    and inv: "pool_inv p2 (others \<union> set bl')" "set bl' \<inter> others = {}"
    and count: "h + length xs + length vs \<le> 32 * (length bl + nb)" "32 * (length bl + nb) < h + length xs + length vs + 32"
      "vs \<noteq> []" "length xs + length vs < 2 ^ 63"
  defines "pr3 \<equiv> expose_front ((pr_blockIndexFront pr2 - 1) AND (pr_blockIndexSize pr2 - 1)) pr2"
    and "first \<equiv> bl' ! (length bl' - nb)"
  shows "\<exists>p3 p4. x_tailBlock pr2 = Some (last bl') \<and> x_reset_blocks (last bl') first p2 = Some p3 \<and>
    fill_blocks (x_tailIndex pr + of_nat (length vs)) (x_tailBlock pr3) (x_tailIndex pr)
      (if slot_of (x_tailIndex pr) = 0 then Some first else x_tailBlock pr) vs p3 = Some (Some (last bl'), p4) \<and>
    explicit_queue others (pr3\<lparr>x_tailBlock := Some (last bl'), x_tailIndex := x_tailIndex pr + of_nat (length vs)\<rparr>)
      p4 bl' (h - 32 * m) e' (xs @ vs) \<and> (\<forall>a \<in> others. heap p4 a = heap p2 a)"
proof -
  let ?n = "length bl" and ?h = "h - 32 * m" and ?t = "h + length xs"
  obtain c where c: "nb = Suc c" using r(4) by (cases nb) auto
  have sub: "set bl' \<subseteq> others \<union> set bl'" by simp
  have le: "?h + length xs \<le> 32 * (length bl' - nb)" "nb \<le> length bl'" using r(1) by (simp_all add: x_res_def)
  have ne: "bl' \<noteq> []" using le(2) r(4) by auto
  have tb2: "x_tailBlock pr2 = Some (last bl')" using r(1) ne by (simp add: x_res_def)
  from x_reset_ok [OF r(1) [unfolded c] inv(1) sub] obtain p3 where
    p3: "x_reset_blocks (last bl') first p2 = Some p3" "pool_inv p3 (others \<union> set bl')" "x_res (heap p3) pr2 bl' ?h e' 0 xs"
    "\<forall>a. a \<notin> set bl' \<longrightarrow> heap p3 a = heap p2 a" unfolding first_def c by blast
  have pub: "x_core (heap p3) pr3 bl' ?h e' xs" "x_tailIndex pr3 = x_tailIndex pr" "x_tailBlock pr3 = Some (last bl')"
    using x_publish [OF p3(3) ne] r(6) tb2 unfolding pr3_def by simp_all
  have len: "length bl' + m = ?n + nb" using r(3,5) by simp
  then have "32 * length bl' + 32 * m = 32 * (?n + nb)" by (metis distrib_left)
  moreover have "?h + 32 * m = h" using r(2) by simp
  ultimately have b1: "?h + length xs + length vs \<le> 32 * length bl'"
    and b2: "32 * length bl' < ?h + length xs + length vs + 32"
    using count(1,2) by linarith+
  have b3: "32 * (length bl' - 1) < ?h + length xs + length vs" using b2 ne by (cases bl') auto
  from x_fill_ok [OF pub(1) p3(2) sub count(3,4) b1 b3] obtain p4 where
    p4: "fill_blocks (x_tailIndex pr3 + of_nat (length vs)) (Some (last bl')) (x_tailIndex pr3)
        (Some (bl' ! ((?h + length xs) div 32))) vs p3 = Some (Some (last bl'), p4)"
    "pool_inv p4 (others \<union> set bl')" "x_core (heap p4) (pr3\<lparr>x_tailIndex := x_tailIndex pr3 + of_nat (length vs)\<rparr>) bl' ?h e' (xs @ vs)"
    "\<forall>a. a \<notin> set bl' \<longrightarrow> heap p4 a = heap p3 a" by blast
  have t: "?t \<le> 32 * ?n" "?h + length xs + 32 * m = ?t" using core r(2) by (simp_all add: x_core_def)
  have start: "(if slot_of (x_tailIndex pr) = 0 then Some first else x_tailBlock pr) = Some (bl' ! ((?h + length xs) div 32))"
  proof (cases "slot_of (x_tailIndex pr) = 0")
    case True
    then have "?t mod 32 = 0" using x_tail_position(1) [OF core] by simp
    then have "?t = 32 * ?n" using fill t(1) by presburger
    then have "?h + length xs = 32 * (length bl' - nb)" using t(2) len le(2) by linarith
    then show ?thesis using True by (simp add: first_def)
  next
    case False
    then have mod: "?t mod 32 \<noteq> 0" using x_tail_position(1) [OF core] by simp
    then have "?t \<noteq> 32 * ?n" by auto
    then have lt: "?t < 32 * ?n" using t(1) by simp
    have "nb \<noteq> length bl'"
    proof
      assume "nb = length bl'"
      then have "?t = 32 * m" using le(1) t(2) by simp
      then show False using mod by simp
    qed
    then have less: "nb < length bl'" using le(2) by simp
    have "(?h + length xs) div 32 = length bl' - 1 - nb"
    proof (rule div_nat_eqI)
      have "length bl' - 1 - nb + (1 + m) = ?n" using less len by simp
      from index_shifted [OF this fill lt t(2)]
      show "32 * (length bl' - 1 - nb) \<le> ?h + length xs" "?h + length xs < 32 * Suc (length bl' - 1 - nb)" .
    qed
    moreover have "bl \<noteq> []" using lt by auto
    ultimately show ?thesis using False r(7) less core by (simp add: x_core_def)
  qed
  have "pr3\<lparr>x_tailBlock := Some (last bl'), x_tailIndex := i\<rparr> = pr3\<lparr>x_tailIndex := i\<rparr>" for i using pub(3) by simp
  then have "explicit_queue others (pr3\<lparr>x_tailBlock := Some (last bl'), x_tailIndex := x_tailIndex pr + of_nat (length vs)\<rparr>)
      p4 bl' ?h e' (xs @ vs)"
    using p4(2,3) inv(2) b2 pub(2) by (simp add: explicit_queue_def x_ok_def)
  moreover have "\<forall>a \<in> others. heap p4 a = heap p2 a" using p4(4) p3(4) inv(2) by (metis disjoint_iff)
  ultimately show ?thesis using tb2 p3(1) p4(1) start pub(2,3) by simp
qed

lemma x_enqueue_bulk_nil: "x_enqueue_bulk mok [] pr p = Some (True, pr, p)"
proof -
  have "end_of_block (x_tailIndex pr) (x_tailIndex pr) = x_tailIndex pr" using end_of_block_eq [of 0 "x_tailIndex pr"] by simp
  then have "fill_blocks (x_tailIndex pr) (x_tailBlock pr) (x_tailIndex pr) (x_tailBlock pr) [] p = Some (x_tailBlock pr, p)"
    by (subst fill_blocks.simps) (simp add: Let_def)
  moreover have "pr\<lparr>x_tailBlock := x_tailBlock pr, x_tailIndex := x_tailIndex pr\<rparr> = pr" by simp
  ultimately show ?thesis by (simp add: x_enqueue_bulk_def)
qed

lemma x_enqueue_bulk_ok:
  assumes q: "explicit_queue others pr p bl h e xs" and size: "length xs + length vs + 32 < 2 ^ 63"
  shows "\<exists>ok pr' p'. x_enqueue_bulk mok vs pr p = Some (ok, pr', p') \<and> (\<forall>a \<in> others. heap p' a = heap p a) \<and>
    (ok \<longrightarrow> (\<exists>bl' h' e'. explicit_queue others pr' p' bl' h' e' (xs @ vs))) \<and> (mok = (\<lambda>_. True) \<longrightarrow> ok)"
proof -
  let ?nb = "((h + length xs + 31) mod 32 + length vs) div 32" and ?cur = "(x_tailIndex pr - 1) AND NOT (BLOCK_SIZE - 1)"
  let ?stop = "x_tailIndex pr + of_nat (length vs)"
  have core: "x_core (heap p) pr bl h e xs" and fill: "32 * length bl < h + length xs + 32"
    and dis: "set bl \<inter> others = {}" and inv: "pool_inv p (others \<union> set bl)"
    using q by (simp_all add: explicit_queue_def x_ok_def)
  note need = x_blocks_needed(1,3,4) [OF core fill, of "length vs"] and cur = x_blocks_needed(2) [OF core fill]
  have room: "32 * (length bl + ?nb) < h + 2 ^ 63" using need(3) size by linarith
  have slot: "x_tailIndex pr AND (BLOCK_SIZE - 1) = 0 \<longleftrightarrow> slot_of (x_tailIndex pr) = 0"
    by (simp add: slot_of_def BLOCK_SIZE_def unat_eq_0)
  note run = x_enqueue_bulk_def [of mok vs pr p, unfolded Let_def, unfolded need(1) slot]
  show ?thesis
  proof (cases "?nb = 0")
    case True
    then have zero: "\<not> 0 < (of_nat (32 * ?nb) :: u64)" by simp
    note run = run [unfolded if_not_P [OF zero] Option.bind.simps split_conv]
    show ?thesis
    proof (cases "vs = []")
      case True
      then have "x_enqueue_bulk mok vs pr p = Some (True, pr, p)" by (simp add: x_enqueue_bulk_nil)
      then show ?thesis using q True by auto
    next
      case False
      have "h + length xs + length vs \<le> 32 * length bl" using need(2) True by simp
      from x_bulk_fits [OF q False _ this] size obtain p' where
        p': "fill_blocks ?stop (x_tailBlock pr) (x_tailIndex pr) (x_tailBlock pr) vs p = Some (x_tailBlock pr, p')"
        "slot_of (x_tailIndex pr) \<noteq> 0"
        "explicit_queue others (pr\<lparr>x_tailIndex := ?stop\<rparr>) p' bl h e (xs @ vs)" "\<forall>a \<in> others. heap p' a = heap p a" by auto
      have "pr\<lparr>x_tailBlock := x_tailBlock pr, x_tailIndex := ?stop\<rparr> = pr\<lparr>x_tailIndex := ?stop\<rparr>" by simp
      with p'(1,2) have "x_enqueue_bulk mok vs pr p = Some (True, pr\<lparr>x_tailIndex := ?stop\<rparr>, p')" unfolding run by simp
      then show ?thesis using p'(3,4) by blast
    qed
  next
    case False
    then have nb: "0 < ?nb" by simp
    have vs: "vs \<noteq> []" using nb by auto
    have "32 * ?nb < 2 ^ 64" using room core by (simp add: x_core_def)
    then have "unat (of_nat (32 * ?nb) :: u64) = 32 * ?nb" by (intro unat_of_nat_u64)
    then have pos: "0 < (of_nat (32 * ?nb) :: u64)" using nb by (simp add: word_less_nat_alt)
    from x_reserve_ok [OF core inv dis nb room, of mok "x_tailBlock pr" "pr_blockIndexSlotsUsed pr" "pr_blockIndexFront pr"]
    obtain diff cur first pr1 ok first' pr2 p2 m bl' where
      r: "x_take_ahead p (of_nat (32 * ?nb)) (e - 32) None pr = Some (diff, cur, first, pr1)"
      "x_take_blocks mok (x_tailBlock pr) (pr_blockIndexSlotsUsed pr) (pr_blockIndexFront pr) diff cur first pr1 p = Some (ok, first', pr2, p2)"
      "\<forall>a \<in> others. heap p2 a = heap p a" "mok = (\<lambda>_. True) \<longrightarrow> ok"
      "pool_inv p2 (others \<union> set bl')" "set bl' \<inter> others = {}"
      "ok \<longrightarrow> 32 * m \<le> h \<and> m \<le> ?nb \<and> length bl' = length bl + ?nb - m \<and>
         x_res (heap p2) pr2 bl' (h - 32 * m) (e + of_nat (32 * ?nb)) ?nb xs \<and> x_tailIndex pr2 = x_tailIndex pr \<and>
         (?nb < length bl' \<and> bl \<noteq> [] \<longrightarrow> bl' ! (length bl' - 1 - ?nb) = last bl) \<and> first' = Some (bl' ! (length bl' - ?nb))"
      by blast
    note run = run [unfolded if_P [OF pos] cur r(1,2) Option.bind.simps split_conv]
    show ?thesis
    proof (cases ok)
      case False
      then have "x_enqueue_bulk mok vs pr p = Some (False, pr2, p2)" unfolding run by simp
      then show ?thesis using r(3,4) False by blast
    next
      case True
      have size': "length xs + length vs < 2 ^ 63" using size by simp
      from True r(7) have t: "32 * m \<le> h" "m \<le> ?nb" "length bl' = length bl + ?nb - m"
         "x_res (heap p2) pr2 bl' (h - 32 * m) (e + of_nat (32 * ?nb)) ?nb xs" "x_tailIndex pr2 = x_tailIndex pr"
         "?nb < length bl' \<and> bl \<noteq> [] \<longrightarrow> bl' ! (length bl' - 1 - ?nb) = last bl" "first' = Some (bl' ! (length bl' - ?nb))" by blast+
      let ?pr3 = "expose_front ((pr_blockIndexFront pr2 - 1) AND (pr_blockIndexSize pr2 - 1)) pr2"
      from x_bulk_new [OF core fill t(4,1,2) nb t(3,5,6) r(5,6) need(2,3) vs size'] obtain p3 p4 where
        n: "x_tailBlock pr2 = Some (last bl')" "x_reset_blocks (last bl') (bl' ! (length bl' - ?nb)) p2 = Some p3"
        "fill_blocks ?stop (x_tailBlock ?pr3) (x_tailIndex pr)
          (if slot_of (x_tailIndex pr) = 0 then Some (bl' ! (length bl' - ?nb)) else x_tailBlock pr) vs p3 = Some (Some (last bl'), p4)"
        "explicit_queue others (?pr3\<lparr>x_tailBlock := Some (last bl'), x_tailIndex := ?stop\<rparr>) p4 bl' (h - 32 * m)
          (e + of_nat (32 * ?nb)) (xs @ vs)" "\<forall>a \<in> others. heap p4 a = heap p2 a" by blast
      have "x_enqueue_bulk mok vs pr p = Some (True, ?pr3\<lparr>x_tailBlock := Some (last bl'), x_tailIndex := ?stop\<rparr>, p4)"
        unfolding run t(7) using True n(1-3) by simp
      moreover have "\<forall>a \<in> others. heap p4 a = heap p a" using r(3) n(5) by simp
      ultimately show ?thesis using n(4) by blast
    qed
  qed
qed

end
