(* ===== verification/Cq_Two_Producers.thy ===== *)
theory Cq_Two_Producers
  imports Cq_Explicit_Bulk_Enqueue Cq_Accept
begin

text \<open>
  The contract that the two kinds of producers share, as a locale over a state, and the runs of operations it decides.
\<close>

section \<open>Runs of a sub-queue\<close>

datatype 'm sub_op = Put 'm | Take | Put_many "'m list" | Take_many u64

datatype 'm sub_event = Added bool | Taken "'m option" | Taken_many "'m list"

fun run_sub :: "('m \<Rightarrow> 's \<Rightarrow> (bool \<times> 's) option) \<Rightarrow> ('s \<Rightarrow> ('m option \<times> 's) option) \<Rightarrow>
  ('m list \<Rightarrow> 's \<Rightarrow> (bool \<times> 's) option) \<Rightarrow> (u64 \<Rightarrow> 's \<Rightarrow> ('m list \<times> 's) option) \<Rightarrow>
  'm sub_op list \<Rightarrow> 's \<Rightarrow> ('m sub_event list \<times> 's) option" where
  "run_sub put get put_many get_many [] s = Some ([], s)"
| "run_sub put get put_many get_many (x # ops) s = do {
     (event, s) \<leftarrow> (case x of
         Put v \<Rightarrow> map_option (\<lambda>(ok, s). (Added ok, s)) (put v s)
       | Take \<Rightarrow> map_option (\<lambda>(r, s). (Taken r, s)) (get s)
       | Put_many vs \<Rightarrow> map_option (\<lambda>(ok, s). (Added ok, s)) (put_many vs s)
       | Take_many n \<Rightarrow> map_option (\<lambda>(rs, s). (Taken_many rs, s)) (get_many n s));
     (events, s) \<leftarrow> run_sub put get put_many get_many ops s;
     Some (event # events, s) }"

text \<open>How many elements the operations offer.\<close>

fun offered :: "'m sub_op list \<Rightarrow> nat" where
  "offered [] = 0"
| "offered (Put _ # ops) = Suc (offered ops)"
| "offered (Put_many vs # ops) = length vs + offered ops"
| "offered (_ # ops) = offered ops"

text \<open>The events a list that is appended to and taken from allows.\<close>

fun list_allows :: "'m list \<Rightarrow> 'm sub_op list \<Rightarrow> 'm sub_event list \<Rightarrow> bool" where
  "list_allows xs [] [] \<longleftrightarrow> True"
| "list_allows xs (Put v # ops) (Added ok # es) \<longleftrightarrow> list_allows (if ok then xs @ [v] else xs) ops es"
| "list_allows xs (Take # ops) (Taken r # es) \<longleftrightarrow>
     r = (case xs of [] \<Rightarrow> None | v # _ \<Rightarrow> Some v) \<and> list_allows (tl xs) ops es"
| "list_allows xs (Put_many vs # ops) (Added ok # es) \<longleftrightarrow> list_allows (if ok then xs @ vs else xs) ops es"
| "list_allows xs (Take_many n # ops) (Taken_many rs # es) \<longleftrightarrow>
     rs = take (unat n) xs \<and> list_allows (drop (unat n) xs) ops es"
| "list_allows _ _ _ \<longleftrightarrow> False"

text \<open>What a list does that accepts everything.\<close>

fun list_events :: "'m list \<Rightarrow> 'm sub_op list \<Rightarrow> 'm sub_event list" where
  "list_events xs [] = []"
| "list_events xs (Put v # ops) = Added True # list_events (xs @ [v]) ops"
| "list_events xs (Take # ops) = Taken (case xs of [] \<Rightarrow> None | v # _ \<Rightarrow> Some v) # list_events (tl xs) ops"
| "list_events xs (Put_many vs # ops) = Added True # list_events (xs @ vs) ops"
| "list_events xs (Take_many n # ops) = Taken_many (take (unat n) xs) # list_events (drop (unat n) xs) ops"

text \<open>The elements that went in, those that came out, and those that are left.\<close>

fun accepted :: "'m sub_op list \<Rightarrow> 'm sub_event list \<Rightarrow> 'm list" where
  "accepted (Put v # ops) (Added ok # es) = (if ok then v # accepted ops es else accepted ops es)"
| "accepted (Put_many vs # ops) (Added ok # es) = (if ok then vs @ accepted ops es else accepted ops es)"
| "accepted (_ # ops) (_ # es) = accepted ops es"
| "accepted _ _ = []"

fun received :: "'m sub_event list \<Rightarrow> 'm list" where
  "received [] = []"
| "received (Taken (Some v) # es) = v # received es"
| "received (Taken_many vs # es) = vs @ received es"
| "received (_ # es) = received es"

fun left_over :: "'m list \<Rightarrow> 'm sub_op list \<Rightarrow> 'm sub_event list \<Rightarrow> 'm list" where
  "left_over xs (Put v # ops) (Added ok # es) = left_over (if ok then xs @ [v] else xs) ops es"
| "left_over xs (Take # ops) (_ # es) = left_over (tl xs) ops es"
| "left_over xs (Put_many vs # ops) (Added ok # es) = left_over (if ok then xs @ vs else xs) ops es"
| "left_over xs (Take_many n # ops) (_ # es) = left_over (drop (unat n) xs) ops es"
| "left_over xs _ _ = xs"

lemma list_allows_left_over:
  "list_allows xs ops es \<Longrightarrow> xs @ accepted ops es = received es @ left_over xs ops es"
proof (induction xs ops es rule: list_allows.induct)
  case (3 xs ops r es)
  then show ?case by (cases xs) auto
next
  case (5 xs n ops rs es)
  then show ?case by (metis accepted.simps(6) append.assoc append_take_drop_id left_over.simps(4) list_allows.simps(5) received.simps(3))
qed (auto split: if_splits)

lemma list_allows_accepted:
  "list_allows xs ops es \<Longrightarrow> Added False \<notin> set es \<Longrightarrow> es = list_events xs ops"
  by (induction xs ops es rule: list_allows.induct) auto

text \<open>
  The contract the two kinds of producers share: \<open>reliable\<close> says that no allocation fails, and then
  every element is accepted. Adding many elements is part of it only then: a bulk enqueue that fails leaves an implicit
  producer as it was, but not an explicit one.
\<close>

locale sub_queue =
  fixes repr :: "'s \<Rightarrow> 'm list \<Rightarrow> bool" and put :: "'m \<Rightarrow> 's \<Rightarrow> (bool \<times> 's) option"
    and get :: "'s \<Rightarrow> ('m option \<times> 's) option" and put_many :: "'m list \<Rightarrow> 's \<Rightarrow> (bool \<times> 's) option"
    and get_many :: "u64 \<Rightarrow> 's \<Rightarrow> ('m list \<times> 's) option" and reliable :: bool
  assumes put_law: "repr s xs \<Longrightarrow> length xs + 32 < 2 ^ 63 \<Longrightarrow>
      \<exists>ok s'. put v s = Some (ok, s') \<and> repr s' (if ok then xs @ [v] else xs) \<and> (reliable \<longrightarrow> ok)"
    and get_law: "repr s xs \<Longrightarrow>
      \<exists>s'. get s = Some (case xs of [] \<Rightarrow> None | v # _ \<Rightarrow> Some v, s') \<and> repr s' (tl xs)"
    and put_many_law: "repr s xs \<Longrightarrow> length xs + length vs + 32 < 2 ^ 63 \<Longrightarrow> reliable \<Longrightarrow>
      \<exists>s'. put_many vs s = Some (True, s') \<and> repr s' (xs @ vs)"
    and get_many_law: "repr s xs \<Longrightarrow>
      \<exists>s'. get_many n s = Some (take (unat n) xs, s') \<and> repr s' (drop (unat n) xs)"
begin

lemma run_like_list:
  assumes "repr s xs" "length xs + offered ops + 32 < 2 ^ 63" "reliable \<or> (\<forall>vs. Put_many vs \<notin> set ops)"
  shows "\<exists>es s'. run_sub put get put_many get_many ops s = Some (es, s') \<and> list_allows xs ops es \<and>
    (reliable \<longrightarrow> Added False \<notin> set es) \<and> repr s' (left_over xs ops es)"
  using assms
proof (induction ops arbitrary: s xs)
  case (Cons x ops)
  have rest: "reliable \<or> (\<forall>vs. Put_many vs \<notin> set ops)" using Cons.prems(3) by auto
  show ?case
  proof (cases x)
    case (Put v)
    have "length xs + 32 < 2 ^ 63" using Cons.prems(2) by (simp add: Put)
    from put_law [OF Cons.prems(1) this] obtain ok s1 where s1: "put v s = Some (ok, s1)"
      "repr s1 (if ok then xs @ [v] else xs)" "reliable \<longrightarrow> ok" by blast
    have "length (if ok then xs @ [v] else xs) + offered ops + 32 < 2 ^ 63" using Cons.prems(2) by (simp add: Put)
    from Cons.IH [OF s1(2) this rest] obtain es s' where "run_sub put get put_many get_many ops s1 = Some (es, s')"
      "list_allows (if ok then xs @ [v] else xs) ops es" "reliable \<longrightarrow> Added False \<notin> set es" "repr s' (left_over (if ok then xs @ [v] else xs) ops es)" by blast
    with s1 show ?thesis unfolding Put by (intro exI [of _ "Added ok # es"] exI [of _ s']) auto
  next
    case Take
    let ?r = "case xs of [] \<Rightarrow> None | v # _ \<Rightarrow> Some v"
    from get_law [OF Cons.prems(1)] obtain s1 where s1: "get s = Some (?r, s1)" "repr s1 (tl xs)" by blast
    have "length (tl xs) + offered ops + 32 < 2 ^ 63" using Cons.prems(2) by (simp add: Take)
    from Cons.IH [OF s1(2) this rest] obtain es s' where "run_sub put get put_many get_many ops s1 = Some (es, s')"
      "list_allows (tl xs) ops es" "reliable \<longrightarrow> Added False \<notin> set es" "repr s' (left_over (tl xs) ops es)" by blast
    with s1 show ?thesis unfolding Take by (intro exI [of _ "Taken ?r # es"] exI [of _ s']) auto
  next
    case (Put_many vs)
    then have reliable using Cons.prems(3) by auto
    moreover have "length xs + length vs + 32 < 2 ^ 63" using Cons.prems(2) by (simp add: Put_many)
    ultimately obtain s1 where s1: "put_many vs s = Some (True, s1)" "repr s1 (xs @ vs)"
      using put_many_law [OF Cons.prems(1)] by blast
    have "length (xs @ vs) + offered ops + 32 < 2 ^ 63" using Cons.prems(2) by (simp add: Put_many)
    from Cons.IH [OF s1(2) this rest] obtain es s' where "run_sub put get put_many get_many ops s1 = Some (es, s')"
      "list_allows (xs @ vs) ops es" "reliable \<longrightarrow> Added False \<notin> set es" "repr s' (left_over (xs @ vs) ops es)" by blast
    with s1 show ?thesis unfolding Put_many by (intro exI [of _ "Added True # es"] exI [of _ s']) auto
  next
    case (Take_many n)
    from get_many_law [OF Cons.prems(1)] obtain s1 where s1: "get_many n s = Some (take (unat n) xs, s1)"
      "repr s1 (drop (unat n) xs)" by blast
    have "length (drop (unat n) xs) + offered ops + 32 < 2 ^ 63" using Cons.prems(2) by (simp add: Take_many)
    from Cons.IH [OF s1(2) this rest] obtain es s' where "run_sub put get put_many get_many ops s1 = Some (es, s')"
      "list_allows (drop (unat n) xs) ops es" "reliable \<longrightarrow> Added False \<notin> set es" "repr s' (left_over (drop (unat n) xs) ops es)" by blast
    with s1 show ?thesis unfolding Take_many by (intro exI [of _ "Taken_many (take (unat n) xs) # es"] exI [of _ s']) auto
  qed
qed simp

end

section \<open>Both producers keep the contract\<close>

definition explicit_holds :: "bool \<Rightarrow> nat set \<Rightarrow> explicit_producer \<times> 'a pool \<Rightarrow> 'a list \<Rightarrow> bool" where
  "explicit_holds reliable others s xs \<longleftrightarrow>
     (\<exists>bl h e. explicit_queue others (fst s) (snd s) bl h e xs) \<and> (reliable \<longrightarrow> x_blockIndex (fst s) \<noteq> [])"

definition implicit_holds :: "bool \<Rightarrow> nat set \<Rightarrow> producer \<times> 'a pool \<Rightarrow> 'a list \<Rightarrow> bool" where
  "implicit_holds reliable others s xs \<longleftrightarrow>
     (\<exists>bl. subqueue others (fst s) (snd s) bl xs) \<and> (reliable \<longrightarrow> blockIndex (fst s) \<noteq> [])"

lemma x_new_block_index_True:
  "x_new_block_index (\<lambda>_. True) n pr p = Some (ok, pr', p') \<Longrightarrow> ok \<and> x_blockIndex pr' \<noteq> []"
  by (auto simp: x_new_block_index_def Let_def bind_eq_Some_conv split: if_splits)

lemma index_tail_block_index: "index_tail_block e pr = Some pr' \<Longrightarrow> x_blockIndex pr' \<noteq> []"
  by (cases "x_blockIndex pr")
    (auto simp: index_tail_block_def store_slot_def expose_front_def bind_eq_Some_conv Let_def split: if_splits)

lemma x_start_block_True:
  assumes "x_start_block (\<lambda>_. True) e pr p = Some (ok, pr', p')" "\<not> x_limit e pr"
  shows "ok \<and> x_blockIndex pr' \<noteq> []"
  using assms
  by (auto simp: x_start_block_def x_add_block_def bind_eq_Some_conv
      split: if_splits option.splits prod.splits
      dest!: requisition_block_True dest: x_new_block_index_True index_tail_block_index)

lemma x_enqueue_True:
  assumes e: "x_enqueue (\<lambda>_. True) v pr p = Some (ok, pr', p')" "x_blockIndex pr \<noteq> []"
    and q: "explicit_queue others pr p bl h e xs" and small: "length xs + 32 < 2 ^ 63"
  shows "ok \<and> x_blockIndex pr' \<noteq> []"
proof (cases "x_tailIndex pr AND (BLOCK_SIZE - 1) = 0")
  case True
  have core: "x_core (heap p) pr bl h e xs" and fill: "32 * length bl < h + length xs + 32" "h + length xs \<le> 32 * length bl"
    using q by (simp_all add: explicit_queue_def x_ok_def x_core_def)
  from True have "slot_of (x_tailIndex pr) = 0" by (simp add: BLOCK_SIZE_def slot_of_0_iff)
  then have "(h + length xs) mod 32 = 0" using x_tail_position(1) [OF core] by simp
  with fill have full: "h + length xs = 32 * length bl" by presburger
  from x_end_index [OF core full] small have "\<not> x_limit (x_tailIndex pr) pr" by simp
  with e True show ?thesis
    by (auto simp: x_enqueue_def Let_def bind_eq_Some_conv split: if_splits prod.splits dest: x_start_block_True)
next
  case False
  with e show ?thesis by (auto simp: x_enqueue_def Let_def bind_eq_Some_conv)
qed

lemma x_dequeue_index: "x_dequeue pr p = Some (r, pr', p') \<Longrightarrow> x_blockIndex pr' = x_blockIndex pr"
  by (auto simp: x_dequeue_def Let_def bind_eq_Some_conv split: if_splits prod.splits)

lemma explicit_put:
  assumes s: "explicit_holds reliable others s xs" and small: "length xs + 32 < 2 ^ 63"
    and rel: "reliable \<longrightarrow> mok = (\<lambda>_. True)"
  shows "\<exists>ok s'. (case s of (pr, p) \<Rightarrow> x_enqueue mok v pr p) = Some (ok, s') \<and>
    explicit_holds reliable others s' (if ok then xs @ [v] else xs) \<and> (reliable \<longrightarrow> ok)"
proof -
  obtain pr p where [simp]: "s = (pr, p)" by fastforce
  from s obtain bl h e where q: "explicit_queue others pr p bl h e xs" by (auto simp: explicit_holds_def)
  have "Suc (length xs) < 2 ^ 63" using small by simp
  from x_enqueue_ok [OF q this, of mok v] obtain ok pr' p' bl' h' e' where r: "x_enqueue mok v pr p = Some (ok, pr', p')"
    "explicit_queue others pr' p' bl' h' e' (if ok then xs @ [v] else xs)" by blast
  moreover have "reliable \<longrightarrow> ok \<and> x_blockIndex pr' \<noteq> []"
    using x_enqueue_True [OF _ _ q small] r(1) s rel by (auto simp: explicit_holds_def)
  ultimately show ?thesis unfolding explicit_holds_def by fastforce
qed

lemma explicit_get:
  assumes s: "explicit_holds reliable others s xs"
  shows "\<exists>s'. (case s of (pr, p) \<Rightarrow> x_dequeue pr p) = Some (case xs of [] \<Rightarrow> None | v # _ \<Rightarrow> Some v, s') \<and>
    explicit_holds reliable others s' (tl xs)"
proof -
  obtain pr p where [simp]: "s = (pr, p)" by fastforce
  from s obtain bl h e where q: "explicit_queue others pr p bl h e xs" by (auto simp: explicit_holds_def)
  from x_dequeue_ok [OF q] obtain pr' p' h' where r: "x_dequeue pr p = Some (case xs of [] \<Rightarrow> None | v # _ \<Rightarrow> Some v, pr', p')"
    "explicit_queue others pr' p' bl h' e (tl xs)" by blast
  with x_dequeue_index [OF r(1)] s show ?thesis unfolding explicit_holds_def by fastforce
qed

lemma implicit_put:
  assumes s: "implicit_holds reliable others s xs" and small: "length xs + 32 < 2 ^ 63"
    and rel: "reliable \<longrightarrow> mok = (\<lambda>_. True)"
  shows "\<exists>ok s'. (case s of (pr, p) \<Rightarrow> producer_enqueue mok v pr p) = Some (ok, s') \<and>
    implicit_holds reliable others s' (if ok then xs @ [v] else xs) \<and> (reliable \<longrightarrow> ok)"
proof -
  obtain pr p where [simp]: "s = (pr, p)" by fastforce
  from s obtain bl where q: "subqueue others pr p bl xs" by (auto simp: implicit_holds_def)
  then have core: "queue_core (heap p) pr bl xs" by (simp add: subqueue_def queue_ok_def)
  from producer_enqueue_ok [OF q, of mok v] obtain ok pr' p' bl' where r: "producer_enqueue mok v pr p = Some (ok, pr', p')"
    "subqueue others pr' p' bl' (if ok then xs @ [v] else xs)" by blast
  moreover have "reliable \<longrightarrow> ok \<and> blockIndex pr' \<noteq> []"
    using producer_enqueue_True [OF _ _ core small] r(1) s rel by (auto simp: implicit_holds_def)
  ultimately show ?thesis unfolding implicit_holds_def by fastforce
qed

lemma implicit_get:
  assumes s: "implicit_holds reliable others s xs"
  shows "\<exists>s'. (case s of (pr, p) \<Rightarrow> producer_dequeue pr p) = Some (case xs of [] \<Rightarrow> None | v # _ \<Rightarrow> Some v, s') \<and>
    implicit_holds reliable others s' (tl xs)"
proof -
  obtain pr p where [simp]: "s = (pr, p)" by fastforce
  from s obtain bl where q: "subqueue others pr p bl xs" by (auto simp: implicit_holds_def)
  show ?thesis
  proof (cases xs)
    case Nil
    with producer_dequeue_empty q s show ?thesis by fastforce
  next
    case (Cons v ys)
    with producer_dequeue_ok [of others pr p bl v ys] q obtain pr' p' bl' where
      r: "producer_dequeue pr p = Some (Some v, pr', p')" "subqueue others pr' p' bl' ys" by blast
    with producer_dequeue_index [OF r(1)] s Cons show ?thesis unfolding implicit_holds_def by fastforce
  qed
qed

lemma take_min_length: "take (min n (length xs)) xs = take n xs" "drop (min n (length xs)) xs = drop n xs"
  by (simp_all add: min_def)

lemma x_slots_index: "x_slots pr e bl \<Longrightarrow> bl \<noteq> [] \<Longrightarrow> x_blockIndex pr \<noteq> []"
  by (auto simp: x_slots_def current_index_def split: if_splits)

lemma explicit_put_many:
  assumes s: "explicit_holds reliable others s xs" and small: "length xs + length vs + 32 < 2 ^ 63" and rel: "mok = (\<lambda>_. True)"
  shows "\<exists>s'. (case s of (pr, p) \<Rightarrow> x_enqueue_bulk mok vs pr p) = Some (True, s') \<and> explicit_holds reliable others s' (xs @ vs)"
proof -
  obtain pr p where [simp]: "s = (pr, p)" by fastforce
  from s obtain bl h e where q: "explicit_queue others pr p bl h e xs" by (auto simp: explicit_holds_def)
  show ?thesis
  proof (cases "vs = []")
    case True
    with s show ?thesis by (simp add: x_enqueue_bulk_nil)
  next
    case False
    from x_enqueue_bulk_ok [OF q small, of mok] rel obtain ok pr' p' bl' h' e' where
      "x_enqueue_bulk mok vs pr p = Some (ok, pr', p')" ok "explicit_queue others pr' p' bl' h' e' (xs @ vs)" by blast
    then have r: "x_enqueue_bulk mok vs pr p = Some (True, pr', p')" "explicit_queue others pr' p' bl' h' e' (xs @ vs)" by simp_all
    then have "h' + length (xs @ vs) \<le> 32 * length bl'" "x_slots pr' e' bl'"
      by (simp_all add: explicit_queue_def x_ok_def x_core_def)
    with False have "x_blockIndex pr' \<noteq> []" by (intro x_slots_index) auto
    with r show ?thesis unfolding explicit_holds_def by fastforce
  qed
qed

lemma explicit_get_many:
  assumes s: "explicit_holds reliable others s xs"
  shows "\<exists>s'. (case s of (pr, p) \<Rightarrow> x_dequeue_bulk n pr p) = Some (take (unat n) xs, s') \<and>
    explicit_holds reliable others s' (drop (unat n) xs)"
proof -
  obtain pr p where [simp]: "s = (pr, p)" by fastforce
  from s obtain bl h e where q: "explicit_queue others pr p bl h e xs" by (auto simp: explicit_holds_def)
  from x_dequeue_bulk_ok [OF q, of n] s show ?thesis
    unfolding explicit_holds_def take_min_length by fastforce
qed

lemma implicit_put_many:
  assumes s: "implicit_holds (mok = (\<lambda>_. True)) others s xs" and small: "length xs + length vs + 32 < 2 ^ 63"
    and rel: "mok = (\<lambda>_. True)"
  shows "\<exists>s'. (case s of (pr, p) \<Rightarrow> producer_enqueue_bulk mok vs pr p) = Some (True, s') \<and>
    implicit_holds (mok = (\<lambda>_. True)) others s' (xs @ vs)"
proof -
  obtain pr p where [simp]: "s = (pr, p)" by fastforce
  from s obtain bl where q: "subqueue others pr p bl xs" "blockIndex pr \<noteq> []" using rel by (auto simp: implicit_holds_def)
  have "length vs < 2 ^ 63" using small by simp
  from producer_enqueue_bulk_ok [OF q(1) this, of mok] obtain ok pr' p' bl' where
    "producer_enqueue_bulk mok vs pr p = Some (ok, pr', p')" "subqueue others pr' p' bl' (if ok then xs @ vs else xs)"
    "mok = (\<lambda>_. True) \<and> blockIndex pr \<noteq> [] \<and> length xs + length vs + 32 < 2 ^ 63 \<longrightarrow> ok \<and> blockIndex pr' \<noteq> []" by blast
  then have "producer_enqueue_bulk mok vs pr p = Some (True, pr', p')" "subqueue others pr' p' bl' (xs @ vs)" "blockIndex pr' \<noteq> []"
    using q(2) small rel by simp_all
  then show ?thesis unfolding implicit_holds_def by fastforce
qed

lemma dequeue_times_index: "dequeue_times n pr p = Some (vs, pr', p') \<Longrightarrow> (blockIndex pr' = []) = (blockIndex pr = [])"
proof (induction n arbitrary: pr p vs)
  case (Suc n)
  then show ?case by (auto simp: bind_eq_Some_conv dest!: producer_dequeue_index split: option.splits)
qed simp

lemma implicit_get_many:
  assumes s: "implicit_holds reliable others s xs"
  shows "\<exists>s'. (case s of (pr, p) \<Rightarrow> producer_dequeue_bulk n pr p) = Some (take (unat n) xs, s') \<and>
    implicit_holds reliable others s' (drop (unat n) xs)"
proof -
  obtain pr p where [simp]: "s = (pr, p)" by fastforce
  from s obtain bl where q: "subqueue others pr p bl xs" by (auto simp: implicit_holds_def)
  from dequeue_times_ok [OF q, of "min (unat n) (length xs)"] obtain pr' p' bl' where
    r: "dequeue_times (min (unat n) (length xs)) pr p = Some (take (unat n) xs, pr', p')"
    "subqueue others pr' p' bl' (drop (unat n) xs)" unfolding take_min_length by auto
  with dequeue_times_index [OF r(1)] s dequeue_bulk_is_dequeues [OF q, of n] show ?thesis
    unfolding implicit_holds_def by fastforce
qed

lemma new_producer_holds:
  assumes "pool_inv p others"
  shows "implicit_holds (mok = (\<lambda>_. True)) others (new_producer mok p) []"
proof -
  obtain pr p1 where n: "new_producer mok p = (pr, p1)" by fastforce
  have "mok = (\<lambda>_. True) \<Longrightarrow> blockIndex pr \<noteq> []"
    using n unfolding new_producer_def by (metis new_block_index_True prod.collapse snd_conv)
  moreover have "queue_ok (heap p1) pr [] [] \<and> pool_inv p1 others" using new_producer_ok [OF n, of "heap p1" others] assms by blast
  ultimately show ?thesis
    unfolding n implicit_holds_def subqueue_def by (auto intro!: exI [of _ "[] :: nat list"])
qed

text \<open>The runs of the two kinds of producers, the pool of blocks included.\<close>

definition explicit_run :: "malloc_ok \<Rightarrow> 'm sub_op list \<Rightarrow> explicit_producer \<times> 'm pool \<Rightarrow>
    ('m sub_event list \<times> explicit_producer \<times> 'm pool) option" where
  "explicit_run mok = run_sub (\<lambda>v (pr, p). x_enqueue mok v pr p) (\<lambda>(pr, p). x_dequeue pr p)
     (\<lambda>vs (pr, p). x_enqueue_bulk mok vs pr p) (\<lambda>n (pr, p). x_dequeue_bulk n pr p)"

definition implicit_run :: "malloc_ok \<Rightarrow> 'm sub_op list \<Rightarrow> producer \<times> 'm pool \<Rightarrow>
    ('m sub_event list \<times> producer \<times> 'm pool) option" where
  "implicit_run mok = run_sub (\<lambda>v (pr, p). producer_enqueue mok v pr p) (\<lambda>(pr, p). producer_dequeue pr p)
     (\<lambda>vs (pr, p). producer_enqueue_bulk mok vs pr p) (\<lambda>n (pr, p). producer_dequeue_bulk n pr p)"

interpretation xq: sub_queue "explicit_holds (mok = (\<lambda>_. True)) others" "\<lambda>v (pr, p). x_enqueue mok v pr p"
  "\<lambda>(pr, p). x_dequeue pr p" "\<lambda>vs (pr, p). x_enqueue_bulk mok vs pr p" "\<lambda>n (pr, p). x_dequeue_bulk n pr p"
  "mok = (\<lambda>_. True)" for mok others
  by unfold_locales (rule explicit_put explicit_get explicit_put_many explicit_get_many; simp)+

interpretation iq: sub_queue "implicit_holds (mok = (\<lambda>_. True)) others" "\<lambda>v (pr, p). producer_enqueue mok v pr p"
  "\<lambda>(pr, p). producer_dequeue pr p" "\<lambda>vs (pr, p). producer_enqueue_bulk mok vs pr p"
  "\<lambda>n (pr, p). producer_dequeue_bulk n pr p" "mok = (\<lambda>_. True)" for mok others
  by unfold_locales (rule implicit_put implicit_get implicit_put_many implicit_get_many; simp)+

section \<open>Properties\<close>

text \<open>
  C21. A producer token has a queue of its own that is first in, first out, whatever allocations fail:
  from a new explicit producer, any sequence of enqueues, dequeues and bulk dequeues runs to its end (no failed
  \<open>assert\<close>, no missing block, no slot of the block index read before it was written), and its answers
  are those of a list to which the accepted elements are appended. An enqueue fails only when an allocation does.
  While no allocation fails the same holds of sequences with bulk enqueues.
\<close>

theorem explicit_producer_fifo:
  fixes ops :: "'m sub_op list"
  assumes "pool_inv p others" "offered ops + 32 < 2 ^ 63" "mok = (\<lambda>_. True) \<or> (\<forall>vs. Put_many vs \<notin> set ops)"
  shows "\<exists>s es s'. new_explicit_producer mok p = Some s \<and> explicit_run mok ops s = Some (es, s') \<and>
    list_allows [] ops es \<and> (mok = (\<lambda>_. True) \<longrightarrow> Added False \<notin> set es)"
proof -
  from new_explicit_producer_ok [OF assms(1), of mok] obtain pr p' where new: "new_explicit_producer mok p = Some (pr, p')"
    "explicit_queue others pr p' [] 0 0 []" "mok (mallocs p) \<longrightarrow> x_blockIndex pr \<noteq> []" by blast
  then have "explicit_holds (mok = (\<lambda>_. True)) others (pr, p') []" by (auto simp: explicit_holds_def)
  from xq.run_like_list [folded explicit_run_def, OF this _ assms(3)] assms(2) new(1) show ?thesis by fastforce
qed

text \<open>
  C22. The two kinds of producers answer alike: started on the same pool and given the same operations, single and
  bulk, the explicit producer (blocks reused in a ring, a flag per element, an array of pairs as index) and the implicit
  one (blocks returned to the free list, a counter per block, an index of separately allocated entries) give the same
  sequence of answers, that of a list, while no allocation fails.
\<close>

theorem producers_agree:
  fixes ops :: "'m sub_op list"
  assumes "pool_inv p others" "offered ops + 32 < 2 ^ 63"
  shows "\<exists>s. new_explicit_producer (\<lambda>_. True) p = Some s \<and>
    map_option fst (explicit_run (\<lambda>_. True) ops s) = Some (list_events [] ops) \<and>
    map_option fst (implicit_run (\<lambda>_. True) ops (new_producer (\<lambda>_. True) p)) = Some (list_events [] ops)"
proof -
  let ?m = "\<lambda>_ :: nat. True"
  from new_explicit_producer_ok [OF assms(1), of ?m] obtain pr p' where new: "new_explicit_producer ?m p = Some (pr, p')"
    "explicit_queue others pr p' [] 0 0 []" "x_blockIndex pr \<noteq> []" by blast
  then have "explicit_holds (?m = (\<lambda>_. True)) others (pr, p') []" by (auto simp: explicit_holds_def)
  from xq.run_like_list [folded explicit_run_def, OF this, of ops] assms(2) obtain es s' where
    x: "explicit_run ?m ops (pr, p') = Some (es, s')" "es = list_events [] ops" by (auto dest: list_allows_accepted)
  obtain pr1 p1 where n: "new_producer ?m p = (pr1, p1)" by fastforce
  have "implicit_holds (?m = (\<lambda>_. True)) others (pr1, p1) []" using new_producer_holds [OF assms(1), of ?m] n by simp
  from iq.run_like_list [folded implicit_run_def, OF this, of ops] assms(2) obtain es1 s1 where
    i: "implicit_run ?m ops (pr1, p1) = Some (es1, s1)" "es1 = list_events [] ops" by (auto dest: list_allows_accepted)
  from new(1) x i n show ?thesis by simp
qed

lemma empty_pool_inv: "pool_inv empty_pool {}"
  by (auto simp: pool_inv_def pool_ok_def empty_pool_def intro!: exI [of _ "[]"])

theorem explicit_producer_fifo_witness:
  "\<exists>s es s'. new_explicit_producer (\<lambda>n. n < 2) (empty_pool :: nat pool) = Some s \<and>
    explicit_run (\<lambda>n. n < 2) [Put 1, Put 2, Take, Take_many 5] s = Some (es, s') \<and>
    list_allows [] [Put 1, Put 2, Take, Take_many 5] es"
  using explicit_producer_fifo [OF empty_pool_inv, where ops = "[Put (1 :: nat), Put 2, Take, Take_many 5]" and mok = "\<lambda>n. n < 2"] by auto

theorem producers_agree_witness:
  "\<exists>s. new_explicit_producer (\<lambda>_. True) (empty_pool :: nat pool) = Some s \<and>
    map_option fst (explicit_run (\<lambda>_. True) [Put 7, Put_many [8, 9], Take, Take_many 3, Take] s) =
      Some [Added True, Added True, Taken (Some 7), Taken_many [8, 9], Taken None]"
  using producers_agree [OF empty_pool_inv, where ops = "[Put (7 :: nat), Put_many [8, 9], Take, Take_many 3, Take]"] by auto

end
