(* ===== verification/Cq_Explicit_Lifetime.thy ===== *)
theory Cq_Explicit_Lifetime
  imports Cq_Explicit_Bulk_Enqueue
begin

text \<open>
  \<open>include/concurrentqueue.h\<close>: \<open>~ExplicitProducer\<close>. It looks the block the head is inside of up in the block index, goes once
  around the ring to destroy the elements of the blocks that are not empty, and once more to give the blocks
  back. It destroys exactly the elements of the queue, in order, and gives every block back once.
\<close>

section \<open>The destructor\<close>

text \<open>The block the head is inside of, looked for from the oldest entry of the index on.\<close>

partial_function (option) skip_entries :: "explicit_producer \<Rightarrow> explicit_index \<Rightarrow> u64 \<Rightarrow> u64 option" where
  "skip_entries pr h i = do {
     (base, _) \<leftarrow> xi_entries h ! unat i;
     if circular_less_than (base + BLOCK_SIZE) (x_headIndex pr)
     then skip_entries pr h ((i + 1) AND (pr_blockIndexSize pr - 1))
     else Some i }"

definition half_dequeued_block :: "explicit_producer \<Rightarrow> nat option option" where
  "half_dequeued_block pr =
     (if x_headIndex pr AND (BLOCK_SIZE - 1) \<noteq> 0 then do {
        h \<leftarrow> current_index pr;
        i \<leftarrow> skip_entries pr h ((pr_blockIndexFront pr - pr_blockIndexSlotsUsed pr) AND (pr_blockIndexSize pr - 1));
        (base, b) \<leftarrow> xi_entries h ! unat i;
        if circular_less_than base (x_headIndex pr) then Some (Some b) else None }
      else Some None)"

partial_function (option) x_destroy_elements :: "nat \<Rightarrow> u64 \<Rightarrow> nat \<Rightarrow> u64 \<Rightarrow> 'a pool \<Rightarrow> ('a list \<times> 'a pool) option" where
  "x_destroy_elements tailb lastValidIndex b i p =
     (if i \<noteq> BLOCK_SIZE \<and> (b \<noteq> tailb \<or> i \<noteq> lastValidIndex) then do {
        (v, p) \<leftarrow> take_element b i p;
        (vs, p) \<leftarrow> x_destroy_elements tailb lastValidIndex b (i + 1) p;
        Some (v # vs, p) }
      else Some ([], p))"

partial_function (option) x_destroy_blocks ::
  "explicit_producer \<Rightarrow> nat option \<Rightarrow> nat \<Rightarrow> nat \<Rightarrow> 'a pool \<Rightarrow> ('a list \<times> 'a pool) option" where
  "x_destroy_blocks pr halfDequeuedBlock tailb b p = do {
     b \<leftarrow> get_next b p;
     free \<leftarrow> x_is_empty b p;
     (els, p) \<leftarrow>
       (if free then Some ([], p)
        else
          let i = (if Some b = halfDequeuedBlock then x_headIndex pr AND (BLOCK_SIZE - 1) else 0);
              lastValidIndex = (if x_tailIndex pr AND (BLOCK_SIZE - 1) = 0 then BLOCK_SIZE
                                else x_tailIndex pr AND (BLOCK_SIZE - 1)) in
          x_destroy_elements tailb lastValidIndex b i p);
     if b = tailb then Some (els, p)
     else do {
       (rest, p) \<leftarrow> x_destroy_blocks pr halfDequeuedBlock tailb b p;
       Some (els @ rest, p) } }"

partial_function (option) x_give_back :: "nat \<Rightarrow> nat \<Rightarrow> 'a pool \<Rightarrow> 'a pool option" where
  "x_give_back tailb b p = do {
     nextBlock \<leftarrow> get_next b p;
     p \<leftarrow> add_block_to_free_list b p;
     if nextBlock = tailb then Some p else x_give_back tailb nextBlock p }"

text \<open>The elements destroyed, the block indices freed and the pool.\<close>

definition destroy_explicit :: "explicit_producer \<Rightarrow> 'a pool \<Rightarrow> ('a list \<times> explicit_index list \<times> 'a pool) option" where
  "destroy_explicit pr p =
     (case x_tailBlock pr of
        None \<Rightarrow> Some ([], x_blockIndex pr, p)
      | Some t \<Rightarrow> do {
          halfDequeuedBlock \<leftarrow> half_dequeued_block pr;
          (els, p) \<leftarrow> x_destroy_blocks pr halfDequeuedBlock t t p;
          p \<leftarrow> x_give_back t t p;
          Some (els, x_blockIndex pr, p) })"

section \<open>Giving the blocks back\<close>

lemma x_give_back_ok:
  assumes "cs \<noteq> []" "\<forall>i < length cs. get_next (cs ! i) p = Some ((cs @ [t]) ! Suc i)" "t \<notin> set (tl cs)" "distinct cs"
    "pool_inv p (others \<union> set cs)" "set cs \<inter> others = {}"
  shows "\<exists>p'. x_give_back t (hd cs) p = Some p' \<and> pool_inv p' others \<and> (\<forall>a \<in> others. heap p' a = heap p a)"
  using assms
proof (induction cs arbitrary: p)
  case (Cons c ds)
  have n: "get_next c p = Some (hd (ds @ [t]))" using Cons.prems(2) [rule_format, of 0] by (cases ds) simp_all
  have "others \<union> set (c # ds) - {c} = others \<union> set ds" using Cons.prems(4,6) by auto
  with pool.free_law [OF Cons.prems(5), of c] obtain p1 where p1: "add_block_to_free_list c p = Some p1"
    "pool_inv p1 (others \<union> set ds)" "\<forall>a \<in> others \<union> set ds. heap p1 a = heap p a" by auto
  show ?case
  proof (cases ds)
    case Nil
    with n p1 show ?thesis by (subst x_give_back.simps) simp
  next
    case (Cons d es)
    then have d: "hd ds \<noteq> t" "ds \<noteq> []" "hd (ds @ [t]) = hd ds" using Cons.prems(3) by auto
    have "\<forall>i < length ds. get_next (ds ! i) p1 = Some ((ds @ [t]) ! Suc i)"
    proof (intro allI impI)
      fix i assume i: "i < length ds"
      then have "heap p1 (ds ! i) = heap p (ds ! i)" using p1(3) by simp
      then show "get_next (ds ! i) p1 = Some ((ds @ [t]) ! Suc i)"
        using Cons.prems(2) [rule_format, of "Suc i"] i by (simp add: get_next_def)
    qed
    moreover have "t \<notin> set (tl ds)" "distinct ds" "set ds \<inter> others = {}" using Cons.prems(3,4,6) Cons by auto
    ultimately obtain p' where "x_give_back t (hd ds) p1 = Some p'" "pool_inv p' others" "\<forall>a \<in> others. heap p' a = heap p1 a"
      using Cons.IH [OF d(2) _ _ _ p1(2)] by blast
    then show ?thesis using n d p1 by (subst x_give_back.simps) simp
  qed
qed simp

lemma x_ring_get_next:
  assumes "x_ring (heap p) bl F" "i < length bl"
  shows "get_next (bl ! i) p = Some (bl ! (Suc i mod length bl))"
  using assms by (auto simp: get_next_def elim: x_ring_next)

lemma x_give_back_ring:
  assumes ring: "x_ring (heap p) bl F" and bl: "bl \<noteq> []" "distinct bl" "set bl \<inter> others = {}"
    and inv: "pool_inv p (others \<union> set bl)"
  shows "\<exists>p'. x_give_back (last bl) (last bl) p = Some p' \<and> pool_inv p' others \<and> (\<forall>a \<in> others. heap p' a = heap p a)"
proof -
  obtain ds t where split: "bl = ds @ [t]" using bl(1) by (meson rev_exhaust)
  have "\<forall>i < length (t # ds). get_next ((t # ds) ! i) p = Some (((t # ds) @ [t]) ! Suc i)"
  proof (intro allI impI)
    fix i assume "i < length (t # ds)"
    then have i: "i < length bl" by (simp add: split)
    have right: "((t # ds) @ [t]) ! Suc i = bl ! i" by (simp add: split)
    show "get_next ((t # ds) ! i) p = Some (((t # ds) @ [t]) ! Suc i)"
    proof (cases i)
      case 0
      have "get_next (bl ! length ds) p = Some (bl ! (Suc (length ds) mod length bl))"
        by (intro x_ring_get_next [OF ring]) (simp add: split)
      then show ?thesis unfolding right using 0 by (simp add: split)
    next
      case (Suc j)
      have "get_next (bl ! j) p = Some (bl ! (Suc j mod length bl))" using i Suc by (intro x_ring_get_next [OF ring]) simp
      then show ?thesis unfolding right using i Suc by (simp add: split nth_append)
    qed
  qed
  moreover have "t \<notin> set (tl (t # ds))" "distinct (t # ds)" "set (t # ds) = set bl" using bl(2) by (auto simp: split)
  ultimately show ?thesis using x_give_back_ok [of "t # ds" p t others] inv bl(3) by (simp add: split)
qed

section \<open>The block the head is inside of\<close>

lemma slots_ok_entry:
  assumes "slots_ok es k f e bl" "j < length bl"
  shows "es ! ring_pos (2 ^ k) f (length bl - j) = Some (e - of_nat (32 * (length bl - j)), bl ! j)"
proof -
  let ?d = "length bl - Suc j"
  have "Suc ?d = length bl - j" "length bl - 1 - ?d = j" "?d < length bl" using assms(2) by simp_all
  then show ?thesis using assms(1) unfolding slots_ok_def by metis
qed

lemma head_from_base:
  fixes head e :: u64
  assumes "head = e - of_nat (32 * n) + of_nat h" "j \<le> n"
  shows "head - (e - of_nat (32 * (n - j))) = of_nat h - of_nat (32 * j)"
proof -
  have "(of_nat (32 * n) :: u64) = of_nat (32 * (n - j)) + of_nat (32 * j)"
    using assms(2) by (metis distrib_left le_add_diff_inverse2 of_nat_add)
  then show ?thesis unfolding assms(1) by simp
qed

lemma circular_forward:
  fixes a b :: u64
  assumes "b - a = of_nat k" "k < 2 ^ 63"
  shows "circular_less_than a b \<longleftrightarrow> 0 < k" "\<not> circular_less_than b a"
proof -
  have u: "unat (b - a) = k" unfolding assms(1) using assms(2) by (intro unat_of_nat_u64) simp
  then show "\<not> circular_less_than b a" using assms(2) by (simp add: circular_less_than_unat)
  have "a = b \<longleftrightarrow> k = 0" using u by (metis diff_self unat_0 unat_eq_0 eq_iff_diff_eq_0)
  then show "circular_less_than a b \<longleftrightarrow> 0 < k" using u assms(2) by (subst circular_less_than_iff) auto
qed

lemma skip_entries_ok:
  assumes ok: "slots_ok (xi_entries g) k f e bl" and size: "pr_blockIndexSize pr = 2 ^ k" "k < 64" "f < 2 ^ k"
    and head: "x_headIndex pr = e - of_nat (32 * length bl) + of_nat h"
    and h: "h div 32 < length bl" "32 * length bl < 2 ^ 63 + 32"
  shows "j \<le> h div 32 \<Longrightarrow> unat i = ring_pos (2 ^ k) f (length bl - j) \<Longrightarrow> h mod 32 \<noteq> 0 \<Longrightarrow>
    \<exists>a. skip_entries pr g i = Some a \<and> unat a = ring_pos (2 ^ k) f (length bl - h div 32)"
proof (induction "h div 32 - j" arbitrary: j i)
  case 0
  then have j: "j = h div 32" by simp
  have entry: "xi_entries g ! unat i = Some (e - of_nat (32 * (length bl - j)), bl ! j)"
    unfolding 0(3) using h(1) j by (intro slots_ok_entry [OF ok]) simp
  let ?r = "h mod 32"
  have "(of_nat h :: u64) = of_nat (32 * j) + of_nat ?r" unfolding j by (metis mult_div_mod_eq of_nat_add)
  then have "x_headIndex pr - (e - of_nat (32 * (length bl - j))) = of_nat ?r"
    using head_from_base [OF head, of j] h(1) j by simp
  then have "e - of_nat (32 * (length bl - j)) + BLOCK_SIZE - x_headIndex pr = 32 - of_nat ?r"
    by (simp add: BLOCK_SIZE_def algebra_simps)
  also have "32 - of_nat ?r = (of_nat (32 - ?r) :: u64)" by simp
  finally have "\<not> circular_less_than (e - of_nat (32 * (length bl - j)) + BLOCK_SIZE) (x_headIndex pr)"
    by (rule circular_forward(2)) simp
  then show ?case using entry 0(3) j by (subst skip_entries.simps) simp
next
  case (Suc c)
  then have j: "j < h div 32" by simp
  have entry: "xi_entries g ! unat i = Some (e - of_nat (32 * (length bl - j)), bl ! j)"
    unfolding Suc(4) using h(1) j by (intro slots_ok_entry [OF ok]) simp
  have le: "32 * j + 32 < h"
  proof -
    have "32 * (h div 32) + h mod 32 = h" by (rule mult_div_mod_eq)
    moreover have "0 < h mod 32" using Suc(5) by simp
    ultimately show ?thesis using j by linarith
  qed
  obtain d where d: "h = 32 * j + 32 + d" "0 < d" using le by (metis less_imp_add_positive)
  have "h < 32 * length bl" using h(1) by (simp add: div_less_iff_less_mult)
  then have small: "d < 2 ^ 63" using h(2) d(1) by linarith
  have "(of_nat h :: u64) = of_nat (32 * j) + 32 + of_nat d" unfolding d(1) by (metis of_nat_add of_nat_numeral)
  then have "x_headIndex pr - (e - of_nat (32 * (length bl - j)) + BLOCK_SIZE) = of_nat d"
    using head_from_base [OF head, of j] h(1) j by (simp add: BLOCK_SIZE_def diff_diff_eq [symmetric])
  from circular_forward(1) [OF this small] d(2)
  have less: "circular_less_than (e - of_nat (32 * (length bl - j)) + BLOCK_SIZE) (x_headIndex pr)" by simp
  have n: "length bl \<le> 2 ^ k" using ok by (simp add: slots_ok_def)
  have "unat ((i + 1) AND (2 ^ k - 1)) = ring_pos (2 ^ k) f (length bl - Suc j)"
  proof (rule ring_word_Suc [OF size(2) _ _ size(3)])
    have "Suc (length bl - Suc j) = length bl - j" using j h(1) by simp
    then show "unat i = ring_pos (2 ^ k) f (Suc (length bl - Suc j))" using Suc(4) by simp
  qed (use n j h(1) in simp)
  moreover have "c = h div 32 - Suc j" "Suc j \<le> h div 32" using Suc(2) j by linarith+
  ultimately obtain a where
    "skip_entries pr g ((i + 1) AND (2 ^ k - 1)) = Some a" "unat a = ring_pos (2 ^ k) f (length bl - h div 32)"
    using Suc(1) Suc(5) by blast
  then show ?case using entry less by (subst skip_entries.simps) (simp add: size(1))
qed

lemma half_dequeued_block_ok:
  assumes core: "x_core hp pr bl h e xs" and room: "h \<le> 32 * length bl"
  shows "half_dequeued_block pr = Some (if h mod 32 = 0 then None else Some (bl ! (h div 32)))"
proof -
  have slot: "x_headIndex pr AND (BLOCK_SIZE - 1) = 0 \<longleftrightarrow> h mod 32 = 0"
    using x_tail_position(2) [OF core] by (simp add: BLOCK_SIZE_def slot_of_0_iff)
  show ?thesis
  proof (cases "h mod 32 = 0")
    case True
    then show ?thesis using slot by (simp add: half_dequeued_block_def)
  next
    case False
    have h: "h div 32 < length bl"
    proof -
      have "h \<noteq> 32 * length bl" using False by auto
      then show ?thesis using room by (intro less_mult_imp_div_less) simp
    qed
    have slots: "x_slots pr e bl" and small: "32 * length bl < 2 ^ 63 + 32"
      and head: "x_headIndex pr = e - of_nat (32 * length bl) + of_nat h" using core by (simp_all add: x_core_def)
    have "h < 32 * length bl" using h by (simp add: div_less_iff_less_mult)
    from x_lookup_position [OF core this] obtain g k where g: "current_index pr = Some g"
      "slots_ok (xi_entries g) k (unat (pr_blockIndexFront pr)) e bl" "k < 64" "xi_size g = 2 ^ k" by blast
    from g(1) obtain gs where bi: "x_blockIndex pr = g # gs" by (auto simp: current_index_def split: list.splits)
    from x_slots_power [OF slots bi] g(4) have size: "pr_blockIndexSize pr = 2 ^ k" and used: "unat (pr_blockIndexSlotsUsed pr) = length bl"
      by metis+
    have f: "unat (pr_blockIndexFront pr) < 2 ^ k" and n: "length bl \<le> 2 ^ k" using g(2) by (simp_all add: slots_ok_def)
    have "of_nat (length bl) = pr_blockIndexSlotsUsed pr" by (simp flip: used)
    then have start: "unat ((pr_blockIndexFront pr - pr_blockIndexSlotsUsed pr) AND (2 ^ k - 1))
        = ring_pos (2 ^ k) (unat (pr_blockIndexFront pr)) (length bl - 0)"
      using ring_pos_word [of k "pr_blockIndexFront pr" "length bl"] g(3) f n by simp
    from skip_entries_ok [OF g(2) size g(3) f head h small _ start False] obtain a where
      a: "skip_entries pr g ((pr_blockIndexFront pr - pr_blockIndexSlotsUsed pr) AND (2 ^ k - 1)) = Some a"
      "unat a = ring_pos (2 ^ k) (unat (pr_blockIndexFront pr)) (length bl - h div 32)" by blast
    have entry: "xi_entries g ! unat a = Some (e - of_nat (32 * (length bl - h div 32)), bl ! (h div 32))"
      unfolding a(2) by (rule slots_ok_entry [OF g(2) h])
    have "(of_nat h :: u64) = of_nat (32 * (h div 32)) + of_nat (h mod 32)" by (metis mult_div_mod_eq of_nat_add)
    then have "x_headIndex pr - (e - of_nat (32 * (length bl - h div 32))) = of_nat (h mod 32)"
      using head_from_base [OF head, of "h div 32"] h by simp
    from circular_forward(1) [OF this] False
    have "circular_less_than (e - of_nat (32 * (length bl - h div 32))) (x_headIndex pr)" by simp
    then show ?thesis using slot False g(1) a(1) entry by (simp add: half_dequeued_block_def size)
  qed
qed

section \<open>Destroying the elements\<close>

lemma slot_of_small: "s < 32 \<Longrightarrow> slot_of (of_nat s) = s"
  using slot_of_add [of 0 s] by (simp add: slot_of_def)

lemma x_destroy_elements_ok:
  assumes "heap p b = Some x" "length (elements x) = 32" "length ys = k" "\<forall>j < k. elements x ! (s + j) = Some (ys ! j)"
    "s + k \<le> 32" "if b = tailb then lastValidIndex = of_nat (s + k) else s + k = 32"
  shows "x_destroy_elements tailb lastValidIndex b (of_nat s) p =
    Some (ys, put_block b (x\<lparr>elements := clear s k (elements x)\<rparr>) p)"
  using assms
proof (induction k arbitrary: s p x ys)
  case 0
  then show ?case
    by (subst x_destroy_elements.simps) (auto simp: BLOCK_SIZE_def put_block_same split: if_splits)
next
  case (Suc k)
  then obtain v zs where ys: "ys = v # zs" by (cases ys) auto
  let ?x = "x\<lparr>elements := (elements x)[s := None]\<rparr>"
  have s: "s < 32" using Suc.prems(5) by simp
  have u: "unat (of_nat s :: u64) = s" "unat (of_nat (s + Suc k) :: u64) = s + Suc k"
    using Suc.prems(5) by (intro unat_of_nat_u64; simp)+
  have i: "(of_nat s :: u64) \<noteq> BLOCK_SIZE" "(of_nat s :: u64) \<noteq> of_nat (s + Suc k)"
    using s u by (auto simp: word_unat_eq_iff BLOCK_SIZE_def)
  have "elements x ! s = Some v" using Suc.prems(4) [rule_format, of 0] ys by simp
  then have t: "take_element b (of_nat s) p = Some (v, put_block b ?x p)"
    using Suc.prems(1) slot_of_small [OF s] by (simp add: take_element_def)
  have "x_destroy_elements tailb lastValidIndex b (of_nat (Suc s)) (put_block b ?x p) =
    Some (zs, put_block b (?x\<lparr>elements := clear (Suc s) k (elements ?x)\<rparr>) (put_block b ?x p))"
  proof (rule Suc.IH)
    show "\<forall>j < k. elements ?x ! (Suc s + j) = Some (zs ! j)"
    proof (intro allI impI)
      fix j assume "j < k"
      then show "elements ?x ! (Suc s + j) = Some (zs ! j)"
        using Suc.prems(4) [rule_format, of "Suc j"] ys by simp
    qed
  qed (use Suc.prems ys in \<open>auto simp: put_block_def split: if_splits\<close>)
  moreover have "of_nat s + 1 = (of_nat (Suc s) :: u64)" by simp
  moreover have "b \<noteq> tailb \<or> of_nat s \<noteq> lastValidIndex" using Suc.prems(6) i(2) by (auto split: if_splits)
  ultimately show ?case using t i(1) ys
    by (subst x_destroy_elements.simps) (simp add: put_block_again add.commute)
qed

text \<open>The blocks from block \<open>j\<close> on hold their elements; the flags and the links of the ring are as they were.\<close>

definition x_rest :: "(nat \<rightharpoonup> 'a block) \<Rightarrow> nat list \<Rightarrow> nat \<Rightarrow> nat \<Rightarrow> 'a list \<Rightarrow> bool" where
  "x_rest hp bl h j xs \<longleftrightarrow>
     x_ring hp bl (\<lambda>i s. 32 * i + s < h) \<and> (\<forall>i < length xs. 32 * j \<le> h + i \<longrightarrow> element_at hp bl (h + i) (xs ! i))"

lemma x_rest_later: "x_rest hp bl h j xs \<Longrightarrow> x_rest hp bl h (Suc j) xs"
  by (auto simp: x_rest_def)

lemma x_rest_empty:
  assumes "x_rest (heap p) bl h j xs" "j < length bl"
  shows "x_is_empty (bl ! j) p = Some (32 * j + 32 \<le> h)"
proof -
  from assms obtain x where x: "heap p (bl ! j) = Some x" "length (emptyFlags x) = 32"
    "\<forall>s < 32. emptyFlags x ! (31 - s) \<longleftrightarrow> 32 * j + s < h" by (auto simp: x_rest_def elim: x_ring_next)
  have "(\<forall>s < 32. emptyFlags x ! (31 - s)) \<longleftrightarrow> 32 * j + 32 \<le> h"
  proof
    assume "\<forall>s < 32. emptyFlags x ! (31 - s)"
    with x(3) have "32 * j + 31 < h" by simp
    then show "32 * j + 32 \<le> h" by simp
  qed (use x(3) in auto)
  with x show ?thesis by (simp add: x_is_empty_def all_flags)
qed

lemma x_rest_clear:
  assumes r: "x_rest (heap p) bl h j xs" and j: "j < length bl" "distinct bl" and len: "h + length xs \<le> 32 * length bl"
    and x: "heap p (bl ! j) = Some x"
  shows "x_rest (heap (put_block (bl ! j) (x\<lparr>elements := es\<rparr>) p)) bl h (Suc j) xs"
proof -
  let ?hp = "heap (put_block (bl ! j) (x\<lparr>elements := es\<rparr>) p)"
  have ring: "x_ring ?hp bl (\<lambda>i s. 32 * i + s < h)"
    unfolding x_ring_def
  proof (intro allI impI)
    fix i assume "i < length bl"
    with r obtain y where "heap p (bl ! i) = Some y" "next_block y = Some (bl ! (Suc i mod length bl))"
      "length (emptyFlags y) = 32" "\<forall>s < 32. emptyFlags y ! (31 - s) \<longleftrightarrow> 32 * i + s < h"
      by (auto simp: x_rest_def elim: x_ring_next)
    then show "\<exists>y. ?hp (bl ! i) = Some y \<and> next_block y = Some (bl ! (Suc i mod length bl)) \<and>
        length (emptyFlags y) = 32 \<and> (\<forall>s < 32. emptyFlags y ! (31 - s) \<longleftrightarrow> 32 * i + s < h)"
      using x by (cases "bl ! i = bl ! j") (auto simp: put_block_def)
  qed
  have "element_at ?hp bl (h + i) (xs ! i)" if i: "i < length xs" "32 * Suc j \<le> h + i" for i
  proof -
    have b: "(h + i) div 32 < length bl" using i len by (intro less_mult_imp_div_less) simp
    have "Suc j \<le> (h + i) div 32" using i(2) by (simp add: less_eq_div_iff_mult_less_eq)
    then have "bl ! ((h + i) div 32) \<noteq> bl ! j" using b j by (simp add: nth_eq_iff_index_eq)
    then have "element_at ?hp bl (h + i) (xs ! i) = element_at (heap p) bl (h + i) (xs ! i)"
      by (intro element_at_cong) (simp add: put_block_def)
    with r i show ?thesis by (simp add: x_rest_def)
  qed
  with ring show ?thesis by (simp add: x_rest_def)
qed

text \<open>The elements of block \<open>j\<close>: from the head, when it is in the block, up to the end of the block or the tail.\<close>

lemma x_destroy_block_ok:
  assumes core: "x_core hp pr bl h e xs" and fill: "32 * length bl < h + length xs + 32"
    and r: "x_rest (heap p) bl h j xs" and j: "j < length bl" and busy: "h < 32 * j + 32"
    and inv: "pool_inv p used" and sub: "set bl \<subseteq> used"
    and start: "i = (if Some (bl ! j) = (if h mod 32 = 0 then None else Some (bl ! (h div 32))) then x_headIndex pr AND (BLOCK_SIZE - 1) else 0)"
    and last: "lastValidIndex = (if x_tailIndex pr AND (BLOCK_SIZE - 1) = 0 then BLOCK_SIZE else x_tailIndex pr AND (BLOCK_SIZE - 1))"
  defines "ys \<equiv> take (32 * Suc j - max h (32 * j)) (drop (32 * j - h) xs)"
  shows "\<exists>p'. x_destroy_elements (List.last bl) lastValidIndex (bl ! j) i p = Some (ys, p') \<and> pool_inv p' used \<and>
    x_rest (heap p') bl h (Suc j) xs \<and> (\<forall>a. a \<notin> set bl \<longrightarrow> heap p' a = heap p a)"
proof -
  let ?n = "length bl" and ?t = "h + length xs"
  have dist: "distinct bl" and len: "?t \<le> 32 * ?n" using core by (simp_all add: x_core_def)
  have ne: "bl \<noteq> []" using j by auto
  have bu: "bl ! j \<in> used" "bl ! j \<in> set bl" using sub j by auto
  from pool_read [OF inv bu(1)] obtain x where x: "heap p (bl ! j) = Some x" "freeListRefs x = 0" "length (elements x) = 32" .
  define s where "s = max h (32 * j) - 32 * j"
  define k where "k = length ys"
  have s: "s < 32" "32 * j + s = max h (32 * j)" using busy by (simp_all add: s_def)
  have tail: "bl ! j = List.last bl \<longleftrightarrow> Suc j = ?n"
    using j ne dist by (auto simp: last_conv_nth nth_eq_iff_index_eq)
  have size: "32 * Suc j - max h (32 * j) = 32 - s" unfolding s(2) [symmetric] by simp
  have lens: "k = min (32 - s) (length xs - (32 * j - h))" unfolding k_def ys_def size by (simp add: min.commute)
  have t1: "max h (32 * j) \<le> ?t"
  proof -
    have "32 * j + 32 \<le> 32 * ?n" using j by simp
    then have "32 * j \<le> ?t" using fill by linarith
    then show ?thesis by simp
  qed
  have rest: "length xs - (32 * j - h) = ?t - max h (32 * j)" using t1 by (simp add: max_def add.commute)
  have stop: "if Suc j = ?n then 32 * j + s + k = ?t else s + k = 32"
  proof (cases "Suc j = ?n")
    case True
    then have "?t \<le> 32 * j + 32" using len by (metis mult_Suc_right add.commute)
    then have "?t - max h (32 * j) \<le> 32 - s" using s by linarith
    then have "k = ?t - max h (32 * j)" using lens rest by simp
    then show ?thesis using True s t1 by simp
  next
    case False
    then have "32 * (j + 2) \<le> 32 * ?n" using j by (intro mult_le_mono2) simp
    then have "32 * j + 32 \<le> ?t" using fill by simp
    then have "32 - s \<le> ?t - max h (32 * j)" using s by linarith
    then show ?thesis using lens rest False s(1) by simp
  qed
  have i: "i = of_nat s"
  proof (cases "h mod 32 \<noteq> 0 \<and> j = h div 32")
    case True
    have "32 * j + h mod 32 = h" using True by simp
    moreover from this have "32 * j + s = h" using s(2) by simp
    ultimately have "s = h mod 32" by linarith
    moreover have "x_headIndex pr AND (BLOCK_SIZE - 1) = of_nat (slot_of (x_headIndex pr))"
      by (simp add: slot_of_def BLOCK_SIZE_def)
    ultimately show ?thesis using True start x_tail_position(2) [OF core] by simp
  next
    case False
    have "h \<le> 32 * j"
    proof (rule ccontr)
      assume "\<not> h \<le> 32 * j"
      then have "h div 32 = j" "h mod 32 \<noteq> 0" using busy by (auto intro: div_nat_eqI simp: mod_eq_0_iff_dvd elim!: dvdE)
      with False show False by simp
    qed
    then have "s = 0" by (simp add: s_def max_def)
    moreover have "Some (bl ! j) \<noteq> (if h mod 32 = 0 then None else Some (bl ! (h div 32)))"
    proof (cases "h mod 32 = 0")
      case f: False
      then have "h div 32 \<noteq> j" using False by simp
      moreover have "h div 32 < ?n" using \<open>h \<le> 32 * j\<close> j by (intro less_mult_imp_div_less) simp
      ultimately show ?thesis using dist j f by (simp add: nth_eq_iff_index_eq)
    qed simp
    ultimately show ?thesis using start by simp
  qed
  have el: "elements x ! (s + m) = Some (ys ! m)" if "m < k" for m
  proof -
    have m: "m < 32 - s" "32 * j - h + m < length xs" using that lens by auto
    have pos: "h + (32 * j - h + m) = 32 * j + (s + m)" using s by (simp add: max_def split: if_splits)
    have "element_at (heap p) bl (h + (32 * j - h + m)) (xs ! (32 * j - h + m))" using r m(2) by (simp add: x_rest_def)
    moreover have "(32 * j + (s + m)) div 32 = j" "(32 * j + (s + m)) mod 32 = s + m" using m(1) by simp_all
    ultimately have "elements x ! (s + m) = Some (xs ! (32 * j - h + m))" unfolding pos using x(1) by (simp add: element_at_def)
    moreover have "ys ! m = drop (32 * j - h) xs ! m" unfolding ys_def size using m(1) by simp
    moreover have "drop (32 * j - h) xs ! m = xs ! (32 * j - h + m)" using m(2) by (intro nth_drop) simp
    ultimately show ?thesis by simp
  qed
  have "if bl ! j = List.last bl then lastValidIndex = of_nat (s + k) else s + k = 32"
  proof (cases "Suc j = ?n")
    case True
    have sk: "32 * j + (s + k) = ?t" "s + k \<le> 32" "0 < s + k" using stop True len fill by auto
    have "lastValidIndex = of_nat (s + k)"
    proof (cases "s + k = 32")
      case True
      then have "?t mod 32 = 0" using sk(1) by (metis mod_mult_self1_is_0 mult_Suc_right add.commute)
      then have "x_tailIndex pr AND (BLOCK_SIZE - 1) = 0" using x_tail_position(1) [OF core] by (simp add: BLOCK_SIZE_def slot_of_0_iff)
      then show ?thesis unfolding True last by (simp add: BLOCK_SIZE_def)
    next
      case False
      then have "(32 * j + (s + k)) mod 32 = s + k" using sk(2) by simp
      then have m: "?t mod 32 = s + k" unfolding sk(1) .
      then have "slot_of (x_tailIndex pr) = s + k" using x_tail_position(1) [OF core] by simp
      moreover have "x_tailIndex pr AND (BLOCK_SIZE - 1) = of_nat (slot_of (x_tailIndex pr))"
        by (simp add: slot_of_def BLOCK_SIZE_def)
      moreover have "x_tailIndex pr AND (BLOCK_SIZE - 1) \<noteq> 0"
        using calculation(1) sk(3) by (simp add: BLOCK_SIZE_def slot_of_0_iff)
      ultimately show ?thesis unfolding last by simp
    qed
    then show ?thesis using tail True by simp
  next
    case False
    then show ?thesis using tail stop by simp
  qed
  moreover have "s + k \<le> 32" using lens s(1) by simp
  ultimately have "x_destroy_elements (List.last bl) lastValidIndex (bl ! j) i p =
      Some (ys, put_block (bl ! j) (x\<lparr>elements := clear s k (elements x)\<rparr>) p)"
    unfolding i using x el by (intro x_destroy_elements_ok) (simp_all add: k_def)
  moreover have "pool_inv (put_block (bl ! j) (x\<lparr>elements := clear s k (elements x)\<rparr>) p) used"
    by (rule pool_write [OF inv bu(1) x(1)]) (use x in \<open>simp_all add: nth_clear\<close>)
  moreover note x_rest_clear [OF r j dist len x(1), of "clear s k (elements x)"]
  moreover have "heap (put_block (bl ! j) (x\<lparr>elements := clear s k (elements x)\<rparr>) p) a = heap p a" if "a \<notin> set bl" for a
    using that bu(2) by (auto simp: put_block_def)
  ultimately show ?thesis by blast
qed

lemma drop_split: "drop m xs = take k (drop m xs) @ drop (m + k) xs"
  by (metis append_take_drop_id drop_drop add.commute)

lemma x_destroy_blocks_ok:
  assumes core: "x_core hp pr bl h e xs" and fill: "32 * length bl < h + length xs + 32" and sub: "set bl \<subseteq> used"
  defines "half \<equiv> if h mod 32 = 0 then None else Some (bl ! (h div 32))"
  shows "j < length bl \<Longrightarrow> get_next b p = Some (bl ! j) \<Longrightarrow> pool_inv p used \<Longrightarrow> x_rest (heap p) bl h j xs \<Longrightarrow>
    \<exists>p'. x_destroy_blocks pr half (last bl) b p = Some (drop (32 * j - h) xs, p') \<and> pool_inv p' used \<and>
      x_rest (heap p') bl h (length bl) xs \<and> (\<forall>a. a \<notin> set bl \<longrightarrow> heap p' a = heap p a)"
proof (induction "length bl - j" arbitrary: j b p)
  case (Suc c)
  let ?n = "length bl"
  define ys where "ys = take (32 * Suc j - max h (32 * j)) (drop (32 * j - h) xs)"
  let ?els = "if 32 * j + 32 \<le> h then Some ([], p) else
    let i = (if Some (bl ! j) = half then x_headIndex pr AND (BLOCK_SIZE - 1) else 0);
        lastValidIndex = (if x_tailIndex pr AND (BLOCK_SIZE - 1) = 0 then BLOCK_SIZE
                          else x_tailIndex pr AND (BLOCK_SIZE - 1)) in
    x_destroy_elements (last bl) lastValidIndex (bl ! j) i p"
  note j = Suc.prems(1) and inv = Suc.prems(3) and r = Suc.prems(4)
  have dist: "distinct bl" and len: "h + length xs \<le> 32 * ?n" using core by (simp_all add: x_core_def)
  have tail: "bl ! j = last bl \<longleftrightarrow> Suc j = ?n"
    using j dist by (cases "bl = []") (auto simp: last_conv_nth nth_eq_iff_index_eq)
  have parts: "drop (32 * j - h) xs = ys @ drop (32 * Suc j - h) xs"
  proof (cases "32 * Suc j \<le> h")
    case True
    then show ?thesis by (simp add: ys_def)
  next
    case False
    then have "32 * j - h + (32 * Suc j - max h (32 * j)) = 32 * Suc j - h" by (simp add: max_def add.commute)
    then show ?thesis using drop_split [of "32 * j - h" xs "32 * Suc j - max h (32 * j)"] by (simp add: ys_def)
  qed
  obtain p1 where p1: "?els = Some (ys, p1)" "pool_inv p1 used" "x_rest (heap p1) bl h (Suc j) xs"
    "\<forall>a. a \<notin> set bl \<longrightarrow> heap p1 a = heap p a"
  proof (cases "32 * j + 32 \<le> h")
    case True
    then show ?thesis using that [of p] inv x_rest_later [OF r] by (simp add: ys_def)
  next
    case False
    then have busy: "h < 32 * j + 32" by simp
    from x_destroy_block_ok [OF core fill r j busy inv sub refl refl] obtain p1 where
      "x_destroy_elements (last bl) (if x_tailIndex pr AND (BLOCK_SIZE - 1) = 0 then BLOCK_SIZE else x_tailIndex pr AND (BLOCK_SIZE - 1))
        (bl ! j) (if Some (bl ! j) = half then x_headIndex pr AND (BLOCK_SIZE - 1) else 0) p = Some (ys, p1)"
      "pool_inv p1 used" "x_rest (heap p1) bl h (Suc j) xs" "\<forall>a. a \<notin> set bl \<longrightarrow> heap p1 a = heap p a"
      unfolding half_def ys_def by blast
    then show ?thesis using that [of p1] False by (simp add: Let_def)
  qed
  have run: "x_destroy_blocks pr half (last bl) b p = (if Suc j = ?n then Some (ys, p1) else do {
       (rest, p) \<leftarrow> x_destroy_blocks pr half (last bl) (bl ! j) p1;
       Some (ys @ rest, p) })"
    using p1(1) by (subst x_destroy_blocks.simps) (simp add: Suc.prems(2) x_rest_empty [OF r j] tail)
  show ?case
  proof (cases "Suc j = ?n")
    case True
    then have "length xs \<le> 32 * Suc j - h" using len by simp
    then have "drop (32 * j - h) xs = ys" using parts by simp
    then show ?thesis using run p1(2,3,4) True by auto
  next
    case False
    then have next_j: "Suc j < ?n" using j by simp
    have "x_ring (heap p1) bl (\<lambda>i s. 32 * i + s < h)" using p1(3) by (simp add: x_rest_def)
    from x_ring_get_next [OF this j] have link: "get_next (bl ! j) p1 = Some (bl ! Suc j)" using next_j by simp
    have "c = ?n - Suc j" using Suc(2) by simp
    from Suc(1) [OF this next_j link p1(2,3)] obtain p' where
      "x_destroy_blocks pr half (last bl) (bl ! j) p1 = Some (drop (32 * Suc j - h) xs, p')" "pool_inv p' used"
      "x_rest (heap p') bl h ?n xs" "\<forall>a. a \<notin> set bl \<longrightarrow> heap p' a = heap p1 a" by blast
    then show ?thesis using run False parts p1(4) by simp
  qed
qed simp

lemma destroy_explicit_ok:
  assumes q: "explicit_queue others pr p bl h e xs"
  shows "\<exists>p'. destroy_explicit pr p = Some (xs, x_blockIndex pr, p') \<and> pool_inv p' others \<and> (\<forall>a \<in> others. heap p' a = heap p a)"
proof -
  have core: "x_core (heap p) pr bl h e xs" and fill: "32 * length bl < h + length xs + 32"
    and dis: "set bl \<inter> others = {}" and inv: "pool_inv p (others \<union> set bl)"
    using q by (simp_all add: explicit_queue_def x_ok_def)
  have len: "h + length xs \<le> 32 * length bl" and dist: "distinct bl"
    and tb: "x_tailBlock pr = (if bl = [] then None else Some (last bl))" and blocks: "x_blocks_ok (heap p) bl h xs"
    using core by (simp_all add: x_core_def)
  show ?thesis
  proof (cases "bl = []")
    case True
    then show ?thesis using len tb inv by (simp add: destroy_explicit_def)
  next
    case False
    let ?half = "if h mod 32 = 0 then None else Some (bl ! (h div 32))"
    have half: "half_dequeued_block pr = Some ?half" using len by (intro half_dequeued_block_ok [OF core]) simp
    have ring: "x_ring (heap p) bl (\<lambda>i s. 32 * i + s < h)" using blocks by (simp add: x_blocks_ok_ring)
    have rest: "x_rest (heap p) bl h 0 xs" using blocks by (simp add: x_rest_def x_blocks_ok_ring)
    have "get_next (bl ! (length bl - 1)) p = Some (bl ! (Suc (length bl - 1) mod length bl))"
      using False by (intro x_ring_get_next [OF ring]) simp
    then have "get_next (last bl) p = Some (bl ! 0)" using False by (simp add: last_conv_nth)
    moreover have "0 < length bl" "set bl \<subseteq> others \<union> set bl" using False by simp_all
    ultimately obtain p1 where p1: "x_destroy_blocks pr ?half (last bl) (last bl) p = Some (xs, p1)"
      "pool_inv p1 (others \<union> set bl)" "x_rest (heap p1) bl h (length bl) xs" "\<forall>a. a \<notin> set bl \<longrightarrow> heap p1 a = heap p a"
      using x_destroy_blocks_ok [OF core fill, of "others \<union> set bl" 0 "last bl" p] inv rest by auto
    have "x_ring (heap p1) bl (\<lambda>i s. 32 * i + s < h)" using p1(3) by (simp add: x_rest_def)
    from x_give_back_ring [OF this False dist dis p1(2)] obtain p' where
      p': "x_give_back (last bl) (last bl) p1 = Some p'" "pool_inv p' others" "\<forall>a \<in> others. heap p' a = heap p1 a" by blast
    moreover have "\<forall>a \<in> others. heap p' a = heap p a" using p'(3) p1(4) dis by (metis disjoint_iff)
    ultimately show ?thesis using half p1(1) tb False by (simp add: destroy_explicit_def)
  qed
qed

end
