(* ===== verification/Cq_Sub_Lifetime.thy ===== *)
theory Cq_Sub_Lifetime
  imports Cq_Two_Producers Cq_Explicit_Lifetime Cq_Lifetime
begin

text \<open>
  The whole life of a sub-queue, for both kinds of producers: what went in is what came out and what the
  destructor destroys, in this order. The destructor belongs to the contract that the two kinds share.
\<close>

section \<open>The contract with a destructor\<close>

locale disposable_sub_queue = sub_queue repr put get put_many get_many reliable
  for repr :: "'s \<Rightarrow> 'm list \<Rightarrow> bool" and put :: "'m \<Rightarrow> 's \<Rightarrow> (bool \<times> 's) option"
    and get :: "'s \<Rightarrow> ('m option \<times> 's) option" and put_many :: "'m list \<Rightarrow> 's \<Rightarrow> (bool \<times> 's) option"
    and get_many :: "u64 \<Rightarrow> 's \<Rightarrow> ('m list \<times> 's) option" and reliable :: bool +
  fixes destroy :: "'s \<Rightarrow> ('m list \<times> 'r) option" and clean :: "'r \<Rightarrow> bool"
  assumes destroy_law: "repr s xs \<Longrightarrow> \<exists>r. destroy s = Some (xs, r) \<and> clean r"
begin

lemma run_then_destroy:
  assumes "repr s xs" "length xs + offered ops + 32 < 2 ^ 63" "reliable \<or> (\<forall>vs. Put_many vs \<notin> set ops)"
  shows "\<exists>es s' els r. run_sub put get put_many get_many ops s = Some (es, s') \<and> destroy s' = Some (els, r) \<and>
    xs @ accepted ops es = received es @ els \<and> clean r"
proof -
  from run_like_list [OF assms] obtain es s' where r: "run_sub put get put_many get_many ops s = Some (es, s')"
    "list_allows xs ops es" "repr s' (left_over xs ops es)" by blast
  with destroy_law [OF r(3)] list_allows_left_over [OF r(2)] show ?thesis by fastforce
qed

end

text \<open>What the destructors leave: the blocks of the others are in use and all other blocks are free.\<close>

definition only_blocks_of :: "nat set \<Rightarrow> 'r \<times> 'a pool \<Rightarrow> bool" where
  "only_blocks_of others r \<longleftrightarrow> pool_inv (snd r) others"

lemma explicit_destroy:
  assumes "explicit_holds reliable others s xs"
  shows "\<exists>r. (case s of (pr, p) \<Rightarrow> destroy_explicit pr p) = Some (xs, r) \<and> only_blocks_of others r"
proof -
  obtain pr p where [simp]: "s = (pr, p)" by fastforce
  from assms obtain bl h e where "explicit_queue others pr p bl h e xs" by (auto simp: explicit_holds_def)
  from destroy_explicit_ok [OF this] show ?thesis by (auto simp: only_blocks_of_def)
qed

lemma implicit_destroy:
  assumes "implicit_holds reliable others s xs"
  shows "\<exists>r. (case s of (pr, p) \<Rightarrow> destroy_producer pr p) = Some (xs, r) \<and> only_blocks_of others r"
proof -
  obtain pr p where [simp]: "s = (pr, p)" by fastforce
  from assms obtain bl where "subqueue others pr p bl xs" by (auto simp: implicit_holds_def)
  from destroy_producer_ok [OF this] show ?thesis by (auto simp: only_blocks_of_def)
qed

interpretation xqd: disposable_sub_queue "explicit_holds (mok = (\<lambda>_. True)) others" "\<lambda>v (pr, p). x_enqueue mok v pr p"
  "\<lambda>(pr, p). x_dequeue pr p" "\<lambda>vs (pr, p). x_enqueue_bulk mok vs pr p" "\<lambda>n (pr, p). x_dequeue_bulk n pr p"
  "mok = (\<lambda>_. True)" "\<lambda>(pr, p). destroy_explicit pr p" "only_blocks_of others" for mok others
  by unfold_locales (rule explicit_destroy)

interpretation iqd: disposable_sub_queue "implicit_holds (mok = (\<lambda>_. True)) others" "\<lambda>v (pr, p). producer_enqueue mok v pr p"
  "\<lambda>(pr, p). producer_dequeue pr p" "\<lambda>vs (pr, p). producer_enqueue_bulk mok vs pr p"
  "\<lambda>n (pr, p). producer_dequeue_bulk n pr p" "mok = (\<lambda>_. True)" "\<lambda>(pr, p). destroy_producer pr p" "only_blocks_of others"
  for mok others
  by unfold_locales (rule implicit_destroy)

section \<open>Properties\<close>

text \<open>
  C23. Nothing is lost when a producer ends: from a new producer of either kind, after any sequence of operations and
  whatever allocations fail, the elements that were accepted are, in order, those that were received
  followed by those that the destructor destroys; the destructor returns, no block is given back twice or missed, and
  the blocks in use are those of the other producers. (Bulk enqueues are part of this while no allocation fails.)
\<close>

theorem producers_leave_nothing:
  fixes ops :: "'m sub_op list"
  assumes "pool_inv p others" "offered ops + 32 < 2 ^ 63" "mok = (\<lambda>_. True) \<or> (\<forall>vs. Put_many vs \<notin> set ops)"
  shows "(\<exists>s es pr' p' els r. new_explicit_producer mok p = Some s \<and> explicit_run mok ops s = Some (es, pr', p') \<and>
      destroy_explicit pr' p' = Some (els, r) \<and> accepted ops es = received es @ els \<and> pool_inv (snd r) others) \<and>
    (\<exists>es pr' p' els r. implicit_run mok ops (new_producer mok p) = Some (es, pr', p') \<and>
      destroy_producer pr' p' = Some (els, r) \<and> accepted ops es = received es @ els \<and> pool_inv (snd r) others)"
proof (rule conjI)
  have len: "length ([] :: 'm list) + offered ops + 32 < 2 ^ 63" using assms(2) by simp
  from new_explicit_producer_ok [OF assms(1), of mok] obtain pr p1 where new: "new_explicit_producer mok p = Some (pr, p1)"
    "explicit_queue others pr p1 [] 0 0 []" "mok (mallocs p) \<longrightarrow> x_blockIndex pr \<noteq> []" by blast
  then have "explicit_holds (mok = (\<lambda>_. True)) others (pr, p1) []" by (auto simp: explicit_holds_def)
  from xqd.run_then_destroy [folded explicit_run_def, OF this len assms(3)] new(1)
  show "\<exists>s es pr' p' els r. new_explicit_producer mok p = Some s \<and> explicit_run mok ops s = Some (es, pr', p') \<and>
      destroy_explicit pr' p' = Some (els, r) \<and> accepted ops es = received es @ els \<and> pool_inv (snd r) others"
    by (fastforce simp: only_blocks_of_def)
  have "implicit_holds (mok = (\<lambda>_. True)) others (new_producer mok p) []" by (rule new_producer_holds [OF assms(1)])
  from iqd.run_then_destroy [folded implicit_run_def, OF this len assms(3)]
  show "\<exists>es pr' p' els r. implicit_run mok ops (new_producer mok p) = Some (es, pr', p') \<and>
      destroy_producer pr' p' = Some (els, r) \<and> accepted ops es = received es @ els \<and> pool_inv (snd r) others"
    by (fastforce simp: only_blocks_of_def)
qed

theorem producers_leave_nothing_witness:
  "\<exists>s es pr' p' els r. new_explicit_producer (\<lambda>n. n < 2) (empty_pool :: nat pool) = Some s \<and>
    explicit_run (\<lambda>n. n < 2) [Put 1, Put 2, Take] s = Some (es, pr', p') \<and> destroy_explicit pr' p' = Some (els, r) \<and>
    accepted [Put 1, Put 2, Take] es = received es @ els \<and> pool_inv (snd r) {}"
  using producers_leave_nothing [OF empty_pool_inv, where ops = "[Put (1 :: nat), Put 2, Take]" and mok = "\<lambda>n. n < 2"] by auto

end
