(* ===== verification/Cq_Token.thy ===== *)
theory Cq_Token
  imports Cq_Explicit_Bulk_Enqueue
begin

text \<open>
  \<open>include/concurrentqueue.h\<close>: tokens. A producer token owns an explicit producer, a consumer token remembers the
  producer it takes from and moves on to another when it has taken its quota, when others have, or when there is nothing left.
  The list of producers mixes both kinds; producers are numbered in the order of creation. The
  implicit producer of a thread is found as in \<open>Cq_Queue\<close>, so an operation without a producer token names it by its number.
\<close>

section \<open>State\<close>

text \<open>A producer of either kind; for an explicit one whether its token is gone (\<open>inactive\<close>).\<close>

datatype producer_base = Implicit producer | Explicit bool explicit_producer

record 'a token_queue =
  t_producers :: "producer_base list"
  t_producerCount :: u32
  t_blocks :: "'a pool"
  nextExplicitConsumerId :: u32
  globalExplicitConsumerOffset :: u32

record consumer_token =
  initialOffset :: u32
  lastKnownGlobalOffset :: u32
  itemsConsumedFromCurrent :: u32
  currentProducer :: "nat option"
  desiredProducer :: "nat option"

definition EXPLICIT_CONSUMER_CONSUMPTION_QUOTA_BEFORE_ROTATE :: u32 where
  "EXPLICIT_CONSUMER_CONSUMPTION_QUOTA_BEFORE_ROTATE = 256"

text \<open>The list of producers runs from the newest to the oldest.\<close>

definition producerListTail :: "'a token_queue \<Rightarrow> nat option" where
  "producerListTail q = (case t_producers q of [] \<Rightarrow> None | _ \<Rightarrow> Some (length (t_producers q) - 1))"

definition next_prod :: "nat \<Rightarrow> nat option" where
  "next_prod j = (case j of 0 \<Rightarrow> None | Suc i \<Rightarrow> Some i)"

definition next_or :: "nat \<Rightarrow> nat \<Rightarrow> nat" where
  "next_or tail j = (case next_prod j of None \<Rightarrow> tail | Some i \<Rightarrow> i)"

section \<open>Tokens\<close>

definition t_add_producer :: "producer_base \<Rightarrow> 'a token_queue \<Rightarrow> nat \<times> 'a token_queue" where
  "t_add_producer pb q =
     (length (t_producers q), q\<lparr>t_producers := t_producers q @ [pb], t_producerCount := t_producerCount q + 1\<rparr>)"

text \<open>\<open>recycle_or_create_producer(true)\<close>: the producer of a new producer token; none when it cannot be allocated.\<close>

definition new_producer_token :: "malloc_ok \<Rightarrow> 'a token_queue \<Rightarrow> (nat option \<times> 'a token_queue) option" where
  "new_producer_token mok q =
     (case find (\<lambda>j. case t_producers q ! j of Explicit gone _ \<Rightarrow> gone | Implicit _ \<Rightarrow> False)
        (rev [0..<length (t_producers q)]) of
        Some j \<Rightarrow> Some (Some j, q\<lparr>t_producers := (t_producers q)[j :=
            (case t_producers q ! j of Explicit _ pr \<Rightarrow> Explicit False pr | pb \<Rightarrow> pb)]\<rparr>)
      | None \<Rightarrow>
          let n = mallocs (t_blocks q);
              q = q\<lparr>t_blocks := (t_blocks q)\<lparr>mallocs := n + 1\<rparr>\<rparr> in
          if \<not> mok n then Some (None, q)
          else do {
            (pr, p) \<leftarrow> new_explicit_producer mok (t_blocks q);
            let (j, q) = t_add_producer (Explicit False pr) (q\<lparr>t_blocks := p\<rparr>);
            Some (Some j, q) })"

definition destroy_producer_token :: "nat option \<Rightarrow> 'a token_queue \<Rightarrow> 'a token_queue" where
  "destroy_producer_token token q =
     (case token of
        None \<Rightarrow> q
      | Some j \<Rightarrow> q\<lparr>t_producers := (t_producers q)[j :=
          (case t_producers q ! j of Explicit _ pr \<Rightarrow> Explicit True pr | Implicit pr \<Rightarrow> Implicit (pr\<lparr>inactive := True\<rparr>))]\<rparr>)"

definition new_consumer_token :: "'a token_queue \<Rightarrow> consumer_token \<times> 'a token_queue" where
  "new_consumer_token q =
     (\<lparr>initialOffset = nextExplicitConsumerId q, lastKnownGlobalOffset = - 1, itemsConsumedFromCurrent = 0,
       currentProducer = None, desiredProducer = None\<rparr>,
      q\<lparr>nextExplicitConsumerId := nextExplicitConsumerId q + 1\<rparr>)"

section \<open>One producer\<close>

definition set_producer :: "nat \<Rightarrow> producer_base \<Rightarrow> 'a pool \<Rightarrow> 'a token_queue \<Rightarrow> 'a token_queue" where
  "set_producer j pb p q = q\<lparr>t_producers := (t_producers q)[j := pb], t_blocks := p\<rparr>"

definition t_enqueue :: "malloc_ok \<Rightarrow> nat \<Rightarrow> 'a \<Rightarrow> 'a token_queue \<Rightarrow> (bool \<times> 'a token_queue) option" where
  "t_enqueue mok j v q =
     (case t_producers q ! j of
        Implicit pr \<Rightarrow> do {
          (ok, pr, p) \<leftarrow> producer_enqueue mok v pr (t_blocks q);
          Some (ok, set_producer j (Implicit pr) p q) }
      | Explicit i pr \<Rightarrow> do {
          (ok, pr, p) \<leftarrow> x_enqueue mok v pr (t_blocks q);
          Some (ok, set_producer j (Explicit i pr) p q) })"

text \<open>With a producer token, which must be valid.\<close>

definition token_enqueue :: "malloc_ok \<Rightarrow> nat option \<Rightarrow> 'a \<Rightarrow> 'a token_queue \<Rightarrow> (bool \<times> 'a token_queue) option" where
  "token_enqueue mok token v q = do {
     j \<leftarrow> token;
     case t_producers q ! j of Implicit _ \<Rightarrow> None | Explicit _ _ \<Rightarrow> t_enqueue mok j v q }"

definition token_enqueue_bulk ::
  "malloc_ok \<Rightarrow> nat option \<Rightarrow> 'a list \<Rightarrow> 'a token_queue \<Rightarrow> (bool \<times> 'a token_queue) option" where
  "token_enqueue_bulk mok token vs q = do {
     j \<leftarrow> token;
     case t_producers q ! j of
       Implicit _ \<Rightarrow> None
     | Explicit i pr \<Rightarrow> do {
         (ok, pr, p) \<leftarrow> x_enqueue_bulk mok vs pr (t_blocks q);
         Some (ok, set_producer j (Explicit i pr) p q) } }"

definition t_dequeue :: "nat \<Rightarrow> 'a token_queue \<Rightarrow> ('a option \<times> 'a token_queue) option" where
  "t_dequeue j q =
     (case t_producers q ! j of
        Implicit pr \<Rightarrow> do {
          (r, pr, p) \<leftarrow> producer_dequeue pr (t_blocks q);
          Some (r, set_producer j (Implicit pr) p q) }
      | Explicit i pr \<Rightarrow> do {
          (r, pr, p) \<leftarrow> x_dequeue pr (t_blocks q);
          Some (r, set_producer j (Explicit i pr) p q) })"

definition t_dequeue_bulk :: "nat \<Rightarrow> u64 \<Rightarrow> 'a token_queue \<Rightarrow> ('a list \<times> 'a token_queue) option" where
  "t_dequeue_bulk j most q =
     (case t_producers q ! j of
        Implicit pr \<Rightarrow> do {
          (els, pr, p) \<leftarrow> producer_dequeue_bulk most pr (t_blocks q);
          Some (els, set_producer j (Implicit pr) p q) }
      | Explicit i pr \<Rightarrow> do {
          (els, pr, p) \<leftarrow> x_dequeue_bulk most pr (t_blocks q);
          Some (els, set_producer j (Explicit i pr) p q) })"

definition try_dequeue_from_producer :: "nat option \<Rightarrow> 'a token_queue \<Rightarrow> ('a option \<times> 'a token_queue) option" where
  "try_dequeue_from_producer token q = do {
     j \<leftarrow> token;
     case t_producers q ! j of Implicit _ \<Rightarrow> None | Explicit _ _ \<Rightarrow> t_dequeue j q }"

definition try_dequeue_bulk_from_producer :: "nat option \<Rightarrow> u64 \<Rightarrow> 'a token_queue \<Rightarrow> ('a list \<times> 'a token_queue) option" where
  "try_dequeue_bulk_from_producer token most q = do {
     j \<leftarrow> token;
     case t_producers q ! j of Implicit _ \<Rightarrow> None | Explicit _ _ \<Rightarrow> t_dequeue_bulk j most q }"

section \<open>Receiving with a consumer token\<close>

definition update_current_producer_after_rotation ::
  "'a token_queue \<Rightarrow> consumer_token \<Rightarrow> (bool \<times> consumer_token) option" where
  "update_current_producer_after_rotation q token =
     (case producerListTail q of
        None \<Rightarrow> if desiredProducer token = None then Some (False, token) else None
      | Some tail \<Rightarrow>
          let prodCount = t_producerCount q;
              globalOffset = globalExplicitConsumerOffset q in
          if prodCount = 0 then None
          else
            let desired = (case desiredProducer token of
                  Some j \<Rightarrow> j
                | None \<Rightarrow> (next_or tail ^^ unat (prodCount - 1 - initialOffset token mod prodCount)) tail);
                delta = globalOffset - lastKnownGlobalOffset token;
                delta = (if prodCount \<le> delta then delta mod prodCount else delta);
                desired = (next_or tail ^^ unat delta) desired in
            Some (True, token\<lparr>desiredProducer := Some desired, lastKnownGlobalOffset := globalOffset,
              currentProducer := Some desired, itemsConsumedFromCurrent := 0\<rparr>))"

definition must_rotate :: "'a token_queue \<Rightarrow> consumer_token \<Rightarrow> bool" where
  "must_rotate q token \<longleftrightarrow> desiredProducer token = None \<or> lastKnownGlobalOffset token \<noteq> globalExplicitConsumerOffset q"

definition rotate_if_needed :: "'a token_queue \<Rightarrow> consumer_token \<Rightarrow> (bool \<times> consumer_token) option" where
  "rotate_if_needed q token =
     (if must_rotate q token then update_current_producer_after_rotation q token else Some (True, token))"

partial_function (option) search_others ::
  "nat \<Rightarrow> nat \<Rightarrow> nat \<Rightarrow> 'a token_queue \<Rightarrow> (('a \<times> nat) option \<times> 'a token_queue) option" where
  "search_others tail current ptr q =
     (if ptr = current then Some (None, q)
      else do {
        (r, q) \<leftarrow> t_dequeue ptr q;
        case r of
          Some v \<Rightarrow> Some (Some (v, ptr), q)
        | None \<Rightarrow> search_others tail current (next_or tail ptr) q })"

definition token_try_dequeue ::
  "consumer_token \<Rightarrow> 'a token_queue \<Rightarrow> ('a option \<times> consumer_token \<times> 'a token_queue) option" where
  "token_try_dequeue token q = do {
     (ok, token) \<leftarrow> rotate_if_needed q token;
     if \<not> ok then Some (None, token, q)
     else do {
       current \<leftarrow> currentProducer token;
       (r, q) \<leftarrow> t_dequeue current q;
       case r of
         Some v \<Rightarrow>
           let token = token\<lparr>itemsConsumedFromCurrent := itemsConsumedFromCurrent token + 1\<rparr>;
               q = (if itemsConsumedFromCurrent token = EXPLICIT_CONSUMER_CONSUMPTION_QUOTA_BEFORE_ROTATE
                    then q\<lparr>globalExplicitConsumerOffset := globalExplicitConsumerOffset q + 1\<rparr> else q) in
           Some (Some v, token, q)
       | None \<Rightarrow> do {
           tail \<leftarrow> producerListTail q;
           (r, q) \<leftarrow> search_others tail current (next_or tail current) q;
           case r of
             Some (v, ptr) \<Rightarrow> Some (Some v, token\<lparr>currentProducer := Some ptr, itemsConsumedFromCurrent := 1\<rparr>, q)
           | None \<Rightarrow> Some (None, token, q) } } }"

text \<open>
  The loop runs until it is back at \<open>currentProducer\<close>, which moves along with every producer something is taken from.
\<close>

partial_function (option) search_others_bulk ::
  "nat \<Rightarrow> nat \<Rightarrow> u64 \<Rightarrow> consumer_token \<Rightarrow> 'a token_queue \<Rightarrow> ('a list \<times> consumer_token \<times> 'a token_queue) option" where
  "search_others_bulk tail ptr most token q =
     (if Some ptr = currentProducer token then Some ([], token, q)
      else do {
        (els, q) \<leftarrow> t_dequeue_bulk ptr most q;
        let token = (if els \<noteq> []
                     then token\<lparr>currentProducer := Some ptr, itemsConsumedFromCurrent := of_nat (length els)\<rparr> else token);
        if of_nat (length els) = most then Some (els, token, q)
        else do {
          (rest, token, q) \<leftarrow> search_others_bulk tail (next_or tail ptr) (most - of_nat (length els)) token q;
          Some (els @ rest, token, q) } })"

definition token_try_dequeue_bulk ::
  "consumer_token \<Rightarrow> u64 \<Rightarrow> 'a token_queue \<Rightarrow> ('a list \<times> consumer_token \<times> 'a token_queue) option" where
  "token_try_dequeue_bulk token most q = do {
     (ok, token) \<leftarrow> rotate_if_needed q token;
     if \<not> ok then Some ([], token, q)
     else do {
       current \<leftarrow> currentProducer token;
       (els, q) \<leftarrow> t_dequeue_bulk current most q;
       let token = token\<lparr>itemsConsumedFromCurrent := itemsConsumedFromCurrent token + of_nat (length els)\<rparr>;
       if of_nat (length els) = most then
         Some (els, token,
           if EXPLICIT_CONSUMER_CONSUMPTION_QUOTA_BEFORE_ROTATE \<le> itemsConsumedFromCurrent token
           then q\<lparr>globalExplicitConsumerOffset := globalExplicitConsumerOffset q + 1\<rparr> else q)
       else do {
         tail \<leftarrow> producerListTail q;
         (rest, token, q) \<leftarrow> search_others_bulk tail (next_or tail current) (most - of_nat (length els)) token q;
         Some (els @ rest, token, q) } } }"

text \<open>Without a token, in the order of the list.\<close>

fun dequeue_first :: "nat list \<Rightarrow> 'a token_queue \<Rightarrow> ('a option \<times> 'a token_queue) option" where
  "dequeue_first [] q = Some (None, q)"
| "dequeue_first (j # js) q = do {
     (r, q) \<leftarrow> t_dequeue j q;
     if r \<noteq> None then Some (r, q) else dequeue_first js q }"

definition try_dequeue_non_interleaved :: "'a token_queue \<Rightarrow> ('a option \<times> 'a token_queue) option" where
  "try_dequeue_non_interleaved q = dequeue_first (rev [0..<length (t_producers q)]) q"

end
