(* ===== verification/Cq_Token_Ok.thy ===== *)
theory Cq_Token_Ok
  imports Cq_Token
begin

text \<open>
  \<open>include/concurrentqueue.h\<close>: the invariant of a queue with producers of both kinds, what an operation on one
  producer does to it, where a rotation takes a consumer token, and \<open>try_dequeue\<close> with a consumer token.
\<close>

section \<open>The invariant\<close>

definition base_ok :: "(nat \<rightharpoonup> 'a block) \<Rightarrow> producer_base \<Rightarrow> nat list \<Rightarrow> 'a list \<Rightarrow> bool" where
  "base_ok hp pb bl xs \<longleftrightarrow>
     (case pb of Implicit pr \<Rightarrow> queue_ok hp pr bl xs | Explicit _ pr \<Rightarrow> \<exists>h e. x_ok hp pr bl h e xs)"

definition owned :: "nat set \<Rightarrow> producer_base \<Rightarrow> 'a pool \<Rightarrow> nat list \<Rightarrow> 'a list \<Rightarrow> bool" where
  "owned others pb p bl xs \<longleftrightarrow> base_ok (heap p) pb bl xs \<and> set bl \<inter> others = {} \<and> pool_inv p (others \<union> set bl)"

lemma owned_simps:
  "owned others (Implicit pr) p bl xs \<longleftrightarrow> subqueue others pr p bl xs"
  "owned others (Explicit i xpr) p bl xs \<longleftrightarrow> (\<exists>h e. explicit_queue others xpr p bl h e xs)"
  by (auto simp: owned_def base_ok_def subqueue_def explicit_queue_def)

lemma base_ok_cong:
  assumes "base_ok hp pb bl xs" "\<forall>b \<in> set bl. hp' b = hp b"
  shows "base_ok hp' pb bl xs"
  using assms by (cases pb) (auto simp: base_ok_def x_ok_def intro: queue_ok_cong x_core_cong)

text \<open>\<open>bls\<close> and \<open>cs\<close> are the blocks and the elements of each producer.\<close>

definition t_ok :: "nat list list \<Rightarrow> 'a list list \<Rightarrow> 'a token_queue \<Rightarrow> bool" where
  "t_ok bls cs q \<longleftrightarrow>
     length bls = length (t_producers q) \<and> length cs = length (t_producers q) \<and>
     (\<forall>j < length (t_producers q). base_ok (heap (t_blocks q)) (t_producers q ! j) (bls ! j) (cs ! j)) \<and>
     (\<forall>j < length bls. \<forall>l < length bls. j \<noteq> l \<longrightarrow> set (bls ! j) \<inter> set (bls ! l) = {}) \<and>
     pool_inv (t_blocks q) (\<Union> (set ` set bls)) \<and>
     unat (t_producerCount q) = length (t_producers q)"

text \<open>The queue holds the elements \<open>cs\<close>, producer by producer.\<close>

definition t_holds :: "'a token_queue \<Rightarrow> 'a list list \<Rightarrow> bool" where
  "t_holds q cs \<longleftrightarrow> (\<exists>bls. t_ok bls cs q)"

lemma t_ok_owned:
  assumes q: "t_ok bls cs q" and j: "j < length (t_producers q)"
  shows "owned (other_blocks bls j) (t_producers q ! j) (t_blocks q) (bls ! j) (cs ! j)"
proof -
  have len: "length bls = length (t_producers q)" using q by (simp add: t_ok_def)
  have "set (bls ! j) \<inter> other_blocks bls j = {}" using q j unfolding t_ok_def other_blocks_def by fastforce
  then show ?thesis using q j other_blocks_cover [of j bls] len by (simp add: owned_def t_ok_def)
qed

lemma t_ok_update:
  assumes q: "t_ok bls cs q" and j: "j < length (t_producers q)"
    and s: "owned (other_blocks bls j) pb p bl xs"
    and frame: "\<forall>a \<in> other_blocks bls j. heap p a = heap (t_blocks q) a"
  shows "t_ok (bls[j := bl]) (cs[j := xs]) (set_producer j pb p q)"
proof -
  let ?n = "length (t_producers q)"
  have len: "length bls = ?n" "length cs = ?n" using q by (simp_all add: t_ok_def)
  have others: "set (bls ! l) \<subseteq> other_blocks bls j" if "l < ?n" "l \<noteq> j" for l
    using that len by (auto simp: other_blocks_def)
  have each: "base_ok (heap p) ((t_producers q)[j := pb] ! l) (bls[j := bl] ! l) (cs[j := xs] ! l)" if l: "l < ?n" for l
  proof (cases "l = j")
    case True
    with s l len show ?thesis by (simp add: owned_def)
  next
    case False
    have "base_ok (heap (t_blocks q)) (t_producers q ! l) (bls ! l) (cs ! l)" using q l by (simp add: t_ok_def)
    then have "base_ok (heap p) (t_producers q ! l) (bls ! l) (cs ! l)"
      by (rule base_ok_cong) (use frame others [OF l False] in auto)
    with False show ?thesis by simp
  qed
  have dis: "set (bls[j := bl] ! a) \<inter> set (bls[j := bl] ! b) = {}" if "a < ?n" "b < ?n" "a \<noteq> b" for a b
  proof -
    have "set bl \<inter> other_blocks bls j = {}" using s by (simp add: owned_def)
    then have "l < ?n \<Longrightarrow> l \<noteq> j \<Longrightarrow> set bl \<inter> set (bls ! l) = {}" for l using others by blast
    moreover have "a \<noteq> j \<Longrightarrow> b \<noteq> j \<Longrightarrow> set (bls ! a) \<inter> set (bls ! b) = {}" using q that len unfolding t_ok_def by metis
    ultimately show ?thesis using that len by (cases "a = j"; cases "b = j") (auto simp: Int_commute)
  qed
  have "\<Union> (set ` set (bls[j := bl])) = other_blocks (bls[j := bl]) j \<union> set (bls[j := bl] ! j)"
    using j len other_blocks_cover [of j "bls[j := bl]"] by simp
  also have "\<dots> = other_blocks bls j \<union> set bl" using j len by (simp add: other_blocks_def)
  finally have "pool_inv p (\<Union> (set ` set (bls[j := bl])))" using s by (simp add: owned_def)
  moreover have "unat (t_producerCount q) = ?n" using q by (simp add: t_ok_def)
  ultimately show ?thesis using each dis len by (simp add: t_ok_def set_producer_def)
qed

text \<open>What an operation on a producer does not touch.\<close>

definition same_list :: "'a token_queue \<Rightarrow> 'a token_queue \<Rightarrow> bool" where
  "same_list q q' \<longleftrightarrow> length (t_producers q') = length (t_producers q) \<and> t_producerCount q' = t_producerCount q \<and>
     nextExplicitConsumerId q' = nextExplicitConsumerId q \<and> globalExplicitConsumerOffset q' = globalExplicitConsumerOffset q"

lemma same_list_set [simp]: "same_list q (set_producer j pb p q)"
  by (simp add: same_list_def set_producer_def)

lemma same_list_refl [simp]: "same_list q q"
  by (simp add: same_list_def)

lemma same_list_trans: "same_list q r \<Longrightarrow> same_list r s \<Longrightarrow> same_list q s"
  by (simp add: same_list_def)

lemma producerListTail_eq: "producerListTail q = (if t_producers q = [] then None else Some (length (t_producers q) - 1))"
  by (simp add: producerListTail_def split: list.split)

lemma same_list_tail: "same_list q q' \<Longrightarrow> producerListTail q' = producerListTail q"
  by (auto simp: same_list_def producerListTail_eq)

text \<open>The operations on one producer, of either kind.\<close>

lemma t_dequeue_ok:
  assumes q: "t_holds q cs" and j: "j < length (t_producers q)"
  shows "\<exists>q'. t_dequeue j q = Some (case cs ! j of [] \<Rightarrow> None | v # _ \<Rightarrow> Some v, q') \<and>
    t_holds q' (cs[j := tl (cs ! j)]) \<and> same_list q q'"
proof -
  from q obtain bls where ok: "t_ok bls cs q" by (auto simp: t_holds_def)
  note s = t_ok_owned [OF ok j]
  have "\<exists>pb p bl. t_dequeue j q = Some (case cs ! j of [] \<Rightarrow> None | v # _ \<Rightarrow> Some v, set_producer j pb p q) \<and>
    owned (other_blocks bls j) pb p bl (tl (cs ! j)) \<and> (\<forall>a \<in> other_blocks bls j. heap p a = heap (t_blocks q) a)"
  proof (cases "t_producers q ! j")
    case (Implicit pr)
    have sub: "subqueue (other_blocks bls j) pr (t_blocks q) (bls ! j) (cs ! j)" using s by (simp add: Implicit owned_simps)
    show ?thesis
    proof (cases "cs ! j")
      case Nil
      with sub producer_dequeue_empty have "producer_dequeue pr (t_blocks q) = Some (None, pr, t_blocks q)" by fastforce
      with sub Nil show ?thesis
        by (intro exI [of _ "Implicit pr"] exI [of _ "t_blocks q"] exI [of _ "bls ! j"]) (simp add: t_dequeue_def Implicit owned_simps)
    next
      case (Cons v ys)
      from producer_dequeue_ok [OF sub [unfolded Cons]] obtain pr' p' bl' where
        "producer_dequeue pr (t_blocks q) = Some (Some v, pr', p')" "subqueue (other_blocks bls j) pr' p' bl' ys"
        "\<forall>a \<in> other_blocks bls j. heap p' a = heap (t_blocks q) a" by blast
      with Cons show ?thesis
        by (intro exI [of _ "Implicit pr'"] exI [of _ p'] exI [of _ bl']) (simp add: t_dequeue_def Implicit owned_simps)
    qed
  next
    case (Explicit i pr)
    from s obtain h e where "explicit_queue (other_blocks bls j) pr (t_blocks q) (bls ! j) h e (cs ! j)"
      by (auto simp: Explicit owned_simps)
    from x_dequeue_ok [OF this] obtain pr' p' h' where
      "x_dequeue pr (t_blocks q) = Some (case cs ! j of [] \<Rightarrow> None | v # _ \<Rightarrow> Some v, pr', p')"
      "explicit_queue (other_blocks bls j) pr' p' (bls ! j) h' e (tl (cs ! j))"
      "\<forall>a \<in> other_blocks bls j. heap p' a = heap (t_blocks q) a" by blast
    then show ?thesis
      by (intro exI [of _ "Explicit i pr'"] exI [of _ p'] exI [of _ "bls ! j"]) (auto simp: t_dequeue_def Explicit owned_simps)
  qed
  with t_ok_update [OF ok j] show ?thesis unfolding t_holds_def by (metis same_list_set)
qed

lemma t_enqueue_ok:
  assumes q: "t_holds q cs" and j: "j < length (t_producers q)" and small: "Suc (length (cs ! j)) < 2 ^ 63"
  shows "\<exists>ok q'. t_enqueue mok j v q = Some (ok, q') \<and> t_holds q' (if ok then cs[j := cs ! j @ [v]] else cs) \<and> same_list q q'"
proof -
  from q obtain bls where ok: "t_ok bls cs q" by (auto simp: t_holds_def)
  note s = t_ok_owned [OF ok j]
  have len: "length cs = length (t_producers q)" using ok by (simp add: t_ok_def)
  have "\<exists>r pb p bl. t_enqueue mok j v q = Some (r, set_producer j pb p q) \<and>
    owned (other_blocks bls j) pb p bl (if r then cs ! j @ [v] else cs ! j) \<and>
    (\<forall>a \<in> other_blocks bls j. heap p a = heap (t_blocks q) a)"
  proof (cases "t_producers q ! j")
    case (Implicit pr)
    have "subqueue (other_blocks bls j) pr (t_blocks q) (bls ! j) (cs ! j)" using s by (simp add: Implicit owned_simps)
    from producer_enqueue_ok [OF this, of mok v] obtain r pr' p' bl' where
      "producer_enqueue mok v pr (t_blocks q) = Some (r, pr', p')"
      "subqueue (other_blocks bls j) pr' p' bl' (if r then cs ! j @ [v] else cs ! j)"
      "\<forall>a \<in> other_blocks bls j. heap p' a = heap (t_blocks q) a" by blast
    then show ?thesis
      by (intro exI [of _ r] exI [of _ "Implicit pr'"] exI [of _ p'] exI [of _ bl']) (simp add: t_enqueue_def Implicit owned_simps)
  next
    case (Explicit i pr)
    from s obtain h e where "explicit_queue (other_blocks bls j) pr (t_blocks q) (bls ! j) h e (cs ! j)"
      by (auto simp: Explicit owned_simps)
    from x_enqueue_ok [OF this small, of mok v] obtain r pr' p' bl' h' e' where
      "x_enqueue mok v pr (t_blocks q) = Some (r, pr', p')"
      "explicit_queue (other_blocks bls j) pr' p' bl' h' e' (if r then cs ! j @ [v] else cs ! j)"
      "\<forall>a \<in> other_blocks bls j. heap p' a = heap (t_blocks q) a" by blast
    moreover from this have "owned (other_blocks bls j) (Explicit i pr') p' bl' (if r then cs ! j @ [v] else cs ! j)"
      unfolding owned_simps by blast
    ultimately show ?thesis
      by (intro exI [of _ r] exI [of _ "Explicit i pr'"] exI [of _ p'] exI [of _ bl']) (simp add: t_enqueue_def Explicit)
  qed
  then obtain r pb p bl where r: "t_enqueue mok j v q = Some (r, set_producer j pb p q)"
    "owned (other_blocks bls j) pb p bl (if r then cs ! j @ [v] else cs ! j)"
    "\<forall>a \<in> other_blocks bls j. heap p a = heap (t_blocks q) a" by blast
  have eq: "cs[j := (if r then cs ! j @ [v] else cs ! j)] = (if r then cs[j := cs ! j @ [v]] else cs)" by simp
  have "t_holds (set_producer j pb p q) (if r then cs[j := cs ! j @ [v]] else cs)"
    using t_ok_update [OF ok j r(2,3)] unfolding eq t_holds_def by blast
  with r(1) show ?thesis by (intro exI [of _ r] exI [of _ "set_producer j pb p q"]) simp
qed

lemma t_dequeue_bulk_ok:
  assumes q: "t_holds q cs" and j: "j < length (t_producers q)"
  shows "\<exists>q'. t_dequeue_bulk j most q = Some (take (unat most) (cs ! j), q') \<and>
    t_holds q' (cs[j := drop (unat most) (cs ! j)]) \<and> same_list q q'"
proof -
  from q obtain bls where ok: "t_ok bls cs q" by (auto simp: t_holds_def)
  note s = t_ok_owned [OF ok j]
  let ?n = "min (unat most) (length (cs ! j))"
  have n: "take ?n (cs ! j) = take (unat most) (cs ! j)" "drop ?n (cs ! j) = drop (unat most) (cs ! j)" by (simp_all add: min_def)
  have "\<exists>pb p bl. t_dequeue_bulk j most q = Some (take (unat most) (cs ! j), set_producer j pb p q) \<and>
    owned (other_blocks bls j) pb p bl (drop (unat most) (cs ! j)) \<and> (\<forall>a \<in> other_blocks bls j. heap p a = heap (t_blocks q) a)"
  proof (cases "t_producers q ! j")
    case (Implicit pr)
    have sub: "subqueue (other_blocks bls j) pr (t_blocks q) (bls ! j) (cs ! j)" using s by (simp add: Implicit owned_simps)
    from dequeue_times_ok [OF sub, of ?n] obtain pr' p' bl' where
      "dequeue_times ?n pr (t_blocks q) = Some (take (unat most) (cs ! j), pr', p')"
      "subqueue (other_blocks bls j) pr' p' bl' (drop (unat most) (cs ! j))"
      "\<forall>a \<in> other_blocks bls j. heap p' a = heap (t_blocks q) a" unfolding n by auto
    with dequeue_bulk_is_dequeues [OF sub, of most] show ?thesis
      by (intro exI [of _ "Implicit pr'"] exI [of _ p'] exI [of _ bl']) (simp add: t_dequeue_bulk_def Implicit owned_simps)
  next
    case (Explicit i pr)
    from s obtain h e where "explicit_queue (other_blocks bls j) pr (t_blocks q) (bls ! j) h e (cs ! j)"
      by (auto simp: Explicit owned_simps)
    from x_dequeue_bulk_ok [OF this, of most, unfolded n] obtain pr' p' where
      "x_dequeue_bulk most pr (t_blocks q) = Some (take (unat most) (cs ! j), pr', p')"
      "explicit_queue (other_blocks bls j) pr' p' (bls ! j) (h + ?n) e (drop (unat most) (cs ! j))"
      "\<forall>a \<in> other_blocks bls j. heap p' a = heap (t_blocks q) a" by blast
    then show ?thesis
      by (intro exI [of _ "Explicit i pr'"] exI [of _ p'] exI [of _ "bls ! j"]) (auto simp: t_dequeue_bulk_def Explicit owned_simps)
  qed
  with t_ok_update [OF ok j] show ?thesis unfolding t_holds_def by (metis same_list_set)
qed

section \<open>Walking along the list of producers\<close>

lemma next_or_less: "tail < n \<Longrightarrow> j < n \<Longrightarrow> next_or tail j < n"
  by (cases j) (simp_all add: next_or_def next_prod_def)

lemma next_or_mod:
  assumes "j < n"
  shows "next_or (n - 1) j = (j + n - 1) mod n"
proof (cases j)
  case (Suc i)
  have "(j + n - 1) mod n = (i + n) mod n" using Suc by simp
  then show ?thesis using Suc assms by (simp add: next_or_def next_prod_def)
qed (use assms in \<open>simp add: next_or_def next_prod_def\<close>)

text \<open>Walking \<open>k\<close> steps from the producer at \<open>j\<close>, written so that nothing is subtracted.\<close>

lemma walk_less: "j < n \<Longrightarrow> (next_or (n - 1) ^^ k) j < n"
  by (induction k) (auto intro: next_or_less)

lemma walk_back:
  assumes "j < n"
  shows "((next_or (n - 1) ^^ k) j + k) mod n = j"
proof (induction k)
  case (Suc k)
  let ?i = "(next_or (n - 1) ^^ k) j"
  have i: "?i < n" by (rule walk_less [OF assms])
  have "(next_or (n - 1) ?i + Suc k) mod n = ((?i + n - 1) mod n + Suc k) mod n" by (simp only: next_or_mod [OF i])
  also have "\<dots> = (?i + n - 1 + Suc k) mod n" by (rule mod_add_left_eq)
  also have "?i + n - 1 + Suc k = ?i + k + n" using i by simp
  also have "(?i + k + n) mod n = (?i + k) mod n" by simp
  finally show ?case using Suc by simp
qed (use assms in simp)

lemma walk_unique:
  fixes i :: nat
  assumes "i < n" "(i + k) mod n = (j + k) mod n" "j < n"
  shows "i = j"
proof -
  have "((i + k) + (n - k mod n)) mod n = ((j + k) + (n - k mod n)) mod n" using assms(2) by (metis mod_add_left_eq)
  moreover have "((x + k) + (n - k mod n)) mod n = x mod n" for x
  proof -
    have "k mod n < n" using assms(1) by (cases n) auto
    then have "(x + k) + (n - k mod n) = x + n + n * (k div n)" using mult_div_mod_eq [of n k] by linarith
    then show ?thesis by (simp only:) simp
  qed
  ultimately show ?thesis using assms(1,3) by simp
qed

section \<open>The rotation\<close>

definition token_wf :: "nat \<Rightarrow> consumer_token \<Rightarrow> bool" where
  "token_wf n token \<longleftrightarrow>
     (case desiredProducer token of
        None \<Rightarrow> True
      | Some d \<Rightarrow> d < n \<and> (\<exists>c < n. currentProducer token = Some c))"

lemma token_wf_later: "token_wf n token \<Longrightarrow> n \<le> m \<Longrightarrow> token_wf m token"
  by (auto simp: token_wf_def split: option.splits)

text \<open>Where a token starts the first time: its number, counted from the oldest producer.\<close>

definition first_position :: "nat \<Rightarrow> consumer_token \<Rightarrow> nat" where
  "first_position n token = unat (initialOffset token) mod n"

lemma first_walk:
  assumes n: "0 < n" "unat (m :: u32) = n"
  shows "(next_or (n - 1) ^^ unat (m - 1 - initialOffset token mod m)) (n - 1) = first_position n token"
proof -
  let ?k = "unat (m - 1 - initialOffset token mod m)" and ?r = "unat (initialOffset token) mod n"
  have r: "?r < n" using n by simp
  have c1: "unat (m - 1) = n - 1"
  proof -
    have "(1 :: u32) \<le> m" using n by (simp add: word_le_nat_alt)
    then show ?thesis using n by (simp add: unat_sub)
  qed
  have mm: "unat (initialOffset token mod m) = ?r" by (simp add: unat_mod n)
  have "initialOffset token mod m \<le> m - 1" unfolding word_le_nat_alt c1 mm using r by simp
  then have k: "?k = n - 1 - ?r" unfolding unat_sub [OF \<open>initialOffset token mod m \<le> m - 1\<close>] c1 mm by simp
  have "((next_or (n - 1) ^^ ?k) (n - 1) + ?k) mod n = (?r + ?k) mod n"
    using walk_back [of "n - 1" n ?k] n r by (simp add: k)
  from walk_unique [OF walk_less this r] show ?thesis using n by (simp add: first_position_def)
qed

text \<open>
  After a rotation the token is at the producer it wanted before, or at its first position, moved on once for every
  rotation it has missed.
\<close>

lemma rotation_ok:
  assumes q: "unat (t_producerCount q) = length (t_producers q)" and w: "token_wf (length (t_producers q)) token"
  defines "n \<equiv> length (t_producers q)"
  shows "if n = 0 then update_current_producer_after_rotation q token = Some (False, token)
    else \<exists>c < n. update_current_producer_after_rotation q token =
        Some (True, token\<lparr>desiredProducer := Some c, lastKnownGlobalOffset := globalExplicitConsumerOffset q,
          currentProducer := Some c, itemsConsumedFromCurrent := 0\<rparr>) \<and>
      (c + unat (globalExplicitConsumerOffset q - lastKnownGlobalOffset token)) mod n =
        (case desiredProducer token of None \<Rightarrow> first_position n token | Some d \<Rightarrow> d)"
proof (cases "n = 0")
  case True
  then have "desiredProducer token = None" using w by (auto simp: token_wf_def n_def split: option.splits)
  then show ?thesis using True by (simp add: update_current_producer_after_rotation_def producerListTail_eq n_def)
next
  case False
  let ?d = "globalExplicitConsumerOffset q - lastKnownGlobalOffset token" and ?count = "t_producerCount q"
  let ?delta = "if ?count \<le> ?d then ?d mod ?count else ?d"
  let ?start = "case desiredProducer token of None \<Rightarrow> first_position n token | Some d \<Rightarrow> d"
  have tail: "producerListTail q = Some (n - 1)" using False by (auto simp: producerListTail_eq n_def)
  have cnt: "?count \<noteq> 0" "unat ?count = n" using False q by (auto simp: n_def)
  have start: "?start < n" using w False by (auto simp: token_wf_def first_position_def n_def split: option.splits)
  have sel: "(case desiredProducer token of Some j \<Rightarrow> j
      | None \<Rightarrow> (next_or (n - 1) ^^ unat (?count - 1 - initialOffset token mod ?count)) (n - 1)) = ?start"
    using first_walk [of n ?count token] False cnt by (auto split: option.splits)
  have delta: "unat ?delta mod n = unat ?d mod n" using cnt by (simp add: unat_mod)
  let ?c = "(next_or (n - 1) ^^ unat ?delta) ?start"
  have "(?c + unat ?d) mod n = (?c + unat ?d mod n) mod n" by (rule mod_add_right_eq [symmetric])
  also have "\<dots> = (?c + unat ?delta mod n) mod n" unfolding delta by (rule refl)
  also have "\<dots> = (?c + unat ?delta) mod n" by (rule mod_add_right_eq)
  also have "\<dots> = ?start" by (rule walk_back [OF start])
  finally have walked: "(?c + unat ?d) mod n = ?start" .
  have less: "?c < n" by (rule walk_less [OF start])
  have run: "update_current_producer_after_rotation q token =
        Some (True, token\<lparr>desiredProducer := Some ?c, lastKnownGlobalOffset := globalExplicitConsumerOffset q,
          currentProducer := Some ?c, itemsConsumedFromCurrent := 0\<rparr>)"
    unfolding update_current_producer_after_rotation_def tail option.case Let_def if_not_P [OF cnt(1)] sel ..
  show ?thesis unfolding if_not_P [OF False] using less run walked by (intro exI [of _ ?c] conjI)
qed

lemma rotate_if_needed_ok:
  assumes q: "unat (t_producerCount q) = length (t_producers q)" and w: "token_wf (length (t_producers q)) token"
  shows "\<exists>ok token'. rotate_if_needed q token = Some (ok, token') \<and> token_wf (length (t_producers q)) token' \<and>
    (ok \<longleftrightarrow> t_producers q \<noteq> []) \<and>
    (ok \<longrightarrow> desiredProducer token' \<noteq> None \<and> lastKnownGlobalOffset token' = globalExplicitConsumerOffset q)"
proof (cases "must_rotate q token")
  case False
  then have "t_producers q \<noteq> []" using w by (auto simp: must_rotate_def token_wf_def)
  with False w show ?thesis by (auto simp: rotate_if_needed_def must_rotate_def)
next
  case True
  then show ?thesis
    using rotation_ok [OF assms] w by (auto simp: rotate_if_needed_def token_wf_def split: if_splits)
qed

section \<open>Receiving one element\<close>

lemma t_holds_length: "t_holds q cs \<Longrightarrow> length cs = length (t_producers q) \<and> unat (t_producerCount q) = length (t_producers q)"
  by (auto simp: t_holds_def t_ok_def)

lemma t_holds_offset [simp]:
  "t_holds (q\<lparr>globalExplicitConsumerOffset := w\<rparr>) cs = t_holds q cs"
  "t_holds (q\<lparr>nextExplicitConsumerId := w\<rparr>) cs = t_holds q cs"
  by (simp_all add: t_holds_def t_ok_def)

lemma next_or_step:
  assumes "0 < n"
  shows "next_or (n - 1) ((c + Suc d) mod n) = (c + d) mod n"
proof -
  have "next_or (n - 1) ((c + Suc d) mod n) = ((c + Suc d) mod n + (n - 1)) mod n"
    using assms by (subst next_or_mod) simp_all
  also have "\<dots> = (c + Suc d + (n - 1)) mod n" by (rule mod_add_left_eq)
  also have "c + Suc d + (n - 1) = c + d + n" using assms by simp
  finally show ?thesis by simp
qed

lemma around:
  fixes P :: "nat \<Rightarrow> bool"
  assumes "c < n" "P c" "\<forall>i < n - 1. P ((c + Suc i) mod n)" "j < n"
  shows "P j"
proof (cases "j = c")
  case False
  define i where "i = (if c < j then j - c - 1 else j + n - c - 1)"
  have "i < n - 1" "(c + Suc i) mod n = j" using assms(1,4) False by (auto simp: i_def)
  then show ?thesis using assms(3) by metis
qed (use assms(2) in simp)

lemma list_update_tl_Nil: "cs ! j = [] \<Longrightarrow> cs[j := tl (cs ! j)] = cs"
  by (metis list.sel(2) list_update_id)

lemma search_others_ok:
  assumes "t_holds q cs" "current < length (t_producers q)" "d < length (t_producers q)"
  defines "n \<equiv> length (t_producers q)"
  shows "\<exists>r q'. search_others (n - 1) current ((current + d) mod n) q = Some (r, q') \<and> same_list q q' \<and>
    (case r of
       None \<Rightarrow> t_holds q' cs \<and> (\<forall>i < d. cs ! ((current + Suc i) mod n) = [])
     | Some (v, j) \<Rightarrow> j < n \<and> (\<exists>ys. cs ! j = v # ys \<and> t_holds q' (cs[j := ys])))"
  using assms(1-3) unfolding n_def
proof (induction d arbitrary: q)
  case 0
  then show ?case by (subst search_others.simps) simp
next
  case (Suc d)
  let ?n = "length (t_producers q)"
  define k where "k = (current + Suc d) mod ?n"
  have n: "0 < ?n" "Suc d < ?n" using Suc.prems(3) by linarith+
  have j: "k < ?n" using n by (simp add: k_def)
  have ne: "k \<noteq> current"
  proof
    assume "k = current"
    then have "(current + Suc d) mod ?n = (current + 0) mod ?n" using Suc.prems(2) by (simp add: k_def)
    then have "Suc d = 0" using walk_unique [of "Suc d" ?n current 0] n by (simp add: add.commute)
    then show False by simp
  qed
  from t_dequeue_ok [OF Suc.prems(1) j] obtain q1 where q1:
    "t_dequeue k q = Some (case cs ! k of [] \<Rightarrow> None | v # _ \<Rightarrow> Some v, q1)" "t_holds q1 (cs[k := tl (cs ! k)])" "same_list q q1" by blast
  have len: "length (t_producers q1) = ?n" using q1(3) by (simp add: same_list_def)
  show ?case
  proof (cases "cs ! k")
    case (Cons v ys)
    have "search_others (?n - 1) current k q = Some (Some (v, k), q1)"
      using q1(1) ne by (subst search_others.simps) (simp add: Cons)
    moreover have "t_holds q1 (cs[k := ys])" using q1(2) by (simp add: Cons)
    ultimately show ?thesis using q1(3) j Cons unfolding k_def [symmetric] by (intro exI [of _ "Some (v, k)"] exI [of _ q1]) simp
  next
    case Nil
    have run: "search_others (?n - 1) current k q = search_others (?n - 1) current ((current + d) mod ?n) q1"
      using q1(1) ne next_or_step [OF n(1), of current d, folded k_def] by (subst search_others.simps) (simp add: Nil)
    have "t_holds q1 cs" using q1(2) list_update_tl_Nil [of cs, OF Nil] by simp
    from Suc.IH [OF this] obtain r q' where r: "search_others (?n - 1) current ((current + d) mod ?n) q1 = Some (r, q')"
      "same_list q1 q'" and c: "case r of
       None \<Rightarrow> t_holds q' cs \<and> (\<forall>i < d. cs ! ((current + Suc i) mod ?n) = [])
     | Some (v, j) \<Rightarrow> j < ?n \<and> (\<exists>ys. cs ! j = v # ys \<and> t_holds q' (cs[j := ys]))"
      using Suc.prems(2) n(2) unfolding len by auto
    have "case r of
       None \<Rightarrow> t_holds q' cs \<and> (\<forall>i < Suc d. cs ! ((current + Suc i) mod ?n) = [])
     | Some (v, j) \<Rightarrow> j < ?n \<and> (\<exists>ys. cs ! j = v # ys \<and> t_holds q' (cs[j := ys]))"
      using c Nil [unfolded k_def] by (auto simp: less_Suc_eq split: option.splits)
    then show ?thesis unfolding k_def [symmetric] run using r same_list_trans [OF q1(3) r(2)] by blast
  qed
qed

lemma token_try_dequeue_ok:
  assumes q: "t_holds q cs" and w: "token_wf (length cs) token"
  shows "\<exists>r token' q'. token_try_dequeue token q = Some (r, token', q') \<and> token_wf (length cs) token' \<and>
    length (t_producers q') = length cs \<and>
    (case r of
       None \<Rightarrow> (\<forall>xs \<in> set cs. xs = []) \<and> t_holds q' cs
     | Some v \<Rightarrow> \<exists>j < length cs. \<exists>ys. cs ! j = v # ys \<and> currentProducer token' = Some j \<and> t_holds q' (cs[j := ys]))"
proof -
  have n: "length (t_producers q) = length cs" "unat (t_producerCount q) = length (t_producers q)"
    using t_holds_length [OF q] by simp_all
  have "token_wf (length (t_producers q)) token" using w by (simp add: n)
  from rotate_if_needed_ok [OF n(2) this] obtain ok tk where
    tk: "rotate_if_needed q token = Some (ok, tk)" "token_wf (length cs) tk" "ok \<longleftrightarrow> t_producers q \<noteq> []"
    "ok \<longrightarrow> desiredProducer tk \<noteq> None" unfolding n(1) by blast
  show ?thesis
  proof (cases ok)
    case False
    then have "cs = []" using tk(3) n(1) by simp
    then show ?thesis using False tk(1,2) q n by (simp add: token_try_dequeue_def)
  next
    case True
    with tk(2,4) obtain c where c: "currentProducer tk = Some c" "c < length cs" by (auto simp: token_wf_def)
    then have cn: "c < length (t_producers q)" by (simp add: n)
    from t_dequeue_ok [OF q cn] obtain q1 where q1:
      "t_dequeue c q = Some (case cs ! c of [] \<Rightarrow> None | v # _ \<Rightarrow> Some v, q1)" "t_holds q1 (cs[c := tl (cs ! c)])" "same_list q q1"
      by blast
    have len: "length (t_producers q1) = length cs" using q1(3) n by (simp add: same_list_def)
    show ?thesis
    proof (cases "cs ! c")
      case (Cons v ys)
      let ?tk = "tk\<lparr>itemsConsumedFromCurrent := itemsConsumedFromCurrent tk + 1\<rparr>"
      obtain q2 where q2: "token_try_dequeue token q = Some (Some v, ?tk, q2)"
        "q2 = q1 \<or> q2 = q1\<lparr>globalExplicitConsumerOffset := globalExplicitConsumerOffset q1 + 1\<rparr>"
        using tk(1) True c(1) q1(1) Cons by (auto simp: token_try_dequeue_def Let_def)
      have "t_holds q1 (cs[c := ys])" using q1(2) Cons by simp
      then have "t_holds q2 (cs[c := ys])" "length (t_producers q2) = length cs" using q2(2) len by auto
      moreover have "token_wf (length cs) ?tk" using tk(2) by (simp add: token_wf_def split: option.splits)
      ultimately show ?thesis using q2(1) c Cons by (intro exI [of _ "Some v"] exI [of _ ?tk] exI [of _ q2]) auto
    next
      case Nil
      have h: "t_holds q1 cs" using q1(2) list_update_tl_Nil [of cs, OF Nil] by simp
      have tail: "producerListTail q1 = Some (length cs - 1)" using c(2) len by (auto simp: producerListTail_eq)
      have start: "next_or (length cs - 1) c = (c + (length cs - 1)) mod length cs"
        using c(2) next_or_mod [OF c(2)] by (metis Nat.add_diff_assoc One_nat_def Suc_leI gr_implies_not0 neq0_conv)
      have "length cs - 1 < length cs" using c(2) by linarith
      from search_others_ok [OF h, of c "length cs - 1", unfolded len, OF c(2) this] obtain r q' where
        r: "search_others (length cs - 1) c ((c + (length cs - 1)) mod length cs) q1 = Some (r, q')" "same_list q1 q'"
        and res: "case r of
           None \<Rightarrow> t_holds q' cs \<and> (\<forall>i < length cs - 1. cs ! ((c + Suc i) mod length cs) = [])
         | Some (v, j) \<Rightarrow> j < length cs \<and> (\<exists>ys. cs ! j = v # ys \<and> t_holds q' (cs[j := ys]))" by blast
      have len': "length (t_producers q') = length cs" using r(2) len by (simp add: same_list_def)
      have run: "token_try_dequeue token q = (case r of
           Some (v, ptr) \<Rightarrow> Some (Some v, tk\<lparr>currentProducer := Some ptr, itemsConsumedFromCurrent := 1\<rparr>, q')
         | None \<Rightarrow> Some (None, tk, q'))"
        using tk(1) True c(1) q1(1) Nil tail r(1) [folded start] by (simp add: token_try_dequeue_def split: option.splits)
      show ?thesis
      proof (cases r)
        case None
        with res have e: "\<forall>i < length cs - 1. cs ! ((c + Suc i) mod length cs) = []" and h': "t_holds q' cs" by simp_all
        have "cs ! j = []" if "j < length cs" for j by (rule around [OF c(2) Nil e that])
        then have "\<forall>xs \<in> set cs. xs = []" by (metis in_set_conv_nth)
        then show ?thesis using run None h' tk(2) len' by simp
      next
        case (Some vj)
        obtain v j where vj: "vj = (v, j)" by fastforce
        with res Some obtain ys where j: "j < length cs" "cs ! j = v # ys" "t_holds q' (cs[j := ys])" by auto
        have "token_wf (length cs) (tk\<lparr>currentProducer := Some j, itemsConsumedFromCurrent := 1\<rparr>)"
          using tk(2) j(1) by (auto simp: token_wf_def split: option.splits)
        then show ?thesis using run Some vj j len'
          by (intro exI [of _ "Some v"] exI [of _ "tk\<lparr>currentProducer := Some j, itemsConsumedFromCurrent := 1\<rparr>"] exI [of _ q']) auto
      qed
    qed
  qed
qed

end
