(* ===== verification/Cq_Token_Bulk.thy ===== *)
theory Cq_Token_Bulk
  imports Cq_Token_Ok
begin

text \<open>
  \<open>include/concurrentqueue.h\<close>: \<open>try_dequeue_bulk\<close> with a consumer token, whose loop ends because every turn either comes
  closer to the current producer or takes elements away; and that making and dropping tokens keeps the invariant.
\<close>

section \<open>Receiving many elements\<close>

text \<open>Elements are taken from the fronts of the lists, a piece at a time.\<close>

inductive drawn :: "'a list list \<Rightarrow> 'a list \<Rightarrow> 'a list list \<Rightarrow> bool" where
  drawn_Nil: "drawn cs [] cs"
| drawn_piece: "j < length cs \<Longrightarrow> cs ! j = xs @ ys \<Longrightarrow> drawn (cs[j := ys]) els cs' \<Longrightarrow> drawn cs (xs @ els) cs'"

lemma drawn_one: "j < length cs \<Longrightarrow> cs ! j = xs @ ys \<Longrightarrow> drawn cs xs (cs[j := ys])"
  using drawn_piece [OF _ _ drawn_Nil, of j cs xs ys] by simp

lemma drawn_length: "drawn cs els cs' \<Longrightarrow> length cs' = length cs"
  by (induction rule: drawn.induct) auto

definition element_count :: "'a list list \<Rightarrow> nat" where
  "element_count cs = sum_list (map length cs)"

lemma element_count_update: "j < length cs \<Longrightarrow> element_count (cs[j := ys]) + length (cs ! j) = element_count cs + length ys"
proof -
  assume j: "j < length cs"
  have "length (cs ! j) \<le> sum_list (map length cs)" using j by (intro member_le_sum_list) simp_all
  then show ?thesis using j by (simp add: element_count_def map_update sum_list_update)
qed

lemma element_count_0: "element_count cs = 0 \<longleftrightarrow> (\<forall>xs \<in> set cs. xs = [])"
  by (simp add: element_count_def)

lemma drawn_element_count: "drawn cs els cs' \<Longrightarrow> element_count cs = length els + element_count cs'"
proof (induction rule: drawn.induct)
  case (drawn_piece j cs xs ys els cs')
  from element_count_update [OF drawn_piece(1), of ys] drawn_piece show ?case by simp
qed simp

lemma search_others_bulk_ok:
  assumes "t_holds q cs" "token_wf (length cs) token" "currentProducer token = Some c" "c < length cs" "cs ! c = []"
    "d < length cs" "\<forall>i. d \<le> i \<and> i < length cs - 1 \<longrightarrow> cs ! ((c + Suc i) mod length cs) = []" "most \<noteq> 0"
  shows "\<exists>els token' q' cs'. search_others_bulk (length cs - 1) ((c + d) mod length cs) most token q = Some (els, token', q') \<and>
    token_wf (length cs) token' \<and> length (t_producers q') = length cs \<and> t_holds q' cs' \<and> drawn cs els cs' \<and>
    length els = min (unat most) (element_count cs)"
  using assms
proof (induction "element_count cs * length cs + d" arbitrary: q cs token c d most rule: less_induct)
  case less
  let ?n = "length cs"
  note h = less.prems(1) and c = less.prems(3-5) and d = less.prems(6)
  have len: "length (t_producers q) = ?n" using t_holds_length [OF h] by simp
  have n: "0 < ?n" using c(2) by linarith
  show ?case
  proof (cases d)
    case 0
    then have "\<forall>i < ?n - 1. cs ! ((c + Suc i) mod ?n) = []" using less.prems(7) by simp
    from around [where P = "\<lambda>j. cs ! j = []", OF c(2,3) this] have "\<forall>xs \<in> set cs. xs = []" by (metis in_set_conv_nth)
    then have "element_count cs = 0" by (simp add: element_count_0)
    moreover have "search_others_bulk (?n - 1) ((c + d) mod ?n) most token q = Some ([], token, q)"
      using 0 c by (subst search_others_bulk.simps) simp
    ultimately show ?thesis using h less.prems(2) len drawn_Nil [of cs] by auto
  next
    case (Suc e)
    define k where "k = (c + Suc e) mod ?n"
    have k: "k < ?n" "k < length (t_producers q)" using n len by (simp_all add: k_def)
    have ne: "Some k \<noteq> currentProducer token"
    proof
      assume "Some k = currentProducer token"
      then have "(c + Suc e) mod ?n = (c + 0) mod ?n" using c(1,2) by (simp add: k_def)
      then have "Suc e = 0" using walk_unique [of "Suc e" ?n c 0] d Suc n by (simp add: add.commute)
      then show False by simp
    qed
    have step: "next_or (?n - 1) k = (c + e) mod ?n" unfolding k_def by (rule next_or_step [OF n])
    let ?els = "take (unat most) (cs ! k)" and ?cs = "cs[k := drop (unat most) (cs ! k)]"
    from t_dequeue_bulk_ok [OF h k(2), of most] obtain q1 where q1: "t_dequeue_bulk k most q = Some (?els, q1)"
      "t_holds q1 ?cs" "same_list q q1" by blast
    have len1: "length (t_producers q1) = ?n" using q1(3) len by (simp add: same_list_def)
    have m: "0 < unat most" using less.prems(8) by (simp add: unat_gt_0)
    have u: "unat (of_nat (length ?els) :: u64) = length ?els"
    proof -
      have "length ?els < 2 ^ 64" using unat_u64 [of most] by simp
      then show ?thesis by (rule unat_of_nat_u64)
    qed
    let ?token = "if ?els \<noteq> [] then token\<lparr>currentProducer := Some k, itemsConsumedFromCurrent := of_nat (length ?els)\<rparr> else token"
    have run: "search_others_bulk (?n - 1) k most token q =
      (if of_nat (length ?els) = most then Some (?els, ?token, q1)
       else do {
         (rest, token, q) \<leftarrow> search_others_bulk (?n - 1) ((c + e) mod ?n) (most - of_nat (length ?els)) ?token q1;
         Some (?els @ rest, token, q) })"
      using ne by (subst search_others_bulk.simps) (simp only: if_False q1(1) Option.bind.simps split_conv Let_def step)
    have piece: "drawn cs ?els ?cs" by (rule drawn_one [OF k(1)]) simp
    have wf: "token_wf ?n ?token" using less.prems(2) k(1) by (auto simp: token_wf_def split: option.splits)
    have kd: "(c + d) mod ?n = k" by (simp add: k_def Suc)
    show ?thesis
    proof (cases "cs ! k = []")
      case True
      have same: "?cs = cs" using True by (metis drop_Nil list_update_id)
      have not_full: "of_nat (length ?els) \<noteq> most" using True less.prems(8) by simp
      have "\<forall>i. e \<le> i \<and> i < ?n - 1 \<longrightarrow> cs ! ((c + Suc i) mod ?n) = []"
        using less.prems(7) True Suc unfolding k_def by (metis Suc_leI le_neq_implies_less)
      moreover have "element_count cs * ?n + e < element_count cs * ?n + d" "e < ?n" using Suc d by simp_all
      ultimately obtain els token' q' cs' where r:
        "search_others_bulk (?n - 1) ((c + e) mod ?n) most token q1 = Some (els, token', q')"
        "token_wf ?n token'" "length (t_producers q') = ?n" "t_holds q' cs'" "drawn cs els cs'" "length els = min (unat most) (element_count cs)"
        using less.hyps [of cs e q1 token c most] q1(2) less.prems(2,8) c unfolding same by blast
      then show ?thesis unfolding kd run if_not_P [OF not_full] using True by auto
    next
      case False
      then have els: "?els \<noteq> []" using m by auto
      show ?thesis
      proof (cases "of_nat (length ?els) = most")
        case True
        then have full: "length ?els = unat most" using u by simp
        have "element_count ?cs + length (cs ! k) = element_count cs + (length (cs ! k) - unat most)" using element_count_update [OF k(1)] by simp
        then have "length ?els = min (unat most) (element_count cs)" using full by simp
        then show ?thesis unfolding kd run if_P [OF True] using wf len1 q1(2) piece by blast
      next
        case not_full: False
        have short: "length (cs ! k) < unat most"
        proof (rule ccontr)
          assume "\<not> length (cs ! k) < unat most"
          then have "length ?els = unat most" by simp
          then show False using not_full by simp
        qed
        then have all: "?els = cs ! k" "?cs = cs[k := []]" by simp_all
        let ?cs1 = "cs[k := []]" and ?most = "most - of_nat (length (cs ! k))"
        have tot: "element_count ?cs1 + length (cs ! k) = element_count cs" using element_count_update [OF k(1), of "[]"] by simp
        have ul: "unat (of_nat (length (cs ! k)) :: u64) = length (cs ! k)" using u unfolding all by simp
        have "(of_nat (length (cs ! k)) :: u64) \<le> most" using short ul by (simp add: word_le_nat_alt)
        from unat_sub [OF this] have um: "unat ?most = unat most - length (cs ! k)" using ul by simp
        then have m0: "?most \<noteq> 0" using short by (auto simp: unat_eq_0 [symmetric])
        have less: "element_count ?cs1 * ?n + (?n - 1) < element_count cs * ?n + d"
        proof -
          have "Suc (element_count ?cs1) \<le> element_count cs" using tot False by (cases "cs ! k") auto
          then have "Suc (element_count ?cs1) * ?n \<le> element_count cs * ?n" by (rule mult_le_mono1)
          moreover have "element_count ?cs1 * ?n + (?n - 1) < Suc (element_count ?cs1) * ?n" using n by simp
          ultimately show ?thesis by linarith
        qed
        have h1: "t_holds q1 ?cs1" using q1(2) all by simp
        have k1: "currentProducer ?token = Some k" "?cs1 ! k = []" "?n - 1 < ?n" using els k(1) n by simp_all
        have none: "\<forall>i. ?n - 1 \<le> i \<and> i < ?n - 1 \<longrightarrow> ?cs1 ! ((k + Suc i) mod ?n) = []" by linarith
        from less.hyps [of ?cs1 "?n - 1" q1 ?token k ?most, unfolded length_list_update, OF less h1 wf k1(1) k(1) k1(2,3) none m0]
        obtain els token' q' cs' where r:
          "search_others_bulk (?n - 1) ((k + (?n - 1)) mod ?n) ?most ?token q1 = Some (els, token', q')"
          "token_wf ?n token'" "length (t_producers q') = ?n" "t_holds q' cs'" "drawn ?cs1 els cs'"
          "length els = min (unat ?most) (element_count ?cs1)" by blast
        have next_k: "(k + (?n - 1)) mod ?n = (c + e) mod ?n"
          using step next_or_mod [OF k(1)] n by (metis Nat.add_diff_assoc Suc_leI One_nat_def)
        have "length (cs ! k @ els) = min (unat most) (element_count cs)" using r(6) um tot short by simp
        moreover have "drawn cs (cs ! k @ els) cs'" by (rule drawn_piece [OF k(1) _ r(5)]) simp
        ultimately show ?thesis unfolding kd run if_not_P [OF not_full] using r(1-4) unfolding all next_k by auto
      qed
    qed
  qed
qed

lemma token_try_dequeue_bulk_ok:
  assumes q: "t_holds q cs" and w: "token_wf (length cs) token"
  shows "\<exists>els token' q' cs'. token_try_dequeue_bulk token most q = Some (els, token', q') \<and> token_wf (length cs) token' \<and>
    length (t_producers q') = length cs \<and> t_holds q' cs' \<and> drawn cs els cs' \<and> length els = min (unat most) (element_count cs)"
proof -
  have n: "length (t_producers q) = length cs" "unat (t_producerCount q) = length (t_producers q)"
    using t_holds_length [OF q] by simp_all
  have "token_wf (length (t_producers q)) token" using w by (simp add: n)
  from rotate_if_needed_ok [OF n(2) this] obtain ok tk where
    tk: "rotate_if_needed q token = Some (ok, tk)" "token_wf (length cs) tk" "ok \<longleftrightarrow> t_producers q \<noteq> []"
    "ok \<longrightarrow> desiredProducer tk \<noteq> None" unfolding n(1) by blast
  show ?thesis
  proof (cases ok)
    case False
    then have "cs = []" using tk(3) n(1) by simp
    moreover have "token_try_dequeue_bulk token most q = Some ([], tk, q)" using False tk(1) by (simp add: token_try_dequeue_bulk_def)
    ultimately show ?thesis using tk(2) q n drawn_Nil [of cs] by (auto simp: element_count_def)
  next
    case True
    with tk(2,4) obtain c where c: "currentProducer tk = Some c" "c < length cs" by (auto simp: token_wf_def)
    then have cn: "c < length (t_producers q)" by (simp add: n)
    let ?els = "take (unat most) (cs ! c)" and ?cs = "cs[c := drop (unat most) (cs ! c)]"
    from t_dequeue_bulk_ok [OF q cn, of most] obtain q1 where q1:
      "t_dequeue_bulk c most q = Some (?els, q1)" "t_holds q1 ?cs" "same_list q q1" by blast
    have len: "length (t_producers q1) = length cs" using q1(3) n by (simp add: same_list_def)
    have u: "unat (of_nat (length ?els) :: u64) = length ?els"
    proof -
      have "length ?els < 2 ^ 64" using unat_u64 [of most] by simp
      then show ?thesis by (rule unat_of_nat_u64)
    qed
    let ?tk = "tk\<lparr>itemsConsumedFromCurrent := itemsConsumedFromCurrent tk + of_nat (length ?els)\<rparr>"
    have piece: "drawn cs ?els ?cs" by (rule drawn_one [OF c(2)]) simp
    have wf: "token_wf (length cs) ?tk" using tk(2) by (auto simp: token_wf_def split: option.splits)
    have count: "element_count ?cs + length (cs ! c) = element_count cs + (length (cs ! c) - unat most)"
      using element_count_update [OF c(2)] by simp
    show ?thesis
    proof (cases "of_nat (length ?els) = most")
      case full: True
      then have eq: "length ?els = unat most" using u by simp
      then have "length ?els = min (unat most) (element_count cs)" using count by simp
      moreover obtain q2 where "token_try_dequeue_bulk token most q = Some (?els, ?tk, q2)"
        "q2 = q1 \<or> q2 = q1\<lparr>globalExplicitConsumerOffset := globalExplicitConsumerOffset q1 + 1\<rparr>"
        using tk(1) True c(1) q1(1) full by (auto simp: token_try_dequeue_bulk_def Let_def)
      ultimately show ?thesis using q1(2) len piece wf
        by (intro exI [of _ ?els] exI [of _ ?tk] exI [of _ q2] exI [of _ ?cs]) auto
    next
      case not_full: False
      have short: "length (cs ! c) < unat most"
      proof (rule ccontr)
        assume "\<not> length (cs ! c) < unat most"
        then have "length ?els = unat most" by simp
        then show False using not_full by simp
      qed
      then have all: "?els = cs ! c" "?cs = cs[c := []]" by simp_all
      let ?most = "most - of_nat (length (cs ! c))"
      have ul: "unat (of_nat (length (cs ! c)) :: u64) = length (cs ! c)" using u unfolding all by simp
      have "(of_nat (length (cs ! c)) :: u64) \<le> most" using short ul by (simp add: word_le_nat_alt)
      from unat_sub [OF this] have um: "unat ?most = unat most - length (cs ! c)" using ul by simp
      then have m0: "?most \<noteq> 0" using short by (auto simp: unat_eq_0 [symmetric])
      have tail: "producerListTail q1 = Some (length cs - 1)" using c(2) len by (auto simp: producerListTail_eq)
      have pred: "length cs - 1 < length cs" using c(2) by linarith
      have h1: "t_holds q1 (cs[c := []])" using q1(2) all by simp
      have cur: "currentProducer ?tk = Some c" "cs[c := []] ! c = []" using c by simp_all
      have none: "\<forall>i. length cs - 1 \<le> i \<and> i < length cs - 1 \<longrightarrow> cs[c := []] ! ((c + Suc i) mod length cs) = []" by linarith
      from search_others_bulk_ok [OF h1, unfolded length_list_update, OF wf cur(1) c(2) cur(2) pred none m0]
      obtain rest token' q' cs' where r:
        "search_others_bulk (length cs - 1) ((c + (length cs - 1)) mod length cs) ?most ?tk q1 = Some (rest, token', q')"
        "token_wf (length cs) token'" "length (t_producers q') = length cs" "t_holds q' cs'" "drawn (cs[c := []]) rest cs'"
        "length rest = min (unat ?most) (element_count (cs[c := []]))" by blast
      have start: "next_or (length cs - 1) c = (c + (length cs - 1)) mod length cs"
        using c(2) next_or_mod [OF c(2)] by (metis Nat.add_diff_assoc One_nat_def Suc_leI gr_implies_not0 neq0_conv)
      have "token_try_dequeue_bulk token most q = Some (cs ! c @ rest, token', q')"
        using tk(1) True c(1) q1(1) not_full tail r(1) [folded start] unfolding all
        by (simp add: token_try_dequeue_bulk_def Let_def)
      moreover have "drawn cs (cs ! c @ rest) cs'" by (rule drawn_piece [OF c(2) _ r(5)]) simp
      moreover have "length (cs ! c @ rest) = min (unat most) (element_count cs)"
        using r(6) um short count unfolding all by simp
      ultimately show ?thesis using r(2-4) by blast
    qed
  qed
qed

section \<open>Tokens\<close>

definition new_token_queue :: "'a pool \<Rightarrow> 'a token_queue" where
  "new_token_queue p = \<lparr>t_producers = [], t_producerCount = 0, t_blocks = p, nextExplicitConsumerId = 0,
     globalExplicitConsumerOffset = 0\<rparr>"

lemma new_token_queue_ok: "pool_inv p {} \<Longrightarrow> t_holds (new_token_queue p) []"
  by (simp add: t_holds_def t_ok_def new_token_queue_def)

lemma t_holds_flag:
  fixes q :: "'a token_queue"
  assumes "t_holds q cs" "t_producers q ! j = Explicit b pr" "j < length (t_producers q)"
  shows "t_holds (q\<lparr>t_producers := (t_producers q)[j := Explicit b' pr]\<rparr>) cs"
proof -
  have "base_ok hp ((t_producers q)[j := Explicit b' pr] ! l) bl xs = base_ok hp (t_producers q ! l) bl xs"
    for hp :: "nat \<rightharpoonup> 'a block" and l bl xs
    using assms(2,3) by (cases "l = j") (simp_all add: base_ok_def)
  then show ?thesis using assms(1) by (simp add: t_holds_def t_ok_def)
qed

lemma t_add_producer_ok:
  assumes q: "t_ok bls cs q" and room: "Suc (length (t_producers q)) < 2 ^ 32"
    and new: "base_ok (heap p) pb [] []" "heap p = heap (t_blocks q)" "pool_inv p (\<Union> (set ` set bls))"
  shows "t_ok (bls @ [[]]) (cs @ [[]]) (q\<lparr>t_producers := t_producers q @ [pb], t_producerCount := t_producerCount q + 1, t_blocks := p\<rparr>)"
proof -
  let ?n = "length (t_producers q)"
  have len: "length bls = ?n" "length cs = ?n" "unat (t_producerCount q) = ?n" using q by (simp_all add: t_ok_def)
  have "base_ok (heap p) ((t_producers q @ [pb]) ! j) ((bls @ [[]]) ! j) ((cs @ [[]]) ! j)" if "j < Suc ?n" for j
    using that new q len by (cases "j = ?n") (auto simp: t_ok_def nth_append)
  moreover have "set ((bls @ [[]]) ! j) \<inter> set ((bls @ [[]]) ! l) = {}" if "j < Suc ?n" "l < Suc ?n" "j \<noteq> l" for j l
    using that q len by (cases "j = ?n"; cases "l = ?n") (auto simp: t_ok_def nth_append)
  moreover have "unat (t_producerCount q + 1) = Suc ?n"
    using unat_add_lem [of "t_producerCount q" 1] len(3) room by simp
  ultimately show ?thesis using new(3) len by (simp add: t_ok_def)
qed

text \<open>A new token has the producer of a token that is gone, with what it still holds, or a new one.\<close>

lemma new_producer_token_ok:
  assumes q: "t_holds q cs" and room: "Suc (length cs) < 2 ^ 32"
  shows "\<exists>r q'. new_producer_token mok q = Some (r, q') \<and>
    (case r of
       None \<Rightarrow> t_holds q' cs
     | Some j \<Rightarrow> (\<exists>pr. t_producers q' ! j = Explicit False pr) \<and>
         (j < length cs \<and> t_holds q' cs \<or> j = length cs \<and> t_holds q' (cs @ [[]]))) \<and>
    (mok = (\<lambda>_. True) \<longrightarrow> r \<noteq> None)"
proof -
  let ?gone = "\<lambda>j. case t_producers q ! j of Explicit gone _ \<Rightarrow> gone | Implicit _ \<Rightarrow> False"
  from q obtain bls where ok: "t_ok bls cs q" by (auto simp: t_holds_def)
  have n: "length (t_producers q) = length cs" using t_holds_length [OF q] by simp
  show ?thesis
  proof (cases "find ?gone (rev [0..<length (t_producers q)])")
    case (Some j)
    then have j: "j < length (t_producers q)" "?gone j" by (auto simp: find_Some_iff rev_nth)
    then obtain pr where pr: "t_producers q ! j = Explicit True pr" by (auto split: producer_base.splits)
    have "t_holds (q\<lparr>t_producers := (t_producers q)[j := Explicit False pr]\<rparr>) cs" by (rule t_holds_flag [OF q pr j(1)])
    then show ?thesis using Some pr j n by (simp add: new_producer_token_def)
  next
    case None
    let ?q = "q\<lparr>t_blocks := (t_blocks q)\<lparr>mallocs := mallocs (t_blocks q) + 1\<rparr>\<rparr>"
    have okq: "t_ok bls cs ?q" using ok by (simp add: t_ok_def)
    show ?thesis
    proof (cases "mok (mallocs (t_blocks q))")
      case False
      then have "new_producer_token mok q = Some (None, ?q)" using None by (simp add: new_producer_token_def Let_def)
      then show ?thesis using okq False by (auto simp: t_holds_def)
    next
      case True
      have "pool_inv (t_blocks ?q) (\<Union> (set ` set bls))" using okq by (simp add: t_ok_def)
      from new_explicit_producer_ok [OF this, of mok] obtain pr p where new:
        "new_explicit_producer mok (t_blocks ?q) = Some (pr, p)" "explicit_queue (\<Union> (set ` set bls)) pr p [] 0 0 []"
        "heap p = heap (t_blocks ?q)" by blast
      let ?q' = "?q\<lparr>t_producers := t_producers ?q @ [Explicit False pr], t_producerCount := t_producerCount ?q + 1, t_blocks := p\<rparr>"
      have b: "base_ok (heap p) (Explicit False pr) [] []" and inv: "pool_inv p (\<Union> (set ` set bls))"
        using new(2) by (auto simp: explicit_queue_def base_ok_def)
      have "t_ok (bls @ [[]]) (cs @ [[]]) ?q'" using t_add_producer_ok [OF okq _ b new(3) inv] room n by simp
      moreover have "new_producer_token mok q = Some (Some (length cs), ?q')"
        using True None new(1) n by (simp add: new_producer_token_def t_add_producer_def Let_def)
      ultimately show ?thesis by (auto simp: t_holds_def n nth_append)
    qed
  qed
qed

lemma new_consumer_token_ok:
  "t_holds q cs \<Longrightarrow> t_holds (snd (new_consumer_token q)) cs" "token_wf n (fst (new_consumer_token q))"
  by (simp_all add: new_consumer_token_def token_wf_def)

lemma destroy_producer_token_ok:
  assumes "t_holds q cs" "case token of None \<Rightarrow> True | Some j \<Rightarrow> j < length cs \<and> (\<exists>pr. t_producers q ! j = Explicit False pr)"
  shows "t_holds (destroy_producer_token token q) cs"
  using assms t_holds_flag [of q cs] t_holds_length [OF assms(1)]
  by (auto simp: destroy_producer_token_def split: option.splits)

end
