(* ===== verification/Cq_Token_Queue.thy ===== *)
theory Cq_Token_Queue
  imports Cq_Token_Bulk Cq_Two_Producers
begin

text \<open>
  \<open>include/concurrentqueue.h\<close>: the queue as its users with tokens see it, with the contract \<open>bounded_queue\<close>: first in, first
  out per producer, and no receive that misses an element.
\<close>

section \<open>Runs\<close>

text \<open>The state of a run: a consumer token and the queue. Senders are numbers of producers.\<close>

definition token_send :: "malloc_ok \<Rightarrow> thread_id \<Rightarrow> 'm \<Rightarrow> consumer_token \<times> 'm token_queue \<Rightarrow>
    (bool \<times> consumer_token \<times> 'm token_queue) option" where
  "token_send mok i v s = do {
     (ok, q) \<leftarrow> t_enqueue mok (unat i) v (snd s);
     Some (ok, fst s, q) }"

definition token_receive :: "consumer_token \<times> 'm token_queue \<Rightarrow> ('m option \<times> consumer_token \<times> 'm token_queue) option" where
  "token_receive s = token_try_dequeue (fst s) (snd s)"

definition contents_of :: "'m list list \<Rightarrow> thread_id \<Rightarrow> 'm list" where
  "contents_of cs i = (if unat i < length cs then cs ! unat i else [])"

definition token_repr :: "nat \<Rightarrow> consumer_token \<times> 'm token_queue \<Rightarrow> (thread_id \<Rightarrow> 'm list) \<Rightarrow> bool" where
  "token_repr n s c \<longleftrightarrow> (\<exists>cs. length cs = n \<and> t_holds (snd s) cs \<and> token_wf n (fst s) \<and> c = contents_of cs)"

lemma contents_of_update:
  assumes "j < length cs" "length cs < 2 ^ 64"
  shows "contents_of (cs[j := xs]) = (contents_of cs)(of_nat j := xs)"
proof
  fix i :: thread_id
  have u: "unat (of_nat j :: u64) = j" using assms by (intro unat_of_nat_u64) simp
  then have "i = of_nat j \<longleftrightarrow> unat i = j" by (simp add: word_unat_eq_iff)
  then show "contents_of (cs[j := xs]) i = ((contents_of cs)(of_nat j := xs)) i"
    using assms(1) by (auto simp: contents_of_def)
qed

lemma t_holds_small:
  assumes "t_holds q cs"
  shows "length cs < 2 ^ 32"
proof -
  have "unat (t_producerCount q) < 2 ^ LENGTH(32)" by (rule unsigned_less)
  then show ?thesis using t_holds_length [OF assms] by simp
qed

lemma token_send_ok:
  assumes r: "token_repr n s c" and i: "unat i < n" and small: "length (c i) < 2 ^ 63 - 1"
  shows "\<exists>ok s'. token_send mok i v s = Some (ok, s') \<and> token_repr n s' (if ok then c(i := c i @ [v]) else c)"
proof -
  from r obtain cs where cs: "length cs = n" "t_holds (snd s) cs" "token_wf n (fst s)" "c = contents_of cs"
    by (auto simp: token_repr_def)
  have len: "length (t_producers (snd s)) = n" using t_holds_length [OF cs(2)] cs(1) by simp
  have ci: "c i = cs ! unat i" using i cs(1,4) by (simp add: contents_of_def)
  have "Suc (length (cs ! unat i)) < 2 ^ 63" using small ci by simp
  from t_enqueue_ok [OF cs(2) _ this, of mok v] i len obtain ok q' where e: "t_enqueue mok (unat i) v (snd s) = Some (ok, q')"
    "t_holds q' (if ok then cs[unat i := cs ! unat i @ [v]] else cs)" by auto
  have "length cs < 2 ^ 64" using t_holds_small [OF cs(2)] by simp
  then have "contents_of (cs[unat i := cs ! unat i @ [v]]) = c(i := c i @ [v])"
    using contents_of_update [of "unat i" cs] i cs(1,4) ci by simp
  then have "token_repr n (fst s, q') (if ok then c(i := c i @ [v]) else c)"
    using e(2) cs(1,3,4) unfolding token_repr_def by (cases ok) (auto intro: exI [of _ "cs[unat i := cs ! unat i @ [v]]"])
  then show ?thesis using e(1) by (auto simp: token_send_def)
qed

lemma token_receive_ok:
  assumes r: "token_repr n s c"
  shows "\<exists>r s'. token_receive s = Some (r, s') \<and>
    (case r of None \<Rightarrow> (\<forall>i. c i = []) \<and> token_repr n s' c
     | Some v \<Rightarrow> \<exists>i \<in> {i. unat i < n}. \<exists>ys. c i = v # ys \<and> token_repr n s' (c(i := ys)))"
proof -
  from r obtain cs where cs: "length cs = n" "t_holds (snd s) cs" "token_wf (length cs) (fst s)" "c = contents_of cs"
    by (auto simp: token_repr_def)
  have small: "length cs < 2 ^ 64" using t_holds_small [OF cs(2)] by simp
  from token_try_dequeue_ok [OF cs(2,3)] obtain r tk q' where d: "token_receive s = Some (r, tk, q')" "token_wf n tk"
    and res: "case r of None \<Rightarrow> (\<forall>xs \<in> set cs. xs = []) \<and> t_holds q' cs
     | Some v \<Rightarrow> \<exists>j < n. \<exists>ys. cs ! j = v # ys \<and> currentProducer tk = Some j \<and> t_holds q' (cs[j := ys])"
    unfolding token_receive_def cs(1) by blast
  show ?thesis
  proof (cases r)
    case None
    with res have "\<forall>xs \<in> set cs. xs = []" "t_holds q' cs" by simp_all
    then have "c i = []" "token_repr n (tk, q') c" for i using cs(1,4) d(2) by (auto simp: contents_of_def token_repr_def)
    then show ?thesis using d(1) None by auto
  next
    case (Some v)
    with res obtain j ys where j: "j < n" "cs ! j = v # ys" "t_holds q' (cs[j := ys])" by auto
    have u: "unat (of_nat j :: u64) = j" using j(1) small cs(1) by (intro unat_of_nat_u64) simp
    have "token_repr n (tk, q') (c(of_nat j := ys))"
      using j cs(1,4) d(2) contents_of_update [of j cs ys] small by (auto simp: token_repr_def intro!: exI [of _ "cs[j := ys]"])
    moreover have "c (of_nat j) = v # ys" using j cs(1,4) u by (simp add: contents_of_def)
    ultimately have "\<exists>i \<in> {i. unat i < n}. \<exists>ys. c i = v # ys \<and> token_repr n (tk, q') (c(i := ys))"
      using j(1) u by (intro bexI [of _ "of_nat j"]) auto
    then show ?thesis using d(1) Some by (intro exI [of _ r] exI [of _ "(tk, q')"]) simp
  qed
qed

interpretation tq: bounded_queue "token_repr n" "token_send mok" token_receive "{i. unat i < n}" "2 ^ 63 - 1" for n mok
  by unfold_locales ((rule token_send_ok; simp), rule token_receive_ok)


section \<open>With a producer token, and without a token\<close>

definition valid_token :: "nat option \<Rightarrow> nat \<Rightarrow> 'a token_queue \<Rightarrow> bool" where
  "valid_token token j q \<longleftrightarrow> token = Some j \<and> j < length (t_producers q) \<and> (\<exists>pr. t_producers q ! j = Explicit False pr)"

lemma valid_token_operations:
  assumes "valid_token token j q"
  shows "token_enqueue mok token v q = t_enqueue mok j v q" "try_dequeue_from_producer token q = t_dequeue j q"
    "try_dequeue_bulk_from_producer token most q = t_dequeue_bulk j most q"
  using assms by (auto simp: valid_token_def token_enqueue_def try_dequeue_from_producer_def try_dequeue_bulk_from_producer_def)

text \<open>Adding many elements with a token, as long as the allocator does not fail.\<close>

lemma token_enqueue_bulk_ok:
  assumes q: "t_holds q cs" and t: "valid_token token j q" and size: "length (cs ! j) + length vs + 32 < 2 ^ 63"
  shows "\<exists>q'. token_enqueue_bulk (\<lambda>_. True) token vs q = Some (True, q') \<and> t_holds q' (cs[j := cs ! j @ vs])"
proof -
  from q obtain bls where ok: "t_ok bls cs q" by (auto simp: t_holds_def)
  from t obtain pr where j: "token = Some j" "j < length (t_producers q)" "t_producers q ! j = Explicit False pr"
    by (auto simp: valid_token_def)
  from t_ok_owned [OF ok j(2)] j(3) obtain h e where "explicit_queue (other_blocks bls j) pr (t_blocks q) (bls ! j) h e (cs ! j)"
    by (auto simp: owned_simps)
  from x_enqueue_bulk_ok [OF this size, of "\<lambda>_. True"] obtain r pr' p' bl' h' e' where
    r: "x_enqueue_bulk (\<lambda>_. True) vs pr (t_blocks q) = Some (r, pr', p')" r
    "\<forall>a \<in> other_blocks bls j. heap p' a = heap (t_blocks q) a"
    "explicit_queue (other_blocks bls j) pr' p' bl' h' e' (cs ! j @ vs)" by blast
  from r(4) have "owned (other_blocks bls j) (Explicit False pr') p' bl' (cs ! j @ vs)" unfolding owned_simps by blast
  from t_ok_update [OF ok j(2) this r(3)] have "t_holds (set_producer j (Explicit False pr') p' q) (cs[j := cs ! j @ vs])"
    unfolding t_holds_def by blast
  then show ?thesis using r(1,2) j by (simp add: token_enqueue_bulk_def)
qed

lemma dequeue_first_ok:
  assumes "t_holds q cs" "set js \<subseteq> {..<length cs}"
  shows "\<exists>r q'. dequeue_first js q = Some (r, q') \<and>
    (case r of None \<Rightarrow> (\<forall>j \<in> set js. cs ! j = []) \<and> t_holds q' cs
     | Some v \<Rightarrow> \<exists>j \<in> set js. \<exists>ys. cs ! j = v # ys \<and> t_holds q' (cs[j := ys]))"
  using assms
proof (induction js arbitrary: q)
  case (Cons j js)
  then have j: "j < length (t_producers q)" using t_holds_length [OF Cons.prems(1)] by simp
  from t_dequeue_ok [OF Cons.prems(1) j] obtain q1 where q1:
    "t_dequeue j q = Some (case cs ! j of [] \<Rightarrow> None | v # _ \<Rightarrow> Some v, q1)" "t_holds q1 (cs[j := tl (cs ! j)])" by blast
  show ?case
  proof (cases "cs ! j")
    case Nil
    have "t_holds q1 cs" using q1(2) list_update_tl_Nil [of cs, OF Nil] by simp
    from Cons.IH [OF this] Cons.prems(2) obtain r q' where r: "dequeue_first js q1 = Some (r, q')"
      "case r of None \<Rightarrow> (\<forall>j \<in> set js. cs ! j = []) \<and> t_holds q' cs
       | Some v \<Rightarrow> \<exists>j \<in> set js. \<exists>ys. cs ! j = v # ys \<and> t_holds q' (cs[j := ys])" by auto
    then show ?thesis using q1(1) Nil by (intro exI [of _ r] exI [of _ q']) (auto split: option.splits)
  next
    case (Cons v ys)
    have "t_holds q1 (cs[j := ys])" using q1(2) Cons by simp
    then show ?thesis using q1(1) Cons by (intro exI [of _ "Some v"] exI [of _ q1]) auto
  qed
qed simp

lemma try_dequeue_non_interleaved_ok:
  assumes "t_holds q cs"
  shows "\<exists>r q'. try_dequeue_non_interleaved q = Some (r, q') \<and>
    (case r of None \<Rightarrow> (\<forall>xs \<in> set cs. xs = []) \<and> t_holds q' cs
     | Some v \<Rightarrow> \<exists>j < length cs. \<exists>ys. cs ! j = v # ys \<and> t_holds q' (cs[j := ys]))"
proof -
  have n: "length (t_producers q) = length cs" using t_holds_length [OF assms] by simp
  from dequeue_first_ok [OF assms, of "rev [0..<length cs]"] obtain r q' where
    r: "dequeue_first (rev [0..<length cs]) q = Some (r, q')"
    "case r of None \<Rightarrow> (\<forall>j < length cs. cs ! j = []) \<and> t_holds q' cs
     | Some v \<Rightarrow> \<exists>j < length cs. \<exists>ys. cs ! j = v # ys \<and> t_holds q' (cs[j := ys])"
    by (fastforce split: option.splits)
  have "case r of None \<Rightarrow> (\<forall>xs \<in> set cs. xs = []) \<and> t_holds q' cs
     | Some v \<Rightarrow> \<exists>j < length cs. \<exists>ys. cs ! j = v # ys \<and> t_holds q' (cs[j := ys])"
    using r(2) by (auto simp: all_set_conv_all_nth split: option.splits)
  then show ?thesis using r(1) n by (auto simp: try_dequeue_non_interleaved_def)
qed

text \<open>
  Consumers spread over the producers: the first rotation of the token with number \<open>k\<close> takes it to the producer that is
  \<open>k\<close> after the oldest, moved by the rotations so far; tokens whose numbers differ modulo the number of
  producers start at different producers.
\<close>

lemma fresh_tokens_spread:
  assumes q: "t_holds q cs" "t_holds q' cs" "globalExplicitConsumerOffset q' = globalExplicitConsumerOffset q" and n: "cs \<noteq> []"
    and differ: "unat (nextExplicitConsumerId q) mod length cs \<noteq> unat (nextExplicitConsumerId q') mod length cs"
  shows "\<exists>t t'. update_current_producer_after_rotation q (fst (new_consumer_token q)) = Some (True, t) \<and>
    update_current_producer_after_rotation q' (fst (new_consumer_token q')) = Some (True, t') \<and>
    currentProducer t \<noteq> currentProducer t'"
proof -
  have len: "unat (t_producerCount q) = length (t_producers q)" "length (t_producers q) = length cs"
    "unat (t_producerCount q') = length (t_producers q')" "length (t_producers q') = length cs"
    using t_holds_length [OF q(1)] t_holds_length [OF q(2)] by simp_all
  have ne: "length cs \<noteq> 0" using n by simp
  from rotation_ok [OF len(1) new_consumer_token_ok(2) [of _ q], unfolded len(2), unfolded if_not_P [OF ne]]
  obtain c where c: "c < length cs" "update_current_producer_after_rotation q (fst (new_consumer_token q)) =
      Some (True, (fst (new_consumer_token q))\<lparr>desiredProducer := Some c, lastKnownGlobalOffset := globalExplicitConsumerOffset q,
        currentProducer := Some c, itemsConsumedFromCurrent := 0\<rparr>)"
    "(c + unat (globalExplicitConsumerOffset q + 1)) mod length cs = unat (nextExplicitConsumerId q) mod length cs"
    by (auto simp: new_consumer_token_def first_position_def)
  from rotation_ok [OF len(3) new_consumer_token_ok(2) [of _ q'], unfolded len(4), unfolded if_not_P [OF ne]]
  obtain d where d: "update_current_producer_after_rotation q' (fst (new_consumer_token q')) =
      Some (True, (fst (new_consumer_token q'))\<lparr>desiredProducer := Some d, lastKnownGlobalOffset := globalExplicitConsumerOffset q',
        currentProducer := Some d, itemsConsumedFromCurrent := 0\<rparr>)"
    "(d + unat (globalExplicitConsumerOffset q' + 1)) mod length cs = unat (nextExplicitConsumerId q') mod length cs"
    by (auto simp: new_consumer_token_def first_position_def)
  have "c \<noteq> d" using c(3) d(2) differ q(3) by auto
  with c(2) d(1) show ?thesis by simp
qed

section \<open>Properties\<close>

text \<open>
  C24. With tokens the queue is first in, first out per producer as well, over explicit and implicit producers together and
  whatever allocations fail: from a state that holds \<open>cs\<close>, a run of sends to any producers and receives with a
  new consumer token neither gets stuck nor fails an assertion; what producer \<open>j\<close> held and was sent is, in
  order, what was received of it and what it holds afterwards.
\<close>

theorem token_queue_fifo:
  fixes q :: "'m token_queue"
  assumes "t_holds q cs" "\<forall>i \<in> senders ops. unat i < length cs" "\<forall>xs \<in> set cs. length xs + length ops < 2 ^ 63"
  shows "\<exists>sent received token' q' cs' src. run_ops (token_send mok) token_receive ops (new_consumer_token q) =
      Some (sent, received, token', q') \<and> length src = length received \<and> length cs' = length cs \<and> t_holds q' cs' \<and>
    (\<forall>j < length cs. cs ! j @ from_thread (of_nat j) sent = from_thread (of_nat j) (zip src received) @ cs' ! j)"
proof -
  have "token_repr (length cs) (new_consumer_token q) (contents_of cs)"
    using new_consumer_token_ok(1) [OF assms(1)] new_consumer_token_ok(2) [of "length cs" q]
    unfolding token_repr_def by blast
  moreover have "\<forall>i \<in> senders ops. length (contents_of cs i) + length ops \<le> 2 ^ 63 - 1"
  proof
    fix i assume "i \<in> senders ops"
    then have "unat i < length cs" using assms(2) by blast
    moreover from this have "length (cs ! unat i) + length ops < 2 ^ 63" using assms(3) by simp
    ultimately show "length (contents_of cs i) + length ops \<le> 2 ^ 63 - 1" by (simp add: contents_of_def)
  qed
  moreover have "senders ops \<subseteq> {i. unat i < length cs}" using assms(2) by blast
  ultimately obtain sent received s' c' src where r:
    "run_ops (token_send mok) token_receive ops (new_consumer_token q) = Some (sent, received, s')" "token_repr (length cs) s' c'"
    "length src = length received" "\<forall>i. contents_of cs i @ from_thread i sent = from_thread i (zip src received) @ c' i"
    using tq.bounded_run_fifo [where mok = mok] by blast
  from r(2) obtain cs' where cs': "length cs' = length cs" "t_holds (snd s') cs'" "c' = contents_of cs'" by (auto simp: token_repr_def)
  have "cs ! j @ from_thread (of_nat j) sent = from_thread (of_nat j) (zip src received) @ cs' ! j" if "j < length cs" for j
  proof -
    have "unat (of_nat j :: u64) = j" using that t_holds_small [OF assms(1)] by (intro unat_of_nat_u64) simp
    then show ?thesis using r(4) [rule_format, of "of_nat j"] that cs'(1,3) by (simp add: contents_of_def)
  qed
  then show ?thesis using r(1,3) cs'(1,2) by (metis prod.collapse)
qed

text \<open>
  C25. A receive with a consumer token is complete and ends. \<open>try_dequeue\<close> finds an element whenever some producer has one:
  the first of the producer the token then points to. \<open>try_dequeue_bulk\<close>, whose loop runs until it is back at a producer that
  moves while it runs, returns, with as many elements as there are and the caller has room for, taken from the fronts of
  the producers.
\<close>

theorem token_receive_complete:
  assumes "t_holds q cs" "token_wf (length cs) token"
  shows "(\<exists>r token' q'. token_try_dequeue token q = Some (r, token', q') \<and> token_wf (length cs) token' \<and>
      (case r of
         None \<Rightarrow> (\<forall>xs \<in> set cs. xs = []) \<and> t_holds q' cs
       | Some v \<Rightarrow> \<exists>j < length cs. \<exists>ys. cs ! j = v # ys \<and> currentProducer token' = Some j \<and> t_holds q' (cs[j := ys]))) \<and>
    (\<exists>els token' q' cs'. token_try_dequeue_bulk token most q = Some (els, token', q') \<and> token_wf (length cs) token' \<and>
      t_holds q' cs' \<and> drawn cs els cs' \<and> length els = min (unat most) (element_count cs))"
  using token_try_dequeue_ok [OF assms] token_try_dequeue_bulk_ok [OF assms, of most] by blast

lemma one_producer: "\<exists>q. new_producer_token (\<lambda>_. True) (new_token_queue (empty_pool :: 'm pool)) = Some (Some 0, q) \<and> t_holds q [[]]"
  using new_producer_token_ok [OF new_token_queue_ok [OF empty_pool_inv], of "\<lambda>_. True"] by (auto split: option.splits)

theorem token_queue_fifo_witness:
  "\<exists>q sent received token' q' cs' src. new_producer_token (\<lambda>_. True) (new_token_queue (empty_pool :: nat pool)) = Some (Some 0, q) \<and>
    run_ops (token_send (\<lambda>n. n < 4)) token_receive [Send 0 1, Send 0 2, Receive] (new_consumer_token q) =
      Some (sent, received, token', q') \<and> t_holds q' [cs'] \<and> from_thread 0 sent = from_thread 0 (zip src received) @ cs'"
proof -
  obtain q where q: "new_producer_token (\<lambda>_. True) (new_token_queue (empty_pool :: nat pool)) = Some (Some 0, q)" "t_holds q [[]]"
    using one_producer by blast
  have "\<forall>i \<in> senders [Send 0 (1 :: nat), Send 0 2, Receive]. unat i < length [[] :: nat list]"
    "\<forall>xs \<in> set [[] :: nat list]. length xs + length [Send 0 (1 :: nat), Send 0 2, Receive] < 2 ^ 63" by simp_all
  from token_queue_fifo [OF q(2) this, of "\<lambda>n. n < 4"] obtain sent received token' q' cs' src where
    "run_ops (token_send (\<lambda>n. n < 4)) token_receive [Send 0 1, Send 0 2, Receive] (new_consumer_token q) =
      Some (sent, received, token', q')" "length cs' = 1" "t_holds q' cs'"
    "from_thread 0 sent = from_thread 0 (zip src received) @ cs' ! 0" by auto
  moreover from this have "cs' = [cs' ! 0]" by (cases cs') auto
  ultimately show ?thesis using q(1) by metis
qed

theorem token_receive_complete_witness:
  "\<exists>q ok q1 els token' q'. new_producer_token (\<lambda>_. True) (new_token_queue (empty_pool :: nat pool)) = Some (Some 0, q) \<and>
    t_enqueue (\<lambda>_. True) 0 7 q = Some (ok, q1) \<and>
    token_try_dequeue_bulk (fst (new_consumer_token q1)) 5 q1 = Some (els, token', q') \<and> length els = (if ok then 1 else 0)"
proof -
  obtain q where q: "new_producer_token (\<lambda>_. True) (new_token_queue (empty_pool :: nat pool)) = Some (Some 0, q)" "t_holds q [[]]"
    using one_producer by blast
  have "length (t_producers q) = 1" using t_holds_length [OF q(2)] by simp
  then have "0 < length (t_producers q)" "Suc (length ([[]] ! 0 :: nat list)) < 2 ^ 63" by simp_all
  from t_enqueue_ok [OF q(2) this, of "\<lambda>_. True" 7] obtain ok q1 where
    e: "t_enqueue (\<lambda>_. True) 0 7 q = Some (ok, q1)" "t_holds q1 [if ok then [7] else []]" by (auto split: if_splits)
  have "token_wf (length [if ok then [7 :: nat] else []]) (fst (new_consumer_token q1))" by (rule new_consumer_token_ok)
  from token_receive_complete [OF e(2) this, of 5] q(1) e(1) show ?thesis by (fastforce simp: element_count_def)
qed

end
