(* ===== verification/Cq_Race.thy ===== *)
theory Cq_Race
  imports Cq_Bulk
begin

text \<open>
  \<open>include/concurrentqueue.h\<close>: one sub-queue used by several threads at a time. The producer enqueues while
  any number of threads dequeue, singly or in bulk, and every step is one access to a shared variable of
  the sub-queue with the local computation up to the next. The four indices, and the test that compares
  them, are those of the source and the same in both kinds of producers. The blocks are seen as the index finds
  them: the element at an index, and for the base of a block how many of its elements have been dequeued completely, as long as
  the block is linked. Steps are taken in some order that all threads agree on.
\<close>

section \<open>The state that is shared\<close>

record 'a race =
  race_tail :: u64
  race_head :: u64
  race_optimistic :: u64
  race_overcommit :: u64
  race_places :: "u64 \<Rightarrow> 'a option"
  race_blocks :: "u64 \<Rightarrow> u64 option"

datatype 'a race_event =
    Published "'a list"
  | Moved nat u64 'a
  | Nothing nat

section \<open>Enqueue\<close>

text \<open>Where the producer is: out of its queue, or in an enqueue with the index of the next element, the
  elements constructed and those to construct.\<close>

datatype 'a enqueuer = Outside | Constructing u64 "'a list" "'a list"

definition begin_enqueue :: "'a list \<Rightarrow> 'a race \<Rightarrow> 'a enqueuer" where
  "begin_enqueue vs q = Constructing (race_tail q) [] vs"

fun enqueue_step :: "'a enqueuer \<Rightarrow> 'a race \<Rightarrow> 'a enqueuer \<times> 'a race \<times> 'a race_event list" where
  "enqueue_step Outside q = (Outside, q, [])"
| "enqueue_step (Constructing currentTailIndex made []) q =
     (Outside, q\<lparr>race_tail := currentTailIndex\<rparr>, [Published made])"
| "enqueue_step (Constructing currentTailIndex made (v # vs)) q =
     (Constructing (currentTailIndex + 1) (made @ [v]) vs,
      q\<lparr>race_blocks := (if currentTailIndex AND (BLOCK_SIZE - 1) = 0
          then (race_blocks q)(currentTailIndex := Some 0) else race_blocks q),
        race_places := (race_places q)(currentTailIndex := Some v)\<rparr>, [])"

section \<open>Dequeue\<close>

text \<open>What a call asks for: \<open>None\<close> is \<open>dequeue\<close>, \<open>Some most\<close> is \<open>dequeue_bulk\<close>.\<close>

definition asked :: "u64 option \<Rightarrow> u64" where
  "asked w = (case w of None \<Rightarrow> 1 | Some most \<Rightarrow> most)"

text \<open>The test of both, with how much it lets through.\<close>

definition allowance :: "u64 option \<Rightarrow> u64 \<Rightarrow> u64 \<Rightarrow> u64 option" where
  "allowance w tail dequeued =
     (case w of
        None \<Rightarrow> if circular_less_than dequeued tail then Some 1 else None
      | Some most \<Rightarrow>
          let desiredCount = tail - dequeued in
          if circular_less_than 0 desiredCount then Some (if desiredCount < most then desiredCount else most) else None)"

text \<open>Where a thread is: the local variables it has set so far. In \<open>Moving\<close> they are the first
  index in the block, the next index and the index to stop at.\<close>

datatype dequeuer =
    Idle
  | Starting "u64 option"
  | Tail_read "u64 option" u64
  | Overcommit_read "u64 option" u64 u64
  | Trying "u64 option" u64
  | Counted "u64 option" u64 u64
  | Overcommitting "u64 option" u64 u64
  | Advancing u64
  | Moving u64 u64 u64

fun dequeue_step :: "nat \<Rightarrow> dequeuer \<Rightarrow> 'a race \<Rightarrow> (dequeuer \<times> 'a race \<times> 'a race_event list) option" where
  "dequeue_step c Idle q = Some (Idle, q, [])"
| "dequeue_step c (Starting w) q = Some (Tail_read w (race_tail q), q, [])"
| "dequeue_step c (Tail_read w tail) q = Some (Overcommit_read w tail (race_overcommit q), q, [])"
| "dequeue_step c (Overcommit_read w tail overcommit) q =
     (case allowance w tail (race_optimistic q - overcommit) of
        None \<Rightarrow> Some (Idle, q, [Nothing c])
      | Some desiredCount \<Rightarrow> Some (Trying (map_option (\<lambda>_. desiredCount) w) overcommit, q, []))"
| "dequeue_step c (Trying w overcommit) q =
     Some (Counted w overcommit (race_optimistic q), q\<lparr>race_optimistic := race_optimistic q + asked w\<rparr>, [])"
| "dequeue_step c (Counted w overcommit myDequeueCount) q =
     Some (case allowance w (race_tail q) (myDequeueCount - overcommit) of
        None \<Rightarrow> Overcommitting w myDequeueCount 0
      | Some actualCount \<Rightarrow>
          if actualCount < asked w then Overcommitting w myDequeueCount actualCount else Advancing actualCount, q, [])"
| "dequeue_step c (Overcommitting w myDequeueCount actualCount) q =
     (let q = q\<lparr>race_overcommit := race_overcommit q + (asked w - actualCount)\<rparr> in
      Some (if actualCount = 0 then (Idle, q, [Nothing c]) else (Advancing actualCount, q, [])))"
| "dequeue_step c (Advancing actualCount) q =
     (let index = race_head q in
      Some (Moving index index (index + actualCount), q\<lparr>race_head := index + actualCount\<rparr>, []))"
| "dequeue_step c (Moving firstIndexInBlock index stop) q =
     (let endIndex = end_of_block firstIndexInBlock stop in
      if index \<noteq> endIndex then
        (case (race_blocks q (base_of index), race_places q index) of
           (Some _, Some v) \<Rightarrow>
             Some (Moving firstIndexInBlock (index + 1) stop, q\<lparr>race_places := (race_places q)(index := None)\<rparr>, [Moved c index v])
         | _ \<Rightarrow> None)
      else
        (case race_blocks q (base_of firstIndexInBlock) of
           None \<Rightarrow> None
         | Some prevVal \<Rightarrow>
             let count = endIndex - firstIndexInBlock in
             if prevVal + count \<le> BLOCK_SIZE then
               Some (if index = stop then Idle else Moving index index stop,
                 q\<lparr>race_blocks := (race_blocks q)(base_of firstIndexInBlock :=
                     (if prevVal + count = BLOCK_SIZE then None else Some (prevVal + count)))\<rparr>, [])
             else None))"

section \<open>All threads\<close>

record 'a racing =
  shared :: "'a race"
  enqueuer :: "'a enqueuer"
  dequeuers :: "dequeuer list"

definition race_start :: "nat \<Rightarrow> 'a racing" where
  "race_start n = \<lparr>
     shared = \<lparr>race_tail = 0, race_head = 0, race_optimistic = 0, race_overcommit = 0,
       race_places = (\<lambda>_. None), race_blocks = (\<lambda>_. None)\<rparr>,
     enqueuer = Outside, dequeuers = replicate n Idle\<rparr>"

text \<open>The states that the steps of the producer and of \<open>n\<close> threads reach, in any order, with what
  happened. The second argument counts the elements that the calls so far offered or asked for.\<close>

inductive interleaving :: "nat \<Rightarrow> nat \<Rightarrow> 'a race_event list \<Rightarrow> 'a racing \<Rightarrow> bool" for n where
  start: "interleaving n 0 [] (race_start n)"
| call_enqueue: "interleaving n k es s \<Longrightarrow> enqueuer s = Outside \<Longrightarrow>
    interleaving n (k + length vs) es (s\<lparr>enqueuer := begin_enqueue vs (shared s)\<rparr>)"
| enqueue: "interleaving n k es s \<Longrightarrow> enqueue_step (enqueuer s) (shared s) = (p, q, e) \<Longrightarrow>
    interleaving n k (es @ e) (s\<lparr>shared := q, enqueuer := p\<rparr>)"
| call_dequeue: "interleaving n k es s \<Longrightarrow> c < n \<Longrightarrow> dequeuers s ! c = Idle \<Longrightarrow> w \<noteq> Some 0 \<Longrightarrow>
    interleaving n (k + unat (asked w)) es (s\<lparr>dequeuers := (dequeuers s)[c := Starting w]\<rparr>)"
| dequeue: "interleaving n k es s \<Longrightarrow> c < n \<Longrightarrow> dequeue_step c (dequeuers s ! c) (shared s) = Some (d, q, e) \<Longrightarrow>
    interleaving n k (es @ e) (s\<lparr>shared := q, dequeuers := (dequeuers s)[c := d]\<rparr>)"

section \<open>What happened\<close>

fun published :: "'a race_event list \<Rightarrow> 'a list" where
  "published [] = []"
| "published (Published vs # es) = vs @ published es"
| "published (_ # es) = published es"

fun moves :: "'a race_event list \<Rightarrow> (nat \<times> u64 \<times> 'a) list" where
  "moves [] = []"
| "moves (Moved c i v # es) = (c, i, v) # moves es"
| "moves (_ # es) = moves es"

definition moved_by :: "nat \<Rightarrow> 'a race_event list \<Rightarrow> 'a list" where
  "moved_by c es = [v. (c', i, v) \<leftarrow> moves es, c' = c]"

lemma published_append [simp]: "published (es @ es') = published es @ published es'"
  by (induction es rule: published.induct) simp_all

lemma moves_append [simp]: "moves (es @ es') = moves es @ moves es'"
  by (induction es rule: moves.induct) simp_all

end
