(* ===== verification/Cq_Race_Tickets.thy ===== *)
theory Cq_Race_Tickets
  imports Cq_Race
begin

text \<open>
  Why the optimistic protocol is right. Every dequeue takes as many tickets as it asks for from
  the optimistic counter. A ticket wins, fails, or is still in the hands of its thread. The
  overcommit counter is the number of failed tickets that have been given back, and a thread
  subtracts only failures that are older than its own tickets. So the winners are at most the elements
  published, and the head never passes the tail.
\<close>

section \<open>Families of disjoint sets\<close>

definition parts :: "nat \<Rightarrow> 'b set \<Rightarrow> (nat \<Rightarrow> 'b set) \<Rightarrow> bool" where
  "parts n A f \<longleftrightarrow> (\<Union>i<n. f i) = A \<and> (\<forall>i<n. \<forall>j<n. i \<noteq> j \<longrightarrow> f i \<inter> f j = {})"

lemma parts_update:
  assumes "parts n A f" "i < n" "B \<inter> (A - f i) = {}" "\<And>j. j < n \<Longrightarrow> g j = (if j = i then B else f j)"
  shows "parts n (A - f i \<union> B) g"
proof -
  have d: "\<forall>j<n. \<forall>l<n. j \<noteq> l \<longrightarrow> f j \<inter> f l = {}" and u: "(\<Union>j<n. f j) = A" using assms(1) by (auto simp: parts_def)
  have out: "f j \<subseteq> A - f i" if "j < n" "j \<noteq> i" for j using d u assms(2) that by blast
  have "(\<Union>j<n. g j) = B \<union> (\<Union>j\<in>{..<n} - {i}. f j)"
    using assms(2,4) by (auto split: if_splits)
  also have "(\<Union>j\<in>{..<n} - {i}. f j) = A - f i" using out u assms(2) by blast
  finally have "(\<Union>j<n. g j) = A - f i \<union> B" by blast
  moreover have "g j \<inter> g l = {}" if "j < n" "l < n" "j \<noteq> l" for j l
    using assms(3,4) d out that by (cases "j = i"; cases "l = i") (simp_all, blast+)
  ultimately show ?thesis by (simp add: parts_def)
qed

lemma parts_same:
  assumes "parts n A f" "\<And>j. j < n \<Longrightarrow> g j = f j"
  shows "parts n A g"
  using assms by (simp add: parts_def)

lemma parts_subset: "parts n A f \<Longrightarrow> i < n \<Longrightarrow> f i \<subseteq> A"
  by (auto simp: parts_def)

lemma sum_list_update:
  assumes "c < n" "length ds = n"
  shows "(\<Sum>i<n. g (ds[c := d] ! i)) + g (ds ! c) = (\<Sum>i<n. g (ds ! i)) + (g d :: nat)"
proof -
  have c: "c \<in> {..<n}" using assms(1) by simp
  have "(\<Sum>i\<in>{..<n} - {c}. g (ds[c := d] ! i)) = (\<Sum>i\<in>{..<n} - {c}. g (ds ! i))" by (rule sum.cong) auto
  then show ?thesis using sum.remove [OF _ c, of "\<lambda>i. g (ds ! i)"] sum.remove [OF _ c, of "\<lambda>i. g (ds[c := d] ! i)"] assms
    by simp
qed

section \<open>The words\<close>

lemma allowance_None:
  assumes "unat overcommit \<le> unat count" "unat tail < 2 ^ 63" "unat count < 2 ^ 63" "w \<noteq> Some 0"
  shows "allowance w tail (count - overcommit) = None \<longleftrightarrow> unat tail \<le> unat count - unat overcommit"
proof -
  have c: "unat (count - overcommit) = unat count - unat overcommit" using assms(1) by (simp add: unat_sub_if')
  then have d: "unat (count - overcommit) < 2 ^ 63" using assms(3) by linarith
  have lt: "circular_less_than (count - overcommit) tail \<longleftrightarrow> unat (count - overcommit) < unat tail"
    if "unat (count - overcommit) < 2 ^ 63" for count overcommit :: u64
    using that assms(2) by (auto simp: circular_less_than_unat unat_sub_if')
  show ?thesis
  proof (cases w)
    case None
    then show ?thesis using lt [OF d] c by (auto simp: allowance_def)
  next
    case (Some most)
    have "circular_less_than 0 (tail - (count - overcommit)) \<longleftrightarrow> unat (count - overcommit) < unat tail"
      using d assms(2) by (auto simp: circular_less_than_unat unat_sub_if')
    with Some c show ?thesis by (auto simp: allowance_def Let_def)
  qed
qed

lemma allowance_Some:
  assumes "unat overcommit \<le> unat count" "unat tail < 2 ^ 63" "unat count < 2 ^ 63" "w \<noteq> Some 0"
    and "allowance w tail (count - overcommit) = Some m"
  shows "0 < unat m \<and> unat m = min (unat (asked w)) (unat tail - (unat count - unat overcommit))"
proof -
  have lt: "unat count - unat overcommit < unat tail" using allowance_None [OF assms(1-4)] assms(5) by auto
  have c: "unat (count - overcommit) = unat count - unat overcommit" using assms(1) by (simp add: unat_sub_if')
  then have d: "unat (tail - (count - overcommit)) = unat tail - (unat count - unat overcommit)"
    using lt by (simp add: unat_sub_if')
  show ?thesis
  proof (cases w)
    case None
    then show ?thesis using assms(5) lt by (auto simp: allowance_def asked_def split: if_splits)
  next
    case (Some most)
    then have "0 < unat most" using assms(4) by (simp add: unat_gt_0)
    with Some show ?thesis using assms(5) lt d
      by (auto simp: allowance_def asked_def Let_def word_less_nat_alt split: if_splits)
  qed
qed

section \<open>Tickets\<close>

text \<open>The tickets a thread holds, the elements it has won and not yet claimed, and the tickets it may still take.\<close>

fun tickets :: "dequeuer \<Rightarrow> nat set" where
  "tickets (Counted w overcommit my) = {unat my ..< unat my + unat (asked w)}"
| "tickets (Overcommitting w my actual) = {unat my + unat actual ..< unat my + unat (asked w)}"
| "tickets _ = {}"

fun unclaimed :: "dequeuer \<Rightarrow> nat" where
  "unclaimed (Overcommitting w my actual) = unat actual"
| "unclaimed (Advancing actual) = unat actual"
| "unclaimed _ = 0"

fun to_ask :: "dequeuer \<Rightarrow> nat" where
  "to_ask (Starting w) = unat (asked w)"
| "to_ask (Tail_read w tail) = unat (asked w)"
| "to_ask (Overcommit_read w tail overcommit) = unat (asked w)"
| "to_ask (Trying w overcommit) = unat (asked w)"
| "to_ask _ = 0"

fun dequeuer_ok :: "nat set \<Rightarrow> 'a race \<Rightarrow> dequeuer \<Rightarrow> bool" where
  "dequeuer_ok F q Idle \<longleftrightarrow> True"
| "dequeuer_ok F q (Starting w) \<longleftrightarrow> w \<noteq> Some 0"
| "dequeuer_ok F q (Tail_read w tail) \<longleftrightarrow> w \<noteq> Some 0 \<and> unat tail \<le> unat (race_tail q)"
| "dequeuer_ok F q (Overcommit_read w tail overcommit) \<longleftrightarrow>
     w \<noteq> Some 0 \<and> unat tail \<le> unat (race_tail q) \<and> unat overcommit \<le> unat (race_overcommit q)"
| "dequeuer_ok F q (Trying w overcommit) \<longleftrightarrow> w \<noteq> Some 0 \<and> unat overcommit \<le> unat (race_overcommit q)"
| "dequeuer_ok F q (Counted w overcommit my) \<longleftrightarrow> w \<noteq> Some 0 \<and> unat overcommit \<le> card (F \<inter> {..<unat my})"
| "dequeuer_ok F q (Overcommitting w my actual) \<longleftrightarrow> unat actual < unat (asked w)"
| "dequeuer_ok F q (Advancing actual) \<longleftrightarrow> actual \<noteq> 0"
| "dequeuer_ok F q (Moving first index stop) \<longleftrightarrow> True"

fun to_publish :: "'a enqueuer \<Rightarrow> nat" where
  "to_publish Outside = 0"
| "to_publish (Constructing i made vs) = length made + length vs"

fun enqueuer_ok :: "'a race \<Rightarrow> 'a enqueuer \<Rightarrow> bool" where
  "enqueuer_ok q Outside \<longleftrightarrow> True"
| "enqueuer_ok q (Constructing i made vs) \<longleftrightarrow> i = race_tail q + of_nat (length made)"

definition ticket_inv :: "nat \<Rightarrow> nat \<Rightarrow> nat set \<Rightarrow> nat set \<Rightarrow> 'a racing \<Rightarrow> bool" where
  "ticket_inv n k S F s \<longleftrightarrow>
     length (dequeuers s) = n \<and>
     S \<subseteq> {..<unat (race_optimistic (shared s))} \<and> F \<subseteq> {..<unat (race_optimistic (shared s))} \<and> S \<inter> F = {} \<and>
     parts n ({..<unat (race_optimistic (shared s))} - S - F) (\<lambda>c. tickets (dequeuers s ! c)) \<and>
     card F = unat (race_overcommit (shared s)) \<and>
     card S = unat (race_head (shared s)) + (\<Sum>c<n. unclaimed (dequeuers s ! c)) \<and>
     (\<forall>t\<in>S. t < unat (race_tail (shared s)) + card (F \<inter> {..<t})) \<and>
     (\<forall>c<n. dequeuer_ok F (shared s) (dequeuers s ! c)) \<and>
     unat (race_optimistic (shared s)) + (\<Sum>c<n. to_ask (dequeuers s ! c)) \<le> k \<and>
     enqueuer_ok (shared s) (enqueuer s) \<and> unat (race_tail (shared s)) + to_publish (enqueuer s) \<le> k"

lemma winners_le_tail:
  assumes "ticket_inv n k S F s"
  shows "card S \<le> unat (race_tail (shared s))"
proof (cases "S = {}")
  case False
  have fin: "finite S" using assms by (auto simp: ticket_inv_def intro: finite_subset)
  define t where "t = Max S"
  have t: "t \<in> S" "S \<subseteq> {..t}" using fin False by (auto simp: t_def)
  have "t \<notin> F" "S \<inter> F = {}" using assms t(1) by (auto simp: ticket_inv_def)
  have "card S + card (F \<inter> {..<t}) = card (S \<union> F \<inter> {..<t})"
    using fin \<open>S \<inter> F = {}\<close> by (subst card_Un_disjoint) auto
  also have "\<dots> \<le> card {..t}" using t(2) by (intro card_mono) auto
  finally have "card S + card (F \<inter> {..<t}) \<le> Suc t" by simp
  moreover have "t < unat (race_tail (shared s)) + card (F \<inter> {..<t})" using assms t(1) by (simp add: ticket_inv_def)
  ultimately show ?thesis by linarith
qed simp

lemma head_le_tail:
  "ticket_inv n k S F s \<Longrightarrow> unat (race_head (shared s)) + (\<Sum>c<n. unclaimed (dequeuers s ! c)) \<le> unat (race_tail (shared s))"
  using winners_le_tail [of n k S F s] by (simp add: ticket_inv_def)

lemma ticket_inv_start: "ticket_inv n 0 {} {} (race_start n)"
  by (simp add: ticket_inv_def race_start_def parts_def)

lemma dequeuer_ok_mono:
  assumes "dequeuer_ok F q d" "unat (race_tail q) \<le> unat (race_tail q')" "unat (race_overcommit q) \<le> unat (race_overcommit q')"
    and "F \<subseteq> F'" "finite F'"
  shows "dequeuer_ok F' q' d"
proof -
  have "card (F \<inter> A) \<le> card (F' \<inter> A)" for A using assms(4,5) by (intro card_mono) auto
  then show ?thesis using assms(1-3) by (cases d) (auto intro: le_trans)
qed

text \<open>A step of one thread: what it has to show.\<close>

lemma ticket_inv_update:
  fixes s :: "'a racing"
  assumes inv: "ticket_inv n k S F s" and c: "c < n"
    and q: "race_tail q = race_tail (shared s)" "unat (race_overcommit (shared s)) \<le> unat (race_overcommit q)"
    and S: "S' \<subseteq> {..<unat (race_optimistic q)}" "F \<subseteq> F'" "F' \<subseteq> {..<unat (race_optimistic q)}" "S' \<inter> F' = {}"
    and A: "{..<unat (race_optimistic q)} - S' - F' =
      {..<unat (race_optimistic (shared s))} - S - F - tickets (dequeuers s ! c) \<union> tickets d"
      "tickets d \<inter> ({..<unat (race_optimistic (shared s))} - S - F - tickets (dequeuers s ! c)) = {}"
    and F: "card F' = unat (race_overcommit q)"
    and H: "card S' + unat (race_head (shared s)) + unclaimed (dequeuers s ! c) = card S + unat (race_head q) + unclaimed d"
    and t: "\<And>t. t \<in> S' \<Longrightarrow> t < unat (race_tail q) + card (F' \<inter> {..<t})"
    and d: "dequeuer_ok F' q d"
    and k: "unat (race_optimistic q) + to_ask d \<le> unat (race_optimistic (shared s)) + to_ask (dequeuers s ! c) + l"
  shows "ticket_inv n (k + l) S' F' (s\<lparr>shared := q, dequeuers := (dequeuers s)[c := d]\<rparr>)"
proof -
  let ?ds = "dequeuers s"
  have len: "length ?ds = n" using inv by (simp add: ticket_inv_def)
  have fin: "finite F'" using S(3) finite_subset by blast
  have p: "parts n ({..<unat (race_optimistic (shared s))} - S - F) (\<lambda>c. tickets (?ds ! c))" using inv by (simp add: ticket_inv_def)
  have "parts n ({..<unat (race_optimistic q)} - S' - F') (\<lambda>j. tickets (?ds[c := d] ! j))"
    unfolding A(1) by (rule parts_update [OF p c A(2)]) (use len in \<open>auto simp: nth_list_update\<close>)
  moreover have "\<forall>j<n. dequeuer_ok F' q (?ds[c := d] ! j)"
  proof (intro allI impI)
    fix j assume "j < n"
    with inv have "dequeuer_ok F (shared s) (?ds ! j)" by (simp add: ticket_inv_def)
    from dequeuer_ok_mono [OF this _ q(2) S(2) fin] q(1) have "dequeuer_ok F' q (?ds ! j)" by simp
    then show "dequeuer_ok F' q (?ds[c := d] ! j)" using d len c by (cases "j = c") auto
  qed
  moreover have "(\<Sum>j<n. unclaimed (?ds[c := d] ! j)) + unclaimed (?ds ! c) = (\<Sum>j<n. unclaimed (?ds ! j)) + unclaimed d"
    "(\<Sum>j<n. to_ask (?ds[c := d] ! j)) + to_ask (?ds ! c) = (\<Sum>j<n. to_ask (?ds ! j)) + to_ask d"
    by (rule sum_list_update [OF c len])+
  moreover have "enqueuer_ok q (enqueuer s)" using inv q(1) by (cases "enqueuer s") (simp_all add: ticket_inv_def)
  ultimately show ?thesis using inv S F H t k q(1) unfolding ticket_inv_def by simp
qed

text \<open>Steps that take no tickets and judge none.\<close>

lemma ticket_inv_local:
  assumes "ticket_inv n k S F s" "c < n"
    and "race_tail q = race_tail (shared s)" "race_overcommit q = race_overcommit (shared s)"
      "race_optimistic q = race_optimistic (shared s)"
    and "tickets d = tickets (dequeuers s ! c)"
    and "unat (race_head (shared s)) + unclaimed (dequeuers s ! c) = unat (race_head q) + unclaimed d"
    and "dequeuer_ok F q d" "to_ask d \<le> to_ask (dequeuers s ! c) + l"
  shows "ticket_inv n (k + l) S F (s\<lparr>shared := q, dequeuers := (dequeuers s)[c := d]\<rparr>)"
proof (rule ticket_inv_update [OF assms(1,2)])
  have "tickets (dequeuers s ! c) \<subseteq> {..<unat (race_optimistic (shared s))} - S - F"
    using assms(1,2) parts_subset unfolding ticket_inv_def by blast
  then show "{..<unat (race_optimistic q)} - S - F =
      {..<unat (race_optimistic (shared s))} - S - F - tickets (dequeuers s ! c) \<union> tickets d"
    unfolding assms(5,6) by blast
qed (use assms in \<open>auto simp: ticket_inv_def\<close>)

section \<open>Every step keeps the tickets\<close>

lemma race_bounds:
  assumes "ticket_inv n k S F s" "k < 2 ^ 63"
  shows "unat (race_optimistic (shared s)) < 2 ^ 63" "unat (race_tail (shared s)) < 2 ^ 63"
    "unat (race_head (shared s)) \<le> unat (race_tail (shared s))" "unat (race_overcommit (shared s)) \<le> unat (race_optimistic (shared s))"
proof -
  have "card F \<le> card {..<unat (race_optimistic (shared s))}" using assms(1) by (intro card_mono) (auto simp: ticket_inv_def)
  then show "unat (race_overcommit (shared s)) \<le> unat (race_optimistic (shared s))" using assms(1) by (simp add: ticket_inv_def)
qed (use assms head_le_tail [OF assms(1)] in \<open>auto simp: ticket_inv_def\<close>)

lemma step_trying:
  assumes inv: "ticket_inv n k S F s" and k: "k < 2 ^ 63" and c: "c < n"
    and d: "dequeuers s ! c = Trying w overcommit"
  shows "ticket_inv n (k + 0) S F (s\<lparr>shared := (shared s)\<lparr>race_optimistic := race_optimistic (shared s) + asked w\<rparr>,
    dequeuers := (dequeuers s)[c := Counted w overcommit (race_optimistic (shared s))]\<rparr>)"
proof -
  let ?O = "unat (race_optimistic (shared s))"
  have "to_ask (dequeuers s ! c) \<le> (\<Sum>i<n. to_ask (dequeuers s ! i))"
    using c by (intro member_le_sum) auto
  moreover have "?O + (\<Sum>i<n. to_ask (dequeuers s ! i)) \<le> k" using inv by (simp add: ticket_inv_def)
  ultimately have "?O + unat (asked w) < 2 ^ 63" using k d by simp
  then have o: "unat (race_optimistic (shared s) + asked w) = ?O + unat (asked w)" by (subst unat_add_lem [THEN iffD1]) simp_all
  have sub: "S \<subseteq> {..<?O}" "F \<subseteq> {..<?O}" "S \<inter> F = {}" using inv by (auto simp: ticket_inv_def)
  have F: "F \<inter> {..<?O} = F" using sub by blast
  have ok: "dequeuer_ok F (shared s) (Trying w overcommit)" using inv c d by (auto simp: ticket_inv_def)
  have ivl: "{..<?O + unat (asked w)} = {..<?O} \<union> {?O..<?O + unat (asked w)}" by auto
  show ?thesis
  proof (rule ticket_inv_update [OF inv c])
    show "dequeuer_ok F ((shared s)\<lparr>race_optimistic := race_optimistic (shared s) + asked w\<rparr>) (Counted w overcommit (race_optimistic (shared s)))"
      using ok inv by (simp add: F ticket_inv_def)
    show "{..<unat (race_optimistic ((shared s)\<lparr>race_optimistic := race_optimistic (shared s) + asked w\<rparr>))} - S - F =
      {..<?O} - S - F - tickets (dequeuers s ! c) \<union> tickets (Counted w overcommit (race_optimistic (shared s)))"
      using sub by (simp add: d o ivl) fastforce
  qed (use assms o sub in \<open>auto simp: ticket_inv_def\<close>)
qed

text \<open>Judging the tickets: those below the tail, corrected by the failures known, win.\<close>

lemma step_counted:
  assumes inv: "ticket_inv n k S F s" and k: "k < 2 ^ 63" and c: "c < n"
    and d: "dequeuers s ! c = Counted w overcommit my"
    and step: "dequeue_step c (Counted w overcommit my) (shared s) = Some (d', q, e)"
  shows "\<exists>S'. ticket_inv n (k + 0) S' F (s\<lparr>shared := q, dequeuers := (dequeuers s)[c := d']\<rparr>)"
proof -
  let ?O = "unat (race_optimistic (shared s))" and ?T = "unat (race_tail (shared s))"
  have q: "q = shared s" using step by simp
  have ok: "w \<noteq> Some 0" "unat overcommit \<le> card (F \<inter> {..<unat my})" using inv c d by (auto simp: ticket_inv_def)
  have sub: "S \<subseteq> {..<?O}" "F \<subseteq> {..<?O}" "S \<inter> F = {}" using inv by (auto simp: ticket_inv_def)
  have own: "tickets (dequeuers s ! c) \<subseteq> {..<?O} - S - F" using inv c parts_subset unfolding ticket_inv_def by blast
  have own': "{unat my..<unat my + unat (asked w)} \<subseteq> {..<?O} - S - F" using own d by simp
  have asked: "0 < unat (asked w)" using ok(1) by (cases w) (auto simp: asked_def unat_gt_0)
  then have my: "unat my < ?O" using own' by (auto simp: subset_iff)
  have "card (F \<inter> {..<unat my}) \<le> card {..<unat my}" by (intro card_mono) auto
  then have oc: "unat overcommit \<le> unat my" using ok(2) by simp
  have bounds: "?T < 2 ^ 63" "unat my < 2 ^ 63" using race_bounds [OF inv k] my by simp_all
  define a where "a = (case allowance w (race_tail (shared s)) (my - overcommit) of None \<Rightarrow> 0 | Some m \<Rightarrow> m)"
  have d': "d' = (if a < asked w then Overcommitting w my a else Advancing a)"
    using step asked by (auto simp: a_def word_less_nat_alt split: option.splits)
  have a: "unat a \<le> unat (asked w)" "0 < unat a \<Longrightarrow> unat my + unat a \<le> ?T + unat overcommit"
    using allowance_None [OF oc bounds ok(1)] allowance_Some [OF oc bounds ok(1)] oc
    by (auto simp: a_def split: option.splits)
  let ?W = "{unat my..<unat my + unat a}"
  have "?W \<subseteq> {unat my..<unat my + unat (asked w)}" using a(1) by auto
  then have W: "?W \<subseteq> {..<?O} - S - F" using own' by blast
  have tickets: "tickets d' = {unat my + unat a..<unat my + unat (asked w)}" and un: "unclaimed d' = unat a"
    and dok: "dequeuer_ok F q d'" and ask: "to_ask d' = 0"
    using a(1) asked by (auto simp: d' word_less_nat_alt not_less unat_eq_0)
  have split: "{unat my..<unat my + unat (asked w)} = ?W \<union> tickets d'" "?W \<inter> tickets d' = {}" using a(1) tickets by auto
  have "ticket_inv n (k + 0) (S \<union> ?W) F (s\<lparr>shared := q, dequeuers := (dequeuers s)[c := d']\<rparr>)"
  proof (rule ticket_inv_update [OF inv c])
    show "{..<unat (race_optimistic q)} - (S \<union> ?W) - F = {..<?O} - S - F - tickets (dequeuers s ! c) \<union> tickets d'"
      using own' split W by (simp add: d q) blast
    have "card (S \<union> ?W) = card S + card ?W" using W sub(1) finite_subset [of S] by (intro card_Un_disjoint) auto
    then show "card (S \<union> ?W) + unat (race_head (shared s)) + unclaimed (dequeuers s ! c) = card S + unat (race_head q) + unclaimed d'"
      by (simp add: d q un)
    fix t assume "t \<in> S \<union> ?W"
    then show "t < unat (race_tail q) + card (F \<inter> {..<t})"
    proof
      assume t: "t \<in> ?W"
      then have "F \<inter> {..<unat my} \<subseteq> F \<inter> {..<t}" by auto
      then have "card (F \<inter> {..<unat my}) \<le> card (F \<inter> {..<t})" by (intro card_mono) auto
      then show ?thesis using t a(2) ok(2) by (simp add: q)
    qed (use inv in \<open>simp add: q ticket_inv_def\<close>)
  qed (use sub W split dok ask inv in \<open>auto simp: q d ticket_inv_def\<close>)
  then show ?thesis ..
qed

lemma step_overcommitting:
  assumes inv: "ticket_inv n k S F s" and k: "k < 2 ^ 63" and c: "c < n"
    and d: "dequeuers s ! c = Overcommitting w my actual"
    and step: "dequeue_step c (Overcommitting w my actual) (shared s) = Some (d', q, e)"
  shows "\<exists>F'. ticket_inv n (k + 0) S F' (s\<lparr>shared := q, dequeuers := (dequeuers s)[c := d']\<rparr>)"
proof -
  let ?O = "unat (race_optimistic (shared s))" and ?V = "unat (race_overcommit (shared s))"
  let ?L = "{unat my + unat actual..<unat my + unat (asked w)}"
  have q: "q = (shared s)\<lparr>race_overcommit := race_overcommit (shared s) + (asked w - actual)\<rparr>"
    and d': "d' = (if actual = 0 then Idle else Advancing actual)"
    using step by (auto simp: Let_def split: if_splits)
  have ok: "unat actual < unat (asked w)" using inv c d by (auto simp: ticket_inv_def)
  have sub: "S \<subseteq> {..<?O}" "F \<subseteq> {..<?O}" "S \<inter> F = {}" "card F = ?V" using inv by (auto simp: ticket_inv_def)
  have own: "tickets (dequeuers s ! c) \<subseteq> {..<?O} - S - F" using inv c parts_subset unfolding ticket_inv_def by blast
  then have L: "?L \<subseteq> {..<?O} - S - F" using d by simp
  have fin: "finite F" using sub(2) finite_subset by blast
  have cF: "card (F \<union> ?L) = ?V + (unat (asked w) - unat actual)"
    using L sub(4) fin by (subst card_Un_disjoint) auto
  moreover have "card (F \<union> ?L) \<le> card {..<?O}" using L sub(2) by (intro card_mono) auto
  ultimately have "?V + unat (asked w - actual) < 2 ^ 64"
    using race_bounds(1) [OF inv k] ok by (simp add: unat_sub_if')
  then have V: "unat (race_overcommit q) = ?V + (unat (asked w) - unat actual)"
    using ok by (simp add: q unat_add_lem [THEN iffD1] unat_sub_if')
  have t': "t < unat (race_tail (shared s)) + card ((F \<union> ?L) \<inter> {..<t})" if "t \<in> S" for t
  proof -
    have "card (F \<inter> {..<t}) \<le> card ((F \<union> ?L) \<inter> {..<t})" using fin by (intro card_mono) auto
    then show ?thesis using inv that unfolding ticket_inv_def by (meson le_trans add_le_cancel_left less_le_trans)
  qed
  have "ticket_inv n (k + 0) S (F \<union> ?L) (s\<lparr>shared := q, dequeuers := (dequeuers s)[c := d']\<rparr>)"
  proof (rule ticket_inv_update [OF inv c])
    show "{..<unat (race_optimistic q)} - S - (F \<union> ?L) = {..<?O} - S - F - tickets (dequeuers s ! c) \<union> tickets d'"
      by (auto simp: d d' q)
    show "card (F \<union> ?L) = unat (race_overcommit q)" by (simp only: cF V)
  qed (use sub L V t' in \<open>auto simp: q d d'\<close>)
  then show ?thesis ..
qed

lemma step_advancing:
  assumes inv: "ticket_inv n k S F s" and k: "k < 2 ^ 63" and c: "c < n"
    and d: "dequeuers s ! c = Advancing actual"
    and step: "dequeue_step c (Advancing actual) (shared s) = Some (d', q, e)"
  shows "ticket_inv n (k + 0) S F (s\<lparr>shared := q, dequeuers := (dequeuers s)[c := d']\<rparr>) \<and>
    unat (race_head q) = unat (race_head (shared s)) + unat actual \<and> unat (race_head q) \<le> unat (race_tail (shared s))"
proof -
  have q: "q = (shared s)\<lparr>race_head := race_head (shared s) + actual\<rparr>"
    and d': "d' = Moving (race_head (shared s)) (race_head (shared s)) (race_head (shared s) + actual)"
    using step by (auto simp: Let_def)
  have "unclaimed (dequeuers s ! c) \<le> (\<Sum>i<n. unclaimed (dequeuers s ! i))"
    using c by (intro member_le_sum) auto
  then have le: "unat (race_head (shared s)) + unat actual \<le> unat (race_tail (shared s))"
    using head_le_tail [OF inv] d by simp
  then have H: "unat (race_head q) = unat (race_head (shared s)) + unat actual"
    using race_bounds(2) [OF inv k] by (simp add: q unat_add_lem [THEN iffD1])
  have "ticket_inv n (k + 0) S F (s\<lparr>shared := q, dequeuers := (dequeuers s)[c := d']\<rparr>)"
    by (rule ticket_inv_local [OF inv c]) (use d d' H in \<open>simp_all add: q\<close>)
  with H le show ?thesis by simp
qed

text \<open>Every step of a thread.\<close>

lemma ticket_inv_dequeue:
  assumes inv: "ticket_inv n k S F s" and k: "k < 2 ^ 63" and c: "c < n"
    and step: "dequeue_step c (dequeuers s ! c) (shared s) = Some (d, q, e)"
  shows "\<exists>S F. ticket_inv n k S F (s\<lparr>shared := q, dequeuers := (dequeuers s)[c := d]\<rparr>)"
proof -
  have ok: "dequeuer_ok F (shared s) (dequeuers s ! c)" using inv c by (simp add: ticket_inv_def)
  have local: ?thesis
    if "race_tail q = race_tail (shared s)" "race_overcommit q = race_overcommit (shared s)"
      "race_optimistic q = race_optimistic (shared s)" "race_head q = race_head (shared s)"
      "tickets d = tickets (dequeuers s ! c)" "unclaimed d = unclaimed (dequeuers s ! c)"
      "dequeuer_ok F q d" "to_ask d \<le> to_ask (dequeuers s ! c)"
    using ticket_inv_local [OF inv c that(1-3,5) _ that(7), of 0] that(4,6,8) by auto
  show ?thesis
  proof (cases "dequeuers s ! c")
    case (Overcommit_read w tail overcommit)
    have w: "w \<noteq> Some 0" "unat tail \<le> unat (race_tail (shared s))" "unat overcommit \<le> unat (race_overcommit (shared s))"
      using ok Overcommit_read by auto
    note b = race_bounds [OF inv k]
    show ?thesis
    proof (cases "allowance w tail (race_optimistic (shared s) - overcommit)")
      case (Some m)
      have m: "0 < unat m" "unat m \<le> unat (asked w)"
        using allowance_Some [OF _ _ b(1) w(1) Some] w b by linarith+
      show ?thesis by (rule local)
        (use step Some Overcommit_read m w in \<open>auto simp: asked_def split: option.splits\<close>)
    qed (rule local, use step Overcommit_read in auto)
  next
    case (Trying w overcommit)
    then show ?thesis using step_trying [OF inv k c Trying] step by auto
  next
    case (Counted w overcommit my)
    then show ?thesis using step_counted [OF inv k c Counted] step by fastforce
  next
    case (Overcommitting w my actual)
    then show ?thesis using step_overcommitting [OF inv k c Overcommitting] step by fastforce
  next
    case (Advancing actual)
    then show ?thesis using step_advancing [OF inv k c Advancing] step by fastforce
  next
    case (Moving first index stop)
    show ?thesis by (rule local) (use step Moving in \<open>auto simp: Let_def split: if_splits option.splits\<close>)
  next
    case Idle
    show ?thesis by (rule local) (use step Idle in auto)
  next
    case (Starting w)
    show ?thesis by (rule local) (use step ok Starting in auto)
  next
    case (Tail_read w tail)
    show ?thesis by (rule local) (use step ok Tail_read in auto)
  qed
qed

lemma ticket_inv_call:
  assumes inv: "ticket_inv n k S F s" and c: "c < n" "dequeuers s ! c = Idle" "w \<noteq> Some 0"
  shows "ticket_inv n (k + unat (asked w)) S F (s\<lparr>dequeuers := (dequeuers s)[c := Starting w]\<rparr>)"
  using ticket_inv_local [OF inv c(1), of "shared s" "Starting w" "unat (asked w)"] c by simp

lemma ticket_inv_call_enqueue:
  "ticket_inv n k S F s \<Longrightarrow> enqueuer s = Outside \<Longrightarrow>
    ticket_inv n (k + length vs) S F (s\<lparr>enqueuer := begin_enqueue vs (shared s)\<rparr>)"
  by (simp add: ticket_inv_def begin_enqueue_def)

lemma ticket_inv_enqueue:
  assumes inv: "ticket_inv n k S F s" and k: "k < 2 ^ 63"
    and step: "enqueue_step (enqueuer s) (shared s) = (p, q, e)"
  shows "ticket_inv n k S F (s\<lparr>shared := q, enqueuer := p\<rparr>)"
proof (cases "(enqueuer s, shared s)" rule: enqueue_step.cases)
  case (2 i made q')
  have i: "i = race_tail (shared s) + of_nat (length made)" "unat (race_tail (shared s)) + length made \<le> k"
    using inv 2 by (simp_all add: ticket_inv_def)
  then have T: "unat i = unat (race_tail (shared s)) + length made"
    using k by (simp add: unat_add_lem [THEN iffD1] unat_of_nat_u64)
  have q: "q = (shared s)\<lparr>race_tail := i\<rparr>" "p = Outside" using step 2 by simp_all
  have fin: "finite F" using inv finite_subset by (auto simp: ticket_inv_def)
  have "dequeuer_ok F q (dequeuers s ! c)" if "c < n" for c
    by (rule dequeuer_ok_mono [of F "shared s"]) (use inv that T fin in \<open>simp_all add: q ticket_inv_def\<close>)
  moreover have "t < unat i + card (F \<inter> {..<t})" if "t \<in> S" for t
  proof -
    have "t < unat (race_tail (shared s)) + card (F \<inter> {..<t})" using inv that by (simp add: ticket_inv_def)
    then show ?thesis using T by linarith
  qed
  ultimately show ?thesis using inv i(2) T unfolding ticket_inv_def by (simp add: q)
next
  case (3 i made v vs q')
  then have q: "race_tail q = race_tail (shared s)" "race_head q = race_head (shared s)"
    "race_optimistic q = race_optimistic (shared s)" "race_overcommit q = race_overcommit (shared s)"
    "p = Constructing (i + 1) (made @ [v]) vs" using step by auto
  have fin: "finite F" using inv finite_subset by (auto simp: ticket_inv_def)
  have "dequeuer_ok F q (dequeuers s ! c)" if "c < n" for c
    by (rule dequeuer_ok_mono [of F "shared s"]) (use inv that fin in \<open>simp_all add: q ticket_inv_def\<close>)
  then show ?thesis using inv 3 unfolding ticket_inv_def by (simp add: q)
qed (use inv step in \<open>simp add: ticket_inv_def\<close>)

end
