(* ===== verification/Cq_Race_Places.thy ===== *)
theory Cq_Race_Places
  imports Cq_Race_Tickets
begin

text \<open>
  What the tickets protect: the places of the elements and the counters of their blocks. An index below the head belongs
  to the one thread that advanced the head past it, until its block is told that the element is gone. So
  that thread finds the element and the block, and the last of a block's threads gives it back.
\<close>

section \<open>Blocks of indices\<close>

lemma base_of_nat:
  assumes "i < 2 ^ 63"
  shows "base_of (of_nat i) = of_nat (32 * (i div 32))"
proof -
  have s: "slot_of (of_nat i) = i mod 32" using assms by (simp add: slot_of_mod unat_of_nat_u64)
  have "of_nat i = (of_nat (32 * (i div 32) + i mod 32) :: u64)" by simp
  also have "\<dots> = of_nat (32 * (i div 32)) + of_nat (i mod 32)" by (rule of_nat_add)
  finally show ?thesis using s by (simp only: base_of_eq) (metis add_diff_cancel_right')
qed

lemma unat_end_of_block:
  assumes "unat i < unat stop" "unat stop < 2 ^ 63"
  shows "unat (end_of_block i stop) = min (unat stop) (32 * (unat i div 32) + 32)"
proof -
  have stop: "stop = i + of_nat (unat stop - unat i)" using assms(1) by (simp add: of_nat_diff)
  have "unat stop - unat i < 2 ^ 63" using assms by linarith
  from end_of_block_eq [OF this, of i] have e: "end_of_block i stop = i + of_nat (min (unat stop - unat i) (32 - slot_of i))"
    using stop by simp
  let ?m = "min (unat stop - unat i) (32 - slot_of i)"
  have "?m \<le> unat stop - unat i" by simp
  then have "unat i + ?m < 2 ^ 63" using assms by linarith
  then have "unat i + ?m < 2 ^ 64" by simp
  then have "unat (end_of_block i stop) = unat i + ?m" unfolding e by (rule unat_add_small)
  moreover have "unat i + ?m = min (unat stop) (unat i + (32 - unat i mod 32))"
    unfolding slot_of_mod using assms(1) by linarith
  moreover have "unat i + (32 - unat i mod 32) = 32 * (unat i div 32) + 32"
    using mult_div_mod_eq [of 32 "unat i"] mod_less_divisor [of 32 "unat i"] by linarith
  ultimately show ?thesis by simp
qed

lemma of_nat_u64_inj:
  assumes "i < 2 ^ 63" "j < 2 ^ 63"
  shows "(of_nat i :: u64) = of_nat j \<longleftrightarrow> i = j"
proof -
  have "unat (of_nat i :: u64) = i" "unat (of_nat j :: u64) = j" using assms by (auto intro: unat_of_nat_u64)
  then show ?thesis by metis
qed

section \<open>Stored elements\<close>

text \<open>The elements \<open>vs\<close> were constructed; those at the indices \<open>R\<close> were moved out, and the
  blocks know of \<open>M\<close>.\<close>

definition stored :: "'a list \<Rightarrow> nat set \<Rightarrow> nat set \<Rightarrow> 'a race \<Rightarrow> bool" where
  "stored vs R M q \<longleftrightarrow>
     (\<forall>i < length vs. race_places q (of_nat i) = (if i \<in> R then None else Some (vs ! i))) \<and>
     (\<forall>b. 32 * b < length vs \<longrightarrow> race_blocks q (of_nat (32 * b)) =
        (if card (M \<inter> {32 * b..<32 * b + 32}) = 32 then None else Some (of_nat (card (M \<inter> {32 * b..<32 * b + 32})))))"

lemma stored_cong: "stored vs R M q \<Longrightarrow> race_places q' = race_places q \<Longrightarrow> race_blocks q' = race_blocks q \<Longrightarrow> stored vs R M q'"
  by (simp add: stored_def)

lemma stored_construct:
  assumes st: "stored vs R M q" and len: "Suc (length vs) < 2 ^ 63" and R: "R \<subseteq> {..<length vs}" "M \<subseteq> {..<length vs}"
    and q': "race_places q' = (race_places q)(of_nat (length vs) := Some v)"
      "race_blocks q' = (if of_nat (length vs) AND (31 :: u64) = 0 then (race_blocks q)(of_nat (length vs) := Some 0) else race_blocks q)"
  shows "stored (vs @ [v]) R M q'"
  unfolding stored_def
proof (intro conjI allI impI)
  fix i assume i: "i < length (vs @ [v])"
  have "(of_nat i :: u64) = of_nat (length vs) \<longleftrightarrow> i = length vs" using i len by (intro of_nat_u64_inj) auto
  then show "race_places q' (of_nat i) = (if i \<in> R then None else Some ((vs @ [v]) ! i))"
    using i st R(1) by (auto simp: q' stored_def nth_append)
next
  fix b assume b: "32 * b < length (vs @ [v])"
  have eq: "(of_nat (32 * b) :: u64) = of_nat (length vs) \<longleftrightarrow> 32 * b = length vs" using b len by (intro of_nat_u64_inj) auto
  have new: "M \<inter> {32 * b..<32 * b + 32} = {}" if "32 * b = length vs" using R(2) that by auto
  have "(of_nat (length vs) :: u64) AND 31 = 0 \<longleftrightarrow> length vs mod 32 = 0"
    using len by (simp add: slot_of_0_iff slot_of_mod unat_of_nat_u64)
  then show "race_blocks q' (of_nat (32 * b)) =
     (if card (M \<inter> {32 * b..<32 * b + 32}) = 32 then None else Some (of_nat (card (M \<inter> {32 * b..<32 * b + 32}))))"
    using b st new eq mod_mult_self1_is_0 [of 32 b] by (cases "32 * b = length vs") (auto simp: q' stored_def simp del: of_nat_mult)
qed

lemma stored_move:
  assumes "stored vs R M q" "i < length vs" "length vs < 2 ^ 63"
  shows "stored vs (insert i R) M (q\<lparr>race_places := (race_places q)(of_nat i := None)\<rparr>)"
proof -
  have "(of_nat j :: u64) = of_nat i \<longleftrightarrow> j = i" if "j < length vs" for j using that assms(2,3) by (intro of_nat_u64_inj) auto
  then show ?thesis using assms(1) by (simp add: stored_def)
qed

text \<open>Telling a block that the elements from \<open>f\<close> to \<open>l\<close> are gone.\<close>

lemma stored_mark:
  assumes st: "stored vs R M q" and l: "l \<le> length vs" "length vs < 2 ^ 63"
    and f: "f < l" "l \<le> 32 * (f div 32) + 32" "M \<inter> {f..<l} = {}"
  shows "\<exists>m. race_blocks q (base_of (of_nat f)) = Some m \<and> m + of_nat (l - f) \<le> BLOCK_SIZE \<and>
    stored vs R (M \<union> {f..<l}) (q\<lparr>race_blocks := (race_blocks q)(base_of (of_nat f) :=
      (if m + of_nat (l - f) = BLOCK_SIZE then None else Some (m + of_nat (l - f))))\<rparr>)"
proof -
  let ?b = "f div 32"
  let ?I = "\<lambda>b. {32 * b..<32 * b + 32}"
  have base: "base_of (of_nat f) = (of_nat (32 * ?b) :: u64)" using f(1) l by (intro base_of_nat) linarith
  have in_block: "{f..<l} \<subseteq> ?I ?b" using f by auto
  have "card (M \<inter> ?I ?b) + card {f..<l} = card (M \<inter> ?I ?b \<union> {f..<l})" using f(3) by (subst card_Un_disjoint) auto
  also have "M \<inter> ?I ?b \<union> {f..<l} = (M \<union> {f..<l}) \<inter> ?I ?b" using in_block by blast
  finally have count: "card ((M \<union> {f..<l}) \<inter> ?I ?b) = card (M \<inter> ?I ?b) + (l - f)" by simp
  have "card ((M \<union> {f..<l}) \<inter> ?I ?b) \<le> card (?I ?b)" by (intro card_mono) auto
  then have le: "card (M \<inter> ?I ?b) + (l - f) \<le> 32" using count by simp
  have lt: "32 * ?b < length vs" using f(1) l(1) by presburger
  have m: "race_blocks q (base_of (of_nat f)) = Some (of_nat (card (M \<inter> ?I ?b)))"
    using st lt le f(1) by (auto simp: stored_def base)
  let ?c = "of_nat (card (M \<inter> ?I ?b)) + of_nat (l - f) :: u64"
  have c: "unat ?c = card (M \<inter> ?I ?b) + (l - f)" using le by (simp add: unat_of_nat_u64 flip: of_nat_add)
  then have c32: "?c \<le> BLOCK_SIZE" "?c = BLOCK_SIZE \<longleftrightarrow> card (M \<inter> ?I ?b) + (l - f) = 32"
    using le by (simp_all add: word_le_nat_alt word_unat_eq_iff BLOCK_SIZE_def)
  have other: "(M \<union> {f..<l}) \<inter> ?I b = M \<inter> ?I b" if "b \<noteq> ?b" for b
  proof -
    have "?I ?b \<inter> ?I b = {}" using that by auto
    then show ?thesis using in_block by blast
  qed
  have key: "(of_nat (32 * b) :: u64) = of_nat (32 * ?b) \<longleftrightarrow> b = ?b" if "32 * b < length vs" for b
    using of_nat_u64_inj [of "32 * b" "32 * ?b"] that lt l(2) by simp
  have "stored vs R (M \<union> {f..<l}) (q\<lparr>race_blocks := (race_blocks q)(base_of (of_nat f) := (if ?c = BLOCK_SIZE then None else Some ?c))\<rparr>)"
    unfolding stored_def
  proof (intro conjI allI impI)
    fix b assume b: "32 * b < length vs"
    show "race_blocks (q\<lparr>race_blocks := (race_blocks q)(base_of (of_nat f) := (if ?c = BLOCK_SIZE then None else Some ?c))\<rparr>) (of_nat (32 * b)) =
      (if card ((M \<union> {f..<l}) \<inter> ?I b) = 32 then None else Some (of_nat (card ((M \<union> {f..<l}) \<inter> ?I b))))"
    proof (cases "b = ?b")
      case True
      show ?thesis unfolding True count base using c32(2) by simp
    next
      case False
      have "(of_nat (32 * b) :: u64) \<noteq> base_of (of_nat f)" using key [OF b] False by (simp only: base not_False_eq_True)
      then show ?thesis using st b other [OF False] by (simp add: stored_def)
    qed
  qed (use st in \<open>simp add: stored_def\<close>)
  with m c32(1) show ?thesis by blast
qed

section \<open>Who owns which index\<close>

text \<open>Of a thread in \<open>Moving\<close>: the indices its blocks do not know of yet, and those of them with the element still in place.\<close>

fun to_mark :: "dequeuer \<Rightarrow> nat set" where
  "to_mark (Moving first index stop) = {unat first..<unat stop}"
| "to_mark _ = {}"

fun to_move :: "dequeuer \<Rightarrow> nat set" where
  "to_move (Moving first index stop) = {unat index..<unat stop}"
| "to_move _ = {}"

fun moving_ok :: "dequeuer \<Rightarrow> bool" where
  "moving_ok (Moving first index stop) \<longleftrightarrow>
     unat first < unat stop \<and> unat first \<le> unat index \<and> unat index \<le> min (unat stop) (32 * (unat first div 32) + 32)"
| "moving_ok _ \<longleftrightarrow> True"

text \<open>Below which index all of a thread's elements are so far.\<close>

fun frontier :: "nat \<Rightarrow> dequeuer \<Rightarrow> nat" where
  "frontier h (Moving first index stop) = unat index"
| "frontier h _ = h"

fun constructed :: "'a enqueuer \<Rightarrow> 'a list" where
  "constructed (Constructing i made vs) = made"
| "constructed Outside = []"

definition moved_indices :: "'a race_event list \<Rightarrow> nat list" where
  "moved_indices es = [unat i. (c, i, v) \<leftarrow> moves es]"

definition indices_by :: "nat \<Rightarrow> 'a race_event list \<Rightarrow> nat list" where
  "indices_by c es = [unat i. (c', i, v) \<leftarrow> moves es, c' = c]"

lemma moved_indices_simps [simp]:
  "moved_indices (es @ es') = moved_indices es @ moved_indices es'" "moved_indices [] = []"
  "moved_indices [Moved c i v] = [unat i]" "moved_indices [Nothing c] = []" "moved_indices [Published vs] = []"
  by (simp_all add: moved_indices_def)

lemma indices_by_simps [simp]:
  "indices_by c (es @ es') = indices_by c es @ indices_by c es'" "indices_by c [] = []"
  "indices_by c [Moved c' i v] = (if c' = c then [unat i] else [])" "indices_by c [Nothing c'] = []" "indices_by c [Published vs] = []"
  by (simp_all add: indices_by_def)

definition place_inv :: "nat \<Rightarrow> nat set \<Rightarrow> 'a race_event list \<Rightarrow> 'a racing \<Rightarrow> bool" where
  "place_inv n M es s \<longleftrightarrow>
     length (dequeuers s) = n \<and> length (published es) = unat (race_tail (shared s)) \<and>
     M \<subseteq> {..<unat (race_head (shared s))} \<and> set (moved_indices es) \<subseteq> {..<unat (race_head (shared s))} \<and>
     parts n ({..<unat (race_head (shared s))} - M) (\<lambda>c. to_mark (dequeuers s ! c)) \<and>
     parts n ({..<unat (race_head (shared s))} - set (moved_indices es)) (\<lambda>c. to_move (dequeuers s ! c)) \<and>
     (\<forall>c<n. moving_ok (dequeuers s ! c)) \<and>
     distinct (moved_indices es) \<and>
     (\<forall>(c, i, v) \<in> set (moves es). c < n \<and> v = published es ! unat i) \<and>
     stored (published es @ constructed (enqueuer s)) (set (moved_indices es)) M (shared s) \<and>
     (\<forall>c<n. sorted_wrt (<) (indices_by c es) \<and>
       (\<forall>i \<in> set (indices_by c es). i < frontier (unat (race_head (shared s))) (dequeuers s ! c)))"

lemma place_inv_start: "place_inv n {} [] (race_start n)"
  by (simp add: place_inv_def race_start_def parts_def stored_def)

lemma place_inv_update:
  fixes s :: "'a racing"
  defines "H \<equiv> unat (race_head (shared s))"
  assumes inv: "place_inv n M es s" and c: "c < n"
    and q: "race_tail q = race_tail (shared s)" "H \<le> unat (race_head q)"
    and M: "M' \<subseteq> {..<unat (race_head q)}"
      "{..<unat (race_head q)} - M' = {..<H} - M - to_mark (dequeuers s ! c) \<union> to_mark d"
      "to_mark d \<inter> ({..<H} - M - to_mark (dequeuers s ! c)) = {}"
    and R: "set (moved_indices (es @ e)) \<subseteq> {..<unat (race_head q)}" "distinct (moved_indices (es @ e))"
      "{..<unat (race_head q)} - set (moved_indices (es @ e)) =
         {..<H} - set (moved_indices es) - to_move (dequeuers s ! c) \<union> to_move d"
      "to_move d \<inter> ({..<H} - set (moved_indices es) - to_move (dequeuers s ! c)) = {}"
    and d: "moving_ok d"
    and e: "published e = []" "\<And>c' i v. (c', i, v) \<in> set (moves e) \<Longrightarrow> c' = c \<and> v = published es ! unat i"
    and st: "stored (published es @ constructed (enqueuer s)) (set (moved_indices (es @ e))) M' q"
    and order: "sorted_wrt (<) (indices_by c (es @ e))" "\<forall>i \<in> set (indices_by c (es @ e)). i < frontier (unat (race_head q)) d"
  shows "place_inv n M' (es @ e) (s\<lparr>shared := q, dequeuers := (dequeuers s)[c := d]\<rparr>)"
proof -
  let ?ds = "dequeuers s"
  have len: "length ?ds = n" and p: "parts n ({..<H} - M) (\<lambda>j. to_mark (?ds ! j))"
    "parts n ({..<H} - set (moved_indices es)) (\<lambda>j. to_move (?ds ! j))" using inv by (auto simp: place_inv_def H_def)
  have "parts n ({..<unat (race_head q)} - M') (\<lambda>j. to_mark (?ds[c := d] ! j))"
    unfolding M(2) by (rule parts_update [OF p(1) c M(3)]) (use len in \<open>auto simp: nth_list_update\<close>)
  moreover have "parts n ({..<unat (race_head q)} - set (moved_indices (es @ e))) (\<lambda>j. to_move (?ds[c := d] ! j))"
    unfolding R(3) by (rule parts_update [OF p(2) c R(4)]) (use len in \<open>auto simp: nth_list_update\<close>)
  moreover have "moving_ok (?ds[c := d] ! j)" if "j < n" for j
    using inv d len that by (cases "j = c") (auto simp: place_inv_def)
  moreover have "sorted_wrt (<) (indices_by j (es @ e)) \<and>
      (\<forall>i \<in> set (indices_by j (es @ e)). i < frontier (unat (race_head q)) (?ds[c := d] ! j))" if j: "j < n" for j
  proof (cases "j = c")
    case False
    have "indices_by j e = []" using e(2) False by (auto simp: indices_by_def)
    moreover have "frontier H (?ds ! j) \<le> frontier (unat (race_head q)) (?ds ! j)" using q(2) by (cases "?ds ! j") simp_all
    moreover have "sorted_wrt (<) (indices_by j es)" "\<forall>i \<in> set (indices_by j es). i < frontier H (?ds ! j)"
      using inv j by (simp_all add: place_inv_def H_def)
    ultimately show ?thesis using False by (auto intro: order.strict_trans2)
  qed (use order len c in simp)
  ultimately show ?thesis using inv c q(1) M(1) R(1,2) e st unfolding place_inv_def by (auto simp: H_def)
qed

lemma place_inv_local:
  assumes "place_inv n M es s" "c < n" "race_tail q = race_tail (shared s)" "race_head q = race_head (shared s)"
    and "race_places q = race_places (shared s)" "race_blocks q = race_blocks (shared s)"
    and "to_mark (dequeuers s ! c) = {}" "to_move (dequeuers s ! c) = {}" "to_mark d = {}" "to_move d = {}" "moving_ok d"
    and "moves e = []" "published e = []"
    and "\<And>h. frontier h (dequeuers s ! c) = h" "\<And>h. frontier h d = h"
  shows "place_inv n M (es @ e) (s\<lparr>shared := q, dequeuers := (dequeuers s)[c := d]\<rparr>)"
proof (rule place_inv_update)
  have "indices_by c' e = []" "moved_indices e = []" for c' using assms(12) by (simp_all add: indices_by_def moved_indices_def)
  moreover have "\<forall>i \<in> set (indices_by c es). i < unat (race_head (shared s))"
    using assms(1,2,14) by (auto simp: place_inv_def)
  ultimately show "sorted_wrt (<) (indices_by c (es @ e))" "\<forall>i \<in> set (indices_by c (es @ e)). i < frontier (unat (race_head q)) d"
    "set (moved_indices (es @ e)) \<subseteq> {..<unat (race_head q)}" "distinct (moved_indices (es @ e))"
    "{..<unat (race_head q)} - set (moved_indices (es @ e)) =
         {..<unat (race_head (shared s))} - set (moved_indices es) - to_move (dequeuers s ! c) \<union> to_move d"
    "stored (published es @ constructed (enqueuer s)) (set (moved_indices (es @ e))) M q"
    using assms by (auto simp: place_inv_def intro: stored_cong)
qed (use assms in \<open>auto simp: place_inv_def\<close>)


section \<open>Steps\<close>

lemma place_advancing:
  assumes inv: "place_inv n M es s" and c: "c < n" and d: "dequeuers s ! c = Advancing actual" "actual \<noteq> 0"
    and step: "dequeue_step c (Advancing actual) (shared s) = Some (d', q, e)"
    and H: "unat (race_head q) = unat (race_head (shared s)) + unat actual"
  shows "place_inv n M (es @ e) (s\<lparr>shared := q, dequeuers := (dequeuers s)[c := d']\<rparr>)"
proof -
  let ?H = "unat (race_head (shared s))"
  have q: "q = (shared s)\<lparr>race_head := race_head (shared s) + actual\<rparr>" "e = []"
    and d': "d' = Moving (race_head (shared s)) (race_head (shared s)) (race_head (shared s) + actual)"
    using step by (auto simp: Let_def)
  have own: "to_mark d' = {?H..<unat (race_head q)}" "to_move d' = {?H..<unat (race_head q)}" by (simp_all add: d' q)
  have ivl: "{..<unat (race_head q)} = {..<?H} \<union> {?H..<unat (race_head q)}" using H by auto
  have "0 < unat actual" using d(2) by (simp add: unat_gt_0)
  then have ok: "moving_ok d'" using H by (simp add: d' q)
  have R: "set (moved_indices es) \<subseteq> {..<?H}" "M \<subseteq> {..<?H}" using inv by (simp_all add: place_inv_def)
  show ?thesis
  proof (rule place_inv_update [OF inv c])
    show "{..<unat (race_head q)} - M = {..<?H} - M - to_mark (dequeuers s ! c) \<union> to_mark d'"
      "{..<unat (race_head q)} - set (moved_indices (es @ e)) =
         {..<?H} - set (moved_indices es) - to_move (dequeuers s ! c) \<union> to_move d'"
      unfolding ivl own using R by (auto simp: d q)
    have "\<forall>i \<in> set (indices_by c es). i < frontier ?H (dequeuers s ! c)" using inv c unfolding place_inv_def by blast
    then show "\<forall>i \<in> set (indices_by c (es @ e)). i < frontier (unat (race_head q)) d'" by (simp add: d d' q)
    show "stored (published es @ constructed (enqueuer s)) (set (moved_indices (es @ e))) M q"
      using inv by (auto simp: place_inv_def q intro: stored_cong)
  qed (use inv c R H own ok in \<open>auto simp: place_inv_def q d\<close>)
qed

text \<open>A thread that moves elements always finds the element and its block.\<close>

lemma place_moving:
  assumes inv: "place_inv n M es s" and c: "c < n" and d: "dequeuers s ! c = Moving first index stop"
    and len: "length (published es @ constructed (enqueuer s)) < 2 ^ 63" and head: "unat (race_head (shared s)) \<le> unat (race_tail (shared s))"
    and more: "index \<noteq> end_of_block first stop"
  shows "\<exists>d' q e. dequeue_step c (Moving first index stop) (shared s) = Some (d', q, e) \<and>
    place_inv n M (es @ e) (s\<lparr>shared := q, dequeuers := (dequeuers s)[c := d']\<rparr>)"
proof -
  let ?H = "unat (race_head (shared s))" and ?R = "set (moved_indices es)" and ?xs = "published es"
  have ok: "moving_ok (Moving first index stop)" using inv c d by (auto simp: place_inv_def)
  have sub: "to_mark (dequeuers s ! c) \<subseteq> {..<?H} - M" "to_move (dequeuers s ! c) \<subseteq> {..<?H} - ?R"
    using inv c parts_subset unfolding place_inv_def by blast+
  have T: "length ?xs = unat (race_tail (shared s))" using inv by (simp add: place_inv_def)
  have "unat stop - 1 \<in> {unat first..<unat stop}" using ok by auto
  then have "unat stop - 1 < ?H" using sub(1) d by auto
  then have stop: "unat stop \<le> ?H" by linarith
  then have "unat stop < 2 ^ 63" using head T len by simp
  from unat_end_of_block [OF _ this, of first] ok
  have e: "unat (end_of_block first stop) = min (unat stop) (32 * (unat first div 32) + 32)" by simp
  have "unat index \<noteq> unat (end_of_block first stop)" using more by (simp add: word_unat_eq_iff)
  then have lt: "unat index < min (unat stop) (32 * (unat first div 32) + 32)" using ok e by (simp only: moving_ok.simps) linarith
  have i: "unat index < ?H" "unat index \<notin> ?R" using sub(2) d lt by auto
  have ixs: "unat index < length ?xs" using i(1) head T by linarith
  have st: "stored (?xs @ constructed (enqueuer s)) ?R M (shared s)" using inv by (simp add: place_inv_def)
  have nat: "(of_nat (unat index) :: u64) = index" by simp
  have "\<forall>i < length (?xs @ constructed (enqueuer s)). race_places (shared s) (of_nat i) =
      (if i \<in> ?R then None else Some ((?xs @ constructed (enqueuer s)) ! i))" using st by (simp add: stored_def)
  from this [rule_format, of "unat index"] have v: "race_places (shared s) index = Some (?xs ! unat index)"
    using i(2) ixs by (simp add: nth_append)
  have fb: "32 * (unat first div 32) \<le> unat first" "unat first < 32 * (unat first div 32) + 32"
    using mult_div_mod_eq [of 32 "unat first"] mod_less_divisor [of 32 "unat first"] by linarith+
  then have "32 * (unat first div 32) \<le> unat index" using ok by (simp only: moving_ok.simps) linarith
  then have block: "unat first div 32 = unat index div 32" using lt by (intro div_nat_eqI [symmetric]) simp_all
  have fM: "unat first \<notin> M" using sub(1) d ok by auto
  let ?I = "{32 * (unat index div 32)..<32 * (unat index div 32) + 32}"
  have "unat first \<in> ?I" unfolding block [symmetric] using fb by (simp only: atLeastLessThan_iff simp_thms)
  then have "M \<inter> ?I \<subset> ?I" using fM by blast
  then have "card (M \<inter> ?I) < 32" using psubset_card_mono [of ?I "M \<inter> ?I"] by simp
  moreover have "32 * (unat index div 32) < length (?xs @ constructed (enqueuer s))" using ixs by simp
  ultimately have "race_blocks (shared s) (of_nat (32 * (unat index div 32))) = Some (of_nat (card (M \<inter> ?I)))"
    using st by (simp add: stored_def)
  moreover have "base_of (of_nat (unat index)) = of_nat (32 * (unat index div 32))" using ixs len by (intro base_of_nat) simp
  ultimately have b: "race_blocks (shared s) (base_of index) = Some (of_nat (card (M \<inter> ?I)))" unfolding nat by simp
  let ?q = "(shared s)\<lparr>race_places := (race_places (shared s))(index := None)\<rparr>" and ?d = "Moving first (index + 1) stop"
    and ?e = "[Moved c index (?xs ! unat index)]"
  have step: "dequeue_step c (Moving first index stop) (shared s) = Some (?d, ?q, ?e)" using more v b by (simp add: Let_def)
  have suc: "unat (index + 1) = unat index + 1" using lt by (intro unat_Suc_less [of index stop]) (simp add: word_less_nat_alt)
  have "place_inv n M (es @ ?e) (s\<lparr>shared := ?q, dequeuers := (dequeuers s)[c := ?d]\<rparr>)"
  proof (rule place_inv_update [OF inv c])
    have "X \<subseteq> A - M \<Longrightarrow> A - M = A - M - X \<union> X" for A X by blast
    from this [OF sub(1)] show "{..<unat (race_head ?q)} - M = {..<?H} - M - to_mark (dequeuers s ! c) \<union> to_mark ?d"
      by (simp add: d)
    have rest: "A - insert i B = A - B - insert i X \<union> X" if "i \<notin> X" "insert i X \<subseteq> A - B" for i :: nat and X A B using that by blast
    have split: "{unat index..<unat stop} = insert (unat index) {unat index + 1..<unat stop}" using lt by auto
    show "{..<unat (race_head ?q)} - set (moved_indices (es @ ?e)) =
        {..<?H} - ?R - to_move (dequeuers s ! c) \<union> to_move ?d"
      using sub(2) rest [of "unat index" "{unat index + 1..<unat stop}"] by (simp add: d suc split)
    have order: "sorted_wrt (<) (indices_by c es)" "\<forall>j \<in> set (indices_by c es). j < unat index"
      using inv c d by (fastforce simp: place_inv_def)+
    then show "sorted_wrt (<) (indices_by c (es @ ?e))" "\<forall>j \<in> set (indices_by c (es @ ?e)). j < frontier (unat (race_head ?q)) ?d"
      by (auto simp: sorted_wrt_append suc)
    show "stored (?xs @ constructed (enqueuer s)) (set (moved_indices (es @ ?e))) M ?q"
      using stored_move [OF st _ len, of "unat index"] ixs by simp
  qed (use inv c ok lt i suc d in \<open>auto simp: place_inv_def\<close>)
  with step show ?thesis by blast
qed

text \<open>At the end of its part of a block, a thread tells the block.\<close>

lemma place_marking:
  assumes inv: "place_inv n M es s" and c: "c < n" and d: "dequeuers s ! c = Moving first index stop"
    and len: "length (published es @ constructed (enqueuer s)) < 2 ^ 63" and head: "unat (race_head (shared s)) \<le> unat (race_tail (shared s))"
    and index: "index = end_of_block first stop"
  shows "\<exists>d' q M'. dequeue_step c (Moving first index stop) (shared s) = Some (d', q, []) \<and>
    place_inv n M' es (s\<lparr>shared := q, dequeuers := (dequeuers s)[c := d']\<rparr>)"
proof -
  let ?H = "unat (race_head (shared s))" and ?R = "set (moved_indices es)" and ?vs = "published es @ constructed (enqueuer s)"
  let ?f = "unat first" and ?l = "unat index"
  have ok: "moving_ok (Moving first index stop)" using inv c d by (auto simp: place_inv_def)
  have sub: "to_mark (dequeuers s ! c) \<subseteq> {..<?H} - M" "to_move (dequeuers s ! c) \<subseteq> {..<?H} - ?R"
    using inv c parts_subset unfolding place_inv_def by blast+
  have T: "length (published es) = unat (race_tail (shared s))" using inv by (simp add: place_inv_def)
  have "unat stop - 1 \<in> {?f..<unat stop}" using ok by auto
  then have "unat stop - 1 < ?H" using sub(1) d by auto
  then have stop: "unat stop \<le> ?H" by linarith
  then have "unat stop < 2 ^ 63" using head T len by simp
  from unat_end_of_block [OF _ this, of first] ok
  have l: "?l = min (unat stop) (32 * (?f div 32) + 32)" by (simp add: index)
  have fb: "32 * (?f div 32) \<le> ?f" "?f < 32 * (?f div 32) + 32"
    using mult_div_mod_eq [of 32 ?f] mod_less_divisor [of 32 ?f] by linarith+
  have f: "?f < ?l" "?l \<le> 32 * (?f div 32) + 32" "?l \<le> unat stop"
    using l fb(2) ok by (simp_all only: moving_ok.simps) linarith+
  have st: "stored ?vs ?R M (shared s)" using inv by (simp add: place_inv_def)
  have ivl: "{?f..<unat stop} = {?f..<?l} \<union> {?l..<unat stop}" using f by auto
  have "{?f..<unat stop} \<subseteq> {..<?H} - M" using sub(1) d by simp
  then have fl: "{?f..<?l} \<subseteq> {..<?H}" "M \<inter> {?f..<?l} = {}" "{?l..<unat stop} \<subseteq> {..<?H} - M" unfolding ivl by blast+
  have lv: "?l \<le> length ?vs" using f(3) stop head T by simp
  have nat: "(of_nat ?f :: u64) = first" "of_nat (?l - ?f) = index - first"
    using f(1) by (simp_all add: of_nat_diff)
  from stored_mark [OF st lv len f(1,2) fl(2)] obtain m where
    m: "race_blocks (shared s) (base_of first) = Some m" "m + (index - first) \<le> BLOCK_SIZE"
    and st': "stored ?vs ?R (M \<union> {?f..<?l}) ((shared s)\<lparr>race_blocks := (race_blocks (shared s))(base_of first :=
      (if m + (index - first) = BLOCK_SIZE then None else Some (m + (index - first))))\<rparr>)"
    unfolding nat by blast
  let ?q = "(shared s)\<lparr>race_blocks := (race_blocks (shared s))(base_of first :=
      (if m + (index - first) = BLOCK_SIZE then None else Some (m + (index - first))))\<rparr>"
  let ?d = "if index = stop then Idle else Moving index index stop"
  have step: "dequeue_step c (Moving first index stop) (shared s) = Some (?d, ?q, [])"
    using m by (simp add: Let_def index [symmetric])
  have un: "?l < unat stop" if "index \<noteq> stop" using f(3) that by (simp add: word_unat_eq_iff)
  have lb: "?l \<le> 32 * (?l div 32) + 32" using mult_div_mod_eq [of 32 ?l] mod_less_divisor [of 32 ?l] by linarith
  have own: "to_mark ?d = {?l..<unat stop}" "to_move ?d = {?l..<unat stop}" "moving_ok ?d" using un lb by auto
  have part: "A - (M \<union> X) = A - M - (X \<union> Y) \<union> Y" if "Y \<subseteq> A - M" "X \<inter> Y = {}" for A X Y using that by blast
  have order: "sorted_wrt (<) (indices_by c es)" "\<forall>j \<in> set (indices_by c es). j < ?l"
    using inv c d by (fastforce simp: place_inv_def)+
  moreover have "?l \<le> frontier ?H ?d" using stop f(3) by simp
  ultimately have front: "\<forall>j \<in> set (indices_by c es). j < frontier ?H ?d" by (blast intro: order.strict_trans2)
  have "place_inv n (M \<union> {?f..<?l}) (es @ []) (s\<lparr>shared := ?q, dequeuers := (dequeuers s)[c := ?d]\<rparr>)"
  proof (rule place_inv_update [OF inv c])
    show "{..<unat (race_head ?q)} - (M \<union> {?f..<?l}) = {..<?H} - M - to_mark (dequeuers s ! c) \<union> to_mark ?d"
      using part [OF fl(3), of "{?f..<?l}"] unfolding own by (simp add: d ivl)
    show "{..<unat (race_head ?q)} - set (moved_indices (es @ [])) = {..<?H} - ?R - to_move (dequeuers s ! c) \<union> to_move ?d"
      using sub(2) unfolding own by (simp add: d) blast
    show "to_mark ?d \<inter> ({..<?H} - M - to_mark (dequeuers s ! c)) = {}" unfolding own by (simp add: d ivl) blast
    show "to_move ?d \<inter> ({..<?H} - ?R - to_move (dequeuers s ! c)) = {}" unfolding own by (simp add: d)
    show "moving_ok ?d" by (rule own)
    show "stored ?vs (set (moved_indices (es @ []))) (M \<union> {?f..<?l}) ?q" using st' by simp
    show "\<forall>j \<in> set (indices_by c (es @ [])). j < frontier (unat (race_head ?q)) ?d" using front by simp
  qed (use inv order fl in \<open>auto simp: place_inv_def\<close>)
  with step show ?thesis by auto
qed

text \<open>The producer.\<close>

lemma place_call_enqueue:
  "place_inv n M es s \<Longrightarrow> enqueuer s = Outside \<Longrightarrow> place_inv n M es (s\<lparr>enqueuer := begin_enqueue vs (shared s)\<rparr>)"
  by (simp add: place_inv_def begin_enqueue_def)

lemma place_enqueue:
  assumes inv: "place_inv n M es s" and ok: "enqueuer_ok (shared s) (enqueuer s)"
    and len: "length (published es) + to_publish (enqueuer s) < 2 ^ 63" and head: "unat (race_head (shared s)) \<le> unat (race_tail (shared s))"
    and step: "enqueue_step (enqueuer s) (shared s) = (p, q, e)"
  shows "place_inv n M (es @ e) (s\<lparr>shared := q, enqueuer := p\<rparr>)"
proof (cases "(enqueuer s, shared s)" rule: enqueue_step.cases)
  case (2 i made q')
  have q: "q = (shared s)\<lparr>race_tail := i\<rparr>" "p = Outside" "e = [Published made]" using step 2 by simp_all
  have i: "i = race_tail (shared s) + of_nat (length made)" using ok 2 by simp
  have T: "unat i = length (published es @ made)"
    using inv len 2 unat_add_small [of "race_tail (shared s)" "length made"] by (simp add: i place_inv_def)
  have "stored (published es @ made) (set (moved_indices es)) M (shared s)" using inv 2 by (simp add: place_inv_def)
  then have st: "stored (published es @ made) (set (moved_indices es)) M q" by (rule stored_cong) (simp_all add: q)
  have "(published es @ made) ! unat j = published es ! unat j" if "(c, j, v) \<in> set (moves es)" for c j v
  proof -
    have "unat j \<in> set (moved_indices es)" using that by (force simp: moved_indices_def)
    then show ?thesis using inv head by (auto simp: place_inv_def nth_append)
  qed
  then have "\<forall>(c, j, v) \<in> set (moves es). c < n \<and> v = (published es @ made) ! unat j"
    using inv by (auto simp: place_inv_def)
  then show ?thesis using inv st T by (simp add: place_inv_def q)
next
  case (3 i made v vs q')
  have q: "race_tail q = race_tail (shared s)" "race_head q = race_head (shared s)" "e = []" "p = Constructing (i + 1) (made @ [v]) vs"
    "race_places q = (race_places (shared s))(i := Some v)"
    "race_blocks q = (if i AND 31 = 0 then (race_blocks (shared s))(i := Some 0) else race_blocks (shared s))"
    using step 3 by (auto simp: BLOCK_SIZE_def)
  let ?vs = "published es @ made"
  have i: "i = of_nat (length ?vs)" using ok 3 inv by (simp add: place_inv_def)
  have l: "Suc (length ?vs) < 2 ^ 63" using len 3 by simp
  have "{..<unat (race_head (shared s))} \<subseteq> {..<length ?vs}" using head inv by (auto simp: place_inv_def)
  then have sub: "set (moved_indices es) \<subseteq> {..<length ?vs}" "M \<subseteq> {..<length ?vs}" using inv by (auto simp: place_inv_def)
  have "stored ?vs (set (moved_indices es)) M (shared s)" using inv 3 by (simp add: place_inv_def)
  from stored_construct [OF this l sub q(5,6) [unfolded i]]
  show ?thesis using inv by (simp add: place_inv_def q)
next
  case (1 q')
  then have eq: "s\<lparr>shared := q, enqueuer := p\<rparr> = s" "e = []" using step by (cases s; simp)+
  show ?thesis unfolding eq using inv by simp
qed

end
