(* ===== verification/Cq_Race_Ok.thy ===== *)
theory Cq_Race_Ok
  imports Cq_Race_Places "HOL-Library.Sublist"
begin

text \<open>
  What holds of a sub-queue however the steps of its producer and of the threads that dequeue are interleaved.
\<close>

section \<open>The invariant of reachable states\<close>

definition race_inv :: "nat \<Rightarrow> nat \<Rightarrow> 'a race_event list \<Rightarrow> 'a racing \<Rightarrow> bool" where
  "race_inv n k es s \<longleftrightarrow> (\<exists>S F. ticket_inv n k S F s) \<and> (\<exists>M. place_inv n M es s)"

lemma race_inv_facts:
  assumes "race_inv n k es s" "k < 2 ^ 63"
  shows "length (published es @ constructed (enqueuer s)) < 2 ^ 63" "length (published es) + to_publish (enqueuer s) < 2 ^ 63"
    "unat (race_head (shared s)) \<le> unat (race_tail (shared s))" "enqueuer_ok (shared s) (enqueuer s)"
    "c < n \<Longrightarrow> dequeuers s ! c = Advancing a \<Longrightarrow> a \<noteq> 0"
proof -
  obtain S F M where t: "ticket_inv n k S F s" and p: "place_inv n M es s" using assms(1) by (auto simp: race_inv_def)
  have "length (constructed e) \<le> to_publish e" for e :: "'a enqueuer" by (cases e) auto
  then have "length (constructed (enqueuer s)) \<le> to_publish (enqueuer s)" .
  moreover have "length (published es) = unat (race_tail (shared s))" using p by (simp add: place_inv_def)
  moreover have "unat (race_tail (shared s)) + to_publish (enqueuer s) \<le> k" "enqueuer_ok (shared s) (enqueuer s)"
    using t by (simp_all add: ticket_inv_def)
  ultimately show "length (published es @ constructed (enqueuer s)) < 2 ^ 63" "length (published es) + to_publish (enqueuer s) < 2 ^ 63"
    "enqueuer_ok (shared s) (enqueuer s)" using assms(2) by simp_all
  show "unat (race_head (shared s)) \<le> unat (race_tail (shared s))" by (rule race_bounds(3) [OF t assms(2)])
  show "a \<noteq> 0" if "c < n" "dequeuers s ! c = Advancing a" using t that by (auto simp: ticket_inv_def)
qed

text \<open>A thread can always take its next step, and the invariant holds after it.\<close>

lemma race_inv_dequeue:
  assumes inv: "race_inv n k es s" and k: "k < 2 ^ 63" and c: "c < n"
  shows "\<exists>d q e. dequeue_step c (dequeuers s ! c) (shared s) = Some (d, q, e) \<and>
    race_inv n k (es @ e) (s\<lparr>shared := q, dequeuers := (dequeuers s)[c := d]\<rparr>)"
proof -
  obtain S F M where t: "ticket_inv n k S F s" and p: "place_inv n M es s" using inv by (auto simp: race_inv_def)
  note f = race_inv_facts [OF inv k]
  have quiet: "\<exists>d q e. dequeue_step c (dequeuers s ! c) (shared s) = Some (d, q, e) \<and>
    (\<exists>M. place_inv n M (es @ e) (s\<lparr>shared := q, dequeuers := (dequeuers s)[c := d]\<rparr>))"
    if "dequeue_step c (dequeuers s ! c) (shared s) = Some (d, q, e)" "race_tail q = race_tail (shared s)" "race_head q = race_head (shared s)"
      "race_places q = race_places (shared s)" "race_blocks q = race_blocks (shared s)"
      "to_mark (dequeuers s ! c) = {}" "to_move (dequeuers s ! c) = {}" "to_mark d = {}" "to_move d = {}" "moving_ok d"
      "moves e = []" "published e = []" "\<And>h. frontier h (dequeuers s ! c) = h" "\<And>h. frontier h d = h" for d q e
    using place_inv_local [OF p c that(2-)] that(1) by blast
  have step: "\<exists>d q e. dequeue_step c (dequeuers s ! c) (shared s) = Some (d, q, e) \<and>
    (\<exists>M. place_inv n M (es @ e) (s\<lparr>shared := q, dequeuers := (dequeuers s)[c := d]\<rparr>))"
  proof (cases "dequeuers s ! c")
    case (Advancing a)
    have "a \<noteq> 0" by (rule f(5) [OF c Advancing])
    then show ?thesis using place_advancing [OF p c Advancing] step_advancing [OF t k c Advancing] Advancing by (fastforce simp: Let_def)
  next
    case (Moving first index stop)
    show ?thesis
    proof (cases "index = end_of_block first stop")
      case True
      from place_marking [OF p c Moving f(1,3) True] obtain d q M where
        "dequeue_step c (Moving first index stop) (shared s) = Some (d, q, [])"
        "place_inv n M es (s\<lparr>shared := q, dequeuers := (dequeuers s)[c := d]\<rparr>)" by blast
      then show ?thesis unfolding Moving by (intro exI [of _ d] exI [of _ q] exI [of _ "[]"]) auto
    qed (use place_moving [OF p c Moving f(1,3)] Moving in fastforce)
  next
    case (Overcommit_read w tail overcommit)
    obtain d e where "dequeue_step c (Overcommit_read w tail overcommit) (shared s) = Some (d, shared s, e)"
      "to_mark d = {}" "to_move d = {}" "moving_ok d" "moves e = []" "published e = []" "\<And>h. frontier h d = h"
      by (cases "allowance w tail (race_optimistic (shared s) - overcommit)") auto
    then show ?thesis by (intro quiet [of d "shared s" e]) (simp_all add: Overcommit_read)
  next
    case (Counted w overcommit my)
    obtain d e where "dequeue_step c (Counted w overcommit my) (shared s) = Some (d, shared s, e)"
      "to_mark d = {}" "to_move d = {}" "moving_ok d" "moves e = []" "published e = []" "\<And>h. frontier h d = h"
      by (cases "allowance w (race_tail (shared s)) (my - overcommit)") (auto split: if_splits)
    then show ?thesis by (intro quiet [of d "shared s" e]) (simp_all add: Counted)
  next
    case (Overcommitting w my a)
    obtain d q e where "dequeue_step c (Overcommitting w my a) (shared s) = Some (d, q, e)"
      "to_mark d = {}" "to_move d = {}" "moving_ok d" "moves e = []" "published e = []" "\<And>h. frontier h d = h"
      "race_tail q = race_tail (shared s)" "race_head q = race_head (shared s)" "race_places q = race_places (shared s)"
      "race_blocks q = race_blocks (shared s)" by (cases "a = 0") (auto simp: Let_def)
    then show ?thesis by (intro quiet [of d q e]) (simp_all add: Overcommitting)
  next
    case Idle
    show ?thesis by (rule quiet [of Idle "shared s" "[]"]) (simp_all add: Idle)
  next
    case (Starting w)
    show ?thesis by (rule quiet [of "Tail_read w (race_tail (shared s))" "shared s" "[]"]) (simp_all add: Starting)
  next
    case (Tail_read w tail)
    show ?thesis by (rule quiet [of "Overcommit_read w tail (race_overcommit (shared s))" "shared s" "[]"]) (simp_all add: Tail_read)
  next
    case (Trying w overcommit)
    show ?thesis
      by (rule quiet [of "Counted w overcommit (race_optimistic (shared s))"
          "(shared s)\<lparr>race_optimistic := race_optimistic (shared s) + asked w\<rparr>" "[]"]) (simp_all add: Trying)
  qed
  then obtain d q e M where d: "dequeue_step c (dequeuers s ! c) (shared s) = Some (d, q, e)"
    "place_inv n M (es @ e) (s\<lparr>shared := q, dequeuers := (dequeuers s)[c := d]\<rparr>)" by blast
  with ticket_inv_dequeue [OF t k c d(1)] show ?thesis unfolding race_inv_def by blast
qed

lemma place_inv_call:
  assumes "place_inv n M es s" "c < n" "dequeuers s ! c = Idle"
  shows "place_inv n M es (s\<lparr>dequeuers := (dequeuers s)[c := Starting w]\<rparr>)"
  using place_inv_local [OF assms(1,2), of "shared s" "Starting w" "[]"] assms(3) by simp

lemma reachable_race_inv:
  assumes "interleaving n k es s" "k < 2 ^ 63"
  shows "race_inv n k es s"
  using assms
proof (induction rule: interleaving.induct)
  case start
  show ?case using ticket_inv_start place_inv_start by (auto simp: race_inv_def)
next
  case (call_enqueue k es s vs)
  then show ?case using ticket_inv_call_enqueue place_call_enqueue unfolding race_inv_def by fastforce
next
  case (enqueue k es s p q e)
  then have inv: "race_inv n k es s" by simp
  note f = race_inv_facts [OF inv enqueue.prems]
  show ?case using inv ticket_inv_enqueue [OF _ enqueue.prems enqueue.hyps(2)] place_enqueue [OF _ f(4,2,3) enqueue.hyps(2)]
    unfolding race_inv_def by blast
next
  case (call_dequeue k es s c w)
  then have inv: "race_inv n k es s" by simp
  then show ?case using ticket_inv_call [OF _ call_dequeue.hyps(2-4)] place_inv_call [OF _ call_dequeue.hyps(2,3)]
    unfolding race_inv_def by blast
next
  case (dequeue k es s c d q e)
  then show ?case using race_inv_dequeue [of n k es s c] by auto
qed

section \<open>Every call ends\<close>

text \<open>How many steps of its own a thread has at most before its call returns.\<close>

fun steps_left :: "dequeuer \<Rightarrow> nat" where
  "steps_left Idle = 0"
| "steps_left (Starting w) = 6 + 2 * unat (asked w)"
| "steps_left (Tail_read w tail) = 5 + 2 * unat (asked w)"
| "steps_left (Overcommit_read w tail overcommit) = 4 + 2 * unat (asked w)"
| "steps_left (Trying w overcommit) = 3 + 2 * unat (asked w)"
| "steps_left (Counted w overcommit my) = 2 + 2 * unat (asked w)"
| "steps_left (Overcommitting w my actual) = (if actual = 0 then 1 else 2 + 2 * unat actual)"
| "steps_left (Advancing actual) = 1 + 2 * unat actual"
| "steps_left (Moving first index stop) = 2 * (unat stop - unat index) + (if first = index then 0 else 1)"


lemma allowance_le: "allowance w tail x = Some m \<Longrightarrow> unat m \<le> unat (asked w)"
  by (auto simp: allowance_def asked_def Let_def word_less_nat_alt split: option.splits if_splits)

lemma asked_map [simp]: "allowance w tail x = Some m \<Longrightarrow> asked (map_option (\<lambda>_. m) w) = m"
  by (cases w) (auto simp: allowance_def asked_def split: if_splits)

lemma step_decreases:
  assumes step: "dequeue_step c d q = Some (d', q', e)" and d: "moving_ok d" "d \<noteq> Idle"
    and stop: "\<And>first index stop. d = Moving first index stop \<Longrightarrow> unat stop < 2 ^ 63"
  shows "steps_left d' < steps_left d"
proof (cases d)
  case (Moving first index stop)
  have s: "unat stop < 2 ^ 63" "unat first < unat stop" using stop [OF Moving] d Moving by simp_all
  have l: "unat (end_of_block first stop) = min (unat stop) (32 * (unat first div 32) + 32)"
    by (rule unat_end_of_block [OF s(2,1)])
  have fb: "unat first < 32 * (unat first div 32) + 32"
    using mult_div_mod_eq [of 32 "unat first"] mod_less_divisor [of 32 "unat first"] by linarith
  have "unat first < unat (end_of_block first stop)" using s fb by (simp add: l)
  show ?thesis
  proof (cases "index = end_of_block first stop")
    case True
    have "first \<noteq> index" using \<open>unat first < unat (end_of_block first stop)\<close> True by auto
    then show ?thesis using step Moving True by (auto simp: Let_def split: option.splits if_splits)
  next
    case False
    then have "unat index \<noteq> unat (end_of_block first stop)" by (simp add: word_unat_eq_iff)
    then have lt: "unat index < unat stop" using d Moving l by (simp only: moving_ok.simps) linarith
    then have "unat (index + 1) = unat index + 1" by (intro unat_Suc_less [of index stop]) (simp add: word_less_nat_alt)
    then have "unat stop - unat index = Suc (unat stop - unat (index + 1))" using lt by simp
    moreover have "d' = Moving first (index + 1) stop" using step Moving False by (auto simp: Let_def split: option.splits)
    ultimately show ?thesis using Moving by simp
  qed
next
  case (Advancing a)
  have "unat (h + a) - unat h \<le> unat a" for h :: u64
    by (simp add: unat_word_ariths)
  then show ?thesis using step Advancing by (auto simp: Let_def less_Suc_eq_le)
next
  case (Counted w overcommit my)
  show ?thesis
  proof (cases "allowance w (race_tail q) (my - overcommit)")
    case None
    then have "d' = Overcommitting w my 0 \<or> d' = Idle" using step Counted by simp
    then show ?thesis using Counted by auto
  next
    case (Some m)
    have "d' = Overcommitting w my m \<and> unat m < unat (asked w) \<or> d' = Advancing m"
      using step Counted Some by (auto simp: word_less_nat_alt split: if_splits)
    then show ?thesis using Counted allowance_le [OF Some] by auto
  qed
next
  case (Overcommitting w my a)
  then show ?thesis using step by (auto simp: Let_def split: if_splits)
qed (use step d allowance_le in \<open>fastforce simp: Let_def word_less_nat_alt split: option.splits if_splits\<close>)+

lemma dequeue_progress:
  assumes "interleaving n k es s" "k < 2 ^ 63" "c < n"
  shows "\<exists>d q e. dequeue_step c (dequeuers s ! c) (shared s) = Some (d, q, e) \<and>
    interleaving n k (es @ e) (s\<lparr>shared := q, dequeuers := (dequeuers s)[c := d]\<rparr>) \<and>
    (dequeuers s ! c \<noteq> Idle \<longrightarrow> steps_left d < steps_left (dequeuers s ! c))"
proof -
  have inv: "race_inv n k es s" by (rule reachable_race_inv [OF assms(1,2)])
  then obtain M where p: "place_inv n M es s" by (auto simp: race_inv_def)
  from race_inv_dequeue [OF inv assms(2,3)] obtain d q e where
    d: "dequeue_step c (dequeuers s ! c) (shared s) = Some (d, q, e)" by blast
  have "unat stop < 2 ^ 63" if m: "dequeuers s ! c = Moving first index stop" for first index stop
  proof -
    have "to_mark (dequeuers s ! c) \<subseteq> {..<unat (race_head (shared s))}"
      using p assms(3) parts_subset [of n _ "\<lambda>c. to_mark (dequeuers s ! c)" c] unfolding place_inv_def by blast
    moreover have "moving_ok (dequeuers s ! c)" using p assms(3) by (simp add: place_inv_def)
    ultimately have "unat stop \<le> unat (race_head (shared s))" using m by (auto simp: subset_iff) (meson leI less_imp_le_nat order.refl not_less)
    moreover have "length (published es) = unat (race_tail (shared s))" using p by (simp add: place_inv_def)
    ultimately show ?thesis using race_inv_facts(1,3) [OF inv assms(2)] by simp
  qed
  then have "dequeuers s ! c \<noteq> Idle \<longrightarrow> steps_left d < steps_left (dequeuers s ! c)"
    using step_decreases [OF d] p assms(3) by (auto simp: place_inv_def)
  with d interleaving.dequeue [OF assms(1,3) d] show ?thesis by blast
qed

section \<open>A thread alone\<close>

text \<open>The steps of one thread, with no step of another in between, until its call returns.\<close>

fun alone :: "nat \<Rightarrow> nat \<Rightarrow> dequeuer \<Rightarrow> 'a race \<Rightarrow> ('a race \<times> 'a race_event list) option" where
  "alone 0 c d q = (if d = Idle then Some (q, []) else None)"
| "alone (Suc f) c d q =
     (if d = Idle then Some (q, [])
      else do {
        (d, q, e) \<leftarrow> dequeue_step c d q;
        (q, es) \<leftarrow> alone f c d q;
        Some (q, e @ es) })"

lemma idle_same: "dequeuers s ! c = Idle \<Longrightarrow> s\<lparr>shared := shared s, dequeuers := (dequeuers s)[c := Idle]\<rparr> = s"
  using list_update_id [of "dequeuers s" c] by (cases s) simp

lemma alone_returns:
  assumes "interleaving n k es s" "k < 2 ^ 63" "c < n" "steps_left (dequeuers s ! c) \<le> f"
  shows "\<exists>q e. alone f c (dequeuers s ! c) (shared s) = Some (q, e) \<and>
    interleaving n k (es @ e) (s\<lparr>shared := q, dequeuers := (dequeuers s)[c := Idle]\<rparr>)"
  using assms
proof (induction f arbitrary: es s)
  case (0 es s)
  from dequeue_progress [OF 0(1-3)] 0(4) have "dequeuers s ! c = Idle" by fastforce
  then show ?case using 0(1) idle_same [of s c] by (intro exI [of _ "shared s"] exI [of _ "[]"]) simp
next
  case (Suc f es s)
  show ?case
  proof (cases "dequeuers s ! c = Idle")
    case True
    then show ?thesis using Suc.prems(1) idle_same [of s c] by (intro exI [of _ "shared s"] exI [of _ "[]"]) simp
  next
    case False
    let ?ds = "dequeuers s"
    from dequeue_progress [OF Suc.prems(1-3)] False obtain d q e where
      d: "dequeue_step c (?ds ! c) (shared s) = Some (d, q, e)" "steps_left d < steps_left (?ds ! c)"
        "interleaving n k (es @ e) (s\<lparr>shared := q, dequeuers := ?ds[c := d]\<rparr>)" by blast
    have "length ?ds = n" using reachable_race_inv [OF Suc.prems(1,2)] by (auto simp: race_inv_def place_inv_def)
    then have c: "?ds[c := d] ! c = d" using Suc.prems(3) by simp
    from Suc.IH [OF d(3) Suc.prems(2,3)] d(2) Suc.prems(4) obtain q' e' where
      "alone f c d q = Some (q', e')"
      "interleaving n k (es @ e @ e') (s\<lparr>shared := q', dequeuers := ?ds[c := Idle]\<rparr>)" by (auto simp: c)
    then show ?thesis using False d(1) by auto
  qed
qed


text \<open>When no thread is in a call, the tickets are the failures given back and the elements claimed.\<close>

lemma all_idle:
  assumes inv: "race_inv n k es s" and k: "k < 2 ^ 63" and idle: "\<forall>c<n. dequeuers s ! c = Idle"
  shows "unat (race_optimistic (shared s)) = unat (race_overcommit (shared s)) + unat (race_head (shared s))"
    "set (moved_indices es) = {..<unat (race_head (shared s))}" "length (moves es) = unat (race_head (shared s))"
proof -
  obtain S F M where t: "ticket_inv n k S F s" and p: "place_inv n M es s" using inv by (auto simp: race_inv_def)
  let ?O = "unat (race_optimistic (shared s))"
  have "S \<subseteq> {..<?O}" "F \<subseteq> {..<?O}" "{..<?O} - S - F = {}" "S \<inter> F = {}" using t idle by (auto simp: ticket_inv_def parts_def)
  then have u: "{..<?O} = S \<union> F" "finite S" "finite F" by (auto intro: finite_subset)
  have "?O = card S + card F" using u(2,3) \<open>S \<inter> F = {}\<close> by (simp flip: u(1) card_Un_disjoint)
  then show "?O = unat (race_overcommit (shared s)) + unat (race_head (shared s))" using t idle by (simp add: ticket_inv_def)
  have "set (moved_indices es) \<subseteq> {..<unat (race_head (shared s))}" "distinct (moved_indices es)"
    "{..<unat (race_head (shared s))} - set (moved_indices es) = {}" using p idle by (auto simp: place_inv_def parts_def)
  then show s: "set (moved_indices es) = {..<unat (race_head (shared s))}" by blast
  have "length (moves es) = length (moved_indices es)" by (simp add: moved_indices_def split_def)
  also have "\<dots> = unat (race_head (shared s))" using distinct_card [OF \<open>distinct (moved_indices es)\<close>] by (simp add: s)
  finally show "length (moves es) = unat (race_head (shared s))" .
qed

lemma subseq_nth:
  "sorted_wrt (<) is \<Longrightarrow> \<forall>i \<in> set is. i < length xs \<Longrightarrow> subseq (map ((!) xs) is) xs"
proof (induction "is" arbitrary: xs rule: rev_induct)
  case (snoc i "is")
  have lt: "\<forall>j \<in> set is. j < i" and i: "i < length xs" and s: "sorted_wrt (<) is" using snoc.prems by (auto simp: sorted_wrt_append)
  have "subseq (map ((!) (take i xs)) is) (take i xs)" using snoc.IH [OF s, of "take i xs"] lt i by auto
  moreover have "map ((!) (take i xs)) is = map ((!) xs) is" using lt by simp
  moreover have "subseq [xs ! i] (drop i xs)" using i by (simp add: Cons_nth_drop_Suc [symmetric] subseq_singleton_left)
  ultimately have "subseq (map ((!) xs) is @ [xs ! i]) (take i xs @ drop i xs)" by (simp only: list_emb_append_mono)
  then show ?case by simp
qed simp

lemma moved_by_subseq:
  assumes "place_inv n M es s" "c < n" "unat (race_head (shared s)) \<le> unat (race_tail (shared s))"
  shows "subseq (moved_by c es) (published es)"
proof -
  have in_range: "unat i < length (published es) \<and> v = published es ! unat i" if "(c', i, v) \<in> set (moves es)" for c' i v
  proof -
    have "unat i \<in> set (moved_indices es)" using that by (force simp: moved_indices_def)
    then have "unat i < length (published es)" using assms(1,3) by (auto simp: place_inv_def)
    then show ?thesis using assms(1) that by (auto simp: place_inv_def)
  qed
  have "moved_by c es = [published es ! unat i. (c', i, v) \<leftarrow> moves es, c' = c]"
    unfolding moved_by_def by (rule arg_cong [where f = concat], rule map_cong [OF refl]) (use in_range in auto)
  also have "\<dots> = map ((!) (published es)) (indices_by c es)" by (simp add: indices_by_def map_concat o_def split_def if_distrib cong: if_cong)
  finally have "moved_by c es = map ((!) (published es)) (indices_by c es)" .
  moreover have "sorted_wrt (<) (indices_by c es)" using assms(1,2) by (simp add: place_inv_def)
  moreover have "\<forall>i \<in> set (indices_by c es). i < length (published es)" using in_range by (auto simp: indices_by_def)
  ultimately show ?thesis using subseq_nth by metis
qed


lemma dequeue_step_keeps:
  assumes "dequeue_step c d q = Some (d', q', e)"
  shows "race_tail q' = race_tail q" "published e = []" "\<forall>x \<in> set (moves e). fst x = c"
  using assms by (cases d; auto simp: Let_def split: option.splits if_splits)+

lemma alone_step:
  "d \<noteq> Idle \<Longrightarrow> dequeue_step c d q = Some (d', q', e) \<Longrightarrow>
    alone (Suc f) c d q = map_option (\<lambda>(q, es). (q, e @ es)) (alone f c d' q')"
  by (cases "alone f c d' q'") auto

lemma alone_idle [simp]: "alone f c Idle q = Some (q, [])"
  by (cases f) simp_all

lemma alone_keeps:
  "alone f c d q = Some (q', e) \<Longrightarrow> race_tail q' = race_tail q \<and> published e = [] \<and> (\<forall>x \<in> set (moves e). fst x = c)"
proof (induction f arbitrary: d q q' e)
  case (Suc f d q q' e)
  show ?case
  proof (cases "d = Idle")
    case False
    with Suc.prems obtain d1 q1 e1 e2 where 1: "dequeue_step c d q = Some (d1, q1, e1)" "alone f c d1 q1 = Some (q', e2)" "e = e1 @ e2"
      by (auto split: bind_splits)
    from Suc.IH [OF 1(2)] dequeue_step_keeps [OF 1(1)] 1(3) show ?thesis by auto
  qed (use Suc.prems in auto)
qed (auto split: if_splits)

lemma alone_moving:
  "alone f c d q = Some (q', e) \<Longrightarrow> d = Idle \<or> (\<exists>first index stop. d = Moving first index stop) \<Longrightarrow> race_head q' = race_head q"
proof (induction f arbitrary: d q q' e)
  case (Suc f d q q' e)
  show ?case
  proof (cases "d = Idle")
    case False
    with Suc.prems(1) obtain d1 q1 e1 e2 where 1: "dequeue_step c d q = Some (d1, q1, e1)" "alone f c d1 q1 = Some (q', e2)"
      by (auto split: bind_splits)
    from False Suc.prems(2) 1(1) have "race_head q1 = race_head q" "d1 = Idle \<or> (\<exists>first index stop. d1 = Moving first index stop)"
      by (auto simp: Let_def split: option.splits if_splits)
    with Suc.IH [OF 1(2)] show ?thesis by simp
  qed (use Suc.prems in auto)
qed (auto split: if_splits)

lemma only_by:
  assumes "\<forall>x \<in> set (moves e). fst x = c"
  shows "indices_by c e = moved_indices e"
proof -
  have "[unat i. (c', i, v) \<leftarrow> xs, c' = c] = [unat i. (c', i, v) \<leftarrow> xs]" if "\<forall>x \<in> set xs. fst x = c" for xs :: "(nat \<times> u64 \<times> 'a) list"
    using that by (induction xs) auto
  then show ?thesis using assms by (simp add: indices_by_def moved_indices_def)
qed

text \<open>The head after a call that nothing overlaps.\<close>

lemma alone_head:
  assumes run: "alone (6 + f) c (Starting w) q = Some (q', e)" and w: "w \<noteq> Some 0"
    and count: "unat (race_optimistic q) = unat (race_overcommit q) + unat (race_head q)"
    and b: "unat (race_optimistic q) < 2 ^ 63" "unat (race_tail q) < 2 ^ 63" "unat (race_head q) \<le> unat (race_tail q)"
  shows "unat (race_head q') = unat (race_head q) + min (unat (asked w)) (unat (race_tail q) - unat (race_head q))"
proof -
  let ?T = "race_tail q" and ?V = "race_overcommit q" and ?O = "race_optimistic q" and ?H = "race_head q"
  have six: "6 + f = Suc (Suc (Suc (Suc (Suc (Suc f)))))" by simp
  have V: "unat ?V \<le> unat ?O" using count by simp
  have 2: "alone (6 + f) c (Starting w) q = alone (Suc (Suc (Suc (Suc f)))) c (Overcommit_read w ?T ?V) q"
    by (simp add: six alone_step option.map_ident split_def del: alone.simps(2))
  show ?thesis
  proof (cases "allowance w ?T (?O - ?V)")
    case None
    then have "unat ?T \<le> unat ?H" using allowance_None [OF V b(2,1) w] count by simp
    moreover have "q' = q" using run None unfolding 2 by (simp add: alone_step del: alone.simps(2))
    ultimately show ?thesis by simp
  next
    case (Some a)
    have a: "0 < unat a" "unat a = min (unat (asked w)) (unat ?T - unat ?H)"
      using allowance_Some [OF V b(2,1) w Some] count by linarith+
    let ?w = "map_option (\<lambda>_. a) w"
    have w': "?w \<noteq> Some 0" "asked ?w = a" using a(1) Some by auto
    have again: "allowance ?w ?T (?O - ?V) = Some a"
    proof (cases "allowance ?w ?T (?O - ?V)")
      case None
      then show ?thesis using allowance_None [OF V b(2,1) w'(1)] a count by simp
    next
      case (Some a')
      have "unat a' = unat a" using allowance_Some [OF V b(2,1) w'(1) Some] a w'(2) count by simp
      with Some show ?thesis by (simp add: word_unat_eq_iff)
    qed
    let ?q = "q\<lparr>race_optimistic := ?O + a, race_head := ?H + a\<rparr>"
    have "alone (6 + f) c (Starting w) q = alone f c (Moving ?H ?H (?H + a)) ?q"
      by (simp add: 2 Some again w'(2) alone_step option.map_ident split_def Let_def del: alone.simps(2))
    then have "race_head q' = ?H + a" using alone_moving [of f c "Moving ?H ?H (?H + a)" ?q q' e] run by simp
    moreover have "unat (?H + a) = unat ?H + unat a" using a(2) b by (intro unat_add_lem [THEN iffD1]) simp
    ultimately show ?thesis using a(2) by simp
  qed
qed

section \<open>Schedules\<close>

text \<open>A run from a list of who moves next; a move that is not enabled is none.\<close>

datatype 'a race_move = Offer "'a list" | Producer_moves | Ask nat "u64 option" | Thread_moves nat

fun play :: "nat \<Rightarrow> 'a race_move list \<Rightarrow> nat \<times> 'a race_event list \<times> 'a racing \<Rightarrow> (nat \<times> 'a race_event list \<times> 'a racing) option" where
  "play n [] x = Some x"
| "play n (Offer vs # ms) (k, es, s) =
     (case enqueuer s of
        Outside \<Rightarrow> play n ms (k + length vs, es, s\<lparr>enqueuer := begin_enqueue vs (shared s)\<rparr>)
      | Constructing i made todo \<Rightarrow> None)"
| "play n (Producer_moves # ms) (k, es, s) =
     (case enqueue_step (enqueuer s) (shared s) of (p, q, e) \<Rightarrow> play n ms (k, es @ e, s\<lparr>shared := q, enqueuer := p\<rparr>))"
| "play n (Ask c w # ms) (k, es, s) =
     (if c < n \<and> dequeuers s ! c = Idle \<and> w \<noteq> Some 0
      then play n ms (k + unat (asked w), es, s\<lparr>dequeuers := (dequeuers s)[c := Starting w]\<rparr>) else None)"
| "play n (Thread_moves c # ms) (k, es, s) =
     (if c < n then
        (case dequeue_step c (dequeuers s ! c) (shared s) of
           None \<Rightarrow> None
         | Some (d, q, e) \<Rightarrow> play n ms (k, es @ e, s\<lparr>shared := q, dequeuers := (dequeuers s)[c := d]\<rparr>))
      else None)"

lemma play_interleaving:
  "play n ms (k, es, s) = Some (k', es', s') \<Longrightarrow> interleaving n k es s \<Longrightarrow> interleaving n k' es' s'"
proof (induction n ms "(k, es, s)" arbitrary: k es s rule: play.induct)
  case (3 n ms k es s)
  obtain p q e where "enqueue_step (enqueuer s) (shared s) = (p, q, e)" by (metis prod_cases3)
  with 3 show ?case by (auto intro: interleaving.enqueue)
next
  case (5 n c ms k es s)
  then obtain d q e where d: "c < n" "dequeue_step c (dequeuers s ! c) (shared s) = Some (d, q, e)"
    "play n ms (k, es @ e, s\<lparr>shared := q, dequeuers := (dequeuers s)[c := d]\<rparr>) = Some (k', es', s')"
    by (auto split: if_splits option.splits)
  show ?case by (rule "5.hyps" [OF d(1,2) refl refl d(3) interleaving.dequeue [OF "5.prems"(2) d(1,2)]])
qed (auto split: if_splits option.splits enqueuer.splits intro: interleaving.intros)

text \<open>Two threads see one element; one of them loses it and gives its ticket back. Two more elements are published then.\<close>

definition two_for_one :: "nat race_move list" where
  "two_for_one = [Offer [7], Producer_moves, Producer_moves, Ask 0 None, Ask 1 None] @
     map Thread_moves [0, 0, 0, 1, 1, 1, 0, 1, 1, 0, 1, 0, 0, 0]"

lemma two_more_run:
  "\<exists>s. interleaving 2 5 [Published [7 :: nat], Nothing 1, Moved 0 0 7, Published [8, 9]] s \<and> dequeuers s = [Idle, Idle]"
proof -
  have start: "(race_start 2 :: nat racing) = \<lparr>shared = shared (race_start 2), enqueuer = Outside, dequeuers = [Idle, Idle]\<rparr>"
    by (simp add: race_start_def numeral_2_eq_2)
  have "\<exists>s. play 2 (two_for_one @ [Offer [8, 9], Producer_moves, Producer_moves, Producer_moves]) (0, [], race_start 2) =
      Some (5, [Published [7], Nothing 1, Moved 0 0 7, Published [8, 9]], s) \<and> dequeuers s = [Idle, Idle]"
    by (subst start) (simp add: two_for_one_def race_start_def begin_enqueue_def allowance_def asked_def circular_less_than_def
      end_of_block_def base_of_def BLOCK_SIZE_def Let_def)
  then show ?thesis using play_interleaving [OF _ interleaving.start] by blast
qed

text \<open>
  When no other thread is in a call, \<open>dequeue\<close> takes the next element if there is one, and
  \<open>dequeue_bulk\<close> as many of the next ones as there are and it may take: whatever calls overlapped before, the
  optimistic counter and the overcommit have not lost count. It returns after at most six steps and two
  for each element it may take.
\<close>

lemma lone_dequeue:
  assumes "interleaving n k es s" "k + unat (asked w) < 2 ^ 63" "\<forall>c<n. dequeuers s ! c = Idle" "c < n" "w \<noteq> Some 0"
  shows "\<exists>q e. alone (6 + 2 * unat (asked w)) c (Starting w) (shared s) = Some (q, e) \<and>
    map (snd \<circ> snd) (moves e) = take (unat (asked w)) (drop (length (moves es)) (published es))"
proof -
  have k: "k < 2 ^ 63" using assms(2) by simp
  have inv: "race_inv n k es s" by (rule reachable_race_inv [OF assms(1) k])
  then obtain S F M where t: "ticket_inv n k S F s" and p: "place_inv n M es s" by (auto simp: race_inv_def)
  let ?q = "shared s" and ?m = "unat (asked w)"
  let ?T = "unat (race_tail ?q)" and ?H = "unat (race_head ?q)" and ?O = "race_optimistic ?q" and ?V = "race_overcommit ?q"
  note b = race_bounds [OF t k] and idle = all_idle [OF inv k assms(3)]
  have T: "length (published es) = ?T" and len: "length (dequeuers s) = n" using p by (simp_all add: place_inv_def)
  let ?s = "s\<lparr>dequeuers := (dequeuers s)[c := Starting w]\<rparr>"
  have "interleaving n (k + ?m) es ?s" using assms(3,4) by (intro interleaving.call_dequeue [OF assms(1)]) (simp_all add: assms(5))
  from alone_returns [OF this assms(2,4), of "6 + 2 * ?m"] obtain q e where
    a: "alone (6 + 2 * ?m) c (Starting w) ?q = Some (q, e)"
      "interleaving n (k + ?m) (es @ e) (s\<lparr>shared := q, dequeuers := (dequeuers s)[c := Idle]\<rparr>)"
    using len assms(4) by auto
  let ?s' = "s\<lparr>shared := q, dequeuers := (dequeuers s)[c := Idle]\<rparr>"
  have inv': "race_inv n (k + ?m) (es @ e) ?s'" by (rule reachable_race_inv [OF a(2) assms(2)])
  have "\<forall>c'<n. dequeuers ?s' ! c' = Idle" using assms(3,4) len by (simp add: nth_list_update)
  note idle' = all_idle [OF inv' assms(2) this]
  note keeps = alone_keeps [OF a(1)]
  let ?H' = "unat (race_head q)"
  have H': "?H' = ?H + min ?m (?T - ?H)" by (rule alone_head [OF a(1) assms(5) idle(1) b(1-3)])
  obtain M' where p': "place_inv n M' (es @ e) ?s'" using inv' by (auto simp: race_inv_def)
  have mine: "indices_by c e = moved_indices e" using keeps by (simp add: only_by)
  have "sorted_wrt (<) (indices_by c (es @ e))" using p' assms(4) by (simp add: place_inv_def)
  then have sorted: "sorted_wrt (<) (moved_indices e)" by (simp add: mine sorted_wrt_append)
  have "distinct (moved_indices (es @ e))" using p' by (simp add: place_inv_def)
  moreover have "set (moved_indices es) \<union> set (moved_indices e) = {..<?H'}" using idle'(2) by simp
  ultimately have "set (moved_indices e) = {..<?H'} - {..<?H}" unfolding moved_indices_simps distinct_append idle(2) by blast
  also have "\<dots> = set [?H..<?H']" by auto
  finally have ix: "moved_indices e = [?H..<?H']"
    using sorted by (intro strict_sorted_equal) simp_all
  have "v = published es ! unat i" if "(c', i, v) \<in> set (moves e)" for c' i v
    using p' that keeps by (fastforce simp: place_inv_def)
  then have "map (snd \<circ> snd) (moves e) = map ((!) (published es)) (moved_indices e)"
    unfolding moved_indices_def by (induction "moves e") auto
  also have "\<dots> = take (?H' - ?H) (drop ?H (published es))"
    unfolding ix by (rule nth_equalityI) (use T H' in auto)
  also have "\<dots> = take ?m (drop ?H (published es))" using T H' by (simp add: min_def)
  finally show ?thesis using a(1) idle(3) by simp
qed

section \<open>Properties\<close>

text \<open>
  C26. However the steps of the producer and of the threads that dequeue are interleaved, while the calls offer and ask for less
  than \<open>2 ^ 63\<close> elements: no element is received twice; what is received at an index is what was enqueued there; each
  thread receives elements in the order they were enqueued; a thread in a call always finds the element and the block
  it is to take and gets nearer to the end of its call with every step, whatever the others do; and whenever
  no thread is in a call, the elements received are the first ones enqueued, and a call that nothing overlaps then takes
  the next ones, as many as there are and it asks for: overlapping calls do not make the counters lose count.
\<close>

theorem concurrent_dequeues:
  assumes "interleaving n k es s" "k < 2 ^ 63"
  shows "distinct (moved_indices es) \<and>
    (\<forall>(c, i, v) \<in> set (moves es). unat i < length (published es) \<and> v = published es ! unat i) \<and>
    (\<forall>c<n. subseq (moved_by c es) (published es)) \<and>
    (\<forall>c<n. dequeuers s ! c \<noteq> Idle \<longrightarrow>
      (\<exists>d q e. dequeue_step c (dequeuers s ! c) (shared s) = Some (d, q, e) \<and> steps_left d < steps_left (dequeuers s ! c))) \<and>
    ((\<forall>c<n. dequeuers s ! c = Idle) \<longrightarrow> set (moved_indices es) = {..<length (moves es)} \<and>
      (\<forall>c w. c < n \<and> w \<noteq> Some 0 \<and> k + unat (asked w) < 2 ^ 63 \<longrightarrow>
        (\<exists>q e. alone (6 + 2 * unat (asked w)) c (Starting w) (shared s) = Some (q, e) \<and>
          map (snd \<circ> snd) (moves e) = take (unat (asked w)) (drop (length (moves es)) (published es)))))"
proof -
  have inv: "race_inv n k es s" by (rule reachable_race_inv [OF assms])
  then obtain M where p: "place_inv n M es s" by (auto simp: race_inv_def)
  have head: "unat (race_head (shared s)) \<le> unat (race_tail (shared s))" by (rule race_inv_facts(3) [OF inv assms(2)])
  have "unat i \<in> set (moved_indices es)" if "(c, i, v) \<in> set (moves es)" for c i v
    using that by (force simp: moved_indices_def)
  then have "unat i < length (published es) \<and> v = published es ! unat i" if "(c, i, v) \<in> set (moves es)" for c i v
    using p head that by (fastforce simp: place_inv_def)
  moreover have "distinct (moved_indices es)" using p by (simp add: place_inv_def)
  moreover have "subseq (moved_by c es) (published es)" if "c < n" for c by (rule moved_by_subseq [OF p that head])
  moreover have "set (moved_indices es) = {..<length (moves es)}" if "\<forall>c<n. dequeuers s ! c = Idle"
    using all_idle(2,3) [OF inv assms(2) that] by simp
  ultimately show ?thesis using dequeue_progress [OF assms] lone_dequeue [OF assms(1)] by blast
qed

theorem concurrent_dequeues_witness:
  "\<exists>s q e. interleaving 2 5 [Published [7 :: nat], Nothing 1, Moved 0 0 7, Published [8, 9]] s \<and>
     subseq (moved_by 0 [Published [7 :: nat], Nothing 1, Moved 0 0 7, Published [8, 9]]) [7, 8, 9] \<and>
     alone 26 1 (Starting (Some 10)) (shared s) = Some (q, e) \<and> map (snd \<circ> snd) (moves e) = [8, 9]"
proof -
  let ?es = "[Published [7 :: nat], Nothing 1, Moved 0 0 7, Published [8, 9]]"
  from two_more_run obtain s where s: "interleaving 2 5 ?es s" "dequeuers s = [Idle, Idle]" by blast
  have idle: "\<forall>c<2. dequeuers s ! c = Idle" using s(2) by (auto simp: less_2_cases_iff)
  have k: "(5 :: nat) < 2 ^ 63" and a: "unat (asked (Some 10)) = 10" by (simp_all add: asked_def)
  have c: "subseq (moved_by 0 ?es) (published ?es)" using concurrent_dequeues [OF s(1) k] by auto
  have lone: "\<forall>c w. c < 2 \<and> w \<noteq> Some 0 \<and> 5 + unat (asked w) < 2 ^ 63 \<longrightarrow>
      (\<exists>q e. alone (6 + 2 * unat (asked w)) c (Starting w) (shared s) = Some (q, e) \<and>
        map (snd \<circ> snd) (moves e) = take (unat (asked w)) (drop (length (moves ?es)) (published ?es)))"
    using concurrent_dequeues [OF s(1) k] idle by (elim conjE) (rule mp [THEN conjunct2])
  from lone [rule_format, of 1 "Some 10"] c s(1) show ?thesis by (intro exI [of _ s]) (simp add: a)
qed

end
