(* ===== verification/Spec2Isabelle.thy ===== *)
theory Spec2Isabelle
  imports Two_Reactors Aof_Stream Program_Start Cq_Exit Cq_Sub_Lifetime Cq_Token_Queue Cq_Race_Ok
begin

text \<open>
  DbSync is a key-value server that speaks RESP. \<open>src/src/main.cpp\<close> starts one thread, a reactor, per
  physical core. Each reactor has its own \<open>io_uring\<close>, its own pool of connections and its own
  engine with one part of the keys; a command on a key of another reactor is sent to it as a message
  through its inbox, a \<open>moodycamel::ConcurrentQueue\<close>, and answered by a message, with an eventfd per reactor to wake
  it. SETs are logged to one append-only file per reactor and replayed at the start.

  Which theory models what, with the files under \<open>src/\<close>:

  \<^item> \<open>Prelude\<close>: machine types, the result \<open>ub + 'a\<close> of an expression that may be undefined in C++
    (\<open>Inl\<close> of a reason), checked access to vectors, conversions between integer types.
  \<^item> \<open>Charconv\<close>: \<open>std::from_chars\<close> and \<open>std::to_string\<close> on decimal integers, as far as they are used.
    \<open>Resp_Format\<close>: the replies of \<open>include/command_handler.hpp\<close>. \<open>Resp_Parser\<close>:
    \<open>RespParser::parse\<close> of \<open>include/resp_parser.hpp\<close>; a \<open>string_view\<close> is the bytes it shows.
    \<open>Commands\<close>: \<open>parse_ttl\<close>, \<open>process_local_get\<close>, \<open>process_local_set\<close>.
  \<^item> \<open>Engine\<close>: \<open>DbSyncEngine\<close> of \<open>include/dbsync_engine.hpp\<close>: hash, partition, \<open>set\<close>, \<open>get\<close>, \<open>del\<close>. A shard, an
    \<open>unordered_map\<close>, is a partial map; the clock is an argument. The lemmas view the engine as one
    map \<open>kv\<close> and instantiate the contract \<open>key_value_store\<close>. \<open>Aof\<close>: \<open>append_aof_set\<close>, \<open>recover_from_aof\<close> and the constructor;
    the file is the bytes that \<open>read\<close> returned.
  \<^item> \<open>Connection\<close>: \<open>Connection\<close> and \<open>ConnectionPool\<close> of \<open>include/connection.hpp\<close>, with the contract
    \<open>slot_allocator\<close>; a pointer to a connection is its index in the pool.
  \<^item> \<open>Cq_Words\<close>, \<open>Cq_Block\<close>, \<open>Cq_Producer\<close>, \<open>Cq_Subqueue\<close>, \<open>Cq_Hash\<close>, \<open>Cq_Queue\<close>: the part of
    \<open>include/concurrentqueue.h\<close> the program uses: indices that wrap, blocks with their free list, the
    block index of an implicit producer and its \<open>enqueue\<close> and \<open>dequeue\<close>, the hash of thread ids, and
    \<open>enqueue\<close>, \<open>try_dequeue\<close> and \<open>size_approx\<close> of the queue, with \<open>message_queue\<close> as the contract. Heap objects have
    addresses in a map, and an argument says which allocations succeed. A failed assertion of
    the source or a broken pointer is \<open>None\<close>. \<open>Cq_Accept\<close>: what holds while the allocator does not fail.
    \<open>Cq_Bulk\<close>: \<open>try_dequeue_bulk\<close>, which is single dequeues. \<open>Cq_Bulk_Enqueue\<close>: \<open>enqueue_bulk\<close>, all or nothing. \<open>Cq_Lifetime\<close>: the
    destructors, with the contract \<open>disposable_queue\<close>. \<open>Cq_Notifier\<close>, \<open>Cq_Exit\<close>: a thread that ends.
  \<^item> \<open>Cq_Explicit\<close>, \<open>Cq_Explicit_Index\<close>, \<open>Cq_Explicit_Ok\<close>: the explicit producer of the same file, a ring of
    blocks that are reused, and its index as a ring of pairs. \<open>Cq_Explicit_Bulk\<close>, \<open>Cq_Explicit_Reserve\<close>,
    \<open>Cq_Explicit_Bulk_Enqueue\<close>: its bulk operations; one that fails half way breaks the queue, so a failed bulk enqueue is
    defined but nothing is claimed of the producer after it. \<open>Cq_Explicit_Lifetime\<close>: its destructor. \<open>Cq_Two_Producers\<close>,
    \<open>Cq_Sub_Lifetime\<close>: the contracts \<open>sub_queue\<close> and \<open>disposable_sub_queue\<close>, which both
    kinds of producers keep. \<open>Cq_Token\<close>, \<open>Cq_Token_Ok\<close>, \<open>Cq_Token_Bulk\<close>, \<open>Cq_Token_Queue\<close>: producer and consumer tokens over a
    list of producers of both kinds, with the contract \<open>bounded_queue\<close>. The program itself creates no tokens.
  \<^item> \<open>Cq_Race\<close>: one sub-queue used by several threads at a time. \<open>enqueue\<close>, \<open>dequeue\<close> and \<open>dequeue_bulk\<close> are steps of one
    access to the shared indices each, in any order; the blocks are what the index finds. \<open>Cq_Race_Tickets\<close>: the tickets of the
    optimistic counter, and why the head never passes the tail. \<open>Cq_Race_Places\<close>: who owns which element, and when a
    block is given back. \<open>Cq_Race_Ok\<close>: what follows for every interleaving.
  \<^item> \<open>Itc_Message\<close>, \<open>Itc\<close>: \<open>ITCMessage\<close> and \<open>ITCContext\<close> of \<open>include/itc_queue.hpp\<close>, with the contracts \<open>message_bus\<close> and
    \<open>bulk_bus\<close>. What an uninitialised message on the stack holds is an argument.
  \<^item> \<open>Reactor\<close>: \<open>run_reactor\<close>, one definition per lambda and per arm of its loop. The ring is the entries
    prepared and the operations submitted. \<open>Reactor_Inv\<close>, \<open>System\<close>, \<open>Startup\<close>: the invariant of one
    reactor and of its messages under way, and that every handler keeps it. \<open>Cluster\<close>: the
    program as a step relation over all reactors, and the states it reaches.
  \<^item> \<open>Serve\<close>: what a reactor answers, refining a map. \<open>Aof_Stream\<close>: the log as a stream.
    \<open>Wakeup\<close>: that no message is slept on. \<open>Program_Start\<close>: \<open>create_shared_socket\<close> and the numbers of
    \<open>main\<close>. \<open>Runs\<close>, \<open>Two_Reactors\<close>: concrete runs the properties are
    applied to.

  How the parts interact: \<open>Reactor\<close> calls the parser on the bytes of a read, \<open>fast_owner\<close> of the
  engine to route, \<open>set\<close>, \<open>get\<close> and \<open>append_aof_set\<close> on its own engine, \<open>push\<close>, \<open>pop\<close> and \<open>signal\<close>
  of the inboxes, \<open>acquire\<close> and \<open>release\<close> of the pool. The properties here are those of reachable states
  of the whole program; those of one part are at the end of its theory.

  What the groups of lemmas show. The engine is a map, partitioned by the hash; every
  defined operation keeps that. The queue keeps for each thread the list of what it sent, in order. The
  invariant of a reactor: every client has one operation in the ring, or is suspended and has as many empty
  placeholders as results are awaited; the messages under way to it, requests in other inboxes
  and responses in its own, name distinct placeholders. So a response never meets a closed or reused
  descriptor, the ring never overflows, and the awaited count never goes wrong.

  Bounds. At most \<open>2 ^ 59\<close> threads and operations on a queue; reactors such that \<open>512 * n\<close> fits an
  \<open>int\<close>, which \<open>config_ok\<close> asks for, and at most 64 where marks are used. Loops over bytes are total
  functions with a measure; the loops of the queue that need not end are partial functions, and the lemmas prove that they
  return. Fuel is used only in \<open>alone\<close> of \<open>Cq_Race_Ok\<close>, which follows one thread: six steps and two for each element are proved enough.

  Assumptions, all in \<open>config_ok\<close> and \<open>kernel_result\<close>: thread ids are none of the two
  the hash reserves; the ring takes the number of entries it was made for (\<open>io_uring_queue_init\<close>); an accepted
  descriptor is not open in the reactor; a read returns the bytes it counts; a read of an
  eventfd does not fail. A call of a queue operation is one step, and so is a
  handler of a reactor with its pushes and signals. \<open>Cq_Race\<close> is the exception: there the calls of one sub-queue overlap,
  with memory that is sequentially consistent and fewer than \<open>2 ^ 63\<close> elements offered and asked for; the growth of the
  index, the free list and the list of producers are not interleaved. The source promises of \<open>try_dequeue\<close> only that
  a queue it finds empty was likely empty; that it was is proved here for calls that do not overlap.

  Not modelled: affinity and the threads themselves, and \<open>io_uring_queue_init\<close>, which only call the operating system; that
  \<open>add_implicit_producer\<close> subscribes the producer to the end of its thread and the destructor unsubscribes it (\<open>Cq_Notifier\<close> has
  both calls by themselves); swap and move of
  queues and tokens, which the program does not use and which exchange or copy fields;
  \<open>include/io_context.hpp\<close> (a duplicate that nothing includes), \<open>utils.hpp\<close>, \<open>debug.hpp\<close> (printing) and
  \<open>bg_processes.hpp\<close> (commented out).
\<close>

section \<open>Reachable states\<close>

lemma running_node:
  assumes "reachable cfg eventfds s" "config_ok cfg" "j < g_num_reactors cfg" "nodes s ! j = Some nd"
  obtains M where "holds cfg (bus s) M" "msgs_ok (g_num_reactors cfg) M" "node_inv cfg j {} (node_reactor nd) M"
  using reachable_inv [OF assms(1,2)] assms(3,4) by (fastforce simp: cluster_inv_def slot_inv_def)

text \<open>
  C1. In every reachable state, a client of a reactor either waits for its one operation of the
  ring, a read or a send of its response, and then no result of another reactor is awaited, or it is
  suspended with as many placeholders among its results as results are awaited, at least one, and
  has no operation.
\<close>

theorem client_waits_for_something:
  assumes "reachable cfg eventfds s" "config_ok cfg" "j < g_num_reactors cfg" "nodes s ! j = Some nd"
    and "fd_to_conn (node_reactor nd) d = Some i"
  shows "fd (conn_at i (node_reactor nd)) = d \<and>
    pending_itc (conn_at i (node_reactor nd)) = int (count_list (pipeline_results (conn_at i (node_reactor nd))) []) \<and>
    (if suspended (conn_at i (node_reactor nd))
     then 0 < pending_itc (conn_at i (node_reactor nd)) \<and> filter (\<lambda>op. sqe_data op = i) (ops (node_reactor nd)) = []
     else pending_itc (conn_at i (node_reactor nd)) = 0 \<and>
       (\<exists>op. filter (\<lambda>op. sqe_data op = i) (ops (node_reactor nd)) = [op] \<and>
         sqe_op op \<in> {Read_conn d, Send_op d (response_data (conn_at i (node_reactor nd)))}))"
proof -
  let ?r = "node_reactor nd"
  let ?c = "conn_at i ?r"
  from running_node [OF assms(1-4)] obtain M where "node_inv cfg j {} ?r M" .
  then have l: "local_inv ?r {}" by (simp add: node_inv_def)
  have c: "client_ok ?r {} d i" by (rule client [OF l assms(5)])
  have d: "distinct (map sqe_data (ops ?r))" and m: "\<forall>op \<in> set (ops ?r). op_matches ?r op" using l by (simp_all add: local_inv_def)
  have none: "filter (\<lambda>op. sqe_data op = i) (ops ?r) = []" if "i \<notin> op_slots ?r"
    using that by (auto simp: op_slots_def filter_empty_conv)
  have one: "\<exists>op. filter (\<lambda>op. sqe_data op = i) (ops ?r) = [op] \<and> sqe_op op \<in> {Read_conn d, Send_op d (response_data ?c)}"
    if "i \<in> op_slots ?r"
  proof -
    from that obtain op where op: "op \<in> set (ops ?r)" "sqe_data op = i" by (auto simp: op_slots_def)
    have "filter (\<lambda>op. sqe_data op = i) xs = [op]" if "distinct (map sqe_data xs)" "op \<in> set xs" for xs
      using that op(2) by (induction xs) (auto simp: filter_empty_conv image_iff)
    with d op(1) have f: "filter (\<lambda>op. sqe_data op = i) (ops ?r) = [op]" by blast
    have om: "op_matches ?r op" using m op(1) by blast
    have ty: "conn_type ?c \<in> {READ, WRITE}" using c by (simp add: client_ok_def Let_def)
    have inj: "d' = d" if "fd_to_conn ?r d' = Some i" for d' using client_inj [OF l that assms(5)] .
    have "sqe_op op \<in> {Read_conn d, Send_op d (response_data ?c)}"
      using om ty op(2) l inj by (cases "sqe_op op") (auto simp: op_matches_def Let_def local_inv_def)
    with f show ?thesis by blast
  qed
  show ?thesis
    using c none one by (cases "suspended ?c") (simp_all add: client_ok_def Let_def del: One_nat_def)
qed

theorem client_waits_for_something_witness:
  "\<exists>s r i. reachable (roomy 2) [7, 8] s \<and> fd_to_conn r 12 = Some i \<and> fd (conn_at i r) = 12"
proof -
  from run_client [of 2 "[7, 8]"] obtain s r i where s: "reachable (roomy 2) [7, 8] s"
    "nodes s ! 0 = Some \<lparr>node_reactor = r, node_phase = Draining 0, event_read = False\<rparr>" "fd_to_conn r 12 = Some i" by auto
  from client_waits_for_something [OF s(1) config_ok_roomy _ s(2), of 12 i] s show ?thesis by auto
qed

text \<open>
  C3. A response always finds its place: the next message of an inbox, when it is a response, is for
  a connection of that reactor that is suspended, and names a position of its pipeline that still
  holds a placeholder.
\<close>

theorem response_finds_placeholder:
  assumes "reachable cfg eventfds s" "config_ok cfg" "j < g_num_reactors cfg" "nodes s ! j = Some nd"
    and "itc_pop (int j) (bus s) = Inr (Some m, x')"
  shows "itc_type m \<noteq> RESP \<or>
    (\<exists>i. fd_to_conn (node_reactor nd) (conn_fd m) = Some i \<and> suspended (conn_at i (node_reactor nd)) \<and> 0 \<le> pipeline_idx m \<and>
      pipeline_idx m < int (length (pipeline_results (conn_at i (node_reactor nd)))) \<and>
      pipeline_results (conn_at i (node_reactor nd)) ! nat (pipeline_idx m) = [])"
proof (cases "itc_type m = RESP")
  case True
  let ?r = "node_reactor nd"
  from running_node [OF assms(1-4)] obtain M where M: "holds cfg (bus s) M" "node_inv cfg j {} ?r M" .
  from ib.pop_law [OF M(1) assms(3)] assms(5) have "(j, m) \<in># M" by auto
  then have "pipeline_idx m \<in># flight M j (conn_fd m)" using True by (force simp: flight_def addressee_def)
  moreover have "flight_ok ?r (flight M j (conn_fd m)) (conn_fd m)" and l: "local_inv ?r {}" using M(2) by (simp_all add: node_inv_def)
  ultimately obtain i where i: "fd_to_conn ?r (conn_fd m) = Some i"
    and F: "int (size (flight M j (conn_fd m))) \<le> pending_itc (conn_at i ?r)" "0 \<le> pipeline_idx m"
      "pipeline_idx m < int (length (pipeline_results (conn_at i ?r)))" "pipeline_results (conn_at i ?r) ! nat (pipeline_idx m) = []"
    by (auto simp: flight_ok_def Let_def split: option.splits)
  have "0 < size (flight M j (conn_fd m))" using \<open>pipeline_idx m \<in># flight M j (conn_fd m)\<close>
    by (metis gr0I size_eq_0_iff_empty empty_iff set_mset_empty)
  then have "0 < pending_itc (conn_at i ?r)" using F(1) by linarith
  then have "suspended (conn_at i ?r)" using client [OF l i] by (simp add: client_ok_def Let_def split: if_splits)
  with i F show ?thesis by blast
qed simp

theorem response_finds_placeholder_witness:
  "\<exists>s j nd m x i. reachable (roomy 2) [7, 8] s \<and> nodes s ! j = Some nd \<and> itc_pop (int j) (bus s) = Inr (Some m, x) \<and>
     itc_type m = RESP \<and> fd_to_conn (node_reactor nd) (conn_fd m) = Some i \<and> suspended (conn_at i (node_reactor nd))"
proof -
  have "\<forall>j < 2. (0 :: int) \<le> [7, 8] ! j" by (simp add: less_2_cases_iff)
  from run_response [of "''k''", OF _ _ _ this] obtain s j nd m x where s: "reachable (roomy 2) [7, 8] s" "j < 2" "nodes s ! j = Some nd"
    "itc_pop (int j) (bus s) = Inr (Some m, x)" "itc_type m = RESP" by (auto simp: line_free_def)
  from response_finds_placeholder [OF s(1) config_ok_roomy _ s(3,4)] s show ?thesis by fastforce
qed

text \<open>
  C12. The type of the traffic: the next message of an inbox comes from another reactor of the program and
  is no \<open>DEL_REQ\<close>. A request has a key, not empty and of at most 127 bytes, a SET has a value of at
  most 383, so that reading them is defined, and a key of less than 127 bytes is one the receiver owns.
\<close>

theorem messages_well_typed:
  assumes "reachable cfg eventfds s" "config_ok cfg" "j < g_num_reactors cfg" "nodes s ! j = Some nd"
    and "itc_pop (int j) (bus s) = Inr (Some m, x')"
  shows "0 \<le> sender_reactor m \<and> sender_reactor m < int (g_num_reactors cfg) \<and> sender_reactor m \<noteq> r_id (node_reactor nd) \<and>
    itc_type m \<noteq> DEL_REQ \<and>
    (itc_type m = RESP \<or>
      (\<exists>key. get_key m = Inr key \<and> key \<noteq> [] \<and> length key \<le> 127 \<and>
        (length key = 127 \<or> fast_owner (r_engine (node_reactor nd)) key = Inr (r_id (node_reactor nd))))) \<and>
    (itc_type m \<noteq> SET_REQ \<or> (\<exists>val. get_value m = Inr val \<and> length val \<le> 383))"
proof -
  let ?r = "node_reactor nd"
  from running_node [OF assms(1-4)] obtain M where M: "holds cfg (bus s) M" "msgs_ok (g_num_reactors cfg) M" "node_inv cfg j {} ?r M" .
  from ib.pop_law [OF M(1) assms(3)] assms(5) have "(j, m) \<in># M" by auto
  then have t: "message_typed (g_num_reactors cfg) j m" using M(2) by (auto simp: msgs_ok_def)
  have r: "r_id ?r = int j" "engine_ok cfg j (r_engine ?r)" using M(3) by (simp_all add: node_inv_def)
  have "fast_owner (r_engine ?r) key = Inr (int j)" if "owner_of 512 (int (g_num_reactors cfg)) key = int j" for key
    using r(2) that by (simp add: engine_ok_def fast_owner_wf)
  then show ?thesis using t r(1)
    by (cases "itc_type m") (auto simp: message_typed_def key_for_def)
qed

theorem messages_well_typed_witness:
  "\<exists>s t nd m. reachable (roomy 2) [7, 8] s \<and> nodes s ! t = Some nd \<and> itc_type m = SET_REQ \<and> get_key m = Inr ''k'' \<and>
     fast_owner (r_engine (node_reactor nd)) ''k'' = Inr (int t)"
proof -
  from run_forwarded [of "''k''" "[7, 8]"] obtain s t nd m x where s: "reachable (roomy 2) [7, 8] s" "t < 2" "nodes s ! t = Some nd"
    "itc_pop (int t) (bus s) = Inr (Some m, x)" "itc_type m = SET_REQ" "get_key m = Inr ''k''" by (auto simp: line_free_def)
  have "r_id (node_reactor nd) = int t" using running_inv(1) [OF s(1) _ _ s(2,3)] by simp
  with messages_well_typed [OF s(1) config_ok_roomy _ s(3,4)] s show ?thesis by auto
qed

text \<open>
  C9. What can go wrong at run time: in every reachable state, neither a round of the drain loop, nor
  the end of a drain, nor the handling of a completion prepares an entry the ring has no room for,
  fails an assertion of the queue, or divides by zero. What is left is what the keys and values
  of clients provoke (\<open>Bad_index\<close>, \<open>Bad_view\<close>), and the shift of the marks (\<open>Wide_shift\<close>).
\<close>

theorem handlers_never_fail:
  assumes "reachable cfg eventfds s" "config_ok cfg" "j < g_num_reactors cfg" "nodes s ! j = Some nd"
    and "message_ok msg" "\<And>k. message_ok (junk k)"
    and "op \<in> set (in_kernel (node_reactor nd))" "kernel_result (node_reactor nd) (sqe_op op) res bs"
    and "u \<in> {Null_sqe, Null_conn, Queue_failure, Div_by_zero, Signed_overflow}"
  shows "drain_one cfg now msg (node_reactor nd, bus s, marks) \<noteq> Inl u \<and>
    finish_drain cfg (node_reactor nd, bus s, marks) \<noteq> Inl u \<and>
    handle_completion cfg clock junk (sqe_data op) res bs (take_completion op (node_reactor nd), bus s) \<noteq> Inl u"
proof -
  from running_node [OF assms(1-4)] obtain M where M: "holds cfg (bus s) M" "msgs_ok (g_num_reactors cfg) M"
    "node_inv cfg j {} (node_reactor nd) M" .
  have room: "room_ok cfg" using assms(2) by (simp add: config_ok_def)
  have bad: "m \<noteq> Inl u" if "outcome m P" for m :: "ub + 'x" and P using that assms(9) by (auto simp: outcome_def)
  show ?thesis
    by (intro conjI bad [OF drain_one_ok [OF M(3,2,1) assms(3) room assms(5)]] bad [OF finish_drain_ok [OF M(3,1,2) room]]
        bad [OF handle_completion_ok [OF M(3) assms(7,8) M(2,1) assms(3) room assms(6)]])
qed

theorem handlers_never_fail_witness:
  "\<exists>s (nd :: node) op. reachable (roomy 2) [7, 8] s \<and> op \<in> set (in_kernel (node_reactor nd)) \<and>
     handle_completion (roomy 2) (\<lambda>_. 0) (\<lambda>_. blank_message) (sqe_data op) 12 [] (take_completion op (node_reactor nd), bus s) \<noteq> Inl Null_sqe"
proof -
  from run_waiting [of 2 "[7, 8]"] obtain s r where s: "reachable (roomy 2) [7, 8] s"
    "nodes s ! 0 = Some \<lparr>node_reactor = r, node_phase = Waiting, event_read = False\<rparr>"
    "\<lparr>sqe_op = Accept_op 4, sqe_data = 0\<rparr> \<in> set (in_kernel r)" "fd_to_conn r = Map.empty" by auto
  from handlers_never_fail [OF s(1) config_ok_roomy _ s(2) blank_message_ok blank_message_ok, of "\<lparr>sqe_op = Accept_op 4, sqe_data = 0\<rparr>" 12 "[]" Null_sqe
      0 0 "\<lambda>_. 0"] s
  show ?thesis by (intro exI [of _ s] exI [of _ "\<lparr>node_reactor = r, node_phase = Waiting, event_read = False\<rparr>"]
      exI [of _ "\<lparr>sqe_op = Accept_op 4, sqe_data = 0\<rparr>"]) (simp add: kernel_result_def)
qed

text \<open>
  C10. Shared-nothing: in every reachable state each running engine holds only keys that hash to its
  reactor, every key in the one shard its hash names; so no key is in two engines.
\<close>

theorem keys_stay_with_their_owner:
  assumes "reachable cfg eventfds s" "config_ok cfg" "j < g_num_reactors cfg" "nodes s ! j = Some nd"
    and "i < length (shards (r_engine (node_reactor nd)))" "k \<in> dom (shards (r_engine (node_reactor nd)) ! i)"
  shows "owner_of 512 (int (g_num_reactors cfg)) k = int j \<and> i = local_ix (r_engine (node_reactor nd)) k \<and>
    fast_owner (r_engine (node_reactor nd)) k = Inr (r_id (node_reactor nd))"
proof -
  from running_node [OF assms(1-4)] obtain M where "node_inv cfg j {} (node_reactor nd) M" .
  then have e: "engine_ok cfg j (r_engine (node_reactor nd))" and rid: "r_id (node_reactor nd) = int j" by (simp_all add: node_inv_def)
  then have "owns (r_engine (node_reactor nd)) k" "local_ix (r_engine (node_reactor nd)) k = i"
    using assms(5,6) by (auto simp: engine_ok_def partitioned_def)
  with e rid show ?thesis by (auto simp: engine_ok_def owns_def fast_owner_wf)
qed

theorem keys_stay_with_their_owner_witness:
  "\<exists>s j nd i. reachable (roomy 2) [7, 8] s \<and> nodes s ! j = Some nd \<and> ''k'' \<in> dom (shards (r_engine (node_reactor nd)) ! i) \<and>
     owner_of 512 2 ''k'' = int j"
proof -
  have "\<forall>j < 2. (0 :: int) \<le> [7, 8] ! j" by (simp add: less_2_cases_iff)
  from run_response [of "''k''", OF _ _ _ this] obtain s j nd where s: "reachable (roomy 2) [7, 8] s" "j < 2" "nodes s ! j = Some nd"
    "kv (r_engine (node_reactor nd)) ''k'' \<noteq> None" by (auto simp: line_free_def)
  let ?e = "r_engine (node_reactor nd)"
  have o: "owns ?e ''k''" and d: "''k'' \<in> dom (shards ?e ! local_ix ?e ''k'')" using s(4) by (auto simp: kv_def split: if_splits)
  have "engine_wf ?e" using running_inv(2) [OF s(1) _ _ s(2,3)] by (simp add: engine_ok_def)
  then have "local_ix ?e ''k'' < length (shards ?e)" using local_ix_less o by blast
  from keys_stay_with_their_owner [OF s(1) config_ok_roomy _ s(3) this d] s d show ?thesis by auto
qed

text \<open>
  C11. The ring is never asked for more than one operation of a connection: the operations prepared
  or submitted are of different connections, each in use, and there are at most
  \<open>MAX_CONN_PER_THREAD\<close> of them; a send carries exactly the response its connection holds.
\<close>

theorem one_operation_per_connection:
  assumes "reachable cfg eventfds s" "config_ok cfg" "j < g_num_reactors cfg" "nodes s ! j = Some nd"
  shows "distinct (map sqe_data (sq (node_reactor nd) @ in_kernel (node_reactor nd))) \<and>
    length (sq (node_reactor nd)) + length (in_kernel (node_reactor nd)) \<le> MAX_CONN_PER_THREAD \<and>
    (\<forall>op \<in> set (sq (node_reactor nd) @ in_kernel (node_reactor nd)). op_matches (node_reactor nd) op)"
proof -
  let ?r = "node_reactor nd"
  from running_node [OF assms] obtain M where "node_inv cfg j {} ?r M" .
  then have l: "local_inv ?r {}" by (simp add: node_inv_def)
  then have d: "distinct (map sqe_data (ops ?r))" and len: "length (conns (r_pool ?r)) = MAX_CONN_PER_THREAD" by (simp_all add: local_inv_def)
  have "set (map sqe_data (ops ?r)) \<subseteq> {..<MAX_CONN_PER_THREAD}" using op_slots_held [OF l] len by (auto simp: op_slots_def held_def)
  then have "card (set (map sqe_data (ops ?r))) \<le> MAX_CONN_PER_THREAD" using card_mono [of "{..<MAX_CONN_PER_THREAD}"] by simp
  then have "length (ops ?r) \<le> MAX_CONN_PER_THREAD" using distinct_card [OF d] by simp
  with d l show ?thesis by (auto simp: ops_def local_inv_def)
qed

theorem one_operation_per_connection_witness:
  "\<exists>s r. reachable (roomy 2) [7, 8] s \<and> length (in_kernel r) = 2 \<and> (\<forall>op \<in> set (in_kernel r). op_matches r op)"
proof -
  from run_waiting [of 2 "[7, 8]"] obtain s r where s: "reachable (roomy 2) [7, 8] s"
    "nodes s ! 0 = Some \<lparr>node_reactor = r, node_phase = Waiting, event_read = False\<rparr>" "length (in_kernel r) = 2" by auto
  from one_operation_per_connection [OF s(1) config_ok_roomy _ s(2)] s show ?thesis by auto
qed

text \<open>
  C2. No wakeup is lost: a reactor that waits for completions while a message is in its inbox, and
  that has an eventfd, has the read of it in the ring, and either that read is done or can be done
  by the kernel now, or a reactor that is still draining has it marked for a signal.
\<close>

theorem no_lost_wakeup:
  assumes "reachable cfg eventfds s" "config_ok cfg" "j < g_num_reactors cfg" "nodes s ! j = Some nd"
    and "node_phase nd = Waiting" "0 \<le> event_fds (bus s) ! j" "itc_pop (int j) (bus s) = Inr (Some m, x')"
  shows "(\<exists>op \<in> set (in_kernel (node_reactor nd)). sqe_op op = Read_event (event_fds (bus s) ! j)) \<and>
    (event_read nd \<or> marked_by s j \<or>
     (\<exists>s' nd'. cluster_step cfg s s' \<and> nodes s' ! j = Some nd' \<and> event_read nd'))"
proof -
  let ?d = "event_fds (bus s) ! j"
  have a: "awake s j nd" using reachable_awake [OF assms(1,2)] assms(3,4) by (simp add: wake_inv_def)
  have "ready j (bus s)" using assms(7) by (auto simp: ready_def)
  with a assms(5,6) have w: "event_read nd \<or> event_counters (bus s) ! j \<noteq> 0 \<or> marked_by s j" by (simp add: awake_def)
  from a assms(5) obtain op where op: "op \<in> set (in_kernel (node_reactor nd))" "sqe_op op = Read_event ?d"
    by (force simp: awake_def armed_def ops_def)
  have len: "length (nodes s) = g_num_reactors cfg" "j < length (event_fds (bus s))" "j < length (event_counters (bus s))"
    using reachable_inv [OF assms(1,2)] assms(3) by (auto simp: cluster_inv_def bus_holds_def itc_repr_def)
  have "\<exists>s' nd'. cluster_step cfg s s' \<and> nodes s' ! j = Some nd' \<and> event_read nd'"
    if c: "event_counters (bus s) ! j \<noteq> 0" "\<not> event_read nd"
  proof -
    let ?x = "(bus s)\<lparr>event_counters := (event_counters (bus s))[j := 0]\<rparr>"
    have "clear_signal (int j) (bus s) = Inr ?x"
      using len assms(6) by (simp add: clear_signal_def get_event_fd_def)
    from cluster_step.event [OF assms(3,4) c(2) op c(1) this]
    have "cluster_step cfg s (set_node j (node_reactor nd) (node_phase nd) True ?x s)" .
    then show ?thesis using assms(3) len(1) by (intro exI) auto
  qed
  with w op show ?thesis by blast
qed

theorem no_lost_wakeup_witness:
  "\<exists>s j nd m x op. reachable (roomy 2) [7, 8] s \<and> nodes s ! j = Some nd \<and> itc_pop (int j) (bus s) = Inr (Some m, x) \<and>
     op \<in> set (in_kernel (node_reactor nd)) \<and> sqe_op op = Read_event (event_fds (bus s) ! j)"
proof -
  have "\<forall>j < 2. (0 :: int) \<le> [7, 8] ! j" by (simp add: less_2_cases_iff)
  from run_response [of "''k''", OF _ _ _ this] obtain s j nd m x where s: "reachable (roomy 2) [7, 8] s" "j < 2" "nodes s ! j = Some nd"
    "node_phase nd = Waiting" "0 \<le> event_fds (bus s) ! j" "itc_pop (int j) (bus s) = Inr (Some m, x)" by (auto simp: line_free_def)
  from no_lost_wakeup [OF s(1) config_ok_roomy _ s(3-6)] s show ?thesis by fastforce
qed

text \<open>
  C40. The marks are shifted by the number of the reactor and have 64 bits: with more than 64
  reactors, each with its event descriptor and counter, the end of every drain is undefined, whatever reactors it marked.
\<close>

theorem more_than_64_reactors:
  assumes "64 < g_num_reactors cfg"
    and "length (event_fds x) = g_num_reactors cfg" "length (event_counters x) = g_num_reactors cfg"
  shows "finish_drain cfg (r, x, marks) = Inl Wide_shift"
proof -
  have none: "signal_marked marks (js @ 64 # js') y = Inl Wide_shift"
    if "\<forall>j \<in> set js. j < 64" "length (event_fds y) = g_num_reactors cfg" "length (event_counters y) = g_num_reactors cfg" for js js' y
    using that
  proof (induction js arbitrary: y)
    case (Cons j js)
    have "j < length (event_fds y)" "j < length (event_counters y)" using Cons.prems assms(1) by auto
    then obtain b z where z: "itc_signal (int j) y = Inr (b, z)" "length (event_fds z) = length (event_fds y)"
      "length (event_counters z) = length (event_counters y)"
      by (fastforce simp: itc_signal_def get_event_fd_def split: if_splits)
    show ?case using Cons.IH [of y] Cons.IH [of z] Cons.prems z by (simp add: shift_1ULL_def)
  qed (simp add: shift_1ULL_def)
  have "[0..<g_num_reactors cfg] = [0..<64] @ 64 # [65..<g_num_reactors cfg]"
    using assms upt_add_eq_append [of 0 64 "g_num_reactors cfg - 64"] by (simp add: upt_conv_Cons)
  then show ?thesis using none [of "[0..<64]" x] assms(2,3) by (simp add: finish_drain_def)
qed

theorem more_than_64_reactors_witness:
  "finish_drain (roomy 65) (reactor_of single_engine,
     quiet_bus\<lparr>event_fds := replicate 65 (-1), event_counters := replicate 65 0\<rparr>, 3) = Inl Wide_shift"
  by (rule more_than_64_reactors) simp_all

end
